(* ===== verification/Prelude.thy ===== *)
theory Prelude
  imports Main "HOL-Library.Word" "HOL-Library.List_Lexorder"
begin

text \<open>
  Shared vocabulary of the development: bytes, machine integers, exceptions as values, and the
  generic lemmas about fixed-width byte encodings and lexicographic order that the component
  theories build on.

  \<^item> \<open>std::string\<close> and \<open>std::vector<uint8_t>\<close> are both lists of bytes, compared lexicographically
    by unsigned byte (\<open>std::string::compare\<close> and \<open>operator<\<close> of vectors both do that).
  \<^item> \<open>uint64_t\<close> page numbers, versions and sequence numbers are \<open>64 word\<close>. Sizes, indexes and
    \<open>uint16_t\<close> counters are \<open>nat\<close>, with the narrowing casts of the code written out as
    \<open>mod 2 ^ 16\<close>.
  \<^item> A C++ exception, a failed \<open>assert\<close> and an access outside a buffer are values of \<open>exn\<close>; code
    that can raise returns \<open>'a res\<close>.
\<close>

section \<open>Types\<close>

type_synonym byte = "8 word"
type_synonym bytes = "byte list"
type_synonym u64 = "64 word"
type_synonym u32 = "32 word"

text \<open>
  \<open>Bad_access\<close> is a read or write outside the bytes of a buffer (undefined behaviour in C++), and
  \<open>Diverges\<close> marks a recursion that has used up its fuel. Neither is reachable under the
  invariants proved here.
\<close>

datatype exn =
    Invalid_argument string
  | Out_of_range string
  | Logic_error string
  | Runtime_error string
  | Assertion_failed string
  | Bad_access
  | Diverges

type_synonym 'a res = "exn + 'a"

text \<open>A string literal of the source as bytes.\<close>

definition str :: "string \<Rightarrow> bytes" where
  "str s = map of_char s"

section \<open>Sequencing of computations that may raise\<close>

definition rbind :: "'e + 'a \<Rightarrow> ('a \<Rightarrow> 'e + 'b) \<Rightarrow> 'e + 'b" where
  "rbind m f = (case m of Inl e \<Rightarrow> Inl e | Inr x \<Rightarrow> f x)"

lemma rbind_simps [simp]:
  "rbind (Inl e) f = Inl e"
  "rbind (Inr x) f = f x"
  by (simp_all add: rbind_def)

lemma rbind_eq_Inr: "rbind m f = Inr y \<longleftrightarrow> (\<exists>x. m = Inr x \<and> f x = Inr y)"
  by (cases m) simp_all

lemma rbind_cong [fundef_cong]:
  "m = m' \<Longrightarrow> (\<And>x. m' = Inr x \<Longrightarrow> f x = g x) \<Longrightarrow> rbind m f = rbind m' g"
  by (cases m') simp_all

lemma rbind_assoc: "rbind (rbind m f) g = rbind m (\<lambda>x. rbind (f x) g)"
  by (cases m) simp_all

definition check :: "bool \<Rightarrow> exn \<Rightarrow> unit res" where
  "check b e = (if b then Inr () else Inl e)"

lemma check_simps [simp]:
  "check True e = Inr ()"
  "check False e = Inl e"
  by (simp_all add: check_def)

lemma check_eq_Inr [simp]: "check b e = Inr u \<longleftrightarrow> b"
  by (simp add: check_def)

section \<open>Functions that return false with a message\<close>

text \<open>
  A function that returns false with \<open>*err\<close> set returns the message as the left summand of the inner
  sum; the outer sum is for exceptions.
\<close>

type_synonym 'a ql = "(bytes + 'a) res"

definition qbind :: "'a ql \<Rightarrow> ('a \<Rightarrow> 'b ql) \<Rightarrow> 'b ql" where
  "qbind m f = rbind m (\<lambda>r. case r of Inl e \<Rightarrow> Inr (Inl e) | Inr x \<Rightarrow> f x)"

definition qret :: "'a \<Rightarrow> 'a ql" where
  "qret x = Inr (Inr x)"

definition qerr :: "bytes \<Rightarrow> 'a ql" where
  "qerr e = Inr (Inl e)"

lemma qbind_simps [simp]:
  "qbind (Inl x) f = Inl x" "qbind (Inr (Inl e)) f = Inr (Inl e)" "qbind (Inr (Inr a)) f = f a"
  "qbind (qret a) f = f a" "qbind (qerr e) f = qerr e"
  by (simp_all add: qbind_def qret_def qerr_def)

lemma qbind_qret: "qbind m f = qret y \<longleftrightarrow> (\<exists>x. m = qret x \<and> f x = qret y)"
  by (cases m; cases "projr m") (auto simp: qbind_def qret_def)

lemma qret_eq [simp]: "qret a = qret b \<longleftrightarrow> a = b" "qret a \<noteq> qerr e" "qerr e \<noteq> qret a"
  by (simp_all add: qret_def qerr_def)

lemma qbind_cong [fundef_cong]: "m = m' \<Longrightarrow> (\<And>x. m' = qret x \<Longrightarrow> f x = g x) \<Longrightarrow> qbind m f = qbind m' g"
  by (cases m'; cases "projr m'") (simp_all add: qbind_def qret_def)

text \<open>
  An operation that also changes a state keeps it when it returns false; an exception ends everything,
  the state with it. False with \<open>*err\<close> unset is the empty message.
\<close>

type_synonym ('s, 'a) qstep = "'s \<Rightarrow> ((bytes + 'a) \<times> 's) res"

definition sbind :: "('s, 'a) qstep \<Rightarrow> ('a \<Rightarrow> ('s, 'b) qstep) \<Rightarrow> ('s, 'b) qstep" where
  "sbind m f s = rbind (m s) (\<lambda>(r, s). case r of Inl e \<Rightarrow> Inr (Inl e, s) | Inr x \<Rightarrow> f x s)"

definition sret :: "'a \<Rightarrow> ('s, 'a) qstep" where
  "sret x s = Inr (Inr x, s)"

definition serr :: "bytes \<Rightarrow> ('s, 'a) qstep" where
  "serr e s = Inr (Inl e, s)"

text \<open>A computation that only reads the state.\<close>

definition slift :: "'a ql \<Rightarrow> ('s, 'a) qstep" where
  "slift m s = rbind m (\<lambda>r. Inr (r, s))"

lemma sbind_simps [simp]:
  "sbind (sret a) f s = f a s" "sbind (serr e) f s = Inr (Inl e, s)"
  "sbind (slift (qret a)) f s = f a s" "sbind (slift (qerr e)) f s = Inr (Inl e, s)"
  by (simp_all add: sbind_def sret_def serr_def slift_def qret_def qerr_def)

lemma sbind_run:
  "m s = Inr (Inr a, s') \<Longrightarrow> sbind m f s = f a s'" "m s = Inr (Inl e, s') \<Longrightarrow> sbind m f s = Inr (Inl e, s')"
  "m s = Inl x \<Longrightarrow> sbind m f s = Inl x"
  by (simp_all add: sbind_def)

lemma sbind_cong [fundef_cong]:
  "m = m' \<Longrightarrow> s = s' \<Longrightarrow> (\<And>a t. m' s' = Inr (Inr a, t) \<Longrightarrow> f a t = g a t) \<Longrightarrow> sbind m f s = sbind m' g s'"
  by (cases "m' s'") (auto simp: sbind_def split: sum.splits)

section \<open>Fixed-width byte encodings of naturals\<close>

primrec be_bytes :: "nat \<Rightarrow> nat \<Rightarrow> bytes" where
  "be_bytes 0 v = []"
| "be_bytes (Suc n) v = word_of_nat (v div 256 ^ n) # be_bytes n v"

definition be_nat :: "bytes \<Rightarrow> nat" where
  "be_nat bs = foldl (\<lambda>a b. a * 256 + unat b) 0 bs"

primrec le_bytes :: "nat \<Rightarrow> nat \<Rightarrow> bytes" where
  "le_bytes 0 v = []"
| "le_bytes (Suc n) v = word_of_nat v # le_bytes n (v div 256)"

primrec le_nat :: "bytes \<Rightarrow> nat" where
  "le_nat [] = 0"
| "le_nat (b # bs) = unat b + 256 * le_nat bs"

lemma length_be_bytes [simp]: "length (be_bytes n v) = n"
  by (induction n) simp_all

lemma length_le_bytes [simp]: "length (le_bytes n v) = n"
  by (induction n arbitrary: v) simp_all

lemma be_bytes_numeral:
  "be_bytes (numeral k) v = word_of_nat (v div 256 ^ pred_numeral k) # be_bytes (pred_numeral k) v"
  by (simp only: numeral_eq_Suc [of k] be_bytes.simps)

lemma le_bytes_numeral:
  "le_bytes (numeral k) v = word_of_nat v # le_bytes (pred_numeral k) (v div 256)"
  by (simp only: numeral_eq_Suc [of k] le_bytes.simps)

lemma unat_byte_less [simp]: "unat (b :: byte) < 256"
  using unsigned_less [of b] by simp

lemma unat_u64_less: "unat (w :: u64) < 2 ^ 64"
  using unsigned_less [of w] by simp

lemma unat_u32_less: "unat (w :: u32) < 2 ^ 32"
  using unsigned_less [of w] by simp

lemma unat_byte_of_nat [simp]: "unat (word_of_nat v :: byte) = v mod 256"
  by (simp add: unat_of_nat)

lemma byte_of_nat_eqI: "v mod 256 = w mod 256 \<Longrightarrow> (word_of_nat v :: byte) = word_of_nat w"
  by (simp only: word_unat_eq_iff unat_byte_of_nat)

lemma byte_of_nat_unat: "v mod 256 = unat b \<Longrightarrow> (word_of_nat v :: byte) = b"
  by (simp only: word_unat_eq_iff unat_byte_of_nat)

lemma le_nat_le_bytes: "le_nat (le_bytes n v) = v mod 256 ^ n"
proof (induction n arbitrary: v)
  case 0
  then show ?case by simp
next
  case (Suc n)
  then show ?case by (simp add: mod_mult2_eq)
qed

lemma le_bytes_le_nat: "length bs = n \<Longrightarrow> le_bytes n (le_nat bs) = bs"
proof (induction bs arbitrary: n)
  case Nil
  then show ?case by simp
next
  case (Cons b bs)
  have lt: "unat b < 256"
    by (rule unat_byte_less)
  then have "(unat b + 256 * le_nat bs) div 256 = le_nat bs"
    by simp
  moreover have "(word_of_nat (unat b + 256 * le_nat bs) :: byte) = b"
    using lt by (intro byte_of_nat_unat) simp
  ultimately show ?case
    using Cons by (auto simp del: of_nat_add of_nat_mult)
qed

lemma be_nat_append: "be_nat (xs @ ys) = be_nat xs * 256 ^ length ys + be_nat ys"
proof (induction ys rule: rev_induct)
  case Nil
  then show ?case by (simp add: be_nat_def)
next
  case (snoc y ys)
  have "be_nat (xs @ ys @ [y]) = be_nat (xs @ ys) * 256 + unat y"
    by (simp add: be_nat_def)
  moreover have "be_nat (ys @ [y]) = be_nat ys * 256 + unat y"
    by (simp add: be_nat_def)
  ultimately show ?case
    using snoc by (simp add: algebra_simps)
qed

lemma be_nat_Nil [simp]: "be_nat [] = 0"
  by (simp add: be_nat_def)

lemma be_nat_Cons: "be_nat (b # bs) = unat b * 256 ^ length bs + be_nat bs"
  using be_nat_append [of "[b]" bs] by (simp add: be_nat_def)

lemma be_nat_less: "be_nat bs < 256 ^ length bs"
proof (induction bs)
  case Nil
  then show ?case by simp
next
  case (Cons b bs)
  have "be_nat (b # bs) < unat b * 256 ^ length bs + 256 ^ length bs"
    using Cons by (simp add: be_nat_Cons)
  also have "\<dots> = Suc (unat b) * 256 ^ length bs"
    by simp
  also have "\<dots> \<le> 256 * 256 ^ length bs"
    using unat_byte_less [of b] by (intro mult_le_mono1) linarith
  finally show ?case
    by simp
qed

lemma be_nat_be_bytes: "be_nat (be_bytes n v) = v mod 256 ^ n"
proof (induction n)
  case 0
  then show ?case by simp
next
  case (Suc n)
  have "v mod (256 ^ n * 256) = 256 ^ n * (v div 256 ^ n mod 256) + v mod 256 ^ n"
    by (rule mod_mult2_eq)
  with Suc show ?case
    by (simp add: be_nat_Cons mult.commute)
qed

lemma be_bytes_mod: "be_bytes n (v mod 256 ^ m) = be_bytes n v" if "n \<le> m"
  using that
proof (induction n)
  case 0
  then show ?case by simp
next
  case (Suc n)
  then have "256 ^ m = (256 :: nat) ^ n * 256 ^ (m - n)"
    by (metis Suc_leD le_add_diff_inverse power_add)
  then have "(v mod 256 ^ m) div 256 ^ n = (v div 256 ^ n) mod 256 ^ (m - n)"
    by (simp add: mod_mult2_eq)
  moreover have "(word_of_nat ((v div 256 ^ n) mod 256 ^ (m - n)) :: byte)
      = word_of_nat (v div 256 ^ n)"
  proof (rule byte_of_nat_eqI)
    have "(256 :: nat) dvd 256 ^ (m - n)"
      using Suc.prems by (intro dvd_power) auto
    then show "v div 256 ^ n mod 256 ^ (m - n) mod 256 = v div 256 ^ n mod 256"
      by (simp add: mod_mod_cancel)
  qed
  ultimately show ?case
    using Suc by simp
qed

lemma be_bytes_be_nat: "length bs = n \<Longrightarrow> be_bytes n (be_nat bs) = bs"
proof (induction bs arbitrary: n)
  case Nil
  then show ?case by simp
next
  case (Cons b bs)
  then obtain m where m: "n = Suc m" "length bs = m"
    by auto
  have bound: "be_nat bs < 256 ^ m"
    using be_nat_less [of bs] m by simp
  have "be_nat (b # bs) div 256 ^ m = unat b"
    using bound m by (simp add: be_nat_Cons)
  moreover have "be_bytes m (be_nat (b # bs)) = be_bytes m (be_nat bs)"
  proof -
    have "be_nat (b # bs) mod 256 ^ m = be_nat bs"
      using bound m by (simp add: be_nat_Cons)
    then show ?thesis
      using be_bytes_mod [of m m "be_nat (b # bs)"] by simp
  qed
  ultimately show ?case
    using Cons.IH [OF m(2)] m by simp
qed

section \<open>Lexicographic order on byte strings\<close>

lemma less_list_Cons [simp]:
  "((x :: 'a :: linorder) # xs < y # ys) \<longleftrightarrow> x < y \<or> x = y \<and> xs < ys"
  by (auto simp: list_less_def)

lemma less_list_append [simp]: "((xs :: 'a :: linorder list) @ ys < xs @ zs) \<longleftrightarrow> ys < zs"
  by (induction xs) auto

lemma less_list_append_right: "(ys :: 'a :: linorder list) \<noteq> [] \<Longrightarrow> xs < xs @ ys"
  using less_list_append [of xs "[]" ys] by (cases ys) auto

lemma less_list_append_self [simp]: "\<not> (xs :: 'a :: linorder list) @ ys < xs"
  using less_list_append [of xs ys "[]"] by auto

lemma less_list_same_length:
  assumes "length xs = length ys" and "xs \<noteq> ys"
  shows "((xs :: 'a :: linorder list) @ us < ys @ vs) \<longleftrightarrow> xs < ys"
  using assms by (induction xs ys rule: list_induct2) auto

lemma be_nat_less_iff:
  "length xs = length ys \<Longrightarrow> be_nat xs < be_nat ys \<longleftrightarrow> xs < ys"
proof (induction xs ys rule: list_induct2)
  case Nil
  then show ?case by simp
next
  case (Cons x xs y ys)
  have xs: "be_nat xs < 256 ^ length ys" and ys: "be_nat ys < 256 ^ length ys"
    using be_nat_less [of xs] be_nat_less [of ys] Cons.hyps by simp_all
  have step: "unat a * 256 ^ length ys + r < unat b * 256 ^ length ys + s"
    if "unat a < unat b" and "r < 256 ^ length ys" for a b :: byte and r s
  proof -
    have "Suc (unat a) * 256 ^ length ys \<le> unat b * 256 ^ length ys"
      using that(1) by (intro mult_le_mono1) simp
    with that(2) show ?thesis by simp
  qed
  consider "unat x < unat y" | "x = y" | "unat y < unat x"
    by (meson linorder_neqE_nat unsigned_word_eqI)
  then show ?case
  proof cases
    case 1
    then show ?thesis
      using step [OF 1 xs] Cons.hyps by (simp add: be_nat_Cons word_less_nat_alt)
  next
    case 2
    then show ?thesis
      using Cons by (simp add: be_nat_Cons)
  next
    case 3
    then show ?thesis
      using step [OF 3 ys, of "be_nat xs"] Cons.hyps
      by (auto simp: be_nat_Cons word_less_nat_alt)
  qed
qed

lemma be_bytes_less_iff:
  assumes "a < 256 ^ n" and "b < 256 ^ n"
  shows "be_bytes n a < be_bytes n b \<longleftrightarrow> a < b"
  using assms be_nat_less_iff [of "be_bytes n a" "be_bytes n b"]
  by (simp add: be_nat_be_bytes)

section \<open>Ordered maps\<close>

text \<open>A \<open>std::map\<close> is its list of entries in key order; \<open>map_of\<close> reads it.\<close>

fun omap_put :: "'k::linorder \<Rightarrow> 'v \<Rightarrow> ('k \<times> 'v) list \<Rightarrow> ('k \<times> 'v) list" where
  "omap_put k v [] = [(k, v)]"
| "omap_put k v ((k', v') # xs) =
     (if k < k' then (k, v) # (k', v') # xs
      else if k = k' then (k, v) # xs
      else (k', v') # omap_put k v xs)"

lemma map_of_omap_put [simp]: "map_of (omap_put k v xs) = (map_of xs)(k \<mapsto> v)"
  by (induction k v xs rule: omap_put.induct) (auto simp: fun_upd_twist)

lemma set_omap_put_keys: "fst ` set (omap_put k v xs) = insert k (fst ` set xs)"
  by (induction k v xs rule: omap_put.induct) auto

lemma sorted_omap_put: "sorted_wrt (<) (map fst xs) \<Longrightarrow> sorted_wrt (<) (map fst (omap_put k v xs))"
proof (induction k v xs rule: omap_put.induct)
  case (2 k v k' v' xs)
  then show ?case
    using set_omap_put_keys [of k v xs] by (auto simp del: set_map simp: set_map [symmetric])
qed simp

end
