(* ===== verification/Os_File.thy ===== *)
theory Os_File
  imports Prelude
begin

text \<open>
  What the store relies on from the operating system: one file with positioned writes, \<open>fsync\<close> and
  \<open>mmap\<close>. Every call may fail, as the schedule \<open>faults\<close> says (\<open>None\<close>: the call succeeds; \<open>Some k\<close>:
  it fails, a write after \<open>k\<close> bytes); once the schedule is used up all calls succeed. What survives a
  crash is \<open>crash_image\<close>: each byte is the one last synced or one written since, independently of the
  others, except that a write within one sector happens as a whole.
\<close>

record OsFile =
  content :: bytes
  synced :: bytes
  pending :: "(nat \<times> bytes) list"
  faults :: "nat option list"

definition overwrite :: "bytes \<Rightarrow> nat \<Rightarrow> bytes \<Rightarrow> bytes" where
  "overwrite f off d =
     (if d = [] then f else take off f @ replicate (off - length f) 0 @ d @ drop (off + length d) f)"

definition next_fault :: "OsFile \<Rightarrow> nat option \<times> OsFile" where
  "next_fault f = (case faults f of [] \<Rightarrow> (None, f) | x # xs \<Rightarrow> (x, f\<lparr>faults := xs\<rparr>))"

definition put_bytes :: "OsFile \<Rightarrow> nat \<Rightarrow> bytes \<Rightarrow> OsFile" where
  "put_bytes f off d = f\<lparr>content := overwrite (content f) off d, pending := pending f @ [(off, d)]\<rparr>"

text \<open>\<open>pwrite\<close> and \<open>pwritev\<close>, and a \<open>pwrite\<close> within a sector; true if all of it was written.\<close>

definition os_write :: "nat \<Rightarrow> bytes \<Rightarrow> OsFile \<Rightarrow> bool \<times> OsFile" where
  "os_write off d f =
     (case next_fault f of
        (None, f) \<Rightarrow> (True, put_bytes f off d)
      | (Some k, f) \<Rightarrow> (False, put_bytes f off (take k d)))"

definition os_write_sector :: "nat \<Rightarrow> bytes \<Rightarrow> OsFile \<Rightarrow> bool \<times> OsFile" where
  "os_write_sector off d f =
     (case next_fault f of
        (None, f) \<Rightarrow> (True, put_bytes f off d)
      | (Some k, f) \<Rightarrow> (False, if k < length d then f else put_bytes f off d))"

definition os_fsync :: "OsFile \<Rightarrow> bool \<times> OsFile" where
  "os_fsync f =
     (case next_fault f of
        (None, f) \<Rightarrow> (True, f\<lparr>synced := content f, pending := []\<rparr>)
      | (Some k, f) \<Rightarrow> (False, f))"

text \<open>A call that leaves the file as it is: \<open>open\<close>, \<open>fstat\<close>, \<open>pread\<close>, \<open>mmap\<close>, \<open>fsync\<close> of the directory.\<close>

definition os_call :: "OsFile \<Rightarrow> bool \<times> OsFile" where
  "os_call f = (case next_fault f of (x, f) \<Rightarrow> (x = None, f))"

section \<open>What a crash may leave\<close>

definition written_at :: "(nat \<times> bytes) list \<Rightarrow> nat \<Rightarrow> byte \<Rightarrow> bool" where
  "written_at ws i b \<longleftrightarrow> (\<exists>(off, d)\<in>set ws. off \<le> i \<and> i < off + length d \<and> d ! (i - off) = b)"

text \<open>\<open>byte_at f i\<close>: a byte of a file, zero past its end, as in a hole.\<close>

definition byte_at :: "bytes \<Rightarrow> nat \<Rightarrow> byte" where
  "byte_at f i = (if i < length f then f ! i else 0)"

text \<open>The parameter \<open>n\<close> is the size of the first sector's record, which is written as a whole.\<close>

definition crash_image :: "nat \<Rightarrow> OsFile \<Rightarrow> bytes \<Rightarrow> bool" where
  "crash_image n f g \<longleftrightarrow> length (synced f) \<le> length g \<and> length g \<le> length (content f)
     \<and> (\<forall>i<length g. g ! i = byte_at (synced f) i \<or> written_at (pending f) i (g ! i))
     \<and> ((\<forall>i<n. byte_at g i = byte_at (synced f) i) \<or> (\<exists>(off, d)\<in>set (pending f). off = 0 \<and> take n g = take n d \<and> n \<le> length d))"

section \<open>Overwriting\<close>

lemma length_overwrite: "length (overwrite f off d) = (if d = [] then length f else max (length f) (off + length d))"
  by (auto simp: overwrite_def max_def)

lemma byte_at_parts:
  "byte_at (a @ b) i = (if i < length a then byte_at a i else byte_at b (i - length a))"
  "byte_at (replicate k 0) i = 0"
  "byte_at (take k f) i = (if i < k then byte_at f i else 0)"
  "byte_at (drop k f) i = byte_at f (k + i)"
  by (auto simp: byte_at_def nth_append)

lemma byte_at_overwrite:
  "byte_at (overwrite f off d) i = (if off \<le> i \<and> i < off + length d then d ! (i - off) else byte_at f i)"
proof (cases "d = []")
  case False
  define pre where "pre = take off f @ replicate (off - length f) 0"
  have len: "length pre = off"
    by (auto simp: pre_def min_def)
  have pre: "byte_at pre i = byte_at f i" if "i < off"
    using that unfolding pre_def byte_at_parts by (simp add: byte_at_def)
  have eq: "overwrite f off d = pre @ d @ drop (off + length d) f"
    using False by (simp add: overwrite_def pre_def)
  show ?thesis
    unfolding eq byte_at_parts len using pre by (auto simp: byte_at_def)
qed (auto simp: overwrite_def)

lemma byte_at_eqI:
  assumes "length f = length g" and "\<And>i. byte_at f i = byte_at g i"
  shows "f = g"
proof (rule nth_equalityI [OF assms(1)])
  show "f ! i = g ! i" if "i < length f" for i
    using assms that by (metis byte_at_def)
qed

lemma byte_at_nth: "i < length f \<Longrightarrow> f ! i = byte_at f i"
  by (simp add: byte_at_def)

lemma take_byte_at:
  assumes "n \<le> length f" and "n \<le> length g"
  shows "take n f = take n g \<longleftrightarrow> (\<forall>i<n. byte_at f i = byte_at g i)"
  using assms by (auto simp: list_eq_iff_nth_eq byte_at_def)

section \<open>Files that differ in some bytes\<close>

text \<open>\<open>A i b\<close>: the byte \<open>b\<close> may have been written at \<open>i\<close>.\<close>

definition patched :: "(nat \<Rightarrow> byte \<Rightarrow> bool) \<Rightarrow> bytes \<Rightarrow> bytes \<Rightarrow> bool" where
  "patched A g0 g \<longleftrightarrow> length g0 \<le> length g \<and> (\<forall>i<length g. byte_at g i = byte_at g0 i \<or> A i (byte_at g i))"

lemma patched_refl: "patched A g g"
  by (simp add: patched_def)

lemma patched_trans: "patched A g0 g1 \<Longrightarrow> patched A g1 g2 \<Longrightarrow> patched A g0 g2"
  unfolding patched_def by (metis (no_types, lifting) byte_at_def order_trans linorder_not_less)

definition os_wf :: "nat \<Rightarrow> OsFile \<Rightarrow> bool" where
  "os_wf n f \<longleftrightarrow> (\<forall>(off, d)\<in>set (pending f). d \<noteq> [] \<longrightarrow> off + length d \<le> length (content f)) \<and> crash_image n f (content f)"

lemma put_patched: "(\<And>j. j < length d \<Longrightarrow> A (off + j) (d ! j)) \<Longrightarrow> patched A (content f) (content (put_bytes f off d))"
  unfolding patched_def put_bytes_def by (auto simp: byte_at_overwrite length_overwrite dest: le_Suc_ex)

lemma written_at_append: "written_at (ws @ vs) i b \<longleftrightarrow> written_at ws i b \<or> written_at vs i b"
  by (auto simp: written_at_def)

lemma crash_imageD:
  assumes "crash_image n f g"
  shows "length (synced f) \<le> length g" and "length g \<le> length (content f)"
    and "i < length g \<Longrightarrow> byte_at g i = byte_at (synced f) i \<or> written_at (pending f) i (byte_at g i)"
    and "(\<forall>i<n. byte_at g i = byte_at (synced f) i) \<or> (\<exists>(off, d)\<in>set (pending f). off = 0 \<and> take n g = take n d \<and> n \<le> length d)"
  using assms by (auto simp: crash_image_def byte_at_nth)

lemma crash_imageI:
  assumes "length (synced f) \<le> length g" and "length g \<le> length (content f)"
    and "\<And>i. i < length g \<Longrightarrow> byte_at g i = byte_at (synced f) i \<or> written_at (pending f) i (byte_at g i)"
    and "(\<forall>i<n. byte_at g i = byte_at (synced f) i) \<or> (\<exists>(off, d)\<in>set (pending f). off = 0 \<and> take n g = take n d \<and> n \<le> length d)"
  shows "crash_image n f g"
  using assms by (auto simp: crash_image_def byte_at_nth)

lemma os_wf_pending:
  assumes "os_wf n f" and "written_at (pending f) i b"
  shows "i < length (content f)"
  using assms unfolding os_wf_def written_at_def by force

lemma crash_image_content: "os_wf n f \<Longrightarrow> crash_image n f (content f)"
  by (simp add: os_wf_def)

text \<open>A write away from the first sector's record.\<close>

lemma put_wf:
  assumes wf: "os_wf n f" and far: "d \<noteq> [] \<Longrightarrow> n \<le> off"
  shows "os_wf n (put_bytes f off d)"
proof -
  note img = crash_imageD [OF crash_image_content [OF wf]]
  let ?f = "put_bytes f off d"
  have "crash_image n ?f (content ?f)"
  proof (rule crash_imageI)
    show "length (synced ?f) \<le> length (content ?f)"
      using img(1) by (auto simp: put_bytes_def length_overwrite)
    show "byte_at (content ?f) i = byte_at (synced ?f) i \<or> written_at (pending ?f) i (byte_at (content ?f) i)"
      if i: "i < length (content ?f)" for i
    proof (cases "off \<le> i \<and> i < off + length d")
      case True
      then show ?thesis
        by (auto simp: put_bytes_def byte_at_overwrite written_at_def)
    next
      case False
      have "byte_at (content f) i = byte_at (synced f) i \<or> written_at (pending f) i (byte_at (content f) i)"
        using img(1) img(3) [of i] by (cases "i < length (content f)") (auto simp: byte_at_def)
      then show ?thesis
        using False by (auto simp: put_bytes_def byte_at_overwrite written_at_append)
    qed
    have "byte_at (content ?f) i = byte_at (content f) i" if "i < n" for i
      using that far by (cases "d = []") (auto simp: put_bytes_def byte_at_overwrite)
    moreover from this have "take n (content ?f) = take n (content f)" if "n \<le> length (content f)"
      using that by (subst take_byte_at) (auto simp: put_bytes_def length_overwrite)
    moreover have "n \<le> length (content f)" if "(0, e) \<in> set (pending f)" "n \<le> length e" for e
      using wf that by (cases "e = []") (auto simp: os_wf_def)
    ultimately show "(\<forall>i<n. byte_at (content ?f) i = byte_at (synced ?f) i)
        \<or> (\<exists>(off, e)\<in>set (pending ?f). off = 0 \<and> take n (content ?f) = take n e \<and> n \<le> length e)"
      using img(4) by (fastforce simp: put_bytes_def)
  qed simp
  moreover have "\<forall>(off, d)\<in>set (pending ?f). d \<noteq> [] \<longrightarrow> off + length d \<le> length (content ?f)"
    using wf by (fastforce simp: os_wf_def put_bytes_def length_overwrite)
  ultimately show ?thesis
    by (simp add: os_wf_def)
qed

lemma put_crash:
  assumes wf: "os_wf n f" and far: "d \<noteq> [] \<Longrightarrow> n \<le> off" and n: "0 < n"
    and img: "crash_image n (put_bytes f off d) g" and A: "\<And>j. j < length d \<Longrightarrow> A (off + j) (d ! j)"
  shows "\<exists>g0. crash_image n f g0 \<and> patched A g0 g"
proof -
  define old where "old i \<longleftrightarrow> byte_at g i = byte_at (synced f) i \<or> written_at (pending f) i (byte_at g i)" for i
  define g0 where "g0 = map (\<lambda>i. if old i then byte_at g i else byte_at (synced f) i) [0..<min (length g) (length (content f))]"
  have at: "byte_at g0 i = (if old i then byte_at g i else byte_at (synced f) i)"
    if "i < min (length g) (length (content f))" for i
    using that by (simp add: byte_at_def g0_def)
  have len: "length g0 = min (length g) (length (content f))"
    by (simp add: g0_def)
  have synced: "length (synced f) \<le> length (content f)"
    using crash_imageD(1) [OF crash_image_content [OF wf]] .
  note I = crash_imageD [OF img]
  have new: "old i \<or> off \<le> i \<and> i < off + length d \<and> d ! (i - off) = byte_at g i" if "i < length g" for i
    using I(3) [OF that] by (auto simp: put_bytes_def written_at_append old_def written_at_def)
  have "crash_image n f g0"
  proof (rule crash_imageI)
    show "length (synced f) \<le> length g0"
      using I(1) synced by (simp add: len put_bytes_def)
    show "byte_at g0 i = byte_at (synced f) i \<or> written_at (pending f) i (byte_at g0 i)" if "i < length g0" for i
      using that at [of i] by (auto simp: len old_def)
    consider "\<forall>i<n. byte_at g i = byte_at (synced f) i"
      | e where "(0, e) \<in> set (pending f)" "take n g = take n e" "n \<le> length e"
      | "off = 0" "d \<noteq> []"
      using I(4) n by (fastforce simp: put_bytes_def)
    then show "(\<forall>i<n. byte_at g0 i = byte_at (synced f) i)
        \<or> (\<exists>(off, e)\<in>set (pending f). off = 0 \<and> take n g0 = take n e \<and> n \<le> length e)"
    proof cases
      case 1
      have "byte_at g0 i = byte_at (synced f) i" if "i < n" for i
      proof (cases "i < length g0")
        case True
        then show ?thesis
          using at 1 that by (simp add: len)
      next
        case False
        then have "length (synced f) \<le> i"
          using I(1) synced by (auto simp: len put_bytes_def min_def split: if_splits)
        then show ?thesis
          using False by (simp add: byte_at_def)
      qed
      then show ?thesis
        by blast
    next
      case 2
      have "e \<noteq> []"
        using 2(3) n by auto
      then have c: "n \<le> length (content f)"
        using 2(1,3) wf by (auto simp: os_wf_def)
      have g: "n \<le> length g"
        using 2(2,3) by (metis length_take min.absorb2 min.cobounded1)
      have e: "byte_at g i = e ! i" if "i < n" for i
        using 2 g that by (metis byte_at_nth nth_take order_less_le_trans)
      have "old i" if "i < n" for i
        using 2(1,3) that e by (force simp: old_def written_at_def)
      then have "take n g0 = take n g"
        using c g by (subst take_byte_at) (auto simp: len at)
      then show ?thesis
        using 2 by auto
    next
      case 3
      then show ?thesis
        using far n by simp
    qed
  qed (simp add: len)
  moreover have "patched A g0 g"
    unfolding patched_def
  proof (intro conjI allI impI)
    show "length g0 \<le> length g"
      by (simp add: len)
    fix i
    assume i: "i < length g"
    show "byte_at g i = byte_at g0 i \<or> A i (byte_at g i)"
    proof (cases "old i")
      case True
      show ?thesis
      proof (cases "i < length (content f)")
        case False
        then have "\<not> written_at (pending f) i (byte_at g i)"
          using os_wf_pending [OF wf] by blast
        then have "byte_at g i = byte_at (synced f) i"
          using True by (simp add: old_def)
        then show ?thesis
          using False synced by (simp add: byte_at_def len)
      qed (use True i at in simp)
    next
      case False
      then have w: "off \<le> i" "i < off + length d" "d ! (i - off) = byte_at g i"
        using new [OF i] by auto
      then have "A (off + (i - off)) (d ! (i - off))"
        by (intro A) linarith
      then show ?thesis
        using w by simp
    qed
  qed
  ultimately show ?thesis
    by blast
qed

text \<open>Writing the record itself, and making everything durable.\<close>

lemma put_record:
  assumes wf: "os_wf n f" and d: "length d = n" and long: "n \<le> length (synced f)"
    and img: "crash_image n (put_bytes f 0 d) g"
  shows "\<exists>g0. crash_image n f g0 \<and> length g0 = length g \<and> (\<forall>i\<ge>n. byte_at g i = byte_at g0 i)
    \<and> (take n g = take n g0 \<or> take n g = d)"
proof -
  note I = crash_imageD [OF img]
  have long': "n \<le> length (content f)" "n \<le> length g"
    using crash_imageD(1) [OF crash_image_content [OF wf]] long I(1) by (simp_all add: put_bytes_def)
  then have len: "length g \<le> length (content f)"
    using I(2) d by (simp add: put_bytes_def length_overwrite split: if_splits)
  have beyond: "byte_at g i = byte_at (synced f) i \<or> written_at (pending f) i (byte_at g i)" if "n \<le> i" "i < length g" for i
    using I(3) [OF that(2)] that(1) d by (auto simp: put_bytes_def written_at_append written_at_def)
  show ?thesis
  proof (cases "take n g = d")
    case True
    define g0 where "g0 = take n (synced f) @ drop n g"
    have "take n g0 = take n (synced f)"
      using long by (simp add: g0_def)
    moreover have l0: "length g0 = length g"
      using long long' by (simp add: g0_def)
    ultimately have low: "\<forall>i<n. byte_at g0 i = byte_at (synced f) i"
      using take_byte_at long long' by (metis (no_types, lifting))
    have high: "byte_at g i = byte_at g0 i" if "n \<le> i" for i
      using that long long' by (auto simp: byte_at_def l0) (simp add: g0_def nth_append)
    have "crash_image n f g0"
    proof (rule crash_imageI)
      show "byte_at g0 i = byte_at (synced f) i \<or> written_at (pending f) i (byte_at g0 i)" if "i < length g0" for i
        using low high beyond that l0 by (cases "i < n") auto
    qed (use I(1) len l0 low in \<open>simp_all add: put_bytes_def\<close>)
    then show ?thesis
      using True high l0 by blast
  next
    case False
    have meta: "(\<forall>i<n. byte_at g i = byte_at (synced f) i)
        \<or> (\<exists>(off, d)\<in>set (pending f). off = 0 \<and> take n g = take n d \<and> n \<le> length d)"
      using I(4) False d by (auto simp: put_bytes_def)
    have "crash_image n f g"
    proof (rule crash_imageI)
      show "byte_at g i = byte_at (synced f) i \<or> written_at (pending f) i (byte_at g i)" if "i < length g" for i
      proof (cases "i < n")
        case True
        from meta show ?thesis
        proof
          assume "\<exists>(off, d)\<in>set (pending f). off = 0 \<and> take n g = take n d \<and> n \<le> length d"
          then obtain e where e: "(0, e) \<in> set (pending f)" "take n g = take n e" "n \<le> length e"
            by auto
          then have "byte_at g i = e ! i"
            using True that by (metis byte_at_nth nth_take)
          then show ?thesis
            using e True by (force simp: written_at_def)
        qed (use True in simp)
      qed (use beyond that in simp)
    qed (use I(1) len meta in \<open>simp_all add: put_bytes_def\<close>)
    then show ?thesis
      by blast
  qed
qed

lemma put_record_wf:
  assumes wf: "os_wf n f" and d: "length d = n"
  shows "os_wf n (put_bytes f 0 d)"
proof -
  note img = crash_imageD [OF crash_image_content [OF wf]]
  let ?f = "put_bytes f 0 d"
  have "crash_image n ?f (content ?f)"
  proof (rule crash_imageI)
    show "length (synced ?f) \<le> length (content ?f)"
      using img(1) by (auto simp: put_bytes_def length_overwrite)
    show "byte_at (content ?f) i = byte_at (synced ?f) i \<or> written_at (pending ?f) i (byte_at (content ?f) i)"
      if i: "i < length (content ?f)" for i
    proof (cases "i < length d")
      case True
      then show ?thesis
        by (auto simp: put_bytes_def byte_at_overwrite written_at_def)
    next
      case False
      have "byte_at (content f) i = byte_at (synced f) i \<or> written_at (pending f) i (byte_at (content f) i)"
        using img(1) img(3) [of i] by (cases "i < length (content f)") (auto simp: byte_at_def)
      then show ?thesis
        using False by (auto simp: put_bytes_def byte_at_overwrite written_at_append)
    qed
    have "take n (content ?f) = d"
      using d by (auto simp: put_bytes_def overwrite_def)
    then show "(\<forall>i<n. byte_at (content ?f) i = byte_at (synced ?f) i)
        \<or> (\<exists>(off, e)\<in>set (pending ?f). off = 0 \<and> take n (content ?f) = take n e \<and> n \<le> length e)"
      using d by (auto simp: put_bytes_def)
  qed simp
  moreover have "\<forall>(off, d)\<in>set (pending ?f). d \<noteq> [] \<longrightarrow> off + length d \<le> length (content ?f)"
    using wf by (fastforce simp: os_wf_def put_bytes_def length_overwrite)
  ultimately show ?thesis
    by (simp add: os_wf_def)
qed

definition flushed_file :: "OsFile \<Rightarrow> OsFile" where
  "flushed_file f = f\<lparr>synced := content f, pending := []\<rparr>"

lemma flushed_facts:
  "content (flushed_file f) = content f" "os_wf n (flushed_file f)"
  "crash_image n (flushed_file f) g \<longleftrightarrow> g = content f"
proof -
  show "content (flushed_file f) = content f"
    by (simp add: flushed_file_def)
  show eq: "crash_image n (flushed_file f) g \<longleftrightarrow> g = content f" for g
    by (auto simp: crash_image_def flushed_file_def written_at_def byte_at_def intro!: nth_equalityI)
  show "os_wf n (flushed_file f)"
    by (simp add: os_wf_def eq) (simp add: flushed_file_def)
qed

section \<open>Runs of writes\<close>

text \<open>\<open>wrote A f f'\<close>: \<open>f'\<close> came from \<open>f\<close> by writes within \<open>A\<close>, and by calls that leave the file alone.\<close>

definition same_disk :: "OsFile \<Rightarrow> OsFile \<Rightarrow> bool" where
  "same_disk f f' \<longleftrightarrow> content f' = content f \<and> synced f' = synced f \<and> pending f' = pending f"

lemma same_disk_refl [simp]: "same_disk f f"
  by (simp add: same_disk_def)

lemma same_disk_facts:
  assumes "same_disk f f'"
  shows "content f' = content f" and "synced f' = synced f" and "crash_image n f' = crash_image n f" and "os_wf n f' = os_wf n f"
proof -
  show "content f' = content f" "synced f' = synced f" "crash_image n f' = crash_image n f"
    using assms by (simp_all add: same_disk_def fun_eq_iff crash_image_def)
  then show "os_wf n f' = os_wf n f"
    using assms by (simp add: same_disk_def os_wf_def)
qed

inductive wrote :: "(nat \<Rightarrow> byte \<Rightarrow> bool) \<Rightarrow> OsFile \<Rightarrow> OsFile \<Rightarrow> bool" for A where
  none: "same_disk f f' \<Longrightarrow> wrote A f f'"
| put: "wrote A f f' \<Longrightarrow> \<forall>j<length d. A (off + j) (d ! j) \<Longrightarrow> same_disk (put_bytes f' off d) f'' \<Longrightarrow> wrote A f f''"

lemma wrote_trans: "wrote A f' f'' \<Longrightarrow> wrote A f f' \<Longrightarrow> wrote A f f''"
proof (induction arbitrary: f rule: wrote.induct)
  case (none f' f'')
  from none(2,1) show ?case
  proof cases
    case none
    then show ?thesis
      using \<open>same_disk f' f''\<close> by (intro wrote.none) (simp add: same_disk_def)
  next
    case (put f1 d off)
    show ?thesis
      by (rule wrote.put [OF put(1,2)]) (use put(3) \<open>same_disk f' f''\<close> in \<open>simp add: same_disk_def\<close>)
  qed
qed (blast intro: wrote.put)

lemma wrote_mono: "wrote A f f' \<Longrightarrow> (\<And>i b. A i b \<Longrightarrow> B i b) \<Longrightarrow> wrote B f f'"
  by (induction rule: wrote.induct) (auto intro: wrote.intros)

lemma wrote_synced: "wrote A f f' \<Longrightarrow> synced f' = synced f"
  by (induction rule: wrote.induct) (auto simp: same_disk_def put_bytes_def)

lemma wrote_patched: "wrote A f f' \<Longrightarrow> patched A (content f) (content f')"
proof (induction rule: wrote.induct)
  case (put f f' d off f'')
  have "patched A (content f') (content (put_bytes f' off d))"
    using put.hyps(2) by (intro put_patched) blast
  then show ?case
    using put.IH put.hyps(3) patched_trans by (simp add: same_disk_def)
qed (simp add: patched_refl same_disk_def)

lemma wrote_wf: "wrote A f f' \<Longrightarrow> (\<And>i b. A i b \<Longrightarrow> n \<le> i) \<Longrightarrow> os_wf n f \<Longrightarrow> os_wf n f'"
proof (induction rule: wrote.induct)
  case (put f f' d off f'')
  have "n \<le> off" if "d \<noteq> []"
  proof -
    have "A (off + 0) (d ! 0)"
      using put.hyps(2) that by blast
    then show ?thesis
      using put.prems(1) by fastforce
  qed
  then have "os_wf n (put_bytes f' off d)"
    using put by (intro put_wf) auto
  then show ?case
    using same_disk_facts(4) [OF put.hyps(3)] by simp
qed (simp add: same_disk_facts)

lemma wrote_crash:
  "wrote A f f' \<Longrightarrow> (\<And>i b. A i b \<Longrightarrow> n \<le> i) \<Longrightarrow> 0 < n \<Longrightarrow> os_wf n f \<Longrightarrow> crash_image n f' g \<Longrightarrow>
    \<exists>g0. crash_image n f g0 \<and> patched A g0 g"
proof (induction arbitrary: g rule: wrote.induct)
  case (none f f')
  then show ?case
    using patched_refl same_disk_facts(3) by metis
next
  case (put f f' d off f'')
  have "n \<le> off" if "d \<noteq> []"
  proof -
    have "A (off + 0) (d ! 0)"
      using put.hyps(2) that by blast
    then show ?thesis
      using put.prems(1) by fastforce
  qed
  moreover have "os_wf n f'"
    by (rule wrote_wf [OF put.hyps(1) put.prems(1,3)])
  moreover have "crash_image n (put_bytes f' off d) g"
    using put.prems(4) same_disk_facts(3) [OF put.hyps(3)] by simp
  ultimately obtain g1 where "crash_image n f' g1" "patched A g1 g"
    using put_crash [of n f' d off g A] put.hyps(2) put.prems(2) by blast
  moreover from this(1) obtain g0 where "crash_image n f g0" "patched A g0 g1"
    using put.IH put.prems by blast
  ultimately show ?case
    using patched_trans by blast
qed

section \<open>The calls\<close>

lemma next_fault_disk: "next_fault f = (x, f') \<Longrightarrow> same_disk f f'"
  by (auto simp: next_fault_def same_disk_def split: list.splits)

lemma next_fault_none: "faults f = [] \<Longrightarrow> next_fault f = (None, f)"
  by (simp add: next_fault_def)

lemma os_call_disk: "os_call f = (ok, f') \<Longrightarrow> same_disk f f'"
  using next_fault_disk by (auto simp: os_call_def split: prod.splits)

lemma os_write_wrote:
  assumes "os_write off d f = (ok, f')" and "\<forall>j<length d. A (off + j) (d ! j)"
  shows "wrote A f f'" and "ok \<Longrightarrow> content f' = overwrite (content f) off d"
proof -
  obtain x f1 where x: "next_fault f = (x, f1)"
    by (cases "next_fault f")
  have same: "same_disk f f1"
    by (rule next_fault_disk [OF x])
  have "\<exists>k. f' = put_bytes f1 off (take k d)"
    using assms(1) x by (auto simp: os_write_def split: option.splits intro: exI [of _ "length d"])
  then obtain k where f': "f' = put_bytes f1 off (take k d)"
    by blast
  have "wrote A f f1"
    using same by (rule wrote.none)
  then show "wrote A f f'"
    by (rule wrote.put [of _ _ _ "take k d" off]) (use assms(2) f' in auto)
  show "content f' = overwrite (content f) off d" if ok
    using assms(1) x same that by (auto simp: os_write_def put_bytes_def same_disk_def split: option.splits)
qed

lemma os_fsync_cases:
  assumes "os_fsync f = (ok, f')"
  shows "ok \<and> same_disk (flushed_file f) f' \<or> \<not> ok \<and> same_disk f f'"
  using assms next_fault_disk [of f]
  by (auto simp: os_fsync_def flushed_file_def same_disk_def split: prod.splits option.splits)

lemma os_write_sector_cases:
  assumes "os_write_sector off d f = (ok, f')"
  shows "same_disk (put_bytes f off d) f' \<or> \<not> ok \<and> same_disk f f'"
  using assms next_fault_disk [of f]
  by (auto simp: os_write_sector_def put_bytes_def same_disk_def split: prod.splits option.splits if_splits)

lemma no_faults:
  assumes "faults f = []"
  shows "os_call f = (True, f)" and "os_write off d f = (True, put_bytes f off d)"
    and "os_write_sector off d f = (True, put_bytes f off d)" and "os_fsync f = (True, flushed_file f)"
  using next_fault_none [OF assms]
  by (simp_all add: os_call_def os_write_def os_write_sector_def os_fsync_def flushed_file_def)

lemma faults_kept [simp]: "faults (put_bytes f off d) = faults f" "faults (flushed_file f) = faults f"
  by (simp_all add: put_bytes_def flushed_file_def)

end
