(* ===== verification/BNode.thy ===== *)
theory BNode
  imports Prelude
begin

text \<open>
  The B+tree node of \<open>storage/btree\<close>, byte for byte: a page holding a header, child pointers, end
  offsets and key-value data, with the accessors and the node-level operations (append, insert,
  update, delete, merge, split, lookup) that build new pages from old ones.

  The contract is an abstraction to a list of entries (child pointer, key, value): under
  \<open>node_is d t es\<close> every accessor reads what \<open>es\<close> says, inside the page, and every operation builds a
  page for the list operation it is named after.
\<close>

section \<open>Bytes of a page\<close>

text \<open>\<open>memcpy\<close> from and to a buffer. An access outside it is undefined behaviour in C++.\<close>

definition load :: "bytes \<Rightarrow> nat \<Rightarrow> nat \<Rightarrow> bytes res" where
  "load d pos n = (if pos + n \<le> length d then Inr (take n (drop pos d)) else Inl Bad_access)"

definition store :: "bytes \<Rightarrow> nat \<Rightarrow> bytes \<Rightarrow> bytes res" where
  "store d pos bs =
     (if pos + length bs \<le> length d then Inr (take pos d @ bs @ drop (pos + length bs) d)
      else Inl Bad_access)"

text \<open>Native integers are stored little-endian.\<close>

definition write_u16 :: "bytes \<Rightarrow> nat \<Rightarrow> nat \<Rightarrow> bytes res" where
  "write_u16 d pos v = store d pos (le_bytes 2 v)"

definition write_u64 :: "bytes \<Rightarrow> nat \<Rightarrow> u64 \<Rightarrow> bytes res" where
  "write_u64 d pos v = store d pos (le_bytes 8 (unat v))"

definition read_u16 :: "bytes \<Rightarrow> nat \<Rightarrow> nat res" where
  "read_u16 d pos = rbind (load d pos 2) (\<lambda>bs. Inr (le_nat bs))"

definition read_u64 :: "bytes \<Rightarrow> nat \<Rightarrow> u64 res" where
  "read_u64 d pos = rbind (load d pos 8) (\<lambda>bs. Inr (word_of_nat (le_nat bs)))"

text \<open>Conversion to \<open>uint16_t\<close>, and of a difference computed in \<open>int\<close>.\<close>

definition u16 :: "nat \<Rightarrow> nat" where
  "u16 n = n mod 2 ^ 16"

definition u16_sub :: "nat \<Rightarrow> nat \<Rightarrow> nat" where
  "u16_sub a b = nat ((int a - int b) mod 2 ^ 16)"

section \<open>The node\<close>

type_synonym bnode = bytes

definition BNODE_NODE :: nat where "BNODE_NODE = 1"
definition BNODE_LEAF :: nat where "BNODE_LEAF = 2"
definition BTREE_PAGE_SIZE :: nat where "BTREE_PAGE_SIZE = 4096"
definition BTREE_MAX_KEY_SIZE :: nat where "BTREE_MAX_KEY_SIZE = 1000"
definition BTREE_MAX_VAL_SIZE :: nat where "BTREE_MAX_VAL_SIZE = 1000"

definition BNode :: "nat \<Rightarrow> bnode" where
  "BNode sz = replicate sz 0"

definition btype :: "bnode \<Rightarrow> nat res" where
  "btype d = read_u16 d 0"

definition nkeys :: "bnode \<Rightarrow> nat res" where
  "nkeys d = read_u16 d 2"

definition set_header :: "bnode \<Rightarrow> nat \<Rightarrow> nat \<Rightarrow> bnode res" where
  "set_header d type n = rbind (write_u16 d 0 type) (\<lambda>d. write_u16 d 2 n)"

definition ptrs_offset :: nat where
  "ptrs_offset = 4"

definition offsets_offset :: "bnode \<Rightarrow> nat res" where
  "offsets_offset d = rbind (nkeys d) (\<lambda>n. Inr (ptrs_offset + n * 8))"

definition kv_base_offset :: "bnode \<Rightarrow> nat res" where
  "kv_base_offset d =
     rbind (offsets_offset d) (\<lambda>off. rbind (nkeys d) (\<lambda>n. Inr (off + n * 2)))"

definition get_ptr :: "bnode \<Rightarrow> nat \<Rightarrow> u64 res" where
  "get_ptr d idx = read_u64 d (ptrs_offset + idx * 8)"

definition set_ptr :: "bnode \<Rightarrow> nat \<Rightarrow> u64 \<Rightarrow> bnode res" where
  "set_ptr d idx ptr = write_u64 d (ptrs_offset + idx * 8) ptr"

definition get_offset :: "bnode \<Rightarrow> nat \<Rightarrow> nat res" where
  "get_offset d idx =
     (if idx = 0 then Inr 0
      else rbind (offsets_offset d) (\<lambda>off. read_u16 d (off + (idx - 1) * 2)))"

text \<open>\<open>idx - 1\<close> is computed in \<open>int\<close>: index 0 would write before the table.\<close>

definition set_offset :: "bnode \<Rightarrow> nat \<Rightarrow> nat \<Rightarrow> bnode res" where
  "set_offset d idx offset =
     rbind (offsets_offset d)
       (\<lambda>off. if idx = 0 then Inl Bad_access else write_u16 d (off + (idx - 1) * 2) offset)"

definition kv_pos :: "bnode \<Rightarrow> nat \<Rightarrow> nat res" where
  "kv_pos d idx =
     rbind (kv_base_offset d) (\<lambda>base. rbind (get_offset d idx) (\<lambda>off. Inr (base + off)))"

definition get_key :: "bnode \<Rightarrow> nat \<Rightarrow> bytes res" where
  "get_key d idx =
     rbind (kv_pos d idx) (\<lambda>pos.
     rbind (read_u16 d pos) (\<lambda>klen.
     load d (pos + 4) klen))"

definition get_val :: "bnode \<Rightarrow> nat \<Rightarrow> bytes res" where
  "get_val d idx =
     rbind (kv_pos d idx) (\<lambda>pos.
     rbind (read_u16 d pos) (\<lambda>klen.
     rbind (read_u16 d (pos + 2)) (\<lambda>vlen.
     load d (pos + 4 + klen) vlen)))"

definition nbytes :: "bnode \<Rightarrow> nat res" where
  "nbytes d = rbind (nkeys d) (\<lambda>n. rbind (kv_pos d n) (\<lambda>pos. Inr (u16 pos)))"

definition node_append_kv :: "bnode \<Rightarrow> nat \<Rightarrow> u64 \<Rightarrow> bytes \<Rightarrow> bytes \<Rightarrow> bnode res" where
  "node_append_kv d idx ptr key val =
     rbind (set_ptr d idx ptr) (\<lambda>d.
     rbind (kv_pos d idx) (\<lambda>pos.
     let klen = u16 (length key); vlen = u16 (length val) in
     rbind (check (length key \<le> BTREE_MAX_KEY_SIZE) (Assertion_failed ''key.size()'')) (\<lambda>_.
     rbind (check (length val \<le> BTREE_MAX_VAL_SIZE) (Assertion_failed ''val.size()'')) (\<lambda>_.
     rbind (check (pos + 4 + klen + vlen \<le> length d) (Assertion_failed ''node overflow'')) (\<lambda>_.
     rbind (write_u16 d pos klen) (\<lambda>d.
     rbind (write_u16 d (pos + 2) vlen) (\<lambda>d.
     rbind (store d (pos + 4) (take klen key)) (\<lambda>d.
     rbind (store d (pos + 4 + klen) (take vlen val)) (\<lambda>d.
     rbind (get_offset d idx) (\<lambda>off.
     set_offset d (u16 (idx + 1)) (u16 (off + 4 + klen + vlen))))))))))))"

definition encode :: "bnode \<Rightarrow> bytes res" where
  "encode d =
     rbind (nbytes d) (\<lambda>used.
     rbind (check (used \<le> BTREE_PAGE_SIZE) (Assertion_failed ''used <= BTREE_PAGE_SIZE'')) (\<lambda>_.
     rbind (load d 0 used) (\<lambda>bs.
     store (replicate BTREE_PAGE_SIZE 0) 0 bs)))"

definition decode :: "bytes \<Rightarrow> bnode res" where
  "decode page =
     rbind (check (length page = BTREE_PAGE_SIZE) (Assertion_failed ''page.size()'')) (\<lambda>_.
     Inr page)"

section \<open>Building nodes from nodes\<close>

text \<open>The loop of \<open>node_append_range\<close> at index \<open>i\<close> with \<open>m\<close> rounds left.\<close>

fun append_range_loop :: "bnode \<Rightarrow> bnode \<Rightarrow> nat \<Rightarrow> nat \<Rightarrow> nat \<Rightarrow> nat \<Rightarrow> bnode res" where
  "append_range_loop new old dst_new src_old i 0 = Inr new"
| "append_range_loop new old dst_new src_old i (Suc m) =
     (let dst = u16 (dst_new + i); src = u16 (src_old + i) in
     rbind (get_ptr old src) (\<lambda>p.
     rbind (get_key old src) (\<lambda>k.
     rbind (get_val old src) (\<lambda>v.
     rbind (node_append_kv new dst p k v) (\<lambda>new.
     append_range_loop new old dst_new src_old (Suc i) m)))))"

definition node_append_range :: "bnode \<Rightarrow> bnode \<Rightarrow> nat \<Rightarrow> nat \<Rightarrow> nat \<Rightarrow> bnode res" where
  "node_append_range new old dst_new src_old n = append_range_loop new old dst_new src_old 0 n"

definition leaf_insert :: "bnode \<Rightarrow> bnode \<Rightarrow> nat \<Rightarrow> bytes \<Rightarrow> bytes \<Rightarrow> bnode res" where
  "leaf_insert new old idx key val =
     rbind (nkeys old) (\<lambda>n.
     rbind (set_header new BNODE_LEAF (u16 (n + 1))) (\<lambda>new.
     rbind (node_append_range new old 0 0 idx) (\<lambda>new.
     rbind (node_append_kv new idx 0 key val) (\<lambda>new.
     node_append_range new old (u16 (idx + 1)) idx (u16_sub n idx)))))"

definition leaf_update :: "bnode \<Rightarrow> bnode \<Rightarrow> nat \<Rightarrow> bytes \<Rightarrow> bytes \<Rightarrow> bnode res" where
  "leaf_update new old idx key val =
     rbind (nkeys old) (\<lambda>n.
     rbind (set_header new BNODE_LEAF n) (\<lambda>new.
     rbind (node_append_range new old 0 0 idx) (\<lambda>new.
     rbind (node_append_kv new idx 0 key val) (\<lambda>new.
     node_append_range new old (u16 (idx + 1)) (u16 (idx + 1)) (u16_sub n (idx + 1))))))"

definition leaf_delete :: "bnode \<Rightarrow> bnode \<Rightarrow> nat \<Rightarrow> bnode res" where
  "leaf_delete new old idx =
     rbind (nkeys old) (\<lambda>n.
     rbind (set_header new BNODE_LEAF (u16_sub n 1)) (\<lambda>new.
     rbind (node_append_range new old 0 0 idx) (\<lambda>new.
     node_append_range new old idx (u16 (idx + 1)) (u16_sub n (idx + 1)))))"

definition node_merge :: "bnode \<Rightarrow> bnode \<Rightarrow> bnode \<Rightarrow> bnode res" where
  "node_merge new left right =
     rbind (btype left) (\<lambda>t.
     rbind (nkeys left) (\<lambda>nl.
     rbind (nkeys right) (\<lambda>nr.
     rbind (set_header new t (u16 (nl + nr))) (\<lambda>new.
     rbind (node_append_range new left 0 0 nl) (\<lambda>new.
     node_append_range new right nl 0 nr)))))"

definition node_replace_2_child :: "bnode \<Rightarrow> bnode \<Rightarrow> nat \<Rightarrow> u64 \<Rightarrow> bytes \<Rightarrow> bnode res" where
  "node_replace_2_child new old idx ptr key =
     rbind (nkeys old) (\<lambda>n.
     rbind (set_header new BNODE_NODE (u16_sub n 1)) (\<lambda>new.
     rbind (node_append_range new old 0 0 idx) (\<lambda>new.
     rbind (node_append_kv new idx ptr key []) (\<lambda>new.
     node_append_range new old (u16 (idx + 1)) (u16 (idx + 2)) (u16_sub n (idx + 2))))))"

section \<open>Lookup\<close>

function lookup_le_loop :: "bnode \<Rightarrow> bytes \<Rightarrow> int \<Rightarrow> int \<Rightarrow> int \<Rightarrow> int res" where
  "lookup_le_loop node key lo hi result =
     (if lo \<le> hi then
        let mid = lo + (hi - lo) div 2 in
        rbind (get_key node (nat (mid mod 2 ^ 16))) (\<lambda>cur.
          if cur = key then Inr mid
          else if cur < key then lookup_le_loop node key (mid + 1) hi mid
          else lookup_le_loop node key lo (mid - 1) result)
      else Inr result)"
  by pat_completeness auto
termination
  by (relation "measure (\<lambda>(_, _, lo, hi, _). nat (hi - lo + 1))") auto

declare lookup_le_loop.simps [simp del]

definition node_lookup_le :: "bnode \<Rightarrow> bytes \<Rightarrow> int res" where
  "node_lookup_le node key = rbind (nkeys node) (\<lambda>n. lookup_le_loop node key 0 (int n - 1) (- 1))"

section \<open>Split\<close>

definition left_size :: "bnode \<Rightarrow> nat \<Rightarrow> nat res" where
  "left_size old nleft =
     rbind (get_offset old nleft) (\<lambda>off. Inr (u16 (4 + 8 * nleft + 2 * nleft + off)))"

definition right_size :: "bnode \<Rightarrow> nat \<Rightarrow> nat res" where
  "right_size old left_bytes =
     rbind (nbytes old) (\<lambda>n. Inr (nat ((int n - int left_bytes + 4) mod 2 ^ 16)))"

text \<open>
  The two loops of \<open>node_split\<close>: the left half shrinks until it fits, then grows until the right
  half fits. The first stops at 0 keys at the latest. The second reads the offset table one entry
  further each round, so a page of at most 65535 bytes stops it within 65536 rounds (its fuel).
\<close>

fun split_shrink :: "bnode \<Rightarrow> nat \<Rightarrow> (nat \<times> nat) res" where
  "split_shrink old nleft =
     rbind (left_size old nleft) (\<lambda>left_bytes.
       if left_bytes > BTREE_PAGE_SIZE then
         (case nleft of 0 \<Rightarrow> Inl Diverges | Suc m \<Rightarrow> split_shrink old m)
       else Inr (nleft, left_bytes))"

declare split_shrink.simps [simp del]

fun split_grow :: "nat \<Rightarrow> bnode \<Rightarrow> nat \<Rightarrow> nat \<Rightarrow> nat res" where
  "split_grow 0 old nleft left_bytes = Inl Diverges"
| "split_grow (Suc fuel) old nleft left_bytes =
     rbind (right_size old left_bytes) (\<lambda>right_bytes.
       if right_bytes > BTREE_PAGE_SIZE then
         rbind (left_size old (u16 (nleft + 1))) (\<lambda>left_bytes.
           split_grow fuel old (u16 (nleft + 1)) left_bytes)
       else Inr nleft)"

definition node_split :: "bnode \<Rightarrow> bnode \<Rightarrow> bnode \<Rightarrow> (bnode \<times> bnode) res" where
  "node_split left right old =
     rbind (nkeys old) (\<lambda>n.
     rbind (check (n \<ge> 2) (Assertion_failed ''old.nkeys() >= 2'')) (\<lambda>_.
     rbind (split_shrink old (n div 2)) (\<lambda>(nleft, left_bytes).
     rbind (check (nleft \<ge> 1) (Assertion_failed ''nleft >= 1'')) (\<lambda>_.
     rbind (split_grow (2 ^ 16) old nleft left_bytes) (\<lambda>nleft.
     rbind (check (nleft < n) (Assertion_failed ''nleft < old.nkeys()'')) (\<lambda>_.
     let nright = u16_sub n nleft in
     rbind (btype old) (\<lambda>t.
     rbind (set_header left t nleft) (\<lambda>left.
     rbind (set_header right t nright) (\<lambda>right.
     rbind (node_append_range left old 0 0 nleft) (\<lambda>left.
     rbind (node_append_range right old 0 nleft nright) (\<lambda>right.
     rbind (nbytes left) (\<lambda>lb.
     rbind (check (lb \<le> BTREE_PAGE_SIZE) (Assertion_failed ''left.nbytes()'')) (\<lambda>_.
     rbind (nbytes right) (\<lambda>rb.
     rbind (check (rb \<le> BTREE_PAGE_SIZE) (Assertion_failed ''right.nbytes()'')) (\<lambda>_.
     Inr (left, right))))))))))))))))"

definition node_split_if_needed :: "bnode \<Rightarrow> bnode list res" where
  "node_split_if_needed node =
     rbind (nbytes node) (\<lambda>n.
       if n \<le> BTREE_PAGE_SIZE then Inr [node]
       else rbind (node_split (BNode BTREE_PAGE_SIZE) (BNode BTREE_PAGE_SIZE) node)
              (\<lambda>(left, right). Inr [left, right]))"

end
