(* ===== verification/BTree.thy ===== *)
theory BTree
  imports BNode
begin

text \<open>
  The B+tree of \<open>storage/btree\<close> over an abstract page manager. \<open>IPageManager\<close> is the C++ interface of
  three virtual functions; its implementation's state is threaded explicitly, so every page read,
  page allocation and page release of the code is a call here, in the code's order.

  The recursion of \<open>tree_insert\<close> and \<open>tree_delete\<close> follows page numbers, which nothing in the types
  bounds; each level of the tree uses up one unit of fuel, and running out is \<open>Diverges\<close>.
  \<open>TREE_FUEL\<close> exceeds the height of every tree with distinct 64-bit page numbers.
\<close>

record 's IPageManager =
  pm_get :: "'s \<Rightarrow> u64 \<Rightarrow> bnode res"
  pm_new_page :: "'s \<Rightarrow> bnode \<Rightarrow> (u64 \<times> 's) res"
  pm_del :: "'s \<Rightarrow> u64 \<Rightarrow> 's res"

definition TREE_FUEL :: nat where
  "TREE_FUEL = 2 ^ 64"

section \<open>Insertion\<close>

text \<open>The loop of \<open>node_replace_child_n\<close> that persists and links the children, from child \<open>i\<close>.\<close>

fun link_children ::
  "'s IPageManager \<Rightarrow> 's \<Rightarrow> bnode \<Rightarrow> nat \<Rightarrow> nat \<Rightarrow> bnode list \<Rightarrow> (bnode \<times> 's) res" where
  "link_children pm s new idx i [] = Inr (new, s)"
| "link_children pm s new idx i (c # cs) =
     rbind (pm_new_page pm s c) (\<lambda>(p, s).
     rbind (get_key c 0) (\<lambda>k.
     rbind (node_append_kv new (u16 (idx + i)) p k []) (\<lambda>new.
     link_children pm s new idx (Suc i) cs)))"

definition node_replace_child_n ::
  "'s IPageManager \<Rightarrow> 's \<Rightarrow> bnode \<Rightarrow> bnode \<Rightarrow> nat \<Rightarrow> bnode list \<Rightarrow> (bnode \<times> 's) res" where
  "node_replace_child_n pm s new old idx children =
     (let inc = u16 (length children) in
     rbind (nkeys old) (\<lambda>n.
     rbind (set_header new BNODE_NODE (u16_sub (n + inc) 1)) (\<lambda>new.
     rbind (node_append_range new old 0 0 idx) (\<lambda>new.
     rbind (link_children pm s new idx 0 children) (\<lambda>(new, s).
     rbind (node_append_range new old (u16 (idx + inc)) (u16 (idx + 1)) (u16_sub n (idx + 1)))
       (\<lambda>new. Inr (new, s)))))))"

function (sequential) tree_insert ::
    "'s IPageManager \<Rightarrow> nat \<Rightarrow> 's \<Rightarrow> bnode \<Rightarrow> bytes \<Rightarrow> bytes \<Rightarrow> (bnode \<times> 's) res"
  and node_insert ::
    "'s IPageManager \<Rightarrow> nat \<Rightarrow> 's \<Rightarrow> bnode \<Rightarrow> bnode \<Rightarrow> nat \<Rightarrow> bytes \<Rightarrow> bytes \<Rightarrow> (bnode \<times> 's) res"
where
  "tree_insert pm fuel s node key val =
     (if fuel = 0 then Inl Diverges else
      let new_node = BNode (2 * BTREE_PAGE_SIZE) in
      rbind (node_lookup_le node key) (\<lambda>idx.
      rbind (btype node) (\<lambda>t.
      if t = BNODE_LEAF then
        rbind (if idx \<ge> 0 then rbind (get_key node (u16 (nat idx))) (\<lambda>k. Inr (k = key)) else Inr False)
          (\<lambda>found.
          if found then
            rbind (leaf_update new_node node (u16 (nat idx)) key val) (\<lambda>new. Inr (new, s))
          else
            rbind (leaf_insert new_node node (u16 (nat (idx + 1))) key val) (\<lambda>new. Inr (new, s)))
      else if t = BNODE_NODE then
        rbind (check (idx \<ge> 0) (Assertion_failed ''idx >= 0'')) (\<lambda>_.
        node_insert pm (fuel - 1) s new_node node (u16 (nat idx)) key val)
      else Inl (Assertion_failed ''tree_insert: bad node type''))))"
| "node_insert pm fuel s new_node old idx key val =
     rbind (get_ptr old idx) (\<lambda>child_ptr.
     rbind (pm_get pm s child_ptr) (\<lambda>child.
     rbind (tree_insert pm fuel s child key val) (\<lambda>(updated, s).
     rbind (node_split_if_needed updated) (\<lambda>split.
     rbind (pm_del pm s child_ptr) (\<lambda>s.
     node_replace_child_n pm s new_node old idx split)))))"
  by pat_completeness auto
termination
  by (relation "measure (case_sum (\<lambda>(_, fuel, _). 2 * fuel) (\<lambda>(_, fuel, _). 2 * fuel + 1))") auto

declare tree_insert.simps [simp del] node_insert.simps [simp del]

section \<open>Deletion\<close>

datatype MergeDirection = MergeNone | MergeLeft | MergeRight

definition merged_size :: "nat \<Rightarrow> nat \<Rightarrow> nat" where
  "merged_size a b = nat ((int a + int b - int ptrs_offset) mod 2 ^ 32)"

definition should_merge ::
  "'s IPageManager \<Rightarrow> 's \<Rightarrow> bnode \<Rightarrow> nat \<Rightarrow> bnode \<Rightarrow> (MergeDirection \<times> bnode) res" where
  "should_merge pm s node idx updated =
     rbind (nbytes updated) (\<lambda>ub.
     if ub > BTREE_PAGE_SIZE div 4 then Inr (MergeNone, BNode BTREE_PAGE_SIZE) else
     rbind
       (if idx > 0 then
          rbind (get_ptr node (idx - 1)) (\<lambda>p.
          rbind (pm_get pm s p) (\<lambda>sibling.
          rbind (nbytes sibling) (\<lambda>sb.
          Inr (if merged_size sb ub \<le> BTREE_PAGE_SIZE then Some sibling else None))))
        else Inr None)
       (\<lambda>left. case left of Some sibling \<Rightarrow> Inr (MergeLeft, sibling) | None \<Rightarrow>
     rbind (nkeys node) (\<lambda>n.
     rbind
       (if idx + 1 < n then
          rbind (get_ptr node (idx + 1)) (\<lambda>p.
          rbind (pm_get pm s p) (\<lambda>sibling.
          rbind (nbytes sibling) (\<lambda>sb.
          Inr (if merged_size sb ub \<le> BTREE_PAGE_SIZE then Some sibling else None))))
        else Inr None)
       (\<lambda>right. case right of Some sibling \<Rightarrow> Inr (MergeRight, sibling) | None \<Rightarrow>
     Inr (MergeNone, BNode BTREE_PAGE_SIZE)))))"

text \<open>
  A deletion that finds nothing returns a node with empty \<open>data\<close>, the empty byte list here.
\<close>

function (sequential) tree_delete ::
    "'s IPageManager \<Rightarrow> nat \<Rightarrow> 's \<Rightarrow> bnode \<Rightarrow> bytes \<Rightarrow> (bnode \<times> 's) res"
  and node_delete ::
    "'s IPageManager \<Rightarrow> nat \<Rightarrow> 's \<Rightarrow> bnode \<Rightarrow> nat \<Rightarrow> bytes \<Rightarrow> (bnode \<times> 's) res"
where
  "tree_delete pm fuel s node key =
     (if fuel = 0 then Inl Diverges else
      rbind (node_lookup_le node key) (\<lambda>idx.
      rbind (btype node) (\<lambda>t.
      if t = BNODE_LEAF then
        rbind (if idx \<ge> 0 then rbind (get_key node (u16 (nat idx))) (\<lambda>k. Inr (k = key)) else Inr False)
          (\<lambda>found.
          if found then
            rbind (leaf_delete (BNode BTREE_PAGE_SIZE) node (u16 (nat idx))) (\<lambda>new. Inr (new, s))
          else Inr ([], s))
      else if t = BNODE_NODE then
        rbind (check (idx \<ge> 0) (Assertion_failed ''idx >= 0'')) (\<lambda>_.
        node_delete pm (fuel - 1) s node (u16 (nat idx)) key)
      else Inl (Assertion_failed ''tree_delete: bad node type''))))"
| "node_delete pm fuel s old idx key =
     rbind (get_ptr old idx) (\<lambda>child_ptr.
     rbind (pm_get pm s child_ptr) (\<lambda>child.
     rbind (tree_delete pm fuel s child key) (\<lambda>(updated, s).
     if updated = [] then Inr ([], s) else
     rbind (pm_del pm s child_ptr) (\<lambda>s.
     let new_node = BNode BTREE_PAGE_SIZE in
     rbind (should_merge pm s old idx updated) (\<lambda>(dir, sibling).
     case dir of
       MergeLeft \<Rightarrow>
         rbind (node_merge (BNode BTREE_PAGE_SIZE) sibling updated) (\<lambda>merged.
         rbind (get_ptr old (idx - 1)) (\<lambda>p.
         rbind (pm_del pm s p) (\<lambda>s.
         rbind (pm_new_page pm s merged) (\<lambda>(q, s).
         rbind (get_key merged 0) (\<lambda>k.
         rbind (node_replace_2_child new_node old (idx - 1) q k) (\<lambda>new. Inr (new, s)))))))
     | MergeRight \<Rightarrow>
         rbind (node_merge (BNode BTREE_PAGE_SIZE) updated sibling) (\<lambda>merged.
         rbind (get_ptr old (idx + 1)) (\<lambda>p.
         rbind (pm_del pm s p) (\<lambda>s.
         rbind (pm_new_page pm s merged) (\<lambda>(q, s).
         rbind (get_key merged 0) (\<lambda>k.
         rbind (node_replace_2_child new_node old idx q k) (\<lambda>new. Inr (new, s)))))))
     | MergeNone \<Rightarrow>
         rbind (nkeys updated) (\<lambda>un.
         if un = 0 then
           rbind (nkeys old) (\<lambda>n.
           rbind (check (n = 1 \<and> idx = 0) (Assertion_failed ''old.nkeys() == 1 && idx == 0'')) (\<lambda>_.
           rbind (set_header new_node BNODE_NODE 0) (\<lambda>new. Inr (new, s))))
         else node_replace_child_n pm s new_node old idx [updated]))))))"
  by pat_completeness auto
termination
  by (relation "measure (case_sum (\<lambda>(_, fuel, _). 2 * fuel) (\<lambda>(_, fuel, _). 2 * fuel + 1))") auto

declare tree_delete.simps [simp del] node_delete.simps [simp del]

section \<open>The tree\<close>

definition check_key_limit :: "bytes \<Rightarrow> unit res" where
  "check_key_limit key =
     (if key = [] then Inl (Invalid_argument ''empty key'')
      else if length key > BTREE_MAX_KEY_SIZE then Inl (Invalid_argument ''key too large'')
      else Inr ())"

definition check_limit :: "bytes \<Rightarrow> bytes \<Rightarrow> unit res" where
  "check_limit key val =
     rbind (check_key_limit key) (\<lambda>_.
       if length val > BTREE_MAX_VAL_SIZE then Inl (Invalid_argument ''value too large'') else Inr ())"

text \<open>The new root's links to the halves of a split root, from child \<open>i\<close>.\<close>

fun link_root ::
  "'s IPageManager \<Rightarrow> 's \<Rightarrow> bnode \<Rightarrow> nat \<Rightarrow> bnode list \<Rightarrow> (bnode \<times> 's) res" where
  "link_root pm s new i [] = Inr (new, s)"
| "link_root pm s new i (c # cs) =
     rbind (pm_new_page pm s c) (\<lambda>(p, s).
     rbind (get_key c 0) (\<lambda>k.
     rbind (node_append_kv new i p k []) (\<lambda>new.
     link_root pm s new (Suc i) cs)))"

definition BTree_insert ::
  "'s IPageManager \<Rightarrow> u64 \<Rightarrow> 's \<Rightarrow> bytes \<Rightarrow> bytes \<Rightarrow> (u64 \<times> 's) res" where
  "BTree_insert pm root s key val =
     rbind (check_limit key val) (\<lambda>_.
     if root = 0 then
       rbind (set_header (BNode BTREE_PAGE_SIZE) BNODE_LEAF 2) (\<lambda>new_root.
       rbind (node_append_kv new_root 0 0 [] []) (\<lambda>new_root.
       rbind (node_append_kv new_root 1 0 key val) (\<lambda>new_root.
       pm_new_page pm s new_root)))
     else
       rbind (pm_get pm s root) (\<lambda>node.
       rbind (tree_insert pm TREE_FUEL s node key val) (\<lambda>(updated, s).
       rbind (node_split_if_needed updated) (\<lambda>split.
       rbind (pm_del pm s root) (\<lambda>s.
       if length split > 1 then
         rbind (set_header (BNode BTREE_PAGE_SIZE) BNODE_NODE (u16 (length split))) (\<lambda>new_root.
         rbind (link_root pm s new_root 0 split) (\<lambda>(new_root, s).
         pm_new_page pm s new_root))
       else
         pm_new_page pm s (hd split))))))"

definition BTree_remove ::
  "'s IPageManager \<Rightarrow> u64 \<Rightarrow> 's \<Rightarrow> bytes \<Rightarrow> (bool \<times> u64 \<times> 's) res" where
  "BTree_remove pm root s key =
     rbind (check_key_limit key) (\<lambda>_.
     if root = 0 then Inr (False, root, s) else
     rbind (pm_get pm s root) (\<lambda>node.
     rbind (tree_delete pm TREE_FUEL s node key) (\<lambda>(updated, s).
     if updated = [] then Inr (False, root, s) else
     rbind (pm_del pm s root) (\<lambda>s.
     rbind (btype updated) (\<lambda>t.
     rbind (nkeys updated) (\<lambda>n.
     if t = BNODE_NODE \<and> n = 1 then
       rbind (get_ptr updated 0) (\<lambda>p. Inr (True, p, s))
     else
       rbind (pm_new_page pm s updated) (\<lambda>(p, s). Inr (True, p, s))))))))"

text \<open>The descent of \<open>BTree::get\<close>.\<close>

function get_loop :: "'s IPageManager \<Rightarrow> nat \<Rightarrow> 's \<Rightarrow> bnode \<Rightarrow> bytes \<Rightarrow> bytes option res" where
  "get_loop pm fuel s node key =
     (if fuel = 0 then Inl Diverges else
      rbind (node_lookup_le node key) (\<lambda>idx.
      if idx < 0 then Inr None else
      rbind (btype node) (\<lambda>t.
      if t = BNODE_LEAF then
        rbind (get_key node (u16 (nat idx))) (\<lambda>k.
        if k = key then rbind (get_val node (u16 (nat idx))) (\<lambda>v. Inr (Some v)) else Inr None)
      else
        rbind (get_ptr node (u16 (nat idx))) (\<lambda>p.
        rbind (pm_get pm s p) (\<lambda>child.
        get_loop pm (fuel - 1) s child key)))))"
  by pat_completeness auto
termination
  by (relation "measure (\<lambda>(_, fuel, _). fuel)") auto

declare get_loop.simps [simp del]

definition BTree_get :: "'s IPageManager \<Rightarrow> u64 \<Rightarrow> 's \<Rightarrow> bytes \<Rightarrow> bytes option res" where
  "BTree_get pm root s key =
     rbind (check_key_limit key) (\<lambda>_.
     if root = 0 then Inr None else
     rbind (pm_get pm s root) (\<lambda>node. get_loop pm TREE_FUEL s node key))"

end
