(* ===== verification/BIter.thy ===== *)
theory BIter
  imports BTree
begin

text \<open>
  \<open>storage/btree_iter\<close>: the comparison relations of range scans and the iterator over a tree's pairs in
  key order. An iterator is its path of nodes and the position in each; the tree it belongs to, a
  pointer in the code, is the page manager and its state passed to every step.
\<close>

section \<open>Relations\<close>

datatype CMP = CMP_GE | CMP_GT | CMP_LT | CMP_LE

text \<open>The sign of the enumerator is the direction of the scan.\<close>

fun cmp_val :: "CMP \<Rightarrow> int" where
  "cmp_val CMP_GE = 3"
| "cmp_val CMP_GT = 2"
| "cmp_val CMP_LT = -2"
| "cmp_val CMP_LE = -3"

fun cmp_ok :: "bytes \<Rightarrow> CMP \<Rightarrow> bytes \<Rightarrow> bool" where
  "cmp_ok key CMP_GE ref = (ref \<le> key)"
| "cmp_ok key CMP_GT ref = (ref < key)"
| "cmp_ok key CMP_LT ref = (key < ref)"
| "cmp_ok key CMP_LE ref = (key \<le> ref)"

section \<open>The iterator\<close>

record BIter =
  path :: "bnode list"
  ipos :: "nat list"

definition empty_BIter :: BIter where
  "empty_BIter = \<lparr>path = [], ipos = []\<rparr>"

definition reload_kid :: "'s IPageManager \<Rightarrow> 's \<Rightarrow> BIter \<Rightarrow> nat \<Rightarrow> bool \<Rightarrow> BIter res" where
  "reload_kid pm s iter level at_last =
     (if level + 1 = length (path iter) then Inr iter else
      rbind (get_ptr (path iter ! level) (ipos iter ! level)) (\<lambda>p.
      rbind (pm_get pm s p) (\<lambda>kid.
      rbind (if at_last then rbind (nkeys kid) (\<lambda>n. Inr (u16_sub n 1)) else Inr 0) (\<lambda>i.
      Inr (iter\<lparr>path := (path iter)[level + 1 := kid], ipos := (ipos iter)[level + 1 := i]\<rparr>)))))"

text \<open>The recursion runs from the leaf's level towards the root; the flag is the C++ result.\<close>

fun iter_prev :: "'s IPageManager \<Rightarrow> 's \<Rightarrow> BIter \<Rightarrow> nat \<Rightarrow> (bool \<times> BIter) res" where
  "iter_prev pm s iter level =
     rbind
       (if ipos iter ! level > 0 then
          Inr (True, iter\<lparr>ipos := (ipos iter)[level := ipos iter ! level - 1]\<rparr>)
        else case level of 0 \<Rightarrow> Inr (False, iter) | Suc l \<Rightarrow> iter_prev pm s iter l)
       (\<lambda>(moved, iter).
     if moved then rbind (reload_kid pm s iter level True) (\<lambda>iter. Inr (True, iter))
     else Inr (False, iter))"

fun iter_next :: "'s IPageManager \<Rightarrow> 's \<Rightarrow> BIter \<Rightarrow> nat \<Rightarrow> (bool \<times> BIter) res" where
  "iter_next pm s iter level =
     rbind (nkeys (path iter ! level)) (\<lambda>n.
     rbind
       (if ipos iter ! level + 1 < n then
          Inr (True, iter\<lparr>ipos := (ipos iter)[level := ipos iter ! level + 1]\<rparr>)
        else case level of 0 \<Rightarrow> Inr (False, iter) | Suc l \<Rightarrow> iter_next pm s iter l)
       (\<lambda>(moved, iter).
     if moved then rbind (reload_kid pm s iter level False) (\<lambda>iter. Inr (True, iter))
     else Inr (False, iter)))"

declare iter_prev.simps [simp del] iter_next.simps [simp del]

definition BIter_valid :: "BIter \<Rightarrow> bool res" where
  "BIter_valid iter =
     (if path iter = [] then Inr False else
      rbind (nkeys (last (path iter))) (\<lambda>n.
      if last (ipos iter) \<ge> n then Inr False
      else if last (ipos iter) > 0 then Inr True
      else rbind (get_key (last (path iter)) 0) (\<lambda>k. Inr (k \<noteq> []))))"

definition BIter_deref :: "BIter \<Rightarrow> (bytes \<times> bytes) res" where
  "BIter_deref iter =
     rbind (BIter_valid iter) (\<lambda>valid.
     rbind (check valid (Assertion_failed ''valid()'')) (\<lambda>_.
     rbind (get_key (last (path iter)) (last (ipos iter))) (\<lambda>k.
     rbind (get_val (last (path iter)) (last (ipos iter))) (\<lambda>v. Inr (k, v)))))"

definition BIter_prev :: "'s IPageManager \<Rightarrow> 's \<Rightarrow> BIter \<Rightarrow> BIter res" where
  "BIter_prev pm s iter =
     (if path iter = [] then Inr iter
      else rbind (iter_prev pm s iter (length (path iter) - 1)) (\<lambda>(_, iter). Inr iter))"

definition BIter_next :: "'s IPageManager \<Rightarrow> 's \<Rightarrow> BIter \<Rightarrow> BIter res" where
  "BIter_next pm s iter =
     (if path iter = [] then Inr iter
      else rbind (iter_next pm s iter (length (path iter) - 1)) (\<lambda>(moved, iter).
        if moved then Inr iter
        else rbind (nkeys (last (path iter))) (\<lambda>n.
          Inr (iter\<lparr>ipos := (ipos iter)[length (ipos iter) - 1 := n]\<rparr>))))"

section \<open>Seeking\<close>

text \<open>Like the other descents, \<open>seek_le\<close> follows page numbers and is given the tree's fuel.\<close>

fun seek_le_loop :: "'s IPageManager \<Rightarrow> nat \<Rightarrow> 's \<Rightarrow> u64 \<Rightarrow> bytes \<Rightarrow> BIter \<Rightarrow> BIter res" where
  "seek_le_loop pm fuel s ptr key iter =
     (if ptr = 0 then Inr iter else if fuel = 0 then Inl Diverges else
      rbind (pm_get pm s ptr) (\<lambda>node.
      rbind (node_lookup_le node key) (\<lambda>idx.
      rbind (check (idx \<ge> 0) (Assertion_failed ''idx >= 0'')) (\<lambda>_.
      rbind (btype node) (\<lambda>t.
      rbind (if t = BNODE_NODE then get_ptr node (u16 (nat idx)) else Inr 0) (\<lambda>ptr.
      seek_le_loop pm (fuel - 1) s ptr key
        (iter\<lparr>path := path iter @ [node], ipos := ipos iter @ [u16 (nat idx)]\<rparr>)))))))"

declare seek_le_loop.simps [simp del]

definition seek_le :: "'s IPageManager \<Rightarrow> u64 \<Rightarrow> 's \<Rightarrow> bytes \<Rightarrow> BIter res" where
  "seek_le pm root s key = seek_le_loop pm TREE_FUEL s root key empty_BIter"

definition BTree_seek :: "'s IPageManager \<Rightarrow> u64 \<Rightarrow> 's \<Rightarrow> bytes \<Rightarrow> CMP \<Rightarrow> BIter res" where
  "BTree_seek pm root s key cmp =
     rbind (seek_le pm root s key) (\<lambda>iter.
     rbind (BIter_valid iter) (\<lambda>valid.
     rbind (if valid then rbind (BIter_deref iter) (\<lambda>kv. Inr (cmp_ok (fst kv) cmp key)) else Inr False)
       (\<lambda>ok.
     if \<not> ok \<and> cmp_val cmp > 0 then BIter_next pm s iter
     else if \<not> ok \<and> valid then BIter_prev pm s iter
     else Inr iter)))"

end
