(* ===== verification/BNode_Spec.thy ===== *)
theory BNode_Spec
  imports BNode
begin

text \<open>
  The contract of a B+tree page. \<open>node_is d t es\<close> says that the bytes \<open>d\<close> are a node of type \<open>t\<close>
  holding the entries \<open>es\<close>; \<open>node_building d t n es\<close> that they are such a node under construction, with
  a header for \<open>n\<close> entries of which the first \<open>length es\<close> are written. The lemmas read the accessors
  off the abstraction and show each node operation to be the list operation it is named after.
\<close>

section \<open>Entries and the page layout\<close>

type_synonym ent = "u64 \<times> bytes \<times> bytes"

abbreviation ent_ptr :: "ent \<Rightarrow> u64" where "ent_ptr e \<equiv> fst e"
abbreviation ent_key :: "ent \<Rightarrow> bytes" where "ent_key e \<equiv> fst (snd e)"
abbreviation ent_val :: "ent \<Rightarrow> bytes" where "ent_val e \<equiv> snd (snd e)"

definition kv_bytes :: "ent \<Rightarrow> bytes" where
  "kv_bytes e = le_bytes 2 (length (ent_key e)) @ le_bytes 2 (length (ent_val e)) @ ent_key e @ ent_val e"

definition kv_size :: "ent \<Rightarrow> nat" where
  "kv_size e = 4 + length (ent_key e) + length (ent_val e)"

definition kvs_size :: "ent list \<Rightarrow> nat" where
  "kvs_size es = sum_list (map kv_size es)"

definition node_size :: "ent list \<Rightarrow> nat" where
  "node_size es = 4 + 10 * length es + kvs_size es"

fun ends :: "nat \<Rightarrow> ent list \<Rightarrow> nat list" where
  "ends acc [] = []"
| "ends acc (e # es) = (acc + kv_size e) # ends (acc + kv_size e) es"

definition ent_ok :: "ent \<Rightarrow> bool" where
  "ent_ok e \<longleftrightarrow> length (ent_key e) \<le> BTREE_MAX_KEY_SIZE \<and> length (ent_val e) \<le> BTREE_MAX_VAL_SIZE"

abbreviation ptr_bytes :: "ent list \<Rightarrow> bytes" where
  "ptr_bytes es \<equiv> concat (map (\<lambda>e. le_bytes 8 (unat (ent_ptr e))) es)"

abbreviation end_bytes :: "ent list \<Rightarrow> bytes" where
  "end_bytes es \<equiv> concat (map (le_bytes 2) (ends 0 es))"

abbreviation data_bytes :: "ent list \<Rightarrow> bytes" where
  "data_bytes es \<equiv> concat (map kv_bytes es)"

definition layout :: "nat \<Rightarrow> nat \<Rightarrow> ent list \<Rightarrow> bytes \<Rightarrow> bytes \<Rightarrow> bytes \<Rightarrow> bytes" where
  "layout t n es g1 g2 g3 = le_bytes 2 t @ le_bytes 2 n @ ptr_bytes es @ g1 @ end_bytes es @ g2
     @ data_bytes es @ g3"

definition node_building :: "bnode \<Rightarrow> nat \<Rightarrow> nat \<Rightarrow> ent list \<Rightarrow> bool" where
  "node_building d t n es \<longleftrightarrow>
     (\<exists>g1 g2 g3. d = layout t n es g1 g2 g3 \<and> length es \<le> n
        \<and> length g1 = 8 * (n - length es) \<and> length g2 = 2 * (n - length es))
     \<and> t < 2 ^ 16 \<and> n < 2 ^ 16 \<and> length d < 2 ^ 16 \<and> list_all ent_ok es"

definition node_is :: "bnode \<Rightarrow> nat \<Rightarrow> ent list \<Rightarrow> bool" where
  "node_is d t es \<longleftrightarrow> node_building d t (length es) es"

lemma length_kv_bytes [simp]: "length (kv_bytes e) = kv_size e"
  by (simp add: kv_bytes_def kv_size_def)

lemma kvs_size_simps [simp]:
  "kvs_size [] = 0"
  "kvs_size (e # es) = kv_size e + kvs_size es"
  "kvs_size (es @ fs) = kvs_size es + kvs_size fs"
  by (simp_all add: kvs_size_def)

lemma kvs_size_take_drop: "kvs_size (take i es) + kvs_size (drop i es) = kvs_size es"
  unfolding kvs_size_simps(3) [symmetric] append_take_drop_id ..

lemma length_data_bytes [simp]: "length (data_bytes es) = kvs_size es"
  by (induction es) simp_all

lemma length_ptr_bytes [simp]: "length (ptr_bytes es) = 8 * length es"
  by (induction es) simp_all

lemma length_ends [simp]: "length (ends acc es) = length es"
  by (induction es arbitrary: acc) simp_all

lemma length_concat_le [simp]: "length (concat (map (le_bytes k) xs)) = k * length xs"
  by (induction xs) simp_all

lemma ends_append: "ends acc (es @ fs) = ends acc es @ ends (acc + kvs_size es) fs"
  by (induction es arbitrary: acc) (simp_all add: add.assoc)

lemma node_size_append: "node_size (es @ fs) = node_size es + node_size fs - 4"
  by (simp add: node_size_def)

lemma kvs_size_take_le: "kvs_size (take i es) \<le> kvs_size es"
  by (metis append_take_drop_id kvs_size_simps(3) le_add1)

lemma kvs_size_take_Suc: "i < length es \<Longrightarrow> kvs_size (take (Suc i) es) = kvs_size (take i es) + kv_size (es ! i)"
  by (simp add: take_Suc_conv_app_nth)

lemma length_layout:
  "length (layout t n es g1 g2 g3)
    = 4 + 10 * length es + kvs_size es + length g1 + length g2 + length g3"
  by (simp add: layout_def)

section \<open>Reading and writing at a position\<close>

lemma load_mid: "length a = pos \<Longrightarrow> length b = n \<Longrightarrow> load (a @ b @ c) pos n = Inr b"
  by (auto simp: load_def)

lemma store_mid: "length a = pos \<Longrightarrow> length b = length b' \<Longrightarrow> store (a @ b @ c) pos b' = Inr (a @ b' @ c)"
  by (auto simp: store_def)

lemma read_u16_mid:
  assumes "length a = pos" and "v < 2 ^ 16"
  shows "read_u16 (a @ le_bytes 2 v @ c) pos = Inr v"
  using assms by (simp add: read_u16_def load_mid le_nat_le_bytes)

lemma read_u64_mid:
  assumes "length a = pos"
  shows "read_u64 (a @ le_bytes 8 (unat p) @ c) pos = Inr p"
  using assms unat_u64_less [of p] by (simp add: read_u64_def load_mid le_nat_le_bytes)

lemma write_u16_mid:
  "length a = pos \<Longrightarrow> length b = 2 \<Longrightarrow> write_u16 (a @ b @ c) pos v = Inr (a @ le_bytes 2 v @ c)"
  by (simp add: write_u16_def store_mid)

lemma write_u64_mid:
  "length a = pos \<Longrightarrow> length b = 8 \<Longrightarrow> write_u64 (a @ b @ c) pos p = Inr (a @ le_bytes 8 (unat p) @ c)"
  by (simp add: write_u64_def store_mid)

lemma split_length: "k \<le> length xs \<Longrightarrow> \<exists>ys zs. xs = ys @ zs \<and> length ys = k"
  by (metis append_take_drop_id length_take min.absorb2)

section \<open>Reading a node\<close>

lemma nkeys_layout:
  assumes "n < 2 ^ 16"
  shows "nkeys (layout t n es g1 g2 g3) = Inr n"
  unfolding nkeys_def layout_def using assms by (intro read_u16_mid) simp_all

lemma btype_layout:
  assumes "t < 2 ^ 16"
  shows "btype (layout t n es g1 g2 g3) = Inr t"
  using assms read_u16_mid [of "[]" 0 t "le_bytes 2 n @ ptr_bytes es @ g1 @ end_bytes es @ g2
     @ data_bytes es @ g3"]
  unfolding btype_def layout_def by simp

lemma offsets_layout:
  assumes "n < 2 ^ 16"
  shows "offsets_offset (layout t n es g1 g2 g3) = Inr (4 + 8 * n)"
    and "kv_base_offset (layout t n es g1 g2 g3) = Inr (4 + 10 * n)"
  using nkeys_layout [OF assms, of t es g1 g2 g3]
  by (simp_all add: offsets_offset_def kv_base_offset_def ptrs_offset_def)

lemma get_ptr_layout:
  assumes "i < length es"
  shows "get_ptr (layout t n es g1 g2 g3) i = Inr (ent_ptr (es ! i))"
proof -
  have es: "es = take i es @ es ! i # drop (Suc i) es"
    using assms by (rule id_take_nth_drop)
  have "layout t n es g1 g2 g3 = (le_bytes 2 t @ le_bytes 2 n @ ptr_bytes (take i es))
      @ le_bytes 8 (unat (ent_ptr (es ! i)))
      @ ptr_bytes (drop (Suc i) es) @ g1 @ end_bytes es @ g2 @ data_bytes es @ g3"
    unfolding layout_def by (subst (1) es) simp
  then show ?thesis
    unfolding get_ptr_def
    using assms
    by (simp only:) (rule read_u64_mid, simp add: ptrs_offset_def)
qed

lemma get_offset_layout:
  assumes "i \<le> length es" and "n < 2 ^ 16" and "length es \<le> n"
    and "length g1 = 8 * (n - length es)" and "kvs_size es < 2 ^ 16"
  shows "get_offset (layout t n es g1 g2 g3) i = Inr (kvs_size (take i es))"
proof (cases i)
  case 0
  then show ?thesis by (simp add: get_offset_def)
next
  case (Suc j)
  then have j: "j < length es" using assms by simp
  then have es: "es = take j es @ es ! j # drop (Suc j) es"
    by (rule id_take_nth_drop)
  have "ends 0 es = ends 0 (take j es) @ kvs_size (take i es)
      # ends (kvs_size (take i es)) (drop (Suc j) es)"
    using ends_append [of 0 "take j es" "es ! j # drop (Suc j) es"] es [symmetric]
      kvs_size_take_Suc [OF j] Suc by simp
  then have L: "layout t n es g1 g2 g3
      = (le_bytes 2 t @ le_bytes 2 n @ ptr_bytes es @ g1 @ concat (map (le_bytes 2) (ends 0 (take j es))))
      @ le_bytes 2 (kvs_size (take i es))
      @ concat (map (le_bytes 2) (ends (kvs_size (take i es)) (drop (Suc j) es))) @ g2
      @ data_bytes es @ g3"
    unfolding layout_def by simp
  have len: "length (le_bytes 2 t @ le_bytes 2 n @ ptr_bytes es @ g1
      @ concat (map (le_bytes 2) (ends 0 (take j es)))) = 4 + 8 * n + j * 2"
    using assms j by simp
  have "kvs_size (take i es) < 2 ^ 16"
    using assms(5) kvs_size_take_le [of i es] by linarith
  with len have "read_u16 (layout t n es g1 g2 g3) (4 + 8 * n + j * 2) = Inr (kvs_size (take i es))"
    unfolding L by (rule read_u16_mid)
  then show ?thesis
    using Suc assms(2) by (simp add: get_offset_def offsets_layout)
qed

lemma data_split:
  assumes "i < length es"
  shows "data_bytes es = data_bytes (take i es) @ kv_bytes (es ! i) @ data_bytes (drop (Suc i) es)"
  using arg_cong [OF id_take_nth_drop [OF assms], of "\<lambda>es. concat (map kv_bytes es)"]
  by (simp only: map_append concat_append list.map concat.simps append_assoc)

lemma get_kv_layout:
  assumes "i < length es" and "n < 2 ^ 16" and "length es \<le> n"
    and "length g1 = 8 * (n - length es)" and "length g2 = 2 * (n - length es)"
    and "kvs_size es < 2 ^ 16" and "list_all ent_ok es"
  shows "get_key (layout t n es g1 g2 g3) i = Inr (ent_key (es ! i))"
    and "get_val (layout t n es g1 g2 g3) i = Inr (ent_val (es ! i))"
proof -
  let ?d = "layout t n es g1 g2 g3" and ?k = "ent_key (es ! i)" and ?v = "ent_val (es ! i)"
  define A where "A = le_bytes 2 t @ le_bytes 2 n @ ptr_bytes es @ g1 @ end_bytes es @ g2
    @ data_bytes (take i es)"
  define C where "C = data_bytes (drop (Suc i) es) @ g3"
  define pos where "pos = 4 + 10 * n + kvs_size (take i es)"
  have d: "?d = A @ le_bytes 2 (length ?k) @ le_bytes 2 (length ?v) @ ?k @ ?v @ C"
    unfolding layout_def A_def C_def using data_split [OF assms(1)] by (simp add: kv_bytes_def)
  have A: "length A = pos"
    using assms by (simp add: A_def pos_def)
  have kpos: "kv_pos ?d i = Inr pos"
    using assms by (simp add: kv_pos_def offsets_layout get_offset_layout pos_def)
  have ok: "length ?k < 2 ^ 16" "length ?v < 2 ^ 16"
    using assms(1,7)
    by (auto simp: list_all_length ent_ok_def BTREE_MAX_KEY_SIZE_def BTREE_MAX_VAL_SIZE_def)
  have klen: "read_u16 ?d pos = Inr (length ?k)"
    unfolding d using A ok(1) by (rule read_u16_mid)
  have vlen: "read_u16 ?d (pos + 2) = Inr (length ?v)"
    using read_u16_mid [of "A @ le_bytes 2 (length ?k)" "pos + 2" "length ?v" "?k @ ?v @ C"] A ok(2)
    by (simp add: d)
  have key: "load ?d (pos + 4) (length ?k) = Inr ?k"
    using load_mid [of "A @ le_bytes 2 (length ?k) @ le_bytes 2 (length ?v)" "pos + 4" ?k _ "?v @ C"] A
    by (simp add: d)
  have val: "load ?d (pos + 4 + length ?k) (length ?v) = Inr ?v"
    using load_mid [of "A @ le_bytes 2 (length ?k) @ le_bytes 2 (length ?v) @ ?k"
        "pos + 4 + length ?k" ?v _ C] A
    by (simp add: d)
  show "get_key ?d i = Inr ?k"
    by (simp only: get_key_def kpos klen key rbind_simps)
  show "get_val ?d i = Inr ?v"
    by (simp only: get_val_def kpos klen vlen val rbind_simps)
qed

section \<open>Reading through the abstraction\<close>

lemma node_buildingE:
  assumes "node_building d t n es"
  obtains g1 g2 g3 where "d = layout t n es g1 g2 g3" and "length es \<le> n"
    and "length g1 = 8 * (n - length es)" and "length g2 = 2 * (n - length es)"
    and "t < 2 ^ 16" and "n < 2 ^ 16" and "length d < 2 ^ 16" and "list_all ent_ok es"
    and "4 + 10 * n + kvs_size es + length g3 = length d" and "kvs_size es < 2 ^ 16"
proof -
  from assms obtain g1 g2 g3 where d: "d = layout t n es g1 g2 g3" "length es \<le> n"
    "length g1 = 8 * (n - length es)" "length g2 = 2 * (n - length es)"
    and rest: "t < 2 ^ 16" "n < 2 ^ 16" "length d < 2 ^ 16" "list_all ent_ok es"
    unfolding node_building_def by blast
  have size: "4 + 10 * n + kvs_size es + length g3 = length d"
    using d by (simp add: length_layout)
  then have "kvs_size es < 2 ^ 16"
    using rest by linarith
  from that [OF d rest size this] show ?thesis .
qed

lemma building_reads:
  assumes "node_building d t n es"
  shows building_nkeys: "nkeys d = Inr n"
    and building_btype: "btype d = Inr t"
    and building_kv_base: "kv_base_offset d = Inr (4 + 10 * n)"
    and building_offsets: "offsets_offset d = Inr (4 + 8 * n)"
    and building_offset: "i \<le> length es \<Longrightarrow> get_offset d i = Inr (kvs_size (take i es))"
    and building_ptr: "j < length es \<Longrightarrow> get_ptr d j = Inr (ent_ptr (es ! j))"
    and building_key: "j < length es \<Longrightarrow> get_key d j = Inr (ent_key (es ! j))"
    and building_val: "j < length es \<Longrightarrow> get_val d j = Inr (ent_val (es ! j))"
  using assms
  by (auto elim!: node_buildingE
      simp: nkeys_layout btype_layout offsets_layout get_offset_layout get_ptr_layout get_kv_layout)

lemma node_is_size: "node_is d t es \<Longrightarrow> node_size es \<le> length d \<and> length d < 2 ^ 16"
  unfolding node_is_def by (erule node_buildingE) (simp add: node_size_def)

lemma node_is_reads:
  assumes "node_is d t es"
  shows node_is_nkeys: "nkeys d = Inr (length es)"
    and node_is_btype: "btype d = Inr t"
    and node_is_offset: "i \<le> length es \<Longrightarrow> get_offset d i = Inr (kvs_size (take i es))"
    and node_is_ptr: "j < length es \<Longrightarrow> get_ptr d j = Inr (ent_ptr (es ! j))"
    and node_is_key: "j < length es \<Longrightarrow> get_key d j = Inr (ent_key (es ! j))"
    and node_is_val: "j < length es \<Longrightarrow> get_val d j = Inr (ent_val (es ! j))"
  using assms unfolding node_is_def by (simp_all add: building_reads)

lemma node_is_ents: "node_is d t es \<Longrightarrow> list_all ent_ok es \<and> length es < 2 ^ 16 \<and> t < 2 ^ 16"
  unfolding node_is_def by (erule node_buildingE) simp

lemma node_is_nbytes:
  assumes "node_is d t es"
  shows "nbytes d = Inr (node_size es)"
  using assms node_is_size [OF assms] unfolding node_is_def
  by (simp add: nbytes_def kv_pos_def building_reads node_size_def u16_def)

section \<open>Writing into a node under construction\<close>

lemma write_ptr_layout:
  assumes "length x = 8"
  shows "set_ptr (layout t n es (x @ g1) g2 g3) (length es) p
    = Inr (layout t n es (le_bytes 8 (unat p) @ g1) g2 g3)"
  using write_u64_mid [of "le_bytes 2 t @ le_bytes 2 n @ ptr_bytes es" "4 + length es * 8" x
      "g1 @ end_bytes es @ g2 @ data_bytes es @ g3" p] assms
  by (simp add: set_ptr_def ptrs_offset_def layout_def)

lemma write_end_layout:
  assumes "length y = 2" and "length es \<le> n" and "n < 2 ^ 16" and "length g1 = 8 * (n - length es)"
  shows "set_offset (layout t n es g1 (y @ g2) g3) (Suc (length es)) v
    = Inr (layout t n es g1 (le_bytes 2 v @ g2) g3)"
  using write_u16_mid [of "le_bytes 2 t @ le_bytes 2 n @ ptr_bytes es @ g1 @ end_bytes es"
      "4 + 8 * n + length es * 2" y "g2 @ data_bytes es @ g3" v] assms
  by (simp add: set_offset_def offsets_layout) (simp add: layout_def)

lemma store_data_layout:
  assumes "length es \<le> n" and "length g1 = 8 * (n - length es)" and "length g2 = 2 * (n - length es)"
    and "length b = length b'" and "pos = 4 + 10 * n + kvs_size es + length a"
  shows "store (layout t n es g1 g2 (a @ b @ c)) pos b' = Inr (layout t n es g1 g2 (a @ b' @ c))"
  using store_mid [of "le_bytes 2 t @ le_bytes 2 n @ ptr_bytes es @ g1 @ end_bytes es @ g2
      @ data_bytes es @ a" pos b b' c] assms
  by (simp add: layout_def)

lemma layout_snoc:
  "layout t n es (le_bytes 8 (unat (ent_ptr e)) @ g1) (le_bytes 2 (kvs_size es + kv_size e) @ g2)
      (kv_bytes e @ g3)
    = layout t n (es @ [e]) g1 g2 g3"
  by (simp add: layout_def ends_append)

lemma building_init:
  assumes "4 + 10 * n \<le> length d" and "length d < 2 ^ 16" and "t < 2 ^ 16"
  shows "\<exists>d'. set_header d t n = Inr d' \<and> node_building d' t n [] \<and> length d' = length d"
proof -
  obtain a r where a: "d = a @ r" "length a = 2"
    using split_length [of 2 d] assms by auto
  obtain b r' where b: "r = b @ r'" "length b = 2"
    using split_length [of 2 r] assms a by auto
  obtain g1 q where g1: "r' = g1 @ q" "length g1 = 8 * n"
    using split_length [of "8 * n" r'] assms a b by auto
  obtain g2 g3 where g2: "q = g2 @ g3" "length g2 = 2 * n"
    using split_length [of "2 * n" q] assms a b g1 by auto
  have "write_u16 d 0 t = Inr (le_bytes 2 t @ b @ g1 @ g2 @ g3)"
    using write_u16_mid [of "[]" 0 a "b @ r'" t] a b g1 g2 by simp
  moreover have "write_u16 (le_bytes 2 t @ b @ g1 @ g2 @ g3) 2 n = Inr (layout t n [] g1 g2 g3)"
    using write_u16_mid [of "le_bytes 2 t" 2 b "g1 @ g2 @ g3" n] b by (simp add: layout_def)
  ultimately have "set_header d t n = Inr (layout t n [] g1 g2 g3)"
    by (simp add: set_header_def)
  moreover have "length (layout t n [] g1 g2 g3) = length d"
    using a b g1 g2 by (simp add: length_layout)
  moreover from this have "node_building (layout t n [] g1 g2 g3) t n []"
    using assms g1 g2 by (auto simp: node_building_def)
  ultimately show ?thesis by blast
qed

lemma building_append:
  assumes "node_building d t n es" and "length es < n" and "ent_ok (p, k, v)"
    and "4 + 10 * n + kvs_size (es @ [(p, k, v)]) \<le> length d"
  shows "\<exists>d'. node_append_kv d (length es) p k v = Inr d'
    \<and> node_building d' t n (es @ [(p, k, v)]) \<and> length d' = length d"
  using assms(1)
proof (rule node_buildingE)
  fix g1 g2 g3
  assume d: "d = layout t n es g1 g2 g3" and le: "length es \<le> n"
    and g1: "length g1 = 8 * (n - length es)" and g2: "length g2 = 2 * (n - length es)"
    and n: "t < 2 ^ 16" "n < 2 ^ 16" and len: "length d < 2 ^ 16" and ok: "list_all ent_ok es"
    and size: "4 + 10 * n + kvs_size es + length g3 = length d" and kvs: "kvs_size es < 2 ^ 16"
  define e where "e = (p, k, v)"
  define kl where "kl = le_bytes 2 (length k)"
  define vl where "vl = le_bytes 2 (length v)"
  define pos where "pos = 4 + 10 * n + kvs_size es"
  have lens: "length k \<le> 1000" "length v \<le> 1000"
    using assms(3) by (simp_all add: ent_ok_def BTREE_MAX_KEY_SIZE_def BTREE_MAX_VAL_SIZE_def)
  have "8 \<le> length g1" and "2 \<le> length g2"
    using g1 g2 assms(2) by simp_all
  then obtain x h1 y h2 where x: "g1 = x @ h1" "length x = 8" and y: "g2 = y @ h2" "length y = 2"
    using split_length by meson
  have "kv_size e \<le> length g3"
    using assms(4) size by (simp add: e_def)
  then obtain z h3 where z: "g3 = z @ h3" "length z = kv_size e"
    using split_length by blast
  then obtain z1 z2 z3 z4 where zs: "z = z1 @ z2 @ z3 @ z4" "length z1 = 2" "length z2 = 2"
      "length z3 = length k" "length z4 = length v"
    using split_length [of 2 z] split_length [of 2 "drop 2 z"] split_length [of "length k" "drop 4 z"]
    by (auto simp: kv_size_def e_def)
  let ?p = "le_bytes 8 (unat p)"
  have g1': "length (?p @ h1) = 8 * (n - length es)"
    using x g1 by simp
  have "set_ptr d (length es) p = Inr (layout t n es (?p @ h1) g2 g3)"
    unfolding d x by (rule write_ptr_layout) (rule x(2))
  moreover have kpos: "kv_pos (layout t n es (?p @ h1) g2 g3) (length es) = Inr pos" for g2 g3
    using n le g1' kvs by (simp add: kv_pos_def offsets_layout get_offset_layout pos_def)
  moreover have w1: "write_u16 (layout t n es (?p @ h1) g2 (z1 @ z2 @ z3 @ z4 @ h3)) pos (length k)
      = Inr (layout t n es (?p @ h1) g2 (kl @ z2 @ z3 @ z4 @ h3))"
    using store_data_layout [of es n "?p @ h1" g2 z1 kl pos "[]" t] le g1' g2 zs
    by (simp add: write_u16_def pos_def kl_def)
  moreover have w2: "write_u16 (layout t n es (?p @ h1) g2 (kl @ z2 @ z3 @ z4 @ h3)) (pos + 2) (length v)
      = Inr (layout t n es (?p @ h1) g2 (kl @ vl @ z3 @ z4 @ h3))"
    using store_data_layout [of es n "?p @ h1" g2 z2 vl "pos + 2" kl t] le g1' g2 zs
    by (simp add: write_u16_def pos_def kl_def vl_def)
  moreover have w3: "store (layout t n es (?p @ h1) g2 (kl @ vl @ z3 @ z4 @ h3)) (pos + 4) k
      = Inr (layout t n es (?p @ h1) g2 (kl @ vl @ k @ z4 @ h3))"
    using store_data_layout [of es n "?p @ h1" g2 z3 k "pos + 4" "kl @ vl" t] le g1' g2 zs
    by (simp add: pos_def kl_def vl_def)
  moreover have w4: "store (layout t n es (?p @ h1) g2 (kl @ vl @ k @ z4 @ h3)) (pos + 4 + length k) v
      = Inr (layout t n es (?p @ h1) g2 (kl @ vl @ k @ v @ h3))"
    using store_data_layout [of es n "?p @ h1" g2 z4 v "pos + 4 + length k" "kl @ vl @ k" t] le g1' g2 zs
    by (simp add: pos_def kl_def vl_def)
  moreover have off: "get_offset (layout t n es (?p @ h1) g2 (kl @ vl @ k @ v @ h3)) (length es)
      = Inr (kvs_size es)"
    using n le g1' kvs by (simp add: get_offset_layout)
  moreover have w5: "set_offset (layout t n es (?p @ h1) g2 (kl @ vl @ k @ v @ h3)) (Suc (length es))
      (kvs_size es + kv_size e) = Inr (layout t n (es @ [e]) h1 h2 h3)"
    using write_end_layout [of y es n "?p @ h1" t h2 "kl @ vl @ k @ v @ h3" "kvs_size es + kv_size e"]
      y le n g1' layout_snoc [of t n es e h1 h2 h3]
    by (simp add: e_def kl_def vl_def kv_bytes_def)
  moreover have "u16 (length k) = length k" "u16 (length v) = length v"
      "u16 (Suc (length es)) = Suc (length es)"
      "u16 (kvs_size es + 4 + length k + length v) = kvs_size es + kv_size e"
    using lens assms(2,4) n len by (simp_all add: u16_def e_def kv_size_def)
  moreover have "pos + 4 + length k + length v \<le> length (layout t n es (?p @ h1) g2 g3)"
    using assms(4) size le g1' g2 by (simp add: length_layout pos_def kv_size_def)
  ultimately have "node_append_kv d (length es) p k v = Inr (layout t n (es @ [e]) h1 h2 h3)"
    using lens z zs
    by (simp add: node_append_kv_def Let_def BTREE_MAX_KEY_SIZE_def BTREE_MAX_VAL_SIZE_def)
  moreover have "length (layout t n (es @ [e]) h1 h2 h3) = length d"
    using d x y z by (simp add: length_layout)
  moreover from this have "node_building (layout t n (es @ [e]) h1 h2 h3) t n (es @ [e])"
    using x y g1 g2 assms(2,3) n len ok unfolding node_building_def e_def by fastforce
  ultimately show ?thesis
    unfolding e_def by blast
qed

section \<open>Appending a range, and the operations built from it\<close>

lemma append_range_loop_ok:
  assumes "node_is old t' fs"
  shows "node_building new t n es \<Longrightarrow> src + i + m \<le> length fs \<Longrightarrow> length es = dst + i \<Longrightarrow>
    dst + i + m \<le> n \<Longrightarrow> 4 + 10 * n + kvs_size (es @ take m (drop (src + i) fs)) \<le> length new \<Longrightarrow>
    \<exists>new'. append_range_loop new old dst src i m = Inr new'
      \<and> node_building new' t n (es @ take m (drop (src + i) fs)) \<and> length new' = length new"
proof (induction m arbitrary: i new es)
  case 0
  then show ?case by simp
next
  case (Suc m)
  let ?f = "fs ! (src + i)"
  have lt: "src + i < length fs"
    using Suc.prems by simp
  have drop: "take (Suc m) (drop (src + i) fs) = ?f # take m (drop (src + Suc i) fs)"
    using lt by (simp add: Cons_nth_drop_Suc [symmetric])
  have small: "length fs < 2 ^ 16" "n < 2 ^ 16"
    using node_is_ents [OF assms] Suc.prems(1) by (auto elim: node_buildingE)
  have f: "?f = (ent_ptr ?f, ent_key ?f, ent_val ?f)"
    by simp
  have "ent_ok ?f"
    using node_is_ents [OF assms] lt by (simp add: list_all_length)
  moreover have "4 + 10 * n + kvs_size (es @ [?f]) \<le> length new"
    using Suc.prems(5) by (simp add: drop)
  ultimately obtain new1 where new1:
    "node_append_kv new (length es) (ent_ptr ?f) (ent_key ?f) (ent_val ?f) = Inr new1"
    "node_building new1 t n (es @ [?f])" "length new1 = length new"
    using building_append [OF Suc.prems(1), of "ent_ptr ?f" "ent_key ?f" "ent_val ?f"] Suc.prems
    by auto
  have step: "append_range_loop new old dst src i (Suc m) = append_range_loop new1 old dst src (Suc i) m"
    using new1(1) Suc.prems lt small node_is_reads [OF assms] by (simp add: u16_def)
  have eq: "es @ take (Suc m) (drop (src + i) fs) = (es @ [?f]) @ take m (drop (src + Suc i) fs)"
    by (simp add: drop)
  show ?case
    unfolding step eq using Suc.prems new1(2,3) unfolding eq
    by (intro Suc.IH [of new1 "es @ [?f]" "Suc i", unfolded new1(3)]) auto
qed

lemma append_range_ok:
  assumes "node_is old t' fs" and "node_building new t n es" and "src + m \<le> length fs"
    and "dst = length es" and "length es + m \<le> n"
    and "4 + 10 * n + kvs_size (es @ take m (drop src fs)) \<le> length new"
  shows "\<exists>new'. node_append_range new old dst src m = Inr new'
    \<and> node_building new' t n (es @ take m (drop src fs)) \<and> length new' = length new"
  using append_range_loop_ok [OF assms(1,2), of src 0 m dst] assms(3-)
  by (simp add: node_append_range_def)

text \<open>\<open>builds r t es len\<close>: the result \<open>r\<close> is a node of \<open>len\<close> bytes with the entries \<open>es\<close>.\<close>

definition builds :: "bnode res \<Rightarrow> nat \<Rightarrow> ent list \<Rightarrow> nat \<Rightarrow> bool" where
  "builds r t es len \<longleftrightarrow> (\<exists>d. r = Inr d \<and> node_is d t es \<and> length d = len)"

lemma buildsI: "r = Inr d \<Longrightarrow> node_is d t es \<Longrightarrow> length d = len \<Longrightarrow> builds r t es len"
  by (auto simp: builds_def)

lemma buildsE:
  assumes "builds r t es len"
  obtains d where "r = Inr d" and "node_is d t es" and "length d = len"
  using assms by (auto simp: builds_def)

lemma u16_sub_le: "b \<le> a \<Longrightarrow> a < 2 ^ 16 \<Longrightarrow> u16_sub a b = a - b"
  by (simp add: u16_sub_def of_nat_diff [symmetric] nat_mod_distrib del: of_nat_diff)

lemma u16_small: "a < 2 ^ 16 \<Longrightarrow> u16 a = a"
  by (simp add: u16_def)

text \<open>
  The shape all rebuilding operations share: a header, a prefix of the old entries, one new entry
  (or none), and a suffix of the old entries.
\<close>

lemma rebuild_with_entry:
  assumes old: "node_is old t' es" and ok: "ent_ok (p, k, v)"
    and i: "i \<le> length es" and j: "j + m \<le> length es"
    and F: "F = take i es @ (p, k, v) # take m (drop j es)" and n: "n = length F"
    and size: "node_size F \<le> length new" and len: "length new < 2 ^ 16" and t: "t < 2 ^ 16"
  shows "builds
    (rbind (set_header new t n) (\<lambda>new.
     rbind (node_append_range new old 0 0 i) (\<lambda>new.
     rbind (node_append_kv new i p k v) (\<lambda>new.
     node_append_range new old (u16 (i + 1)) j m)))) t F (length new)"
proof -
  have n': "n = i + 1 + m"
    using i j by (simp add: F n)
  have sz: "4 + 10 * n + kvs_size F \<le> length new"
    using size by (simp add: node_size_def n)
  have "4 + 10 * n \<le> length new"
    using sz by simp
  then obtain d1 where d1: "set_header new t n = Inr d1" "node_building d1 t n []" "length d1 = length new"
    using building_init len t by blast
  obtain d2 where d2: "node_append_range d1 old 0 0 i = Inr d2" "node_building d2 t n (take i es)"
      "length d2 = length new"
    using append_range_ok [OF old d1(2), of 0 i 0] i n' sz d1(3) by (auto simp: F)
  obtain d3 where d3: "node_append_kv d2 i p k v = Inr d3"
      "node_building d3 t n (take i es @ [(p, k, v)])" "length d3 = length new"
    using building_append [OF d2(2) _ ok] i n' sz d2(3) by (auto simp: F min_absorb2)
  have "u16 (i + 1) = length (take i es @ [(p, k, v)])"
    using i node_is_ents [OF old] sz n' len by (simp add: u16_def)
  then obtain d4 where d4: "node_append_range d3 old (u16 (i + 1)) j m = Inr d4" "node_building d4 t n F"
      "length d4 = length new"
    using append_range_ok [OF old d3(2), of j m "u16 (i + 1)"] i j n' sz d3(3) by (auto simp: F)
  then show ?thesis
    using d1 d2 d3 n by (simp add: builds_def node_is_def)
qed

lemma leaf_insert_ok:
  assumes "node_is old BNODE_LEAF es" and "i \<le> length es" and "ent_ok (0, k, v)"
    and "node_size (take i es @ (0, k, v) # drop i es) \<le> length new" and "length new < 2 ^ 16"
  shows "builds (leaf_insert new old i k v) BNODE_LEAF (take i es @ (0, k, v) # drop i es) (length new)"
proof -
  have n: "length es + 1 < 2 ^ 16"
    using assms(2,4,5) by (simp add: node_size_def)
  then have eq: "leaf_insert new old i k v =
    rbind (set_header new BNODE_LEAF (length es + 1)) (\<lambda>new.
    rbind (node_append_range new old 0 0 i) (\<lambda>new.
    rbind (node_append_kv new i 0 k v) (\<lambda>new.
    node_append_range new old (u16 (i + 1)) i (length es - i))))"
    using assms(2)
    by (simp only: leaf_insert_def node_is_nkeys [OF assms(1)] rbind_simps u16_small u16_sub_le)
  show ?thesis
    unfolding eq
    by (rule rebuild_with_entry [OF assms(1,3)]) (use assms in \<open>auto simp: BNODE_LEAF_def\<close>)
qed

lemma leaf_update_ok:
  assumes "node_is old BNODE_LEAF es" and "i < length es" and "ent_ok (0, k, v)"
    and "node_size (es[i := (0, k, v)]) \<le> length new" and "length new < 2 ^ 16"
  shows "builds (leaf_update new old i k v) BNODE_LEAF (es[i := (0, k, v)]) (length new)"
proof -
  have n: "length es < 2 ^ 16" "i + 1 < 2 ^ 16"
    using node_is_ents [OF assms(1)] assms(2) by simp_all
  then have eq: "leaf_update new old i k v =
    rbind (set_header new BNODE_LEAF (length es)) (\<lambda>new.
    rbind (node_append_range new old 0 0 i) (\<lambda>new.
    rbind (node_append_kv new i 0 k v) (\<lambda>new.
    node_append_range new old (u16 (i + 1)) (i + 1) (length es - (i + 1)))))"
    using assms(2)
    by (simp only: leaf_update_def node_is_nkeys [OF assms(1)] rbind_simps u16_small u16_sub_le
        Suc_leI Suc_eq_plus1 [symmetric])
  have upd: "es[i := (0, k, v)] = take i es @ (0, k, v) # take (length es - (i + 1)) (drop (i + 1) es)"
    using assms(2) by (simp add: upd_conv_take_nth_drop)
  show ?thesis
    unfolding eq
    by (rule rebuild_with_entry [OF assms(1,3) _ _ upd]) (use assms in \<open>auto simp: BNODE_LEAF_def\<close>)
qed

lemma node_replace_2_child_ok:
  assumes "node_is old BNODE_NODE es" and "i + 2 \<le> length es" and "ent_ok (p, k, [])"
    and "node_size (take i es @ (p, k, []) # drop (i + 2) es) \<le> length new" and "length new < 2 ^ 16"
  shows "builds (node_replace_2_child new old i p k) BNODE_NODE
    (take i es @ (p, k, []) # drop (i + 2) es) (length new)"
proof -
  have n: "length es < 2 ^ 16" "i + 2 < 2 ^ 16" "1 \<le> length es"
    using node_is_ents [OF assms(1)] assms(2) by simp_all
  then have eq: "node_replace_2_child new old i p k =
    rbind (set_header new BNODE_NODE (length es - 1)) (\<lambda>new.
    rbind (node_append_range new old 0 0 i) (\<lambda>new.
    rbind (node_append_kv new i p k []) (\<lambda>new.
    node_append_range new old (u16 (i + 1)) (i + 2) (length es - (i + 2)))))"
    using assms(2)
    by (simp only: node_replace_2_child_def node_is_nkeys [OF assms(1)] rbind_simps
        u16_small [of "i + 2"] u16_sub_le)
  show ?thesis
    unfolding eq
    by (rule rebuild_with_entry [OF assms(1,3)]) (use assms in \<open>auto simp: BNODE_NODE_def\<close>)
qed

lemma two_ranges_ok:
  assumes old1: "node_is old1 t1 es" and old2: "node_is old2 t2 fs"
    and i: "i \<le> length es" and j: "j + m \<le> length fs"
    and F: "F = take i es @ take m (drop j fs)" and n: "n = length F"
    and size: "node_size F \<le> length new" and len: "length new < 2 ^ 16" and t: "t < 2 ^ 16"
  shows "builds
    (rbind (set_header new t n) (\<lambda>new.
     rbind (node_append_range new old1 0 0 i) (\<lambda>new.
     node_append_range new old2 i j m))) t F (length new)"
proof -
  have n': "n = i + m"
    using i j by (simp add: F n)
  have sz: "4 + 10 * n + kvs_size F \<le> length new"
    using size by (simp add: node_size_def n)
  have "4 + 10 * n \<le> length new"
    using sz by simp
  then obtain d1 where d1: "set_header new t n = Inr d1" "node_building d1 t n []" "length d1 = length new"
    using building_init len t by blast
  obtain d2 where d2: "node_append_range d1 old1 0 0 i = Inr d2" "node_building d2 t n (take i es)"
      "length d2 = length new"
    using append_range_ok [OF old1 d1(2), of 0 i 0] i n' sz d1(3) by (auto simp: F)
  obtain d3 where d3: "node_append_range d2 old2 i j m = Inr d3" "node_building d3 t n F"
      "length d3 = length new"
    using append_range_ok [OF old2 d2(2), of j m i] i j n' sz d2(3) by (auto simp: F)
  then show ?thesis
    using d1 d2 n by (simp add: builds_def node_is_def)
qed

lemma leaf_delete_ok:
  assumes "node_is old BNODE_LEAF es" and "i < length es"
    and "node_size es \<le> length new" and "length new < 2 ^ 16"
  shows "builds (leaf_delete new old i) BNODE_LEAF (take i es @ drop (i + 1) es) (length new)"
proof -
  have n: "length es < 2 ^ 16" "i + 1 < 2 ^ 16" "1 \<le> length es"
    using node_is_ents [OF assms(1)] assms(2) by simp_all
  then have eq: "leaf_delete new old i =
    rbind (set_header new BNODE_LEAF (length es - 1)) (\<lambda>new.
    rbind (node_append_range new old 0 0 i) (\<lambda>new.
    node_append_range new old i (i + 1) (length es - (i + 1))))"
    using assms(2)
    by (simp only: leaf_delete_def node_is_nkeys [OF assms(1)] rbind_simps
        u16_small [of "Suc i"] u16_sub_le Suc_leI Suc_eq_plus1 [symmetric])
  have "node_size (take i es @ drop (i + 1) es) \<le> node_size es"
    using assms(2) by (subst (3) id_take_nth_drop [of i]) (simp_all add: node_size_def)
  then show ?thesis
    unfolding eq using assms
    by (intro two_ranges_ok [OF assms(1,1)]) (auto simp: BNODE_LEAF_def)
qed

lemma node_merge_ok:
  assumes "node_is left t es" and "node_is right t' fs"
    and "node_size (es @ fs) \<le> length new" and "length new < 2 ^ 16"
  shows "builds (node_merge new left right) t (es @ fs) (length new)"
proof -
  have "length es + length fs < 2 ^ 16"
    using assms(3,4) by (simp add: node_size_def)
  then have eq: "node_merge new left right =
    rbind (set_header new t (length es + length fs)) (\<lambda>new.
    rbind (node_append_range new left 0 0 (length es)) (\<lambda>new.
    node_append_range new right (length es) 0 (length fs)))"
    by (simp only: node_merge_def node_is_nkeys [OF assms(1)] node_is_btype [OF assms(1)]
        node_is_nkeys [OF assms(2)] rbind_simps u16_small)
  show ?thesis
    unfolding eq
    by (rule two_ranges_ok [OF assms(1,2)]) (use assms node_is_ents [OF assms(1)] in auto)
qed

section \<open>Finalising a page\<close>

lemma encode_ok:
  assumes "node_is d t es" and "node_size es \<le> BTREE_PAGE_SIZE"
  shows "builds (encode d) t es BTREE_PAGE_SIZE"
proof -
  from assms(1) obtain g3 where d: "d = layout t (length es) es [] [] g3"
    and lims: "t < 2 ^ 16" "length es < 2 ^ 16" "length d < 2 ^ 16" "list_all ent_ok es"
    unfolding node_is_def by (auto elim: node_buildingE)
  let ?L = "layout t (length es) es [] []"
  have L: "length (?L []) = node_size es"
    by (simp add: length_layout node_size_def)
  have split: "?L g = ?L [] @ g" for g
    by (simp add: layout_def)
  have "load d 0 (node_size es) = Inr (?L [])"
    unfolding d using split [of g3] L by (simp add: load_def)
  moreover have "store (replicate BTREE_PAGE_SIZE 0) 0 (?L [])
      = Inr (?L (replicate (BTREE_PAGE_SIZE - node_size es) 0))"
    using assms(2) L by (subst (2) split) (simp add: store_def)
  ultimately have "encode d = Inr (?L (replicate (BTREE_PAGE_SIZE - node_size es) 0))"
    using assms(2) by (simp add: encode_def node_is_nbytes [OF assms(1)])
  moreover have "length (?L (replicate (BTREE_PAGE_SIZE - node_size es) 0)) = BTREE_PAGE_SIZE"
    using assms(2) by (subst split) (simp add: L)
  moreover from this have "node_is (?L (replicate (BTREE_PAGE_SIZE - node_size es) 0)) t es"
    using lims unfolding node_is_def node_building_def by (fastforce simp: BTREE_PAGE_SIZE_def)
  ultimately show ?thesis
    by (auto simp: builds_def)
qed

lemma decode_ok: "length page = BTREE_PAGE_SIZE \<Longrightarrow> decode page = Inr page"
  by (simp add: decode_def)

section \<open>Lookup\<close>

text \<open>The number of leading entries whose key is at most \<open>key\<close>.\<close>

definition count_le :: "bytes \<Rightarrow> bytes list \<Rightarrow> nat" where
  "count_le key ks = length (takeWhile (\<lambda>k. k \<le> key) ks)"

lemma count_le_le [simp]: "count_le key ks \<le> length ks"
  by (simp add: count_le_def length_takeWhile_le)

lemma count_le_iff:
  assumes "sorted_wrt (<) ks" and "i < length ks"
  shows "i < count_le key ks \<longleftrightarrow> ks ! i \<le> key"
proof
  assume "i < count_le key ks"
  then show "ks ! i \<le> key"
    unfolding count_le_def by (metis nth_mem set_takeWhileD takeWhile_nth)
next
  assume le: "ks ! i \<le> key"
  show "i < count_le key ks"
  proof (rule ccontr)
    assume "\<not> i < count_le key ks"
    then have c: "count_le key ks \<le> i" by simp
    then have "\<not> ks ! count_le key ks \<le> key"
      using assms(2) nth_length_takeWhile [of "\<lambda>k. k \<le> key" ks] unfolding count_le_def by simp
    moreover have "ks ! count_le key ks \<le> ks ! i"
      using c assms sorted_wrt_nth_less [of "(<)" ks "count_le key ks" i] by (cases "count_le key ks = i") auto
    ultimately show False
      using le by order
  qed
qed

lemma lookup_le_loop_ok:
  assumes node: "node_is node t es" and sorted: "sorted_wrt (<) (map ent_key es)"
    and c: "c = count_le key (map ent_key es)"
  shows "0 \<le> lo \<Longrightarrow> hi < int (length es) \<Longrightarrow> lo \<le> int c \<Longrightarrow> int c \<le> hi + 1 \<Longrightarrow> result = lo - 1 \<Longrightarrow>
    lookup_le_loop node key lo hi result = Inr (int c - 1)"
proof (induction "nat (hi - lo + 1)" arbitrary: lo hi result rule: less_induct)
  case less
  show ?case
  proof (cases "lo \<le> hi")
    case False
    with less.prems show ?thesis
      by (simp add: lookup_le_loop.simps [of node key lo hi])
  next
    case True
    define mid where "mid = lo + (hi - lo) div 2"
    have mid: "lo \<le> mid" "mid \<le> hi" "0 \<le> mid" "mid < int (length es)"
      using True less.prems by (simp_all add: mid_def)
    obtain m where m: "mid = int m" "m < length es"
      using mid by (metis nonneg_int_cases of_nat_less_iff)
    have "m < 2 ^ 16"
      using m node_is_ents [OF node] by simp
    then have "nat (mid mod 2 ^ 16) = m"
      using m by simp
    then have key: "get_key node (nat (mid mod 2 ^ 16)) = Inr (ent_key (es ! m))"
      using node_is_key [OF node m(2)] by simp
    have iff: "j < c \<longleftrightarrow> ent_key (es ! j) \<le> key" if "j < length es" for j
      using that count_le_iff [OF sorted, of j key] c by simp
    note step = lookup_le_loop.simps [of node key lo hi result, folded mid_def]
    consider "ent_key (es ! m) = key" | "ent_key (es ! m) < key" | "key < ent_key (es ! m)"
      by (meson linorder_cases)
    then show ?thesis
    proof cases
      case 1
      have "m < c"
        using 1 iff [OF m(2)] by simp
      moreover have "\<not> Suc m < c"
      proof
        assume s: "Suc m < c"
        then have "Suc m < length es"
          using c count_le_le [of key "map ent_key es"] by simp
        moreover from this have "ent_key (es ! Suc m) \<le> key"
          using s iff by blast
        ultimately show False
          using sorted_wrt_nth_less [OF sorted, of m "Suc m"] 1 by simp
      qed
      ultimately have "c = Suc m" by simp
      with 1 True key m show ?thesis
        by (simp add: step)
    next
      case 2
      have "m < c"
        using 2 iff [OF m(2)] by simp
      have "lookup_le_loop node key lo hi result = lookup_le_loop node key (mid + 1) hi mid"
        using 2 True key by (auto simp: step)
      also have "\<dots> = Inr (int c - 1)"
        using \<open>m < c\<close> m mid less.prems by (intro less.hyps) auto
      finally show ?thesis .
    next
      case 3
      then have "c \<le> m"
        using iff [OF m(2)] by (meson leD leI)
      have "lookup_le_loop node key lo hi result = lookup_le_loop node key lo (mid - 1) result"
        using 3 True key by (auto simp: step)
      also have "\<dots> = Inr (int c - 1)"
        using \<open>c \<le> m\<close> m mid less.prems by (intro less.hyps) auto
      finally show ?thesis .
    qed
  qed
qed

lemma node_lookup_le_ok:
  assumes "node_is node t es" and "sorted_wrt (<) (map ent_key es)"
  shows "node_lookup_le node key = Inr (int (count_le key (map ent_key es)) - 1)"
proof -
  have "lookup_le_loop node key 0 (int (length es) - 1) (- 1)
      = Inr (int (count_le key (map ent_key es)) - 1)"
    using count_le_le [of key "map ent_key es"]
    by (intro lookup_le_loop_ok [OF assms refl]) simp_all
  then show ?thesis
    by (simp only: node_lookup_le_def node_is_nkeys [OF assms(1)] rbind_simps)
qed

section \<open>Split\<close>

lemma node_size_take_Suc:
  "j < length es \<Longrightarrow> node_size (take (Suc j) es) = node_size (take j es) + 10 + kv_size (es ! j)"
  by (simp add: node_size_def kvs_size_take_Suc)

lemma node_size_take_drop: "j \<le> length es \<Longrightarrow> node_size (take j es) + node_size (drop j es) = node_size es + 4"
  using node_size_append [of "take j es" "drop j es"] by (simp add: node_size_def)

lemma left_size_ok:
  assumes "node_is old t es" and "j \<le> length es"
  shows "left_size old j = Inr (node_size (take j es))"
proof -
  have "node_size (take j es) \<le> node_size es"
    using assms(2) kvs_size_take_le [of j es] by (simp add: node_size_def)
  then have "node_size (take j es) < 2 ^ 16"
    using node_is_size [OF assms(1)] by linarith
  then show ?thesis
    using assms(2) by (simp add: left_size_def node_is_offset [OF assms] u16_def node_size_def)
qed

lemma right_size_ok:
  assumes "node_is old t es" and "j \<le> length es"
  shows "right_size old (node_size (take j es)) = Inr (node_size (drop j es))"
proof -
  have sum: "node_size (take j es) + node_size (drop j es) = node_size es + 4"
    using assms(2) by (rule node_size_take_drop)
  have "node_size (drop j es) \<le> node_size es"
    using sum by (simp add: node_size_def)
  then have "node_size (drop j es) < 2 ^ 16"
    using node_is_size [OF assms(1)] by linarith
  moreover have "int (node_size es) - int (node_size (take j es)) + 4 = int (node_size (drop j es))"
    using sum by linarith
  ultimately show ?thesis
    by (simp add: right_size_def node_is_nbytes [OF assms(1)])
qed

lemma split_shrink_ok:
  assumes "node_is old t es"
  shows "j \<le> length es \<Longrightarrow> \<exists>i\<le>j. split_shrink old j = Inr (i, node_size (take i es))
    \<and> node_size (take i es) \<le> BTREE_PAGE_SIZE \<and> (\<forall>l\<le>j. node_size (take l es) \<le> BTREE_PAGE_SIZE \<longrightarrow> l \<le> i)"
proof (induction j)
  case 0
  have "node_size (take 0 es) \<le> BTREE_PAGE_SIZE"
    by (simp add: node_size_def BTREE_PAGE_SIZE_def)
  with 0 show ?case
    by (simp add: split_shrink.simps [of old 0] left_size_ok [OF assms])
next
  case (Suc j)
  show ?case
  proof (cases "node_size (take (Suc j) es) \<le> BTREE_PAGE_SIZE")
    case True
    with Suc.prems show ?thesis
      by (auto simp: split_shrink.simps [of old "Suc j"] left_size_ok [OF assms] not_less)
  next
    case False
    then have "split_shrink old (Suc j) = split_shrink old j"
      using Suc.prems by (simp add: split_shrink.simps [of old "Suc j"] left_size_ok [OF assms])
    with False Suc show ?thesis
      by (auto simp: le_Suc_eq)
  qed
qed

lemma split_grow_ok:
  assumes "node_is old t es"
  shows "j \<le> length es \<Longrightarrow> length es - j < fuel \<Longrightarrow>
    \<exists>i. split_grow fuel old j (node_size (take j es)) = Inr i \<and> j \<le> i \<and> i \<le> length es
      \<and> node_size (drop i es) \<le> BTREE_PAGE_SIZE
      \<and> (j < i \<longrightarrow> BTREE_PAGE_SIZE < node_size (drop (i - 1) es))"
proof (induction fuel arbitrary: j)
  case 0
  then show ?case by simp
next
  case (Suc fuel)
  show ?case
  proof (cases "node_size (drop j es) \<le> BTREE_PAGE_SIZE")
    case True
    with Suc.prems show ?thesis
      by (auto simp: right_size_ok [OF assms])
  next
    case False
    then have lt: "j < length es"
      using Suc.prems by (cases "j = length es") (auto simp: node_size_def BTREE_PAGE_SIZE_def)
    then have "Suc j < 2 ^ 16"
      using node_is_size [OF assms] by (simp add: node_size_def)
    then have step: "split_grow (Suc fuel) old j (node_size (take j es))
        = split_grow fuel old (Suc j) (node_size (take (Suc j) es))"
      using False lt by (simp add: right_size_ok [OF assms] left_size_ok [OF assms] u16_def)
    have "length es - Suc j < fuel"
      using Suc.prems lt by simp
    with lt obtain i where "split_grow fuel old (Suc j) (node_size (take (Suc j) es)) = Inr i" "Suc j \<le> i"
      "i \<le> length es" "node_size (drop i es) \<le> BTREE_PAGE_SIZE"
      "Suc j < i \<longrightarrow> BTREE_PAGE_SIZE < node_size (drop (i - 1) es)"
      using Suc.IH [of "Suc j"] by auto
    then show ?thesis
      using step False by (intro exI [of _ i]) (cases "i = Suc j"; auto)
  qed
qed

text \<open>
  The largest entry takes 14 bytes of overhead, a key and a value: at most 2014 bytes. A node that
  outgrew its page by one insertion is at most that much larger than a page.
\<close>

definition MAX_ENTRY :: nat where
  "MAX_ENTRY = 14 + BTREE_MAX_KEY_SIZE + BTREE_MAX_VAL_SIZE"

lemma ent_ok_size: "ent_ok e \<Longrightarrow> 10 + kv_size e \<le> MAX_ENTRY"
  by (simp add: ent_ok_def kv_size_def MAX_ENTRY_def)

lemma split_point_ok:
  assumes old: "node_is old t es" and two: "2 \<le> length es"
    and size: "node_size es \<le> BTREE_PAGE_SIZE + MAX_ENTRY"
  shows "\<exists>i nl. split_shrink old (length es div 2) = Inr (i, node_size (take i es)) \<and> 1 \<le> i
    \<and> split_grow (2 ^ 16) old i (node_size (take i es)) = Inr nl \<and> 1 \<le> nl \<and> nl < length es
    \<and> node_size (take nl es) \<le> BTREE_PAGE_SIZE \<and> node_size (drop nl es) \<le> BTREE_PAGE_SIZE"
proof -
  have ent: "10 + kv_size (es ! j) \<le> MAX_ENTRY" if "j < length es" for j
    using that node_is_ents [OF old] by (intro ent_ok_size) (simp add: list_all_length)
  have M: "MAX_ENTRY = 2014" and P: "BTREE_PAGE_SIZE = 4096"
    by (simp_all add: MAX_ENTRY_def BTREE_MAX_KEY_SIZE_def BTREE_MAX_VAL_SIZE_def BTREE_PAGE_SIZE_def)
  have first: "node_size (take 1 es) \<le> BTREE_PAGE_SIZE"
    using node_size_take_Suc [of 0 es] ent [of 0] two M P by (cases es) (simp_all add: node_size_def)
  have "length es div 2 \<le> length es" and one: "1 \<le> length es div 2"
    using two by simp_all
  then obtain i where i: "i \<le> length es div 2" "split_shrink old (length es div 2) = Inr (i, node_size (take i es))"
      "node_size (take i es) \<le> BTREE_PAGE_SIZE"
      "\<forall>l\<le>length es div 2. node_size (take l es) \<le> BTREE_PAGE_SIZE \<longrightarrow> l \<le> i"
    using split_shrink_ok [OF old] by meson
  then have i1: "1 \<le> i"
    using first one by blast
  have "i \<le> length es" and "length es - i < 2 ^ 16"
    using i(1) node_is_ents [OF old] by (simp_all add: less_imp_diff_less)
  then obtain nl where nl: "split_grow (2 ^ 16) old i (node_size (take i es)) = Inr nl" "i \<le> nl"
      "nl \<le> length es" "node_size (drop nl es) \<le> BTREE_PAGE_SIZE"
      "i < nl \<longrightarrow> BTREE_PAGE_SIZE < node_size (drop (nl - 1) es)"
    using split_grow_ok [OF old] by blast
  have grown: "node_size (take nl es) \<le> BTREE_PAGE_SIZE \<and> nl < length es" if "i < nl"
  proof -
    note lt = that
    obtain m where m: "nl = Suc m" "m < length es"
      using lt nl(3) by (cases nl) auto
    have big: "BTREE_PAGE_SIZE < node_size (drop m es)"
      using nl(5) that m by simp
    have "node_size (take m es) + node_size (drop m es) = node_size es + 4"
      using m(2) by (intro node_size_take_drop) simp
    then have "node_size (take nl es) \<le> BTREE_PAGE_SIZE"
      unfolding m(1) using node_size_take_Suc [OF m(2)] ent [OF m(2)] big size M P by linarith
    moreover have "nl \<noteq> length es"
    proof
      assume "nl = length es"
      then have "drop m es = [es ! m]"
        using m by (metis Cons_nth_drop_Suc drop_all order_refl)
      then show False
        using big ent [OF m(2)] M P by (simp add: node_size_def)
    qed
    ultimately show ?thesis using nl(3) by simp
  qed
  have "node_size (take nl es) \<le> BTREE_PAGE_SIZE \<and> nl < length es"
    using grown i(1,3) i1 two nl(2) by (cases "i = nl") auto
  then show ?thesis
    using i(2) i1 nl(1,2,4) by (intro exI [of _ i] exI [of _ nl]) simp
qed

lemma node_split_ok:
  assumes old: "node_is old t es" and two: "2 \<le> length es"
    and size: "node_size es \<le> BTREE_PAGE_SIZE + MAX_ENTRY"
    and lens: "length left = BTREE_PAGE_SIZE" "length right = BTREE_PAGE_SIZE"
  shows "\<exists>l r nl. node_split left right old = Inr (l, r) \<and> 1 \<le> nl \<and> nl < length es
    \<and> node_is l t (take nl es) \<and> node_is r t (drop nl es)
    \<and> node_size (take nl es) \<le> BTREE_PAGE_SIZE \<and> node_size (drop nl es) \<le> BTREE_PAGE_SIZE
    \<and> length l = BTREE_PAGE_SIZE \<and> length r = BTREE_PAGE_SIZE"
proof -
  obtain i nl where i: "split_shrink old (length es div 2) = Inr (i, node_size (take i es))" "1 \<le> i"
      "split_grow (2 ^ 16) old i (node_size (take i es)) = Inr nl"
    and nl: "1 \<le> nl" "nl < length es"
      "node_size (take nl es) \<le> BTREE_PAGE_SIZE" "node_size (drop nl es) \<le> BTREE_PAGE_SIZE"
    using split_point_ok [OF old two size] by blast
  have lims: "t < 2 ^ 16" "length es < 2 ^ 16" "length left < 2 ^ 16" "length right < 2 ^ 16"
    using node_is_ents [OF old] lens by (simp_all add: BTREE_PAGE_SIZE_def)
  have part: "\<exists>d2 d3. set_header d t (length fs) = Inr d2 \<and> node_append_range d2 old 0 src (length fs) = Inr d3
      \<and> node_is d3 t fs \<and> length d3 = length d"
    if "fs = take m (drop src es)" "length fs = m" "src + m \<le> length es" "node_size fs \<le> BTREE_PAGE_SIZE"
      "length d = BTREE_PAGE_SIZE" for fs m src d
  proof -
    note len_d = that(5)
    have "4 + 10 * length fs \<le> length d"
      using that(4,5) by (simp add: node_size_def)
    then obtain d2 where d2: "set_header d t (length fs) = Inr d2" "node_building d2 t (length fs) []"
        "length d2 = length d"
      using building_init [of "length fs" d t] lims len_d by (auto simp: BTREE_PAGE_SIZE_def)
    with append_range_ok [OF old d2(2), of src m 0] that show ?thesis
      by (auto simp: node_is_def node_size_def)
  qed
  obtain l2 l3 where l: "set_header left t nl = Inr l2" "node_append_range l2 old 0 0 nl = Inr l3"
      "node_is l3 t (take nl es)" "length l3 = length left"
    using part [of "take nl es" nl 0 left] nl lens by auto
  obtain r2 r3 where r: "set_header right t (length es - nl) = Inr r2"
      "node_append_range r2 old 0 nl (length es - nl) = Inr r3"
      "node_is r3 t (drop nl es)" "length r3 = length right"
    using part [of "drop nl es" "length es - nl" nl right] nl lens by auto
  have "node_split left right old = Inr (l3, r3)"
    using two i nl l r lims
    by (simp add: node_split_def Let_def node_is_nkeys [OF old] node_is_btype [OF old] u16_sub_le
        node_is_nbytes [OF l(3)] node_is_nbytes [OF r(3)])
  with l r nl lens show ?thesis by auto
qed

lemma node_split_if_needed_small:
  assumes "node_is d t es" and "node_size es \<le> BTREE_PAGE_SIZE"
  shows "node_split_if_needed d = Inr [d]"
  using assms by (simp add: node_split_if_needed_def node_is_nbytes [OF assms(1)])

lemma node_split_if_needed_big:
  assumes "node_is d t es" and "2 \<le> length es" and "BTREE_PAGE_SIZE < node_size es"
    and "node_size es \<le> BTREE_PAGE_SIZE + MAX_ENTRY"
  shows "\<exists>l r nl. node_split_if_needed d = Inr [l, r] \<and> 1 \<le> nl \<and> nl < length es
    \<and> node_is l t (take nl es) \<and> node_is r t (drop nl es)
    \<and> node_size (take nl es) \<le> BTREE_PAGE_SIZE \<and> node_size (drop nl es) \<le> BTREE_PAGE_SIZE
    \<and> length l = BTREE_PAGE_SIZE \<and> length r = BTREE_PAGE_SIZE"
  using node_split_ok [OF assms(1,2,4), of "BNode BTREE_PAGE_SIZE" "BNode BTREE_PAGE_SIZE"] assms(3)
  by (auto simp: node_split_if_needed_def node_is_nbytes [OF assms(1)] BNode_def)

text \<open>Every list of entries that fits has a page.\<close>

lemma build_page:
  assumes "list_all ent_ok es" and "node_size es \<le> BTREE_PAGE_SIZE" and "t < 2 ^ 16"
  shows "\<exists>d. node_is d t es \<and> length d = BTREE_PAGE_SIZE"
proof -
  have "k \<le> length es \<Longrightarrow> \<exists>d. node_building d t (length es) (take k es) \<and> length d = BTREE_PAGE_SIZE" for k
  proof (induction k)
    case 0
    have "4 + 10 * length es \<le> length (BNode BTREE_PAGE_SIZE)" "length (BNode BTREE_PAGE_SIZE) = BTREE_PAGE_SIZE"
      using assms(2) by (simp_all add: node_size_def BNode_def)
    then show ?case
      using building_init [of "length es" "BNode BTREE_PAGE_SIZE" t] assms(3) by (auto simp: BTREE_PAGE_SIZE_def)
  next
    case (Suc k)
    then obtain d where d: "node_building d t (length es) (take k es)" "length d = BTREE_PAGE_SIZE"
      by auto
    have split: "take (Suc k) es = take k es @ [(ent_ptr (es ! k), ent_key (es ! k), ent_val (es ! k))]"
      using Suc.prems by (simp add: take_Suc_conv_app_nth)
    have "ent_ok (es ! k)"
      using assms(1) Suc.prems by (simp add: list_all_length)
    moreover have "kvs_size (take (Suc k) es) \<le> kvs_size es"
      by (rule kvs_size_take_le)
    ultimately show ?case
      using building_append [OF d(1), of "ent_ptr (es ! k)" "ent_key (es ! k)" "ent_val (es ! k)"] Suc.prems assms(2) d(2)
      unfolding split by (auto simp: node_size_def)
  qed
  from this [of "length es"] show ?thesis
    by (simp add: node_is_def)
qed

end
