(* ===== verification/Tree_Model.thy ===== *)
theory Tree_Model
  imports BNode_Spec
begin

text \<open>
  The abstract B+tree: what a root page and the pages it reaches represent, its key-value list, the
  pages it owns, and the invariant of its shape. All lemmas here are about lists and trees; pages
  come in through \<open>stored\<close> only.
\<close>

section \<open>Updates of a sorted association list\<close>

type_synonym kv = "bytes \<times> bytes"

definition kv_upd :: "bytes \<Rightarrow> bytes \<Rightarrow> kv list \<Rightarrow> kv list" where
  "kv_upd k v xs = filter (\<lambda>x. fst x < k) xs @ (k, v) # filter (\<lambda>x. k < fst x) xs"

definition kv_del :: "bytes \<Rightarrow> kv list \<Rightarrow> kv list" where
  "kv_del k xs = filter (\<lambda>x. fst x \<noteq> k) xs"

abbreviation sorted1 :: "kv list \<Rightarrow> bool" where
  "sorted1 xs \<equiv> sorted_wrt (<) (map fst xs)"

lemma sorted_wrt_filter_map: "sorted_wrt P (map f xs) \<Longrightarrow> sorted_wrt P (map f (filter Q xs))"
  by (induction xs) auto

lemma sorted1_upd: "sorted1 xs \<Longrightarrow> sorted1 (kv_upd k v xs)"
  by (auto simp: kv_upd_def sorted_wrt_append sorted_wrt_filter_map)

lemma sorted1_del: "sorted1 xs \<Longrightarrow> sorted1 (kv_del k xs)"
  by (simp add: kv_del_def sorted_wrt_filter_map)

lemma map_of_filter: "map_of (filter (\<lambda>x. P (fst x)) xs) = (\<lambda>k. if P k then map_of xs k else None)"
  by (induction xs) auto

lemma map_of_kv_upd: "map_of (kv_upd k v xs) = (map_of xs)(k \<mapsto> v)"
proof
  fix q
  show "map_of (kv_upd k v xs) q = ((map_of xs)(k \<mapsto> v)) q"
    using map_of_filter [of "\<lambda>a. a < k" xs] map_of_filter [of "\<lambda>a. k < a" xs]
    by (cases q k rule: linorder_cases) (auto simp: kv_upd_def map_add_def split: option.splits)
qed

lemma map_of_kv_del: "map_of (kv_del k xs) = (map_of xs)(k := None)"
  using map_of_filter [of "\<lambda>a. a \<noteq> k" xs] by (auto simp: kv_del_def)

lemma kv_upd_mid:
  assumes "\<forall>x\<in>set A. fst x < k" and "\<forall>x\<in>set C. k < fst x"
  shows "kv_upd k v (A @ B @ C) = A @ kv_upd k v B @ C"
proof -
  have "filter (\<lambda>x. fst x < k) A = A" "filter (\<lambda>x. k < fst x) A = []"
    "filter (\<lambda>x. fst x < k) C = []" "filter (\<lambda>x. k < fst x) C = C"
    using assms by (auto simp: filter_empty_conv intro!: filter_True)
  then show ?thesis by (simp add: kv_upd_def)
qed

lemma kv_del_mid:
  assumes "\<forall>x\<in>set A. fst x < k" and "\<forall>x\<in>set C. k < fst x"
  shows "kv_del k (A @ B @ C) = A @ kv_del k B @ C"
proof -
  have "filter (\<lambda>x. fst x \<noteq> k) A = A" "filter (\<lambda>x. fst x \<noteq> k) C = C"
    using assms by (auto intro!: filter_True)
  then show ?thesis by (simp add: kv_del_def)
qed

lemma map_of_mid:
  assumes "\<forall>x\<in>set A. fst x < (k :: bytes)" and "\<forall>x\<in>set C. k < fst x"
  shows "map_of (A @ B @ C) k = map_of B k"
proof -
  have "k \<notin> fst ` set A" and "k \<notin> fst ` set C"
    using assms by auto
  then have "map_of A k = None" and "map_of C k = None"
    by (simp_all add: map_of_eq_None_iff)
  then show ?thesis
    by (simp add: map_add_def split: option.splits)
qed

lemma kv_upd_hd: "xs \<noteq> [] \<Longrightarrow> fst (hd xs) \<le> k \<Longrightarrow> sorted1 xs \<Longrightarrow> fst (hd (kv_upd k v xs)) = fst (hd xs)"
proof (cases xs)
  case (Cons x ys)
  assume le: "fst (hd xs) \<le> k" and s: "sorted1 xs"
  show ?thesis
  proof (cases "fst x = k")
    case True
    then have "filter (\<lambda>y. fst y < k) xs = []"
      using s Cons by (auto simp: filter_empty_conv dest: less_asym)
    then show ?thesis
      using True Cons by (simp add: kv_upd_def)
  qed (use le Cons in \<open>simp add: kv_upd_def less_le\<close>)
qed simp

text \<open>In a sorted list the entries up to a key are a prefix.\<close>

lemma sorted1_prefix:
  assumes "sorted1 xs"
  defines "c \<equiv> \<lambda>key. count_le key (map fst xs)"
  shows "filter (\<lambda>x. fst x \<le> key) xs = take (c key) xs"
    and "filter (\<lambda>x. key < fst x) xs = drop (c key) xs"
proof -
  have len: "c key \<le> length xs"
    using count_le_le [of key "map fst xs"] by (simp add: c_def)
  have le: "fst x \<le> key" if x: "x \<in> set (take (c key) xs)" for x
  proof -
    obtain i where "i < c key" "x = xs ! i"
      using x len by (auto simp: in_set_conv_nth)
    then show ?thesis
      using count_le_iff [OF assms(1), of i key] len by (simp add: c_def)
  qed
  have gt: "key < fst x" if x: "x \<in> set (drop (c key) xs)" for x
  proof -
    obtain i where "i < length xs - c key" "x = xs ! (c key + i)"
      using x by (auto simp: in_set_conv_nth)
    then show ?thesis
      using count_le_iff [OF assms(1), of "c key + i" key] by (simp add: c_def not_le [symmetric])
  qed
  have split: "xs = take (c key) xs @ drop (c key) xs"
    by simp
  have "filter (\<lambda>x. fst x \<le> key) (take (c key) xs) = take (c key) xs"
    "filter (\<lambda>x. fst x \<le> key) (drop (c key) xs) = []"
    using le gt by (auto simp: filter_empty_conv not_le intro!: filter_True)
  then show "filter (\<lambda>x. fst x \<le> key) xs = take (c key) xs"
    by (metis split append_Nil2 filter_append)
  have "filter (\<lambda>x. key < fst x) (take (c key) xs) = []"
    "filter (\<lambda>x. key < fst x) (drop (c key) xs) = drop (c key) xs"
    using le gt by (auto simp: filter_empty_conv not_less intro!: filter_True)
  then show "filter (\<lambda>x. key < fst x) xs = drop (c key) xs"
    by (metis split append_Nil filter_append)
qed

lemma key_absent:
  assumes "sorted1 xs" and "c = count_le key (map fst xs)" and "c = 0 \<or> fst (xs ! (c - 1)) \<noteq> key"
  shows "key \<notin> fst ` set xs"
proof
  assume "key \<in> fst ` set xs"
  then obtain i where i: "i < length xs" "fst (xs ! i) = key"
    by (auto simp: in_set_conv_nth)
  then have "i < c"
    using count_le_iff [OF assms(1), of i key] by (simp add: assms(2))
  moreover have "c - 1 < length xs"
    using count_le_le [of key "map fst xs"] assms(2) i by simp
  moreover have "fst (xs ! (c - 1)) \<le> key"
    using count_le_iff [OF assms(1), of "c - 1" key] calculation assms(2) by simp
  moreover have "i < c - 1 \<Longrightarrow> fst (xs ! i) < fst (xs ! (c - 1))"
    using sorted_wrt_nth_less [OF assms(1), of i "c - 1"] calculation i by simp
  moreover have "i = c - 1 \<or> i < c - 1"
    using calculation(1) by linarith
  ultimately show False
    using assms(3) i by auto
qed

lemma kv_absent:
  assumes "sorted1 xs" and "c = count_le key (map fst xs)" and "c = 0 \<or> fst (xs ! (c - 1)) \<noteq> key"
  shows "kv_upd key v xs = take c xs @ (key, v) # drop c xs"
    and "kv_del key xs = xs" and "map_of xs key = None"
proof -
  note absent = key_absent [OF assms]
  then have "filter (\<lambda>x. fst x < key) xs = filter (\<lambda>x. fst x \<le> key) xs"
    by (intro filter_cong) (auto simp: less_le)
  then show "kv_upd key v xs = take c xs @ (key, v) # drop c xs"
    using sorted1_prefix [OF assms(1), of key] assms(2) by (simp add: kv_upd_def)
  show "kv_del key xs = xs"
    using absent unfolding kv_del_def by (intro filter_True) auto
  show "map_of xs key = None"
    using absent by (simp add: map_of_eq_None_iff)
qed

lemma kv_present:
  assumes "sorted1 xs" and "c = count_le key (map fst xs)" and "0 < c" and "fst (xs ! (c - 1)) = key"
  shows "kv_upd key v xs = xs[c - 1 := (key, v)]"
    and "kv_del key xs = take (c - 1) xs @ drop c xs"
    and "map_of xs key = Some (snd (xs ! (c - 1)))"
proof -
  have c: "c - 1 < length xs" "c \<le> length xs"
    using count_le_le [of key "map fst xs"] assms(2,3) by simp_all
  have split: "take c xs = take (c - 1) xs @ [xs ! (c - 1)]"
    using c assms(3) take_Suc_conv_app_nth [of "c - 1" xs] by simp
  have all: "sorted1 (take (c - 1) xs @ xs ! (c - 1) # drop c xs)"
    using assms(1,3) c id_take_nth_drop [of "c - 1" xs] by simp
  have xs: "xs = take (c - 1) xs @ xs ! (c - 1) # drop c xs"
    using assms(3) c id_take_nth_drop [of "c - 1" xs] by simp
  have lt: "\<forall>x\<in>set (take (c - 1) xs). fst x < key" and gt: "\<forall>x\<in>set (drop c xs). key < fst x"
    using all assms(4) by (auto simp: sorted_wrt_append)
  have "kv_upd key v xs = take (c - 1) xs @ kv_upd key v [xs ! (c - 1)] @ drop c xs"
    using arg_cong [OF xs, of "kv_upd key v"] kv_upd_mid [OF lt gt, of v "[xs ! (c - 1)]"] by simp
  then show "kv_upd key v xs = xs[c - 1 := (key, v)]"
    using assms(3,4) c(1) by (simp add: kv_upd_def upd_conv_take_nth_drop)
  have "kv_del key xs = take (c - 1) xs @ kv_del key [xs ! (c - 1)] @ drop c xs"
    using arg_cong [OF xs, of "kv_del key"] kv_del_mid [OF lt gt, of "[xs ! (c - 1)]"] by simp
  then show "kv_del key xs = take (c - 1) xs @ drop c xs"
    using assms(4) by (simp add: kv_del_def)
  have "distinct (map fst xs)"
    using assms(1) by (simp add: strict_sorted_iff)
  then show "map_of xs key = Some (snd (xs ! (c - 1)))"
    using c(1) assms(4) by (metis map_of_eq_Some_iff nth_mem prod.collapse)
qed

section \<open>Trees\<close>

text \<open>
  A leaf holds key-value pairs; an internal node holds, for each child, its page, its separator key
  and the subtree stored there.
\<close>

datatype tree = Leaf "kv list" | Node "(u64 \<times> bytes \<times> tree) list"

abbreviation kid_ptr :: "u64 \<times> bytes \<times> tree \<Rightarrow> u64" where "kid_ptr x \<equiv> fst x"
abbreviation kid_key :: "u64 \<times> bytes \<times> tree \<Rightarrow> bytes" where "kid_key x \<equiv> fst (snd x)"
abbreviation kid :: "u64 \<times> bytes \<times> tree \<Rightarrow> tree" where "kid x \<equiv> snd (snd x)"

lemma size_kid [termination_simp]:
  "x \<in> set cs \<Longrightarrow> size (kid x) < Suc (size_list (size_prod (\<lambda>_. 0) (size_prod (\<lambda>_. 0) size)) cs)"
  by (induction cs) (auto simp: prod.size_gen(1) split: prod.splits)

definition kid_ent :: "u64 \<times> bytes \<times> tree \<Rightarrow> ent" where
  "kid_ent x = (kid_ptr x, kid_key x, [])"

definition kv_ent :: "kv \<Rightarrow> ent" where
  "kv_ent x = (0, fst x, snd x)"

fun ntype :: "tree \<Rightarrow> nat" where
  "ntype (Leaf _) = BNODE_LEAF"
| "ntype (Node _) = BNODE_NODE"

fun ents :: "tree \<Rightarrow> ent list" where
  "ents (Leaf xs) = map kv_ent xs"
| "ents (Node cs) = map kid_ent cs"

fun kvs :: "tree \<Rightarrow> kv list" where
  "kvs (Leaf xs) = xs"
| "kvs (Node cs) = concat (map (\<lambda>x. kvs (kid x)) cs)"

fun pages :: "tree \<Rightarrow> u64 list" where
  "pages (Leaf xs) = []"
| "pages (Node cs) = concat (map (\<lambda>x. kid_ptr x # pages (kid x)) cs)"

definition fits :: "tree \<Rightarrow> bool" where
  "fits t \<longleftrightarrow> node_size (ents t) \<le> BTREE_PAGE_SIZE"

definition first_key :: "tree \<Rightarrow> bytes" where
  "first_key t = ent_key (hd (ents t))"

text \<open>
  \<open>shape h t\<close>: every path has \<open>h\<close> internal nodes, no node is empty, each separator is the first key of
  its child, and every node below the root fits a page.
\<close>

fun shape :: "nat \<Rightarrow> tree \<Rightarrow> bool" where
  "shape 0 (Leaf xs) = (xs \<noteq> [])"
| "shape (Suc h) (Node cs) =
     (cs \<noteq> [] \<and> (\<forall>x\<in>set cs. shape h (kid x) \<and> fits (kid x) \<and> kid_key x = first_key (kid x)))"
| "shape _ _ = False"

text \<open>\<open>node_of d t\<close>: the page \<open>d\<close> holds the top node of \<open>t\<close>; \<open>stored P t\<close>: \<open>P\<close> holds the rest.\<close>

definition node_of :: "bnode \<Rightarrow> tree \<Rightarrow> bool" where
  "node_of d t \<longleftrightarrow> node_is d (ntype t) (ents t)"

definition page_of :: "bytes option \<Rightarrow> tree \<Rightarrow> bool" where
  "page_of od t \<longleftrightarrow> (\<exists>d. od = Some d \<and> node_of d t \<and> length d = BTREE_PAGE_SIZE)"

fun stored :: "(u64 \<rightharpoonup> bytes) \<Rightarrow> tree \<Rightarrow> bool" where
  "stored P (Leaf xs) = True"
| "stored P (Node cs) = (\<forall>x\<in>set cs. page_of (P (kid_ptr x)) (kid x) \<and> stored P (kid x))"

lemma ent_key_simps [simp]:
  "ent_key (kid_ent x) = kid_key x" "ent_key (kv_ent y) = fst y"
  "ent_ptr (kid_ent x) = kid_ptr x" "ent_val (kv_ent y) = snd y"
  by (simp_all add: kid_ent_def kv_ent_def)

lemma kid_ent_tuple [simp]: "kid_ent (p, k, t) = (p, k, [])"
  by (simp add: kid_ent_def)

lemma stored_frame: "stored P t \<Longrightarrow> (\<And>p. p \<in> set (pages t) \<Longrightarrow> P' p = P p) \<Longrightarrow> stored P' t"
proof (induction P t rule: stored.induct)
  case (1 P xs)
  then show ?case by simp
next
  case (2 P cs)
  show ?case
  proof (simp, intro ballI)
    fix x
    assume x: "x \<in> set cs"
    then have sub: "set (kid_ptr x # pages (kid x)) \<subseteq> set (pages (Node cs))"
      by auto
    then have "P' (kid_ptr x) = P (kid_ptr x)"
      using 2(3) by auto
    moreover have "stored P' (kid x)"
      using 2(2) x sub by (intro 2(1) [OF x] 2(3)) auto
    ultimately show "page_of (P' (kid_ptr x)) (kid x) \<and> stored P' (kid x)"
      using 2(2) x by auto
  qed
qed

lemma stored_dom: "stored P t \<Longrightarrow> set (pages t) \<subseteq> dom P"
proof (induction P t rule: stored.induct)
  case (1 P xs)
  then show ?case by simp
next
  case (2 P cs)
  then have "set (kid_ptr x # pages (kid x)) \<subseteq> dom P" if "x \<in> set cs" for x
    using that by (auto simp: page_of_def)
  then show ?case
    by (simp only: pages.simps set_concat set_map) blast
qed

lemma pages_kid:
  assumes "x \<in> set cs"
  shows "set (kid_ptr x # pages (kid x)) \<subseteq> set (pages (Node cs))"
    and "distinct (pages (Node cs)) \<Longrightarrow> distinct (kid_ptr x # pages (kid x))"
  using assms by (induction cs) auto

lemma shape_kvs: "shape h t \<Longrightarrow> kvs t \<noteq> [] \<and> ents t \<noteq> [] \<and> fst (hd (kvs t)) = first_key t"
proof (induction h t rule: shape.induct)
  case (1 xs)
  then show ?case by (cases xs) (auto simp: first_key_def)
next
  case (2 h cs)
  then obtain x cs' where cs: "cs = x # cs'" by (cases cs) auto
  then have "kvs (kid x) \<noteq> [] \<and> fst (hd (kvs (kid x))) = first_key (kid x)" "kid_key x = first_key (kid x)"
    using 2 by auto
  then show ?case
    using cs by (simp add: first_key_def)
qed auto

section \<open>Choosing a child\<close>

lemma sorted1_append:
  "sorted1 (xs @ ys) \<longleftrightarrow> sorted1 xs \<and> sorted1 ys \<and> (\<forall>x\<in>set xs. \<forall>y\<in>set ys. fst x < fst y)"
  by (auto simp: sorted_wrt_append)

lemma sorted1_hd: "sorted1 xs \<Longrightarrow> x \<in> set xs \<Longrightarrow> fst (hd xs) \<le> fst x"
  by (cases xs) auto

lemma hd_keys_sorted:
  assumes "sorted1 (concat (map f cs))" and "\<forall>x\<in>set cs. f x \<noteq> []"
  shows "sorted_wrt (<) (map (\<lambda>x. fst (hd (f x))) cs)"
  using assms
proof (induction cs)
  case Nil
  then show ?case by simp
next
  case (Cons x cs)
  have "fst (hd (f x)) < fst (hd (f y))" if "y \<in> set cs" for y
  proof -
    have "hd (f x) \<in> set (f x)" "hd (f y) \<in> set (f y)"
      using Cons.prems(2) that by auto
    then have "hd (f x) \<in> set (f x)" "hd (f y) \<in> set (concat (map f cs))"
      using that by auto
    then show ?thesis
      using Cons.prems(1) by (auto simp: sorted_wrt_append)
  qed
  with Cons show ?case
    by (auto simp: sorted_wrt_append)
qed

lemma shape_kid_key:
  assumes "shape (Suc h) (Node cs)" and "x \<in> set cs"
  shows "kid_key x = fst (hd (kvs (kid x)))" and "kvs (kid x) \<noteq> []"
  using assms shape_kvs [of h "kid x"] by auto

lemma node_keys_sorted:
  assumes "shape h t" and "sorted1 (kvs t)"
  shows "sorted_wrt (<) (map ent_key (ents t))"
proof (cases t)
  case (Leaf xs)
  with assms show ?thesis by (simp add: comp_def)
next
  case (Node cs)
  with assms(1) obtain h' where h: "h = Suc h'"
    by (cases h) auto
  have "sorted_wrt (<) (map (\<lambda>x. fst (hd (kvs (kid x)))) cs)"
    using assms Node h shape_kid_key(2) by (intro hd_keys_sorted) auto
  moreover have "map ent_key (ents t) = map (\<lambda>x. fst (hd (kvs (kid x)))) cs"
    using assms(1) Node h by (simp add: shape_kid_key(1))
  ultimately show ?thesis by simp
qed

lemma child_pos:
  assumes sh: "shape (Suc h) (Node cs)" and sorted: "sorted1 (kvs (Node cs))"
    and le: "first_key (Node cs) \<le> key" and c: "c = count_le key (map kid_key cs)"
  defines "A \<equiv> concat (map (\<lambda>x. kvs (kid x)) (take (c - 1) cs))"
    and "C \<equiv> concat (map (\<lambda>x. kvs (kid x)) (drop c cs))"
  shows "0 < c" and "c \<le> length cs" and "cs = take (c - 1) cs @ cs ! (c - 1) # drop c cs"
    and "kvs (Node cs) = A @ kvs (kid (cs ! (c - 1))) @ C"
    and "\<forall>x\<in>set A. fst x < key" and "\<forall>x\<in>set C. key < fst x"
    and "first_key (kid (cs ! (c - 1))) \<le> key"
proof -
  have keys: "sorted_wrt (<) (map kid_key cs)"
    using node_keys_sorted [OF sh sorted] by (simp add: comp_def)
  have ne: "cs \<noteq> []"
    using sh by simp
  have "kid_key (cs ! 0) \<le> key"
    using le ne by (simp add: first_key_def hd_map hd_conv_nth)
  then show pos: "0 < c"
    using count_le_iff [OF keys, of 0 key] ne by (simp add: c)
  show len: "c \<le> length cs"
    using count_le_le [of key "map kid_key cs"] by (simp add: c)
  show cs: "cs = take (c - 1) cs @ cs ! (c - 1) # drop c cs"
    using pos len id_take_nth_drop [of "c - 1" cs] by simp
  have mem: "cs ! (c - 1) \<in> set cs"
    using pos len by simp
  show kvs: "kvs (Node cs) = A @ kvs (kid (cs ! (c - 1))) @ C"
    unfolding A_def C_def using arg_cong [OF cs, of "\<lambda>cs. kvs (Node cs)"] by simp
  have "kid_key (cs ! (c - 1)) \<le> key"
    using count_le_iff [OF keys, of "c - 1" key] pos len by (simp add: c)
  then have hd: "fst (hd (kvs (kid (cs ! (c - 1))))) \<le> key"
    using shape_kid_key(1) [OF sh mem] by simp
  then show "first_key (kid (cs ! (c - 1))) \<le> key"
    using sh mem shape_kvs [of h "kid (cs ! (c - 1))"] by auto
  have s: "sorted1 (A @ kvs (kid (cs ! (c - 1))) @ C)"
    using sorted unfolding kvs .
  show "\<forall>x\<in>set A. fst x < key"
  proof
    fix x
    assume "x \<in> set A"
    moreover have "hd (kvs (kid (cs ! (c - 1)))) \<in> set (kvs (kid (cs ! (c - 1))))"
      using shape_kid_key(2) [OF sh mem] by (rule hd_in_set)
    ultimately have "fst x < fst (hd (kvs (kid (cs ! (c - 1)))))"
      using s by (auto simp: sorted_wrt_append)
    with hd show "fst x < key" by order
  qed
  show "\<forall>x\<in>set C. key < fst x"
  proof
    fix x
    assume x: "x \<in> set C"
    then have lt: "c < length cs"
      unfolding C_def by (cases "c < length cs") auto
    have C: "C = kvs (kid (cs ! c)) @ concat (map (\<lambda>x. kvs (kid x)) (drop (Suc c) cs))"
      unfolding C_def using lt by (simp add: Cons_nth_drop_Suc [symmetric])
    have mem': "cs ! c \<in> set cs"
      using lt by simp
    have "key < kid_key (cs ! c)"
      using count_le_iff [OF keys, of c key] lt by (simp add: c not_le [symmetric])
    also have "kid_key (cs ! c) = fst (hd C)"
      using shape_kid_key [OF sh mem'] by (simp add: C)
    also have "fst (hd C) \<le> fst x"
      using s x by (intro sorted1_hd) (auto simp: sorted_wrt_append)
    finally show "key < fst x" .
  qed
qed

section \<open>Splitting a tree at its top node\<close>

fun ttake :: "nat \<Rightarrow> tree \<Rightarrow> tree" where
  "ttake n (Leaf xs) = Leaf (take n xs)"
| "ttake n (Node cs) = Node (take n cs)"

fun tdrop :: "nat \<Rightarrow> tree \<Rightarrow> tree" where
  "tdrop n (Leaf xs) = Leaf (drop n xs)"
| "tdrop n (Node cs) = Node (drop n cs)"

lemma ents_ttake [simp]: "ents (ttake n t) = take n (ents t)" "ents (tdrop n t) = drop n (ents t)"
  by (cases t; simp add: take_map drop_map)+

lemma ntype_ttake [simp]: "ntype (ttake n t) = ntype t" "ntype (tdrop n t) = ntype t"
  by (cases t; simp)+

lemma concat_split: "concat (map f xs) = concat (map f (take n xs)) @ concat (map f (drop n xs))"
  by (metis append_take_drop_id concat_append map_append)

lemma kvs_tsplit: "kvs t = kvs (ttake n t) @ kvs (tdrop n t)"
  using concat_split [of "\<lambda>x. kvs (kid x)"] by (cases t) simp_all

lemma pages_tsplit: "pages t = pages (ttake n t) @ pages (tdrop n t)"
  using concat_split [of "\<lambda>x. kid_ptr x # pages (kid x)"] by (cases t) simp_all

lemma stored_tsplit:
  assumes "stored P t"
  shows "stored P (ttake n t) \<and> stored P (tdrop n t)"
proof (cases t)
  case (Leaf xs)
  then show ?thesis by simp
next
  case (Node cs)
  have "x \<in> set cs" if "x \<in> set (take n cs) \<or> x \<in> set (drop n cs)" for x
    using that set_take_subset set_drop_subset by fast
  with assms show ?thesis
    unfolding Node by simp
qed

lemma shape_tsplit:
  assumes "shape h t" and "0 < n" and "n < length (ents t)"
  shows "shape h (ttake n t) \<and> shape h (tdrop n t)"
proof (cases t)
  case (Leaf xs)
  with assms show ?thesis by (cases h) auto
next
  case (Node cs)
  then obtain h' where h: "h = Suc h'"
    using assms(1) by (cases h) auto
  have "x \<in> set cs" if "x \<in> set (take n cs) \<or> x \<in> set (drop n cs)" for x
    using that set_take_subset set_drop_subset by fast
  with assms show ?thesis
    unfolding Node h by simp
qed

lemma first_key_ttake: "0 < n \<Longrightarrow> first_key (ttake n t) = first_key t"
  by (simp add: first_key_def)

section \<open>Sizes and heights\<close>

lemma node_size_cong: "map snd es = map snd fs \<Longrightarrow> node_size es = node_size fs"
proof -
  assume snds: "map snd es = map snd fs"
  have k: "map kv_size gs = map (\<lambda>y. 4 + length (fst y) + length (snd y)) (map snd gs)" for gs :: "ent list"
    by (simp add: kv_size_def)
  have "map kv_size es = map kv_size fs"
    unfolding k snds ..
  moreover have "length es = length fs"
    using snds by (rule map_eq_imp_length_eq)
  ultimately show ?thesis
    by (simp add: node_size_def kvs_size_def)
qed

lemma shape_height: "shape h t \<Longrightarrow> h \<le> length (pages t)"
proof (induction h t rule: shape.induct)
  case (2 h cs)
  then obtain x cs' where cs: "cs = x # cs'" by (cases cs) auto
  then have "h \<le> length (pages (kid x))"
    using 2 by auto
  then show ?case
    using cs by simp
qed auto

lemma shape_height_bound:
  assumes "shape h t" and "distinct (root # pages t)"
  shows "h < 2 ^ 64"
proof -
  have "length (root # pages t) = card (set (root # pages t))"
    using assms(2) by (rule distinct_card [symmetric])
  also have "\<dots> \<le> card (UNIV :: u64 set)"
    by (intro card_mono) simp_all
  also have "\<dots> = 2 ^ 64"
    by (simp add: card_word)
  finally show ?thesis
    using shape_height [OF assms(1)] by simp
qed

section \<open>Page stores: what an update releases and allocates\<close>

text \<open>
  \<open>moves P P' A B\<close>: from \<open>P\<close> to \<open>P'\<close>, the pages \<open>A\<close> stopped belonging to the tree and the pages \<open>B\<close>
  came to belong to it; every other page is as before. Nothing is released that is not there, and
  nothing is allocated that is still in use.
\<close>

definition moves :: "(u64 \<rightharpoonup> bytes) \<Rightarrow> (u64 \<rightharpoonup> bytes) \<Rightarrow> u64 set \<Rightarrow> u64 set \<Rightarrow> bool" where
  "moves P P' A B \<longleftrightarrow> (\<forall>p. (p \<in> A \<longrightarrow> P p \<noteq> None) \<and> (p \<in> B \<longrightarrow> P' p \<noteq> None)
     \<and> (p \<in> B \<longrightarrow> p \<notin> A \<longrightarrow> P p = None) \<and> (p \<notin> A \<longrightarrow> p \<notin> B \<longrightarrow> P' p = P p)
     \<and> (p \<in> A \<longrightarrow> p \<notin> B \<longrightarrow> P' p = None))"

lemma moves_refl: "moves P P {} {}"
  by (simp add: moves_def)

lemma moves_del: "P p = Some d \<Longrightarrow> moves P (P(p := None)) {p} {}"
  by (auto simp: moves_def)

lemma moves_new: "P p = None \<Longrightarrow> moves P (P(p \<mapsto> d)) {} {p}"
  by (auto simp: moves_def)

lemma moves_trans:
  assumes "moves P P1 A B" and "moves P1 P2 A' B'"
  shows "moves P P2 (A \<union> (A' - B)) ((B - A') \<union> B')"
  unfolding moves_def
proof (rule allI, goal_cases)
  case (1 p)
  note m = assms [unfolded moves_def, THEN spec, of p]
  show ?case
    using m by (cases "p \<in> A"; cases "p \<in> B"; cases "p \<in> A'"; cases "p \<in> B'"; simp)
qed

lemma moves_dom: "moves P P' A B \<Longrightarrow> dom P' = dom P - A \<union> B"
proof (rule set_eqI)
  fix p
  assume "moves P P' A B"
  note m = this [unfolded moves_def, THEN spec, of p]
  show "p \<in> dom P' \<longleftrightarrow> p \<in> dom P - A \<union> B"
    using m by (cases "p \<in> A"; cases "p \<in> B") (auto simp: domIff)
qed

lemma moves_frame:
  assumes m: "moves P P' A B" and K: "K \<subseteq> dom P" and disj: "K \<inter> A = {}"
  shows "moves P P' (A \<union> K) (B \<union> K)" and "K \<inter> B = {}" and "\<forall>p\<in>K. P' p = P p"
proof -
  have KB: "p \<notin> B" if "p \<in> K" for p
    using m [unfolded moves_def, THEN spec, of p] K disj that by auto
  then show "K \<inter> B = {}"
    by blast
  show same: "\<forall>p\<in>K. P' p = P p"
  proof
    fix p
    assume "p \<in> K"
    then show "P' p = P p"
      using m [unfolded moves_def, THEN spec, of p] KB [of p] disj by auto
  qed
  show "moves P P' (A \<union> K) (B \<union> K)"
    unfolding moves_def
  proof (rule allI, goal_cases)
    case (1 p)
    show ?case
      using m [unfolded moves_def, THEN spec, of p] same K by (cases "p \<in> K") auto
  qed
qed

end
