(* ===== verification/BTree_Spec.thy ===== *)
theory BTree_Spec
  imports BTree Tree_Model
begin

text \<open>
  Correctness of the B+tree relative to its page manager. \<open>page_view\<close> is what a reader provides, a
  faithful \<open>get\<close> of the live pages; \<open>page_store\<close> adds allocation and release. Under these laws a
  lookup returns what the represented map holds, and an update rebuilds the path to the root:
  exactly the tree's pages stay live, so nothing leaks and nothing is released twice.
\<close>

section \<open>The represented map and the tree invariant\<close>

text \<open>
  The first key is the empty sentinel written by the first insertion; it is not part of the map.
\<close>

definition tree_map :: "tree \<Rightarrow> bytes \<rightharpoonup> bytes" where
  "tree_map t = (map_of (kvs t))([] := None)"

definition tree_inv :: "tree \<Rightarrow> bool" where
  "tree_inv t \<longleftrightarrow> (\<exists>h. shape h t) \<and> fits t \<and> sorted1 (kvs t) \<and> first_key t = []"

definition tree_at :: "(u64 \<rightharpoonup> bytes) \<Rightarrow> u64 \<Rightarrow> tree \<Rightarrow> bool" where
  "tree_at P root t \<longleftrightarrow> tree_inv t \<and> root \<noteq> 0 \<and> page_of (P root) t \<and> stored P t
     \<and> distinct (root # pages t) \<and> 0 \<notin> set (pages t)"

text \<open>
  \<open>btree P root m\<close>: the tree rooted at \<open>root\<close> represents the map \<open>m\<close>, and the live pages are exactly
  the tree's own.
\<close>

definition btree :: "(u64 \<rightharpoonup> bytes) \<Rightarrow> u64 \<Rightarrow> (bytes \<rightharpoonup> bytes) \<Rightarrow> bool" where
  "btree P root m \<longleftrightarrow>
     root = 0 \<and> m = Map.empty \<and> dom P = {}
     \<or> (\<exists>t. tree_at P root t \<and> m = tree_map t \<and> dom P = set (root # pages t))"

text \<open>A reader sees a tree among pages that may also hold something else.\<close>

definition represents :: "(u64 \<rightharpoonup> bytes) \<Rightarrow> u64 \<Rightarrow> (bytes \<rightharpoonup> bytes) \<Rightarrow> bool" where
  "represents P root m \<longleftrightarrow> root = 0 \<and> m = Map.empty \<or> (\<exists>t. tree_at P root t \<and> m = tree_map t)"

lemma btree_represents: "btree P root m \<Longrightarrow> represents P root m"
  by (auto simp: btree_def represents_def)

definition valid_key :: "bytes \<Rightarrow> bool" where
  "valid_key key \<longleftrightarrow> key \<noteq> [] \<and> length key \<le> BTREE_MAX_KEY_SIZE"

lemma check_key_limit_iff [simp]: "check_key_limit key = Inr () \<longleftrightarrow> valid_key key"
  by (auto simp: check_key_limit_def valid_key_def)

lemma tree_map_valid: "valid_key key \<Longrightarrow> tree_map t key = map_of (kvs t) key"
  by (simp add: tree_map_def valid_key_def)

lemma Nil_le_bytes [simp]: "[] \<le> (xs :: bytes)"
  by (cases xs) (simp_all add: less_imp_le)

lemma u16_nat: "i < 2 ^ 16 \<Longrightarrow> u16 (nat (int i)) = i"
  by (simp add: u16_def)

text \<open>What \<open>node_lookup_le\<close> answers on a node of a well-formed tree.\<close>

lemma lookup_node:
  assumes "node_of d t" and "shape h t" and "sorted1 (kvs t)" and "first_key t \<le> key"
    and c: "c = count_le key (map ent_key (ents t))"
  shows "node_lookup_le d key = Inr (int (c - 1))" and "0 < c" and "c \<le> length (ents t)"
    and "length (ents t) < 2 ^ 16"
proof -
  have sorted: "sorted_wrt (<) (map ent_key (ents t))"
    using assms(2,3) by (rule node_keys_sorted)
  have "ents t \<noteq> []"
    using shape_kvs [OF assms(2)] by simp
  then show pos: "0 < c"
    using count_le_iff [OF sorted, of 0 key] assms(4) c by (simp add: first_key_def hd_conv_nth)
  show "c \<le> length (ents t)"
    using count_le_le [of key "map ent_key (ents t)"] c by simp
  show "length (ents t) < 2 ^ 16"
    using assms(1) node_is_ents unfolding node_of_def by blast
  show "node_lookup_le d key = Inr (int (c - 1))"
    using node_lookup_le_ok [OF assms(1) [unfolded node_of_def] sorted, of key] pos c
    by (simp add: of_nat_diff)
qed

text \<open>The pages determine the tree, so a root represents at most one map.\<close>

lemma node_is_unique:
  assumes "node_is d t es" and "node_is d t' fs"
  shows "t = t' \<and> es = fs"
proof
  show "t = t'"
    using node_is_btype [OF assms(1)] node_is_btype [OF assms(2)] by simp
  have len: "length es = length fs"
    using node_is_nkeys [OF assms(1)] node_is_nkeys [OF assms(2)] by simp
  show "es = fs"
  proof (rule nth_equalityI [OF len])
    fix i
    assume "i < length es"
    then show "es ! i = fs ! i"
      using node_is_ptr [OF assms(1), of i] node_is_ptr [OF assms(2), of i] len
        node_is_key [OF assms(1), of i] node_is_key [OF assms(2), of i]
        node_is_val [OF assms(1), of i] node_is_val [OF assms(2), of i]
      by (simp add: prod_eq_iff)
  qed
qed

lemma map_kv_ent_inj: "map kv_ent xs = map kv_ent ys \<Longrightarrow> xs = ys"
  by (rule map_injective) (auto simp: inj_on_def kv_ent_def prod_eq_iff)

lemma stored_unique:
  "node_of d t \<Longrightarrow> node_of d t' \<Longrightarrow> stored P t \<Longrightarrow> stored P t' \<Longrightarrow> t = t'"
proof (induction P t arbitrary: d t' rule: stored.induct)
  case (1 P xs)
  then show ?case
    using node_is_unique [of d BNODE_LEAF "map kv_ent xs" "ntype t'" "ents t'"] map_kv_ent_inj
    by (cases t') (auto simp: node_of_def BNODE_LEAF_def BNODE_NODE_def)
next
  case (2 P cs)
  have "BNODE_NODE = ntype t' \<and> map kid_ent cs = ents t'"
    using node_is_unique [of d BNODE_NODE "map kid_ent cs" "ntype t'" "ents t'"] 2(2,3) by (simp add: node_of_def)
  then obtain cs' where t': "t' = Node cs'" and eq: "map kid_ent cs = map kid_ent cs'"
    by (cases t') (auto simp: BNODE_LEAF_def BNODE_NODE_def)
  have len: "length cs = length cs'"
    using eq by (rule map_eq_imp_length_eq)
  have "cs = cs'"
  proof (rule nth_equalityI [OF len])
    fix i
    assume i: "i < length cs"
    have "kid_ent (cs ! i) = kid_ent (cs' ! i)"
      using eq i len by (metis nth_map)
    then have ptr: "kid_ptr (cs ! i) = kid_ptr (cs' ! i)" and key: "kid_key (cs ! i) = kid_key (cs' ! i)"
      by (simp_all add: kid_ent_def)
    have mem: "cs ! i \<in> set cs" "cs' ! i \<in> set cs'"
      using i len by simp_all
    have "page_of (P (kid_ptr (cs ! i))) (kid (cs ! i))" "page_of (P (kid_ptr (cs' ! i))) (kid (cs' ! i))"
      "stored P (kid (cs ! i))" "stored P (kid (cs' ! i))"
      using 2(4,5) mem unfolding t' by auto
    then have "kid (cs ! i) = kid (cs' ! i)"
      using 2(1) [OF mem(1)] unfolding page_of_def ptr by fastforce
    then show "cs ! i = cs' ! i"
      using ptr key by (simp add: prod_eq_iff)
  qed
  then show ?case
    by (simp add: t')
qed

lemma tree_at_unique: "tree_at P root t \<Longrightarrow> tree_at P root t' \<Longrightarrow> t = t'"
  using stored_unique unfolding tree_at_def page_of_def by (metis option.inject)

text \<open>\<open>tall P root h\<close>: the tree has at most \<open>h\<close> levels above its leaves. The cost of a write depends on it.\<close>

definition tall :: "(u64 \<rightharpoonup> bytes) \<Rightarrow> u64 \<Rightarrow> nat \<Rightarrow> bool" where
  "tall P root h \<longleftrightarrow> root = 0 \<or> (\<exists>t k. tree_at P root t \<and> shape k t \<and> k \<le> h)"

lemma tall_mono: "tall P root h \<Longrightarrow> h \<le> k \<Longrightarrow> tall P root k"
  unfolding tall_def by (meson le_trans)

lemma tall_shape:
  assumes "tall P root h" and t: "tree_at P root t"
  shows "\<exists>k. shape k t \<and> k \<le> h"
  using assms tree_at_unique [OF t] unfolding tall_def by (auto simp: tree_at_def)

lemma tall_tree: "tree_at P root t \<Longrightarrow> shape h t \<Longrightarrow> tall P root h"
  unfolding tall_def by blast

text \<open>No tree is higher than its number of pages.\<close>

lemma tall_pages:
  assumes "btree P root m"
  shows "tall P root (card (dom P))"
proof (cases "root = 0")
  case False
  then obtain t k where t: "tree_at P root t" "dom P = set (root # pages t)" and k: "shape k t"
    using assms by (auto simp: btree_def tree_at_def tree_inv_def)
  have "card (dom P) = length (root # pages t)"
    unfolding t(2) using t(1) by (intro distinct_card) (simp add: tree_at_def)
  then show ?thesis
    using shape_height [OF k] by (intro tall_mono [OF tall_tree [OF t(1) k]]) simp
qed (simp add: tall_def)

section \<open>Reading\<close>

locale page_view =
  fixes pm :: "'s IPageManager"
    and inv :: "'s \<Rightarrow> bool"
    and live :: "'s \<Rightarrow> u64 \<rightharpoonup> bytes"
  assumes get_live: "inv s \<Longrightarrow> live s p = Some d \<Longrightarrow> pm_get pm s p = Inr d"
begin

text \<open>The descent into one child of an internal node.\<close>

lemma descend:
  assumes "inv s" and sh: "shape (Suc h) t" and node: "node_of d t" and st: "stored (live s) t"
    and sorted: "sorted1 (kvs t)" and le: "first_key t \<le> key"
    and pgs: "distinct (pages t)" "0 \<notin> set (pages t)"
  obtains L p q u R d1 where "t = Node (L @ [(p, q, u)] @ R)"
    and "node_lookup_le d key = Inr (int (length L))" and "length L < 2 ^ 16"
    and "node_is d BNODE_NODE (map kid_ent (L @ [(p, q, u)] @ R))"
    and "get_ptr d (length L) = Inr p" and "pm_get pm s p = Inr d1" and "live s p = Some d1"
    and "node_of d1 u" and "shape h u" and "fits u" and "q = first_key u" and "stored (live s) u"
    and "distinct (p # pages u)" and "0 \<notin> set (p # pages u)" and "sorted1 (kvs u)" and "first_key u \<le> key"
    and "\<forall>x\<in>set (kvs (Node L)). fst x < key" and "\<forall>x\<in>set (kvs (Node R)). key < fst x"
proof -
  obtain cs where t: "t = Node cs"
    using sh by (cases t) auto
  define c where "c = count_le key (map ent_key (ents t))"
  note look = lookup_node [OF node sh sorted le c_def]
  have c: "c = count_le key (map kid_key cs)" "c - 1 < length cs"
    using look t by (auto simp: c_def comp_def)
  note pos = child_pos [OF sh [unfolded t] sorted [unfolded t] le [unfolded t] c(1)]
  obtain p q u where x: "cs ! (c - 1) = (p, q, u)"
    by (cases "cs ! (c - 1)") auto
  have cs: "cs = take (c - 1) cs @ [(p, q, u)] @ drop c cs"
    using pos(3) by (simp only: x append.simps)
  have mem: "(p, q, u) \<in> set cs"
    using c(2) x nth_mem by metis
  have u: "shape h u" "fits u" "q = first_key u" "page_of (live s p) u" "stored (live s) u"
    using sh st mem unfolding t by fastforce+
  obtain d1 where d1: "live s p = Some d1" "node_of d1 u"
    using u(4) by (auto simp: page_of_def)
  have nd: "node_is d BNODE_NODE (map kid_ent cs)"
    using node by (simp add: node_of_def t)
  have len: "length (take (c - 1) cs) = c - 1"
    using c(2) by simp
  show thesis
  proof (rule that)
    show "t = Node (take (c - 1) cs @ [(p, q, u)] @ drop c cs)"
      unfolding t cs [symmetric] ..
    show "node_lookup_le d key = Inr (int (length (take (c - 1) cs)))"
      unfolding len by (rule look(1))
    show "length (take (c - 1) cs) < 2 ^ 16"
      using len look by linarith
    show "node_is d BNODE_NODE (map kid_ent (take (c - 1) cs @ [(p, q, u)] @ drop c cs))"
      unfolding cs [symmetric] by (rule nd)
    show "get_ptr d (length (take (c - 1) cs)) = Inr p"
      unfolding len using node_is_ptr [OF nd, of "c - 1"] c(2) x by simp
    show "pm_get pm s p = Inr d1"
      using assms(1) d1(1) by (rule get_live)
    show "distinct (p # pages u)" "0 \<notin> set (p # pages u)"
      using pages_kid [OF mem] pgs unfolding t fst_conv snd_conv by blast+
    show "sorted1 (kvs u)"
      using sorted unfolding t pos(4) x sorted1_append by simp
    show "first_key u \<le> key"
      using pos(7) unfolding x by simp
    show "\<forall>x\<in>set (kvs (Node (take (c - 1) cs))). fst x < key"
      "\<forall>x\<in>set (kvs (Node (drop c cs))). key < fst x"
      unfolding kvs.simps by (rule pos(5), rule pos(6))
  qed (use u d1 in auto)
qed

lemma get_loop_ok:
  assumes "inv s"
  shows "shape h t \<Longrightarrow> h < fuel \<Longrightarrow> node_of d t \<Longrightarrow> stored (live s) t \<Longrightarrow> sorted1 (kvs t) \<Longrightarrow>
    distinct (pages t) \<Longrightarrow> 0 \<notin> set (pages t) \<Longrightarrow>
    first_key t \<le> key \<Longrightarrow> get_loop pm fuel s d key = Inr (map_of (kvs t) key)"
proof (induction h arbitrary: t d fuel)
  case 0
  then obtain xs where t: "t = Leaf xs" "xs \<noteq> []"
    by (cases t) auto
  define c where "c = count_le key (map ent_key (ents t))"
  note look = lookup_node [OF 0(3,1,5,8) c_def]
  have c': "c = count_le key (map fst xs)" "c - 1 < length xs" "u16 (nat (int (c - 1))) = c - 1"
    using look t by (auto simp: c_def comp_def u16_def)
  have node: "node_is d BNODE_LEAF (ents t)"
    using 0(3) t by (simp add: node_of_def)
  have key: "get_key d (c - 1) = Inr (fst (xs ! (c - 1)))" and val: "get_val d (c - 1) = Inr (snd (xs ! (c - 1)))"
    using node_is_key [OF node, of "c - 1"] node_is_val [OF node, of "c - 1"] c' t by simp_all
  show ?case
  proof (cases "fst (xs ! (c - 1)) = key")
    case True
    with 0(5) c'(1) look(2) t have "map_of xs key = Some (snd (xs ! (c - 1)))"
      by (intro kv_present(3)) auto
    with True show ?thesis
      using look c' key val t 0(2) node_is_btype [OF node]
      by (simp add: get_loop.simps [of pm fuel])
  next
    case False
    with 0(5) c'(1) t have "map_of xs key = None"
      by (intro kv_absent(3)) auto
    with False show ?thesis
      using look c' key t 0(2) node_is_btype [OF node]
      by (simp add: get_loop.simps [of pm fuel])
  qed
next
  case (Suc h)
  obtain L p q u R d1 where D: "t = Node (L @ [(p, q, u)] @ R)"
      "node_lookup_le d key = Inr (int (length L))" "length L < 2 ^ 16"
      "node_is d BNODE_NODE (map kid_ent (L @ [(p, q, u)] @ R))"
      "get_ptr d (length L) = Inr p" "pm_get pm s p = Inr d1" "node_of d1 u" "shape h u"
      "stored (live s) u" "distinct (p # pages u)" "0 \<notin> set (p # pages u)" "sorted1 (kvs u)" "first_key u \<le> key"
      "\<forall>x\<in>set (kvs (Node L)). fst x < key" "\<forall>x\<in>set (kvs (Node R)). key < fst x"
    by (rule descend [OF assms Suc.prems(1,3,4,5,8,6,7)]) blast
  have "get_loop pm fuel s d key = get_loop pm (fuel - 1) s d1 key"
    using D(2,3,5,6) Suc.prems(2) node_is_btype [OF D(4)] u16_nat
    by (simp add: get_loop.simps [of pm fuel] BNODE_NODE_def BNODE_LEAF_def)
  also have "\<dots> = Inr (map_of (kvs u) key)"
    using Suc.prems(2) D by (intro Suc.IH) auto
  also have "map_of (kvs u) key = map_of (kvs t) key"
    using map_of_mid [OF D(14,15), of "kvs u"] unfolding D(1) by simp
  finally show ?case .
qed

lemma BTree_get_ok:
  assumes "inv s" and "represents (live s) root m" and "valid_key key"
  shows "BTree_get pm root s key = Inr (m key)"
proof (cases "root = 0")
  case True
  then have "m = Map.empty"
    using assms(2) by (auto simp: represents_def tree_at_def)
  with True assms(3) show ?thesis
    by (simp add: BTree_get_def check_key_limit_iff [THEN iffD2])
next
  case False
  then obtain t where t: "tree_at (live s) root t" "m = tree_map t"
    using assms(2) by (auto simp: represents_def)
  then obtain h d where h: "shape h t" "sorted1 (kvs t)" "first_key t = []"
    and d: "live s root = Some d" "node_of d t" "stored (live s) t" "distinct (root # pages t)"
      "0 \<notin> set (pages t)"
    by (auto simp: tree_at_def tree_inv_def page_of_def)
  have "h < TREE_FUEL"
    using shape_height_bound [OF h(1) d(4)] by (simp add: TREE_FUEL_def)
  then have "get_loop pm TREE_FUEL s d key = Inr (map_of (kvs t) key)"
    using get_loop_ok [OF assms(1) h(1) _ d(2,3) h(2)] h(3) d(4) d(5) by simp
  with False assms(3) show ?thesis
    using get_live [OF assms(1) d(1)] t(2)
    by (simp add: BTree_get_def check_key_limit_iff [THEN iffD2] tree_map_valid)
qed

end

end
