(* ===== verification/BIter_Spec.thy ===== *)
theory BIter_Spec
  imports BIter BTree_Spec
begin

text \<open>
  The iterator refines an index into the sorted list of the tree's pairs: \<open>next\<close> and \<open>prev\<close> move the
  index by one, and \<open>seek\<close> finds the boundary of the pairs that satisfy the relation. \<open>spot\<close> follows the
  iterator's positions from the root, collecting the pairs before and after the subtree reached, and
  \<open>standing\<close> adds the position in the node at that level.
\<close>

section \<open>The pairs below each entry of a node\<close>

fun seg :: "tree \<Rightarrow> kv list list" where
  "seg (Leaf xs) = map (\<lambda>x. [x]) xs"
| "seg (Node cs) = map (\<lambda>x. kvs (kid x)) cs"

lemma concat_seg [simp]: "concat (seg t) = kvs t"
  by (cases t) simp_all

lemma length_seg [simp]: "length (seg t) = length (ents t)"
  by (cases t) simp_all

lemma seg_nonempty: "shape h t \<Longrightarrow> c \<in> set (seg t) \<Longrightarrow> c \<noteq> []"
  using shape_kvs by (cases h; cases t) auto

lemma concat_at: "i < length xs \<Longrightarrow> concat (take i xs) @ xs ! i @ concat (drop (Suc i) xs) = concat xs"
  by (metis concat.simps(2) concat_append id_take_nth_drop)

lemma concat_take_Suc: "i < length xs \<Longrightarrow> concat (take (Suc i) xs) = concat (take i xs) @ xs ! i"
  by (simp add: take_Suc_conv_app_nth)

lemma concat_drop: "i < length xs \<Longrightarrow> concat (drop i xs) = xs ! i @ concat (drop (Suc i) xs)"
  by (metis Cons_nth_drop_Suc concat.simps(2))

section \<open>Positions\<close>

fun spot :: "tree \<Rightarrow> BIter \<Rightarrow> nat \<Rightarrow> kv list \<Rightarrow> tree \<Rightarrow> kv list \<Rightarrow> bool" where
  "spot t it 0 B u A = (B = [] \<and> u = t \<and> A = [])"
| "spot t it (Suc k) B u A =
     (\<exists>B0 cs A0. spot t it k B0 (Node cs) A0 \<and> node_of (path it ! k) (Node cs) \<and> ipos it ! k < length cs
       \<and> u = kid (cs ! (ipos it ! k)) \<and> B = B0 @ concat (take (ipos it ! k) (seg (Node cs)))
       \<and> A = concat (drop (Suc (ipos it ! k)) (seg (Node cs))) @ A0)"

definition full_iter :: "nat \<Rightarrow> BIter \<Rightarrow> bool" where
  "full_iter h it \<longleftrightarrow> length (path it) = Suc h \<and> length (ipos it) = Suc h"

definition standing :: "tree \<Rightarrow> nat \<Rightarrow> BIter \<Rightarrow> nat \<Rightarrow> kv list \<Rightarrow> kv list \<Rightarrow> kv list \<Rightarrow> bool" where
  "standing t h it k D c E \<longleftrightarrow> full_iter h it \<and>
     (\<exists>B u A. spot t it k B u A \<and> node_of (path it ! k) u \<and> ipos it ! k < length (ents u)
       \<and> D = B @ concat (take (ipos it ! k) (seg u)) \<and> c = seg u ! (ipos it ! k)
       \<and> E = concat (drop (Suc (ipos it ! k)) (seg u)) @ A)"

lemma spot_frame:
  "(\<And>j. j < k \<Longrightarrow> path it' ! j = path it ! j \<and> ipos it' ! j = ipos it ! j) \<Longrightarrow>
    spot t it' k B u A = spot t it k B u A"
  by (induction k arbitrary: B u A) simp_all

lemma spot_tree:
  assumes "shape h t" and "stored P t" and "k \<le> h" and "spot t it k B u A"
  shows "shape (h - k) u \<and> stored P u \<and> kvs t = B @ kvs u @ A"
  using assms(3,4)
proof (induction k arbitrary: B u A)
  case 0
  then show ?case
    using assms(1,2) by simp
next
  case (Suc k)
  then obtain B0 cs A0 where up: "spot t it k B0 (Node cs) A0" "ipos it ! k < length cs" "u = kid (cs ! (ipos it ! k))"
      "B = B0 @ concat (take (ipos it ! k) (seg (Node cs)))" "A = concat (drop (Suc (ipos it ! k)) (seg (Node cs))) @ A0"
    by auto
  then have IH: "shape (h - k) (Node cs)" "stored P (Node cs)" "kvs t = B0 @ kvs (Node cs) @ A0"
    using Suc.IH [OF _ up(1)] Suc.prems(1) by simp_all
  obtain h' where h': "h - k = Suc h'" "h - Suc k = h'"
    using Suc.prems(1) by (cases "h - k") auto
  have mem: "cs ! (ipos it ! k) \<in> set cs"
    using up(2) by simp
  have "kvs (Node cs) = concat (take (ipos it ! k) (seg (Node cs))) @ seg (Node cs) ! (ipos it ! k)
      @ concat (drop (Suc (ipos it ! k)) (seg (Node cs)))"
    using concat_at [of "ipos it ! k" "seg (Node cs)"] up(2) by simp
  then have "kvs t = B @ kvs u @ A"
    using IH(3) up(2) unfolding up(3,4,5) append_assoc by simp
  then show ?case
    using IH(1,2) mem up(3) h' by simp
qed

lemma standing_split:
  assumes "shape h t" and "stored P t" and "k \<le> h" and "standing t h it k D c E"
  shows "kvs t = D @ c @ E" and "c \<noteq> []"
proof -
  obtain B u A where u: "spot t it k B u A" "ipos it ! k < length (ents u)"
      "D = B @ concat (take (ipos it ! k) (seg u))" "c = seg u ! (ipos it ! k)"
      "E = concat (drop (Suc (ipos it ! k)) (seg u)) @ A"
    using assms(4) unfolding standing_def by blast
  note tree = spot_tree [OF assms(1-3) u(1)]
  have "kvs u = concat (take (ipos it ! k) (seg u)) @ c @ concat (drop (Suc (ipos it ! k)) (seg u))"
    using concat_at [of "ipos it ! k" "seg u"] u(2,4) by simp
  then show "kvs t = D @ c @ E"
    using tree unfolding u(3,5) append_assoc by simp
  show "c \<noteq> []"
    using seg_nonempty tree u(2,4) by (metis length_seg nth_mem)
qed

text \<open>One level up, the entry stood on covers the whole node.\<close>

lemma spot_standing:
  assumes "full_iter h it" and "spot t it (Suc k) B u A"
  shows "standing t h it k B (kvs u) A"
proof -
  obtain B0 cs A0 where up: "spot t it k B0 (Node cs) A0" "node_of (path it ! k) (Node cs)" "ipos it ! k < length cs"
      "u = kid (cs ! (ipos it ! k))" "B = B0 @ concat (take (ipos it ! k) (seg (Node cs)))"
      "A = concat (drop (Suc (ipos it ! k)) (seg (Node cs))) @ A0"
    using assms(2) unfolding spot.simps by blast
  show ?thesis
    unfolding standing_def using assms(1) up
    by (intro conjI exI [of _ B0] exI [of _ "Node cs"] exI [of _ A0]) simp_all
qed

lemma standing_up:
  assumes "shape h t" and "stored P t" and "Suc k \<le> h" and "standing t h it (Suc k) D c E"
  obtains D0 u E0 where "standing t h it k D0 (kvs u) E0" and "node_of (path it ! Suc k) u"
    and "ipos it ! Suc k < length (ents u)" and "D = D0 @ concat (take (ipos it ! Suc k) (seg u))"
    and "c = seg u ! (ipos it ! Suc k)" and "E = concat (drop (Suc (ipos it ! Suc k)) (seg u)) @ E0"
    and "shape (h - Suc k) u"
proof -
  obtain B u A where u: "spot t it (Suc k) B u A" "node_of (path it ! Suc k) u" "ipos it ! Suc k < length (ents u)"
      "D = B @ concat (take (ipos it ! Suc k) (seg u))" "c = seg u ! (ipos it ! Suc k)"
      "E = concat (drop (Suc (ipos it ! Suc k)) (seg u)) @ A" and full: "full_iter h it"
    using assms(4) unfolding standing_def by blast
  have "standing t h it k B (kvs u) A"
    using full u(1) by (rule spot_standing)
  moreover have "shape (h - Suc k) u"
    using spot_tree [OF assms(1,2,3) u(1)] by simp
  ultimately show thesis
    using u that by blast
qed

section \<open>Moving\<close>

lemma standing_intro:
  assumes "full_iter h it" and "spot t it k B u A" and "node_of (path it ! k) u" and "i < length (ents u)" and "k \<le> h"
  shows "standing t h (it\<lparr>ipos := (ipos it)[k := i]\<rparr>) k (B @ concat (take i (seg u))) (seg u ! i)
    (concat (drop (Suc i) (seg u)) @ A)"
proof -
  have "spot t (it\<lparr>ipos := (ipos it)[k := i]\<rparr>) k B u A"
    using assms(2) spot_frame [of k "it\<lparr>ipos := (ipos it)[k := i]\<rparr>" it t B u A] by simp
  then show ?thesis
    unfolding standing_def using assms(1,3-5) by (intro conjI exI [of _ B] exI [of _ u] exI [of _ A])
      (simp_all add: full_iter_def)
qed

lemma standing_node:
  assumes "standing t h it k D c E"
  obtains B u A where "full_iter h it" and "spot t it k B u A" and "node_of (path it ! k) u"
    and "ipos it ! k < length (ents u)" and "D = B @ concat (take (ipos it ! k) (seg u))"
    and "c = seg u ! (ipos it ! k)" and "E = concat (drop (Suc (ipos it ! k)) (seg u)) @ A"
  using assms unfolding standing_def by blast

lemma u16_sub_1: "0 < n \<Longrightarrow> n < 2 ^ 16 \<Longrightarrow> u16_sub n 1 = n - 1"
  by (simp add: u16_sub_def of_nat_diff nat_diff_distrib)

lemma node_of_nkeys: "node_of d t \<Longrightarrow> nkeys d = Inr (length (ents t)) \<and> length (ents t) < 2 ^ 16"
  unfolding node_of_def using node_is_nkeys node_is_ents by blast

context page_view
begin

lemma reload_kid_ok:
  assumes "inv s" and sh: "shape h t" and st: "stored (live s) t" and k: "k < h" and "standing t h it k D c E"
  obtains it' D' c' E' where "reload_kid pm s it k al = Inr it'" and "standing t h it' (Suc k) D' c' E'"
    and "if al then D' @ c' = D @ c \<and> E' = E else D' = D \<and> c' @ E' = c @ E"
proof -
  obtain B u A where u: "spot t it k B u A" "node_of (path it ! k) u" "ipos it ! k < length (ents u)"
      "D = B @ concat (take (ipos it ! k) (seg u))" "c = seg u ! (ipos it ! k)"
      "E = concat (drop (Suc (ipos it ! k)) (seg u)) @ A" and full: "full_iter h it"
    by (rule standing_node [OF assms(5)])
  note tree = spot_tree [OF sh st less_imp_le [OF k] u(1)]
  obtain h' where h': "h - k = Suc h'"
    using k by (cases "h - k") auto
  then obtain cs where cs: "u = Node cs"
    using tree by (cases u) auto
  define i where "i = ipos it ! k"
  have i: "i < length cs"
    using u(3) by (simp add: cs i_def)
  then have mem: "cs ! i \<in> set cs"
    by simp
  let ?v = "kid (cs ! i)"
  have v: "shape h' ?v" "page_of (live s (kid_ptr (cs ! i))) ?v"
    using tree mem unfolding cs h' by auto
  obtain d where d: "live s (kid_ptr (cs ! i)) = Some d" "node_of d ?v"
    using v(2) by (auto simp: page_of_def)
  have get: "pm_get pm s (kid_ptr (cs ! i)) = Inr d"
    using assms(1) d(1) by (rule get_live)
  have ptr: "get_ptr (path it ! k) i = Inr (kid_ptr (cs ! i))"
    using node_is_ptr [OF u(2) [unfolded node_of_def cs], of i] i by simp
  have ne: "0 < length (ents ?v)"
    using shape_kvs [OF v(1)] by simp
  define j where "j = (if al then length (ents ?v) - 1 else 0)"
  define it0 where "it0 = it\<lparr>path := (path it)[Suc k := d]\<rparr>"
  let ?it' = "it0\<lparr>ipos := (ipos it0)[Suc k := j]\<rparr>"
  have "reload_kid pm s it k al = Inr ?it'"
    using full k ptr get node_of_nkeys [OF d(2)] ne u16_sub_1
    by (simp add: reload_kid_def full_iter_def i_def [symmetric] it0_def j_def)
  moreover have "spot t it (Suc k) (B @ concat (take i (seg u))) ?v (concat (drop (Suc i) (seg u)) @ A)"
    using u(1,2) i unfolding spot.simps cs i_def by blast
  then have "spot t it0 (Suc k) D ?v E"
    using spot_frame [of "Suc k" it0 it t D ?v E] unfolding u(4,6) i_def it0_def by simp
  then have "standing t h ?it' (Suc k) (D @ concat (take j (seg ?v))) (seg ?v ! j) (concat (drop (Suc j) (seg ?v)) @ E)"
    using full k d(2) ne by (intro standing_intro) (auto simp: it0_def full_iter_def j_def)
  moreover have "c = concat (seg ?v)"
    using i unfolding u(5) cs i_def by simp
  then have "D @ c = (D @ concat (take j (seg ?v))) @ seg ?v ! j \<and> concat (drop (Suc j) (seg ?v)) = []" if al
    using concat_at [of j "seg ?v"] that ne unfolding j_def by simp
  moreover have "c = seg ?v ! j @ concat (drop (Suc j) (seg ?v)) \<and> concat (take j (seg ?v)) = []" if "\<not> al"
    using concat_at [of j "seg ?v"] that ne \<open>c = concat (seg ?v)\<close> unfolding j_def by simp
  ultimately show thesis
    by (intro that) (assumption, assumption, simp)
qed

lemma reload_last_level: "standing t h it h D c E \<Longrightarrow> reload_kid pm s it h al = Inr it"
  by (simp add: standing_def full_iter_def reload_kid_def)

lemma reload_first:
  assumes "inv s" "shape h t" "stored (live s) t" "k \<le> h" "standing t h it k D c E"
  obtains it' c' E' where "reload_kid pm s it k False = Inr it'" and "c' @ E' = c @ E"
    and "standing t h it' (if k < h then Suc k else k) D c' E'"
proof (cases "k < h")
  case True
  show thesis
    using reload_kid_ok [OF assms(1-3) True assms(5), of False] that True by fastforce
next
  case False
  then have "k = h"
    using assms(4) by simp
  then show thesis
    using that reload_last_level assms(5) by simp
qed

lemma reload_last:
  assumes "inv s" "shape h t" "stored (live s) t" "k \<le> h" "standing t h it k D c E"
  obtains it' D' c' where "reload_kid pm s it k True = Inr it'" and "D' @ c' = D @ c"
    and "standing t h it' (if k < h then Suc k else k) D' c' E"
proof (cases "k < h")
  case True
  show thesis
    using reload_kid_ok [OF assms(1-3) True assms(5), of True] that True by fastforce
next
  case False
  then have "k = h"
    using assms(4) by simp
  then show thesis
    using that reload_last_level assms(5) by simp
qed

text \<open>After a move at some level, the reload of the level below completes the step.\<close>

lemma next_within:
  assumes "inv s" "shape h t" "stored (live s) t" "k \<le> h" "standing t h it k D c E"
    and n: "nkeys (path it ! k) = Inr n" "ipos it ! k + 1 < n"
  obtains it' c' E' where "iter_next pm s it k = Inr (True, it')" and "E \<noteq> []" and "c' @ E' = E"
    and "standing t h it' (if k < h then Suc k else k) (D @ c) c' E'"
proof -
  obtain B u A where u: "full_iter h it" "spot t it k B u A" "node_of (path it ! k) u" "ipos it ! k < length (ents u)"
      "D = B @ concat (take (ipos it ! k) (seg u))" "c = seg u ! (ipos it ! k)"
      "E = concat (drop (Suc (ipos it ! k)) (seg u)) @ A"
    by (rule standing_node [OF assms(5)])
  have lt: "Suc (ipos it ! k) < length (ents u)"
    using node_of_nkeys [OF u(3)] n by simp
  note moved = standing_intro [OF u(1,2,3) lt assms(4)]
  have E: "seg u ! Suc (ipos it ! k) @ concat (drop (Suc (Suc (ipos it ! k))) (seg u)) @ A = E"
    using concat_drop [of "Suc (ipos it ! k)" "seg u"] lt unfolding u(7) by simp
  have Dc: "B @ concat (take (Suc (ipos it ! k)) (seg u)) = D @ c"
    using concat_take_Suc [of "ipos it ! k" "seg u"] u(4) unfolding u(5,6) by simp
  have "E \<noteq> []"
    using standing_split(2) [OF assms(2-4) moved] unfolding E [symmetric] by simp
  moreover obtain it' c' E' where "reload_kid pm s (it\<lparr>ipos := (ipos it)[k := Suc (ipos it ! k)]\<rparr>) k False = Inr it'"
      "c' @ E' = E" "standing t h it' (if k < h then Suc k else k) (D @ c) c' E'"
    using reload_first [OF assms(1-4) moved] unfolding E Dc by blast
  ultimately show thesis
    using that n by (simp add: iter_next.simps [of pm s it k])
qed

lemma iter_next_ok:
  assumes "inv s" "shape h t" "stored (live s) t"
  shows "k \<le> h \<Longrightarrow> standing t h it k D c E \<Longrightarrow>
    if E = [] then iter_next pm s it k = Inr (False, it)
    else \<exists>it' c' E'. iter_next pm s it k = Inr (True, it') \<and> c' @ E' = E
      \<and> standing t h it' (if k < h then Suc k else k) (D @ c) c' E'"
proof (induction k arbitrary: D c E)
  case (0 D c E)
  obtain B u A where u: "spot t it 0 B u A" "node_of (path it ! 0) u"
      "E = concat (drop (Suc (ipos it ! 0)) (seg u)) @ A"
    by (rule standing_node [OF 0(2)])
  note n = node_of_nkeys [OF u(2), THEN conjunct1]
  show ?case
  proof (cases "ipos it ! 0 + 1 < length (ents u)")
    case True
    then show ?thesis
      by (rule next_within [OF assms 0 n]) auto
  next
    case False
    then have "E = []"
      using u by simp
    then show ?thesis
      using False n by (simp add: iter_next.simps [of pm s it 0])
  qed
next
  case (Suc l D c E)
  obtain D0 u E0 where u: "standing t h it l D0 (kvs u) E0" "node_of (path it ! Suc l) u"
      "ipos it ! Suc l < length (ents u)" "D = D0 @ concat (take (ipos it ! Suc l) (seg u))"
      "c = seg u ! (ipos it ! Suc l)" "E = concat (drop (Suc (ipos it ! Suc l)) (seg u)) @ E0"
    by (rule standing_up [OF assms(2,3) Suc(2,3)])
  note n = node_of_nkeys [OF u(2), THEN conjunct1]
  show ?case
  proof (cases "ipos it ! Suc l + 1 < length (ents u)")
    case True
    then show ?thesis
      by (rule next_within [OF assms Suc(2,3) n]) auto
  next
    case False
    then have "Suc (ipos it ! Suc l) = length (seg u)"
      using u(3) by simp
    then have E: "E = E0" and Dc: "D @ c = D0 @ kvs u"
      using concat_take_Suc [of "ipos it ! Suc l" "seg u"] u(3) unfolding u(4,5,6) by simp_all
    have step: "iter_next pm s it (Suc l) = rbind (iter_next pm s it l) (\<lambda>(moved, iter).
        if moved then rbind (reload_kid pm s iter (Suc l) False) (\<lambda>iter. Inr (True, iter)) else Inr (False, iter))"
      using False n by (simp add: iter_next.simps [of pm s it "Suc l"])
    have l: "l < h"
      using Suc(2) by simp
    note IH = Suc.IH [OF less_imp_le [OF l] u(1)]
    show ?thesis
    proof (cases "E0 = []")
      case True
      then show ?thesis
        using IH by (simp add: step E)
    next
      case False
      then obtain it1 c1 E1 where it1: "iter_next pm s it l = Inr (True, it1)" "c1 @ E1 = E0"
          "standing t h it1 (Suc l) (D0 @ kvs u) c1 E1"
        using IH l by auto
      obtain it' c' E' where "reload_kid pm s it1 (Suc l) False = Inr it'" "c' @ E' = E0"
          "standing t h it' (if Suc l < h then Suc (Suc l) else Suc l) (D0 @ kvs u) c' E'"
        using reload_first [OF assms Suc(2) it1(3)] unfolding it1(2) by blast
      then show ?thesis
        using False it1(1) unfolding step E Dc by auto
    qed
  qed
qed

lemma prev_within:
  assumes "inv s" "shape h t" "stored (live s) t" "k \<le> h" "standing t h it k D c E" and i: "ipos it ! k > 0"
  obtains it' D' c' where "iter_prev pm s it k = Inr (True, it')" and "D \<noteq> []" and "D' @ c' = D"
    and "standing t h it' (if k < h then Suc k else k) D' c' (c @ E)"
proof -
  obtain B u A where u: "full_iter h it" "spot t it k B u A" "node_of (path it ! k) u" "ipos it ! k < length (ents u)"
      "D = B @ concat (take (ipos it ! k) (seg u))" "c = seg u ! (ipos it ! k)"
      "E = concat (drop (Suc (ipos it ! k)) (seg u)) @ A"
    by (rule standing_node [OF assms(5)])
  obtain j where j: "ipos it ! k = Suc j"
    using i by (cases "ipos it ! k") auto
  have lt: "j < length (ents u)"
    using j u(4) by simp
  note moved = standing_intro [OF u(1,2,3) lt assms(4)]
  have D: "(B @ concat (take j (seg u))) @ seg u ! j = D"
    using concat_take_Suc [of j "seg u"] lt unfolding u(5) j by simp
  have E: "concat (drop (Suc j) (seg u)) @ A = c @ E"
    using concat_drop [of "Suc j" "seg u"] u(4) unfolding u(6,7) j by simp
  have "D \<noteq> []"
    using standing_split(2) [OF assms(2-4) moved] unfolding D [symmetric] by simp
  moreover obtain it' D' c' where "reload_kid pm s (it\<lparr>ipos := (ipos it)[k := j]\<rparr>) k True = Inr it'" "D' @ c' = D"
      "standing t h it' (if k < h then Suc k else k) D' c' (c @ E)"
    using reload_last [OF assms(1-4) moved] unfolding E D by blast
  ultimately show thesis
    using that j by (simp add: iter_prev.simps [of pm s it k])
qed

lemma iter_prev_ok:
  assumes "inv s" "shape h t" "stored (live s) t"
  shows "k \<le> h \<Longrightarrow> standing t h it k D c E \<Longrightarrow>
    if D = [] then iter_prev pm s it k = Inr (False, it)
    else \<exists>it' D' c'. iter_prev pm s it k = Inr (True, it') \<and> D' @ c' = D
      \<and> standing t h it' (if k < h then Suc k else k) D' c' (c @ E)"
proof (induction k arbitrary: D c E)
  case (0 D c E)
  obtain B u A where u: "spot t it 0 B u A" "D = B @ concat (take (ipos it ! 0) (seg u))"
    by (rule standing_node [OF 0(2)])
  show ?case
  proof (cases "ipos it ! 0 > 0")
    case True
    then show ?thesis
      by (rule prev_within [OF assms 0]) auto
  next
    case False
    then show ?thesis
      using u by (simp add: iter_prev.simps [of pm s it 0])
  qed
next
  case (Suc l D c E)
  obtain D0 u E0 where u: "standing t h it l D0 (kvs u) E0" "ipos it ! Suc l < length (ents u)"
      "D = D0 @ concat (take (ipos it ! Suc l) (seg u))"
      "c = seg u ! (ipos it ! Suc l)" "E = concat (drop (Suc (ipos it ! Suc l)) (seg u)) @ E0"
    by (rule standing_up [OF assms(2,3) Suc(2,3)])
  show ?case
  proof (cases "ipos it ! Suc l > 0")
    case True
    then show ?thesis
      by (rule prev_within [OF assms Suc(2,3)]) auto
  next
    case False
    then have D: "D = D0" and cE: "c @ E = kvs u @ E0"
      using concat_drop [of 0 "seg u"] u(2) unfolding u(3,4,5) by simp_all
    have step: "iter_prev pm s it (Suc l) = rbind (iter_prev pm s it l) (\<lambda>(moved, iter).
        if moved then rbind (reload_kid pm s iter (Suc l) True) (\<lambda>iter. Inr (True, iter)) else Inr (False, iter))"
      using False by (simp add: iter_prev.simps [of pm s it "Suc l"])
    have l: "l < h"
      using Suc(2) by simp
    note IH = Suc.IH [OF less_imp_le [OF l] u(1)]
    show ?thesis
    proof (cases "D0 = []")
      case True
      then show ?thesis
        using IH by (simp add: step D)
    next
      case False
      then obtain it1 D1 c1 where it1: "iter_prev pm s it l = Inr (True, it1)" "D1 @ c1 = D0"
          "standing t h it1 (Suc l) D1 c1 (kvs u @ E0)"
        using IH l by auto
      obtain it' D' c' where "reload_kid pm s it1 (Suc l) True = Inr it'" "D' @ c' = D0"
          "standing t h it' (if Suc l < h then Suc (Suc l) else Suc l) D' c' (kvs u @ E0)"
        using reload_last [OF assms Suc(2) it1(3)] unfolding it1(2) by blast
      then show ?thesis
        using False it1(1) unfolding step D cE by auto
    qed
  qed
qed

end

section \<open>The index an iterator stands at\<close>

text \<open>Index 0 is the sentinel, before the first pair; the number of entries is the position after the last.\<close>

definition iter_at :: "tree \<Rightarrow> nat \<Rightarrow> BIter \<Rightarrow> nat \<Rightarrow> bool" where
  "iter_at t h it n \<longleftrightarrow> full_iter h it \<and>
     (\<exists>B xs A. spot t it h B (Leaf xs) A \<and> node_of (path it ! h) (Leaf xs) \<and> xs \<noteq> [] \<and> ipos it ! h \<le> length xs
       \<and> (ipos it ! h = length xs \<longrightarrow> A = []) \<and> n = length B + ipos it ! h)"

lemma iter_at_leaf:
  assumes "shape h t" "stored P t" "iter_at t h it n"
  obtains B xs A where "full_iter h it" and "spot t it h B (Leaf xs) A" and "node_of (path it ! h) (Leaf xs)" and "xs \<noteq> []"
    and "ipos it ! h \<le> length xs" and "ipos it ! h = length xs \<longrightarrow> A = []" and "n = length B + ipos it ! h"
    and "kvs t = B @ xs @ A"
proof -
  obtain B xs A where b: "full_iter h it" "spot t it h B (Leaf xs) A" "node_of (path it ! h) (Leaf xs)" "xs \<noteq> []"
    "ipos it ! h \<le> length xs" "ipos it ! h = length xs \<longrightarrow> A = []" "n = length B + ipos it ! h"
    using assms(3) unfolding iter_at_def by blast
  moreover have "kvs t = B @ xs @ A"
    using spot_tree [OF assms(1,2) order_refl b(2)] by simp
  ultimately show thesis
    by (rule that)
qed

lemma concat_singletons [simp]: "concat (map (\<lambda>x. [x]) xs) = xs"
  by (induction xs) simp_all

lemma standing_iter_at:
  assumes "shape h t" "stored P t" "standing t h it h D c E"
  shows "iter_at t h it (length D)" and "length D < length (kvs t)" and "length c = 1"
proof -
  obtain B u A where u: "full_iter h it" "spot t it h B u A" "node_of (path it ! h) u" "ipos it ! h < length (ents u)"
      "D = B @ concat (take (ipos it ! h) (seg u))" "c = seg u ! (ipos it ! h)"
    by (rule standing_node [OF assms(3)])
  have "shape 0 u"
    using spot_tree [OF assms(1,2) order_refl u(2)] by simp
  then obtain xs where xs: "u = Leaf xs" "xs \<noteq> []"
    by (cases u) auto
  have "length D = length B + ipos it ! h"
    using u(4) unfolding u(5) xs by (simp add: take_map)
  then show "iter_at t h it (length D)"
    unfolding iter_at_def using u(1-4) unfolding xs
    by (intro conjI exI [of _ B] exI [of _ xs] exI [of _ A]) (simp_all add: xs(2))
  show "length D < length (kvs t)"
    using standing_split [OF assms(1,2) order_refl assms(3)] by simp
  show "length c = 1"
    using u(4) unfolding u(6) xs by simp
qed

lemma iter_at_standing:
  assumes "shape h t" "stored P t" "iter_at t h it n" "n < length (kvs t)"
  shows "standing t h it h (take n (kvs t)) [kvs t ! n] (drop (Suc n) (kvs t))"
proof -
  obtain B xs A where b: "full_iter h it" "spot t it h B (Leaf xs) A" "node_of (path it ! h) (Leaf xs)"
    "ipos it ! h \<le> length xs" "ipos it ! h = length xs \<longrightarrow> A = []" "n = length B + ipos it ! h" "kvs t = B @ xs @ A"
    by (rule iter_at_leaf [OF assms(1-3)])
  have i: "ipos it ! h < length xs"
    using b(4-7) assms(4) by (cases "ipos it ! h = length xs") auto
  then show ?thesis
    unfolding standing_def using b
    by (intro conjI exI [of _ B] exI [of _ "Leaf xs"] exI [of _ A])
      (simp_all add: take_map drop_map nth_append)
qed

lemma iter_at_end:
  assumes "shape h t" "stored P t" "iter_at t h it n"
  shows "n \<le> length (kvs t)"
  by (rule iter_at_leaf [OF assms]) auto

lemma last_full: "full_iter h it \<Longrightarrow> path it \<noteq> [] \<and> last (path it) = path it ! h \<and> last (ipos it) = ipos it ! h"
  unfolding full_iter_def by (metis Suc_neq_Zero diff_Suc_1 last_conv_nth list.size(3))

lemma BIter_valid_ok:
  assumes "tree_inv t" "shape h t" "stored P t" "iter_at t h it n"
  shows "BIter_valid it = Inr (0 < n \<and> n < length (kvs t))"
proof -
  obtain B xs A where b: "full_iter h it" "node_of (path it ! h) (Leaf xs)" "xs \<noteq> []" "ipos it ! h \<le> length xs"
      "ipos it ! h = length xs \<longrightarrow> A = []" "n = length B + ipos it ! h" "kvs t = B @ xs @ A"
    by (rule iter_at_leaf [OF assms(2-4)])
  have key: "get_key (path it ! h) 0 = Inr (fst (xs ! 0))"
    using node_is_key [OF b(2) [unfolded node_of_def], of 0] b(3) by simp
  have first: "fst (hd (kvs t)) = []" and sorted: "sorted1 (kvs t)"
    using assms(1) shape_kvs [OF assms(2)] by (auto simp: tree_inv_def)
  have "fst (xs ! 0) \<noteq> [] \<longleftrightarrow> B \<noteq> []"
  proof (cases B)
    case Nil
    then show ?thesis
      using first b(3,7) by (simp add: hd_append hd_conv_nth)
  next
    case (Cons x B')
    then have "fst x < fst (xs ! 0)"
      using sorted b(3) unfolding b(7) by (simp add: sorted_wrt_append)
    then show ?thesis
      using Cons by auto
  qed
  then show ?thesis
    using b node_of_nkeys [OF b(2)] last_full [OF b(1)] key by (auto simp: BIter_valid_def)
qed

lemma BIter_deref_ok:
  assumes "tree_inv t" "shape h t" "stored P t" "iter_at t h it n" "0 < n" "n < length (kvs t)"
  shows "BIter_deref it = Inr (kvs t ! n)"
proof -
  obtain B xs A where b: "full_iter h it" "node_of (path it ! h) (Leaf xs)" "ipos it ! h \<le> length xs"
      "ipos it ! h = length xs \<longrightarrow> A = []" "n = length B + ipos it ! h" "kvs t = B @ xs @ A"
    by (rule iter_at_leaf [OF assms(2-4)])
  have i: "ipos it ! h < length xs"
    using b(3-6) assms(6) by (cases "ipos it ! h = length xs") auto
  then have "get_key (path it ! h) (ipos it ! h) = Inr (fst (xs ! (ipos it ! h)))"
    "get_val (path it ! h) (ipos it ! h) = Inr (snd (xs ! (ipos it ! h)))"
    using node_is_key [OF b(2) [unfolded node_of_def], of "ipos it ! h"]
      node_is_val [OF b(2) [unfolded node_of_def], of "ipos it ! h"] by simp_all
  then show ?thesis
    using BIter_valid_ok [OF assms(1-4)] assms(5,6) last_full [OF b(1)] i b(5,6)
    by (simp add: BIter_deref_def nth_append)
qed

context page_view
begin

lemma iter_next_stuck:
  assumes "inv s" "shape h t" "stored (live s) t" "full_iter h it" "spot t it h B u []" "node_of (path it ! h) u"
    "length (ents u) \<le> Suc (ipos it ! h)"
  shows "iter_next pm s it h = Inr (False, it)"
proof -
  note n = node_of_nkeys [OF assms(6), THEN conjunct1]
  show ?thesis
  proof (cases h)
    case 0
    then show ?thesis
      using n assms(7) by (simp add: iter_next.simps [of pm s it 0])
  next
    case (Suc l)
    have "iter_next pm s it l = Inr (False, it)"
      using iter_next_ok [OF assms(1-3) _ spot_standing [OF assms(4,5) [unfolded Suc], folded Suc]] Suc by simp
    then show ?thesis
      using n assms(7) unfolding Suc by (simp add: iter_next.simps [of pm s it "Suc l"])
  qed
qed

lemma iter_next_leaf:
  assumes "inv s" "shape h t" "stored (live s) t" "standing t h it h D c E" "E \<noteq> []"
  obtains it' c' E' where "iter_next pm s it h = Inr (True, it')" and "standing t h it' h (D @ c) c' E'"
  using iter_next_ok [OF assms(1-3) order_refl assms(4)] assms(5) by (simp only: if_False less_irrefl) blast

lemma iter_prev_leaf:
  assumes "inv s" "shape h t" "stored (live s) t" "standing t h it h D c E" "D \<noteq> []"
  obtains it' D' c' where "iter_prev pm s it h = Inr (True, it')" and "D' @ c' = D"
    and "standing t h it' h D' c' (c @ E)"
  using iter_prev_ok [OF assms(1-3) order_refl assms(4)] assms(5) by (simp only: if_False less_irrefl) blast

lemma BIter_next_ok:
  assumes "inv s" "shape h t" "stored (live s) t" "iter_at t h it n"
  obtains it' where "BIter_next pm s it = Inr it'" and "iter_at t h it' (min (Suc n) (length (kvs t)))"
proof (cases "Suc n < length (kvs t)")
  case True
  note st = iter_at_standing [OF assms(2-4) Suc_lessD [OF True]]
  then have full: "full_iter h it" and len: "length (path it) - 1 = h"
    by (auto simp: standing_def full_iter_def)
  have "drop (Suc n) (kvs t) \<noteq> []"
    using True by simp
  then obtain it' c' E' where it': "iter_next pm s it h = Inr (True, it')"
      "standing t h it' h (take n (kvs t) @ [kvs t ! n]) c' E'"
    by (rule iter_next_leaf [OF assms(1-3) st])
  then have "iter_at t h it' (Suc n)"
    using standing_iter_at(1) [OF assms(2,3) it'(2)] True by simp
  then show thesis
    using that it'(1) last_full [OF full] len True by (simp add: BIter_next_def min_def)
next
  case False
  obtain B xs A where b: "full_iter h it" "spot t it h B (Leaf xs) A" "node_of (path it ! h) (Leaf xs)" "xs \<noteq> []"
      "ipos it ! h \<le> length xs" "ipos it ! h = length xs \<longrightarrow> A = []" "n = length B + ipos it ! h" "kvs t = B @ xs @ A"
    by (rule iter_at_leaf [OF assms(2-4)])
  have "\<not> Suc (length B + ipos it ! h) < length B + (length xs + length A)"
    using False unfolding b(7,8) by simp
  then have "length xs + length A \<le> Suc (ipos it ! h)"
    by linarith
  moreover have "0 < length A \<Longrightarrow> ipos it ! h \<noteq> length xs"
    using b(6) by blast
  ultimately have "length A = 0" "length xs \<le> Suc (ipos it ! h)"
    using b(5) by linarith+
  then have A: "A = []" "length xs \<le> Suc (ipos it ! h)"
    by simp_all
  let ?it = "it\<lparr>ipos := (ipos it)[h := length xs]\<rparr>"
  have "spot t ?it h B (Leaf xs) []"
    using b(2) spot_frame [of h ?it it t B "Leaf xs" A] A(1) by simp
  then have "iter_at t h ?it (length (kvs t))"
    unfolding iter_at_def using b A
    by (intro conjI exI [of _ B] exI [of _ xs] exI [of _ "[]"]) (simp_all add: full_iter_def)
  moreover have "BIter_next pm s it = Inr ?it"
    using iter_next_stuck [OF assms(1-3) b(1) _ b(3)] b(2) A last_full [OF b(1)] node_of_nkeys [OF b(3)] b(1)
    by (simp add: BIter_next_def full_iter_def)
  ultimately show thesis
    using that False by simp
qed

lemma BIter_prev_ok:
  assumes "inv s" "shape h t" "stored (live s) t" "iter_at t h it n"
  obtains it' where "BIter_prev pm s it = Inr it'" and "iter_at t h it' (n - 1)"
proof (cases "n < length (kvs t)")
  case True
  note st = iter_at_standing [OF assms(2-4) True]
  then have full: "full_iter h it" and len: "length (path it) - 1 = h"
    by (auto simp: standing_def full_iter_def)
  show thesis
  proof (cases "n = 0")
    case True
    then have "iter_prev pm s it h = Inr (False, it)"
      using iter_prev_ok [OF assms(1-3) order_refl st] by simp
    then show thesis
      using that assms(4) last_full [OF full] len True by (simp add: BIter_prev_def)
  next
    case False
    then have "take n (kvs t) \<noteq> []"
      using True by auto
    then obtain it' D' c' where it': "iter_prev pm s it h = Inr (True, it')" "D' @ c' = take n (kvs t)"
        "standing t h it' h D' c' ([kvs t ! n] @ drop (Suc n) (kvs t))"
      by (rule iter_prev_leaf [OF assms(1-3) st])
    note at = standing_iter_at [OF assms(2,3) it'(3)]
    have "length D' + length c' = n"
      using arg_cong [OF it'(2), of length] True by simp
    then have "length D' = n - 1"
      using at(3) by simp
    then have "iter_at t h it' (n - 1)"
      using at(1) by simp
    then show thesis
      using that it'(1) last_full [OF full] len by (simp add: BIter_prev_def)
  qed
next
  case False
  obtain B xs A where b: "full_iter h it" "spot t it h B (Leaf xs) A" "node_of (path it ! h) (Leaf xs)" "xs \<noteq> []"
      "ipos it ! h \<le> length xs" "ipos it ! h = length xs \<longrightarrow> A = []" "n = length B + ipos it ! h" "kvs t = B @ xs @ A"
    by (rule iter_at_leaf [OF assms(2-4)])
  have "\<not> length B + ipos it ! h < length B + (length xs + length A)"
    using False unfolding b(7,8) by simp
  then have "ipos it ! h = length xs"
    using b(5) by linarith
  then have i: "A = []" "ipos it ! h = length xs"
    using b(6) by blast+
  let ?it = "it\<lparr>ipos := (ipos it)[h := length xs - 1]\<rparr>"
  have "spot t ?it h B (Leaf xs) []"
    using b(2) spot_frame [of h ?it it t B "Leaf xs" A] i(1) by simp
  then have "iter_at t h ?it (n - 1)"
    unfolding iter_at_def using b i
    by (intro conjI exI [of _ B] exI [of _ xs] exI [of _ "[]"]) (simp_all add: full_iter_def Suc_leI)
  moreover have "BIter_prev pm s it = Inr ?it"
    using b i last_full [OF b(1)]
    by (simp add: BIter_prev_def full_iter_def iter_prev.simps [of pm s it h] reload_kid_def)
  ultimately show thesis
    using that by simp
qed

section \<open>Seeking\<close>

text \<open>
  The descent lands on the last key that is not above the one sought. The pairs \<open>B\<close> left of the
  subtree still to be searched and \<open>A\<close> right of it are those the path has passed.
\<close>

lemma seek_leaf:
  assumes node: "node_of d (Leaf xs)" and sh: "shape 0 (Leaf xs)" and sorted: "sorted1 xs"
    and le: "first_key (Leaf xs) \<le> key"
  obtains D x E where "node_lookup_le d key = Inr (int (length D))" and "length D < 2 ^ 16" and "xs = D @ [x] @ E"
    and "fst x \<le> key" and "\<forall>y\<in>set E. key < fst y"
proof -
  define c where "c = count_le key (map ent_key (ents (Leaf xs)))"
  have s: "sorted1 (kvs (Leaf xs))"
    using sorted by simp
  note look = lookup_node [OF node sh s le c_def]
  have c: "c = count_le key (map fst xs)"
    by (simp add: c_def comp_def)
  have pos: "0 < c" "c \<le> length xs" "length xs < 2 ^ 16"
    using look by simp_all
  have xs: "xs = take (c - 1) xs @ [xs ! (c - 1)] @ drop c xs"
    using id_take_nth_drop [of "c - 1" xs] pos by simp
  have len: "length (take (c - 1) xs) = c - 1"
    using pos by simp
  have "fst (xs ! (c - 1)) \<le> key"
    using count_le_iff [OF sorted, of "c - 1" key] pos c by simp
  moreover have "\<forall>y\<in>set (drop c xs). key < fst y"
    unfolding c sorted1_prefix(2) [OF sorted, of key, symmetric] by simp
  ultimately show thesis
    using that [OF _ _ xs] look(1) pos unfolding len by simp
qed

lemma seek_loop_ok:
  assumes "inv s"
  shows "shape h u \<Longrightarrow> live s ptr = Some d \<Longrightarrow> node_of d u \<Longrightarrow> stored (live s) u \<Longrightarrow> sorted1 (kvs u) \<Longrightarrow>
    distinct (ptr # pages u) \<Longrightarrow> 0 \<notin> set (ptr # pages u) \<Longrightarrow> first_key u \<le> key \<Longrightarrow> h < fuel \<Longrightarrow>
    length (path it) = k \<Longrightarrow> length (ipos it) = k \<Longrightarrow> spot t it k B u A \<Longrightarrow>
    \<exists>it' D x E. seek_le_loop pm fuel s ptr key it = Inr it' \<and> standing t (k + h) it' (k + h) (B @ D) [x] (E @ A)
      \<and> kvs u = D @ [x] @ E \<and> fst x \<le> key \<and> (\<forall>y\<in>set E. key < fst y)"
proof (induction h arbitrary: u ptr d fuel it k B A)
  case 0
  then obtain xs where u: "u = Leaf xs"
    by (cases u) auto
  obtain D x E where D: "node_lookup_le d key = Inr (int (length D))" "length D < 2 ^ 16" "xs = D @ [x] @ E"
      "fst x \<le> key" "\<forall>y\<in>set E. key < fst y"
    by (rule seek_leaf [OF 0(3,1) [unfolded u] 0(5) [unfolded u kvs.simps] 0(8) [unfolded u]])
  let ?it = "it\<lparr>path := path it @ [d], ipos := ipos it @ [length D]\<rparr>"
  have ptr: "ptr \<noteq> 0"
    using 0(7) by auto
  have get: "pm_get pm s ptr = Inr d"
    using assms 0(2) by (rule get_live)
  have bt: "btype d = Inr BNODE_LEAF"
    using node_is_btype 0(3) unfolding u node_of_def by fastforce
  have stop: "seek_le_loop pm f s 0 key i = Inr i" for f i
    by (simp add: seek_le_loop.simps [of pm f])
  have pos: "u16 (nat (int (length D))) = length D"
    using D(2) by (rule u16_nat)
  have "seek_le_loop pm fuel s ptr key it = Inr ?it"
    using ptr 0(9) get D(1) bt pos stop [of "fuel - 1" ?it]
    by (simp add: seek_le_loop.simps [of pm fuel] BNODE_LEAF_def BNODE_NODE_def)
  moreover have "spot t ?it k B (Leaf xs) A"
    using 0(10-12) u spot_frame [of k ?it it t B u A] by (simp add: nth_append)
  then have "standing t k ?it k (B @ D) [x] (E @ A)"
    unfolding standing_def using 0(3,10,11) D(3) u
    by (intro conjI exI [of _ B] exI [of _ "Leaf xs"] exI [of _ A]) (simp_all add: full_iter_def nth_append)
  ultimately show ?case
    using D u by (intro exI [of _ ?it] exI [of _ D] exI [of _ x] exI [of _ E]) simp
next
  case (Suc h)
  obtain L p q v R d1 where D: "u = Node (L @ [(p, q, v)] @ R)"
      "node_lookup_le d key = Inr (int (length L))" "length L < 2 ^ 16"
      "node_is d BNODE_NODE (map kid_ent (L @ [(p, q, v)] @ R))"
      "get_ptr d (length L) = Inr p" "live s p = Some d1" "node_of d1 v" "shape h v"
      "stored (live s) v" "distinct (p # pages v)" "0 \<notin> set (p # pages v)" "sorted1 (kvs v)" "first_key v \<le> key"
      "\<forall>x\<in>set (kvs (Node R)). key < fst x"
    by (rule descend [OF assms Suc.prems(1,3,4,5,8)])
      (use Suc.prems(6,7) in \<open>simp, simp, blast\<close>)
  let ?it = "it\<lparr>path := path it @ [d], ipos := ipos it @ [length L]\<rparr>"
  have ptr: "ptr \<noteq> 0"
    using Suc.prems(7) by auto
  have get: "pm_get pm s ptr = Inr d"
    using assms Suc.prems(2) by (rule get_live)
  have pos: "u16 (nat (int (length L))) = length L"
    using D(3) by (rule u16_nat)
  have step: "seek_le_loop pm fuel s ptr key it = seek_le_loop pm (fuel - 1) s p key ?it"
    using ptr Suc.prems(9) get D(2,5) node_is_btype [OF D(4)] pos
    by (simp add: seek_le_loop.simps [of pm fuel])
  have "spot t ?it k B u A"
    using Suc.prems(10-12) spot_frame [of k ?it it t B u A] by (simp add: nth_append)
  then have sp: "spot t ?it (Suc k) (B @ kvs (Node L)) v (kvs (Node R) @ A)"
    unfolding spot.simps D(1) using Suc.prems(3,10,11) D(1)
    by (intro exI [of _ B] exI [of _ "L @ [(p, q, v)] @ R"] exI [of _ A] conjI) (simp_all add: nth_append)
  have "h < fuel - 1" "length (path ?it) = Suc k" "length (ipos ?it) = Suc k"
    using Suc.prems(9,10,11) by simp_all
  note IH = Suc.IH [OF D(8,6,7,9,12,10,11,13) this sp]
  obtain it' D' x E' where it': "seek_le_loop pm (fuel - 1) s p key ?it = Inr it'"
      "standing t (Suc k + h) it' (Suc k + h) ((B @ kvs (Node L)) @ D') [x] (E' @ kvs (Node R) @ A)"
      "kvs v = D' @ [x] @ E'" "fst x \<le> key" "\<forall>y\<in>set E'. key < fst y"
    using IH by blast
  have "kvs u = (kvs (Node L) @ D') @ [x] @ (E' @ kvs (Node R))"
    unfolding D(1) using it'(3) by simp
  moreover have "standing t (k + Suc h) it' (k + Suc h) (B @ (kvs (Node L) @ D')) [x] ((E' @ kvs (Node R)) @ A)"
    using it'(2) by simp
  moreover have "\<forall>y\<in>set (E' @ kvs (Node R)). key < fst y"
    using it'(5) D(14) by (simp add: ball_Un)
  ultimately show ?case
    using it'(1,4) step by metis
qed

lemma seek_le_ok:
  assumes "inv s" and root: "tree_at (live s) root t" and sh: "shape h t"
  obtains it n where "seek_le pm root s key = Inr it" and "iter_at t h it n" and "n < length (kvs t)"
    and "\<forall>i<length (kvs t). fst (kvs t ! i) \<le> key \<longleftrightarrow> i \<le> n"
proof -
  have t: "sorted1 (kvs t)" "first_key t = []" "stored (live s) t" "distinct (root # pages t)"
      "0 \<notin> set (root # pages t)" and page: "page_of (live s root) t"
    using root by (auto simp: tree_at_def tree_inv_def)
  obtain d where d: "live s root = Some d" "node_of d t"
    using page by (auto simp: page_of_def)
  have fuel: "h < TREE_FUEL"
    using shape_height_bound [OF sh t(4)] by (simp add: TREE_FUEL_def)
  have le: "first_key t \<le> key"
    by (simp add: t(2))
  have start: "spot t empty_BIter 0 [] t []" "length (path empty_BIter) = 0" "length (ipos empty_BIter) = 0"
    by (simp_all add: empty_BIter_def)
  obtain it D x E where it: "seek_le_loop pm TREE_FUEL s root key empty_BIter = Inr it"
      "standing t h it h D [x] E" "kvs t = D @ [x] @ E" "fst x \<le> key" "\<forall>y\<in>set E. key < fst y"
    using seek_loop_ok [OF assms(1) sh d t(3,1,4,5) le fuel start(2,3,1)] by auto
  note at = standing_iter_at [OF sh t(3) it(2)]
  have split: "fst (kvs t ! i) \<le> key \<longleftrightarrow> i \<le> length D" if i: "i < length (kvs t)" for i
  proof (cases "i \<le> length D")
    case True
    then have "kvs t ! i \<in> set D \<or> kvs t ! i = x"
      unfolding it(3) by (cases "i = length D") (simp_all add: nth_append)
    moreover have "\<forall>y\<in>set D. fst y < fst x"
      using t(1) unfolding it(3) sorted1_append by auto
    ultimately show ?thesis
      using True it(4) by fastforce
  next
    case False
    then have "kvs t ! i = E ! (i - Suc (length D))" "i - Suc (length D) < length E"
      using i unfolding it(3) by (simp_all add: nth_append)
    then have "key < fst (kvs t ! i)"
      using it(5) by simp
    then show ?thesis
      using False by simp
  qed
  show thesis
    using that [of it "length D"] it(1) at split by (simp add: seek_le_def)
qed

end

text \<open>
  Index \<open>n\<close> splits the pairs at the relation: scanning forward, the pairs from \<open>n\<close> on are those that
  satisfy it; scanning backward, those up to \<open>n\<close>.
\<close>

definition seek_split :: "tree \<Rightarrow> bytes \<Rightarrow> CMP \<Rightarrow> nat \<Rightarrow> bool" where
  "seek_split t key cmp n \<longleftrightarrow>
     (if cmp_val cmp > 0
      then 0 < n \<and> n \<le> length (kvs t) \<and> (\<forall>i. 0 < i \<and> i < length (kvs t) \<longrightarrow> (n \<le> i \<longleftrightarrow> cmp_ok (fst (kvs t ! i)) cmp key))
      else n < length (kvs t) \<and> (\<forall>i. 0 < i \<and> i < length (kvs t) \<longrightarrow> (i \<le> n \<longleftrightarrow> cmp_ok (fst (kvs t ! i)) cmp key)))"

lemma seek_split_step:
  assumes sorted: "sorted1 (kvs t)" and n: "n < length (kvs t)"
    and le: "\<forall>i<length (kvs t). fst (kvs t ! i) \<le> key \<longleftrightarrow> i \<le> n"
    and ok_def: "ok \<longleftrightarrow> 0 < n \<and> cmp_ok (fst (kvs t ! n)) cmp key"
  shows "seek_split t key cmp (if ok then n else if cmp_val cmp > 0 then Suc n else if 0 < n then n - 1 else n)"
proof -
  have mono: "fst (kvs t ! i) < fst (kvs t ! j)" if "i < j" "j < length (kvs t)" for i j
    using sorted_wrt_nth_less [OF sorted, of i j] that by simp
  have below: "fst (kvs t ! i) \<le> key" if "i \<le> n" for i
    using le that n by simp
  have above: "key < fst (kvs t ! i)" if "n < i" "i < length (kvs t)" for i
    using le that by (simp add: not_le [symmetric])
  have strict: "fst (kvs t ! i) < key" if "i < n" for i
    using mono [OF that n] below [of n] by (rule less_le_trans) simp
  have step: "fst (kvs t ! i) = key \<Longrightarrow> i < length (kvs t) \<Longrightarrow> i = n" for i
    using strict above by (metis less_irrefl linorder_neqE_nat)
  show ?thesis
  proof (cases cmp)
    case CMP_GE
    have "n \<le> i \<longleftrightarrow> key \<le> fst (kvs t ! i)" if "ok" "i < length (kvs t)" for i
      using that strict [of i] above [of i] unfolding ok_def CMP_GE by (cases i n rule: linorder_cases) (auto simp: not_le)
    moreover have "Suc n \<le> i \<longleftrightarrow> key \<le> fst (kvs t ! i)" if "\<not> ok" "0 < i" "i < length (kvs t)" for i
      using that strict [of i] above [of i] unfolding ok_def CMP_GE by (cases i n rule: linorder_cases) (auto simp: not_le)
    ultimately show ?thesis
      using n by (auto simp: seek_split_def CMP_GE ok_def)
  next
    case CMP_GT
    have "\<not> ok"
      using below [of n] by (simp add: ok_def CMP_GT not_less)
    moreover have "Suc n \<le> i \<longleftrightarrow> key < fst (kvs t ! i)" if "i < length (kvs t)" for i
      using that below [of i] above [of i] by (cases "i \<le> n") (auto simp: not_le)
    ultimately show ?thesis
      using n by (auto simp: seek_split_def CMP_GT)
  next
    case CMP_LT
    have "i \<le> n \<longleftrightarrow> fst (kvs t ! i) < key" if "ok" "i < length (kvs t)" for i
      using that strict [of i] above [of i] unfolding ok_def CMP_LT by (cases i n rule: linorder_cases) auto
    moreover have "i \<le> n - 1 \<longleftrightarrow> fst (kvs t ! i) < key" if "\<not> ok" "0 < n" "i < length (kvs t)" for i
      using that strict [of i] above [of i] unfolding ok_def CMP_LT by (cases i n rule: linorder_cases) auto
    moreover have "\<not> fst (kvs t ! i) < key" if "n = 0" "0 < i" "i < length (kvs t)" for i
      using that above [of i] by simp
    ultimately show ?thesis
      using n by (auto simp: seek_split_def CMP_LT ok_def)
  next
    case CMP_LE
    have "ok \<longleftrightarrow> 0 < n"
      using below [of n] by (simp add: ok_def CMP_LE)
    then show ?thesis
      using n le by (auto simp: seek_split_def CMP_LE)
  qed
qed

context page_view
begin

theorem BTree_seek_ok:
  assumes "inv s" and root: "tree_at (live s) root t" and sh: "shape h t"
  obtains it n where "BTree_seek pm root s key cmp = Inr it" and "iter_at t h it n" and "seek_split t key cmp n"
proof -
  obtain it n where it: "seek_le pm root s key = Inr it" "iter_at t h it n" "n < length (kvs t)"
      "\<forall>i<length (kvs t). fst (kvs t ! i) \<le> key \<longleftrightarrow> i \<le> n"
    by (rule seek_le_ok [OF assms])
  have t: "tree_inv t" "stored (live s) t" "sorted1 (kvs t)"
    using root by (auto simp: tree_at_def tree_inv_def)
  note valid = BIter_valid_ok [OF t(1) sh t(2) it(2)]
  have deref: "BIter_deref it = Inr (kvs t ! n)" if "0 < n"
    using BIter_deref_ok [OF t(1) sh t(2) it(2) that it(3)] .
  define ok where "ok \<longleftrightarrow> 0 < n \<and> cmp_ok (fst (kvs t ! n)) cmp key"
  note split = seek_split_step [OF t(3) it(3,4) ok_def]
  have run: "BTree_seek pm root s key cmp =
      (if \<not> ok \<and> cmp_val cmp > 0 then BIter_next pm s it
       else if \<not> ok \<and> 0 < n then BIter_prev pm s it else Inr it)"
    using valid deref it(3) by (cases "0 < n") (simp_all add: BTree_seek_def it(1) ok_def)
  show thesis
  proof (cases "\<not> ok \<and> cmp_val cmp > 0")
    case True
    obtain it' where "BIter_next pm s it = Inr it'" "iter_at t h it' (min (Suc n) (length (kvs t)))"
      by (rule BIter_next_ok [OF assms(1) sh t(2) it(2)])
    then show thesis
      using that [of it' "Suc n"] run split True it(3) by (simp add: min_def Suc_leI split: if_splits)
  next
    case False
    show thesis
    proof (cases "\<not> ok \<and> 0 < n")
      case True
      obtain it' where "BIter_prev pm s it = Inr it'" "iter_at t h it' (n - 1)"
        by (rule BIter_prev_ok [OF assms(1) sh t(2) it(2)])
      then show thesis
        using that [of it' "n - 1"] run split True False by simp
    next
      case F: False
      then show thesis
        using that [of it n] run split False it(2) by (auto split: if_splits)
    qed
  qed
qed

end

section \<open>Walking from the position sought\<close>

text \<open>The loop of a client that reads pairs until the iterator is exhausted.\<close>

fun walk :: "'s IPageManager \<Rightarrow> 's \<Rightarrow> bool \<Rightarrow> nat \<Rightarrow> BIter \<Rightarrow> (bytes \<times> bytes) list res" where
  "walk pm s fwd 0 it = Inl Diverges"
| "walk pm s fwd (Suc fuel) it =
     rbind (BIter_valid it) (\<lambda>valid. if \<not> valid then Inr [] else
     rbind (BIter_deref it) (\<lambda>pair.
     rbind (if fwd then BIter_next pm s it else BIter_prev pm s it) (\<lambda>it.
     rbind (walk pm s fwd fuel it) (\<lambda>rest. Inr (pair # rest)))))"

text \<open>The pairs of a map that satisfy a relation, in the order of the scan.\<close>

definition scanned :: "(bytes \<rightharpoonup> bytes) \<Rightarrow> bytes \<Rightarrow> CMP \<Rightarrow> (bytes \<times> bytes) list \<Rightarrow> bool" where
  "scanned m key cmp r \<longleftrightarrow> set r = {(k, v). m k = Some v \<and> cmp_ok k cmp key}
     \<and> sorted_wrt (if cmp_val cmp > 0 then (<) else (>)) (map fst r)"

lemma tree_map_nth:
  assumes "tree_inv t"
  shows "tree_map t k = Some v \<longleftrightarrow> (\<exists>i. 0 < i \<and> i < length (kvs t) \<and> kvs t ! i = (k, v))"
proof -
  obtain h where sh: "shape h t" and sorted: "sorted1 (kvs t)" and first: "first_key t = []"
    using assms by (auto simp: tree_inv_def)
  then have ne: "kvs t \<noteq> []" and key0: "fst (kvs t ! 0) = []"
    using shape_kvs [OF sh] by (auto simp: hd_conv_nth)
  have dist: "distinct (map fst (kvs t))"
    using sorted by (simp add: strict_sorted_iff)
  have pos: "fst (kvs t ! i) \<noteq> [] \<longleftrightarrow> 0 < i" if "i < length (kvs t)" for i
  proof -
    have "0 < i \<Longrightarrow> fst (kvs t ! 0) < fst (kvs t ! i)"
      using sorted_wrt_nth_less [OF sorted, of 0 i] that ne by (simp add: nth_map [of 0])
    then show ?thesis
      using key0 by (cases "i = 0") auto
  qed
  have "tree_map t k = Some v \<longleftrightarrow> k \<noteq> [] \<and> (k, v) \<in> set (kvs t)"
    using map_of_eq_Some_iff [OF dist, of k v] by (simp add: tree_map_def)
  also have "\<dots> \<longleftrightarrow> (\<exists>i. 0 < i \<and> i < length (kvs t) \<and> kvs t ! i = (k, v))"
    using pos unfolding in_set_conv_nth by (metis fst_conv)
  finally show ?thesis .
qed

lemma scanned_drop:
  assumes "tree_inv t" and "seek_split t key cmp n" and "cmp_val cmp > 0"
  shows "scanned (tree_map t) key cmp (drop n (kvs t))"
proof -
  have n: "0 < n" "\<And>i. 0 < i \<Longrightarrow> i < length (kvs t) \<Longrightarrow> n \<le> i \<longleftrightarrow> cmp_ok (fst (kvs t ! i)) cmp key"
    using assms(2,3) by (auto simp: seek_split_def)
  have "(k, v) \<in> set (drop n (kvs t)) \<longleftrightarrow> tree_map t k = Some v \<and> cmp_ok k cmp key" for k v
  proof
    assume "(k, v) \<in> set (drop n (kvs t))"
    then obtain j where "j < length (drop n (kvs t))" "drop n (kvs t) ! j = (k, v)"
      by (auto simp only: in_set_conv_nth)
    then have "n + j < length (kvs t)" "kvs t ! (n + j) = (k, v)"
      by auto
    then show "tree_map t k = Some v \<and> cmp_ok k cmp key"
      using n(1) n(2) [of "n + j"] tree_map_nth [OF assms(1)] by fastforce
  next
    assume a: "tree_map t k = Some v \<and> cmp_ok k cmp key"
    then obtain i where i: "0 < i" "i < length (kvs t)" "kvs t ! i = (k, v)"
      using tree_map_nth [OF assms(1)] by blast
    then have "n \<le> i"
      using n(2) [of i] a by simp
    then have "drop n (kvs t) ! (i - n) = (k, v)" "i - n < length (drop n (kvs t))"
      using i by simp_all
    then show "(k, v) \<in> set (drop n (kvs t))"
      by (metis nth_mem)
  qed
  moreover have "sorted1 (drop n (kvs t))"
    using assms(1) by (simp add: tree_inv_def sorted_wrt_drop drop_map [symmetric])
  ultimately show ?thesis
    using assms(3) unfolding scanned_def by auto
qed

lemma scanned_take:
  assumes "tree_inv t" and "seek_split t key cmp n" and "\<not> cmp_val cmp > 0"
  shows "scanned (tree_map t) key cmp (rev (drop 1 (take (Suc n) (kvs t))))"
proof -
  have n: "n < length (kvs t)" "\<And>i. 0 < i \<Longrightarrow> i < length (kvs t) \<Longrightarrow> i \<le> n \<longleftrightarrow> cmp_ok (fst (kvs t ! i)) cmp key"
    using assms(2,3) by (auto simp: seek_split_def)
  let ?xs = "drop 1 (take (Suc n) (kvs t))"
  have "(k, v) \<in> set ?xs \<longleftrightarrow> tree_map t k = Some v \<and> cmp_ok k cmp key" for k v
  proof
    assume "(k, v) \<in> set ?xs"
    then obtain j where j: "j < length ?xs" "?xs ! j = (k, v)"
      by (auto simp: in_set_conv_nth)
    have "0 < Suc j" "Suc j < length (kvs t)" "kvs t ! Suc j = (k, v)" "Suc j \<le> n"
      using j n(1) by simp_all
    then show "tree_map t k = Some v \<and> cmp_ok k cmp key"
      using n(2) [of "Suc j"] tree_map_nth [OF assms(1)] by (metis fst_conv)
  next
    assume a: "tree_map t k = Some v \<and> cmp_ok k cmp key"
    then obtain i where i: "0 < i" "i < length (kvs t)" "kvs t ! i = (k, v)"
      using tree_map_nth [OF assms(1)] by blast
    then have "i \<le> n"
      using n(2) [of i] a by simp
    then have "?xs ! (i - 1) = (k, v)" "i - 1 < length ?xs"
      using i n(1) by auto
    then show "(k, v) \<in> set ?xs"
      by (metis nth_mem)
  qed
  moreover have "sorted1 ?xs"
    using assms(1) by (simp add: tree_inv_def sorted_wrt_drop sorted_wrt_take drop_map [symmetric] take_map [symmetric])
  then have "sorted_wrt (>) (map fst (rev ?xs))"
    by (simp add: rev_map [symmetric] sorted_wrt_rev)
  ultimately show ?thesis
    using assms(3) unfolding scanned_def set_rev by auto
qed

context page_view
begin

lemma walk_forward:
  assumes "inv s" "tree_inv t" "shape h t" "stored (live s) t"
  shows "iter_at t h it n \<Longrightarrow> 0 < n \<Longrightarrow> walk pm s True (Suc (length (kvs t) - n)) it = Inr (drop n (kvs t))"
proof (induction "length (kvs t) - n" arbitrary: it n)
  case 0
  then show ?case
    using BIter_valid_ok [OF assms(2-4) 0(2)] by simp
next
  case (Suc m)
  have n: "n < length (kvs t)"
    using Suc(2) by simp
  obtain it' where it': "BIter_next pm s it = Inr it'" "iter_at t h it' (Suc n)"
    using BIter_next_ok [OF assms(1,3,4) Suc(3)] n by (auto simp: min_def Suc_leI)
  have "walk pm s True (Suc (length (kvs t) - Suc n)) it' = Inr (drop (Suc n) (kvs t))"
    using Suc.hyps(1) [OF _ it'(2)] Suc(2) by simp
  moreover have "Suc (length (kvs t) - Suc n) = length (kvs t) - n"
    using n by simp
  ultimately show ?case
    using BIter_valid_ok [OF assms(2-4) Suc(3)] BIter_deref_ok [OF assms(2-4) Suc(3,4) n] it'(1) Suc(4) n
    by (simp add: Cons_nth_drop_Suc)
qed

lemma walk_backward:
  assumes "inv s" "tree_inv t" "shape h t" "stored (live s) t"
  shows "iter_at t h it n \<Longrightarrow> n < length (kvs t) \<Longrightarrow> walk pm s False (Suc n) it = Inr (rev (drop 1 (take (Suc n) (kvs t))))"
proof (induction n arbitrary: it)
  case 0
  then show ?case
    using BIter_valid_ok [OF assms(2-4) 0(1)] by (cases "kvs t") simp_all
next
  case (Suc n)
  obtain it' where it': "BIter_prev pm s it = Inr it'" "iter_at t h it' n"
    using BIter_prev_ok [OF assms(1,3,4) Suc(2)] by auto
  have "rev (drop 1 (take (Suc (Suc n)) (kvs t))) = kvs t ! Suc n # rev (drop 1 (take (Suc n) (kvs t)))"
    using Suc(3) by (simp add: take_Suc_conv_app_nth [of "Suc n"])
  then show ?case
    using BIter_valid_ok [OF assms(2-4) Suc(2)] BIter_deref_ok [OF assms(2-4) Suc(2) _ Suc(3)] it'(1)
      Suc.IH [OF it'(2)] Suc(3) by (simp del: walk.simps(2) add: walk.simps(2) [of pm s False "Suc n"])
qed

lemma seek_walk_ok:
  assumes "inv s" and "represents (live s) root m"
  obtains it fuel r where "BTree_seek pm root s key cmp = Inr it"
    and "walk pm s (cmp_val cmp > 0) fuel it = Inr r" and "scanned m key cmp r"
proof (cases "root = 0")
  case True
  then have m: "m = Map.empty"
    using assms(2) by (auto simp: represents_def tree_at_def)
  have valid: "BIter_valid empty_BIter = Inr False"
    by (simp add: BIter_valid_def empty_BIter_def)
  have "BTree_seek pm root s key cmp = Inr empty_BIter"
    using True valid by (simp add: BTree_seek_def seek_le_def seek_le_loop.simps BIter_next_def empty_BIter_def)
  moreover have "walk pm s (cmp_val cmp > 0) (Suc 0) empty_BIter = Inr []"
    using valid by simp
  ultimately show thesis
    using that [of empty_BIter "Suc 0" "[]"] by (simp add: m scanned_def)
next
  case False
  then obtain t where t: "tree_at (live s) root t" "m = tree_map t"
    using assms(2) by (auto simp: represents_def)
  then obtain h where h: "tree_inv t" "shape h t" "stored (live s) t"
    by (auto simp: tree_at_def tree_inv_def)
  obtain it n where it: "BTree_seek pm root s key cmp = Inr it" "iter_at t h it n" "seek_split t key cmp n"
    by (rule BTree_seek_ok [OF assms(1) t(1) h(2)])
  show thesis
  proof (cases "cmp_val cmp > 0")
    case True
    then have "0 < n"
      using it(3) by (simp add: seek_split_def)
    then have "walk pm s (cmp_val cmp > 0) (Suc (length (kvs t) - n)) it = Inr (drop n (kvs t))"
      using walk_forward [OF assms(1) h it(2)] True by (simp only:)
    from that [OF it(1) this] show thesis
      unfolding t(2) using scanned_drop [OF h(1) it(3) True] by blast
  next
    case False
    then have "n < length (kvs t)"
      using it(3) by (simp add: seek_split_def)
    then have "walk pm s (cmp_val cmp > 0) (Suc n) it = Inr (rev (drop 1 (take (Suc n) (kvs t))))"
      using walk_backward [OF assms(1) h it(2)] False by (simp only:)
    from that [OF it(1) this] show thesis
      unfolding t(2) using scanned_take [OF h(1) it(3) False] by blast
  qed
qed

end

end
