(* ===== verification/KVReader.thy ===== *)
theory KVReader
  imports BIter_Spec
begin

text \<open>
  The snapshot reader of \<open>storage/kv_reader\<close>. The database file is its list of bytes; an mmap region
  (\<open>MmapChunk\<close>) is the file offset it starts at and its size, so a pointer into a region is a file
  offset. Reading past the end of the file is \<open>Bad_access\<close> (the process would get SIGBUS).
\<close>

record MmapChunk =
  chunk_data :: nat
  chunk_size :: nat

text \<open>\<open>tree_.root\<close> is \<open>tree_root\<close>; the tree's page manager is passed where the tree is used.\<close>

record KVReader =
  rd_version :: u64
  heap_index :: int
  tree_root :: u64
  chunks :: "MmapChunk list"

fun mapped_loop :: "MmapChunk list \<Rightarrow> u64 \<Rightarrow> u64 \<Rightarrow> nat res" where
  "mapped_loop [] start ptr = Inl (Out_of_range ''KVReader: bad ptr'')"
| "mapped_loop (chunk # cs) start ptr =
     (let end = start + word_of_nat (chunk_size chunk div BTREE_PAGE_SIZE) in
      if ptr < end then Inr (chunk_data chunk + unat (word_of_nat BTREE_PAGE_SIZE * (ptr - start)))
      else mapped_loop cs end ptr)"

definition page_get_mapped :: "'a KVReader_scheme \<Rightarrow> u64 \<Rightarrow> nat res" where
  "page_get_mapped rd ptr = mapped_loop (chunks rd) 0 ptr"

text \<open>The page manager of a reader: it reads the mapped file and never writes.\<close>

definition MappedPages_get :: "bytes \<Rightarrow> KVReader \<Rightarrow> u64 \<Rightarrow> bnode res" where
  "MappedPages_get file rd ptr =
     rbind (page_get_mapped rd ptr) (\<lambda>pos. rbind (load file pos BTREE_PAGE_SIZE) decode)"

definition MappedPages :: "bytes \<Rightarrow> KVReader IPageManager" where
  "MappedPages file =
     \<lparr>pm_get = MappedPages_get file,
      pm_new_page = (\<lambda>rd node. Inl (Logic_error ''KVReader: a reader can't write'')),
      pm_del = (\<lambda>rd ptr. Inl (Logic_error ''KVReader: a reader can't write''))\<rparr>"

definition KVReader_get :: "bytes \<Rightarrow> KVReader \<Rightarrow> bytes \<Rightarrow> bytes option res" where
  "KVReader_get file rd key = BTree_get (MappedPages file) (tree_root rd) rd key"

section \<open>The mapped pages\<close>

text \<open>\<open>mapped cs n\<close>: the regions \<open>cs\<close>, in order, map the file from offset \<open>n\<close> on.\<close>

fun mapped :: "MmapChunk list \<Rightarrow> nat \<Rightarrow> bool" where
  "mapped [] n = True"
| "mapped (c # cs) n = (chunk_data c = n \<and> BTREE_PAGE_SIZE dvd chunk_size c \<and> mapped cs (n + chunk_size c))"

definition mapped_total :: "MmapChunk list \<Rightarrow> nat" where
  "mapped_total cs = sum_list (map chunk_size cs)"

lemma mapped_loop_ok:
  assumes "mapped cs (BTREE_PAGE_SIZE * n)" and "BTREE_PAGE_SIZE * n + mapped_total cs < 2 ^ 64" and "n \<le> unat ptr"
  shows "mapped_loop cs (word_of_nat n) ptr =
    (if BTREE_PAGE_SIZE * unat ptr < BTREE_PAGE_SIZE * n + mapped_total cs then Inr (BTREE_PAGE_SIZE * unat ptr)
     else Inl (Out_of_range ''KVReader: bad ptr''))"
  using assms
proof (induction cs arbitrary: n)
  case Nil
  then show ?case
    by (simp add: mapped_total_def BTREE_PAGE_SIZE_def)
next
  case (Cons c cs)
  obtain k where k: "chunk_size c = BTREE_PAGE_SIZE * k"
    using Cons.prems(1) by auto
  have total: "mapped_total (c # cs) = BTREE_PAGE_SIZE * k + mapped_total cs"
    by (simp add: mapped_total_def k)
  have bound: "n + k < 2 ^ 64"
    using Cons.prems(2) unfolding total by (simp add: BTREE_PAGE_SIZE_def)
  have div: "chunk_size c div BTREE_PAGE_SIZE = k"
    by (simp add: k BTREE_PAGE_SIZE_def)
  have "end": "(word_of_nat n :: u64) + word_of_nat k = word_of_nat (n + k)"
    by simp
  have lt: "ptr < word_of_nat (n + k) \<longleftrightarrow> unat ptr < n + k"
    using bound by (simp add: word_less_nat_alt unat_of_nat del: of_nat_add)
  show ?case
  proof (cases "unat ptr < n + k")
    case True
    have un: "unat (word_of_nat n :: u64) = n"
      using bound by (simp add: unat_of_nat)
    then have sub: "unat (ptr - word_of_nat n) = unat ptr - n"
      using Cons.prems(3) by (simp add: unat_sub_if')
    have "BTREE_PAGE_SIZE * (unat ptr - n) < 2 ^ 64"
      using True Cons.prems(2) unfolding total by (simp add: BTREE_PAGE_SIZE_def)
    then have "unat (word_of_nat BTREE_PAGE_SIZE * (ptr - word_of_nat n)) = BTREE_PAGE_SIZE * (unat ptr - n)"
      by (simp only: unat_word_ariths(2) unat_of_nat sub) (simp add: BTREE_PAGE_SIZE_def)
    moreover have "chunk_data c = BTREE_PAGE_SIZE * n"
      using Cons.prems(1) by simp
    moreover have "BTREE_PAGE_SIZE * n + BTREE_PAGE_SIZE * (unat ptr - n) = BTREE_PAGE_SIZE * unat ptr"
      using Cons.prems(3) by (simp add: distrib_left [symmetric])
    moreover have "BTREE_PAGE_SIZE * unat ptr < BTREE_PAGE_SIZE * n + mapped_total (c # cs)"
      using True unfolding total by (simp add: BTREE_PAGE_SIZE_def)
    ultimately show ?thesis
      using True lt by (simp add: div Let_def)
  next
    case False
    have pos: "BTREE_PAGE_SIZE * n + chunk_size c = BTREE_PAGE_SIZE * (n + k)"
      by (simp add: k distrib_left)
    have "mapped_loop (c # cs) (word_of_nat n) ptr = mapped_loop cs (word_of_nat (n + k)) ptr"
      using False lt by (simp add: div Let_def)
    also have "\<dots> = (if BTREE_PAGE_SIZE * unat ptr < BTREE_PAGE_SIZE * (n + k) + mapped_total cs
        then Inr (BTREE_PAGE_SIZE * unat ptr) else Inl (Out_of_range ''KVReader: bad ptr''))"
      using Cons.prems(1,2) False pos unfolding total
      by (intro Cons.IH) (simp_all only: mapped.simps k distrib_left not_less add.assoc)
    finally show ?thesis
      unfolding total by (simp add: distrib_left)
  qed
qed

lemma page_get_mapped_ok:
  assumes "mapped (chunks rd) 0" and "mapped_total (chunks rd) < 2 ^ 64"
  shows "page_get_mapped rd ptr =
    (if BTREE_PAGE_SIZE * unat ptr < mapped_total (chunks rd) then Inr (BTREE_PAGE_SIZE * unat ptr)
     else Inl (Out_of_range ''KVReader: bad ptr''))"
  using mapped_loop_ok [of "chunks rd" 0 ptr] assms by (simp add: page_get_mapped_def)

text \<open>The pages of the file, and those a reader can reach.\<close>

definition file_page :: "bytes \<Rightarrow> u64 \<rightharpoonup> bytes" where
  "file_page file p = (case load file (BTREE_PAGE_SIZE * unat p) BTREE_PAGE_SIZE of Inr d \<Rightarrow> Some d | Inl e \<Rightarrow> None)"

definition reader_ok :: "'a KVReader_scheme \<Rightarrow> bool" where
  "reader_ok rd \<longleftrightarrow> mapped (chunks rd) 0 \<and> mapped_total (chunks rd) < 2 ^ 64"

definition reader_pages :: "bytes \<Rightarrow> 'a KVReader_scheme \<Rightarrow> u64 \<rightharpoonup> bytes" where
  "reader_pages file rd p =
     (if BTREE_PAGE_SIZE * unat p < mapped_total (chunks rd) then file_page file p else None)"

lemma load_page: "load file pos BTREE_PAGE_SIZE = Inr d \<Longrightarrow> length d = BTREE_PAGE_SIZE"
  by (auto simp: load_def split: if_splits)

lemma reader_pages_ok:
  assumes "reader_ok rd"
  shows "reader_pages file rd p = Some d \<longleftrightarrow>
    (\<exists>pos. page_get_mapped rd p = Inr pos \<and> load file pos BTREE_PAGE_SIZE = Inr d)"
  using assms page_get_mapped_ok [of rd p]
  by (auto simp: reader_ok_def reader_pages_def file_page_def split: sum.splits if_splits)

interpretation mapped: page_view "MappedPages f" reader_ok "reader_pages f" for f
proof
  fix s :: KVReader and p d
  assume "reader_ok s" and "reader_pages f s p = Some d"
  then show "pm_get (MappedPages f) s p = Inr d"
    using reader_pages_ok [of s f p d] load_page decode_ok
    by (auto simp: MappedPages_def MappedPages_get_def)
qed

end
