(* ===== verification/BTree_Insert.thy ===== *)
theory BTree_Insert
  imports BTree_Spec
begin

text \<open>
  Insertion into the B+tree. \<open>page_store\<close> is the contract of a writable page manager; inside it,
  persisting children, rebuilding a path and growing the root are shown to implement the update of
  the represented map.
\<close>

section \<open>The contract of a writable page manager\<close>

text \<open>
  \<open>budget\<close> counts the allocations and releases that cannot run out of page numbers. A new page is
  never one in use and never page 0; its bytes are the encoded node. A released page leaves the
  live pages, and no other page changes.
\<close>

locale page_store = page_view pm inv live
  for pm :: "'s IPageManager" and inv :: "'s \<Rightarrow> bool" and live :: "'s \<Rightarrow> u64 \<rightharpoonup> bytes" +
  fixes budget :: "'s \<Rightarrow> nat"
  assumes new_page: "inv s \<Longrightarrow> 0 < budget s \<Longrightarrow> encode n = Inr d \<Longrightarrow>
      \<exists>p s'. pm_new_page pm s n = Inr (p, s') \<and> inv s' \<and> p \<noteq> 0 \<and> live s p = None
        \<and> live s' = (live s)(p \<mapsto> d) \<and> budget s \<le> Suc (budget s')"
    and del_page: "inv s \<Longrightarrow> 0 < budget s \<Longrightarrow> live s p \<noteq> None \<Longrightarrow>
      \<exists>s'. pm_del pm s p = Inr s' \<and> inv s' \<and> live s' = (live s)(p := None) \<and> budget s \<le> Suc (budget s')"

section \<open>Links to new children\<close>

definition new_kids :: "u64 list \<Rightarrow> tree list \<Rightarrow> (u64 \<times> bytes \<times> tree) list" where
  "new_kids ps ts = map2 (\<lambda>p t. (p, first_key t, t)) ps ts"

definition key_ents :: "tree list \<Rightarrow> ent list" where
  "key_ents ts = map (\<lambda>t. (0, first_key t, [])) ts"

lemma new_kids_simps [simp]:
  "new_kids [] ts = []" "new_kids ps [] = []"
  "new_kids (p # ps) (t # ts) = (p, first_key t, t) # new_kids ps ts"
  by (simp_all add: new_kids_def)

lemma length_new_kids [simp]: "length (new_kids ps ts) = min (length ps) (length ts)"
  by (simp add: new_kids_def)

lemma snd_new_kids: "length ps = length ts \<Longrightarrow> map snd (map kid_ent (new_kids ps ts)) = map snd (key_ents ts)"
  by (induction ps ts rule: list_induct2) (simp_all add: key_ents_def kid_ent_def)

text \<open>\<open>linked P ps ts\<close>: the pages \<open>ps\<close> hold the top nodes of \<open>ts\<close>.\<close>

definition linked :: "(u64 \<rightharpoonup> bytes) \<Rightarrow> u64 list \<Rightarrow> tree list \<Rightarrow> bool" where
  "linked P ps ts \<longleftrightarrow> list_all2 (\<lambda>p t. page_of (P p) t) ps ts \<and> distinct ps \<and> 0 \<notin> set ps"

lemma linked_length: "linked P ps ts \<Longrightarrow> length ps = length ts"
  by (auto simp: linked_def dest: list_all2_lengthD)

text \<open>The children a node rebuild takes: bytes that represent trees that fit a page.\<close>

definition kids_ready :: "bnode list \<Rightarrow> tree list \<Rightarrow> bool" where
  "kids_ready ds ts \<longleftrightarrow> list_all2 (\<lambda>d t. node_of d t \<and> fits t \<and> ents t \<noteq> []) ds ts"

lemma kid_ready:
  assumes "node_of d t" and "fits t" and "ents t \<noteq> []"
  shows "\<exists>pg. encode d = Inr pg \<and> page_of (Some pg) t" and "get_key d 0 = Inr (first_key t)"
    and "ent_ok (p, first_key t, [])"
proof -
  show "\<exists>pg. encode d = Inr pg \<and> page_of (Some pg) t"
    using encode_ok [of d "ntype t" "ents t"] assms
    by (auto simp: node_of_def fits_def page_of_def builds_def)
  show "get_key d 0 = Inr (first_key t)"
    using assms node_is_key [of d "ntype t" "ents t" 0] by (simp add: node_of_def first_key_def hd_conv_nth)
  have "ent_ok (hd (ents t))"
    using assms node_is_ents [of d "ntype t" "ents t"] by (simp add: node_of_def list_all_iff)
  then show "ent_ok (p, first_key t, [])"
    by (simp add: ent_ok_def first_key_def)
qed

lemma new_kids_tree:
  "length ps = length ts \<Longrightarrow> kvs (Node (new_kids ps ts)) = concat (map kvs ts)"
  "length ps = length ts \<Longrightarrow> set (pages (Node (new_kids ps ts))) = set ps \<union> set (concat (map pages ts))"
  by (induction ps ts rule: list_induct2) auto

lemma new_kids_distinct:
  "length ps = length ts \<Longrightarrow> distinct ps \<Longrightarrow> distinct (concat (map pages ts)) \<Longrightarrow>
   set ps \<inter> set (concat (map pages ts)) = {} \<Longrightarrow> distinct (pages (Node (new_kids ps ts)))"
proof (induction ps ts rule: list_induct2)
  case (Cons p ps t ts)
  then have "distinct (pages (Node (new_kids ps ts)))"
    by auto
  moreover have "set (pages (Node (new_kids ps ts))) = set ps \<union> set (concat (map pages ts))"
    using Cons.hyps by (rule new_kids_tree)
  ultimately show ?case
    using Cons.prems by auto
qed simp

lemma linked_stored:
  assumes "linked P ps ts" and "\<forall>t\<in>set ts. stored P t"
  shows "stored P (Node (new_kids ps ts))"
proof -
  have "list_all2 (\<lambda>p t. page_of (P p) t) ps ts"
    using assms(1) by (simp add: linked_def)
  from this assms(2) show ?thesis
    by (induction rule: list_all2_induct) auto
qed

lemma linked_dom: "linked P ps ts \<Longrightarrow> set ps \<subseteq> dom P"
proof -
  assume "linked P ps ts"
  then have "list_all2 (\<lambda>p t. page_of (P p) t) ps ts"
    by (simp add: linked_def)
  then show ?thesis
    by (induction rule: list_all2_induct) (auto simp: page_of_def)
qed

lemma shape_new_kids:
  assumes "shape (Suc h) (Node (L @ X @ R))" and "length ps = length ts" and "ts \<noteq> []"
    and "\<forall>t\<in>set ts. shape h t \<and> fits t"
  shows "shape (Suc h) (Node (L @ new_kids ps ts @ R))"
proof -
  have "\<forall>x\<in>set (new_kids ps ts). kid x \<in> set ts \<and> kid_key x = first_key (kid x)"
    using assms(2) by (induction ps ts rule: list_induct2) auto
  moreover have "new_kids ps ts \<noteq> []"
    using assms(2,3) by (cases ps; cases ts) auto
  ultimately show ?thesis
    using assms(1,4) by auto
qed

lemma key_ents_size:
  assumes "kids_ready ds ts" and "ts \<noteq> []" and "length ts \<le> 2" and "kid_key x = first_key (hd ts)"
  shows "node_size (A @ key_ents ts @ C) \<le> node_size (A @ kid_ent x # C) + MAX_ENTRY"
proof -
  have "10 + kv_size (0, first_key t, []) \<le> MAX_ENTRY" if "t \<in> set ts" for t
  proof -
    note mem = that
    obtain d where "node_of d t" "fits t" "ents t \<noteq> []"
      using assms(1) mem by (auto simp: kids_ready_def list_all2_conv_all_nth in_set_conv_nth)
    then show ?thesis
      by (intro ent_ok_size kid_ready(3))
  qed
  with assms(2-) show ?thesis
    by (cases ts rule: remdups_adj.cases) (auto simp: key_ents_def node_size_def kid_ent_def kv_size_def)
qed

text \<open>A node that may have outgrown its page, split into trees that fit.\<close>

lemma split_ready:
  assumes node: "node_of d t" and sh: "shape h t" and size: "node_size (ents t) \<le> BTREE_PAGE_SIZE + MAX_ENTRY"
  shows "\<exists>ds ts. node_split_if_needed d = Inr ds \<and> kids_ready ds ts \<and> ts \<noteq> [] \<and> length ts \<le> 2
    \<and> (\<forall>t'\<in>set ts. shape h t' \<and> fits t' \<and> (\<forall>P. stored P t \<longrightarrow> stored P t'))
    \<and> concat (map kvs ts) = kvs t \<and> concat (map pages ts) = pages t \<and> first_key (hd ts) = first_key t"
proof (cases "fits t")
  case True
  then have "node_split_if_needed d = Inr [d]"
    using node node_split_if_needed_small unfolding node_of_def fits_def by blast
  moreover have "kids_ready [d] [t]"
    using True node shape_kvs [OF sh] by (simp add: kids_ready_def)
  ultimately show ?thesis
    using True sh by (intro exI [of _ "[d]"] exI [of _ "[t]"]) simp
next
  case False
  have two: "2 \<le> length (ents t)"
  proof (rule ccontr)
    assume "\<not> 2 \<le> length (ents t)"
    moreover have "ents t \<noteq> []"
      using shape_kvs [OF sh] by simp
    ultimately obtain e where e: "ents t = [e]"
      by (cases "ents t" rule: remdups_adj.cases) auto
    have "list_all ent_ok (ents t)"
      using node node_is_ents unfolding node_of_def by blast
    then have "10 + kv_size e \<le> MAX_ENTRY"
      using e by (intro ent_ok_size) simp
    then have "fits t"
      using e by (simp add: fits_def node_size_def MAX_ENTRY_def BTREE_MAX_KEY_SIZE_def
          BTREE_MAX_VAL_SIZE_def BTREE_PAGE_SIZE_def)
    with False show False ..
  qed
  obtain l r n where n: "node_split_if_needed d = Inr [l, r]" "1 \<le> n" "n < length (ents t)"
      "node_is l (ntype t) (take n (ents t))" "node_is r (ntype t) (drop n (ents t))"
      "node_size (take n (ents t)) \<le> BTREE_PAGE_SIZE" "node_size (drop n (ents t)) \<le> BTREE_PAGE_SIZE"
    using node_split_if_needed_big [OF node [unfolded node_of_def] two _ size] False
    by (auto simp: fits_def)
  have sh2: "shape h (ttake n t)" "shape h (tdrop n t)"
    using shape_tsplit [OF sh] n(2,3) by auto
  have "kids_ready [l, r] [ttake n t, tdrop n t]"
    using n by (auto simp: kids_ready_def node_of_def fits_def)
  moreover have "\<forall>t'\<in>set [ttake n t, tdrop n t]. shape h t' \<and> fits t' \<and> (\<forall>P. stored P t \<longrightarrow> stored P t')"
    using sh2 n stored_tsplit by (auto simp: fits_def)
  moreover have "first_key (ttake n t) = first_key t"
    using n(2) by (intro first_key_ttake) simp
  ultimately show ?thesis
    using n(1) kvs_tsplit [of t n] pages_tsplit [of t n]
    by (intro exI [of _ "[l, r]"] exI [of _ "[ttake n t, tdrop n t]"]) simp
qed

context page_store
begin

text \<open>\<open>step s s' n A B\<close>: an update that costs at most \<open>n\<close> units of the budget.\<close>

definition step :: "'s \<Rightarrow> 's \<Rightarrow> nat \<Rightarrow> u64 set \<Rightarrow> u64 set \<Rightarrow> bool" where
  "step s s' n A B \<longleftrightarrow> inv s' \<and> moves (live s) (live s') A B \<and> budget s \<le> budget s' + n"

lemma step_refl: "inv s \<Longrightarrow> step s s 0 {} {}"
  by (simp add: step_def moves_refl)

lemma step_trans:
  "step s s1 m A B \<Longrightarrow> step s1 s2 n A' B' \<Longrightarrow> step s s2 (m + n) (A \<union> (A' - B)) ((B - A') \<union> B')"
  by (auto simp: step_def intro: moves_trans)

lemma step_inv: "step s s' n A B \<Longrightarrow> inv s'"
  by (simp add: step_def)

lemma step_budget: "step s s' n A B \<Longrightarrow> budget s \<le> budget s' + n"
  by (simp add: step_def)

lemma step_same: "step s s' n A B \<Longrightarrow> p \<notin> A \<Longrightarrow> p \<notin> B \<Longrightarrow> live s' p = live s p"
  by (simp add: step_def moves_def)

lemma step_fresh: "step s s' n A B \<Longrightarrow> p \<in> B \<Longrightarrow> p \<notin> A \<Longrightarrow> live s p = None"
  by (simp add: step_def moves_def)

lemma new_page_step:
  assumes "inv s" and "0 < budget s" and "node_of d t" and "fits t" and "ents t \<noteq> []"
  shows "\<exists>p s'. pm_new_page pm s d = Inr (p, s') \<and> step s s' 1 {} {p} \<and> p \<noteq> 0
    \<and> page_of (live s' p) t"
proof -
  obtain pg where pg: "encode d = Inr pg" "page_of (Some pg) t"
    using kid_ready [OF assms(3-)] by blast
  obtain p s' where "pm_new_page pm s d = Inr (p, s')" "inv s'" "p \<noteq> 0" "live s p = None"
      "live s' = (live s)(p \<mapsto> pg)" "budget s \<le> Suc (budget s')"
    using new_page [OF assms(1,2) pg(1)] by blast
  with pg(2) show ?thesis
    by (intro exI [of _ p] exI [of _ s']) (simp add: step_def moves_new)
qed

lemma del_page_step:
  assumes "inv s" and "0 < budget s" and "live s p = Some d"
  shows "\<exists>s'. pm_del pm s p = Inr s' \<and> step s s' 1 {p} {}"
  using del_page [of s p] assms by (auto simp: step_def intro: moves_del)

lemma link_children_ok:
  "kids_ready ds ts \<Longrightarrow> inv s \<Longrightarrow> length ts \<le> budget s \<Longrightarrow> node_building new BNODE_NODE n es \<Longrightarrow>
   length es = idx + i \<Longrightarrow> length es + length ts \<le> n \<Longrightarrow>
   4 + 10 * n + kvs_size (es @ key_ents ts) \<le> length new \<Longrightarrow>
   \<exists>new' s' ps. link_children pm s new idx i ds = Inr (new', s') \<and> linked (live s') ps ts
     \<and> step s s' (length ts) {} (set ps)
     \<and> node_building new' BNODE_NODE n (es @ map kid_ent (new_kids ps ts)) \<and> length new' = length new"
proof (induction ds arbitrary: ts s new es i)
  case Nil
  then show ?case
    using step_refl [OF Nil(2)]
    by (intro exI [of _ new] exI [of _ s] exI [of _ "[]"]) (simp add: kids_ready_def linked_def)
next
  case (Cons d ds)
  then obtain t ts' where ts: "ts = t # ts'" and t: "node_of d t" "fits t" "ents t \<noteq> []"
    and ready: "kids_ready ds ts'"
    by (auto simp: kids_ready_def list_all2_Cons1)
  obtain p s1 where p: "pm_new_page pm s d = Inr (p, s1)" "step s s1 1 {} {p}" "p \<noteq> 0"
      "page_of (live s1 p) t"
    using new_page_step [OF Cons.prems(2) _ t] Cons.prems(3) ts by auto
  have lim: "n < 2 ^ 16"
    using Cons.prems(4) by (auto elim: node_buildingE)
  have sz: "kvs_size [(p, first_key t, [])] = kvs_size [(0, first_key t, [])]"
    by (simp add: kv_size_def)
  obtain new1 where new1: "node_append_kv new (length es) p (first_key t) [] = Inr new1"
      "node_building new1 BNODE_NODE n (es @ [(p, first_key t, [])])" "length new1 = length new"
    using building_append [OF Cons.prems(4) _ kid_ready(3) [OF t], of p] Cons.prems(6,7) ts sz
    by (auto simp: key_ents_def)
  have "inv s1" and "length ts' \<le> budget s1"
    using p(2) Cons.prems(3) ts by (auto simp: step_def)
  then obtain new' s' ps where IH: "link_children pm s1 new1 idx (Suc i) ds = Inr (new', s')"
      "linked (live s') ps ts'" "step s1 s' (length ts') {} (set ps)"
      "node_building new' BNODE_NODE n ((es @ [(p, first_key t, [])]) @ map kid_ent (new_kids ps ts'))"
      "length new' = length new1"
    using Cons.IH [OF ready, of s1 new1 "es @ [(p, first_key t, [])]" "Suc i"] new1 Cons.prems ts sz
    by (auto simp: key_ents_def)
  have notin: "p \<notin> set ps"
    using step_fresh [OF IH(3), of p] p(4) by (auto simp: page_of_def)
  have "live s' p = live s1 p"
    using step_same [OF IH(3), of p] notin by simp
  then have "linked (live s') (p # ps) ts"
    using IH(2) p notin ts by (simp add: linked_def)
  moreover have "step s s' (length ts) {} (set (p # ps))"
    using step_trans [OF p(2) IH(3)] ts by (simp add: insert_is_Un [symmetric])
  moreover have "link_children pm s new idx i (d # ds) = Inr (new', s')"
    using p(1) kid_ready(2) [OF t] new1(1) Cons.prems(5,6) lim IH(1) ts by (simp add: u16_def)
  ultimately show ?case
    using IH(4,5) new1(3) ts
    by (intro exI [of _ new'] exI [of _ s'] exI [of _ "p # ps"]) simp
qed

text \<open>Replacing one child of a node by links to new children.\<close>

lemma node_replace_child_n_ok:
  assumes old: "node_is old BNODE_NODE (map kid_ent cs)" and i: "i < length cs"
    and ready: "kids_ready ds ts" and inv: "inv s" and bud: "length ts \<le> budget s"
    and size: "node_size (map kid_ent (take i cs) @ key_ents ts @ map kid_ent (drop (i + 1) cs)) \<le> length new"
    and len: "length new < 2 ^ 16"
  shows "\<exists>new' s' ps. node_replace_child_n pm s new old i ds = Inr (new', s') \<and> linked (live s') ps ts
    \<and> step s s' (length ts) {} (set ps)
    \<and> node_is new' BNODE_NODE (map kid_ent (take i cs @ new_kids ps ts @ drop (i + 1) cs))
    \<and> length new' = length new"
proof -
  define n where "n = length cs - 1 + length ts"
  have lts: "length ds = length ts" "length (key_ents ts) = length ts"
    using ready by (auto simp: kids_ready_def key_ents_def dest: list_all2_lengthD)
  have n: "n = length (map kid_ent (take i cs) @ key_ents ts @ map kid_ent (drop (i + 1) cs))"
    using i by (simp add: n_def lts)
  have sz: "4 + 10 * n + kvs_size (map kid_ent (take i cs) @ key_ents ts @ map kid_ent (drop (i + 1) cs))
      \<le> length new"
    using size n by (simp add: node_size_def)
  have lim: "length cs < 2 ^ 16" "n < 2 ^ 16" "length ts < 2 ^ 16" "length cs + length ts - 1 < 2 ^ 16"
    using node_is_ents [OF old] sz len i by (simp_all add: n_def)
  have room: "i + length ts \<le> n" "n = i + length ts + (length cs - (i + 1))"
    using i by (simp_all add: n_def)
  have "4 + 10 * n \<le> length new"
    using sz by simp
  then obtain d1 where d1: "set_header new BNODE_NODE n = Inr d1" "node_building d1 BNODE_NODE n []"
      "length d1 = length new"
    using building_init [of n new BNODE_NODE] len by (auto simp: BNODE_NODE_def)
  obtain d2 where d2: "node_append_range d1 old 0 0 i = Inr d2"
      "node_building d2 BNODE_NODE n (map kid_ent (take i cs))" "length d2 = length new"
    using append_range_ok [OF old d1(2), of 0 i 0] i sz d1(3) room by (auto simp: take_map)
  have len2: "length (map kid_ent (take i cs)) = i + 0"
    using i by simp
  obtain d3 s' ps where d3: "link_children pm s d2 i 0 ds = Inr (d3, s')" "linked (live s') ps ts"
      "step s s' (length ts) {} (set ps)"
      "node_building d3 BNODE_NODE n (map kid_ent (take i cs) @ map kid_ent (new_kids ps ts))"
      "length d3 = length new"
    using link_children_ok [OF ready inv bud d2(2) len2] i sz d2(3) room by auto
  have lps: "length ps = length ts"
    using d3(2) by (rule linked_length)
  let ?F = "map kid_ent (take i cs) @ map kid_ent (new_kids ps ts) @ map kid_ent (drop (i + 1) cs)"
  have "node_size ?F = node_size (map kid_ent (take i cs) @ key_ents ts @ map kid_ent (drop (i + 1) cs))"
    using snd_new_kids [OF lps] by (intro node_size_cong) simp
  then have szF: "4 + 10 * n + kvs_size ?F \<le> length new"
    using size i lps by (simp add: node_size_def n_def)
  have pos4: "i + length ts = length (map kid_ent (take i cs) @ map kid_ent (new_kids ps ts))"
    using i lps by simp
  have rng: "i + 1 + (length cs - (i + 1)) \<le> length (map kid_ent cs)"
    using i by simp
  have tail: "take (length cs - (i + 1)) (drop (i + 1) (map kid_ent cs)) = map kid_ent (drop (i + 1) cs)"
    by (simp add: drop_map)
  have fill: "length (map kid_ent (take i cs) @ map kid_ent (new_kids ps ts)) + (length cs - (i + 1)) \<le> n"
    using room pos4 by linarith
  have sz4: "4 + 10 * n + kvs_size ((map kid_ent (take i cs) @ map kid_ent (new_kids ps ts)) @
      take (length cs - (i + 1)) (drop (i + 1) (map kid_ent cs))) \<le> length d3"
    unfolding tail append_assoc d3(5) by (rule szF)
  obtain d4 where d4: "node_append_range d3 old (i + length ts) (i + 1) (length cs - (i + 1)) = Inr d4"
      "node_building d4 BNODE_NODE n ?F" "length d4 = length new"
    using append_range_ok [OF old d3(4) rng pos4 fill sz4] unfolding tail append_assoc d3(5) by blast
  have "u16_sub (length cs + length ts) 1 = n"
  proof -
    have "int (length cs + length ts) - int 1 = int n"
      using i by (simp add: n_def)
    then show ?thesis
      using lim(2) by (simp add: u16_sub_def)
  qed
  moreover have "u16 (i + length ts) = i + length ts" "u16 (i + 1) = i + 1" "u16 (length ts) = length ts"
    using i lim by (simp_all add: u16_def n_def)
  moreover have "u16_sub (length cs) (i + 1) = length cs - (i + 1)"
    using i lim by (intro u16_sub_le) simp_all
  ultimately have "node_replace_child_n pm s new old i ds = Inr (d4, s')"
    using d1(1) d2(1) d3(1) d4(1) node_is_nkeys [OF old]
    by (simp add: node_replace_child_n_def Let_def lts)
  moreover have "node_is d4 BNODE_NODE (map kid_ent (take i cs @ new_kids ps ts @ drop (i + 1) cs))"
    using d4(2) i lps by (simp add: node_is_def n_def add.commute)
  ultimately show ?thesis
    using d3(2,3) d4(3) by blast
qed

text \<open>
  \<open>updated s s' t t' n\<close>: the pages of \<open>t\<close> gave way to those of \<open>t'\<close>, which the new state holds.
\<close>

definition updated :: "'s \<Rightarrow> 's \<Rightarrow> tree \<Rightarrow> tree \<Rightarrow> nat \<Rightarrow> bool" where
  "updated s s' t t' n \<longleftrightarrow> step s s' n (set (pages t)) (set (pages t')) \<and> stored (live s') t'
     \<and> distinct (pages t') \<and> 0 \<notin> set (pages t')"

lemma updated_leaf: "inv s \<Longrightarrow> updated s s (Leaf xs) (Leaf ys) 0"
  by (simp add: updated_def step_refl)

text \<open>The siblings of the replaced children keep their pages.\<close>

lemma rebuild_updated:
  assumes st: "stored (live s) (Node (L @ X @ R))" and dist: "distinct (pages (Node (L @ X @ R)))"
    and nz: "0 \<notin> set (pages (Node (L @ X @ R)))" and up: "updated s s' (Node X) (Node Y) n"
  shows "updated s s' (Node (L @ X @ R)) (Node (L @ Y @ R)) n"
proof -
  let ?K = "set (pages (Node L)) \<union> set (pages (Node R))"
  have sib: "stored (live s) (Node L)" "stored (live s) (Node R)"
    using st by simp_all
  have m: "moves (live s) (live s') (set (pages (Node X))) (set (pages (Node Y)))"
    and Y: "stored (live s') (Node Y)" "distinct (pages (Node Y))" "0 \<notin> set (pages (Node Y))"
    using up by (simp_all add: updated_def step_def)
  have K: "?K \<subseteq> dom (live s)"
    using stored_dom [OF sib(1)] stored_dom [OF sib(2)] by blast
  have app: "pages (Node (A @ B)) = pages (Node A) @ pages (Node B)" for A B
    by simp
  have disj: "?K \<inter> set (pages (Node X)) = {}"
    using dist unfolding app by auto
  note fr = moves_frame [OF m K disj]
  have sets: "set (pages (Node (L @ Z @ R))) = set (pages (Node Z)) \<union> ?K" for Z
    unfolding app by auto
  have "stored (live s') (Node L)"
    using sib(1) fr(3) by (intro stored_frame [of "live s" "Node L" "live s'"]) auto
  moreover have "stored (live s') (Node R)"
    using sib(2) fr(3) by (intro stored_frame [of "live s" "Node R" "live s'"]) auto
  ultimately have "stored (live s') (Node (L @ Y @ R))"
    using Y(1) by auto
  moreover have "distinct (pages (Node (L @ Y @ R)))"
    using Y(2) dist fr(2) unfolding app by auto
  moreover have "0 \<notin> set (pages (Node (L @ Y @ R)))"
    using Y(3) nz unfolding sets by simp
  moreover have "step s s' n (set (pages (Node (L @ X @ R)))) (set (pages (Node (L @ Y @ R))))"
    using up fr(1) unfolding sets by (simp add: updated_def step_def)
  ultimately show ?thesis
    by (simp add: updated_def)
qed

text \<open>Rewriting one child: descend, release the old page, link the new children.\<close>

lemma relink_updated:
  assumes up: "updated s s1 t t1 n" and del: "step s1 s2 1 {p} {}" and link: "step s2 s3 k {} (set ps)"
    and p: "live s p \<noteq> None" "p \<notin> set (pages t)"
    and ps: "linked (live s3) ps ts" "ts \<noteq> []" and ts: "concat (map pages ts) = pages t1"
      "\<forall>t\<in>set ts. \<forall>P. stored P t1 \<longrightarrow> stored P t"
  shows "updated s s3 (Node [(p, q, t)]) (Node (new_kids ps ts)) (n + 1 + k)"
proof -
  note up' = up [unfolded updated_def]
  have len: "length ps = length ts"
    using ps(1) by (rule linked_length)
  have p1: "p \<notin> set (pages t1)"
    using step_fresh [OF up' [THEN conjunct1], of p] p by auto
  have fresh: "q \<notin> set ps" if "q \<in> set (pages t1)" for q
  proof
    assume "q \<in> set ps"
    then have "live s2 q = None"
      using step_fresh [OF link] by simp
    moreover have "live s2 q = live s1 q"
      using step_same [OF del, of q] that p1 by auto
    moreover have "q \<in> dom (live s1)"
      using stored_dom up' that by blast
    ultimately show False
      by (simp add: domIff)
  qed
  have same: "live s3 q = live s1 q" if "q \<in> set (pages t1)" for q
    using step_same [OF del, of q] step_same [OF link, of q] that fresh p1 by auto
  have "stored (live s3) t1"
    using up' same by (intro stored_frame [of "live s1" t1 "live s3"]) auto
  then have "stored (live s3) (Node (new_kids ps ts))"
    using ps(1) ts(2) by (intro linked_stored) auto
  moreover have "distinct (pages (Node (new_kids ps ts)))"
    using ps(1) up' fresh unfolding linked_def
    by (intro new_kids_distinct [OF len]) (auto simp: ts(1) simp del: set_concat)
  moreover have set_new: "set (pages (Node (new_kids ps ts))) = set ps \<union> set (pages t1)"
    unfolding new_kids_tree(2) [OF len] ts(1) ..
  moreover from set_new have "0 \<notin> set (pages (Node (new_kids ps ts)))"
    using ps(1) up' by (simp add: linked_def)
  moreover have "step s s3 (n + 1 + k) (set (pages (Node [(p, q, t)]))) (set ps \<union> set (pages t1))"
  proof -
    have "step s s3 (n + 1 + k)
        (set (pages t) \<union> ({p} - set (pages t1)) \<union> ({} - (set (pages t1) - {p} \<union> {})))
        ((set (pages t1) - {p} \<union> {}) - {} \<union> set ps)"
      by (rule step_trans [OF step_trans [OF up' [THEN conjunct1] del] link])
    moreover have "set (pages t) \<union> ({p} - set (pages t1)) \<union> ({} - (set (pages t1) - {p} \<union> {}))
        = set (pages (Node [(p, q, t)]))"
      using p1 by auto
    moreover have "(set (pages t1) - {p} \<union> {}) - {} \<union> set ps = set ps \<union> set (pages t1)"
      using p1 by auto
    ultimately show ?thesis
      by simp
  qed
  ultimately show ?thesis
    unfolding updated_def set_new by blast
qed

text \<open>
  Once a child was rewritten to \<open>u'\<close> and cut into the trees \<open>ts\<close>, the rebuilt node represents the
  tree with the new children, provided it fits the buffer it is built in.
\<close>

lemma relink_ok:
  assumes node: "node_is d BNODE_NODE (map kid_ent (L @ [(p, q, u)] @ R))"
    and st: "stored (live s) (Node (L @ [(p, q, u)] @ R))"
    and dist: "distinct (pages (Node (L @ [(p, q, u)] @ R)))"
    and nz: "0 \<notin> set (pages (Node (L @ [(p, q, u)] @ R)))"
    and sh: "shape (Suc h) (Node (L @ [(p, q, u)] @ R))"
    and up: "updated s s1 u u' n" and p: "live s p = Some d1"
    and ts: "kids_ready ds ts" "ts \<noteq> []" "\<forall>t\<in>set ts. shape h t \<and> fits t \<and> (\<forall>P. stored P u' \<longrightarrow> stored P t)"
      "concat (map kvs ts) = kvs u'" "concat (map pages ts) = pages u'"
    and bud: "1 + length ts \<le> budget s1"
    and size: "node_size (map kid_ent L @ key_ents ts @ map kid_ent R) \<le> length new" "length new < 2 ^ 16"
  shows "\<exists>s2 d' s3 t'. pm_del pm s1 p = Inr s2 \<and> node_replace_child_n pm s2 new d (length L) ds = Inr (d', s3)
    \<and> updated s s3 (Node (L @ [(p, q, u)] @ R)) t' (n + 1 + length ts) \<and> node_of d' t'
    \<and> length d' = length new \<and> shape (Suc h) t' \<and> kvs t' = kvs (Node L) @ kvs u' @ kvs (Node R)
    \<and> node_size (ents t') = node_size (map kid_ent L @ key_ents ts @ map kid_ent R)"
proof -
  let ?cs = "L @ [(p, q, u)] @ R"
  have "(p, q, u) \<in> set ?cs"
    by simp
  note pk = pages_kid [OF this]
  have pu: "p \<notin> set (pages u)"
    using pk(2) dist by simp
  have st1: "inv s1" "step s s1 n (set (pages u)) (set (pages u'))"
    using up by (simp_all add: updated_def step_def)
  have "p \<notin> set (pages u')"
    using step_fresh [OF st1(2)] p pu by fastforce
  then have "live s1 p = Some d1"
    using step_same [OF st1(2)] p pu by simp
  then obtain s2 where del: "pm_del pm s1 p = Inr s2" "step s1 s2 1 {p} {}"
    using del_page_step [of s1 p d1] st1(1) bud by auto
  have i: "length L < length ?cs" and cut: "take (length L) ?cs = L" "drop (length L + 1) ?cs = R"
    by simp_all
  have "length ts \<le> budget s2"
    using step_budget [OF del(2)] bud by simp
  then obtain d' s3 ps where link: "node_replace_child_n pm s2 new d (length L) ds = Inr (d', s3)"
      "linked (live s3) ps ts" "step s2 s3 (length ts) {} (set ps)"
      "node_is d' BNODE_NODE (map kid_ent (L @ new_kids ps ts @ R))" "length d' = length new"
    using node_replace_child_n_ok [OF node i ts(1) step_inv [OF del(2)]] size unfolding cut by blast
  let ?t' = "Node (L @ new_kids ps ts @ R)"
  have lps: "length ps = length ts"
    using link(2) by (rule linked_length)
  have "updated s s3 (Node [(p, q, u)]) (Node (new_kids ps ts)) (n + 1 + length ts)"
    using relink_updated [OF up del(2) link(3) _ pu link(2) ts(2,5)] ts(3) p by auto
  then have "updated s s3 (Node ?cs) ?t' (n + 1 + length ts)"
    by (rule rebuild_updated [OF st dist nz])
  moreover have "shape (Suc h) ?t'"
    using shape_new_kids [OF sh lps ts(2)] ts(3) by blast
  moreover have "kvs ?t' = kvs (Node L) @ kvs u' @ kvs (Node R)"
    using new_kids_tree(1) [OF lps] ts(4) by simp
  moreover have "node_size (ents ?t') = node_size (map kid_ent L @ key_ents ts @ map kid_ent R)"
    using snd_new_kids [OF lps] by (intro node_size_cong) simp
  moreover have "node_of d' ?t'"
    using link(4) by (simp add: node_of_def)
  ultimately show ?thesis
    using del(1) link(1,5) by blast
qed

lemma buffer2:
  "length (BNode (2 * BTREE_PAGE_SIZE)) = 2 * BTREE_PAGE_SIZE" "2 * BTREE_PAGE_SIZE < 2 ^ 16"
  "BTREE_PAGE_SIZE + MAX_ENTRY \<le> 2 * BTREE_PAGE_SIZE"
  by (simp_all add: BNode_def BTREE_PAGE_SIZE_def MAX_ENTRY_def BTREE_MAX_KEY_SIZE_def BTREE_MAX_VAL_SIZE_def)

lemma leaf_insert_tree:
  assumes node: "node_of d (Leaf xs)" and sh: "shape 0 (Leaf xs)" and sorted: "sorted1 xs" and fit: "fits (Leaf xs)"
    and le: "first_key (Leaf xs) \<le> key" and k: "length key \<le> BTREE_MAX_KEY_SIZE"
    and v: "length val \<le> BTREE_MAX_VAL_SIZE" and fuel: "0 < fuel"
  shows "\<exists>d'. tree_insert pm fuel s d key val = Inr (d', s) \<and> node_of d' (Leaf (kv_upd key val xs))
    \<and> length d' = 2 * BTREE_PAGE_SIZE
    \<and> node_size (ents (Leaf (kv_upd key val xs))) \<le> BTREE_PAGE_SIZE + MAX_ENTRY
    \<and> shape 0 (Leaf (kv_upd key val xs)) \<and> first_key (Leaf (kv_upd key val xs)) = first_key (Leaf xs)"
proof -
  define c where "c = count_le key (map ent_key (ents (Leaf xs)))"
  have s1: "sorted1 (kvs (Leaf xs))"
    using sorted by simp
  note look = lookup_node [OF node sh s1 le c_def]
  have c: "c = count_le key (map fst xs)" "c - 1 < length xs" "u16 (nat (int (c - 1))) = c - 1"
      "u16 (nat (int (c - 1) + 1)) = c" "c \<le> length xs"
    using look sh by (auto simp: c_def comp_def u16_def nat_add_distrib)
  have nd: "node_is d BNODE_LEAF (map kv_ent xs)"
    using node by (simp add: node_of_def)
  have key: "get_key d (c - 1) = Inr (fst (xs ! (c - 1)))"
    using node_is_key [OF nd, of "c - 1"] c by simp
  have ok: "ent_ok (0, key, val)"
    using k v by (simp add: ent_ok_def)
  have M: "10 + kv_size (0, key, val) \<le> MAX_ENTRY"
    using ent_ok_size [OF ok] .
  note len = buffer2
  have fit': "node_size (map kv_ent xs) \<le> BTREE_PAGE_SIZE"
    using fit by (simp add: fits_def)
  show ?thesis
  proof (cases "fst (xs ! (c - 1)) = key")
    case True
    have upd: "kv_upd key val xs = xs[c - 1 := (key, val)]"
      using kv_present(1) [OF sorted c(1) look(2) True] .
    have ents: "map kv_ent (kv_upd key val xs) = (map kv_ent xs)[c - 1 := (0, key, val)]"
      by (simp add: upd map_update kv_ent_def)
    have "kvs_size ((map kv_ent xs)[c - 1 := (0, key, val)]) \<le> kvs_size (map kv_ent xs) + kv_size (0, key, val)"
      using c(2) by (subst (2) id_take_nth_drop [of "c - 1"]) (simp_all add: upd_conv_take_nth_drop)
    then have size: "node_size ((map kv_ent xs)[c - 1 := (0, key, val)]) \<le> BTREE_PAGE_SIZE + MAX_ENTRY"
      using fit' M by (simp add: node_size_def)
    obtain d' where d': "leaf_update (BNode (2 * BTREE_PAGE_SIZE)) d (c - 1) key val = Inr d'"
        "node_is d' BNODE_LEAF ((map kv_ent xs)[c - 1 := (0, key, val)])" "length d' = 2 * BTREE_PAGE_SIZE"
      using leaf_update_ok [OF nd, of "c - 1" key val "BNode (2 * BTREE_PAGE_SIZE)"] c(2) ok size len
      by (auto simp: builds_def)
    have "first_key (Leaf (kv_upd key val xs)) = first_key (Leaf xs)"
      using upd True c(2) by (cases xs; cases "c - 1") (simp_all add: first_key_def)
    moreover have "tree_insert pm fuel s d key val = Inr (d', s)"
      using look key c(3) True d'(1) fuel node_is_btype [OF nd]
      by (simp add: tree_insert.simps)
    ultimately show ?thesis
      using d'(2,3) ents size upd sh by (simp add: node_of_def)
  next
    case False
    have upd: "kv_upd key val xs = take c xs @ (key, val) # drop c xs"
      using kv_absent(1) [OF sorted c(1)] False by blast
    have ents: "map kv_ent (kv_upd key val xs) = take c (map kv_ent xs) @ (0, key, val) # drop c (map kv_ent xs)"
      by (simp add: upd kv_ent_def take_map drop_map)
    have "node_size (take c (map kv_ent xs) @ (0, key, val) # drop c (map kv_ent xs))
        = node_size (map kv_ent xs) + (10 + kv_size (0, key, val))"
      using c(5) kvs_size_take_drop [of c "map kv_ent xs"] by (simp add: node_size_def)
    then have size: "node_size (take c (map kv_ent xs) @ (0, key, val) # drop c (map kv_ent xs))
        \<le> BTREE_PAGE_SIZE + MAX_ENTRY"
      using fit' M by simp
    obtain d' where d': "leaf_insert (BNode (2 * BTREE_PAGE_SIZE)) d c key val = Inr d'"
        "node_is d' BNODE_LEAF (take c (map kv_ent xs) @ (0, key, val) # drop c (map kv_ent xs))"
        "length d' = 2 * BTREE_PAGE_SIZE"
      using leaf_insert_ok [OF nd, of c key val "BNode (2 * BTREE_PAGE_SIZE)"] c(5) ok size len
      by (auto simp: builds_def)
    have "first_key (Leaf (kv_upd key val xs)) = first_key (Leaf xs)"
      using upd look(2) sh by (cases xs; cases c) (simp_all add: first_key_def)
    moreover have "tree_insert pm fuel s d key val = Inr (d', s)"
      using look key c(3,4) False d'(1) fuel node_is_btype [OF nd]
      by (simp add: tree_insert.simps)
    ultimately show ?thesis
      using d'(2,3) ents size upd by (simp add: node_of_def)
  qed
qed

theorem tree_insert_ok:
  assumes "length key \<le> BTREE_MAX_KEY_SIZE" and "length val \<le> BTREE_MAX_VAL_SIZE"
  shows "shape h t \<Longrightarrow> h < fuel \<Longrightarrow> node_of d t \<Longrightarrow> stored (live s) t \<Longrightarrow> inv s \<Longrightarrow>
    distinct (pages t) \<Longrightarrow> 0 \<notin> set (pages t) \<Longrightarrow> sorted1 (kvs t) \<Longrightarrow> fits t \<Longrightarrow> first_key t \<le> key \<Longrightarrow>
    3 * h \<le> budget s \<Longrightarrow>
    \<exists>d' s' t'. tree_insert pm fuel s d key val = Inr (d', s') \<and> updated s s' t t' (3 * h)
      \<and> node_of d' t' \<and> length d' = 2 * BTREE_PAGE_SIZE \<and> shape h t'
      \<and> node_size (ents t') \<le> BTREE_PAGE_SIZE + MAX_ENTRY
      \<and> kvs t' = kv_upd key val (kvs t) \<and> first_key t' = first_key t"
proof (induction h arbitrary: t fuel d s)
  case 0
  then obtain xs where t: "t = Leaf xs"
    by (cases t) auto
  obtain d' where "tree_insert pm fuel s d key val = Inr (d', s)" "node_of d' (Leaf (kv_upd key val xs))"
      "length d' = 2 * BTREE_PAGE_SIZE" "shape 0 (Leaf (kv_upd key val xs))"
      "node_size (ents (Leaf (kv_upd key val xs))) \<le> BTREE_PAGE_SIZE + MAX_ENTRY"
      "first_key (Leaf (kv_upd key val xs)) = first_key (Leaf xs)"
    using leaf_insert_tree [of d xs key val fuel s] 0 assms unfolding t by auto
  with 0(5) t show ?case
    by (intro exI [of _ d'] exI [of _ s] exI [of _ "Leaf (kv_upd key val xs)"]) (simp add: updated_leaf)
next
  case (Suc h)
  obtain L p q u R d1 where D: "t = Node (L @ [(p, q, u)] @ R)"
      "node_lookup_le d key = Inr (int (length L))" "length L < 2 ^ 16"
      "node_is d BNODE_NODE (map kid_ent (L @ [(p, q, u)] @ R))"
      "get_ptr d (length L) = Inr p" "pm_get pm s p = Inr d1" "live s p = Some d1" "node_of d1 u"
      "shape h u" "fits u" "q = first_key u" "stored (live s) u" "distinct (p # pages u)"
      "0 \<notin> set (p # pages u)" "sorted1 (kvs u)" "first_key u \<le> key"
      "\<forall>x\<in>set (kvs (Node L)). fst x < key" "\<forall>x\<in>set (kvs (Node R)). key < fst x"
    by (rule descend [OF Suc.prems(5,1,3,4,8,10,6,7)]) blast
  have sub: "h < fuel - 1" "3 * h \<le> budget s" "distinct (pages u)" "0 \<notin> set (pages u)"
    using Suc.prems(2,11) D(13,14) by auto
  obtain d1' s1 u' where IH: "tree_insert pm (fuel - 1) s d1 key val = Inr (d1', s1)"
      "updated s s1 u u' (3 * h)" "node_of d1' u'" "shape h u'"
      "node_size (ents u') \<le> BTREE_PAGE_SIZE + MAX_ENTRY"
      "kvs u' = kv_upd key val (kvs u)" "first_key u' = first_key u"
    using Suc.IH [OF D(9) sub(1) D(8,12) Suc.prems(5) sub(3,4) D(15,10,16) sub(2)] by blast
  obtain ds ts where sp: "node_split_if_needed d1' = Inr ds" "kids_ready ds ts" "ts \<noteq> []" "length ts \<le> 2"
      "\<forall>t'\<in>set ts. shape h t' \<and> fits t' \<and> (\<forall>P. stored P u' \<longrightarrow> stored P t')"
      "concat (map kvs ts) = kvs u'" "concat (map pages ts) = pages u'" "first_key (hd ts) = first_key u'"
    using split_ready [OF IH(3-5)] by blast
  have "node_size (map kid_ent L @ key_ents ts @ map kid_ent R)
      \<le> node_size (map kid_ent L @ kid_ent (p, q, u) # map kid_ent R) + MAX_ENTRY"
    using D(11) IH(7) sp(8) by (intro key_ents_size [OF sp(2-4)]) simp
  then have size: "node_size (map kid_ent L @ key_ents ts @ map kid_ent R) \<le> BTREE_PAGE_SIZE + MAX_ENTRY"
    using Suc.prems(9) by (simp add: D(1) fits_def)
  have bud: "1 + length ts \<le> budget s1"
    using IH(2) sp(4) Suc.prems(11) by (auto simp: updated_def step_def)
  obtain s2 d' s3 t' where link: "pm_del pm s1 p = Inr s2"
      "node_replace_child_n pm s2 (BNode (2 * BTREE_PAGE_SIZE)) d (length L) ds = Inr (d', s3)"
      "updated s s3 t t' (3 * h + 1 + length ts)" "node_of d' t'" "length d' = 2 * BTREE_PAGE_SIZE"
      "shape (Suc h) t'" "kvs t' = kvs (Node L) @ kvs u' @ kvs (Node R)"
      "node_size (ents t') \<le> BTREE_PAGE_SIZE + MAX_ENTRY"
    using relink_ok [OF D(4) Suc.prems(4,6,7,1) [unfolded D(1)] IH(2) D(7) sp(2,3,5-7) bud,
        of "BNode (2 * BTREE_PAGE_SIZE)"] size buffer2 unfolding D(1) by auto
  have run: "tree_insert pm fuel s d key val = Inr (d', s3)"
    using D(2,3,5,6) IH(1) sp(1) link(1,2) Suc.prems(2) node_is_btype [OF D(4)] u16_nat
    by (simp add: tree_insert.simps [of pm fuel] node_insert.simps BNODE_NODE_def BNODE_LEAF_def)
  have up: "updated s s3 t t' (3 * Suc h)"
    using link(3) sp(4) by (auto simp: updated_def step_def)
  have kvs: "kvs t' = kv_upd key val (kvs t)"
    using kv_upd_mid [OF D(17,18), of val "kvs u"] unfolding link(7) IH(6) D(1) by simp
  have "first_key t' = first_key t"
    using kv_upd_hd [of "kvs t" key val] shape_kvs [OF link(6)] shape_kvs [OF Suc.prems(1)] Suc.prems(8,10) kvs
    by simp
  with run up link kvs show ?case
    by blast
qed

text \<open>The change of the root: its old page is released, a new top page is allocated.\<close>

lemma updated_new_page:
  assumes up: "updated s s1 X Y n" and new: "step s1 s2 1 {} {p}" "page_of (live s2 p) Y" "p \<noteq> 0"
  shows "updated s s2 X (Node [(p, q, Y)]) (n + 1)"
proof -
  note up' = up [unfolded updated_def]
  have p: "p \<notin> set (pages Y)"
    using step_fresh [OF new(1), of p] stored_dom [of "live s1" Y] up' by (auto simp: domIff)
  have "live s2 r = live s1 r" if "r \<in> set (pages Y)" for r
    using step_same [OF new(1), of r] that p by auto
  then have "stored (live s2) Y"
    using up' by (intro stored_frame [of "live s1" Y "live s2"]) auto
  moreover have "step s s2 (n + 1) (set (pages X) \<union> ({} - set (pages Y))) (set (pages Y) - {} \<union> {p})"
    by (rule step_trans [OF up' [THEN conjunct1] new(1)])
  ultimately show ?thesis
    using up' new p by (simp add: updated_def)
qed

lemma root_moved:
  assumes up: "updated s s' (Node [(root, q, t)]) (Node [(r, q', t')]) n"
    and dom: "dom (live s) = set (root # pages t)" and t': "tree_inv t'" and sh: "shape h t'"
  shows "inv s' \<and> budget s \<le> budget s' + n \<and> btree (live s') r (tree_map t') \<and> tall (live s') r h"
proof -
  note up' = up [unfolded updated_def]
  have "dom (live s') = set (r # pages t')"
    using moves_dom [of "live s" "live s'"] up' dom by (auto simp: step_def)
  moreover have "tree_at (live s') r t'"
    using up' t' by (auto simp: tree_at_def)
  ultimately show ?thesis
    using up' tall_tree [OF _ sh] by (auto simp: btree_def step_def)
qed

lemma link_root_eq:
  "i + length ds \<le> 2 ^ 16 \<Longrightarrow> link_root pm s new i ds = link_children pm s new 0 i ds"
proof (induction ds arbitrary: s new i)
  case (Cons d ds)
  then have "u16 i = i" "Suc i + length ds \<le> 2 ^ 16"
    by (simp_all add: u16_def)
  with Cons.IH show ?case
    by (simp cong: rbind_cong)
qed simp

lemma insert_empty_ok:
  assumes "inv s" and "dom (live s) = {}" and key: "valid_key key" and val: "length val \<le> BTREE_MAX_VAL_SIZE"
    and bud: "0 < budget s"
  shows "\<exists>root' s'. BTree_insert pm 0 s key val = Inr (root', s') \<and> inv s' \<and> budget s \<le> budget s' + 1
    \<and> btree (live s') root' [key \<mapsto> val] \<and> tall (live s') root' 0"
proof -
  let ?t = "Leaf [([], []), (key, val)]"
  have lens: "length (BNode BTREE_PAGE_SIZE) = 4096" "length key \<le> 1000" "length val \<le> 1000" "key \<noteq> []"
    using key val by (simp_all add: BNode_def BTREE_PAGE_SIZE_def valid_key_def BTREE_MAX_KEY_SIZE_def
        BTREE_MAX_VAL_SIZE_def)
  obtain d1 where d1: "set_header (BNode BTREE_PAGE_SIZE) BNODE_LEAF 2 = Inr d1"
      "node_building d1 BNODE_LEAF 2 []" "length d1 = 4096"
    using building_init [of 2 "BNode BTREE_PAGE_SIZE" BNODE_LEAF] lens by (auto simp: BNODE_LEAF_def)
  obtain d2 where d2: "node_append_kv d1 0 0 [] [] = Inr d2" "node_building d2 BNODE_LEAF 2 [(0, [], [])]"
      "length d2 = 4096"
    using building_append [OF d1(2), of 0 "[]" "[]"] d1(3) by (auto simp: ent_ok_def kv_size_def)
  obtain d3 where d3: "node_append_kv d2 1 0 key val = Inr d3"
      "node_building d3 BNODE_LEAF 2 [(0, [], []), (0, key, val)]"
    using building_append [OF d2(2), of 0 key val] d2(3) lens
    by (auto simp: ent_ok_def kv_size_def BTREE_MAX_KEY_SIZE_def BTREE_MAX_VAL_SIZE_def)
  have node: "node_of d3 ?t"
    using d3(2) by (simp add: node_of_def node_is_def kv_ent_def numeral_2_eq_2)
  have fit: "fits ?t"
    using lens by (simp add: fits_def node_size_def kv_ent_def kv_size_def BTREE_PAGE_SIZE_def)
  obtain p s' where new: "pm_new_page pm s d3 = Inr (p, s')" "step s s' 1 {} {p}" "p \<noteq> 0"
      "page_of (live s' p) ?t"
    using new_page_step [OF assms(1) bud node fit] by auto
  have sorted: "sorted1 (kvs ?t)"
    using lens by (cases key) auto
  have inv: "tree_inv ?t"
    unfolding tree_inv_def using fit sorted by (auto simp: first_key_def intro!: exI [of _ 0])
  have "dom (live s') = {p}"
    using moves_dom [of "live s" "live s'" "{}" "{p}"] new(2) assms(2) by (simp add: step_def)
  then have "btree (live s') p (tree_map ?t)"
    using new inv by (auto simp: btree_def tree_at_def)
  moreover have "tall (live s') p 0"
    using new inv by (intro tall_tree [of _ _ ?t]) (simp_all add: tree_at_def)
  moreover have "tree_map ?t = [key \<mapsto> val]"
    using lens by (auto simp: tree_map_def)
  moreover have "BTree_insert pm 0 s key val = Inr (p, s')"
    using d1(1) d2(1) d3(1) new(1) key val
    by (simp add: BTree_insert_def check_limit_def check_key_limit_iff [THEN iffD2])
  ultimately show ?thesis
    using new(2) by (auto simp: step_def)
qed

text \<open>After a split the new root links the halves; otherwise the rewritten top node is the root.\<close>

lemma root_of_split:
  assumes up: "updated s s1 t t1 n" and root: "live s root = Some d" "root \<notin> set (pages t)"
    and dom: "dom (live s) = set (root # pages t)"
    and ts: "kids_ready ds ts" "ts \<noteq> []" "length ts \<le> 2"
      "\<forall>t\<in>set ts. shape h t \<and> fits t \<and> (\<forall>P. stored P t1 \<longrightarrow> stored P t)"
      "concat (map kvs ts) = kvs t1" "concat (map pages ts) = pages t1" "first_key (hd ts) = []"
    and sorted: "sorted1 (kvs t1)" and bud: "4 \<le> budget s1"
  shows "\<exists>s2 r s'. pm_del pm s1 root = Inr s2 \<and> (if length ds > 1 then
         rbind (set_header (BNode BTREE_PAGE_SIZE) BNODE_NODE (u16 (length ds))) (\<lambda>new_root.
         rbind (link_root pm s2 new_root 0 ds) (\<lambda>(new_root, s).
         pm_new_page pm s new_root))
       else pm_new_page pm s2 (hd ds)) = Inr (r, s')
    \<and> inv s' \<and> budget s \<le> budget s' + (n + 4) \<and> btree (live s') r ((map_of (kvs t1))([] := None))
    \<and> tall (live s') r (Suc h)"
proof -
  have st1: "inv s1" "step s s1 n (set (pages t)) (set (pages t1))"
    using up by (simp_all add: updated_def step_def)
  have "root \<notin> set (pages t1)"
    using step_fresh [OF st1(2)] root by fastforce
  then have "live s1 root = Some d"
    using step_same [OF st1(2)] root by simp
  then obtain s2 where del: "pm_del pm s1 root = Inr s2" "step s1 s2 1 {root} {}"
    using del_page_step [of s1 root d] st1(1) bud by auto
  have bud2: "inv s2" "3 \<le> budget s2" "length ts \<le> budget s2"
    using step_inv [OF del(2)] step_budget [OF del(2)] bud ts(3) by auto
  have lds: "length ds = length ts"
    using ts(1) by (auto simp: kids_ready_def dest: list_all2_lengthD)
  have ts4: "\<forall>t\<in>set ts. \<forall>P. stored P t1 \<longrightarrow> stored P t"
    using ts(4) by simp
  have p: "live s root \<noteq> None"
    using root by simp
  note relink = relink_updated [OF up del(2) _ p root(2) _ ts(2,6) ts4, where q = "[]"]
  show ?thesis
  proof (cases "length ts = 1")
    case True
    then obtain t' d' where one: "ts = [t']" "ds = [d']" "node_of d' t'" "fits t'" "ents t' \<noteq> []"
      using ts(1) by (cases ts) (auto simp: kids_ready_def list_all2_Cons2)
    obtain r s' where new: "pm_new_page pm s2 d' = Inr (r, s')" "step s2 s' 1 {} {r}" "r \<noteq> 0"
        "page_of (live s' r) t'"
      using new_page_step [OF bud2(1) _ one(3-5)] bud2(2) by auto
    have "linked (live s') [r] ts"
      using new one by (simp add: linked_def)
    with new(2) have "updated s s' (Node [(root, [], t)]) (Node [(r, first_key t', t')]) (n + 1 + 1)"
      using relink [of s' 1 "[r]"] one(1) by simp
    moreover have "tree_inv t'"
      using one ts sorted unfolding tree_inv_def by auto
    ultimately have "inv s' \<and> budget s \<le> budget s' + (n + 1 + 1) \<and> btree (live s') r (tree_map t') \<and> tall (live s') r h"
      using one(1) ts(4) by (intro root_moved [OF _ dom]) simp_all
    then show ?thesis
      using del(1) new(1) one ts(5) tall_mono [of "live s'" r h "Suc h"] by (auto simp: tree_map_def)
  next
    case False
    then have two: "length ts = 2"
      using ts(2,3) by (cases ts rule: remdups_adj.cases) auto
    have lens: "length (BNode BTREE_PAGE_SIZE) = BTREE_PAGE_SIZE" "BTREE_PAGE_SIZE = 4096"
        "(2 :: nat) < 2 ^ 16" "(24 :: nat) \<le> 4096" "(4096 :: nat) < 2 ^ 16" "BNODE_NODE < 2 ^ 16"
      by (simp_all add: BNode_def BTREE_PAGE_SIZE_def BNODE_NODE_def)
    obtain d1 where d1: "set_header (BNode BTREE_PAGE_SIZE) BNODE_NODE 2 = Inr d1"
        "node_building d1 BNODE_NODE 2 []" "length d1 = BTREE_PAGE_SIZE"
      using building_init [of 2 "BNode BTREE_PAGE_SIZE" BNODE_NODE] lens by auto
    have "node_size ([] @ key_ents ts @ []) \<le> node_size ([] @ kid_ent (0, first_key (hd ts), t) # []) + MAX_ENTRY"
      by (rule key_ents_size [OF ts(1-3)]) simp
    then have size: "node_size (key_ents ts) \<le> BTREE_PAGE_SIZE"
      by (simp add: ts(7) node_size_def kv_size_def MAX_ENTRY_def BTREE_MAX_KEY_SIZE_def
          BTREE_MAX_VAL_SIZE_def BTREE_PAGE_SIZE_def)
    have lk: "length (key_ents ts) = 2"
      using two by (simp add: key_ents_def)
    obtain d2 s3 ps where link: "link_children pm s2 d1 0 0 ds = Inr (d2, s3)" "linked (live s3) ps ts"
        "step s2 s3 (length ts) {} (set ps)" "node_building d2 BNODE_NODE 2 (map kid_ent (new_kids ps ts))"
        "length d2 = length d1"
      using link_children_ok [OF ts(1) bud2(1,3) d1(2), of 0 0] two size d1(3) lk
      by (auto simp: node_size_def)
    have lps: "length ps = length ts"
      using link(2) by (rule linked_length)
    let ?T = "Node (new_kids ps ts)"
    have node: "node_of d2 ?T"
      using link(4) lps two by (simp add: node_of_def node_is_def)
    have "node_size (ents ?T) = node_size (key_ents ts)"
      using snd_new_kids [OF lps] by (intro node_size_cong) simp
    then have fit: "fits ?T"
      using size by (simp add: fits_def)
    have sh: "shape (Suc h) ?T"
      using shape_new_kids [of h "[]" "[(0, first_key (hd ts), hd ts)]" "[]", OF _ lps ts(2)] ts(2,4) by simp
    then have ne: "ents ?T \<noteq> []"
      using shape_kvs by blast
    have bud3: "inv s3" "0 < budget s3"
      using step_inv [OF link(3)] step_budget [OF link(3)] bud2 two by auto
    obtain r s' where new: "pm_new_page pm s3 d2 = Inr (r, s')" "step s3 s' 1 {} {r}" "r \<noteq> 0"
        "page_of (live s' r) ?T"
      using new_page_step [OF bud3 node fit ne] by auto
    have "updated s s3 (Node [(root, [], t)]) ?T (n + 1 + 2)"
      using relink [OF link(3,2)] two by simp
    then have "updated s s' (Node [(root, [], t)]) (Node [(r, [], ?T)]) (n + 1 + 2 + 1)"
      by (rule updated_new_page [OF _ new(2,4,3)])
    moreover have kvs: "kvs ?T = kvs t1"
      using new_kids_tree(1) [OF lps] ts(5) by simp
    moreover have "first_key ?T = []"
      using ts(2,7) lps by (cases ts; cases ps) (simp_all add: first_key_def)
    then have "tree_inv ?T"
      using sh fit sorted kvs unfolding tree_inv_def by metis
    ultimately have "inv s' \<and> budget s \<le> budget s' + (n + 1 + 2 + 1) \<and> btree (live s') r (tree_map ?T)
        \<and> tall (live s') r (Suc h)"
      by (intro root_moved [OF _ dom _ sh])
    then show ?thesis
      using del(1) new(1) kvs lds two d1(1) link(1) link_root_eq [of 0 ds]
      by (auto simp: tree_map_def u16_def)
  qed
qed

definition cost :: "'s \<Rightarrow> nat" where
  "cost s = 3 * card (dom (live s)) + 4"

text \<open>An insertion costs three page operations for each level and four at the root, where it may add a level.\<close>

theorem BTree_insert_tall:
  assumes inv: "inv s" and tree: "btree (live s) root m" and key: "valid_key key"
    and val: "length val \<le> BTREE_MAX_VAL_SIZE" and tall: "tall (live s) root k" and bud: "3 * k + 4 \<le> budget s"
  shows "\<exists>root' s'. BTree_insert pm root s key val = Inr (root', s') \<and> inv s'
    \<and> budget s \<le> budget s' + (3 * k + 4) \<and> btree (live s') root' (m(key \<mapsto> val)) \<and> tall (live s') root' (Suc k)"
proof (cases "root = 0")
  case True
  then have "m = Map.empty" "dom (live s) = {}"
    using tree by (auto simp: btree_def tree_at_def)
  moreover have "0 < budget s"
    using bud by simp
  ultimately obtain root' s' where "BTree_insert pm 0 s key val = Inr (root', s')" "inv s'"
      "budget s \<le> budget s' + 1" "btree (live s') root' [key \<mapsto> val]" "tall (live s') root' 0"
    using insert_empty_ok [OF inv _ key val] by blast
  then show ?thesis
    using True \<open>m = Map.empty\<close> tall_mono [of "live s'" root' 0 "Suc k"]
    by (intro exI [of _ root'] exI [of _ s']) simp
next
  case False
  then obtain t where t: "tree_at (live s) root t" "m = tree_map t" "dom (live s) = set (root # pages t)"
    using tree by (auto simp: btree_def)
  then obtain d where h': "fits t" "sorted1 (kvs t)" "first_key t = []"
    and d: "live s root = Some d" "node_of d t" "stored (live s) t" "distinct (root # pages t)"
      "0 \<notin> set (pages t)"
    by (auto simp: tree_at_def tree_inv_def page_of_def)
  obtain h where h: "shape h t" "fits t" "sorted1 (kvs t)" "first_key t = []" and hk: "h \<le> k"
    using tall_shape [OF tall t(1)] h' by blast
  have h3: "3 * h + 4 \<le> 3 * k + 4"
    using hk by simp
  have fuel: "h < TREE_FUEL"
    using shape_height_bound [OF h(1) d(4)] by (simp add: TREE_FUEL_def)
  have k: "length key \<le> BTREE_MAX_KEY_SIZE" "key \<noteq> []"
    using key by (simp_all add: valid_key_def)
  have pre: "distinct (pages t)" "first_key t \<le> key" "3 * h \<le> budget s" "root \<notin> set (pages t)"
    using d(4) h(4) h3 bud by simp_all
  obtain d' s1 t1 where ins: "tree_insert pm TREE_FUEL s d key val = Inr (d', s1)"
      "updated s s1 t t1 (3 * h)" "node_of d' t1" "shape h t1"
      "node_size (ents t1) \<le> BTREE_PAGE_SIZE + MAX_ENTRY" "kvs t1 = kv_upd key val (kvs t)"
      "first_key t1 = first_key t"
    using tree_insert_ok [OF k(1) val h(1) fuel d(2,3) inv pre(1) d(5) h(3,2) pre(2,3)] by blast
  obtain ds ts where sp: "node_split_if_needed d' = Inr ds" "kids_ready ds ts" "ts \<noteq> []" "length ts \<le> 2"
      "\<forall>t'\<in>set ts. shape h t' \<and> fits t' \<and> (\<forall>P. stored P t1 \<longrightarrow> stored P t')"
      "concat (map kvs ts) = kvs t1" "concat (map pages ts) = pages t1" "first_key (hd ts) = []"
    using split_ready [OF ins(3-5)] ins(7) h(4) by auto
  have "sorted1 (kvs t1)"
    unfolding ins(6) by (rule sorted1_upd [OF h(3)])
  moreover have "4 \<le> budget s1"
    using ins(2) h3 bud by (simp add: updated_def step_def)
  ultimately obtain s2 r s' where fin: "pm_del pm s1 root = Inr s2" "(if length ds > 1 then
         rbind (set_header (BNode BTREE_PAGE_SIZE) BNODE_NODE (u16 (length ds))) (\<lambda>new_root.
         rbind (link_root pm s2 new_root 0 ds) (\<lambda>(new_root, s).
         pm_new_page pm s new_root))
       else pm_new_page pm s2 (hd ds)) = Inr (r, s')"
      "inv s'" "budget s \<le> budget s' + (3 * h + 4)" "btree (live s') r ((map_of (kvs t1))([] := None))"
      "tall (live s') r (Suc h)"
    using root_of_split [OF ins(2) d(1) pre(4) t(3) sp(2-8)] by blast
  have "BTree_insert pm root s key val = Inr (r, s')"
    using False key val get_live [OF inv d(1)] ins(1) sp(1) fin(1,2)
    by (simp add: BTree_insert_def check_limit_def check_key_limit_iff [THEN iffD2])
  moreover have "(map_of (kvs t1))([] := None) = m(key \<mapsto> val)"
    using k(2) by (auto simp: ins(6) map_of_kv_upd t(2) tree_map_def)
  ultimately show ?thesis
    using fin(3-5) h3 tall_mono [OF fin(6), of "Suc k"] hk by (intro exI [of _ r] exI [of _ s']) auto
qed

text \<open>Whatever its height, three page operations for each page of the tree are enough.\<close>

corollary BTree_insert_ok:
  assumes "inv s" and "btree (live s) root m" and "valid_key key"
    and "length val \<le> BTREE_MAX_VAL_SIZE" and "cost s \<le> budget s"
  shows "\<exists>root' s'. BTree_insert pm root s key val = Inr (root', s') \<and> inv s'
    \<and> budget s \<le> budget s' + cost s \<and> btree (live s') root' (m(key \<mapsto> val))"
  using BTree_insert_tall [OF assms(1-4) tall_pages [OF assms(2)]] assms(5) unfolding cost_def by blast

end

end
