(* ===== verification/BTree_Delete.thy ===== *)
theory BTree_Delete
  imports BTree_Insert
begin

text \<open>
  Deletion from the B+tree. An internal node is rebuilt in one page, so a deletion needs room where a
  separator is replaced by a longer one: \<open>slack\<close> states that room, and \<open>key_growth\<close> how much of it a
  key needs. Under it deletion implements removal from the represented map, merges included.
\<close>

section \<open>Empty nodes and joined nodes\<close>

text \<open>A deletion may leave a node below the root without entries; its parent then drops it.\<close>

fun hollow :: "nat \<Rightarrow> tree \<Rightarrow> bool" where
  "hollow 0 (Leaf xs) = (xs = [])"
| "hollow (Suc h) (Node cs) = (cs = [])"
| "hollow _ _ = False"

fun tjoin :: "tree \<Rightarrow> tree \<Rightarrow> tree" where
  "tjoin (Leaf xs) (Leaf ys) = Leaf (xs @ ys)"
| "tjoin (Node xs) (Node ys) = Node (xs @ ys)"
| "tjoin a b = a"

definition weak_shape :: "nat \<Rightarrow> tree \<Rightarrow> bool" where
  "weak_shape h t \<longleftrightarrow> shape h t \<or> hollow h t"

lemma hollow_empty: "hollow h t \<Longrightarrow> ents t = [] \<and> kvs t = [] \<and> pages t = []"
  by (induction h t rule: hollow.induct) auto

lemma weak_shape_0: "weak_shape 0 t \<longleftrightarrow> (\<exists>xs. t = Leaf xs)"
  by (cases t) (auto simp: weak_shape_def)

lemma weak_shape_Suc: "weak_shape (Suc h) t \<longleftrightarrow> (\<exists>cs. t = Node cs \<and>
    (\<forall>x\<in>set cs. shape h (kid x) \<and> fits (kid x) \<and> kid_key x = first_key (kid x)))"
  by (cases t) (auto simp: weak_shape_def)

lemma weak_shape_iff: "weak_shape h t \<Longrightarrow> ents t \<noteq> [] \<longleftrightarrow> shape h t"
  using shape_kvs hollow_empty by (auto simp: weak_shape_def)

lemma weak_shape_kvs: "weak_shape h t \<Longrightarrow> ents t = [] \<longleftrightarrow> kvs t = []"
  using shape_kvs hollow_empty by (auto simp: weak_shape_def)

lemma tjoin_ok:
  assumes "weak_shape h a" and "weak_shape h b"
  shows "ents (tjoin a b) = ents a @ ents b" and "kvs (tjoin a b) = kvs a @ kvs b"
    and "pages (tjoin a b) = pages a @ pages b" and "ntype (tjoin a b) = ntype a"
    and "stored P (tjoin a b) \<longleftrightarrow> stored P a \<and> stored P b" and "weak_shape h (tjoin a b)"
    and "ntype b = ntype a"
  using assms by (cases h; auto simp: weak_shape_0 weak_shape_Suc)+

section \<open>The room a deletion needs\<close>

definition key_growth :: "bytes \<Rightarrow> kv list \<Rightarrow> nat" where
  "key_growth key xs = (case filter (\<lambda>x. key < fst x) xs of [] \<Rightarrow> 0 | x # _ \<Rightarrow> length (fst x) - length key)"

fun slack :: "nat \<Rightarrow> tree \<Rightarrow> bool" where
  "slack g (Leaf xs) = True"
| "slack g (Node cs) = (node_size (map kid_ent cs) + g \<le> BTREE_PAGE_SIZE \<and> (\<forall>x\<in>set cs. slack g (kid x)))"

lemma slack_0: "shape h t \<Longrightarrow> fits t \<Longrightarrow> slack 0 t"
  by (induction h t rule: shape.induct) (auto simp: fits_def)

definition roomy :: "(u64 \<rightharpoonup> bytes) \<Rightarrow> u64 \<Rightarrow> bytes \<Rightarrow> bool" where
  "roomy P root key \<longleftrightarrow> (\<forall>t. tree_at P root t \<longrightarrow> slack (key_growth key (kvs t)) t)"

text \<open>A deletion whose successor key is not longer needs no room.\<close>

definition short_successor :: "bytes \<Rightarrow> (bytes \<rightharpoonup> bytes) \<Rightarrow> bool" where
  "short_successor key m \<longleftrightarrow> (\<forall>k\<in>dom m. key < k \<and> (\<forall>k'\<in>dom m. key < k' \<longrightarrow> k \<le> k') \<longrightarrow> length k \<le> length key)"

lemma key_growth_short:
  assumes "sorted1 xs" and "short_successor key ((map_of xs)([] := None))"
  shows "key_growth key xs = 0"
proof (cases "filter (\<lambda>x. key < fst x) xs")
  case (Cons y ys)
  then have y: "y \<in> set xs" "key < fst y"
    by (auto dest: filter_eq_ConsD)
  have "sorted1 (filter (\<lambda>x. key < fst x) xs)"
    using assms(1) by (rule sorted_wrt_filter_map)
  then have min: "fst y \<le> fst z" if "z \<in> set xs" "key < fst z" for z
  proof -
    have "z \<in> set (filter (\<lambda>x. key < fst x) xs)"
      using that by simp
    with sorted1_hd [OF \<open>sorted1 (filter (\<lambda>x. key < fst x) xs)\<close>] have "fst (hd (y # ys)) \<le> fst z"
      unfolding Cons by blast
    then show ?thesis
      by simp
  qed
  have dom: "dom ((map_of xs)([] := None)) = fst ` set xs - {[]}"
    by (auto simp: dom_map_of_conv_image_fst)
  have "fst y \<noteq> []"
    using y(2) Nil_le_bytes [of key] by auto
  then have "fst y \<in> dom ((map_of xs)([] := None))"
    using y(1) unfolding dom by auto
  moreover have "fst y \<le> k'" if "k' \<in> dom ((map_of xs)([] := None))" "key < k'" for k'
    using that min unfolding dom by auto
  ultimately have "length (fst y) \<le> length key"
    using assms(2) y(2) unfolding short_successor_def by blast
  with Cons show ?thesis
    by (simp add: key_growth_def)
qed (simp add: key_growth_def)

lemma key_growth_mid:
  assumes "\<forall>x\<in>set A. fst x < key"
  shows "key_growth key xs \<le> key_growth key (A @ xs @ C)"
proof -
  have "filter (\<lambda>x. key < fst x) A = []"
    using assms by (auto simp: filter_empty_conv)
  then show ?thesis
    by (auto simp: key_growth_def split: list.splits)
qed

lemma kv_del_first:
  assumes "sorted1 xs" and "fst (hd xs) \<le> key" and "kv_del key xs \<noteq> []"
  shows "length (fst (hd (kv_del key xs))) \<le> length (fst (hd xs)) + key_growth key xs"
proof (cases xs)
  case (Cons x ys)
  show ?thesis
  proof (cases "fst x = key")
    case True
    then have "\<forall>y\<in>set ys. key < fst y"
      using assms(1) Cons by auto
    then have "kv_del key xs = ys" "filter (\<lambda>x. key < fst x) xs = ys"
      using Cons True by (auto simp: kv_del_def intro!: filter_True)
    then show ?thesis
      using True Cons assms(3) by (cases ys) (auto simp: key_growth_def)
  qed (simp add: Cons kv_del_def)
qed (use assms in \<open>simp add: kv_del_def\<close>)

lemma kv_del_hd:
  assumes "sorted1 xs" and "fst (hd xs) < key" and "xs \<noteq> []"
  shows "kv_del key xs \<noteq> [] \<and> fst (hd (kv_del key xs)) = fst (hd xs)"
  using assms by (cases xs) (auto simp: kv_del_def)

lemma short_successor_roomy:
  assumes "btree P root m" and "short_successor key m"
  shows "roomy P root key"
  unfolding roomy_def
proof (intro allI impI)
  fix t
  assume t: "tree_at P root t"
  then have "m = tree_map t"
    using assms(1) t tree_at_unique [OF t] unfolding btree_def by (auto simp: tree_at_def)
  moreover obtain h where "shape h t" "fits t" "sorted1 (kvs t)"
    using t by (auto simp: tree_at_def tree_inv_def)
  ultimately show "slack (key_growth key (kvs t)) t"
    using key_growth_short [of "kvs t" key] slack_0 [of h t] assms(2) by (simp add: tree_map_def)
qed

section \<open>Choosing a sibling to merge with\<close>

context page_view
begin

lemma merged_size_ok:
  assumes "node_size es \<le> BTREE_PAGE_SIZE" and "node_size fs \<le> BTREE_PAGE_SIZE"
  shows "merged_size (node_size es) (node_size fs) = node_size (es @ fs)"
proof -
  have "int (node_size es) + int (node_size fs) - int ptrs_offset = int (node_size (es @ fs))"
    by (simp add: node_size_def ptrs_offset_def)
  moreover have "node_size (es @ fs) < 2 ^ 32"
    using assms by (simp add: node_size_def BTREE_PAGE_SIZE_def)
  ultimately show ?thesis
    by (simp add: merged_size_def)
qed

lemma should_merge_ok:
  assumes inv: "inv s" and node: "node_is d BNODE_NODE (map kid_ent (L @ [(p, q, u)] @ R))"
    and upd: "node_of d1 u'" "fits u'"
    and sib: "\<forall>x\<in>set L \<union> set R. page_of (live s (kid_ptr x)) (kid x) \<and> fits (kid x)"
  shows "\<exists>dir sib. should_merge pm s d (length L) d1 = Inr (dir, sib) \<and> (case dir of
      MergeLeft \<Rightarrow> \<exists>L0 x. L = L0 @ [x] \<and> node_of sib (kid x) \<and> node_size (ents (kid x) @ ents u') \<le> BTREE_PAGE_SIZE
    | MergeRight \<Rightarrow> \<exists>x R0. R = x # R0 \<and> node_of sib (kid x) \<and> node_size (ents u' @ ents (kid x)) \<le> BTREE_PAGE_SIZE
    | MergeNone \<Rightarrow> ents u' = [] \<longrightarrow> L = [] \<and> R = [])"
proof -
  let ?cs = "L @ [(p, q, u)] @ R"
  have ub: "nbytes d1 = Inr (node_size (ents u'))" and fu: "node_size (ents u') \<le> BTREE_PAGE_SIZE"
    using upd node_is_nbytes by (auto simp: node_of_def fits_def)
  have probe: "\<exists>sib. node_of sib (kid x) \<and>
      rbind (get_ptr d j) (\<lambda>p. rbind (pm_get pm s p) (\<lambda>sibling. rbind (nbytes sibling) (\<lambda>sb.
        Inr (if merged_size sb (node_size (ents u')) \<le> BTREE_PAGE_SIZE then Some sibling else None))))
      = Inr (if node_size (ents (kid x) @ ents u') \<le> BTREE_PAGE_SIZE then Some sib else None)"
    if "x \<in> set L \<union> set R" "j < length ?cs" "?cs ! j = x" for x j
  proof -
    note mem = that
    obtain dx where dx: "live s (kid_ptr x) = Some dx" "node_of dx (kid x)" "node_size (ents (kid x)) \<le> BTREE_PAGE_SIZE"
      using bspec [OF sib mem(1)] by (auto simp: page_of_def fits_def)
    have "map kid_ent ?cs ! j = kid_ent x"
      by (simp only: nth_map mem(2,3))
    moreover have "j < length (map kid_ent ?cs)"
      unfolding length_map by (rule mem(2))
    ultimately have "get_ptr d j = Inr (kid_ptr x)"
      using node_is_ptr [OF node, of j] by (simp only: ent_key_simps)
    then show ?thesis
      using dx(2) get_live [OF inv dx(1)] node_is_nbytes [OF dx(2) [unfolded node_of_def]]
        merged_size_ok [OF dx(3) fu] by (intro exI [of _ dx]) simp
  qed
  have join_fits: "node_size (ents (kid x) @ ents u') \<le> BTREE_PAGE_SIZE" if "ents u' = []" "x \<in> set L \<union> set R" for x
    using that(1) bspec [OF sib that(2)] by (simp add: fits_def)
  show ?thesis
  proof (cases "BTREE_PAGE_SIZE div 4 < node_size (ents u')")
    case True
    then have "ents u' \<noteq> []"
      by (auto simp: node_size_def BTREE_PAGE_SIZE_def)
    then show ?thesis
      using True ub by (simp add: should_merge_def)
  next
    case False
    obtain left where left: "rbind (if length L > 0 then
          rbind (get_ptr d (length L - 1)) (\<lambda>p. rbind (pm_get pm s p) (\<lambda>sibling. rbind (nbytes sibling) (\<lambda>sb.
          Inr (if merged_size sb (node_size (ents u')) \<le> BTREE_PAGE_SIZE then Some sibling else None))))
        else Inr None) F = F left"
      "case left of Some sb \<Rightarrow> \<exists>L0 x. L = L0 @ [x] \<and> node_of sb (kid x) \<and> node_size (ents (kid x) @ ents u') \<le> BTREE_PAGE_SIZE
       | None \<Rightarrow> ents u' = [] \<longrightarrow> L = []" for F :: "bnode option \<Rightarrow> (MergeDirection \<times> bnode) res"
    proof (cases L rule: rev_cases)
      case (snoc L0 x)
      with probe [of x "length L - 1"] join_fits [of x] that show ?thesis
        by (fastforce simp: nth_append split: if_splits)
    qed (use that [of None] in simp)
    obtain right where right: "rbind (if length L + 1 < length (map kid_ent ?cs) then
          rbind (get_ptr d (length L + 1)) (\<lambda>p. rbind (pm_get pm s p) (\<lambda>sibling. rbind (nbytes sibling) (\<lambda>sb.
          Inr (if merged_size sb (node_size (ents u')) \<le> BTREE_PAGE_SIZE then Some sibling else None))))
        else Inr None) F = F right"
      "case right of Some sb \<Rightarrow> \<exists>x R0. R = x # R0 \<and> node_of sb (kid x) \<and> node_size (ents u' @ ents (kid x)) \<le> BTREE_PAGE_SIZE
       | None \<Rightarrow> ents u' = [] \<longrightarrow> R = []" for F :: "bnode option \<Rightarrow> (MergeDirection \<times> bnode) res"
    proof (cases R)
      case (Cons x R0)
      have "node_size (ents (kid x) @ ents u') = node_size (ents u' @ ents (kid x))"
        by (simp add: node_size_def)
      with Cons probe [of x "length L + 1"] join_fits [of x] that show ?thesis
        by (fastforce simp: nth_append split: if_splits)
    qed (use that [of None] in simp)
    have "should_merge pm s d (length L) d1 = (case left of Some sb \<Rightarrow> Inr (MergeLeft, sb) | None \<Rightarrow>
        (case right of Some sb \<Rightarrow> Inr (MergeRight, sb) | None \<Rightarrow> Inr (MergeNone, BNode BTREE_PAGE_SIZE)))"
      using False
      by (simp only: should_merge_def ub rbind_simps if_False left(1) right(1) node_is_nkeys [OF node])
    then show ?thesis
      using left(2) right(2) by (cases left; cases right) auto
  qed
qed

end

section \<open>Merging a rewritten child with its sibling\<close>

context page_store
begin

lemma merge_updated:
  assumes up: "updated s s1 u u' n" and del: "step s1 s2 1 {p} {}" "step s2 s3 1 {p'} {}"
    and new: "step s3 s4 1 {} {r}" "page_of (live s4 r) T" "r \<noteq> 0"
    and w: "stored (live s) w" "live s p \<noteq> None" "live s p' \<noteq> None" "distinct (p # p' # pages u @ pages w)"
      "0 \<notin> set (pages w)"
    and T: "set (pages T) = set (pages w) \<union> set (pages u')" "\<And>P. stored P w \<Longrightarrow> stored P u' \<Longrightarrow> stored P T"
      "distinct (pages w) \<Longrightarrow> distinct (pages u') \<Longrightarrow> set (pages w) \<inter> set (pages u') = {} \<Longrightarrow> distinct (pages T)"
    and X: "set (pages (Node X)) = {p, p'} \<union> set (pages u) \<union> set (pages w)"
  shows "updated s s4 (Node X) (Node [(r, k, T)]) (n + 3)"
proof -
  note up' = up [unfolded updated_def]
  note st = up' [THEN conjunct1]
  have out: "p \<notin> set (pages u')" "p' \<notin> set (pages u')"
    using step_fresh [OF st, of p] step_fresh [OF st, of p'] w by auto
  have "step s s4 (n + 1 + 1 + 1) (set (pages u) \<union> ({p} - set (pages u')) \<union> ({p'} - (set (pages u') - {p} \<union> {}))
      \<union> ({} - ((set (pages u') - {p} \<union> {}) - {p'} \<union> {})))
      ((((set (pages u') - {p} \<union> {}) - {p'} \<union> {}) - {}) \<union> {r})"
    by (rule step_trans [OF step_trans [OF step_trans [OF st del(1)] del(2)] new(1)])
  moreover have "set (pages u) \<union> ({p} - set (pages u')) \<union> ({p'} - (set (pages u') - {p} \<union> {}))
      \<union> ({} - ((set (pages u') - {p} \<union> {}) - {p'} \<union> {})) = {p, p'} \<union> set (pages u)"
    using out by blast
  moreover have "(((set (pages u') - {p} \<union> {}) - {p'} \<union> {}) - {}) \<union> {r} = insert r (set (pages u'))"
    using out by blast
  ultimately have all: "step s s4 (n + 3) ({p, p'} \<union> set (pages u)) (insert r (set (pages u')))"
    by (simp add: numeral_3_eq_3)
  have m: "moves (live s) (live s4) ({p, p'} \<union> set (pages u)) (insert r (set (pages u')))"
    using all by (simp add: step_def)
  have "set (pages w) \<subseteq> dom (live s)" "set (pages w) \<inter> ({p, p'} \<union> set (pages u)) = {}"
    using stored_dom [OF w(1)] w(4) by auto
  note fr = moves_frame [OF m this]
  have r_u: "r \<notin> set (pages u')"
  proof
    assume r: "r \<in> set (pages u')"
    then have "live s3 r = live s1 r"
      using step_same [OF del(1), of r] step_same [OF del(2), of r] out by (cases "r = p"; cases "r = p'") simp_all
    moreover have "live s3 r = None"
      using step_fresh [OF new(1), of r] by simp
    ultimately show False
      using r stored_dom [of "live s1" u'] up' by (auto simp: domIff)
  qed
  have "live s4 q = live s1 q" if "q \<in> set (pages u')" for q
    using step_same [OF del(1), of q] step_same [OF del(2), of q] step_same [OF new(1), of q] that out r_u
    by (cases "q = p"; cases "q = p'"; cases "q = r") simp_all
  then have "stored (live s4) u'"
    using up' by (intro stored_frame [of "live s1" u' "live s4"]) auto
  moreover have "stored (live s4) w"
    using w(1) fr(3) by (intro stored_frame [of "live s" w "live s4"]) auto
  ultimately have "stored (live s4) T"
    by (intro T(2))
  moreover have "distinct (pages T)"
    using up' w(4) fr(2) by (intro T(3)) auto
  moreover have "set (pages (Node X)) = {p, p'} \<union> set (pages u) \<union> set (pages w)"
    by (rule X)
  moreover have "set (pages (Node [(r, k, T)])) = insert r (set (pages u')) \<union> set (pages w)"
    using T(1) by auto
  moreover have "r \<notin> set (pages T)" "0 \<notin> set (pages T)"
    using r_u fr(2) T(1) up' w(5) by auto
  ultimately show ?thesis
    using all fr(1) new(2,3) T(1) unfolding updated_def step_def by simp
qed

lemma merge_ok:
  assumes st: "stored (live s) (Node (L @ X @ R))" and dist: "distinct (pages (Node (L @ X @ R)))"
    and nz: "0 \<notin> set (pages (Node (L @ X @ R)))"
    and X: "X = [x, (p, q, u)] \<and> T = tjoin (kid x) u' \<or> X = [(p, q, u), x] \<and> T = tjoin u' (kid x)"
    and sh: "weak_shape h (kid x)" "weak_shape h u'"
    and up: "updated s s1 u u' n" and del: "step s1 s2 1 {p} {}" and bud: "2 \<le> budget s2"
    and T: "node_of dT T" "fits T" "ents T \<noteq> []"
  shows "\<exists>s3 r s4. pm_del pm s2 (kid_ptr x) = Inr s3 \<and> pm_new_page pm s3 dT = Inr (r, s4)
    \<and> updated s s4 (Node (L @ X @ R)) (Node (L @ [(r, first_key T, T)] @ R)) (n + 3)"
proof -
  have stX: "stored (live s) (Node X)" "distinct (pages (Node X))" "0 \<notin> set (pages (Node X))"
    using st dist nz by simp_all
  have X_pages: "set (pages (Node X)) = {p, kid_ptr x} \<union> set (pages u) \<union> set (pages (kid x))"
    using X by auto
  have w: "stored (live s) (kid x)" "live s p \<noteq> None" "live s (kid_ptr x) \<noteq> None"
      "distinct (p # kid_ptr x # pages u @ pages (kid x))" "0 \<notin> set (pages (kid x))"
    using stX X by (auto simp: page_of_def)
  note up' = up [unfolded updated_def]
  note move = up' [THEN conjunct1]
  have "kid_ptr x \<notin> set (pages u')"
    using step_fresh [OF move, of "kid_ptr x"] w by auto
  then have "live s1 (kid_ptr x) = live s (kid_ptr x)"
    using step_same [OF move, of "kid_ptr x"] w(4) by auto
  moreover have "live s2 (kid_ptr x) = live s1 (kid_ptr x)"
    using step_same [OF del, of "kid_ptr x"] w(4) by auto
  ultimately obtain dx where "live s2 (kid_ptr x) = Some dx"
    using w(3) by auto
  then obtain s3 where s3: "pm_del pm s2 (kid_ptr x) = Inr s3" "step s2 s3 1 {kid_ptr x} {}"
    using del_page_step [OF step_inv [OF del]] bud by force
  have "0 < budget s3"
    using step_budget [OF s3(2)] bud by simp
  then obtain r s4 where s4: "pm_new_page pm s3 dT = Inr (r, s4)" "step s3 s4 1 {} {r}" "r \<noteq> 0"
      "page_of (live s4 r) T"
    using new_page_step [OF step_inv [OF s3(2)] _ T] by auto
  have T_eq: "T = tjoin (kid x) u' \<or> T = tjoin u' (kid x)"
    using X by blast
  have "set (pages T) = set (pages (kid x)) \<union> set (pages u')"
    using T_eq tjoin_ok(3) [OF sh] tjoin_ok(3) [OF sh(2,1)] by (elim disjE) auto
  moreover have "stored P (kid x) \<Longrightarrow> stored P u' \<Longrightarrow> stored P T" for P
    using T_eq tjoin_ok(5) [OF sh] tjoin_ok(5) [OF sh(2,1)] by (elim disjE) auto
  moreover have "distinct (pages (kid x)) \<Longrightarrow> distinct (pages u') \<Longrightarrow>
      set (pages (kid x)) \<inter> set (pages u') = {} \<Longrightarrow> distinct (pages T)"
    using T_eq tjoin_ok(3) [OF sh] tjoin_ok(3) [OF sh(2,1)] by (elim disjE) auto
  ultimately have "updated s s4 (Node X) (Node [(r, first_key T, T)]) (n + 3)"
    by (rule merge_updated [OF up del s3(2) s4(2,4,3) w _ _ _ X_pages])
  then have "updated s s4 (Node (L @ X @ R)) (Node (L @ [(r, first_key T, T)] @ R)) (n + 3)"
    by (rule rebuild_updated [OF st dist nz])
  with s3(1) s4(1) show ?thesis
    by blast
qed

lemma leaf_delete_tree:
  assumes node: "node_of d (Leaf xs)" and sh: "shape 0 (Leaf xs)" and sorted: "sorted1 xs" and fit: "fits (Leaf xs)"
    and le: "first_key (Leaf xs) \<le> key" and fuel: "0 < fuel"
  shows "map_of xs key = None \<Longrightarrow> tree_delete pm fuel s d key = Inr ([], s)"
    and "map_of xs key \<noteq> None \<Longrightarrow> \<exists>d'. tree_delete pm fuel s d key = Inr (d', s)
      \<and> node_of d' (Leaf (kv_del key xs)) \<and> length d' = BTREE_PAGE_SIZE \<and> fits (Leaf (kv_del key xs))"
proof -
  define c where "c = count_le key (map ent_key (ents (Leaf xs)))"
  have s1: "sorted1 (kvs (Leaf xs))"
    using sorted by simp
  note look = lookup_node [OF node sh s1 le c_def]
  have c: "c = count_le key (map fst xs)" "c - 1 < length xs" "u16 (nat (int (c - 1))) = c - 1" "c \<le> length xs"
    using look sh by (auto simp: c_def comp_def u16_def)
  have nd: "node_is d BNODE_LEAF (map kv_ent xs)"
    using node by (simp add: node_of_def)
  have key: "get_key d (c - 1) = Inr (fst (xs ! (c - 1)))"
    using node_is_key [OF nd, of "c - 1"] c by simp
  note run = look key c(3) fuel node_is_btype [OF nd]
  have hit: "map_of xs key \<noteq> None \<longleftrightarrow> fst (xs ! (c - 1)) = key"
    using kv_present(3) [OF sorted c(1) look(2)] kv_absent(3) [OF sorted c(1)]
    by (cases "fst (xs ! (c - 1)) = key") simp_all
  show "tree_delete pm fuel s d key = Inr ([], s)" if "map_of xs key = None"
    using that hit run by (simp add: tree_delete.simps)
  assume "map_of xs key \<noteq> None"
  then have here: "fst (xs ! (c - 1)) = key"
    using hit by simp
  have del: "kv_del key xs = take (c - 1) xs @ drop c xs"
    by (rule kv_present(2) [OF sorted c(1) look(2) here])
  have page: "length (BNode BTREE_PAGE_SIZE) = BTREE_PAGE_SIZE" "BTREE_PAGE_SIZE < 2 ^ 16" "c - 1 + 1 = c"
    using look(2) by (simp_all add: BNode_def BTREE_PAGE_SIZE_def)
  obtain d' where d': "leaf_delete (BNode BTREE_PAGE_SIZE) d (c - 1) = Inr d'"
      "node_is d' BNODE_LEAF (take (c - 1) (map kv_ent xs) @ drop c (map kv_ent xs))" "length d' = BTREE_PAGE_SIZE"
    using leaf_delete_ok [OF nd, of "c - 1" "BNode BTREE_PAGE_SIZE"] c(2) fit page
    by (auto simp: builds_def fits_def)
  have ents: "map kv_ent (kv_del key xs) = take (c - 1) (map kv_ent xs) @ drop c (map kv_ent xs)"
    by (simp add: del take_map drop_map)
  then have node': "node_of d' (Leaf (kv_del key xs))"
    using d'(2) by (simp add: node_of_def)
  have "fits (Leaf (kv_del key xs))"
    using node_is_size [OF d'(2)] d'(3) ents by (simp add: fits_def)
  with node' here run d' show "\<exists>d'. tree_delete pm fuel s d key = Inr (d', s)
      \<and> node_of d' (Leaf (kv_del key xs)) \<and> length d' = BTREE_PAGE_SIZE \<and> fits (Leaf (kv_del key xs))"
    by (intro exI [of _ d']) (simp add: tree_delete.simps)
qed

lemma tree_delete_absent:
  shows "shape h t \<Longrightarrow> h < fuel \<Longrightarrow> node_of d t \<Longrightarrow> stored (live s) t \<Longrightarrow> inv s \<Longrightarrow>
    distinct (pages t) \<Longrightarrow> 0 \<notin> set (pages t) \<Longrightarrow> sorted1 (kvs t) \<Longrightarrow> fits t \<Longrightarrow> first_key t \<le> key \<Longrightarrow>
    map_of (kvs t) key = None \<Longrightarrow> tree_delete pm fuel s d key = Inr ([], s)"
proof (induction h arbitrary: t fuel d)
  case 0
  then obtain xs where t: "t = Leaf xs"
    by (cases t) auto
  show ?case
    using leaf_delete_tree(1) [of d xs key fuel s] 0 unfolding t by simp
next
  case (Suc h)
  obtain L p q u R d1 where D: "t = Node (L @ [(p, q, u)] @ R)"
      "node_lookup_le d key = Inr (int (length L))" "length L < 2 ^ 16"
      "node_is d BNODE_NODE (map kid_ent (L @ [(p, q, u)] @ R))"
      "get_ptr d (length L) = Inr p" "pm_get pm s p = Inr d1" "node_of d1 u"
      "shape h u" "fits u" "stored (live s) u" "distinct (p # pages u)"
      "0 \<notin> set (p # pages u)" "sorted1 (kvs u)" "first_key u \<le> key"
      "\<forall>x\<in>set (kvs (Node L)). fst x < key" "\<forall>x\<in>set (kvs (Node R)). key < fst x"
    by (rule descend [OF Suc.prems(5,1,3,4,8,10,6,7)]) blast
  have "map_of (kvs u) key = None"
    using map_of_mid [OF D(15,16), of "kvs u"] Suc.prems(11) unfolding D(1) by simp
  then have "tree_delete pm (fuel - 1) s d1 key = Inr ([], s)"
    using Suc.prems(2,5) D(7-14) by (intro Suc.IH) auto
  then show ?case
    using D(2,3,5,6) Suc.prems(2) node_is_btype [OF D(4)] u16_nat
    by (simp add: tree_delete.simps [of pm fuel] node_delete.simps BNODE_NODE_def BNODE_LEAF_def)
qed

lemma merge_replace_ok:
  assumes node: "node_is d BNODE_NODE (map kid_ent (L @ X @ R))" and X: "length X = 2"
    and T: "node_of dT T" "fits T" "ents T \<noteq> []"
    and key: "length (first_key T) \<le> length (kid_key (hd X)) + length (kid_key (last X)) + g"
    and room: "node_size (map kid_ent (L @ X @ R)) + g \<le> BTREE_PAGE_SIZE"
  shows "get_key dT 0 = Inr (first_key T)"
    and "\<exists>d'. node_replace_2_child (BNode BTREE_PAGE_SIZE) d (length L) r (first_key T) = Inr d'
      \<and> node_of d' (Node (L @ [(r, first_key T, T)] @ R)) \<and> length d' = BTREE_PAGE_SIZE
      \<and> fits (Node (L @ [(r, first_key T, T)] @ R))"
proof -
  let ?F = "map kid_ent (L @ [(r, first_key T, T)] @ R)"
  show "get_key dT 0 = Inr (first_key T)"
    by (rule kid_ready(2) [OF T])
  obtain a b where ab: "X = [a, b]"
    using X by (cases X rule: remdups_adj.cases) auto
  have page: "length (BNode BTREE_PAGE_SIZE) = BTREE_PAGE_SIZE" "BTREE_PAGE_SIZE < 2 ^ 16"
    by (simp_all add: BNode_def BTREE_PAGE_SIZE_def)
  have cut: "take (length L) (map kid_ent (L @ X @ R)) @ (r, first_key T, []) #
      drop (length L + 2) (map kid_ent (L @ X @ R)) = ?F"
    by (simp add: ab)
  have size: "node_size ?F \<le> BTREE_PAGE_SIZE"
    using room key by (simp add: ab node_size_def kid_ent_def kv_size_def)
  have ok: "ent_ok (r, first_key T, [])" and two: "length L + 2 \<le> length (map kid_ent (L @ X @ R))"
    using kid_ready(3) [OF T] X by simp_all
  have "builds (node_replace_2_child (BNode BTREE_PAGE_SIZE) d (length L) r (first_key T)) BNODE_NODE ?F
      BTREE_PAGE_SIZE"
    using node_replace_2_child_ok [OF node two ok, of "BNode BTREE_PAGE_SIZE"] size unfolding cut page(1)
    using page(2) by blast
  then show "\<exists>d'. node_replace_2_child (BNode BTREE_PAGE_SIZE) d (length L) r (first_key T) = Inr d'
      \<and> node_of d' (Node (L @ [(r, first_key T, T)] @ R)) \<and> length d' = BTREE_PAGE_SIZE
      \<and> fits (Node (L @ [(r, first_key T, T)] @ R))"
    using size by (auto simp: builds_def node_of_def fits_def)
qed

text \<open>
  A rewritten node after a deletion: it fits its page, and it is well-formed unless it is empty.
\<close>

definition rewritten :: "'s \<Rightarrow> 's \<Rightarrow> tree \<Rightarrow> bnode \<Rightarrow> tree \<Rightarrow> nat \<Rightarrow> nat \<Rightarrow> bool" where
  "rewritten s s' t d' t' h n \<longleftrightarrow> updated s s' t t' n \<and> node_of d' t' \<and> length d' = BTREE_PAGE_SIZE
     \<and> weak_shape h t' \<and> fits t'"

lemma merge_rewritten:
  assumes node: "node_is d BNODE_NODE (map kid_ent (L @ X @ R))"
    and sh: "shape (Suc h) (Node (L @ X @ R))"
    and st: "stored (live s) (Node (L @ X @ R))" and dist: "distinct (pages (Node (L @ X @ R)))"
    and nz: "0 \<notin> set (pages (Node (L @ X @ R)))"
    and X: "X = [x, (p, q, u)] \<and> T = tjoin (kid x) u' \<and> M = node_merge (BNode BTREE_PAGE_SIZE) sib d1
      \<or> X = [(p, q, u), x] \<and> T = tjoin u' (kid x) \<and> M = node_merge (BNode BTREE_PAGE_SIZE) d1 sib"
    and up: "rewritten s s1 u d1 u' h n" and del: "step s1 s2 1 {p} {}" and bud: "2 \<le> budget s2"
    and sib: "node_of sib (kid x)" and fit: "node_size (ents T) \<le> BTREE_PAGE_SIZE"
    and key: "ents u' \<noteq> [] \<Longrightarrow> length (first_key u') \<le> length q + g"
    and room: "node_size (map kid_ent (L @ X @ R)) + g \<le> BTREE_PAGE_SIZE"
  shows "\<exists>dT s3 r s4 d'. M = Inr dT \<and> pm_del pm s2 (kid_ptr x) = Inr s3 \<and> pm_new_page pm s3 dT = Inr (r, s4)
    \<and> get_key dT 0 = Inr (first_key T)
    \<and> node_replace_2_child (BNode BTREE_PAGE_SIZE) d (length L) r (first_key T) = Inr d'
    \<and> rewritten s s4 (Node (L @ X @ R)) d' (Node (L @ [(r, first_key T, T)] @ R)) (Suc h) (n + 3)"
proof -
  note up' = up [unfolded rewritten_def]
  have "x \<in> set X"
    using X by auto
  then have x: "shape h (kid x)" "kid_key x = first_key (kid x)" "ents (kid x) \<noteq> []"
    using sh shape_kvs [of h "kid x"] by auto
  have wx: "weak_shape h (kid x)" and wu: "weak_shape h u'"
    using x(1) up' by (simp_all add: weak_shape_def)
  have T_eq: "T = tjoin (kid x) u' \<or> T = tjoin u' (kid x)"
    using X by blast
  have T: "fits T" "ents T \<noteq> []" "weak_shape h T"
    using T_eq fit x(3) tjoin_ok(1,6) [OF wx wu] tjoin_ok(1,6) [OF wu wx] unfolding fits_def
    by (elim disjE; simp)+
  have shT: "shape h T"
    using weak_shape_iff [OF T(3)] T(2) by simp
  have page: "length (BNode BTREE_PAGE_SIZE) = BTREE_PAGE_SIZE" "BTREE_PAGE_SIZE < 2 ^ 16"
    by (simp_all add: BNode_def BTREE_PAGE_SIZE_def)
  have d1: "node_is d1 (ntype u') (ents u')" and ds: "node_is sib (ntype (kid x)) (ents (kid x))"
    using up' sib by (simp_all add: node_of_def)
  have "builds M (ntype T) (ents T) BTREE_PAGE_SIZE"
    using X
  proof (elim disjE conjE)
    assume "T = tjoin (kid x) u'" "M = node_merge (BNode BTREE_PAGE_SIZE) sib d1"
    then show ?thesis
      using node_merge_ok [OF ds d1, of "BNode BTREE_PAGE_SIZE"] fit page tjoin_ok(1,4) [OF wx wu] by simp
  next
    assume "T = tjoin u' (kid x)" "M = node_merge (BNode BTREE_PAGE_SIZE) d1 sib"
    then show ?thesis
      using node_merge_ok [OF d1 ds, of "BNode BTREE_PAGE_SIZE"] fit page tjoin_ok(1,4) [OF wu wx] by simp
  qed
  then obtain dT where dT: "M = Inr dT" "node_of dT T"
    by (auto simp: builds_def node_of_def)
  have "X = [x, (p, q, u)] \<and> T = tjoin (kid x) u' \<or> X = [(p, q, u), x] \<and> T = tjoin u' (kid x)"
    using X by blast
  then obtain s3 r s4 where pg: "pm_del pm s2 (kid_ptr x) = Inr s3" "pm_new_page pm s3 dT = Inr (r, s4)"
      "updated s s4 (Node (L @ X @ R)) (Node (L @ [(r, first_key T, T)] @ R)) (n + 3)"
    using merge_ok [OF st dist nz _ wx wu up' [THEN conjunct1] del bud dT(2) T(1,2)] by blast
  have X2: "length X = 2"
    using X by auto
  have "first_key T = first_key (kid x) \<or> ents u' \<noteq> [] \<and> first_key T = first_key u'"
    using T_eq x(3) tjoin_ok(1) [OF wx wu] tjoin_ok(1) [OF wu wx]
    by (cases "ents u'"; elim disjE; simp add: first_key_def)
  then have "length (first_key T) \<le> length q + length (kid_key x) + g"
    using key x(2) by auto
  then have "length (first_key T) \<le> length (kid_key (hd X)) + length (kid_key (last X)) + g"
    using X by auto
  note rep = merge_replace_ok [OF node X2 dT(2) T(1,2) this room]
  obtain d' where d': "node_replace_2_child (BNode BTREE_PAGE_SIZE) d (length L) r (first_key T) = Inr d'"
      "node_of d' (Node (L @ [(r, first_key T, T)] @ R))" "length d' = BTREE_PAGE_SIZE"
      "fits (Node (L @ [(r, first_key T, T)] @ R))"
    using rep(2) by blast
  have "weak_shape (Suc h) (Node (L @ [(r, first_key T, T)] @ R))"
    using sh shT T(1) unfolding weak_shape_Suc by auto
  with d' pg(3) have "rewritten s s4 (Node (L @ X @ R)) d' (Node (L @ [(r, first_key T, T)] @ R)) (Suc h) (n + 3)"
    by (simp add: rewritten_def)
  with d'(1) pg(1,2) dT(1) rep(1) show ?thesis
    by blast
qed

text \<open>A rewritten child releases its old page; the pages of its siblings stay.\<close>

lemma child_released:
  assumes sh: "shape (Suc h) (Node (L @ [(p, q, u)] @ R))" and st: "stored (live s) (Node (L @ [(p, q, u)] @ R))"
    and dist: "distinct (pages (Node (L @ [(p, q, u)] @ R)))" and p: "live s p = Some c1"
    and up: "updated s s1 u u' n" and bud: "0 < budget s1"
  shows "\<exists>s2. pm_del pm s1 p = Inr s2 \<and> step s1 s2 1 {p} {} \<and> p \<notin> set (pages u')
    \<and> (\<forall>x\<in>set L \<union> set R. page_of (live s2 (kid_ptr x)) (kid x) \<and> fits (kid x))"
proof -
  have "(p, q, u) \<in> set (L @ [(p, q, u)] @ R)"
    by simp
  from pages_kid(2) [OF this dist] have pu: "p \<notin> set (pages u)"
    by simp
  have st1: "inv s1" "step s s1 n (set (pages u)) (set (pages u'))"
    using up by (simp_all add: updated_def step_def)
  have pu': "p \<notin> set (pages u')"
    using step_fresh [OF st1(2)] p pu by fastforce
  then have "live s1 p = Some c1"
    using step_same [OF st1(2)] p pu by simp
  then obtain s2 where del: "pm_del pm s1 p = Inr s2" "step s1 s2 1 {p} {}"
    using del_page_step [of s1 p c1] st1(1) bud by auto
  have "page_of (live s2 (kid_ptr x)) (kid x) \<and> fits (kid x)" if "x \<in> set L \<union> set R" for x
  proof -
    have x: "kid_ptr x \<notin> set (pages u)" "kid_ptr x \<noteq> p" "page_of (live s (kid_ptr x)) (kid x)" "fits (kid x)"
      using dist st sh that by auto
    moreover from x have "kid_ptr x \<notin> set (pages u')"
      using step_fresh [OF st1(2), of "kid_ptr x"] by (auto simp: page_of_def)
    ultimately have "live s2 (kid_ptr x) = live s (kid_ptr x)"
      using step_same [OF st1(2), of "kid_ptr x"] step_same [OF del(2), of "kid_ptr x"] by simp
    with x(3,4) show ?thesis
      by simp
  qed
  with del pu' show ?thesis
    by blast
qed

text \<open>Without a merge the parent links the rewritten child, or becomes empty with its only child.\<close>

lemma empty_child:
  assumes node: "node_is d BNODE_NODE (map kid_ent [(p, q, u)])" and up: "updated s s1 u u' n"
    and hollow: "ents u' = []" "weak_shape h u'" and del: "step s1 s2 1 {p} {}"
  shows "\<exists>d'. set_header (BNode BTREE_PAGE_SIZE) BNODE_NODE 0 = Inr d'
    \<and> rewritten s s2 (Node [(p, q, u)]) d' (Node []) (Suc h) (n + 3)"
proof -
  have page: "length (BNode BTREE_PAGE_SIZE) = 4096"
    by (simp add: BNode_def BTREE_PAGE_SIZE_def)
  obtain d' where d': "set_header (BNode BTREE_PAGE_SIZE) BNODE_NODE 0 = Inr d'" "node_building d' BNODE_NODE 0 []"
      "length d' = 4096"
    using building_init [of 0 "BNode BTREE_PAGE_SIZE" BNODE_NODE] page by (auto simp: BNODE_NODE_def)
  have "pages u' = []"
    using hollow shape_kvs [of h u'] hollow_empty [of h u'] by (auto simp: weak_shape_def)
  then have "step s s2 (n + 1) (set (pages u) \<union> ({p} - {})) ({} - {p} \<union> {})"
    using step_trans [OF up [unfolded updated_def, THEN conjunct1] del] by simp
  then have "updated s s2 (Node [(p, q, u)]) (Node []) (n + 3)"
    by (auto simp: updated_def step_def)
  moreover have "node_of d' (Node [])" "fits (Node [])"
    using d'(2) by (simp_all add: node_of_def node_is_def fits_def node_size_def BTREE_PAGE_SIZE_def)
  ultimately show ?thesis
    using d'(1,3) by (simp add: rewritten_def weak_shape_Suc BTREE_PAGE_SIZE_def)
qed

lemma relink_child:
  assumes node: "node_is d BNODE_NODE (map kid_ent (L @ [(p, q, u)] @ R))"
    and sh: "shape (Suc h) (Node (L @ [(p, q, u)] @ R))"
    and st: "stored (live s) (Node (L @ [(p, q, u)] @ R))" and dist: "distinct (pages (Node (L @ [(p, q, u)] @ R)))"
    and nz: "0 \<notin> set (pages (Node (L @ [(p, q, u)] @ R)))"
    and p: "live s p = Some c1" and up: "rewritten s s1 u d1 u' h n" and ne: "ents u' \<noteq> []"
    and bud: "3 \<le> budget s1" and key: "length (first_key u') \<le> length q + g"
    and room: "node_size (map kid_ent (L @ [(p, q, u)] @ R)) + g \<le> BTREE_PAGE_SIZE"
  shows "\<exists>s2 d' s' t'. pm_del pm s1 p = Inr s2
    \<and> node_replace_child_n pm s2 (BNode BTREE_PAGE_SIZE) d (length L) [d1] = Inr (d', s')
    \<and> rewritten s s' (Node (L @ [(p, q, u)] @ R)) d' t' (Suc h) (n + 3)
    \<and> kvs t' = kvs (Node L) @ kvs u' @ kvs (Node R)"
proof -
  note up' = up [unfolded rewritten_def]
  have ready: "kids_ready [d1] [u']"
    using up' ne by (simp add: kids_ready_def)
  have shu: "shape h u'"
    using weak_shape_iff [of h u'] up' ne by simp
  have kids: "\<forall>t\<in>set [u']. shape h t \<and> fits t \<and> (\<forall>P. stored P u' \<longrightarrow> stored P t)"
    using shu up' by simp
  have size: "node_size (map kid_ent L @ key_ents [u'] @ map kid_ent R) \<le> BTREE_PAGE_SIZE"
    using room key by (simp add: key_ents_def node_size_def kv_size_def)
  have page: "length (BNode BTREE_PAGE_SIZE) = BTREE_PAGE_SIZE" "BTREE_PAGE_SIZE < 2 ^ 16"
    by (simp_all add: BNode_def BTREE_PAGE_SIZE_def)
  have "1 + length [u'] \<le> budget s1"
    using bud by simp
  then obtain s2 d' s3 t' where r: "pm_del pm s1 p = Inr s2"
      "node_replace_child_n pm s2 (BNode BTREE_PAGE_SIZE) d (length L) [d1] = Inr (d', s3)"
      "updated s s3 (Node (L @ [(p, q, u)] @ R)) t' (n + 1 + 1)" "node_of d' t'" "length d' = BTREE_PAGE_SIZE"
      "shape (Suc h) t'" "kvs t' = kvs (Node L) @ kvs u' @ kvs (Node R)"
      "node_size (ents t') = node_size (map kid_ent L @ key_ents [u'] @ map kid_ent R)"
    using relink_ok [OF node st dist nz sh up' [THEN conjunct1] p ready _ kids, of "BNode BTREE_PAGE_SIZE"]
      size page by auto
  then have "rewritten s s3 (Node (L @ [(p, q, u)] @ R)) d' t' (Suc h) (n + 3)"
    using size by (auto simp: rewritten_def updated_def step_def weak_shape_def fits_def)
  with r show ?thesis
    by blast
qed

text \<open>One level of the deletion, once the child was rewritten.\<close>

lemma node_delete_step:
  assumes inv: "inv s" and node: "node_is d BNODE_NODE (map kid_ent (L @ [(p, q, u)] @ R))"
    and sh: "shape (Suc h) (Node (L @ [(p, q, u)] @ R))"
    and st: "stored (live s) (Node (L @ [(p, q, u)] @ R))" and dist: "distinct (pages (Node (L @ [(p, q, u)] @ R)))"
    and nz: "0 \<notin> set (pages (Node (L @ [(p, q, u)] @ R)))" and len: "length L < 2 ^ 16"
    and get: "get_ptr d (length L) = Inr p" "pm_get pm s p = Inr c1" "live s p = Some c1"
    and rec: "tree_delete pm fuel s c1 key = Inr (d1, s1)" and up: "rewritten s s1 u d1 u' h n"
    and bud: "3 \<le> budget s1"
    and key: "ents u' \<noteq> [] \<Longrightarrow> length (first_key u') \<le> length q + g"
    and room: "node_size (map kid_ent (L @ [(p, q, u)] @ R)) + g \<le> BTREE_PAGE_SIZE"
  shows "\<exists>d' s' t'. node_delete pm fuel s d (length L) key = Inr (d', s')
    \<and> rewritten s s' (Node (L @ [(p, q, u)] @ R)) d' t' (Suc h) (n + 3)
    \<and> kvs t' = kvs (Node L) @ kvs u' @ kvs (Node R)"
proof -
  let ?cs = "L @ [(p, q, u)] @ R"
  note up' = up [unfolded rewritten_def]
  have bud1: "0 < budget s1"
    using bud by simp
  obtain s2 where del: "pm_del pm s1 p = Inr s2" "step s1 s2 1 {p} {}"
    and sib: "\<forall>x\<in>set L \<union> set R. page_of (live s2 (kid_ptr x)) (kid x) \<and> fits (kid x)"
    using child_released [OF sh st dist get(3) up' [THEN conjunct1] bud1] by blast
  have inv2: "inv s2" and bud2: "2 \<le> budget s2"
    using step_inv [OF del(2)] step_budget [OF del(2)] bud by auto
  have ne: "d1 \<noteq> []"
    using up' by (auto simp: BTREE_PAGE_SIZE_def)
  have wu: "weak_shape h u'" and du: "node_of d1 u'" "fits u'"
    using up' by simp_all
  obtain dir sb where sm: "should_merge pm s2 d (length L) d1 = Inr (dir, sb)" "case dir of
      MergeLeft \<Rightarrow> \<exists>L0 x. L = L0 @ [x] \<and> node_of sb (kid x) \<and> node_size (ents (kid x) @ ents u') \<le> BTREE_PAGE_SIZE
    | MergeRight \<Rightarrow> \<exists>x R0. R = x # R0 \<and> node_of sb (kid x) \<and> node_size (ents u' @ ents (kid x)) \<le> BTREE_PAGE_SIZE
    | MergeNone \<Rightarrow> ents u' = [] \<longrightarrow> L = [] \<and> R = []"
    using should_merge_ok [OF inv2 node du sib] by blast
  note run = get rec del(1) ne sm(1)
  show ?thesis
  proof (cases dir)
    case MergeLeft
    then obtain L0 x where x: "L = L0 @ [x]" "node_of sb (kid x)" "node_size (ents (kid x) @ ents u') \<le> BTREE_PAGE_SIZE"
      using sm(2) by auto
    have cs: "?cs = L0 @ [x, (p, q, u)] @ R"
      by (simp add: x)
    have wx: "weak_shape h (kid x)"
      using sh x(1) by (simp add: weak_shape_def)
    have "node_size (ents (tjoin (kid x) u')) \<le> BTREE_PAGE_SIZE"
      using x(3) tjoin_ok(1) [OF wx wu] by simp
    then obtain dT s3 r s4 d' where m: "node_merge (BNode BTREE_PAGE_SIZE) sb d1 = Inr dT"
        "pm_del pm s2 (kid_ptr x) = Inr s3" "pm_new_page pm s3 dT = Inr (r, s4)"
        "get_key dT 0 = Inr (first_key (tjoin (kid x) u'))"
        "node_replace_2_child (BNode BTREE_PAGE_SIZE) d (length L0) r (first_key (tjoin (kid x) u')) = Inr d'"
        "rewritten s s4 (Node ?cs) d' (Node (L0 @ [(r, first_key (tjoin (kid x) u'), tjoin (kid x) u')] @ R)) (Suc h) (n + 3)"
      using merge_rewritten [OF node [unfolded cs] sh [unfolded cs] st [unfolded cs] dist [unfolded cs]
          nz [unfolded cs] disjI1 up del(2) bud2 x(2) _ key room [unfolded cs]] unfolding cs by blast
    have "get_ptr d (length L - 1) = Inr (kid_ptr x)"
      using node_is_ptr [OF node, of "length L - 1"] x(1) by (simp add: nth_append)
    then have "node_delete pm fuel s d (length L) key = Inr (d', s4)"
      using run m MergeLeft x(1) by (simp add: node_delete.simps)
    moreover have "kvs (Node (L0 @ [(r, first_key (tjoin (kid x) u'), tjoin (kid x) u')] @ R))
        = kvs (Node L) @ kvs u' @ kvs (Node R)"
      using tjoin_ok(2) [OF wx wu] by (simp add: x)
    ultimately show ?thesis
      using m(6) by blast
  next
    case MergeRight
    then obtain x R0 where x: "R = x # R0" "node_of sb (kid x)" "node_size (ents u' @ ents (kid x)) \<le> BTREE_PAGE_SIZE"
      using sm(2) by auto
    have cs: "?cs = L @ [(p, q, u), x] @ R0"
      by (simp add: x)
    have wx: "weak_shape h (kid x)"
      using sh x(1) by (simp add: weak_shape_def)
    have "node_size (ents (tjoin u' (kid x))) \<le> BTREE_PAGE_SIZE"
      using x(3) tjoin_ok(1) [OF wu wx] by simp
    then obtain dT s3 r s4 d' where m: "node_merge (BNode BTREE_PAGE_SIZE) d1 sb = Inr dT"
        "pm_del pm s2 (kid_ptr x) = Inr s3" "pm_new_page pm s3 dT = Inr (r, s4)"
        "get_key dT 0 = Inr (first_key (tjoin u' (kid x)))"
        "node_replace_2_child (BNode BTREE_PAGE_SIZE) d (length L) r (first_key (tjoin u' (kid x))) = Inr d'"
        "rewritten s s4 (Node ?cs) d' (Node (L @ [(r, first_key (tjoin u' (kid x)), tjoin u' (kid x))] @ R0)) (Suc h) (n + 3)"
      using merge_rewritten [OF node [unfolded cs] sh [unfolded cs] st [unfolded cs] dist [unfolded cs]
          nz [unfolded cs] disjI2 up del(2) bud2 x(2) _ key room [unfolded cs]] unfolding cs by blast
    have "get_ptr d (length L + 1) = Inr (kid_ptr x)"
      using node_is_ptr [OF node, of "length L + 1"] x(1) by (simp add: nth_append)
    then have "node_delete pm fuel s d (length L) key = Inr (d', s4)"
      using run m MergeRight by (simp add: node_delete.simps)
    moreover have "kvs (Node (L @ [(r, first_key (tjoin u' (kid x)), tjoin u' (kid x))] @ R0))
        = kvs (Node L) @ kvs u' @ kvs (Node R)"
      using tjoin_ok(2) [OF wu wx] by (simp add: x)
    ultimately show ?thesis
      using m(6) by blast
  next
    case MergeNone
    have un: "nkeys d1 = Inr (length (ents u'))"
      using node_is_nkeys du(1) by (simp add: node_of_def)
    show ?thesis
    proof (cases "ents u' = []")
      case True
      then have only: "L = []" "R = []"
        using sm(2) MergeNone by auto
      obtain d' where d': "set_header (BNode BTREE_PAGE_SIZE) BNODE_NODE 0 = Inr d'"
          "rewritten s s2 (Node [(p, q, u)]) d' (Node []) (Suc h) (n + 3)"
        using empty_child [of d p q u s s1 u' n h s2] node up' True wu del(2) by (auto simp: only)
      have "node_delete pm fuel s d (length L) key = Inr (d', s2)"
        using run un True d'(1) MergeNone node_is_nkeys [OF node] by (simp add: node_delete.simps only)
      then show ?thesis
        using d'(2) weak_shape_kvs [OF wu] True
        by (intro exI [of _ d'] exI [of _ s2] exI [of _ "Node []"]) (simp add: only)
    next
      case False
      obtain d' s' t' where r: "node_replace_child_n pm s2 (BNode BTREE_PAGE_SIZE) d (length L) [d1] = Inr (d', s')"
          "rewritten s s' (Node ?cs) d' t' (Suc h) (n + 3)" "kvs t' = kvs (Node L) @ kvs u' @ kvs (Node R)"
        using relink_child [OF node sh st dist nz get(3) up False bud key [OF False] room] del(1) by auto
      have "node_delete pm fuel s d (length L) key = Inr (d', s')"
        using run un False r(1) MergeNone by (simp add: node_delete.simps)
      with r(2,3) show ?thesis
        by blast
    qed
  qed
qed

theorem tree_delete_ok:
  shows "shape h t \<Longrightarrow> h < fuel \<Longrightarrow> node_of d t \<Longrightarrow> stored (live s) t \<Longrightarrow> inv s \<Longrightarrow>
    distinct (pages t) \<Longrightarrow> 0 \<notin> set (pages t) \<Longrightarrow> sorted1 (kvs t) \<Longrightarrow> fits t \<Longrightarrow> first_key t \<le> key \<Longrightarrow>
    slack g t \<Longrightarrow> key_growth key (kvs t) \<le> g \<Longrightarrow> map_of (kvs t) key \<noteq> None \<Longrightarrow> 3 * h \<le> budget s \<Longrightarrow>
    \<exists>d' s' t'. tree_delete pm fuel s d key = Inr (d', s') \<and> rewritten s s' t d' t' h (3 * h)
      \<and> kvs t' = kv_del key (kvs t)"
proof (induction h arbitrary: t fuel d s)
  case 0
  then obtain xs where t: "t = Leaf xs"
    by (cases t) auto
  obtain d' where "tree_delete pm fuel s d key = Inr (d', s)" "node_of d' (Leaf (kv_del key xs))"
      "length d' = BTREE_PAGE_SIZE" "fits (Leaf (kv_del key xs))"
    using leaf_delete_tree(2) [of d xs key fuel s] 0 unfolding t by auto
  then show ?case
    using 0(5) t by (intro exI [of _ d'] exI [of _ s] exI [of _ "Leaf (kv_del key xs)"])
      (simp add: rewritten_def updated_leaf weak_shape_0)
next
  case (Suc h)
  obtain L p q u R d1 where D: "t = Node (L @ [(p, q, u)] @ R)"
      "node_lookup_le d key = Inr (int (length L))" "length L < 2 ^ 16"
      "node_is d BNODE_NODE (map kid_ent (L @ [(p, q, u)] @ R))"
      "get_ptr d (length L) = Inr p" "pm_get pm s p = Inr d1" "live s p = Some d1" "node_of d1 u"
      "shape h u" "fits u" "q = first_key u" "stored (live s) u" "distinct (p # pages u)"
      "0 \<notin> set (p # pages u)" "sorted1 (kvs u)" "first_key u \<le> key"
      "\<forall>x\<in>set (kvs (Node L)). fst x < key" "\<forall>x\<in>set (kvs (Node R)). key < fst x"
    by (rule descend [OF Suc.prems(5,1,3,4,8,10,6,7)]) blast
  have sub: "h < fuel - 1" "3 * h \<le> budget s" "distinct (pages u)" "0 \<notin> set (pages u)"
    using Suc.prems(2,14) D(13,14) by auto
  have split: "kvs t = kvs (Node L) @ kvs u @ kvs (Node R)"
    by (simp add: D(1))
  have room: "node_size (map kid_ent (L @ [(p, q, u)] @ R)) + g \<le> BTREE_PAGE_SIZE" "slack g u"
    using Suc.prems(11) unfolding D(1) by simp_all
  have grow: "key_growth key (kvs u) \<le> g"
    using key_growth_mid [OF D(17), of "kvs u" "kvs (Node R)"] Suc.prems(12) split by simp
  have "map_of (kvs u) key \<noteq> None"
    using map_of_mid [OF D(17,18), of "kvs u"] Suc.prems(13) split by simp
  then obtain d1' s1 u' where IH: "tree_delete pm (fuel - 1) s d1 key = Inr (d1', s1)"
      "rewritten s s1 u d1' u' h (3 * h)" "kvs u' = kv_del key (kvs u)"
    using Suc.IH [OF D(9) sub(1) D(8,12) Suc.prems(5) sub(3,4) D(15,10,16) room(2) grow _ sub(2)] by blast
  have bud: "3 \<le> budget s1"
    using IH(2) Suc.prems(14) by (auto simp: rewritten_def updated_def step_def)
  have key: "length (first_key u') \<le> length q + g" if "ents u' \<noteq> []"
  proof -
    have "shape h u'"
      using IH(2) weak_shape_iff [of h u'] that by (simp add: rewritten_def)
    then have "kvs u' \<noteq> []" "fst (hd (kvs u')) = first_key u'" "fst (hd (kvs u)) = q"
      using shape_kvs [of h u'] shape_kvs [OF D(9)] D(11) by simp_all
    then show ?thesis
      using kv_del_first [OF D(15), of key] D(11,16) grow unfolding IH(3) by simp
  qed
  obtain d' s' t' where r: "node_delete pm (fuel - 1) s d (length L) key = Inr (d', s')"
      "rewritten s s' t d' t' (Suc h) (3 * h + 3)" "kvs t' = kvs (Node L) @ kvs u' @ kvs (Node R)"
    using node_delete_step [OF Suc.prems(5) D(4) Suc.prems(1,4,6,7) [unfolded D(1)] D(3,5,6,7) IH(1,2) bud key room(1)]
    unfolding D(1) by blast
  have "tree_delete pm fuel s d key = Inr (d', s')"
    using D(2,3) r(1) Suc.prems(2) node_is_btype [OF D(4)] u16_nat
    by (simp add: tree_delete.simps [of pm fuel] BNODE_NODE_def BNODE_LEAF_def)
  moreover have "kvs t' = kv_del key (kvs t)"
    using kv_del_mid [OF D(17,18), of "kvs u"] r(3) IH(3) split by simp
  ultimately show ?case
    using r(2) by (auto simp: algebra_simps)
qed

lemma updated_del:
  assumes up: "updated s s1 t t1 n" and del: "step s1 s2 1 {p} {}" and p: "live s p \<noteq> None" "p \<notin> set (pages t)"
  shows "updated s s2 (Node [(p, q, t)]) t1 (n + 1)"
proof -
  note up' = up [unfolded updated_def]
  have p1: "p \<notin> set (pages t1)"
    using step_fresh [OF up' [THEN conjunct1], of p] p by auto
  have "live s2 r = live s1 r" if "r \<in> set (pages t1)" for r
    using step_same [OF del, of r] that p1 by (cases "r = p") auto
  then have "stored (live s2) t1"
    using up' by (intro stored_frame [of "live s1" t1 "live s2"]) auto
  moreover have "step s s2 (n + 1) (set (pages t) \<union> ({p} - set (pages t1))) (set (pages t1) - {p} \<union> {})"
    by (rule step_trans [OF up' [THEN conjunct1] del])
  moreover have "set (pages t) \<union> ({p} - set (pages t1)) = set (pages (Node [(p, q, t)]))"
    "set (pages t1) - {p} \<union> {} = set (pages t1)"
    using p1 by auto
  ultimately show ?thesis
    using up' unfolding updated_def by metis
qed

theorem BTree_remove_absent:
  assumes inv: "inv s" and tree: "btree (live s) root m" and key: "valid_key key" and absent: "m key = None"
  shows "BTree_remove pm root s key = Inr (False, root, s)"
proof (cases "root = 0")
  case True
  then show ?thesis
    using key by (simp add: BTree_remove_def check_key_limit_iff [THEN iffD2])
next
  case False
  then obtain t where t: "tree_at (live s) root t" "m = tree_map t"
    using tree by (auto simp: btree_def)
  then obtain h d where h: "shape h t" "fits t" "sorted1 (kvs t)" "first_key t = []"
    and d: "live s root = Some d" "node_of d t" "stored (live s) t" "distinct (root # pages t)"
      "0 \<notin> set (pages t)"
    by (auto simp: tree_at_def tree_inv_def page_of_def)
  have fuel: "h < TREE_FUEL"
    using shape_height_bound [OF h(1) d(4)] by (simp add: TREE_FUEL_def)
  have pre: "distinct (pages t)" "first_key t \<le> key" "map_of (kvs t) key = None"
    using d(4) h(4) absent key by (simp_all add: t(2) tree_map_valid)
  have "tree_delete pm TREE_FUEL s d key = Inr ([], s)"
    by (rule tree_delete_absent [OF h(1) fuel d(2,3) inv pre(1) d(5) h(3,2) pre(2,3)])
  with False key show ?thesis
    using get_live [OF inv d(1)] by (simp add: BTree_remove_def check_key_limit_iff [THEN iffD2])
qed

text \<open>A deletion costs as much as an insertion and never makes the tree higher.\<close>

theorem BTree_remove_tall:
  assumes inv: "inv s" and tree: "btree (live s) root m" and key: "valid_key key" and here: "m key \<noteq> None"
    and room: "roomy (live s) root key" and tall: "tall (live s) root n" and bud: "3 * n + 4 \<le> budget s"
  shows "\<exists>root' s'. BTree_remove pm root s key = Inr (True, root', s') \<and> inv s'
    \<and> budget s \<le> budget s' + (3 * n + 4) \<and> btree (live s') root' (m(key := None)) \<and> tall (live s') root' n"
proof -
  obtain t where nz: "root \<noteq> 0" and t: "tree_at (live s) root t" "m = tree_map t" "dom (live s) = set (root # pages t)"
    using tree here by (auto simp: btree_def tree_at_def)
  then obtain d where h': "fits t" "sorted1 (kvs t)" "first_key t = []"
    and d: "live s root = Some d" "node_of d t" "stored (live s) t" "distinct (root # pages t)"
      "0 \<notin> set (pages t)"
    by (auto simp: tree_at_def tree_inv_def page_of_def)
  obtain h where h: "shape h t" "fits t" "sorted1 (kvs t)" "first_key t = []" and hn: "h \<le> n"
    using tall_shape [OF tall t(1)] h' by blast
  have h3: "3 * h + 4 \<le> 3 * n + 4"
    using hn by simp
  have fuel: "h < TREE_FUEL"
    using shape_height_bound [OF h(1) d(4)] by (simp add: TREE_FUEL_def)
  have sl: "slack (key_growth key (kvs t)) t"
    using room t(1) by (simp add: roomy_def)
  have pre: "distinct (pages t)" "first_key t \<le> key" "3 * h \<le> budget s" "root \<notin> set (pages t)"
      "map_of (kvs t) key \<noteq> None" "key \<noteq> []"
    using d(4) h(4) h3 bud here key by (simp_all add: t(2) tree_map_valid [OF key] valid_key_def)
  obtain d' s1 t' where del: "tree_delete pm TREE_FUEL s d key = Inr (d', s1)" "rewritten s s1 t d' t' h (3 * h)"
      "kvs t' = kv_del key (kvs t)"
    using tree_delete_ok [OF h(1) fuel d(2,3) inv pre(1) d(5) h(3,2) pre(2) sl order_refl pre(5,3)] by blast
  note rw = del(2) [unfolded rewritten_def]
  have hd: "fst (hd (kvs t)) = []" "kvs t \<noteq> []"
    using shape_kvs [OF h(1)] h(4) by simp_all
  have hd': "kvs t' \<noteq> []" "fst (hd (kvs t')) = []"
    using kv_del_hd [OF h(3), of key] hd pre(6) del(3) Nil_le_bytes [of key] by (auto simp: less_le)
  have sh: "shape h t'"
    using weak_shape_iff [of h t'] weak_shape_kvs [of h t'] rw hd'(1) by simp
  have srt: "sorted1 (kvs t')"
    unfolding del(3) by (rule sorted1_del [OF h(3)])
  have map: "(map_of (kvs t'))([] := None) = m(key := None)"
    by (auto simp: del(3) map_of_kv_del t(2) tree_map_def)
  have inv': "tree_inv t'"
    using sh rw srt hd' shape_kvs [OF sh] unfolding tree_inv_def by auto
  have st1: "inv s1" "0 < budget s1" "step s s1 (3 * h) (set (pages t)) (set (pages t'))"
    using rw h3 bud by (auto simp: updated_def step_def)
  have "root \<notin> set (pages t')"
    using step_fresh [OF st1(3)] d(1) pre(4) by fastforce
  then have "live s1 root = Some d"
    using step_same [OF st1(3)] d(1) pre(4) by simp
  then obtain s2 where s2: "pm_del pm s1 root = Inr s2" "step s1 s2 1 {root} {}"
    using del_page_step [OF st1(1,2)] by blast
  have up: "updated s s2 (Node [(root, [], t)]) t' (3 * h + 1)"
    using updated_del [OF rw [THEN conjunct1] s2(2)] d(1) pre(4) by simp
  have nodes: "btype d' = Inr (ntype t')" "nkeys d' = Inr (length (ents t'))" "d' \<noteq> []"
    using rw node_is_btype node_is_nkeys by (auto simp: node_of_def BTREE_PAGE_SIZE_def)
  note run = nz key get_live [OF inv d(1)] del(1) nodes s2(1)
  show ?thesis
  proof (cases "ntype t' = BNODE_NODE \<and> length (ents t') = 1")
    case True
    then obtain r k u where t': "t' = Node [(r, k, u)]"
      by (cases t') (auto simp: BNODE_NODE_def BNODE_LEAF_def length_Suc_conv)
    have "get_ptr d' 0 = Inr r"
      using rw node_is_ptr [of d' "ntype t'" "ents t'" 0] by (simp add: node_of_def t')
    then have "BTree_remove pm root s key = Inr (True, r, s2)"
      using run True by (simp add: BTree_remove_def check_key_limit_iff [THEN iffD2])
    moreover
    obtain h' where h': "shape h' u" "fits u" "h' \<le> h"
      using sh by (cases h) (auto simp: t')
    then have "tree_inv u"
      using srt hd' shape_kvs [of h' u] by (auto simp: tree_inv_def t')
    then have "inv s2 \<and> budget s \<le> budget s2 + (3 * h + 1) \<and> btree (live s2) r (tree_map u) \<and> tall (live s2) r h'"
      using up h'(1) unfolding t' by (intro root_moved [OF _ t(3)])
    moreover have "tree_map u = m(key := None)"
      using map by (simp add: t' tree_map_def)
    ultimately show ?thesis
      using h3 tall_mono [of "live s2" r h' n] h'(3) hn by auto
  next
    case False
    have "0 < budget s2"
      using step_budget [OF s2(2)] rw h3 bud by (auto simp: updated_def step_def)
    then obtain r s' where new: "pm_new_page pm s2 d' = Inr (r, s')" "step s2 s' 1 {} {r}" "r \<noteq> 0"
        "page_of (live s' r) t'"
      using new_page_step [OF step_inv [OF s2(2)], of d' t'] rw shape_kvs [OF sh] by auto
    have "BTree_remove pm root s key = Inr (True, r, s')"
      using run False new(1) by (auto simp: BTree_remove_def check_key_limit_iff [THEN iffD2])
    moreover have "updated s s' (Node [(root, [], t)]) (Node [(r, [], t')]) (3 * h + 1 + 1)"
      by (rule updated_new_page [OF up new(2,4,3)])
    then have "inv s' \<and> budget s \<le> budget s' + (3 * h + 1 + 1) \<and> btree (live s') r (tree_map t') \<and> tall (live s') r h"
      by (rule root_moved [OF _ t(3) inv' sh])
    ultimately show ?thesis
      using map h3 tall_mono [of "live s'" r h n] hn by (auto simp: tree_map_def)
  qed
qed

corollary BTree_remove_ok:
  assumes "inv s" and "btree (live s) root m" and "valid_key key" and "m key \<noteq> None"
    and "roomy (live s) root key" and "cost s \<le> budget s"
  shows "\<exists>root' s'. BTree_remove pm root s key = Inr (True, root', s') \<and> inv s'
    \<and> budget s \<le> budget s' + cost s \<and> btree (live s') root' (m(key := None))"
  using BTree_remove_tall [OF assms(1-5) tall_pages [OF assms(2)]] assms(6) unfolding cost_def by blast

end

end
