(* ===== verification/FreeList.thy ===== *)
theory FreeList
  imports BNode
begin

text \<open>
  The free list of \<open>storage/freelist\<close>: an unrolled linked list of pages holding (page, version)
  items, which recycles its own drained nodes. Its page access is the C++ interface
  \<open>IFreeListPages\<close>; \<open>fl_write\<close> applies an edit to the writable buffer of a page, which is what the
  code does through the pointer \<open>write_page\<close> returns.
\<close>

section \<open>List nodes\<close>

definition FREE_LIST_HEADER :: nat where "FREE_LIST_HEADER = 8"
definition FREE_LIST_ITEM_SIZE :: nat where "FREE_LIST_ITEM_SIZE = 16"

definition FREE_LIST_CAP :: nat where
  "FREE_LIST_CAP = (BTREE_PAGE_SIZE - FREE_LIST_HEADER) div FREE_LIST_ITEM_SIZE"

text \<open>The signed distance between two versions decides which is older.\<close>

definition version_before :: "u64 \<Rightarrow> u64 \<Rightarrow> bool" where
  "version_before a b \<longleftrightarrow> sint (a - b) < 0"

definition lnode_slot :: "nat \<Rightarrow> nat res" where
  "lnode_slot idx =
     rbind (check (idx < FREE_LIST_CAP) (Assertion_failed ''idx < FREE_LIST_CAP'')) (\<lambda>_.
     Inr (FREE_LIST_HEADER + idx * FREE_LIST_ITEM_SIZE))"

definition lnode_next :: "bytes \<Rightarrow> u64 res" where
  "lnode_next d = read_u64 d 0"

definition lnode_get_ptr :: "bytes \<Rightarrow> nat \<Rightarrow> u64 res" where
  "lnode_get_ptr d idx = rbind (lnode_slot idx) (\<lambda>pos. read_u64 d pos)"

definition lnode_get_version :: "bytes \<Rightarrow> nat \<Rightarrow> u64 res" where
  "lnode_get_version d idx = rbind (lnode_slot idx) (\<lambda>pos. read_u64 d (pos + 8))"

definition lnode_set_next :: "bytes \<Rightarrow> u64 \<Rightarrow> bytes res" where
  "lnode_set_next d p = write_u64 d 0 p"

definition lnode_set_ptr :: "bytes \<Rightarrow> nat \<Rightarrow> u64 \<Rightarrow> bytes res" where
  "lnode_set_ptr d idx p = rbind (lnode_slot idx) (\<lambda>pos. write_u64 d pos p)"

definition lnode_set_version :: "bytes \<Rightarrow> nat \<Rightarrow> u64 \<Rightarrow> bytes res" where
  "lnode_set_version d idx v = rbind (lnode_slot idx) (\<lambda>pos. write_u64 d (pos + 8) v)"

section \<open>The list\<close>

record FreeListState =
  head_page :: u64
  head_seq :: u64
  tail_page :: u64
  tail_seq :: u64

record FreeList =
  fl_version :: u64
  fl_min_reader :: u64
  fl_state :: FreeListState

record 's IFreeListPages =
  fl_read :: "'s \<Rightarrow> u64 \<Rightarrow> bytes res"
  fl_write :: "'s \<Rightarrow> u64 \<Rightarrow> (bytes \<Rightarrow> bytes res) \<Rightarrow> 's res"
  fl_append :: "'s \<Rightarrow> (u64 \<times> 's) res"

definition FreeList_new :: "FreeListState \<Rightarrow> FreeList" where
  "FreeList_new st = \<lparr>fl_version = 0, fl_min_reader = 0, fl_state = st\<rparr>"

definition seq_to_idx :: "u64 \<Rightarrow> nat" where
  "seq_to_idx seq = unat seq mod FREE_LIST_CAP"

text \<open>\<open>Popped\<close>: the item and the head node it drained, each 0 if there is none.\<close>

record Popped =
  popped_ptr :: u64
  drained_head :: u64

definition fl_pop :: "'s IFreeListPages \<Rightarrow> 's \<Rightarrow> FreeList \<Rightarrow> (Popped \<times> FreeList) res" where
  "fl_pop pg s fl =
     (let st = fl_state fl in
     if head_seq st = tail_seq st then Inr (\<lparr>popped_ptr = 0, drained_head = 0\<rparr>, fl) else
     rbind (fl_read pg s (head_page st)) (\<lambda>node.
     let idx = seq_to_idx (head_seq st) in
     rbind (lnode_get_version node idx) (\<lambda>v.
     if \<not> version_before v (fl_min_reader fl) then Inr (\<lparr>popped_ptr = 0, drained_head = 0\<rparr>, fl) else
     rbind (lnode_get_ptr node idx) (\<lambda>p.
     let st = st\<lparr>head_seq := head_seq st + 1\<rparr> in
     if seq_to_idx (head_seq st) = 0 then
       rbind (lnode_next node) (\<lambda>next.
       rbind (check (next \<noteq> 0) (Assertion_failed ''state_.head_page != 0'')) (\<lambda>_.
       Inr (\<lparr>popped_ptr = p, drained_head = head_page st\<rparr>, fl\<lparr>fl_state := st\<lparr>head_page := next\<rparr>\<rparr>)))
     else Inr (\<lparr>popped_ptr = p, drained_head = 0\<rparr>, fl\<lparr>fl_state := st\<rparr>)))))"

definition append_item :: "'s IFreeListPages \<Rightarrow> 's \<Rightarrow> FreeList \<Rightarrow> u64 \<Rightarrow> (FreeList \<times> 's) res" where
  "append_item pg s fl p =
     (let st = fl_state fl; idx = seq_to_idx (tail_seq st) in
     rbind (fl_write pg s (tail_page st) (\<lambda>node.
       rbind (lnode_set_ptr node idx p) (\<lambda>node. lnode_set_version node idx (fl_version fl)))) (\<lambda>s.
     Inr (fl\<lparr>fl_state := st\<lparr>tail_seq := tail_seq st + 1\<rparr>\<rparr>, s)))"

definition push_tail :: "'s IFreeListPages \<Rightarrow> 's \<Rightarrow> FreeList \<Rightarrow> u64 \<Rightarrow> (FreeList \<times> 's) res" where
  "push_tail pg s fl p =
     rbind (check (p \<noteq> 0) (Assertion_failed ''ptr != 0'')) (\<lambda>_.
     rbind (check (\<not> version_before (fl_version fl) (fl_min_reader fl))
       (Assertion_failed ''!version_before(version, min_reader)'')) (\<lambda>_.
     rbind (append_item pg s fl p) (\<lambda>(fl, s).
     if seq_to_idx (tail_seq (fl_state fl)) \<noteq> 0 then Inr (fl, s) else
     rbind (fl_pop pg s fl) (\<lambda>(popped, fl).
     rbind (if popped_ptr popped \<noteq> 0 then Inr (popped_ptr popped, s) else fl_append pg s) (\<lambda>(next, s).
     rbind (fl_write pg s (tail_page (fl_state fl)) (\<lambda>node. lnode_set_next node next)) (\<lambda>s.
     let fl = fl\<lparr>fl_state := (fl_state fl)\<lparr>tail_page := next\<rparr>\<rparr> in
     if drained_head popped \<noteq> 0 then append_item pg s fl (drained_head popped) else Inr (fl, s)))))))"

definition pop_head :: "'s IFreeListPages \<Rightarrow> 's \<Rightarrow> FreeList \<Rightarrow> (u64 \<times> FreeList \<times> 's) res" where
  "pop_head pg s fl =
     rbind (fl_pop pg s fl) (\<lambda>(popped, fl).
     rbind (if drained_head popped \<noteq> 0 then push_tail pg s fl (drained_head popped) else Inr (fl, s))
       (\<lambda>(fl, s). Inr (popped_ptr popped, fl, s)))"

definition fl_revert :: "FreeList \<Rightarrow> FreeListState \<Rightarrow> FreeList" where
  "fl_revert fl st = fl\<lparr>fl_state := st\<rparr>"

end
