(* ===== verification/FreeList_Spec.thy ===== *)
theory FreeList_Spec
  imports FreeList BNode_Spec
begin

text \<open>
  Correctness of the free list relative to its pages: the bytes of its chain of nodes represent a
  queue of (page, version) items, popping takes the oldest item once no reader needs it, pushing
  appends, and the list recycles its own nodes without ever owning a page twice.
\<close>

section \<open>Eight-byte fields of a page\<close>

lemma write_u64_ok:
  assumes "pos + 8 \<le> length d"
  shows "\<exists>d'. write_u64 d pos v = Inr d' \<and> length d' = length d \<and> read_u64 d' pos = Inr v
    \<and> (\<forall>q. q + 8 \<le> pos \<or> pos + 8 \<le> q \<longrightarrow> read_u64 d' q = read_u64 d q)
    \<and> take pos d' = take pos d \<and> drop (pos + 8) d' = drop (pos + 8) d"
proof -
  define a c where "a = take pos d" and "c = drop (pos + 8) d"
  define b where "b = take 8 (drop pos d)"
  have d: "d = a @ b @ c" and len: "length a = pos" "length b = 8"
    using assms by (simp_all add: a_def b_def c_def add.commute [of pos 8] drop_drop [symmetric] del: drop_drop)
  let ?d' = "a @ le_bytes 8 (unat v) @ c"
  have "read_u64 ?d' q = read_u64 d q" if "q + 8 \<le> pos \<or> pos + 8 \<le> q" for q
    using that
  proof
    assume "q + 8 \<le> pos"
    then have "load (a @ x @ c) q 8 = (if q + 8 \<le> pos + length x + length c then Inr (take 8 (drop q a)) else Inl Bad_access)" for x
      using len by (simp add: load_def)
    then show ?thesis
      using len by (simp add: read_u64_def d)
  next
    assume "pos + 8 \<le> q"
    then obtain k where q: "q = pos + 8 + k"
      using le_Suc_ex by blast
    then have "load (a @ x @ c) q 8 = (if k + 8 \<le> length c then Inr (take 8 (drop k c)) else Inl Bad_access)"
      if "length x = 8" for x
      using len that by (simp add: load_def)
    then show ?thesis
      using len by (simp add: read_u64_def d)
  qed
  then show ?thesis
    using len unfolding d by (intro exI [of _ ?d']) (simp add: write_u64_mid read_u64_mid)
qed

lemma read_u64_ok: "pos + 8 \<le> length d \<Longrightarrow> \<exists>v. read_u64 d pos = Inr v"
  by (simp add: read_u64_def load_def)

section \<open>List nodes\<close>

lemma cap_facts: "FREE_LIST_CAP = 255" "0 < FREE_LIST_CAP"
  by (simp_all add: FREE_LIST_CAP_def BTREE_PAGE_SIZE_def FREE_LIST_HEADER_def FREE_LIST_ITEM_SIZE_def)

definition slot_is :: "bytes \<Rightarrow> nat \<Rightarrow> u64 \<times> u64 \<Rightarrow> bool" where
  "slot_is d i x \<longleftrightarrow> lnode_get_ptr d i = Inr (fst x) \<and> lnode_get_version d i = Inr (snd x)"

lemma lnode_slot_ok: "i < FREE_LIST_CAP \<Longrightarrow> lnode_slot i = Inr (8 + i * 16)"
  by (simp add: lnode_slot_def FREE_LIST_HEADER_def FREE_LIST_ITEM_SIZE_def)

lemma slot_room: "i < FREE_LIST_CAP \<Longrightarrow> length d = BTREE_PAGE_SIZE \<Longrightarrow> 8 + i * 16 + 16 \<le> length d"
  by (simp add: cap_facts BTREE_PAGE_SIZE_def)

text \<open>The bytes of the first \<open>k\<close> slots, which later pushes leave alone.\<close>

definition items_below :: "nat \<Rightarrow> bytes \<Rightarrow> bytes" where
  "items_below k d = drop 8 (take (8 + k * 16) d)"

lemma items_below_slot:
  assumes "items_below k d = items_below k d'" and "length d = BTREE_PAGE_SIZE" "length d' = BTREE_PAGE_SIZE"
    and "i < k" "k \<le> FREE_LIST_CAP"
  shows "slot_is d i = slot_is d' i"
proof -
  have read: "read_u64 d q = read_u64 d' q" if "8 \<le> q" "q + 8 \<le> 8 + k * 16" for q
  proof -
    have take8: "take 8 (drop q e) = take 8 (drop (q - 8) (items_below k e))" for e
      using that by (simp add: items_below_def drop_take min_def)
    have "q + 8 \<le> BTREE_PAGE_SIZE"
      using that assms(5) by (simp add: cap_facts BTREE_PAGE_SIZE_def)
    then show ?thesis
      using assms(2,3) take8 [of d] take8 [of d'] unfolding read_u64_def load_def assms(1) by simp
  qed
  have i: "i < FREE_LIST_CAP" "8 + i * 16 + 16 \<le> 8 + k * 16"
    using assms(4,5) by simp_all
  show ?thesis
    using read [of "8 + i * 16"] read [of "8 + i * 16 + 8"] i(2)
    by (simp add: fun_eq_iff slot_is_def lnode_get_ptr_def lnode_get_version_def lnode_slot_ok [OF i(1)])
qed

lemma items_below_take: "take p d = take p d' \<Longrightarrow> 8 + k * 16 \<le> p \<Longrightarrow> items_below k d = items_below k d'"
  unfolding items_below_def by (metis min.absorb1 take_take)

lemma items_below_drop: "drop 8 d = drop 8 d' \<Longrightarrow> items_below k d = items_below k d'"
  by (simp add: items_below_def drop_take)

lemma items_below_mono: "items_below k d = items_below k d' \<Longrightarrow> j \<le> k \<Longrightarrow> items_below j d = items_below j d'"
proof -
  assume h: "items_below k d = items_below k d'" and j: "j \<le> k"
  have "items_below j e = take (j * 16) (items_below k e)" for e
    using j by (simp add: items_below_def drop_take min_def)
  then show ?thesis
    using h by simp
qed

definition set_slot :: "nat \<Rightarrow> u64 \<Rightarrow> u64 \<Rightarrow> bytes \<Rightarrow> bytes res" where
  "set_slot i p v d = rbind (lnode_set_ptr d i p) (\<lambda>d. lnode_set_version d i v)"

lemma set_slot_ok:
  assumes "length d = BTREE_PAGE_SIZE" and "i < FREE_LIST_CAP"
  shows "\<exists>d'. set_slot i p v d = Inr d' \<and> length d' = BTREE_PAGE_SIZE \<and> slot_is d' i (p, v)
    \<and> lnode_next d' = lnode_next d \<and> (\<forall>j. j \<noteq> i \<longrightarrow> j < FREE_LIST_CAP \<longrightarrow> slot_is d' j = slot_is d j)
    \<and> items_below i d' = items_below i d"
proof -
  let ?o = "8 + i * 16"
  obtain d1 where d1: "write_u64 d ?o p = Inr d1" "length d1 = length d" "read_u64 d1 ?o = Inr p"
      "\<forall>q. q + 8 \<le> ?o \<or> ?o + 8 \<le> q \<longrightarrow> read_u64 d1 q = read_u64 d q" "take ?o d1 = take ?o d"
    using write_u64_ok [of ?o d p] slot_room [OF assms(2,1)] by auto
  obtain d2 where d2: "write_u64 d1 (?o + 8) v = Inr d2" "length d2 = length d1" "read_u64 d2 (?o + 8) = Inr v"
      "\<forall>q. q + 8 \<le> ?o + 8 \<or> ?o + 8 + 8 \<le> q \<longrightarrow> read_u64 d2 q = read_u64 d1 q"
      "take (?o + 8) d2 = take (?o + 8) d1"
    using write_u64_ok [of "?o + 8" d1 v] slot_room [OF assms(2,1)] d1(2) by auto
  have far: "read_u64 d2 q = read_u64 d q" if "q + 8 \<le> ?o \<or> ?o + 16 \<le> q" for q
    using d1(4) d2(4) that by auto
  have "slot_is d2 j = slot_is d j" if "j \<noteq> i" "j < FREE_LIST_CAP" for j
  proof -
    have "j < i \<or> i < j"
      using that(1) by linarith
    then have "read_u64 d2 (8 + j * 16) = read_u64 d (8 + j * 16)" "read_u64 d2 (8 + j * 16 + 8) = read_u64 d (8 + j * 16 + 8)"
      using far [of "8 + j * 16"] far [of "8 + j * 16 + 8"] by (elim disjE; simp)+
    then show ?thesis
      using that(2) by (simp add: fun_eq_iff slot_is_def lnode_get_ptr_def lnode_get_version_def lnode_slot_ok)
  qed
  moreover have "slot_is d2 i (p, v)"
    using d2(3,4) d1(3) assms(2) by (simp add: slot_is_def lnode_get_ptr_def lnode_get_version_def lnode_slot_ok)
  moreover have "lnode_next d2 = lnode_next d"
    using far [of 0] by (simp add: lnode_next_def)
  moreover have "items_below i d2 = items_below i d"
    using items_below_take [OF d2(5), of i] items_below_take [OF d1(5), of i] by simp
  ultimately show ?thesis
    using d1(1,2) d2(1,2) assms
    by (intro exI [of _ d2]) (simp add: set_slot_def lnode_set_ptr_def lnode_set_version_def lnode_slot_ok)
qed

lemma lnode_set_next_ok:
  assumes "length d = BTREE_PAGE_SIZE"
  shows "\<exists>d'. lnode_set_next d p = Inr d' \<and> length d' = BTREE_PAGE_SIZE \<and> lnode_next d' = Inr p
    \<and> (\<forall>j. j < FREE_LIST_CAP \<longrightarrow> slot_is d' j = slot_is d j) \<and> (\<forall>k. items_below k d' = items_below k d)"
proof -
  obtain d' where d': "write_u64 d 0 p = Inr d'" "length d' = length d" "read_u64 d' 0 = Inr p"
      "\<forall>q. q + 8 \<le> 0 \<or> 0 + 8 \<le> q \<longrightarrow> read_u64 d' q = read_u64 d q" "drop 8 d' = drop 8 d"
    using write_u64_ok [of 0 d p] assms by (auto simp: BTREE_PAGE_SIZE_def)
  have "slot_is d' j = slot_is d j" if "j < FREE_LIST_CAP" for j
    using d'(4) that by (simp add: fun_eq_iff slot_is_def lnode_get_ptr_def lnode_get_version_def lnode_slot_ok)
  moreover have "items_below k d' = items_below k d" for k
    by (rule items_below_drop [OF d'(5)])
  ultimately show ?thesis
    using d'(1-3) assms by (intro exI [of _ d']) (simp add: lnode_set_next_def lnode_next_def)
qed

section \<open>The represented queue\<close>

text \<open>
  \<open>fl_part m V st ns xs\<close>: under the state \<open>st\<close> the chain of nodes \<open>ns\<close> holds the items \<open>xs\<close>, and the
  tail node is the one for positions \<open>m * CAP .. < (m + 1) * CAP\<close>. In between operations \<open>m\<close> is the
  node the next item goes to; only while a full tail is being extended is it the node before.
\<close>

type_synonym item = "u64 \<times> u64"

definition fl_owned :: "u64 list \<Rightarrow> item list \<Rightarrow> u64 list" where
  "fl_owned ns xs = ns @ map fst xs"

definition fl_part :: "nat \<Rightarrow> (u64 \<rightharpoonup> bytes) \<Rightarrow> FreeListState \<Rightarrow> u64 list \<Rightarrow> item list \<Rightarrow> bool" where
  "fl_part m V st ns xs \<longleftrightarrow>
     unat (tail_seq st) = unat (head_seq st) + length xs
     \<and> unat (head_seq st) div FREE_LIST_CAP \<le> m \<and> length ns = m - unat (head_seq st) div FREE_LIST_CAP + 1
     \<and> m * FREE_LIST_CAP \<le> unat (tail_seq st) \<and> unat (tail_seq st) \<le> (m + 1) * FREE_LIST_CAP
     \<and> hd ns = head_page st \<and> last ns = tail_page st
     \<and> distinct (fl_owned ns xs) \<and> 0 \<notin> set (fl_owned ns xs) \<and> set (fl_owned ns xs) \<subseteq> dom V
     \<and> (\<forall>i. Suc i < length ns \<longrightarrow> (\<exists>d. V (ns ! i) = Some d \<and> lnode_next d = Inr (ns ! Suc i)))
     \<and> (\<forall>j<length xs. \<exists>d. V (ns ! ((unat (head_seq st) + j) div FREE_LIST_CAP - unat (head_seq st) div FREE_LIST_CAP)) = Some d
          \<and> slot_is d ((unat (head_seq st) + j) mod FREE_LIST_CAP) (xs ! j))"

definition fl_rep :: "(u64 \<rightharpoonup> bytes) \<Rightarrow> FreeListState \<Rightarrow> u64 list \<Rightarrow> item list \<Rightarrow> bool" where
  "fl_rep V st ns xs \<longleftrightarrow> fl_part (unat (tail_seq st) div FREE_LIST_CAP) V st ns xs"

text \<open>Only the bytes of the nodes matter.\<close>

lemma fl_part_frame:
  assumes rep: "fl_part m V st ns xs" and same: "\<forall>q\<in>set ns. V' q = V q" and dom: "set (fl_owned ns xs) \<subseteq> dom V'"
  shows "fl_part m V' st ns xs"
proof -
  define h where "h = unat (head_seq st)"
  note R = rep [unfolded fl_part_def, folded h_def]
  have node: "V' (ns ! ((h + j) div FREE_LIST_CAP - h div FREE_LIST_CAP))
      = V (ns ! ((h + j) div FREE_LIST_CAP - h div FREE_LIST_CAP))" if j: "j < length xs" for j
  proof -
    have "h + j < (m + 1) * FREE_LIST_CAP"
      using R j by linarith
    then have "(h + j) div FREE_LIST_CAP < m + 1"
      using cap_facts(2) by (simp add: less_mult_imp_div_less)
    then have "(h + j) div FREE_LIST_CAP - h div FREE_LIST_CAP < length ns"
      using R by linarith
    then show ?thesis
      using same by simp
  qed
  have link: "V' (ns ! i) = V (ns ! i)" if "Suc i < length ns" for i
    using same that by simp
  show ?thesis
    using R dom node link by (simp add: fl_part_def h_def [symmetric])
qed

text \<open>The bytes determine the queue.\<close>

lemma fl_part_unique:
  assumes "fl_part m V st ns xs" and "fl_part m V st ns' xs'"
  shows "ns = ns' \<and> xs = xs'"
proof
  define h where "h = unat (head_seq st)"
  note R = assms [unfolded fl_part_def, folded h_def]
  have len: "length ns = length ns'" "length xs = length xs'"
    using R by auto
  have "ns \<noteq> []" "ns' \<noteq> []"
    using R by auto
  then have zero: "ns ! 0 = ns' ! 0"
    using R by (simp add: hd_conv_nth [symmetric])
  have "i < length ns \<Longrightarrow> ns ! i = ns' ! i" for i
  proof (induction i)
    case (Suc i)
    then have same: "ns ! i = ns' ! i" and i: "Suc i < length ns" "Suc i < length ns'"
      using len by simp_all
    obtain d where "V (ns ! i) = Some d" "lnode_next d = Inr (ns ! Suc i)"
      using R(1) i by blast
    moreover obtain e where "V (ns' ! i) = Some e" "lnode_next e = Inr (ns' ! Suc i)"
      using R(2) i by blast
    ultimately show ?case
      using same by simp
  qed (use zero in simp)
  then show ns: "ns = ns'"
    using len(1) by (intro nth_equalityI)
  show "xs = xs'"
  proof (rule nth_equalityI [OF len(2)])
    fix j
    assume j: "j < length xs"
    let ?n = "ns ! ((h + j) div FREE_LIST_CAP - h div FREE_LIST_CAP)"
    obtain d where "V ?n = Some d" "slot_is d ((h + j) mod FREE_LIST_CAP) (xs ! j)"
      using R(1) j by blast
    moreover obtain e where "V ?n = Some e" "slot_is e ((h + j) mod FREE_LIST_CAP) (xs' ! j)"
      using R(2) j len(2) ns by auto
    ultimately show "xs ! j = xs' ! j"
      by (simp add: slot_is_def prod_eq_iff)
  qed
qed

lemma fl_rep_unique: "fl_rep V st ns xs \<Longrightarrow> fl_rep V st ns' xs' \<Longrightarrow> ns = ns' \<and> xs = xs'"
  unfolding fl_rep_def by (rule fl_part_unique)

lemma fl_rep_frame:
  assumes "fl_rep V st ns xs" and "\<forall>q\<in>set ns. V' q = V q" and "set (fl_owned ns xs) \<subseteq> dom V'"
  shows "fl_rep V' st ns xs"
  using assms unfolding fl_rep_def by (rule fl_part_frame)

lemma fl_part_rep:
  assumes "fl_part m V st ns xs" and "unat (tail_seq st) < (m + 1) * FREE_LIST_CAP"
  shows "fl_rep V st ns xs"
proof -
  have "unat (tail_seq st) div FREE_LIST_CAP = m"
    using assms cap_facts(2) by (intro div_nat_eqI) (simp_all add: fl_part_def algebra_simps)
  with assms(1) show ?thesis
    by (simp add: fl_rep_def)
qed

lemma fl_rep_slot:
  assumes "fl_rep V st ns xs"
  shows "fl_part (unat (tail_seq st) div FREE_LIST_CAP) V st ns xs"
    and "unat (tail_seq st) < (unat (tail_seq st) div FREE_LIST_CAP + 1) * FREE_LIST_CAP"
  using assms cap_facts(2) dividend_less_div_times [of FREE_LIST_CAP "unat (tail_seq st)"]
  by (simp_all add: fl_rep_def algebra_simps)

lemma unat_Suc64: "unat x + 1 < 2 ^ 64 \<Longrightarrow> unat (x + 1) = unat x + 1" for x :: u64
  by (simp add: unat_word_ariths unat_of_nat)

lemma div_mod_Suc:
  assumes "0 < (c :: nat)"
  shows "(h + 1) mod c \<noteq> 0 \<Longrightarrow> (h + 1) div c = h div c" and "(h + 1) mod c = 0 \<Longrightarrow> (h + 1) div c = h div c + 1"
  using assms by (simp_all add: div_Suc)

lemma owned_last: "ns \<noteq> [] \<Longrightarrow> last ns \<in> set (fl_owned ns xs)"
  by (simp add: fl_owned_def)

lemma fl_part_owned:
  assumes "fl_part m V st ns xs"
  shows "ns \<noteq> []" and "distinct (fl_owned ns xs)" and "0 \<notin> set (fl_owned ns xs)"
    and "set (fl_owned ns xs) \<subseteq> dom V" and "tail_page st = last ns"
  using assms by (auto simp: fl_part_def)

text \<open>The pages a pop may hand out, and a page whose first \<open>k\<close> slots stay as they are.\<close>

definition reusable :: "u64 \<Rightarrow> item list \<Rightarrow> u64 set" where
  "reusable oldest xs = {p. \<exists>v. (p, v) \<in> set xs \<and> version_before v oldest}"

definition keeps_items :: "nat \<Rightarrow> (u64 \<rightharpoonup> bytes) \<Rightarrow> (u64 \<rightharpoonup> bytes) \<Rightarrow> u64 \<Rightarrow> bool" where
  "keeps_items k V V' p \<longleftrightarrow> (\<forall>d. V p = Some d \<longrightarrow> (\<exists>d'. V' p = Some d' \<and> items_below k d' = items_below k d))"

lemma keeps_items_refl: "V' p = V p \<Longrightarrow> keeps_items k V V' p"
  by (simp add: keeps_items_def)

lemma keeps_items_trans: "keeps_items k V V' p \<Longrightarrow> keeps_items k V' V'' p \<Longrightarrow> keeps_items k V V'' p"
  unfolding keeps_items_def by fastforce

lemma keeps_items_mono: "keeps_items k V V' p \<Longrightarrow> j \<le> k \<Longrightarrow> keeps_items j V V' p"
  unfolding keeps_items_def using items_below_mono by blast

lemma reusable_push [simp]: "\<not> version_before v oldest \<Longrightarrow> reusable oldest (xs @ [(p, v)]) = reusable oldest xs"
  by (auto simp: reusable_def)

lemma reusable_mono: "set xs' \<subseteq> set xs \<union> UNIV \<times> {v} \<Longrightarrow> \<not> version_before v oldest \<Longrightarrow> reusable oldest xs' \<subseteq> reusable oldest xs"
  by (auto simp: reusable_def)

text \<open>The queue outlives anything written to the tail node past its last item.\<close>

lemma fl_rep_frame_tail:
  assumes rep: "fl_rep V st ns xs" and same: "\<forall>q\<in>set (butlast ns). V' q = V q"
    and tail: "keeps_items (unat (tail_seq st) mod FREE_LIST_CAP) V V' (last ns)"
    and dom: "set (fl_owned ns xs) \<subseteq> dom V'"
    and len: "\<forall>d. V (last ns) = Some d \<longrightarrow> length d = BTREE_PAGE_SIZE" "\<forall>d. V' (last ns) = Some d \<longrightarrow> length d = BTREE_PAGE_SIZE"
  shows "fl_rep V' st ns xs"
proof -
  define m where "m = unat (tail_seq st) div FREE_LIST_CAP"
  define h where "h = unat (head_seq st)"
  note R = fl_rep_slot(1) [OF rep, folded m_def, unfolded fl_part_def, folded h_def]
  have ne: "ns \<noteq> []"
    using R by auto
  have but: "V' (ns ! i) = V (ns ! i)" if "Suc i < length ns" for i
  proof -
    have "ns ! i = butlast ns ! i" "i < length (butlast ns)"
      using that by (simp_all add: nth_butlast)
    then show ?thesis
      using same nth_mem by metis
  qed
  have items: "\<exists>d. V' (ns ! ((h + j) div FREE_LIST_CAP - h div FREE_LIST_CAP)) = Some d
      \<and> slot_is d ((h + j) mod FREE_LIST_CAP) (xs ! j)" if j: "j < length xs" for j
  proof -
    let ?i = "(h + j) div FREE_LIST_CAP - h div FREE_LIST_CAP"
    obtain d where d: "V (ns ! ?i) = Some d" "slot_is d ((h + j) mod FREE_LIST_CAP) (xs ! j)"
      using R j by blast
    have t: "h + j < unat (tail_seq st)"
      using R j by simp
    then have le: "(h + j) div FREE_LIST_CAP \<le> m"
      unfolding m_def by (intro div_le_mono) simp
    show ?thesis
    proof (cases "(h + j) div FREE_LIST_CAP = m")
      case True
      then have "?i = length ns - 1"
        using R by simp
      then have last: "ns ! ?i = last ns"
        using ne by (simp add: last_conv_nth)
      then obtain d' where d': "V' (last ns) = Some d'"
          "items_below (unat (tail_seq st) mod FREE_LIST_CAP) d' = items_below (unat (tail_seq st) mod FREE_LIST_CAP) d"
        using tail d(1) by (auto simp: keeps_items_def)
      have "(h + j) mod FREE_LIST_CAP < unat (tail_seq st) mod FREE_LIST_CAP"
        using t True unfolding m_def by (metis div_mult_mod_eq nat_add_left_cancel_less)
      then have "slot_is d' ((h + j) mod FREE_LIST_CAP) = slot_is d ((h + j) mod FREE_LIST_CAP)"
        using len last d(1) d' cap_facts(2) mod_less_divisor [of FREE_LIST_CAP "unat (tail_seq st)"]
        by (intro items_below_slot [OF d'(2)]) auto
      then show ?thesis
        using d' d(2) by (simp add: last)
    next
      case False
      then have "(h + j) div FREE_LIST_CAP < m"
        using le by simp
      moreover have "h div FREE_LIST_CAP \<le> (h + j) div FREE_LIST_CAP"
        by (intro div_le_mono) simp
      moreover have "length ns = m - h div FREE_LIST_CAP + 1"
        using R by blast
      ultimately have "Suc ?i < length ns"
        by linarith
      then show ?thesis
        using but d by simp
    qed
  qed
  have links: "\<exists>d. V' (ns ! i) = Some d \<and> lnode_next d = Inr (ns ! Suc i)" if "Suc i < length ns" for i
    using R but [OF that] that by simp
  show ?thesis
    using R items links dom unfolding fl_rep_def fl_part_def m_def [symmetric] h_def [symmetric] by blast
qed

section \<open>The contract of the pages under the list\<close>

locale free_pages =
  fixes pg :: "'s IFreeListPages"
    and inv :: "'s \<Rightarrow> bool"
    and view :: "'s \<Rightarrow> u64 \<rightharpoonup> bytes"
    and avail :: "'s \<Rightarrow> nat"
    and dirty :: "'s \<Rightarrow> u64 set"
  assumes view_length: "inv s \<Longrightarrow> view s p = Some d \<Longrightarrow> length d = BTREE_PAGE_SIZE"
    and read: "inv s \<Longrightarrow> view s p = Some d \<Longrightarrow> fl_read pg s p = Inr d"
    and edit: "inv s \<Longrightarrow> view s p = Some d \<Longrightarrow> f d = Inr d' \<Longrightarrow> length d' = BTREE_PAGE_SIZE \<Longrightarrow>
      \<exists>s'. fl_write pg s p f = Inr s' \<and> inv s' \<and> view s' = (view s)(p \<mapsto> d') \<and> avail s' = avail s
        \<and> dirty s' = insert p (dirty s)"
    and append: "inv s \<Longrightarrow> 0 < avail s \<Longrightarrow>
      \<exists>p d s'. fl_append pg s = Inr (p, s') \<and> inv s' \<and> p \<noteq> 0 \<and> view s p = None
        \<and> view s' = (view s)(p \<mapsto> d) \<and> avail s = Suc (avail s') \<and> dirty s' = insert p (dirty s)"
begin

text \<open>What a pop leaves of the chain: the drained head node is no longer part of it.\<close>

definition chain_after :: "u64 \<Rightarrow> u64 list \<Rightarrow> u64 list \<Rightarrow> bool" where
  "chain_after drained ns ns' \<longleftrightarrow> (if drained = 0 then ns' = ns else ns = drained # ns')"

definition pop_result :: "nat \<Rightarrow> (u64 \<rightharpoonup> bytes) \<Rightarrow> FreeList \<Rightarrow> u64 list \<Rightarrow> item list \<Rightarrow> Popped \<Rightarrow> FreeList \<Rightarrow>
    u64 list \<Rightarrow> item list \<Rightarrow> bool" where
  "pop_result m V fl ns xs r fl' ns' xs' \<longleftrightarrow>
     (if popped_ptr r = 0
      then drained_head r = 0 \<and> fl' = fl \<and> ns' = ns \<and> xs' = xs
        \<and> (xs = [] \<or> \<not> version_before (snd (hd xs)) (fl_min_reader fl))
      else \<exists>v. xs = (popped_ptr r, v) # xs' \<and> version_before v (fl_min_reader fl)
        \<and> chain_after (drained_head r) ns ns' \<and> fl_part m V (fl_state fl') ns' xs'
        \<and> fl_version fl' = fl_version fl \<and> fl_min_reader fl' = fl_min_reader fl
        \<and> tail_page (fl_state fl') = tail_page (fl_state fl) \<and> tail_seq (fl_state fl') = tail_seq (fl_state fl))"

lemma pop_ok:
  assumes inv: "inv s" and rep: "fl_part m (view s) (fl_state fl) ns xs"
    and room: "xs \<noteq> [] \<Longrightarrow> version_before (snd (hd xs)) (fl_min_reader fl) \<Longrightarrow>
      (unat (head_seq (fl_state fl)) + 1) div FREE_LIST_CAP \<le> m"
  shows "\<exists>r fl' ns' xs'. fl_pop pg s fl = Inr (r, fl') \<and> pop_result m (view s) fl ns xs r fl' ns' xs'"
proof (cases xs)
  case Nil
  then have "head_seq (fl_state fl) = tail_seq (fl_state fl)"
    using rep by (auto simp: fl_part_def intro!: word_unat_eq_iff [THEN iffD2])
  then show ?thesis
    using Nil by (intro exI) (auto simp: fl_pop_def pop_result_def)
next
  case (Cons x xs')
  obtain p v where x: "x = (p, v)"
    by (cases x)
  define st where "st = fl_state fl"
  define h where "h = unat (head_seq st)"
  note R = rep [unfolded fl_part_def, folded st_def, folded h_def]
  have ne: "head_seq st \<noteq> tail_seq st"
    using R Cons by (auto simp: h_def)
  have h1: "unat (head_seq st + 1) = h + 1"
    using R Cons unat_u64_less [of "tail_seq st"] by (intro unat_Suc64 [of "head_seq st", folded h_def]) simp
  have nsne: "ns \<noteq> []"
    using R by auto
  then have hd: "head_page st = ns ! 0"
    using R by (simp add: hd_conv_nth [symmetric])
  obtain d where d: "view s (head_page st) = Some d" "slot_is d (h mod FREE_LIST_CAP) (p, v)"
    using R Cons x by (force simp: hd)
  have read_d: "fl_read pg s (head_page st) = Inr d"
    by (rule read [OF inv d(1)])
  have p0: "p \<noteq> 0"
    using R Cons x by (auto simp: fl_owned_def)
  note run = ne read_d d(2) p0
  show ?thesis
  proof (cases "version_before v (fl_min_reader fl)")
    case False
    then have "fl_pop pg s fl = Inr (\<lparr>popped_ptr = 0, drained_head = 0\<rparr>, fl)"
      using run by (simp add: fl_pop_def st_def seq_to_idx_def h_def slot_is_def)
    then show ?thesis
      using False Cons x by (intro exI) (auto simp: pop_result_def)
  next
    case True
    have m: "(h + 1) div FREE_LIST_CAP \<le> m"
      using room True Cons x by (simp add: h_def st_def)
    have items: "\<forall>j<length xs'. \<exists>d. view s (ns ! ((h + 1 + j) div FREE_LIST_CAP - h div FREE_LIST_CAP)) = Some d
        \<and> slot_is d ((h + 1 + j) mod FREE_LIST_CAP) (xs' ! j)"
    proof (intro allI impI)
      fix j
      assume "j < length xs'"
      then have "Suc j < length xs"
        using Cons by simp
      then show "\<exists>d. view s (ns ! ((h + 1 + j) div FREE_LIST_CAP - h div FREE_LIST_CAP)) = Some d
        \<and> slot_is d ((h + 1 + j) mod FREE_LIST_CAP) (xs' ! j)"
        using R Cons by (auto dest!: spec [of _ "Suc j"])
    qed
    have own: "set (fl_owned ns xs') \<subseteq> set (fl_owned ns xs)" "distinct (fl_owned ns xs')"
      using R Cons by (auto simp: fl_owned_def)
    show ?thesis
    proof (cases "(h + 1) mod FREE_LIST_CAP = 0")
      case False
      let ?st = "st\<lparr>head_seq := head_seq st + 1\<rparr>"
      have dv: "(h + 1) div FREE_LIST_CAP = h div FREE_LIST_CAP"
        using False cap_facts by (intro div_mod_Suc)
      have "fl_part m (view s) ?st ns xs'"
        using R own items Cons h1 dv by (auto simp: fl_part_def)
      moreover have "fl_pop pg s fl = Inr (\<lparr>popped_ptr = p, drained_head = 0\<rparr>, fl\<lparr>fl_state := ?st\<rparr>)"
        using run True False h1 by (simp add: fl_pop_def st_def seq_to_idx_def h_def slot_is_def Let_def)
      ultimately show ?thesis
        using True Cons x p0 by (intro exI) (auto simp: pop_result_def chain_after_def st_def)
    next
      case drained: True
      have dv: "(h + 1) div FREE_LIST_CAP = h div FREE_LIST_CAP + 1"
        using drained cap_facts by (intro div_mod_Suc)
      have two: "Suc 0 < length ns"
        using R m dv by simp
      then obtain n0 n1 ns1 where ns: "ns = n0 # n1 # ns1"
        by (cases ns rule: remdups_adj.cases) auto
      have next_d: "lnode_next d = Inr n1"
        using R two d(1) by (auto simp: hd ns dest!: spec [of _ 0])
      have n01: "n1 \<noteq> 0" "n0 \<noteq> 0"
        using R by (auto simp: fl_owned_def ns)
      let ?st = "st\<lparr>head_seq := head_seq st + 1, head_page := n1\<rparr>"
      have links: "\<forall>i. Suc i < length (n1 # ns1) \<longrightarrow>
          (\<exists>d. view s ((n1 # ns1) ! i) = Some d \<and> lnode_next d = Inr ((n1 # ns1) ! Suc i))"
      proof (intro allI impI)
        fix i
        assume "Suc i < length (n1 # ns1)"
        then show "\<exists>d. view s ((n1 # ns1) ! i) = Some d \<and> lnode_next d = Inr ((n1 # ns1) ! Suc i)"
          using R by (auto simp: ns dest!: spec [of _ "Suc i"])
      qed
      have items': "\<forall>j<length xs'. \<exists>d. view s ((n1 # ns1) ! ((h + 1 + j) div FREE_LIST_CAP - (h + 1) div FREE_LIST_CAP)) = Some d
        \<and> slot_is d ((h + 1 + j) mod FREE_LIST_CAP) (xs' ! j)"
      proof (intro allI impI)
        fix j
        assume j: "j < length xs'"
        have "(h + 1) div FREE_LIST_CAP \<le> (h + 1 + j) div FREE_LIST_CAP"
          by (intro div_le_mono) simp
        then have "(h + 1 + j) div FREE_LIST_CAP - h div FREE_LIST_CAP =
            Suc ((h + 1 + j) div FREE_LIST_CAP - (h + 1) div FREE_LIST_CAP)"
          using dv by linarith
        with items j show "\<exists>d. view s ((n1 # ns1) ! ((h + 1 + j) div FREE_LIST_CAP - (h + 1) div FREE_LIST_CAP)) = Some d
          \<and> slot_is d ((h + 1 + j) mod FREE_LIST_CAP) (xs' ! j)"
          by (metis ns nth_Cons_Suc)
      qed
      have "fl_part m (view s) ?st (n1 # ns1) xs'"
        using R own links items' Cons h1 dv m ns by (auto simp: fl_part_def fl_owned_def)
      moreover have "fl_pop pg s fl = Inr (\<lparr>popped_ptr = p, drained_head = n0\<rparr>, fl\<lparr>fl_state := ?st\<rparr>)"
        using run True drained h1 next_d n01 hd
        by (simp add: fl_pop_def st_def seq_to_idx_def h_def slot_is_def Let_def ns)
      ultimately show ?thesis
        using True Cons x p0 n01 ns
        by (intro exI [of _ "\<lparr>popped_ptr = p, drained_head = n0\<rparr>"] exI [of _ "fl\<lparr>fl_state := ?st\<rparr>"]
            exI [of _ "n1 # ns1"] exI [of _ xs']) (simp add: pop_result_def chain_after_def st_def)
    qed
  qed
qed

lemma append_item_ok:
  assumes inv: "inv s" and rep: "fl_part m (view s) (fl_state fl) ns xs"
    and slot: "unat (tail_seq (fl_state fl)) < (m + 1) * FREE_LIST_CAP"
    and seq: "unat (tail_seq (fl_state fl)) + 1 < 2 ^ 64"
    and p: "p \<notin> set (fl_owned ns xs)" "p \<noteq> 0" "view s p \<noteq> None"
  shows "\<exists>s' fl' d'. append_item pg s fl p = Inr (fl', s') \<and> inv s' \<and> avail s' = avail s
    \<and> view s' = (view s)(last ns \<mapsto> d')
    \<and> fl' = fl\<lparr>fl_state := (fl_state fl)\<lparr>tail_seq := tail_seq (fl_state fl) + 1\<rparr>\<rparr>
    \<and> fl_part m (view s') (fl_state fl') ns (xs @ [(p, fl_version fl)])
    \<and> dirty s' = insert (last ns) (dirty s)
    \<and> keeps_items (unat (tail_seq (fl_state fl)) mod FREE_LIST_CAP) (view s) (view s') (last ns)"
proof -
  define st where "st = fl_state fl"
  define h where "h = unat (head_seq st)"
  define t where "t = unat (tail_seq st)"
  note R = rep [unfolded fl_part_def, folded st_def, folded h_def t_def]
  note cap = cap_facts(2)
  have t1: "unat (tail_seq st + 1) = t + 1"
    using seq unat_Suc64 [of "tail_seq st"] by (simp add: t_def st_def)
  have tdiv: "t div FREE_LIST_CAP = m"
    using R slot cap by (intro div_nat_eqI) (simp_all add: t_def st_def algebra_simps)
  have nsne: "ns \<noteq> []"
    using R by auto
  have idx: "t mod FREE_LIST_CAP < FREE_LIST_CAP"
    using cap by simp
  have "last ns \<in> set (fl_owned ns xs)"
    using nsne by (simp add: fl_owned_def)
  then obtain d where d: "view s (last ns) = Some d"
    using R by blast
  obtain d' where d': "set_slot (t mod FREE_LIST_CAP) p (fl_version fl) d = Inr d'" "length d' = BTREE_PAGE_SIZE"
      "slot_is d' (t mod FREE_LIST_CAP) (p, fl_version fl)" "lnode_next d' = lnode_next d"
      "\<forall>j. j \<noteq> t mod FREE_LIST_CAP \<longrightarrow> j < FREE_LIST_CAP \<longrightarrow> slot_is d' j = slot_is d j"
      "items_below (t mod FREE_LIST_CAP) d' = items_below (t mod FREE_LIST_CAP) d"
    using set_slot_ok [OF view_length [OF inv d] idx] by blast
  obtain s' where s': "fl_write pg s (last ns) (set_slot (t mod FREE_LIST_CAP) p (fl_version fl)) = Inr s'"
      "inv s'" "view s' = (view s)(last ns \<mapsto> d')" "avail s' = avail s" "dirty s' = insert (last ns) (dirty s)"
    using edit [OF inv d, of "set_slot (t mod FREE_LIST_CAP) p (fl_version fl)" d'] d'(1,2) by blast
  let ?st = "st\<lparr>tail_seq := tail_seq st + 1\<rparr>"
  let ?xs = "xs @ [(p, fl_version fl)]"
  have eq: "set_slot (t mod FREE_LIST_CAP) p (fl_version fl) =
      (\<lambda>node. rbind (lnode_set_ptr node (seq_to_idx (tail_seq st)) p)
        (\<lambda>node. lnode_set_version node (seq_to_idx (tail_seq st)) (fl_version fl)))"
    by (simp add: fun_eq_iff set_slot_def seq_to_idx_def t_def)
  have run: "append_item pg s fl p = Inr (fl\<lparr>fl_state := ?st\<rparr>, s')"
    using s'(1) R unfolding eq append_item_def Let_def st_def [symmetric] by simp
  have last: "ns ! (length ns - 1) = last ns"
    using nsne by (simp add: last_conv_nth)
  have links: "\<exists>d. view s' (ns ! i) = Some d \<and> lnode_next d = Inr (ns ! Suc i)" if i: "Suc i < length ns" for i
  proof -
    have "ns ! i \<noteq> last ns"
      using R i nsne nth_eq_iff_index_eq [of ns i "length ns - 1"] by (auto simp: fl_owned_def last_conv_nth)
    then show ?thesis
      using R i by (auto simp: s'(3))
  qed
  have items: "\<exists>d. view s' (ns ! ((h + j) div FREE_LIST_CAP - h div FREE_LIST_CAP)) = Some d
      \<and> slot_is d ((h + j) mod FREE_LIST_CAP) (?xs ! j)" if "j < length ?xs" for j
  proof (cases "j = length xs")
    case True
    then have "h + j = t"
      using R by simp
    then show ?thesis
      using d'(3) R last True tdiv by (intro exI [of _ d']) (simp add: s'(3))
  next
    case False
    then have j: "j < length xs"
      using that by simp
    then obtain e where e: "view s (ns ! ((h + j) div FREE_LIST_CAP - h div FREE_LIST_CAP)) = Some e"
        "slot_is e ((h + j) mod FREE_LIST_CAP) (xs ! j)"
      using R by blast
    show ?thesis
    proof (cases "ns ! ((h + j) div FREE_LIST_CAP - h div FREE_LIST_CAP) = last ns")
      case True
      have "(h + j) div FREE_LIST_CAP \<le> m"
        unfolding tdiv [symmetric] using R j by (intro div_le_mono) simp
      then have lt: "(h + j) div FREE_LIST_CAP - h div FREE_LIST_CAP < length ns"
        using R by simp
      have "(h + j) div FREE_LIST_CAP - h div FREE_LIST_CAP = length ns - 1"
        using R lt nsne True nth_eq_iff_index_eq [of ns _ "length ns - 1"] by (auto simp: fl_owned_def last_conv_nth)
      moreover have "h div FREE_LIST_CAP \<le> (h + j) div FREE_LIST_CAP"
        by (intro div_le_mono) simp
      moreover have "h div FREE_LIST_CAP \<le> m" "length ns = m - h div FREE_LIST_CAP + 1"
        using R by blast+
      ultimately have same: "(h + j) div FREE_LIST_CAP = t div FREE_LIST_CAP"
        using tdiv by linarith
      have "(h + j) mod FREE_LIST_CAP \<noteq> t mod FREE_LIST_CAP"
      proof
        assume "(h + j) mod FREE_LIST_CAP = t mod FREE_LIST_CAP"
        with same have "h + j = t"
          by (metis div_mult_mod_eq)
        then show False
          using R j by simp
      qed
      then have "slot_is d' ((h + j) mod FREE_LIST_CAP) (xs ! j)"
        using d'(5) e d True cap by auto
      then show ?thesis
        using True j by (simp add: s'(3) nth_append)
    next
      case False
      then show ?thesis
        using e j by (simp add: s'(3) nth_append)
    qed
  qed
  have "distinct (fl_owned ns ?xs)" "0 \<notin> set (fl_owned ns ?xs)" "set (fl_owned ns ?xs) \<subseteq> dom (view s')"
    using R p by (auto simp: fl_owned_def s'(3))
  then have "fl_part m (view s') ?st ns ?xs"
    using R links items t1 slot [folded st_def, folded t_def]
    by (auto simp: fl_part_def h_def [symmetric] t_def [symmetric])
  moreover have "keeps_items (t mod FREE_LIST_CAP) (view s) (view s') (last ns)"
    using d d'(6) by (simp add: keeps_items_def s'(3))
  ultimately show ?thesis
    using run s' by (auto simp: st_def t_def)
qed

text \<open>Linking a new tail node once the old one is full.\<close>

lemma link_tail_ok:
  assumes inv: "inv s" and rep: "fl_part m (view s) (fl_state fl) ns xs"
    and full: "unat (tail_seq (fl_state fl)) = (m + 1) * FREE_LIST_CAP"
    and p: "p \<notin> set (fl_owned ns xs)" "p \<noteq> 0" "view s p \<noteq> None"
  shows "\<exists>s' d'. fl_write pg s (tail_page (fl_state fl)) (\<lambda>node. lnode_set_next node p) = Inr s' \<and> inv s'
    \<and> avail s' = avail s \<and> view s' = (view s)(last ns \<mapsto> d')
    \<and> fl_rep (view s') ((fl_state fl)\<lparr>tail_page := p\<rparr>) (ns @ [p]) xs
    \<and> dirty s' = insert (last ns) (dirty s) \<and> (\<forall>k. keeps_items k (view s) (view s') (last ns))"
proof -
  define st where "st = fl_state fl"
  define h where "h = unat (head_seq st)"
  note R = rep [unfolded fl_part_def, folded st_def, folded h_def]
  note cap = cap_facts(2)
  have nsne: "ns \<noteq> []"
    using R by auto
  have "last ns \<in> set (fl_owned ns xs)"
    using nsne by (simp add: fl_owned_def)
  then obtain d where d: "view s (last ns) = Some d"
    using R by blast
  obtain d' where d': "lnode_set_next d p = Inr d'" "length d' = BTREE_PAGE_SIZE" "lnode_next d' = Inr p"
      "\<forall>j. j < FREE_LIST_CAP \<longrightarrow> slot_is d' j = slot_is d j" "\<forall>k. items_below k d' = items_below k d"
    using lnode_set_next_ok [OF view_length [OF inv d]] by blast
  obtain s' where s': "fl_write pg s (last ns) (\<lambda>node. lnode_set_next node p) = Inr s'" "inv s'"
      "view s' = (view s)(last ns \<mapsto> d')" "avail s' = avail s" "dirty s' = insert (last ns) (dirty s)"
    using edit [OF inv d, of "\<lambda>node. lnode_set_next node p" d'] d'(1,2) by blast
  let ?ns = "ns @ [p]"
  have tdiv: "unat (tail_seq st) div FREE_LIST_CAP = m + 1"
    using full cap by (simp add: st_def)
  have links: "\<exists>d. view s' (?ns ! i) = Some d \<and> lnode_next d = Inr (?ns ! Suc i)" if i: "Suc i < length ?ns" for i
  proof (cases "Suc i = length ns")
    case True
    then have "i = length ns - 1"
      by simp
    with True have "?ns ! i = last ns" "?ns ! Suc i = p"
      using nsne by (simp_all add: nth_append last_conv_nth)
    then show ?thesis
      using d'(3) by (simp add: s'(3))
  next
    case False
    then have i': "Suc i < length ns"
      using i by simp
    have "ns ! i \<noteq> last ns"
      using R i' nsne nth_eq_iff_index_eq [of ns i "length ns - 1"] by (auto simp: fl_owned_def last_conv_nth)
    then show ?thesis
      using R i' by (auto simp: s'(3) nth_append)
  qed
  have items: "\<exists>d. view s' (?ns ! ((h + j) div FREE_LIST_CAP - h div FREE_LIST_CAP)) = Some d
      \<and> slot_is d ((h + j) mod FREE_LIST_CAP) (xs ! j)" if j: "j < length xs" for j
  proof -
    have "h + j < (m + 1) * FREE_LIST_CAP"
      using R j full by (simp add: st_def)
    then have "(h + j) div FREE_LIST_CAP < m + 1"
      using cap by (simp add: less_mult_imp_div_less)
    then have "(h + j) div FREE_LIST_CAP - h div FREE_LIST_CAP < length ns"
      using R by linarith
    moreover obtain e where "view s (ns ! ((h + j) div FREE_LIST_CAP - h div FREE_LIST_CAP)) = Some e"
        "slot_is e ((h + j) mod FREE_LIST_CAP) (xs ! j)"
      using R j by blast
    moreover have "slot_is d' ((h + j) mod FREE_LIST_CAP) (xs ! j) = slot_is d ((h + j) mod FREE_LIST_CAP) (xs ! j)"
      using d'(4) cap by simp
    ultimately show ?thesis
      using d by (cases "ns ! ((h + j) div FREE_LIST_CAP - h div FREE_LIST_CAP) = last ns")
        (auto simp: s'(3) nth_append)
  qed
  have "distinct (fl_owned ?ns xs)" "0 \<notin> set (fl_owned ?ns xs)" "set (fl_owned ?ns xs) \<subseteq> dom (view s')"
    using R p by (auto simp: fl_owned_def s'(3))
  then have "fl_rep (view s') (st\<lparr>tail_page := p\<rparr>) ?ns xs"
    using R links items tdiv nsne full [folded st_def]
    by (auto simp: fl_rep_def fl_part_def h_def [symmetric] Suc_diff_le)
  moreover have "keeps_items k (view s) (view s') (last ns)" for k
    using d d'(5) by (simp add: keeps_items_def s'(3))
  ultimately show ?thesis
    using s' R by (auto simp: st_def)
qed

text \<open>
  \<open>recycled s fl s' fl' X N\<close>: the list moved on within the pages \<open>X\<close>, to which it added the newly
  appended \<open>N\<close>.
\<close>

definition recycled :: "'s \<Rightarrow> FreeList \<Rightarrow> 's \<Rightarrow> FreeList \<Rightarrow> u64 set \<Rightarrow> u64 set \<Rightarrow> bool" where
  "recycled s fl s' fl' X N \<longleftrightarrow> inv s' \<and> fl_version fl' = fl_version fl \<and> fl_min_reader fl' = fl_min_reader fl
     \<and> (\<forall>q. q \<notin> X \<longrightarrow> q \<notin> N \<longrightarrow> view s' q = view s q) \<and> dom (view s') = dom (view s) \<union> N
     \<and> N \<inter> dom (view s) = {} \<and> 0 \<notin> N \<and> avail s \<le> Suc (avail s')
     \<and> unat (tail_seq (fl_state fl')) \<le> unat (tail_seq (fl_state fl)) + 2"

text \<open>
  \<open>moved\<close>: which pages such a step may have written and what it does to the queue. The tail node
  either stays and grows or gives way to a page no reader needs; new items carry the writer's version.
\<close>

definition moved :: "'s \<Rightarrow> FreeList \<Rightarrow> u64 list \<Rightarrow> item list \<Rightarrow> 's \<Rightarrow> FreeList \<Rightarrow> u64 list \<Rightarrow> item list \<Rightarrow> u64 set \<Rightarrow> bool" where
  "moved s fl ns xs s' fl' ns' xs' N \<longleftrightarrow> set xs' \<subseteq> set xs \<union> UNIV \<times> {fl_version fl}
     \<and> (last ns' = last ns \<and> unat (tail_seq (fl_state fl)) \<le> unat (tail_seq (fl_state fl'))
          \<and> unat (tail_seq (fl_state fl')) div FREE_LIST_CAP = unat (tail_seq (fl_state fl)) div FREE_LIST_CAP
        \<or> last ns' \<noteq> last ns \<and> last ns' \<in> reusable (fl_min_reader fl) xs \<union> N)
     \<and> dirty s' \<subseteq> dirty s \<union> insert (last ns) (reusable (fl_min_reader fl) xs \<union> N)
     \<and> (\<forall>q. q \<notin> insert (last ns) (reusable (fl_min_reader fl) xs \<union> N) \<longrightarrow> view s' q = view s q)
     \<and> keeps_items (unat (tail_seq (fl_state fl)) mod FREE_LIST_CAP) (view s) (view s') (last ns)"

lemma moved_refl: "moved s fl ns xs s fl ns xs {}"
  by (auto simp: moved_def keeps_items_refl)

text \<open>The new tail node: an old item of the list if no reader needs it, else an appended page.\<close>

lemma extend_tail_ok:
  assumes inv: "inv s" and rep: "fl_part m (view s) (fl_state fl) ns xs"
    and full: "unat (tail_seq (fl_state fl)) = (m + 1) * FREE_LIST_CAP"
    and last: "xs \<noteq> []" "\<not> version_before (snd (last xs)) (fl_min_reader fl)" and av: "0 < avail s"
  shows "\<exists>r fl2 q s2 s3 ns3 xs3 N. fl_pop pg s fl = Inr (r, fl2)
    \<and> (if popped_ptr r \<noteq> 0 then Inr (popped_ptr r, s) else fl_append pg s) = Inr (q, s2)
    \<and> fl_write pg s2 (tail_page (fl_state fl2)) (\<lambda>node. lnode_set_next node q) = Inr s3
    \<and> recycled s fl s3 (fl2\<lparr>fl_state := (fl_state fl2)\<lparr>tail_page := q\<rparr>\<rparr>) (set (fl_owned ns xs)) N
    \<and> fl_rep (view s3) ((fl_state fl2)\<lparr>tail_page := q\<rparr>) ns3 xs3
    \<and> tail_seq (fl_state fl2) = tail_seq (fl_state fl)
    \<and> drained_head r \<notin> set (fl_owned ns3 xs3)
    \<and> set xs3 \<subseteq> set xs \<and> last ns3 = q \<and> q \<noteq> last ns \<and> q \<in> reusable (fl_min_reader fl) xs \<union> N
    \<and> dirty s3 \<subseteq> insert (last ns) (insert q (dirty s)) \<and> (\<forall>k. keeps_items k (view s) (view s3) (last ns))
    \<and> (\<forall>x. x \<noteq> last ns \<longrightarrow> x \<noteq> q \<longrightarrow> view s3 x = view s x)
    \<and> set (fl_owned ns xs) \<union> N = set (fl_owned ns3 xs3) \<union> (if drained_head r = 0 then {} else {drained_head r})"
proof -
  note own = fl_part_owned [OF rep]
  have room: "(unat (head_seq (fl_state fl)) + 1) div FREE_LIST_CAP \<le> m"
    if "version_before (snd (hd xs)) (fl_min_reader fl)"
  proof -
    have "2 \<le> length xs"
      using that last by (cases xs rule: remdups_adj.cases) auto
    then have "unat (head_seq (fl_state fl)) + 1 < (m + 1) * FREE_LIST_CAP"
      using rep full by (simp add: fl_part_def)
    then show ?thesis
      using cap_facts(2) by (simp add: less_mult_imp_div_less less_Suc_eq_le [symmetric] del: less_Suc_eq_le)
  qed
  obtain r fl2 ns2 xs2 where pop: "fl_pop pg s fl = Inr (r, fl2)" "pop_result m (view s) fl ns xs r fl2 ns2 xs2"
    using pop_ok [OF inv rep] room by blast
  show ?thesis
  proof (cases "popped_ptr r = 0")
    case True
    then have same: "drained_head r = 0" "fl2 = fl" "ns2 = ns" "xs2 = xs"
      using pop(2) by (simp_all add: pop_result_def)
    obtain q d s2 where q: "fl_append pg s = Inr (q, s2)" "inv s2" "q \<noteq> 0" "view s q = None"
        "view s2 = (view s)(q \<mapsto> d)" "avail s = Suc (avail s2)" "dirty s2 = insert q (dirty s)"
      using append [OF inv av] by blast
    have fresh: "q \<notin> set (fl_owned ns xs)"
      using own(4) q(4) by (auto simp: domIff)
    have nodes: "\<forall>x\<in>set ns. view s2 x = view s x"
      using fresh by (auto simp: q(5) fl_owned_def)
    have "set (fl_owned ns xs) \<subseteq> dom (view s2)"
      using own(4) by (auto simp: q(5))
    then have "fl_part m (view s2) (fl_state fl) ns xs"
      by (rule fl_part_frame [OF rep nodes])
    moreover have "view s2 q \<noteq> None"
      by (simp add: q(5))
    ultimately obtain s3 d' where s3: "fl_write pg s2 (tail_page (fl_state fl)) (\<lambda>node. lnode_set_next node q) = Inr s3"
        "inv s3" "avail s3 = avail s2" "view s3 = (view s2)(last ns \<mapsto> d')"
        "fl_rep (view s3) ((fl_state fl)\<lparr>tail_page := q\<rparr>) (ns @ [q]) xs"
        "dirty s3 = insert (last ns) (dirty s2)" "\<forall>k. keeps_items k (view s2) (view s3) (last ns)"
      using link_tail_ok [OF q(2) _ full fresh q(3)] by blast
    have "recycled s fl s3 (fl\<lparr>fl_state := (fl_state fl)\<lparr>tail_page := q\<rparr>\<rparr>) (set (fl_owned ns xs)) {q}"
      using s3 q owned_last [OF own(1), of xs] own(4) by (auto simp: recycled_def)
    moreover have "set (fl_owned ns xs) \<union> {q} = set (fl_owned (ns @ [q]) xs)" "0 \<notin> set (fl_owned (ns @ [q]) xs)"
      using own(3) q(3) by (auto simp: fl_owned_def)
    moreover have "q \<noteq> last ns"
      using fresh owned_last [OF own(1), of xs] by auto
    moreover from this have "keeps_items k (view s) (view s3) (last ns)" for k
      using s3(7) keeps_items_trans [OF keeps_items_refl, of "view s2" "last ns" "view s" k] by (simp add: q(5))
    moreover have "\<forall>x. x \<noteq> last ns \<longrightarrow> x \<noteq> q \<longrightarrow> view s3 x = view s x"
      by (simp add: s3(4) q(5))
    ultimately show ?thesis
      using pop(1) True same q(1,7) s3(1,5,6)
      by (intro exI [of _ r] exI [of _ fl] exI [of _ q] exI [of _ s2] exI [of _ s3] exI [of _ "ns @ [q]"]
          exI [of _ xs] exI [of _ "{q}"]) simp
  next
    case False
    define q where "q = popped_ptr r"
    obtain v where P: "xs = (q, v) # xs2" "chain_after (drained_head r) ns ns2"
        "fl_part m (view s) (fl_state fl2) ns2 xs2" "fl_version fl2 = fl_version fl"
        "fl_min_reader fl2 = fl_min_reader fl" "tail_page (fl_state fl2) = tail_page (fl_state fl)"
        "tail_seq (fl_state fl2) = tail_seq (fl_state fl)" "version_before v (fl_min_reader fl)"
      using pop(2) False by (auto simp: pop_result_def q_def)
    have q: "q \<notin> set (fl_owned ns2 xs2)" "q \<noteq> 0" "view s q \<noteq> None"
      using own(2-4) P(1,2) by (auto simp: fl_owned_def chain_after_def split: if_splits)
    note own2 = fl_part_owned [OF P(3)]
    obtain s3 d' where s3: "fl_write pg s (tail_page (fl_state fl2)) (\<lambda>node. lnode_set_next node q) = Inr s3"
        "inv s3" "avail s3 = avail s" "view s3 = (view s)(last ns2 \<mapsto> d')"
        "fl_rep (view s3) ((fl_state fl2)\<lparr>tail_page := q\<rparr>) (ns2 @ [q]) xs2"
        "dirty s3 = insert (last ns2) (dirty s)" "\<forall>k. keeps_items k (view s) (view s3) (last ns2)"
      using link_tail_ok [OF inv P(3) _ q] full P(7) by auto
    have sub: "set (fl_owned ns2 xs2) \<subseteq> set (fl_owned ns xs)"
      using P(1,2) by (auto simp: fl_owned_def chain_after_def split: if_splits)
    have "recycled s fl s3 (fl2\<lparr>fl_state := (fl_state fl2)\<lparr>tail_page := q\<rparr>\<rparr>) (set (fl_owned ns xs)) {}"
      using s3 P(4,5,7) owned_last [OF own2(1), of xs2] sub own(4) by (auto simp: recycled_def)
    moreover have "set (fl_owned ns xs) \<union> {} = set (fl_owned (ns2 @ [q]) xs2)
        \<union> (if drained_head r = 0 then {} else {drained_head r})"
      using P(1,2) by (auto simp: fl_owned_def chain_after_def split: if_splits)
    moreover have "drained_head r \<notin> set (fl_owned (ns2 @ [q]) xs2)"
      using P(1,2) own(2,3) own2(3) q(2) by (auto simp: fl_owned_def chain_after_def split: if_splits)
    moreover have last2: "last ns2 = last ns"
      using P(2) own2(1) by (auto simp: chain_after_def split: if_splits)
    moreover have "q \<noteq> last ns"
      using q(1) owned_last [OF own2(1), of xs2] last2 by auto
    moreover have "\<forall>x. x \<noteq> last ns \<longrightarrow> x \<noteq> q \<longrightarrow> view s3 x = view s x"
      using last2 by (simp add: s3(4))
    moreover have "q \<in> reusable (fl_min_reader fl) xs" "set xs2 \<subseteq> set xs"
      using P(1,8) by (auto simp: reusable_def)
    ultimately show ?thesis
      using pop(1) False s3(1,5-7) P(7)
      by (intro exI [of _ r] exI [of _ fl2] exI [of _ q] exI [of _ s] exI [of _ s3] exI [of _ "ns2 @ [q]"]
          exI [of _ xs2] exI [of _ "{}"]) (simp add: q_def subset_insertI2)
  qed
qed

lemma recycled_append:
  assumes rec: "recycled s fl s1 fl1 X N" and inv: "inv s2" and av: "avail s2 = avail s1"
    and view: "view s2 = (view s1)(x \<mapsto> d)" and x: "x \<in> X \<union> N" "x \<in> dom (view s1)"
    and fl2: "fl_version fl2 = fl_version fl1" "fl_min_reader fl2 = fl_min_reader fl1"
      "unat (tail_seq (fl_state fl2)) \<le> unat (tail_seq (fl_state fl)) + 2"
  shows "recycled s fl s2 fl2 X N"
  using assms by (auto simp: recycled_def)

lemma recycled_mono: "recycled s fl s' fl' X N \<Longrightarrow> X \<subseteq> Y \<Longrightarrow> recycled s fl s' fl' Y N"
  by (auto simp: recycled_def)

theorem push_tail_ok:
  assumes inv: "inv s" and rep: "fl_rep (view s) (fl_state fl) ns xs"
    and seq: "unat (tail_seq (fl_state fl)) + 2 < 2 ^ 64" and av: "0 < avail s"
    and p: "p \<notin> set (fl_owned ns xs)" "p \<noteq> 0" "view s p \<noteq> None"
    and ver: "\<not> version_before (fl_version fl) (fl_min_reader fl)"
  shows "\<exists>fl' s' ns' xs' N. push_tail pg s fl p = Inr (fl', s')
    \<and> recycled s fl s' fl' (insert p (set (fl_owned ns xs))) N \<and> fl_rep (view s') (fl_state fl') ns' xs'
    \<and> set (fl_owned ns' xs') = insert p (set (fl_owned ns xs)) \<union> N \<and> moved s fl ns xs s' fl' ns' xs' N"
proof -
  define m where "m = unat (tail_seq (fl_state fl)) div FREE_LIST_CAP"
  let ?xs = "xs @ [(p, fl_version fl)]"
  note part = fl_rep_slot [OF rep, folded m_def]
  note own = fl_part_owned [OF part(1)]
  have seq1: "unat (tail_seq (fl_state fl)) + 1 < 2 ^ 64"
    using seq by simp
  obtain s1 fl1 d1 where A: "append_item pg s fl p = Inr (fl1, s1)" "inv s1" "avail s1 = avail s"
      "view s1 = (view s)(last ns \<mapsto> d1)"
      "fl1 = fl\<lparr>fl_state := (fl_state fl)\<lparr>tail_seq := tail_seq (fl_state fl) + 1\<rparr>\<rparr>"
      "fl_part m (view s1) (fl_state fl1) ns ?xs" "dirty s1 = insert (last ns) (dirty s)"
      "keeps_items (unat (tail_seq (fl_state fl)) mod FREE_LIST_CAP) (view s) (view s1) (last ns)"
    using append_item_ok [OF inv part seq1 p] by blast
  have t1: "unat (tail_seq (fl_state fl1)) = unat (tail_seq (fl_state fl)) + 1"
    using unat_Suc64 [OF seq1] by (simp add: A(5))
  have owned1: "set (fl_owned ns ?xs) = insert p (set (fl_owned ns xs))"
    by (simp add: fl_owned_def)
  have last_dom: "last ns \<in> dom (view s)"
    using own(4) owned_last [OF own(1), of xs] by blast
  have rec1: "recycled s fl s1 fl1 (insert p (set (fl_owned ns xs))) {}"
    using A(2-5) t1 owned_last [OF own(1), of xs] last_dom by (auto simp: recycled_def)
  note head = p(2) ver A(1)
  show ?thesis
  proof (cases "seq_to_idx (tail_seq (fl_state fl1)) = 0")
    case False
    then have "unat (tail_seq (fl_state fl1)) \<noteq> (m + 1) * FREE_LIST_CAP"
      unfolding seq_to_idx_def by (metis mod_mult_self2_is_0)
    moreover have "unat (tail_seq (fl_state fl1)) \<le> (m + 1) * FREE_LIST_CAP"
      using A(6) by (simp add: fl_part_def)
    ultimately have lt: "unat (tail_seq (fl_state fl1)) < (m + 1) * FREE_LIST_CAP"
      by simp
    then have "fl_rep (view s1) (fl_state fl1) ns ?xs"
      by (rule fl_part_rep [OF A(6)])
    moreover have "moved s fl ns xs s1 fl1 ns ?xs {}"
    proof -
      have "m * FREE_LIST_CAP \<le> unat (tail_seq (fl_state fl1))"
        using A(6) by (simp add: fl_part_def)
      then have "unat (tail_seq (fl_state fl1)) div FREE_LIST_CAP = m"
        using lt cap_facts(2) by (intro div_nat_eqI) (simp_all add: algebra_simps)
      then show ?thesis
        using A(4,7,8) t1 by (auto simp: moved_def m_def)
    qed
    moreover have "push_tail pg s fl p = Inr (fl1, s1)"
      using head False by (simp add: push_tail_def)
    ultimately show ?thesis
      using rec1 owned1 by (intro exI [of _ fl1] exI [of _ s1] exI [of _ ns] exI [of _ ?xs] exI [of _ "{}"]) simp
  next
    case True
    have full: "unat (tail_seq (fl_state fl1)) = (m + 1) * FREE_LIST_CAP"
    proof -
      have "FREE_LIST_CAP dvd unat (tail_seq (fl_state fl1))"
        using True by (simp add: seq_to_idx_def dvd_eq_mod_eq_0)
      then obtain k where k: "unat (tail_seq (fl_state fl1)) = FREE_LIST_CAP * k"
        by (elim dvdE)
      moreover have "m * FREE_LIST_CAP \<le> unat (tail_seq (fl_state fl))"
        by (simp add: m_def)
      moreover have "unat (tail_seq (fl_state fl1)) \<le> (m + 1) * FREE_LIST_CAP"
        using A(6) by (simp add: fl_part_def)
      ultimately have lt: "m * FREE_LIST_CAP < k * FREE_LIST_CAP" and le: "k * FREE_LIST_CAP \<le> (m + 1) * FREE_LIST_CAP"
        using t1 unfolding mult.commute [of FREE_LIST_CAP k] by linarith+
      have "m < k" "k \<le> m + 1"
        using mult_less_cancel2 [THEN iffD1, OF lt] mult_le_cancel2 [THEN iffD1, OF le] cap_facts(2) by blast+
      then show ?thesis
        using k by (simp add: le_Suc_eq algebra_simps)
    qed
    have lastx: "?xs \<noteq> []" "\<not> version_before (snd (last ?xs)) (fl_min_reader fl1)"
      using ver by (simp_all add: A(5))
    have "0 < avail s1"
      using av A(3) by simp
    then obtain r fl2 q s2 s3 ns3 xs3 N where E: "fl_pop pg s1 fl1 = Inr (r, fl2)"
        "(if popped_ptr r \<noteq> 0 then Inr (popped_ptr r, s1) else fl_append pg s1) = Inr (q, s2)"
        "fl_write pg s2 (tail_page (fl_state fl2)) (\<lambda>node. lnode_set_next node q) = Inr s3"
        "recycled s1 fl1 s3 (fl2\<lparr>fl_state := (fl_state fl2)\<lparr>tail_page := q\<rparr>\<rparr>) (set (fl_owned ns ?xs)) N"
        "fl_rep (view s3) ((fl_state fl2)\<lparr>tail_page := q\<rparr>) ns3 xs3"
        "tail_seq (fl_state fl2) = tail_seq (fl_state fl1)" "drained_head r \<notin> set (fl_owned ns3 xs3)"
        "set xs3 \<subseteq> set ?xs" "last ns3 = q" "q \<noteq> last ns" "q \<in> reusable (fl_min_reader fl1) ?xs \<union> N"
        "dirty s3 \<subseteq> insert (last ns) (insert q (dirty s1))" "\<forall>k. keeps_items k (view s1) (view s3) (last ns)"
        "\<forall>x. x \<noteq> last ns \<longrightarrow> x \<noteq> q \<longrightarrow> view s3 x = view s1 x"
        "set (fl_owned ns ?xs) \<union> N = set (fl_owned ns3 xs3) \<union> (if drained_head r = 0 then {} else {drained_head r})"
      using extend_tail_ok [OF A(2,6) full lastx] by blast
    define fl3 where "fl3 = fl2\<lparr>fl_state := (fl_state fl2)\<lparr>tail_page := q\<rparr>\<rparr>"
    have t3: "unat (tail_seq (fl_state fl3)) = unat (tail_seq (fl_state fl)) + 1"
      using E(6) t1 by (simp add: fl3_def)
    have rec3: "recycled s fl s3 fl3 (insert p (set (fl_owned ns xs))) N"
      using rec1 E(4) t3 A(3) unfolding owned1 fl3_def [symmetric] by (auto simp: recycled_def)
    have E': "fl_rep (view s3) (fl_state fl3) ns3 xs3"
      using E(5) by (simp add: fl3_def)
    have q: "q \<in> reusable (fl_min_reader fl) xs \<union> N"
      using E(11) ver by (simp add: A(5))
    have keep3: "keeps_items (unat (tail_seq (fl_state fl)) mod FREE_LIST_CAP) (view s) (view s3) (last ns)"
      using keeps_items_trans [OF A(8)] E(13) by blast
    have moved: "moved s fl ns xs s' fl' ns3 xs' N"
      if "set xs' \<subseteq> set xs3 \<union> UNIV \<times> {fl_version fl}" "dirty s' \<subseteq> insert q (dirty s3)"
        "\<forall>x. x \<noteq> q \<longrightarrow> view s' x = view s3 x" for s' fl' xs'
    proof -
      have same: "view s' x = view s x" if x: "x \<notin> insert (last ns) (reusable (fl_min_reader fl) xs \<union> N)" for x
      proof -
        have "x \<noteq> q" "x \<noteq> last ns"
          using x q by auto
        then show ?thesis
          using E(14) by (simp add: A(4) \<open>\<forall>x. x \<noteq> q \<longrightarrow> view s' x = view s3 x\<close>)
      qed
      have "view s' (last ns) = view s3 (last ns)"
        using that(3) E(10) by auto
      then show ?thesis
        using that(1,2) same q E(8-10,12) A(7) keeps_items_trans [OF keep3 keeps_items_refl]
        by (auto simp: moved_def)
    qed
    show ?thesis
    proof (cases "drained_head r = 0")
      case True
      then have "push_tail pg s fl p = Inr (fl3, s3)"
        using head \<open>seq_to_idx (tail_seq (fl_state fl1)) = 0\<close> E(1-3) by (simp add: push_tail_def fl3_def Let_def)
      moreover have "moved s fl ns xs s3 fl3 ns3 xs3 N"
        by (rule moved) auto
      ultimately show ?thesis
        using rec3 E' E(15) owned1 True
        by (intro exI [of _ fl3] exI [of _ s3] exI [of _ ns3] exI [of _ xs3] exI [of _ N]) simp
    next
      case drained: False
      define m3 where "m3 = unat (tail_seq (fl_state fl3)) div FREE_LIST_CAP"
      note part3 = fl_rep_slot [OF E', folded m3_def]
      have seq3: "unat (tail_seq (fl_state fl3)) + 1 < 2 ^ 64"
        using seq t3 by simp
      have in3: "drained_head r \<in> insert p (set (fl_owned ns xs)) \<union> N"
        using E(15) drained owned1 by auto
      then have "view s3 (drained_head r) \<noteq> None"
        using rec3 p(3) own(4) by (auto simp: recycled_def domIff)
      then obtain s4 fl4 d4 where B: "append_item pg s3 fl3 (drained_head r) = Inr (fl4, s4)" "inv s4" "avail s4 = avail s3"
          "view s4 = (view s3)(last ns3 \<mapsto> d4)"
          "fl4 = fl3\<lparr>fl_state := (fl_state fl3)\<lparr>tail_seq := tail_seq (fl_state fl3) + 1\<rparr>\<rparr>"
          "fl_part m3 (view s4) (fl_state fl4) ns3 (xs3 @ [(drained_head r, fl_version fl3)])"
          "dirty s4 = insert (last ns3) (dirty s3)"
        using append_item_ok [OF _ part3 seq3 E(7) drained] rec3 by (auto simp: recycled_def)
      have t4: "unat (tail_seq (fl_state fl4)) = unat (tail_seq (fl_state fl)) + 2"
        using unat_Suc64 [OF seq3] t3 by (simp add: B(5))
      have "unat (tail_seq (fl_state fl3)) = (m + 1) * FREE_LIST_CAP"
        using full t1 t3 by simp
      then have "m3 = m + 1" "unat (tail_seq (fl_state fl4)) = (m + 1) * FREE_LIST_CAP + 1"
        using t4 t3 cap_facts(2) by (simp_all add: m3_def)
      then have "fl_rep (view s4) (fl_state fl4) ns3 (xs3 @ [(drained_head r, fl_version fl3)])"
        by (intro fl_part_rep [OF B(6)]) (simp add: cap_facts(1))
      moreover have "recycled s fl s4 fl4 (insert p (set (fl_owned ns xs))) N"
      proof (rule recycled_append [OF rec3 B(2-4)])
        have "last ns3 \<in> set (fl_owned ns3 xs3)"
          using fl_part_owned(1) [OF part3(1)] by (rule owned_last)
        then show "last ns3 \<in> insert p (set (fl_owned ns xs)) \<union> N" "last ns3 \<in> dom (view s3)"
          using E(15) owned1 fl_part_owned(4) [OF part3(1)] by auto
      qed (use t4 in \<open>simp_all add: B(5)\<close>)
      moreover have "push_tail pg s fl p = Inr (fl4, s4)"
        using head \<open>seq_to_idx (tail_seq (fl_state fl1)) = 0\<close> E(1-3) drained B(1)
        by (simp add: push_tail_def fl3_def Let_def)
      moreover have "set (fl_owned ns3 (xs3 @ [(drained_head r, fl_version fl3)])) = insert p (set (fl_owned ns xs)) \<union> N"
        using E(15) drained owned1 by (simp add: fl_owned_def)
      moreover have "moved s fl ns xs s4 fl4 ns3 (xs3 @ [(drained_head r, fl_version fl3)]) N"
        by (rule moved) (use rec3 B(4,7) E(9,10) in \<open>auto simp: recycled_def\<close>)
      ultimately show ?thesis
        by (intro exI conjI)
    qed
  qed
qed

theorem pop_head_ok:
  assumes inv: "inv s" and rep: "fl_rep (view s) (fl_state fl) ns xs"
    and seq: "unat (tail_seq (fl_state fl)) + 2 < 2 ^ 64" and av: "0 < avail s"
    and ver: "\<not> version_before (fl_version fl) (fl_min_reader fl)"
  shows "\<exists>p fl' s' ns' xs' N. pop_head pg s fl = Inr (p, fl', s')
    \<and> recycled s fl s' fl' (set (fl_owned ns xs)) N \<and> fl_rep (view s') (fl_state fl') ns' xs'
    \<and> (if p = 0 then s' = s \<and> fl' = fl \<and> ns' = ns \<and> xs' = xs \<and> N = {}
         \<and> (xs = [] \<or> \<not> version_before (snd (hd xs)) (fl_min_reader fl))
       else xs \<noteq> [] \<and> p = fst (hd xs) \<and> version_before (snd (hd xs)) (fl_min_reader fl)
         \<and> p \<notin> set (fl_owned ns' xs') \<and> insert p (set (fl_owned ns' xs')) = set (fl_owned ns xs) \<union> N)
    \<and> moved s fl ns xs s' fl' ns' xs' N"
proof -
  define m where "m = unat (tail_seq (fl_state fl)) div FREE_LIST_CAP"
  note part = fl_rep_slot [OF rep, folded m_def]
  note own = fl_part_owned [OF part(1)]
  have "(unat (head_seq (fl_state fl)) + 1) div FREE_LIST_CAP \<le> m" if "xs \<noteq> []"
    unfolding m_def using part(1) that by (intro div_le_mono) (cases xs, auto simp: fl_part_def)
  then obtain r fl2 ns2 xs2 where pop: "fl_pop pg s fl = Inr (r, fl2)" "pop_result m (view s) fl ns xs r fl2 ns2 xs2"
    using pop_ok [OF inv part(1)] by blast
  show ?thesis
  proof (cases "popped_ptr r = 0")
    case True
    then show ?thesis
      using pop rep inv by (intro exI [of _ 0] exI [of _ fl] exI [of _ s] exI [of _ ns] exI [of _ xs] exI [of _ "{}"])
        (simp add: pop_head_def pop_result_def recycled_def moved_refl)
  next
    case False
    define p where "p = popped_ptr r"
    obtain v where P: "xs = (p, v) # xs2" "version_before v (fl_min_reader fl)" "chain_after (drained_head r) ns ns2"
        "fl_part m (view s) (fl_state fl2) ns2 xs2" "fl_version fl2 = fl_version fl"
        "fl_min_reader fl2 = fl_min_reader fl" "tail_seq (fl_state fl2) = tail_seq (fl_state fl)"
      using pop(2) False by (auto simp: pop_result_def p_def)
    have rep2: "fl_rep (view s) (fl_state fl2) ns2 xs2"
      using P(4,7) by (simp add: fl_rep_def m_def)
    have last2: "last ns2 = last ns"
      using P(3) fl_part_owned(1) [OF P(4)] by (auto simp: chain_after_def split: if_splits)
    have reuse: "reusable (fl_min_reader fl) xs2 \<subseteq> reusable (fl_min_reader fl) xs"
      using P(1) by (auto simp: reusable_def)
    have p2: "p \<notin> set (fl_owned ns2 xs2)" "p \<noteq> 0" "p \<in> set (fl_owned ns xs)"
      using own(2,3) P(1,3) by (auto simp: fl_owned_def chain_after_def split: if_splits)
    show ?thesis
    proof (cases "drained_head r = 0")
      case True
      then have "insert p (set (fl_owned ns2 xs2)) = set (fl_owned ns xs)"
        using P(1,3) by (auto simp: fl_owned_def chain_after_def)
      moreover have "recycled s fl s fl2 (set (fl_owned ns xs)) {}"
        using inv P(5-7) by (simp add: recycled_def)
      moreover have "moved s fl ns xs s fl2 ns2 xs2 {}"
        using P(1,7) last2 by (auto simp: moved_def keeps_items_refl)
      ultimately show ?thesis
        using pop(1) True rep2 p2 P(1,2)
        by (intro exI [of _ p] exI [of _ fl2] exI [of _ s] exI [of _ ns2] exI [of _ xs2] exI [of _ "{}"])
          (simp add: pop_head_def p_def)
    next
      case drained: False
      let ?h = "drained_head r"
      have ns: "ns = ?h # ns2"
        using P(3) drained by (simp add: chain_after_def)
      have h: "?h \<notin> set (fl_owned ns2 xs2)" "view s ?h \<noteq> None" "?h \<noteq> p"
        using own(2,4) P(1) by (auto simp: ns fl_owned_def)
      obtain fl' s' ns' xs' N where push: "push_tail pg s fl2 ?h = Inr (fl', s')"
          "recycled s fl2 s' fl' (insert ?h (set (fl_owned ns2 xs2))) N" "fl_rep (view s') (fl_state fl') ns' xs'"
          "set (fl_owned ns' xs') = insert ?h (set (fl_owned ns2 xs2)) \<union> N" "moved s fl2 ns2 xs2 s' fl' ns' xs' N"
        using push_tail_ok [OF inv rep2 _ av h(1) drained h(2)] seq ver P(5-7) by auto
      have sub: "insert ?h (set (fl_owned ns2 xs2)) \<subseteq> set (fl_owned ns xs)"
        "insert p (insert ?h (set (fl_owned ns2 xs2))) = set (fl_owned ns xs)"
        using P(1) by (auto simp: ns fl_owned_def)
      have "recycled s fl s' fl' (set (fl_owned ns xs)) N"
        using recycled_mono [OF push(2) sub(1)] P(5-7) by (simp add: recycled_def)
      moreover have "moved s fl ns xs s' fl' ns' xs' N"
        using push(5) P(1,5-7) last2 reuse unfolding moved_def by auto
      moreover have "p \<notin> N"
        using push(2) p2(3) own(4) by (auto simp: recycled_def)
      ultimately show ?thesis
        using pop(1) drained push(1,3,4) p2 h(3) P(1,2) sub(2)
        by (intro exI [of _ p] exI [of _ fl'] exI [of _ s'] exI [of _ ns'] exI [of _ xs'] exI [of _ N])
          (auto simp: pop_head_def p_def)
    qed
  qed
qed

end

end
