(* ===== verification/KVTX.thy ===== *)
theory KVTX
  imports KVReader BTree_Delete FreeList_Spec
begin

text \<open>
  The write transaction of \<open>storage/kv\<close>: a reader of the version it began on whose writes are
  buffered by page number. \<open>KVTX::Pages\<close> implements both page interfaces, that of the tree
  (\<open>KVTX_Pages\<close>) and that of the free list (\<open>KVTX_FreePages\<close>); both are shown to satisfy the
  contracts the tree and the list were verified against.
\<close>

section \<open>The transaction\<close>

text \<open>\<open>kv_flushed\<close> is \<open>kv_->flushed_\<close>, which does not change while the transaction runs.\<close>

record KVTX = KVReader +
  kv_flushed :: u64
  page_updates :: "(u64 \<times> bytes) list"
  page_append_count :: u64
  free_list :: FreeList

definition page_read :: "bytes \<Rightarrow> KVTX \<Rightarrow> u64 \<Rightarrow> bytes res" where
  "page_read file tx ptr =
     (case map_of (page_updates tx) ptr of
        Some page \<Rightarrow> Inr page
      | None \<Rightarrow> rbind (page_get_mapped tx ptr) (\<lambda>pos. load file pos BTREE_PAGE_SIZE))"

definition page_get :: "bytes \<Rightarrow> KVTX \<Rightarrow> u64 \<Rightarrow> bnode res" where
  "page_get file tx ptr = rbind (page_read file tx ptr) decode"

definition page_append :: "KVTX \<Rightarrow> u64 \<times> KVTX" where
  "page_append tx =
     (let ptr = kv_flushed tx + page_append_count tx in
      (ptr, tx\<lparr>page_append_count := page_append_count tx + 1,
               page_updates := omap_put ptr (BNode BTREE_PAGE_SIZE) (page_updates tx)\<rparr>))"

text \<open>\<open>page_use\<close> returns the buffer of a page, copying the durable page into it first if needed.\<close>

definition page_use :: "bytes \<Rightarrow> KVTX \<Rightarrow> u64 \<Rightarrow> (bytes \<times> KVTX) res" where
  "page_use file tx ptr =
     (case map_of (page_updates tx) ptr of
        Some page \<Rightarrow> Inr (page, tx)
      | None \<Rightarrow>
          rbind (page_get_mapped tx ptr) (\<lambda>pos.
          rbind (load file pos BTREE_PAGE_SIZE) (\<lambda>durable.
          Inr (durable, tx\<lparr>page_updates := omap_put ptr durable (page_updates tx)\<rparr>))))"

definition page_edit :: "bytes \<Rightarrow> KVTX \<Rightarrow> u64 \<Rightarrow> (bytes \<Rightarrow> bytes res) \<Rightarrow> KVTX res" where
  "page_edit file tx ptr f =
     rbind (page_use file tx ptr) (\<lambda>(page, tx).
     rbind (f page) (\<lambda>page. Inr (tx\<lparr>page_updates := omap_put ptr page (page_updates tx)\<rparr>)))"

definition KVTX_FreePages :: "bytes \<Rightarrow> KVTX IFreeListPages" where
  "KVTX_FreePages file =
     \<lparr>fl_read = page_read file, fl_write = page_edit file, fl_append = (\<lambda>tx. Inr (page_append tx))\<rparr>"

definition page_new :: "bytes \<Rightarrow> KVTX \<Rightarrow> bnode \<Rightarrow> (u64 \<times> KVTX) res" where
  "page_new file tx node =
     rbind (pop_head (KVTX_FreePages file) tx (free_list tx)) (\<lambda>(ptr, fl, tx).
     let tx = tx\<lparr>free_list := fl\<rparr>;
         (ptr, tx) = (if ptr = 0 then (kv_flushed tx + page_append_count tx,
                                       tx\<lparr>page_append_count := page_append_count tx + 1\<rparr>)
                      else (ptr, tx)) in
     rbind (encode node) (\<lambda>page.
     Inr (ptr, tx\<lparr>page_updates := omap_put ptr page (page_updates tx)\<rparr>)))"

definition page_del :: "bytes \<Rightarrow> KVTX \<Rightarrow> u64 \<Rightarrow> KVTX res" where
  "page_del file tx ptr =
     rbind (push_tail (KVTX_FreePages file) tx (free_list tx) ptr) (\<lambda>(fl, tx). Inr (tx\<lparr>free_list := fl\<rparr>))"

definition KVTX_Pages :: "bytes \<Rightarrow> KVTX IPageManager" where
  "KVTX_Pages file = \<lparr>pm_get = page_get file, pm_new_page = page_new file, pm_del = page_del file\<rparr>"

section \<open>Reads and writes\<close>

definition KVTX_get :: "bytes \<Rightarrow> KVTX \<Rightarrow> bytes \<Rightarrow> bytes option res" where
  "KVTX_get file tx key = BTree_get (KVTX_Pages file) (tree_root tx) tx key"

definition KVTX_set :: "bytes \<Rightarrow> KVTX \<Rightarrow> bytes \<Rightarrow> bytes \<Rightarrow> KVTX res" where
  "KVTX_set file tx key val =
     rbind (BTree_insert (KVTX_Pages file) (tree_root tx) tx key val) (\<lambda>(root, tx). Inr (tx\<lparr>tree_root := root\<rparr>))"

definition KVTX_del :: "bytes \<Rightarrow> KVTX \<Rightarrow> bytes \<Rightarrow> (bool \<times> KVTX) res" where
  "KVTX_del file tx key =
     rbind (BTree_remove (KVTX_Pages file) (tree_root tx) tx key) (\<lambda>(found, root, tx).
     Inr (found, tx\<lparr>tree_root := root\<rparr>))"

datatype UpdateMode = UPSERT | UPDATE_ONLY | INSERT_ONLY

record InsertReq =
  ins_key :: bytes
  ins_val :: bytes
  ins_mode :: UpdateMode
  ins_added :: bool
  ins_old :: bytes

record DeleteReq =
  del_key :: bytes
  del_old :: bytes

definition KVTX_update :: "bytes \<Rightarrow> KVTX \<Rightarrow> InsertReq \<Rightarrow> (bool \<times> InsertReq \<times> KVTX) res" where
  "KVTX_update file tx req =
     rbind (KVTX_get file tx (ins_key req)) (\<lambda>old.
     let req = req\<lparr>ins_added := (old = None), ins_old := (case old of Some v \<Rightarrow> v | None \<Rightarrow> [])\<rparr> in
     if (ins_mode req = INSERT_ONLY \<and> \<not> ins_added req) \<or> (ins_mode req = UPDATE_ONLY \<and> ins_added req)
     then Inr (False, req, tx)
     else rbind (KVTX_set file tx (ins_key req) (ins_val req)) (\<lambda>tx. Inr (True, req, tx)))"

definition KVTX_del_req :: "bytes \<Rightarrow> KVTX \<Rightarrow> DeleteReq \<Rightarrow> (bool \<times> DeleteReq \<times> KVTX) res" where
  "KVTX_del_req file tx req =
     rbind (KVTX_get file tx (del_key req)) (\<lambda>old.
     case old of
       None \<Rightarrow> Inr (False, req, tx)
     | Some v \<Rightarrow>
         let req = req\<lparr>del_old := v\<rparr> in
         rbind (KVTX_del file tx (del_key req)) (\<lambda>(found, tx). Inr (found, req, tx)))"

section \<open>The pages a transaction sees\<close>

text \<open>
  Page numbers stay below \<open>2 ^ 50\<close>, so that byte offsets fit 64 bits; that is what a transaction can
  still append.
\<close>

definition MAX_PAGES :: nat where
  "MAX_PAGES = 2 ^ 50"

definition tx_bound :: "KVTX \<Rightarrow> nat" where
  "tx_bound tx = unat (kv_flushed tx) + unat (page_append_count tx)"

definition tx_view :: "bytes \<Rightarrow> KVTX \<Rightarrow> u64 \<rightharpoonup> bytes" where
  "tx_view file tx p =
     (if unat p < tx_bound tx then
        (case map_of (page_updates tx) p of Some page \<Rightarrow> Some page | None \<Rightarrow> reader_pages file tx p)
      else None)"

text \<open>The pages written so far; every appended page is among them.\<close>

definition buffered :: "KVTX \<Rightarrow> u64 set" where
  "buffered tx = dom (map_of (page_updates tx))"

lemma buffered_irrelevant [simp]:
  "buffered (tx\<lparr>free_list := fl\<rparr>) = buffered tx" "buffered (tx\<lparr>tree_root := r\<rparr>) = buffered tx"
  by (simp_all add: buffered_def)

definition tx_ok :: "KVTX \<Rightarrow> bool" where
  "tx_ok tx \<longleftrightarrow> reader_ok tx \<and> 2 \<le> unat (kv_flushed tx) \<and> tx_bound tx \<le> MAX_PAGES
     \<and> (\<forall>(p, d)\<in>set (page_updates tx). length d = BTREE_PAGE_SIZE)
     \<and> sorted_wrt (<) (map fst (page_updates tx))
     \<and> (\<forall>p. unat (kv_flushed tx) \<le> unat p \<longrightarrow> unat p < tx_bound tx \<longrightarrow> p \<in> buffered tx)
     \<and> (\<forall>p\<in>buffered tx. unat p < tx_bound tx)"

lemma tx_okI:
  assumes "reader_ok tx" and "2 \<le> unat (kv_flushed tx)" and "tx_bound tx \<le> MAX_PAGES"
    and "\<forall>(p, d)\<in>set (page_updates tx). length d = BTREE_PAGE_SIZE" and "sorted_wrt (<) (map fst (page_updates tx))"
    and "\<And>p. unat (kv_flushed tx) \<le> unat p \<Longrightarrow> unat p < tx_bound tx \<Longrightarrow> p \<in> buffered tx"
    and "\<And>p. p \<in> buffered tx \<Longrightarrow> unat p < tx_bound tx"
  shows "tx_ok tx"
  using assms unfolding tx_ok_def by blast

lemma tx_okD:
  assumes "tx_ok tx"
  shows "reader_ok tx" and "2 \<le> unat (kv_flushed tx)" and "tx_bound tx \<le> MAX_PAGES"
    and "\<forall>(p, d)\<in>set (page_updates tx). length d = BTREE_PAGE_SIZE" and "sorted_wrt (<) (map fst (page_updates tx))"
  using assms unfolding tx_ok_def by blast+

lemma tx_ok_buffered:
  assumes "tx_ok tx"
  shows "unat (kv_flushed tx) \<le> unat p \<Longrightarrow> unat p < tx_bound tx \<Longrightarrow> p \<in> buffered tx"
    and "p \<in> buffered tx \<Longrightarrow> unat p < tx_bound tx"
  using assms unfolding tx_ok_def by blast+

definition tx_avail :: "KVTX \<Rightarrow> nat" where
  "tx_avail tx = MAX_PAGES - tx_bound tx"

text \<open>What page operations do not change.\<close>

definition same_snapshot :: "KVTX \<Rightarrow> KVTX \<Rightarrow> bool" where
  "same_snapshot tx tx' \<longleftrightarrow> rd_version tx' = rd_version tx \<and> heap_index tx' = heap_index tx
     \<and> chunks tx' = chunks tx \<and> kv_flushed tx' = kv_flushed tx \<and> tx_bound tx \<le> tx_bound tx'
     \<and> buffered tx \<subseteq> buffered tx'"

lemma same_snapshot_refl [simp]: "same_snapshot tx tx"
  by (simp add: same_snapshot_def)

lemma same_snapshot_trans: "same_snapshot tx tx' \<Longrightarrow> same_snapshot tx' tx'' \<Longrightarrow> same_snapshot tx tx''"
  by (auto simp: same_snapshot_def)

lemma same_snapshot_put [simp]:
  "same_snapshot tx (tx\<lparr>page_updates := omap_put p d (page_updates tx)\<rparr>)"
  "same_snapshot tx0 (tx\<lparr>free_list := fl\<rparr>) = same_snapshot tx0 tx"
  "same_snapshot tx0 (tx\<lparr>tree_root := r\<rparr>) = same_snapshot tx0 tx"
  by (auto simp: same_snapshot_def tx_bound_def buffered_def)

lemma page_read_ok: "reader_ok tx \<Longrightarrow> tx_view file tx p = Some d \<Longrightarrow> page_read file tx p = Inr d"
  using reader_pages_ok [of tx "file" p d]
  by (auto simp: tx_view_def page_read_def split: if_splits option.splits)

lemma tx_view_length:
  assumes "tx_ok tx" and "tx_view file tx p = Some d"
  shows "length d = BTREE_PAGE_SIZE"
proof (cases "map_of (page_updates tx) p")
  case None
  then show ?thesis
    using assms load_page reader_pages_ok [of tx "file" p d]
    by (auto simp: tx_view_def tx_ok_def split: if_splits)
next
  case (Some d')
  then have "(p, d') \<in> set (page_updates tx)"
    by (rule map_of_SomeD)
  then show ?thesis
    using assms Some by (auto simp: tx_view_def tx_ok_def split: if_splits)
qed

lemma set_omap_put: "set (omap_put k v xs) \<subseteq> insert (k, v) (set xs)"
  by (induction k v xs rule: omap_put.induct) auto

text \<open>Writing one page of the buffer.\<close>

lemma tx_put:
  assumes ok: "tx_ok tx" and d: "length d = BTREE_PAGE_SIZE" and p: "unat p < tx_bound tx"
  defines "tx' \<equiv> tx\<lparr>page_updates := omap_put p d (page_updates tx)\<rparr>"
  shows "tx_ok tx'" and "tx_view file tx' = (tx_view file tx)(p \<mapsto> d)" and "tx_avail tx' = tx_avail tx"
proof -
  have bound: "tx_bound tx' = tx_bound tx"
    by (simp add: tx'_def tx_bound_def)
  have rp: "reader_pages file tx' = reader_pages file tx"
    by (simp add: fun_eq_iff reader_pages_def tx'_def)
  show "tx_avail tx' = tx_avail tx"
    by (simp add: tx_avail_def bound)
  show "tx_view file tx' = (tx_view file tx)(p \<mapsto> d)"
    unfolding fun_eq_iff tx_view_def bound rp using p by (simp add: tx'_def)
  have "\<forall>(q, e)\<in>set (omap_put p d (page_updates tx)). length e = BTREE_PAGE_SIZE"
    using ok d set_omap_put [of p d "page_updates tx"] by (auto simp: tx_ok_def)
  note lens = this
  have buf: "buffered tx' = insert p (buffered tx)"
    by (simp add: buffered_def tx'_def)
  have flushed: "kv_flushed tx' = kv_flushed tx" and rd: "reader_ok tx' = reader_ok tx"
    and upd: "page_updates tx' = omap_put p d (page_updates tx)"
    by (simp_all add: tx'_def reader_ok_def)
  note D = tx_okD [OF ok]
  show "tx_ok tx'"
  proof (rule tx_okI)
    show "q \<in> buffered tx'" if "unat (kv_flushed tx') \<le> unat q" "unat q < tx_bound tx'" for q
      using tx_ok_buffered(1) [OF ok, of q] that unfolding buf flushed bound by blast
    show "unat q < tx_bound tx'" if "q \<in> buffered tx'" for q
      using tx_ok_buffered(2) [OF ok, of q] that p unfolding buf bound by blast
    show "\<forall>(p, d)\<in>set (page_updates tx'). length d = BTREE_PAGE_SIZE" "sorted_wrt (<) (map fst (page_updates tx'))"
      unfolding upd by (rule lens, rule sorted_omap_put [OF D(5)])
  qed (use D in \<open>simp_all only: flushed rd bound\<close>)
qed

lemma page_edit_ok:
  assumes ok: "tx_ok tx" and view: "tx_view file tx p = Some d" and f: "f d = Inr d'" "length d' = BTREE_PAGE_SIZE"
  shows "\<exists>tx'. page_edit file tx p f = Inr tx' \<and> tx_ok tx' \<and> tx_view file tx' = (tx_view file tx)(p \<mapsto> d')
    \<and> tx_avail tx' = tx_avail tx \<and> buffered tx' = insert p (buffered tx) \<and> same_snapshot tx tx'"
proof -
  have p: "unat p < tx_bound tx"
    using view by (auto simp: tx_view_def split: if_splits)
  show ?thesis
  proof (cases "map_of (page_updates tx) p")
    case (Some e)
    then have "e = d"
      using view by (auto simp: tx_view_def split: if_splits)
    with Some f have "page_edit file tx p f = Inr (tx\<lparr>page_updates := omap_put p d' (page_updates tx)\<rparr>)"
      by (simp add: page_edit_def page_use_def)
    then show ?thesis
      using tx_put [OF ok f(2) p] by (auto simp: buffered_def)
  next
    case None
    define tx1 where "tx1 = tx\<lparr>page_updates := omap_put p d (page_updates tx)\<rparr>"
    have len: "length d = BTREE_PAGE_SIZE"
      using tx_view_length [OF ok view] .
    note put1 = tx_put [OF ok len p, folded tx1_def]
    have p1: "unat p < tx_bound tx1"
      using p by (simp add: tx1_def tx_bound_def)
    have "reader_pages file tx p = Some d"
      using view None p by (simp add: tx_view_def)
    then have "page_edit file tx p f = Inr (tx1\<lparr>page_updates := omap_put p d' (page_updates tx1)\<rparr>)"
      using None f(1) reader_pages_ok [of tx "file" p d] ok
      by (auto simp: page_edit_def page_use_def tx1_def tx_ok_def)
    moreover have "buffered (tx1\<lparr>page_updates := omap_put p d' (page_updates tx1)\<rparr>) = insert p (buffered tx)"
        "same_snapshot tx (tx1\<lparr>page_updates := omap_put p d' (page_updates tx1)\<rparr>)"
      by (auto simp: tx1_def buffered_def same_snapshot_def tx_bound_def)
    ultimately show ?thesis
      using tx_put [OF put1(1) f(2) p1] put1(2,3) by auto
  qed
qed

lemma page_append_number:
  assumes "tx_ok tx" and "0 < tx_avail tx"
  shows "unat (kv_flushed tx + page_append_count tx) = tx_bound tx"
    and "unat (page_append_count tx + 1) = unat (page_append_count tx) + 1"
    and "kv_flushed tx + page_append_count tx \<noteq> 0"
proof -
  have b: "tx_bound tx < 2 ^ 64" "unat (page_append_count tx) + 1 < 2 ^ 64" "2 \<le> tx_bound tx"
    using assms by (simp_all add: tx_ok_def tx_bound_def tx_avail_def MAX_PAGES_def)
  show n: "unat (kv_flushed tx + page_append_count tx) = tx_bound tx"
    using b(1) by (simp add: tx_bound_def unat_word_ariths(1))
  show "unat (page_append_count tx + 1) = unat (page_append_count tx) + 1"
    by (rule unat_Suc64 [OF b(2)])
  show "kv_flushed tx + page_append_count tx \<noteq> 0"
    using n b(3) by auto
qed

text \<open>Appending a page.\<close>

lemma tx_grow:
  assumes ok: "tx_ok tx" and av: "0 < tx_avail tx" and d: "length d = BTREE_PAGE_SIZE"
  defines "q \<equiv> kv_flushed tx + page_append_count tx"
  defines "tx' \<equiv> tx\<lparr>page_append_count := page_append_count tx + 1, page_updates := omap_put q d (page_updates tx)\<rparr>"
  shows "tx_ok tx'" and "tx_view file tx' = (tx_view file tx)(q \<mapsto> d)" and "tx_avail tx = Suc (tx_avail tx')"
    and "tx_view file tx q = None" and "q \<noteq> 0" and "buffered tx' = insert q (buffered tx)" and "same_snapshot tx tx'"
proof -
  note num = page_append_number [OF ok av, folded q_def]
  have bound: "tx_bound tx' = Suc (tx_bound tx)"
    using num(2) by (simp add: tx'_def tx_bound_def)
  have rp: "reader_pages file tx' = reader_pages file tx"
    by (simp add: fun_eq_iff reader_pages_def tx'_def)
  show buf: "buffered tx' = insert q (buffered tx)"
    by (simp add: buffered_def tx'_def)
  show "same_snapshot tx tx'"
    unfolding same_snapshot_def bound by (auto simp: tx'_def buffered_def)
  show "tx_avail tx = Suc (tx_avail tx')"
    using av by (simp add: tx_avail_def bound)
  show none: "tx_view file tx q = None"
    by (simp add: tx_view_def num(1))
  show "q \<noteq> 0"
    by (rule num(3))
  have lt: "unat p < Suc (tx_bound tx) \<longleftrightarrow> unat p < tx_bound tx \<or> p = q" for p
    using num(1) by (auto simp: less_Suc_eq word_unat_eq_iff)
  show "tx_view file tx' = (tx_view file tx)(q \<mapsto> d)"
    unfolding fun_eq_iff tx_view_def bound lt rp by (simp add: tx'_def)
  have "\<forall>(p, e)\<in>set (omap_put q d (page_updates tx)). length e = BTREE_PAGE_SIZE"
    using ok d set_omap_put [of q d "page_updates tx"] by (auto simp: tx_ok_def)
  note lens = this
  have flushed: "kv_flushed tx' = kv_flushed tx" and rd: "reader_ok tx' = reader_ok tx"
    and upd: "page_updates tx' = omap_put q d (page_updates tx)"
    by (simp_all add: tx'_def reader_ok_def)
  note D = tx_okD [OF ok]
  show "tx_ok tx'"
  proof (rule tx_okI)
    show "p \<in> buffered tx'" if "unat (kv_flushed tx') \<le> unat p" "unat p < tx_bound tx'" for p
      using tx_ok_buffered(1) [OF ok, of p] that unfolding buf flushed bound lt by blast
    show "unat p < tx_bound tx'" if "p \<in> buffered tx'" for p
      using tx_ok_buffered(2) [OF ok, of p] that unfolding buf bound lt by blast
    show "\<forall>(p, d)\<in>set (page_updates tx'). length d = BTREE_PAGE_SIZE" "sorted_wrt (<) (map fst (page_updates tx'))"
      unfolding upd by (rule lens, rule sorted_omap_put [OF D(5)])
    show "tx_bound tx' \<le> MAX_PAGES"
      using av unfolding bound tx_avail_def by simp
  qed (use D in \<open>simp_all only: flushed rd\<close>)
qed

interpretation tx_list: free_pages "KVTX_FreePages f" "\<lambda>tx. tx_ok tx \<and> same_snapshot tx0 tx" "tx_view f" tx_avail buffered
  for f tx0
proof
  show "tx_ok s \<and> same_snapshot tx0 s \<Longrightarrow> tx_view f s p = Some d \<Longrightarrow> length d = BTREE_PAGE_SIZE" for s p d
    using tx_view_length by blast
  show "tx_ok s \<and> same_snapshot tx0 s \<Longrightarrow> tx_view f s p = Some d \<Longrightarrow> fl_read (KVTX_FreePages f) s p = Inr d" for s p d
    using page_read_ok [of s f p d] by (simp add: KVTX_FreePages_def tx_ok_def)
  show "tx_ok s \<and> same_snapshot tx0 s \<Longrightarrow> tx_view f s p = Some d \<Longrightarrow> g d = Inr d' \<Longrightarrow> length d' = BTREE_PAGE_SIZE \<Longrightarrow>
      \<exists>s'. fl_write (KVTX_FreePages f) s p g = Inr s' \<and> (tx_ok s' \<and> same_snapshot tx0 s') \<and> tx_view f s' = (tx_view f s)(p \<mapsto> d')
        \<and> tx_avail s' = tx_avail s \<and> buffered s' = insert p (buffered s)" for s p d g d'
    using page_edit_ok [of s f p d g d'] same_snapshot_trans by (fastforce simp: KVTX_FreePages_def)
  show "tx_ok s \<and> same_snapshot tx0 s \<Longrightarrow> 0 < tx_avail s \<Longrightarrow>
      \<exists>p d s'. fl_append (KVTX_FreePages f) s = Inr (p, s') \<and> (tx_ok s' \<and> same_snapshot tx0 s') \<and> p \<noteq> 0
      \<and> tx_view f s p = None \<and> tx_view f s' = (tx_view f s)(p \<mapsto> d) \<and> tx_avail s = Suc (tx_avail s')
      \<and> buffered s' = insert p (buffered s)" for s
  proof -
    assume s: "tx_ok s \<and> same_snapshot tx0 s" and av: "0 < tx_avail s"
    have len: "length (BNode BTREE_PAGE_SIZE) = BTREE_PAGE_SIZE"
      by (simp add: BNode_def)
    note grow = tx_grow [OF conjunct1 [OF s] av len]
    show ?thesis
      using grow(1-6) same_snapshot_trans [OF conjunct2 [OF s] grow(7)]
      unfolding KVTX_FreePages_def page_append_def Let_def IFreeListPages.select_convs by blast
  qed
qed

section \<open>The pages in use\<close>

text \<open>
  Every page below the bound is the meta page, a page of the free list, or a live page: \<open>tx_live\<close>
  leaves out the first two.
\<close>

definition tx_free :: "bytes \<Rightarrow> KVTX \<Rightarrow> u64 set" where
  "tx_free file tx = {p. \<exists>ns xs. fl_rep (tx_view file tx) (fl_state (free_list tx)) ns xs \<and> p \<in> set (fl_owned ns xs)}"

definition tx_live :: "bytes \<Rightarrow> KVTX \<Rightarrow> u64 \<rightharpoonup> bytes" where
  "tx_live file tx p = (if p = 0 \<or> p \<in> tx_free file tx then None else tx_view file tx p)"

definition tx_inv :: "bytes \<Rightarrow> KVTX \<Rightarrow> bool" where
  "tx_inv file tx \<longleftrightarrow> tx_ok tx \<and> (\<exists>ns xs. fl_rep (tx_view file tx) (fl_state (free_list tx)) ns xs)
     \<and> \<not> version_before (fl_version (free_list tx)) (fl_min_reader (free_list tx))"

text \<open>Each page operation appends at most one page and two items.\<close>

definition tx_budget :: "KVTX \<Rightarrow> nat" where
  "tx_budget tx = min (tx_avail tx) ((2 ^ 64 - 1 - unat (tail_seq (fl_state (free_list tx)))) div 2)"

lemma tx_free_eq: "fl_rep (tx_view file tx) (fl_state (free_list tx)) ns xs \<Longrightarrow> tx_free file tx = set (fl_owned ns xs)"
  using fl_rep_unique unfolding tx_free_def by blast

lemma tx_budget_pos:
  assumes "0 < tx_budget tx"
  shows "0 < tx_avail tx" and "unat (tail_seq (fl_state (free_list tx))) + 2 < 2 ^ 64"
proof -
  have "0 < (2 ^ 64 - 1 - unat (tail_seq (fl_state (free_list tx)))) div 2"
    using assms by (simp add: tx_budget_def)
  then show "unat (tail_seq (fl_state (free_list tx))) + 2 < 2 ^ 64"
    by linarith
  show "0 < tx_avail tx"
    using assms by (simp add: tx_budget_def)
qed

lemma tx_budget_step:
  assumes "tx_avail tx \<le> Suc (tx_avail tx')"
    and "unat (tail_seq (fl_state (free_list tx'))) \<le> unat (tail_seq (fl_state (free_list tx))) + 2"
  shows "tx_budget tx \<le> Suc (tx_budget tx')"
proof -
  have "(2 ^ 64 - 1 - unat (tail_seq (fl_state (free_list tx)))) div 2
      \<le> Suc ((2 ^ 64 - 1 - unat (tail_seq (fl_state (free_list tx')))) div 2)"
    using assms(2) by linarith
  with assms(1) show ?thesis
    by (simp add: tx_budget_def min_def)
qed

lemma tx_list_irrelevant [simp]:
  "tx_ok (tx\<lparr>free_list := fl\<rparr>) = tx_ok tx" "tx_view file (tx\<lparr>free_list := fl\<rparr>) = tx_view file tx"
  "tx_avail (tx\<lparr>free_list := fl\<rparr>) = tx_avail tx" "tx_bound (tx\<lparr>free_list := fl\<rparr>) = tx_bound tx"
proof -
  show bound: "tx_bound (tx\<lparr>free_list := fl\<rparr>) = tx_bound tx"
    by (simp add: tx_bound_def)
  show "tx_avail (tx\<lparr>free_list := fl\<rparr>) = tx_avail tx"
    by (simp add: tx_avail_def bound)
  show "tx_ok (tx\<lparr>free_list := fl\<rparr>) = tx_ok tx"
    unfolding tx_ok_def bound by (simp add: reader_ok_def)
  have rp: "reader_pages file (tx\<lparr>free_list := fl\<rparr>) = reader_pages file tx"
    by (simp add: fun_eq_iff reader_pages_def)
  show "tx_view file (tx\<lparr>free_list := fl\<rparr>) = tx_view file tx"
    unfolding fun_eq_iff tx_view_def bound rp by simp
qed

text \<open>
  The live pages after a step of the list that released \<open>p\<close> from it, or took it over.
\<close>

lemma live_after:
  assumes rep: "fl_rep (tx_view file tx) (fl_state (free_list tx)) ns xs"
    and rep': "fl_rep (tx_view file tx') (fl_state (free_list tx')) ns' xs'"
    and N: "N \<inter> dom (tx_view file tx) = {}"
    and same: "\<forall>q. q \<notin> insert p (set (fl_owned ns xs)) \<longrightarrow> q \<notin> N \<longrightarrow> tx_view file tx' q = tx_view file tx q"
    and owned: "insert p (set (fl_owned ns' xs')) = insert p (set (fl_owned ns xs) \<union> N)" and p: "p \<noteq> 0"
  shows "tx_live file tx' = (tx_live file tx)(p := if p \<in> set (fl_owned ns' xs') then None else tx_view file tx' p)"
proof
  fix q
  note free = tx_free_eq [OF rep] tx_free_eq [OF rep']
  show "tx_live file tx' q =
      ((tx_live file tx)(p := if p \<in> set (fl_owned ns' xs') then None else tx_view file tx' p)) q"
  proof (cases "q = p")
    case True
    then show ?thesis
      using p by (simp add: tx_live_def free)
  next
    case False
    have own: "q \<in> set (fl_owned ns' xs') \<longleftrightarrow> q \<in> set (fl_owned ns xs) \<or> q \<in> N"
      using owned False by (metis UnE UnI1 UnI2 insertE insertI2)
    show ?thesis
    proof (cases "q \<in> set (fl_owned ns xs) \<or> q \<in> N")
      case True
      then have "q \<in> set (fl_owned ns xs) \<or> tx_view file tx q = None"
        using N by (auto simp: domIff)
      with True False own show ?thesis
        by (auto simp: tx_live_def free)
    next
      case out: False
      with same False have "tx_view file tx' q = tx_view file tx q"
        by simp
      with out False own show ?thesis
        by (simp add: tx_live_def free)
    qed
  qed
qed

text \<open>
  \<open>tx_since f tx0 tx\<close>: \<open>tx\<close> came from \<open>tx0\<close> by page operations. It wrote only pages that were free for
  it at \<open>tx0\<close>, the tail node of the list, and appended pages; the tail node kept the items it had; and
  the items it added to the list carry its version.
\<close>

definition fl_tail :: "KVTX \<Rightarrow> nat" where
  "fl_tail tx = unat (tail_seq (fl_state (free_list tx)))"

definition writable :: "bytes \<Rightarrow> KVTX \<Rightarrow> item list \<Rightarrow> u64 set" where
  "writable f tx xs = reusable (fl_min_reader (free_list tx)) xs \<union> (- dom (tx_view f tx) - {0})"

definition since_lists :: "bytes \<Rightarrow> KVTX \<Rightarrow> KVTX \<Rightarrow> u64 list \<Rightarrow> item list \<Rightarrow> u64 list \<Rightarrow> item list \<Rightarrow> bool" where
  "since_lists f tx0 tx ns0 xs0 ns xs \<longleftrightarrow> fl_rep (tx_view f tx0) (fl_state (free_list tx0)) ns0 xs0
     \<and> fl_rep (tx_view f tx) (fl_state (free_list tx)) ns xs
     \<and> set xs \<subseteq> set xs0 \<union> UNIV \<times> {fl_version (free_list tx0)}
     \<and> (last ns = last ns0 \<and> fl_tail tx0 \<le> fl_tail tx \<and> fl_tail tx div FREE_LIST_CAP = fl_tail tx0 div FREE_LIST_CAP
        \<or> last ns \<in> writable f tx0 xs0)
     \<and> buffered tx \<subseteq> buffered tx0 \<union> insert (last ns0) (writable f tx0 xs0)
     \<and> keeps_items (fl_tail tx0 mod FREE_LIST_CAP) (tx_view f tx0) (tx_view f tx) (last ns0)"

definition tx_since :: "bytes \<Rightarrow> KVTX \<Rightarrow> KVTX \<Rightarrow> bool" where
  "tx_since f tx0 tx \<longleftrightarrow> same_snapshot tx0 tx \<and> dom (tx_view f tx0) \<subseteq> dom (tx_view f tx)
     \<and> fl_version (free_list tx) = fl_version (free_list tx0) \<and> fl_min_reader (free_list tx) = fl_min_reader (free_list tx0)
     \<and> \<not> version_before (fl_version (free_list tx0)) (fl_min_reader (free_list tx0))
     \<and> (\<exists>ns0 xs0 ns xs. since_lists f tx0 tx ns0 xs0 ns xs)"

lemma since_listsI:
  assumes since: "tx_since f tx0 tx" and rep: "fl_rep (tx_view f tx) (fl_state (free_list tx)) ns xs"
  obtains ns0 xs0 where "since_lists f tx0 tx ns0 xs0 ns xs"
  using since fl_rep_unique [OF rep] unfolding tx_since_def since_lists_def by blast

lemma tx_since_refl:
  assumes "tx_inv f tx"
  shows "tx_since f tx tx"
proof -
  obtain ns xs where "fl_rep (tx_view f tx) (fl_state (free_list tx)) ns xs"
    using assms by (auto simp: tx_inv_def)
  then have "since_lists f tx tx ns xs ns xs"
    by (auto simp: since_lists_def keeps_items_refl)
  then show ?thesis
    using assms by (auto simp: tx_since_def tx_inv_def)
qed

lemma tx_since_step:
  assumes since: "tx_since f tx0 tx" and rep: "fl_rep (tx_view f tx) (fl_state (free_list tx)) ns xs"
    and rep': "fl_rep (tx_view f tx') (fl_state (free_list tx')) ns' xs'"
    and snap: "same_snapshot tx tx'" and dom: "dom (tx_view f tx) \<subseteq> dom (tx_view f tx')"
    and fl: "fl_version (free_list tx') = fl_version (free_list tx)" "fl_min_reader (free_list tx') = fl_min_reader (free_list tx)"
    and moved: "tx_list.moved f tx (free_list tx) ns xs tx1 (free_list tx') ns' xs' N" and N: "N \<inter> dom (tx_view f tx) = {}" "0 \<notin> N"
    and P: "P \<subseteq> reusable (fl_min_reader (free_list tx)) xs \<union> - dom (tx_view f tx)" "last ns \<notin> P" "0 \<notin> P"
    and buf: "buffered tx' \<subseteq> buffered tx1 \<union> P" and view: "\<forall>q. q \<notin> P \<longrightarrow> tx_view f tx' q = tx_view f tx1 q"
  shows "tx_since f tx0 tx'"
proof -
  obtain ns0 xs0 where L: "since_lists f tx0 tx ns0 xs0 ns xs"
    using since_listsI [OF since rep] .
  note L = L [unfolded since_lists_def]
  note M = moved [unfolded tx_list.moved_def, folded fl_tail_def]
  have ver: "\<not> version_before (fl_version (free_list tx0)) (fl_min_reader (free_list tx0))"
      and same: "fl_version (free_list tx) = fl_version (free_list tx0)" "fl_min_reader (free_list tx) = fl_min_reader (free_list tx0)"
      and dom0: "dom (tx_view f tx0) \<subseteq> dom (tx_view f tx)"
    using since by (simp_all add: tx_since_def)
  have reuse: "reusable (fl_min_reader (free_list tx)) xs \<subseteq> reusable (fl_min_reader (free_list tx0)) xs0"
    unfolding same using L ver by (intro reusable_mono) auto
  have W: "reusable (fl_min_reader (free_list tx)) xs \<union> N \<subseteq> writable f tx0 xs0" "P \<subseteq> writable f tx0 xs0"
    using reuse dom0 N P(1,3) unfolding writable_def by blast+
  have last0: "last ns0 \<notin> writable f tx0 xs0"
  proof -
    note own = fl_part_owned [OF fl_rep_slot(1) [OF conjunct1 [OF L]]]
    have "last ns0 \<in> set ns0"
      using own(1) by simp
    then have "last ns0 \<notin> fst ` set xs0" "last ns0 \<in> dom (tx_view f tx0)"
      using own(2,4) unfolding fl_owned_def distinct_append set_append set_map by blast+
    then show ?thesis
      by (force simp: writable_def reusable_def)
  qed
  have "set xs' \<subseteq> set xs0 \<union> UNIV \<times> {fl_version (free_list tx0)}"
    using M L same by auto
  moreover have "buffered tx' \<subseteq> buffered tx0 \<union> insert (last ns0) (writable f tx0 xs0)"
    using M L buf W by blast
  moreover have "last ns' = last ns0 \<and> fl_tail tx0 \<le> fl_tail tx' \<and> fl_tail tx' div FREE_LIST_CAP = fl_tail tx0 div FREE_LIST_CAP
        \<or> last ns' \<in> writable f tx0 xs0"
    using M L W(1) by (auto simp: fl_tail_def)
  moreover have "keeps_items (fl_tail tx0 mod FREE_LIST_CAP) (tx_view f tx0) (tx_view f tx') (last ns0)"
  proof -
    have out: "last ns0 \<notin> P" "last ns0 \<notin> reusable (fl_min_reader (free_list tx)) xs \<union> N"
      using last0 W by auto
    have "keeps_items (fl_tail tx0 mod FREE_LIST_CAP) (tx_view f tx) (tx_view f tx') (last ns0)"
    proof (cases "last ns0 = last ns")
      case True
      then have "last ns \<notin> writable f tx0 xs0"
        using last0 by simp
      then have tail: "fl_tail tx0 \<le> fl_tail tx" "fl_tail tx div FREE_LIST_CAP = fl_tail tx0 div FREE_LIST_CAP"
        using L by blast+
      have "fl_tail tx0 mod FREE_LIST_CAP \<le> fl_tail tx mod FREE_LIST_CAP"
        using tail by (metis div_mult_mod_eq nat_add_left_cancel_le)
      moreover have "keeps_items (fl_tail tx mod FREE_LIST_CAP) (tx_view f tx) (tx_view f tx') (last ns)"
        using M view P(2) by (auto simp: fl_tail_def keeps_items_def)
      ultimately show ?thesis
        unfolding True by (metis keeps_items_mono)
    next
      case False
      then have "tx_view f tx' (last ns0) = tx_view f tx (last ns0)"
        using M view out by auto
      then show ?thesis
        by (rule keeps_items_refl)
    qed
    then show ?thesis
      using L keeps_items_trans by blast
  qed
  ultimately have "since_lists f tx0 tx' ns0 xs0 ns' xs'"
    unfolding since_lists_def using L rep' by blast
  moreover have "same_snapshot tx0 tx'"
    using since snap same_snapshot_trans unfolding tx_since_def by blast
  moreover have "dom (tx_view f tx0) \<subseteq> dom (tx_view f tx')"
    using dom0 dom by (rule order_trans)
  ultimately show ?thesis
    using ver unfolding tx_since_def fl same by blast
qed

lemma page_new_ok:
  assumes inv: "tx_inv file tx" and bud: "0 < tx_budget tx" and enc: "encode n = Inr d"
  shows "\<exists>p tx'. page_new file tx n = Inr (p, tx') \<and> tx_inv file tx' \<and> p \<noteq> 0 \<and> tx_live file tx p = None
    \<and> tx_live file tx' = (tx_live file tx)(p \<mapsto> d) \<and> tx_budget tx \<le> Suc (tx_budget tx')
    \<and> (\<forall>tx0. tx_since file tx0 tx \<longrightarrow> tx_since file tx0 tx')"
proof -
  obtain ns xs where ok: "tx_ok tx" and rep: "fl_rep (tx_view file tx) (fl_state (free_list tx)) ns xs"
    and ver: "\<not> version_before (fl_version (free_list tx)) (fl_min_reader (free_list tx))"
    using inv by (auto simp: tx_inv_def)
  have len: "length d = BTREE_PAGE_SIZE"
    using enc by (auto simp: encode_def rbind_eq_Inr store_def load_def check_def split: if_splits)
  obtain p fl tx1 ns' xs' N where pop: "pop_head (KVTX_FreePages file) tx (free_list tx) = Inr (p, fl, tx1)"
      "tx_list.recycled tx file tx (free_list tx) tx1 fl (set (fl_owned ns xs)) N"
      "fl_rep (tx_view file tx1) (fl_state fl) ns' xs'"
      "if p = 0 then tx1 = tx \<and> fl = free_list tx \<and> ns' = ns \<and> xs' = xs \<and> N = {}
         \<and> (xs = [] \<or> \<not> version_before (snd (hd xs)) (fl_min_reader (free_list tx)))
       else xs \<noteq> [] \<and> p = fst (hd xs) \<and> version_before (snd (hd xs)) (fl_min_reader (free_list tx))
         \<and> p \<notin> set (fl_owned ns' xs') \<and> insert p (set (fl_owned ns' xs')) = set (fl_owned ns xs) \<union> N"
      "tx_list.moved file tx (free_list tx) ns xs tx1 fl ns' xs' N"
    using tx_list.pop_head_ok [of tx tx "file" "free_list tx" ns xs] ok rep tx_budget_pos(2,1) [OF bud] ver by auto
  note rec = pop(2) [unfolded tx_list.recycled_def]
  note own = fl_part_owned [OF fl_rep_slot(1) [OF rep]]
  show ?thesis
  proof (cases "p = 0")
    case True
    then have same: "tx1 = tx" "fl = free_list tx"
      using pop(4) by simp_all
    define q where "q = kv_flushed tx + page_append_count tx"
    define tx' where "tx' = tx\<lparr>page_append_count := page_append_count tx + 1, page_updates := omap_put q d (page_updates tx)\<rparr>"
    note grow = tx_grow [OF ok tx_budget_pos(1) [OF bud] len, folded q_def, folded tx'_def]
    have q: "q \<notin> set (fl_owned ns xs)"
      using own(4) grow(4) by (auto simp: domIff)
    have fl': "free_list tx' = free_list tx"
      by (simp add: tx'_def)
    have "\<forall>r\<in>set ns. tx_view file tx' r = tx_view file tx r"
      using q by (auto simp: grow(2) fl_owned_def)
    moreover have "set (fl_owned ns xs) \<subseteq> dom (tx_view file tx')"
      using own(4) by (auto simp: grow(2))
    ultimately have rep': "fl_rep (tx_view file tx') (fl_state (free_list tx')) ns xs"
      unfolding fl' by (rule fl_rep_frame [OF rep])
    have "page_new file tx n = Inr (q, tx')"
      using pop(1) True same enc by (simp add: page_new_def Let_def q_def tx'_def)
    moreover have "tx_live file tx' = (tx_live file tx)(q := if q \<in> set (fl_owned ns xs) then None else tx_view file tx' q)"
      by (rule live_after [OF rep rep', of "{}"]) (use grow(2,5) in auto)
    moreover have "tx_inv file tx'"
      using grow(1) rep' ver by (auto simp: tx_inv_def fl')
    moreover have "tx_budget tx \<le> Suc (tx_budget tx')"
      by (rule tx_budget_step) (simp_all add: grow(3) fl')
    moreover have "tx_live file tx q = None"
      using grow(4) by (simp add: tx_live_def)
    moreover have "tx_since file tx0 tx'" if "tx_since file tx0 tx" for tx0
    proof (rule tx_since_step [OF that rep rep' grow(7)])
      show "tx_list.moved file tx (free_list tx) ns xs tx (free_list tx') ns xs {}"
        by (simp add: fl' tx_list.moved_refl)
      show "last ns \<notin> {q}"
        using q owned_last [OF own(1), of xs] by auto
    qed (use grow(2,4,5,6) in \<open>auto simp: fl' domIff\<close>)
    ultimately show ?thesis
      using q grow(2,5) by (intro exI [of _ q] exI [of _ tx']) simp
  next
    case False
    then have P: "p \<notin> set (fl_owned ns' xs')" "insert p (set (fl_owned ns' xs')) = set (fl_owned ns xs) \<union> N" "xs \<noteq> []"
        "p = fst (hd xs)"
      using pop(4) unfolding if_not_P [OF False] by blast+
    define tx2 where "tx2 = tx1\<lparr>free_list := fl\<rparr>"
    have p_own: "p \<in> set (fl_owned ns xs)"
      using P(3,4) by (simp add: fl_owned_def)
    have "p \<in> dom (tx_view file tx1)"
      using p_own own(4) rec by blast
    then have bound: "unat p < tx_bound tx1"
      by (auto simp: tx_view_def split: if_splits)
    define tx' where "tx' = tx2\<lparr>page_updates := omap_put p d (page_updates tx2)\<rparr>"
    have ok2: "tx_ok tx2"
      using rec by (simp add: tx2_def)
    have b2: "unat p < tx_bound tx2"
      using bound by (simp add: tx2_def)
    note put = tx_put [OF ok2 len b2, folded tx'_def]
    have view': "tx_view file tx' = (tx_view file tx1)(p \<mapsto> d)"
      unfolding put(2) by (simp add: tx2_def)
    have fl': "free_list tx' = fl"
      by (simp add: tx'_def tx2_def)
    have "\<forall>r\<in>set ns'. tx_view file tx' r = tx_view file tx1 r"
      using P(1) by (auto simp: view' fl_owned_def)
    moreover have "set (fl_owned ns' xs') \<subseteq> dom (tx_view file tx')"
      using fl_part_owned(4) [OF fl_rep_slot(1) [OF pop(3)]] by (auto simp: view')
    ultimately have rep': "fl_rep (tx_view file tx') (fl_state (free_list tx')) ns' xs'"
      unfolding fl' by (rule fl_rep_frame [OF pop(3)])
    have "page_new file tx n = Inr (p, tx')"
      using pop(1) False enc by (simp add: page_new_def Let_def tx'_def tx2_def)
    moreover have "tx_live file tx' = (tx_live file tx)(p := if p \<in> set (fl_owned ns' xs') then None else tx_view file tx' p)"
    proof (rule live_after [OF rep rep'])
      show "N \<inter> dom (tx_view file tx) = {}"
        using rec by blast
      show "\<forall>q. q \<notin> insert p (set (fl_owned ns xs)) \<longrightarrow> q \<notin> N \<longrightarrow> tx_view file tx' q = tx_view file tx q"
        using rec by (auto simp: view')
      show "insert p (set (fl_owned ns' xs')) = insert p (set (fl_owned ns xs) \<union> N)"
        using P(2) by blast
    qed (rule False)
    moreover have "tx_inv file tx'"
      using put(1) rep' ver rec by (auto simp: tx_inv_def fl')
    moreover have "tx_budget tx \<le> Suc (tx_budget tx')"
    proof (rule tx_budget_step)
      show "tx_avail tx \<le> Suc (tx_avail tx')"
        using rec by (simp add: put(3) tx2_def)
      show "unat (tail_seq (fl_state (free_list tx'))) \<le> unat (tail_seq (fl_state (free_list tx))) + 2"
        using rec by (simp add: fl')
    qed
    moreover have "tx_live file tx p = None"
      using p_own by (simp add: tx_live_def tx_free_eq [OF rep])
    moreover have "tx_since file tx0 tx'" if "tx_since file tx0 tx" for tx0
    proof (rule tx_since_step [OF that rep rep'])
      show "same_snapshot tx tx'"
      proof (rule same_snapshot_trans)
        show "same_snapshot tx tx2"
          using rec by (simp add: tx2_def)
        show "same_snapshot tx2 tx'"
          unfolding tx'_def by (rule same_snapshot_put(1))
      qed
      show "tx_list.moved file tx (free_list tx) ns xs tx1 (free_list tx') ns' xs' N"
        using pop(5) by (simp add: fl')
      show "{p} \<subseteq> reusable (fl_min_reader (free_list tx)) xs \<union> - dom (tx_view file tx)"
        using pop(4) False by (cases xs) (auto simp: reusable_def)
      show "last ns \<notin> {p}"
        using own(1,2) P(3,4) by (cases xs) (auto simp: fl_owned_def)
      show "buffered tx' \<subseteq> buffered tx1 \<union> {p}"
        by (simp add: tx'_def tx2_def buffered_def)
    qed (use rec False in \<open>auto simp: fl' view'\<close>)
    ultimately show ?thesis
      using P(1) False view' by (intro exI [of _ p] exI [of _ tx']) simp
  qed
qed

lemma page_del_ok:
  assumes inv: "tx_inv file tx" and bud: "0 < tx_budget tx" and live: "tx_live file tx p \<noteq> None"
  shows "\<exists>tx'. page_del file tx p = Inr tx' \<and> tx_inv file tx' \<and> tx_live file tx' = (tx_live file tx)(p := None)
    \<and> tx_budget tx \<le> Suc (tx_budget tx') \<and> (\<forall>tx0. tx_since file tx0 tx \<longrightarrow> tx_since file tx0 tx')"
proof -
  obtain ns xs where ok: "tx_ok tx" and rep: "fl_rep (tx_view file tx) (fl_state (free_list tx)) ns xs"
    and ver: "\<not> version_before (fl_version (free_list tx)) (fl_min_reader (free_list tx))"
    using inv by (auto simp: tx_inv_def)
  have p: "p \<notin> set (fl_owned ns xs)" "p \<noteq> 0" "tx_view file tx p \<noteq> None"
    using live tx_free_eq [OF rep] by (auto simp: tx_live_def split: if_splits)
  obtain fl tx1 ns' xs' N where push: "push_tail (KVTX_FreePages file) tx (free_list tx) p = Inr (fl, tx1)"
      "tx_list.recycled tx file tx (free_list tx) tx1 fl (insert p (set (fl_owned ns xs))) N"
      "fl_rep (tx_view file tx1) (fl_state fl) ns' xs'"
      "set (fl_owned ns' xs') = insert p (set (fl_owned ns xs)) \<union> N"
      "tx_list.moved file tx (free_list tx) ns xs tx1 fl ns' xs' N"
    using tx_list.push_tail_ok [of tx tx "file" "free_list tx" ns xs p] ok rep tx_budget_pos(2,1) [OF bud] p ver by auto
  note rec = push(2) [unfolded tx_list.recycled_def]
  define tx' where "tx' = tx1\<lparr>free_list := fl\<rparr>"
  have fl': "free_list tx' = fl" and view': "tx_view file tx' = tx_view file tx1"
    by (simp_all add: tx'_def)
  have rep': "fl_rep (tx_view file tx') (fl_state (free_list tx')) ns' xs'"
    using push(3) by (simp add: fl' view')
  have "tx_live file tx' = (tx_live file tx)(p := if p \<in> set (fl_owned ns' xs') then None else tx_view file tx' p)"
  proof (rule live_after [OF rep rep'])
    show "N \<inter> dom (tx_view file tx) = {}"
      using rec by blast
    show "\<forall>q. q \<notin> insert p (set (fl_owned ns xs)) \<longrightarrow> q \<notin> N \<longrightarrow> tx_view file tx' q = tx_view file tx q"
      using rec by (simp add: view')
    show "insert p (set (fl_owned ns' xs')) = insert p (set (fl_owned ns xs) \<union> N)"
      using push(4) by blast
  qed (rule p(2))
  moreover have "page_del file tx p = Inr tx'"
    using push(1) by (simp add: page_del_def tx'_def)
  moreover have "tx_inv file tx'"
    using rec rep' ver by (auto simp: tx_inv_def fl' tx'_def)
  moreover have "tx_budget tx \<le> Suc (tx_budget tx')"
    by (rule tx_budget_step) (use rec in \<open>simp_all add: tx'_def\<close>)
  moreover have "tx_since file tx0 tx'" if "tx_since file tx0 tx" for tx0
  proof (rule tx_since_step [OF that rep rep'])
    show "same_snapshot tx tx'"
      using rec by (simp add: tx'_def)
    show "tx_list.moved file tx (free_list tx) ns xs tx1 (free_list tx') ns' xs' N"
      using push(5) by (simp add: fl')
    show "buffered tx' \<subseteq> buffered tx1 \<union> {}"
      by (simp add: tx'_def buffered_def)
  qed (use rec in \<open>auto simp: fl' view'\<close>)
  ultimately show ?thesis
    using push(4) by simp
qed

lemma page_get_ok:
  assumes "tx_inv file tx" and "tx_live file tx p = Some d"
  shows "page_get file tx p = Inr d"
proof -
  have view: "tx_view file tx p = Some d"
    using assms(2) by (auto simp: tx_live_def split: if_splits)
  have ok: "tx_ok tx"
    using assms(1) by (simp add: tx_inv_def)
  have "page_read file tx p = Inr d"
    using ok view by (intro page_read_ok) (simp_all add: tx_ok_def)
  then show ?thesis
    using decode_ok [OF tx_view_length [OF ok view]] by (simp add: page_get_def)
qed

text \<open>
  The tree's contract: once for a transaction as it is, and once for one that remembers where it began.
\<close>

interpretation tx_pages: page_store "KVTX_Pages f" "tx_inv f" "tx_live f" tx_budget for f
proof
  show "tx_inv f s \<Longrightarrow> tx_live f s p = Some d \<Longrightarrow> pm_get (KVTX_Pages f) s p = Inr d" for s p d
    by (simp add: KVTX_Pages_def page_get_ok)
  show "tx_inv f s \<Longrightarrow> 0 < tx_budget s \<Longrightarrow> encode n = Inr d \<Longrightarrow>
      \<exists>p s'. pm_new_page (KVTX_Pages f) s n = Inr (p, s') \<and> tx_inv f s' \<and> p \<noteq> 0 \<and> tx_live f s p = None
        \<and> tx_live f s' = (tx_live f s)(p \<mapsto> d) \<and> tx_budget s \<le> Suc (tx_budget s')" for s n d
    using page_new_ok [of f s n d] unfolding KVTX_Pages_def IPageManager.select_convs by metis
  show "tx_inv f s \<Longrightarrow> 0 < tx_budget s \<Longrightarrow> tx_live f s p \<noteq> None \<Longrightarrow>
      \<exists>s'. pm_del (KVTX_Pages f) s p = Inr s' \<and> tx_inv f s' \<and> tx_live f s' = (tx_live f s)(p := None)
        \<and> tx_budget s \<le> Suc (tx_budget s')" for s p
    using page_del_ok [of f s p] unfolding KVTX_Pages_def IPageManager.select_convs by metis
qed

definition tx_inv_since :: "bytes \<Rightarrow> KVTX \<Rightarrow> KVTX \<Rightarrow> bool" where
  "tx_inv_since f tx0 tx \<longleftrightarrow> tx_inv f tx \<and> tx_since f tx0 tx"

interpretation tx_grown: page_store "KVTX_Pages f" "tx_inv_since f tx0" "tx_live f" tx_budget for f tx0
proof
  show "tx_inv_since f tx0 s \<Longrightarrow> tx_live f s p = Some d \<Longrightarrow> pm_get (KVTX_Pages f) s p = Inr d" for s p d
    by (simp add: KVTX_Pages_def page_get_ok tx_inv_since_def)
  show "tx_inv_since f tx0 s \<Longrightarrow> 0 < tx_budget s \<Longrightarrow> encode n = Inr d \<Longrightarrow>
      \<exists>p s'. pm_new_page (KVTX_Pages f) s n = Inr (p, s') \<and> tx_inv_since f tx0 s' \<and> p \<noteq> 0 \<and> tx_live f s p = None
        \<and> tx_live f s' = (tx_live f s)(p \<mapsto> d) \<and> tx_budget s \<le> Suc (tx_budget s')" for s n d
    using page_new_ok [of f s n d] unfolding KVTX_Pages_def IPageManager.select_convs tx_inv_since_def by metis
  show "tx_inv_since f tx0 s \<Longrightarrow> 0 < tx_budget s \<Longrightarrow> tx_live f s p \<noteq> None \<Longrightarrow>
      \<exists>s'. pm_del (KVTX_Pages f) s p = Inr s' \<and> tx_inv_since f tx0 s' \<and> tx_live f s' = (tx_live f s)(p := None)
        \<and> tx_budget s \<le> Suc (tx_budget s')" for s p
    using page_del_ok [of f s p] unfolding KVTX_Pages_def IPageManager.select_convs tx_inv_since_def by metis
qed

end
