(* ===== verification/KVTX_Spec.thy ===== *)
theory KVTX_Spec
  imports KVTX
begin

text \<open>
  What a write transaction promises: on a transaction that holds the map \<open>m\<close>, reads return \<open>m\<close>, and
  every write yields a transaction that holds the updated map, with the tree, the buffered pages and
  the free list all in order. The laws of the page managers enter through the interpretations of
  KVTX.
\<close>

definition tx_holds :: "bytes \<Rightarrow> KVTX \<Rightarrow> (bytes \<rightharpoonup> bytes) \<Rightarrow> bool" where
  "tx_holds file tx m \<longleftrightarrow> tx_inv file tx \<and> btree (tx_live file tx) (tree_root tx) m"

text \<open>A bound on the page operations of one write: three per level of the tree, and the root.\<close>

definition tx_cost :: "bytes \<Rightarrow> KVTX \<Rightarrow> nat" where
  "tx_cost file tx = 3 * card (dom (tx_live file tx)) + 4"

lemma tx_root_irrelevant [simp]:
  "tx_ok (tx\<lparr>tree_root := r\<rparr>) = tx_ok tx" "tx_view file (tx\<lparr>tree_root := r\<rparr>) = tx_view file tx"
  "tx_free file (tx\<lparr>tree_root := r\<rparr>) = tx_free file tx" "tx_live file (tx\<lparr>tree_root := r\<rparr>) = tx_live file tx"
  "tx_inv file (tx\<lparr>tree_root := r\<rparr>) = tx_inv file tx" "tx_budget (tx\<lparr>tree_root := r\<rparr>) = tx_budget tx"
proof -
  have bound: "tx_bound (tx\<lparr>tree_root := r\<rparr>) = tx_bound tx"
    by (simp add: tx_bound_def)
  have rp: "reader_pages file (tx\<lparr>tree_root := r\<rparr>) = reader_pages file tx"
    by (simp add: fun_eq_iff reader_pages_def)
  show ok: "tx_ok (tx\<lparr>tree_root := r\<rparr>) = tx_ok tx"
    unfolding tx_ok_def bound by (simp add: reader_ok_def)
  show view: "tx_view file (tx\<lparr>tree_root := r\<rparr>) = tx_view file tx"
    unfolding fun_eq_iff tx_view_def bound rp by simp
  show free: "tx_free file (tx\<lparr>tree_root := r\<rparr>) = tx_free file tx"
    unfolding tx_free_def view by simp
  show "tx_live file (tx\<lparr>tree_root := r\<rparr>) = tx_live file tx"
    unfolding fun_eq_iff tx_live_def view free by simp
  show "tx_inv file (tx\<lparr>tree_root := r\<rparr>) = tx_inv file tx"
    unfolding tx_inv_def view ok by simp
  show "tx_budget (tx\<lparr>tree_root := r\<rparr>) = tx_budget tx"
    unfolding tx_budget_def tx_avail_def bound by simp
qed

lemma tx_since_root [simp]: "tx_since f tx0 (tx\<lparr>tree_root := r\<rparr>) = tx_since f tx0 tx"
  by (simp add: tx_since_def since_lists_def fl_tail_def buffered_def)

lemma tx_cost_eq: "tx_pages.cost file tx = tx_cost file tx"
  by (simp add: tx_pages.cost_def tx_cost_def)

lemma get_holds:
  assumes "tx_holds file tx m" and "valid_key key"
  shows "KVTX_get file tx key = Inr (m key)"
  using assms tx_pages.BTree_get_ok [of "file" tx "tree_root tx" m key] btree_represents
  by (simp add: tx_holds_def KVTX_get_def)

lemma set_holds:
  assumes "tx_holds file tx m" and "valid_key key" and "length val \<le> BTREE_MAX_VAL_SIZE"
    and "tx_cost file tx \<le> tx_budget tx"
  shows "\<exists>tx'. KVTX_set file tx key val = Inr tx' \<and> tx_holds file tx' (m(key \<mapsto> val))
    \<and> tx_budget tx \<le> tx_budget tx' + tx_cost file tx"
proof -
  obtain root' tx1 where "BTree_insert (KVTX_Pages file) (tree_root tx) tx key val = Inr (root', tx1)"
      "tx_inv file tx1" "tx_budget tx \<le> tx_budget tx1 + tx_cost file tx"
      "btree (tx_live file tx1) root' (m(key \<mapsto> val))"
    using tx_pages.BTree_insert_ok [of "file" tx "tree_root tx" m key val] assms
    by (auto simp: tx_holds_def tx_cost_eq)
  then show ?thesis
    by (intro exI [of _ "tx1\<lparr>tree_root := root'\<rparr>"]) (simp add: KVTX_set_def tx_holds_def)
qed

lemma set_holds_since:
  assumes "tx_holds file tx m" and "tx_since file tx0 tx" and "valid_key key" and "length val \<le> BTREE_MAX_VAL_SIZE"
    and "tx_cost file tx \<le> tx_budget tx" and "KVTX_set file tx key val = Inr tx'"
  shows "tx_since file tx0 tx'"
proof -
  have cost: "tx_grown.cost file tx = tx_cost file tx"
    by (simp add: tx_grown.cost_def tx_cost_def)
  obtain root' tx1 where "BTree_insert (KVTX_Pages file) (tree_root tx) tx key val = Inr (root', tx1)"
      "tx_inv_since file tx0 tx1"
    using tx_grown.BTree_insert_ok [of "file" tx0 tx "tree_root tx" m key val] assms(1-5)
    by (auto simp: tx_holds_def tx_inv_since_def cost)
  then show ?thesis
    using assms(6) by (auto simp: KVTX_set_def tx_inv_since_def)
qed

text \<open>The same with the height of the tree: a write costs three page operations for each level and four at the root.\<close>

lemma set_holds_tall:
  assumes "tx_holds file tx m" and "valid_key key" and "length val \<le> BTREE_MAX_VAL_SIZE"
    and "tall (tx_live file tx) (tree_root tx) h" and "3 * h + 4 \<le> tx_budget tx"
  shows "\<exists>tx'. KVTX_set file tx key val = Inr tx' \<and> tx_holds file tx' (m(key \<mapsto> val))
    \<and> tx_budget tx \<le> tx_budget tx' + (3 * h + 4) \<and> tall (tx_live file tx') (tree_root tx') (Suc h)
    \<and> (\<forall>tx0. tx_since file tx0 tx \<longrightarrow> tx_since file tx0 tx')"
proof -
  obtain root' tx1 where run: "BTree_insert (KVTX_Pages file) (tree_root tx) tx key val = Inr (root', tx1)"
      "tx_inv file tx1" "tx_budget tx \<le> tx_budget tx1 + (3 * h + 4)"
      "btree (tx_live file tx1) root' (m(key \<mapsto> val))" "tall (tx_live file tx1) root' (Suc h)"
    using tx_pages.BTree_insert_tall [of "file" tx "tree_root tx" m key val h] assms by (auto simp: tx_holds_def)
  have "tx_since file tx0 tx1" if "tx_since file tx0 tx" for tx0
    using tx_grown.BTree_insert_tall [of "file" tx0 tx "tree_root tx" m key val h] that assms run(1)
    by (auto simp: tx_holds_def tx_inv_since_def)
  with run show ?thesis
    by (intro exI [of _ "tx1\<lparr>tree_root := root'\<rparr>"]) (simp add: KVTX_set_def tx_holds_def)
qed

lemma del_holds_tall:
  assumes "tx_holds file tx m" and "valid_key key" and "m key \<noteq> None"
    and "roomy (tx_live file tx) (tree_root tx) key"
    and "tall (tx_live file tx) (tree_root tx) h" and "3 * h + 4 \<le> tx_budget tx"
  shows "\<exists>tx'. KVTX_del file tx key = Inr (True, tx') \<and> tx_holds file tx' (m(key := None))
    \<and> tx_budget tx \<le> tx_budget tx' + (3 * h + 4) \<and> tall (tx_live file tx') (tree_root tx') h
    \<and> (\<forall>tx0. tx_since file tx0 tx \<longrightarrow> tx_since file tx0 tx')"
proof -
  obtain root' tx1 where run: "BTree_remove (KVTX_Pages file) (tree_root tx) tx key = Inr (True, root', tx1)"
      "tx_inv file tx1" "tx_budget tx \<le> tx_budget tx1 + (3 * h + 4)"
      "btree (tx_live file tx1) root' (m(key := None))" "tall (tx_live file tx1) root' h"
    using tx_pages.BTree_remove_tall [of "file" tx "tree_root tx" m key h] assms by (auto simp: tx_holds_def)
  have "tx_since file tx0 tx1" if "tx_since file tx0 tx" for tx0
    using tx_grown.BTree_remove_tall [of "file" tx0 tx "tree_root tx" m key h] that assms run(1)
    by (auto simp: tx_holds_def tx_inv_since_def)
  with run show ?thesis
    by (intro exI [of _ "tx1\<lparr>tree_root := root'\<rparr>"]) (simp add: KVTX_del_def tx_holds_def)
qed

lemma del_holds_absent:
  assumes "tx_holds file tx m" and "valid_key key" and "m key = None"
  shows "KVTX_del file tx key = Inr (False, tx)"
  using assms tx_pages.BTree_remove_absent [of "file" tx "tree_root tx" m key]
  by (simp add: tx_holds_def KVTX_del_def)

lemma del_holds:
  assumes "tx_holds file tx m" and "valid_key key" and "m key \<noteq> None"
    and "roomy (tx_live file tx) (tree_root tx) key" and "tx_cost file tx \<le> tx_budget tx"
  shows "\<exists>tx'. KVTX_del file tx key = Inr (True, tx') \<and> tx_holds file tx' (m(key := None))
    \<and> tx_budget tx \<le> tx_budget tx' + tx_cost file tx"
proof -
  obtain root' tx1 where "BTree_remove (KVTX_Pages file) (tree_root tx) tx key = Inr (True, root', tx1)"
      "tx_inv file tx1" "tx_budget tx \<le> tx_budget tx1 + tx_cost file tx"
      "btree (tx_live file tx1) root' (m(key := None))"
    using tx_pages.BTree_remove_ok [of "file" tx "tree_root tx" m key] assms
    by (auto simp: tx_holds_def tx_cost_eq)
  then show ?thesis
    by (intro exI [of _ "tx1\<lparr>tree_root := root'\<rparr>"]) (simp add: KVTX_del_def tx_holds_def)
qed

lemma del_holds_since:
  assumes "tx_holds file tx m" and "tx_since file tx0 tx" and "valid_key key" and "m key \<noteq> None"
    and "roomy (tx_live file tx) (tree_root tx) key" and "tx_cost file tx \<le> tx_budget tx"
    and "KVTX_del file tx key = Inr (True, tx')"
  shows "tx_since file tx0 tx'"
proof -
  have cost: "tx_grown.cost file tx = tx_cost file tx"
    by (simp add: tx_grown.cost_def tx_cost_def)
  obtain root' tx1 where "BTree_remove (KVTX_Pages file) (tree_root tx) tx key = Inr (True, root', tx1)"
      "tx_inv_since file tx0 tx1"
    using tx_grown.BTree_remove_ok [of "file" tx0 tx "tree_root tx" m key] assms(1-6)
    by (auto simp: tx_holds_def tx_inv_since_def cost)
  then show ?thesis
    using assms(7) by (auto simp: KVTX_del_def tx_inv_since_def)
qed

section \<open>A transaction on a new database\<close>

definition fresh_tx :: KVTX where
  "fresh_tx = \<lparr>rd_version = 0, heap_index = -1, tree_root = 0, chunks = [], kv_flushed = 2,
     page_updates = [(1, BNode BTREE_PAGE_SIZE)], page_append_count = 0,
     free_list = \<lparr>fl_version = 0, fl_min_reader = 0,
       fl_state = \<lparr>head_page = 1, head_seq = 0, tail_page = 1, tail_seq = 0\<rparr>\<rparr>\<rparr>"

lemma fresh_tx_view: "tx_view file fresh_tx = [1 \<mapsto> BNode BTREE_PAGE_SIZE]"
proof
  fix p
  show "tx_view file fresh_tx p = [1 \<mapsto> BNode BTREE_PAGE_SIZE] p"
    by (simp add: tx_view_def fresh_tx_def tx_bound_def reader_pages_def mapped_total_def)
qed

lemma fresh_tx_list: "fl_rep (tx_view file fresh_tx) (fl_state (free_list fresh_tx)) [1] []"
  by (simp add: fl_rep_def fl_part_def fl_owned_def fresh_tx_view) (simp add: fresh_tx_def)

lemma fresh_tx_live: "tx_live file fresh_tx = Map.empty"
  by (auto simp: fun_eq_iff tx_live_def tx_free_eq [OF fresh_tx_list] fl_owned_def fresh_tx_view)

lemma fresh_tx_holds: "tx_holds file fresh_tx Map.empty"
proof -
  have "tx_ok fresh_tx"
    by (simp add: tx_ok_def fresh_tx_def reader_ok_def mapped_total_def tx_bound_def MAX_PAGES_def BNode_def buffered_def)
  moreover have "\<not> version_before 0 0"
    by (simp add: version_before_def)
  ultimately show ?thesis
    using fresh_tx_list fresh_tx_live by (auto simp: tx_holds_def tx_inv_def btree_def) (simp_all add: fresh_tx_def)
qed

lemma fresh_tx_budget: "tx_cost file fresh_tx = 4" "1000 \<le> tx_budget fresh_tx"
  by (simp_all add: tx_cost_def fresh_tx_live)
    (simp add: tx_budget_def tx_avail_def tx_bound_def fresh_tx_def MAX_PAGES_def)

lemma valid_key_a: "valid_key [97]" "short_successor [97] [[97] \<mapsto> [1]]"
  by (simp_all add: valid_key_def BTREE_MAX_KEY_SIZE_def short_successor_def)

lemma tx_live_card: "card (dom (tx_live file tx)) \<le> tx_bound tx"
proof -
  have "unat ` dom (tx_live file tx) \<subseteq> {..<tx_bound tx}"
    by (auto simp: tx_live_def tx_view_def split: if_splits)
  then have "card (unat ` dom (tx_live file tx)) \<le> tx_bound tx"
    using card_mono [of "{..<tx_bound tx}" "unat ` dom (tx_live file tx)"] by simp
  moreover have "inj_on unat (dom (tx_live file tx))"
    by (rule inj_onI) (simp only: word_unat_eq_iff)
  ultimately show ?thesis
    by (simp add: card_image)
qed

lemma tx_cost_small:
  assumes "2 ^ 50 - 100 \<le> tx_budget tx"
  shows "tx_cost file tx \<le> tx_budget tx"
proof -
  have "2 ^ 50 - 100 \<le> 2 ^ 50 - tx_bound tx"
    using assms by (simp add: tx_budget_def tx_avail_def MAX_PAGES_def)
  then have "tx_bound tx \<le> 100"
    by simp
  then show ?thesis
    using tx_live_card [of "file" tx] assms by (simp add: tx_cost_def)
qed

lemma fresh_tx_budget_exact: "2 ^ 50 - 10 \<le> tx_budget fresh_tx"
  by (simp add: tx_budget_def tx_avail_def tx_bound_def fresh_tx_def MAX_PAGES_def)

text \<open>A transaction that holds one key.\<close>

lemma fresh_tx_set:
  "\<exists>tx. KVTX_set [] fresh_tx [97] [1] = Inr tx \<and> tx_holds [] tx [[97] \<mapsto> [1]] \<and> tx_cost [] tx \<le> tx_budget tx"
proof -
  obtain tx where tx: "KVTX_set [] fresh_tx [97] [1] = Inr tx" "tx_holds [] tx [[97] \<mapsto> [1]]"
      "tx_budget fresh_tx \<le> tx_budget tx + 4"
    using set_holds [OF fresh_tx_holds valid_key_a(1), of "[1]" "[]"] fresh_tx_budget
    by (auto simp: BTREE_MAX_VAL_SIZE_def)
  have "tx_cost [] tx \<le> tx_budget tx"
    using tx(3) fresh_tx_budget_exact by (intro tx_cost_small) simp
  with tx show ?thesis
    by blast
qed

section \<open>The contract of a write transaction\<close>

text \<open>
  C1: a write transaction stores what it is given. If it holds the map \<open>m\<close>, then setting a valid key
  to a value within the limit succeeds and the transaction then holds \<open>m\<close> with that entry: the tree
  is a well-formed B+tree again (page splits included), its pages are exactly the live ones, so no
  page leaks, and the free list and buffered pages stay in order.
\<close>

theorem KVTX_set_correct:
  assumes "tx_holds file tx m" and "valid_key key" and "length val \<le> BTREE_MAX_VAL_SIZE"
    and "tx_cost file tx \<le> tx_budget tx"
  shows "\<exists>tx'. KVTX_set file tx key val = Inr tx' \<and> tx_holds file tx' (m(key \<mapsto> val))
    \<and> tx_budget tx \<le> tx_budget tx' + tx_cost file tx"
  using assms by (rule set_holds)

lemma KVTX_set_correct_witness:
  "\<exists>tx'. KVTX_set [] fresh_tx [97] [1] = Inr tx' \<and> tx_holds [] tx' [[97] \<mapsto> [1]]"
  using KVTX_set_correct [OF fresh_tx_holds valid_key_a(1), of "[1]" "[]"] fresh_tx_budget
  by (auto simp: BTREE_MAX_VAL_SIZE_def)

text \<open>
  C2: a deletion removes exactly the given key. Deleting a key that is present reports true and
  leaves a transaction that holds the map without it, sibling merges and the shrinking of the root
  included; deleting an absent key reports false and changes nothing. The condition \<open>short_successor\<close>
  asks that the least key above the given one is not longer than it. It is required of every key the
  theorem speaks of, separator or not, present or absent. It is sufficient and not necessary: the code
  needs it only where the key is a separator in a node without free space. The proof rests on the weaker
  \<open>roomy\<close>, that every internal node has as many free bytes as the next key is longer.
\<close>

theorem KVTX_del_correct:
  assumes "tx_holds file tx m" and "valid_key key" and "short_successor key m"
    and "tx_cost file tx \<le> tx_budget tx"
  shows "\<exists>tx'. KVTX_del file tx key = Inr (m key \<noteq> None, tx') \<and> tx_holds file tx' (m(key := None))
    \<and> (m key = None \<longrightarrow> tx' = tx)"
proof (cases "m key = None")
  case True
  then have "m(key := None) = m"
    by auto
  with True assms show ?thesis
    using del_holds_absent [of "file" tx m key] by auto
next
  case False
  have "roomy (tx_live file tx) (tree_root tx) key"
    using assms(1,3) by (auto simp: tx_holds_def intro: short_successor_roomy)
  with False assms show ?thesis
    using del_holds [of "file" tx m key] by auto
qed

lemma KVTX_del_correct_witness:
  "\<exists>tx tx'. KVTX_set [] fresh_tx [97] [1] = Inr tx \<and> KVTX_del [] tx [97] = Inr (True, tx')
    \<and> tx_holds [] tx' Map.empty"
proof -
  obtain tx where tx: "KVTX_set [] fresh_tx [97] [1] = Inr tx" "tx_holds [] tx [[97] \<mapsto> [1]]"
      "tx_cost [] tx \<le> tx_budget tx"
    using fresh_tx_set by blast
  have "[[97] \<mapsto> [1]]([97] := None) = (Map.empty :: bytes \<rightharpoonup> bytes)"
    by auto
  with KVTX_del_correct [OF tx(2) valid_key_a tx(3)] tx(1) show ?thesis
    by auto
qed

text \<open>
  C3: reading returns what is stored. On a transaction that holds \<open>m\<close>, \<open>get\<close> terminates and returns
  the value \<open>m\<close> has for the key, or nothing if it has none; the tx reads back its own writes.
\<close>

theorem KVTX_get_correct:
  assumes "tx_holds file tx m" and "valid_key key"
  shows "KVTX_get file tx key = Inr (m key)"
  using assms by (rule get_holds)

lemma KVTX_get_correct_witness:
  "\<exists>tx. KVTX_set [] fresh_tx [97] [1] = Inr tx \<and> KVTX_get [] tx [97] = Inr (Some [1])
    \<and> KVTX_get [] fresh_tx [97] = Inr None"
proof -
  obtain tx where "KVTX_set [] fresh_tx [97] [1] = Inr tx" "tx_holds [] tx [[97] \<mapsto> [1]]"
    using fresh_tx_set by blast
  then show ?thesis
    using KVTX_get_correct [of "[]" tx "[[97] \<mapsto> [1]]" "[97]"] KVTX_get_correct [OF fresh_tx_holds, of "[97]" "[]"]
      valid_key_a(1) by auto
qed

text \<open>
  \<open>update\<close> obeys its mode. INSERT_ONLY on a present key and UPDATE_ONLY on an absent one report
  false and write nothing; every other request stores the value. In all cases the request reports
  whether the key was absent, and the old value if there was one.
\<close>

theorem KVTX_update_correct:
  assumes "tx_holds file tx m" and "valid_key (ins_key req)" and "length (ins_val req) \<le> BTREE_MAX_VAL_SIZE"
    and "tx_cost file tx \<le> tx_budget tx"
  shows "\<exists>done req' tx'. KVTX_update file tx req = Inr (done, req', tx')
    \<and> done = (case ins_mode req of UPSERT \<Rightarrow> True | UPDATE_ONLY \<Rightarrow> m (ins_key req) \<noteq> None
               | INSERT_ONLY \<Rightarrow> m (ins_key req) = None)
    \<and> req' = req\<lparr>ins_added := (m (ins_key req) = None),
                 ins_old := (case m (ins_key req) of Some v \<Rightarrow> v | None \<Rightarrow> [])\<rparr>
    \<and> tx_holds file tx' (if done then m(ins_key req \<mapsto> ins_val req) else m) \<and> (\<not> done \<longrightarrow> tx' = tx)"
proof -
  obtain tx' where "KVTX_set file tx (ins_key req) (ins_val req) = Inr tx'"
      "tx_holds file tx' (m(ins_key req \<mapsto> ins_val req))"
    using set_holds [OF assms] by blast
  then show ?thesis
    using get_holds [OF assms(1,2)] assms(1) unfolding KVTX_update_def
    by (cases "ins_mode req"; cases "m (ins_key req)") auto
qed

lemma KVTX_update_correct_witness:
  "\<exists>req' tx'. KVTX_update [] fresh_tx
      \<lparr>ins_key = [97], ins_val = [1], ins_mode = INSERT_ONLY, ins_added = False, ins_old = []\<rparr> = Inr (True, req', tx')
    \<and> ins_added req' \<and> tx_holds [] tx' [[97] \<mapsto> [1]]"
  using KVTX_update_correct [OF fresh_tx_holds, of
      "\<lparr>ins_key = [97], ins_val = [1], ins_mode = INSERT_ONLY, ins_added = False, ins_old = []\<rparr>" "[]"]
    valid_key_a(1) fresh_tx_budget by (auto simp: BTREE_MAX_VAL_SIZE_def)

text \<open>
  \<open>del(DeleteReq)\<close> reports the removed value. It returns true with the old value in the request
  when the key was present, and false, with request and transaction unchanged, when it was not.
\<close>

theorem KVTX_del_req_correct:
  assumes "tx_holds file tx m" and "valid_key (del_key req)" and "short_successor (del_key req) m"
    and "tx_cost file tx \<le> tx_budget tx"
  shows "\<exists>tx'. KVTX_del_req file tx req = Inr (m (del_key req) \<noteq> None,
      (case m (del_key req) of Some v \<Rightarrow> req\<lparr>del_old := v\<rparr> | None \<Rightarrow> req), tx')
    \<and> tx_holds file tx' (m(del_key req := None)) \<and> (m (del_key req) = None \<longrightarrow> tx' = tx)"
proof (cases "m (del_key req)")
  case None
  then have "m(del_key req := None) = m"
    by auto
  with None show ?thesis
    using assms(1) get_holds [OF assms(1,2)] by (simp add: KVTX_del_req_def)
next
  case (Some v)
  have "roomy (tx_live file tx) (tree_root tx) (del_key req)"
    using assms(1,3) by (auto simp: tx_holds_def intro: short_successor_roomy)
  then obtain tx' where "KVTX_del file tx (del_key req) = Inr (True, tx')" "tx_holds file tx' (m(del_key req := None))"
    using del_holds [OF assms(1,2)] assms(4) Some by auto
  with Some show ?thesis
    using get_holds [OF assms(1,2)] by (simp add: KVTX_del_req_def)
qed

lemma KVTX_del_req_correct_witness:
  "\<exists>tx tx'. KVTX_set [] fresh_tx [97] [1] = Inr tx
    \<and> KVTX_del_req [] tx \<lparr>del_key = [97], del_old = []\<rparr> = Inr (True, \<lparr>del_key = [97], del_old = [1]\<rparr>, tx')"
proof -
  obtain tx where "KVTX_set [] fresh_tx [97] [1] = Inr tx" "tx_holds [] tx [[97] \<mapsto> [1]]"
      "tx_cost [] tx \<le> tx_budget tx"
    using fresh_tx_set by blast
  then show ?thesis
    using KVTX_del_req_correct [of "[]" tx "[[97] \<mapsto> [1]]" "\<lparr>del_key = [97], del_old = []\<rparr>"] valid_key_a by auto
qed

end
