(* ===== verification/Reader_Heap.thy ===== *)
theory Reader_Heap
  imports KVReader
begin

text \<open>
  The min-heap of open readers, \<open>storage/reader_heap\<close>. The heap holds pointers, and moving a reader
  writes its slot back into the reader, so the readers live in an explicit store indexed by their
  identity. The contract is a priority queue whose elements know their slot: \<open>min\<close> is an oldest
  reader, and \<open>push\<close> and \<open>remove\<close> change the set of open readers by exactly one.
\<close>

type_synonym reader_id = nat

record ReaderHeap =
  hitems :: "reader_id list"
  hstore :: "reader_id \<Rightarrow> KVReader"

definition heap_less :: "ReaderHeap \<Rightarrow> nat \<Rightarrow> nat \<Rightarrow> bool" where
  "heap_less h i j \<longleftrightarrow> rd_version (hstore h (hitems h ! i)) < rd_version (hstore h (hitems h ! j))"

definition set_heap_index :: "ReaderHeap \<Rightarrow> reader_id \<Rightarrow> int \<Rightarrow> ReaderHeap" where
  "set_heap_index h r n = h\<lparr>hstore := (hstore h)(r := (hstore h r)\<lparr>heap_index := n\<rparr>)\<rparr>"

definition heap_swap :: "ReaderHeap \<Rightarrow> nat \<Rightarrow> nat \<Rightarrow> ReaderHeap" where
  "heap_swap h i j =
     (let h = h\<lparr>hitems := (hitems h)[i := hitems h ! j, j := hitems h ! i]\<rparr>;
          h = set_heap_index h (hitems h ! i) (int i)
      in set_heap_index h (hitems h ! j) (int j))"

function heap_up :: "ReaderHeap \<Rightarrow> nat \<Rightarrow> ReaderHeap" where
  "heap_up h j =
     (if j > 0 then
        let parent = (j - 1) div 2 in
        if \<not> heap_less h j parent then h else heap_up (heap_swap h parent j) parent
      else h)"
  by pat_completeness auto
termination
  by (relation "measure snd") auto

lemma length_heap_swap [simp]: "length (hitems (heap_swap h i j)) = length (hitems h)"
  by (simp add: heap_swap_def set_heap_index_def Let_def)

text \<open>The sift-down loop answers the position reached.\<close>

function heap_down_loop :: "ReaderHeap \<Rightarrow> nat \<Rightarrow> nat \<times> ReaderHeap" where
  "heap_down_loop h i =
     (if 2 * i + 1 < length (hitems h) then
        let kid = 2 * i + 1;
            kid = (if kid + 1 < length (hitems h) \<and> heap_less h (kid + 1) kid then kid + 1 else kid) in
        if \<not> heap_less h kid i then (i, h) else heap_down_loop (heap_swap h i kid) kid
      else (i, h))"
  by pat_completeness auto
termination
  by (relation "measure (\<lambda>(h, i). length (hitems h) - i)") (auto simp: Let_def)

declare heap_up.simps [simp del] heap_down_loop.simps [simp del]

definition heap_down :: "ReaderHeap \<Rightarrow> nat \<Rightarrow> bool \<times> ReaderHeap" where
  "heap_down h i0 = (let (i, h) = heap_down_loop h i0 in (i > i0, h))"

definition heap_push :: "ReaderHeap \<Rightarrow> reader_id \<Rightarrow> ReaderHeap" where
  "heap_push h reader =
     (let h = set_heap_index h reader (int (length (hitems h)));
          h = h\<lparr>hitems := hitems h @ [reader]\<rparr>
      in heap_up h (length (hitems h) - 1))"

definition heap_remove :: "ReaderHeap \<Rightarrow> int \<Rightarrow> (reader_id \<times> ReaderHeap) res" where
  "heap_remove h index =
     rbind (check (index \<ge> 0 \<and> nat index < length (hitems h))
       (Assertion_failed ''index >= 0 && static_cast<size_t>(index) < items_.size()'')) (\<lambda>_.
     let i = nat index;
         h = heap_swap h i (length (hitems h) - 1);
         reader = last (hitems h);
         h = h\<lparr>hitems := butlast (hitems h)\<rparr>;
         h = (if i < length (hitems h) then
                let (moved, h') = heap_down h i in if moved then h' else heap_up h' i
              else h)
     in Inr (reader, set_heap_index h reader (-1)))"

definition heap_min :: "ReaderHeap \<Rightarrow> reader_id option" where
  "heap_min h = (if hitems h = [] then None else Some (hd (hitems h)))"

section \<open>The heap order, and what a misplaced reader leaves of it\<close>

definition parent :: "nat \<Rightarrow> nat" where
  "parent i = (i - 1) div 2"

definition edge_ok :: "(nat \<Rightarrow> u64) \<Rightarrow> nat list \<Rightarrow> nat \<Rightarrow> bool" where
  "edge_ok ver xs i \<longleftrightarrow> ver (xs ! parent i) \<le> ver (xs ! i)"

definition heap_ordered :: "(nat \<Rightarrow> u64) \<Rightarrow> nat list \<Rightarrow> bool" where
  "heap_ordered ver xs \<longleftrightarrow> (\<forall>i. 0 < i \<and> i < length xs \<longrightarrow> edge_ok ver xs i)"

text \<open>
  Only the edges at \<open>k\<close> may be wrong, and its children are not older than its parent: \<open>except_at\<close>;
  with the edge to the parent in order, \<open>except_below\<close>; with the edges to the children, \<open>except_above\<close>.
\<close>

definition except_at :: "(nat \<Rightarrow> u64) \<Rightarrow> nat list \<Rightarrow> nat \<Rightarrow> bool" where
  "except_at ver xs k \<longleftrightarrow> (\<forall>i. 0 < i \<and> i < length xs \<longrightarrow>
     (i \<noteq> k \<and> parent i \<noteq> k \<longrightarrow> edge_ok ver xs i)
     \<and> (parent i = k \<and> 0 < k \<longrightarrow> ver (xs ! parent k) \<le> ver (xs ! i)))"

definition except_below :: "(nat \<Rightarrow> u64) \<Rightarrow> nat list \<Rightarrow> nat \<Rightarrow> bool" where
  "except_below ver xs k \<longleftrightarrow> except_at ver xs k \<and> (0 < k \<longrightarrow> edge_ok ver xs k)"

definition except_above :: "(nat \<Rightarrow> u64) \<Rightarrow> nat list \<Rightarrow> nat \<Rightarrow> bool" where
  "except_above ver xs k \<longleftrightarrow> except_at ver xs k \<and> (\<forall>i. 0 < i \<and> i < length xs \<and> parent i = k \<longrightarrow> edge_ok ver xs i)"

definition lswap :: "nat list \<Rightarrow> nat \<Rightarrow> nat \<Rightarrow> nat list" where
  "lswap xs i j = xs[i := xs ! j, j := xs ! i]"

lemma parent_less: "0 < i \<Longrightarrow> parent i < i"
  unfolding parent_def by linarith

lemma parent_kids: "0 < i \<Longrightarrow> parent i = k \<longleftrightarrow> i = 2 * k + 1 \<or> i = 2 * k + 2"
  unfolding parent_def by linarith

lemma length_lswap [simp]: "length (lswap xs i j) = length xs"
  by (simp add: lswap_def)

lemma nth_lswap:
  "i < length xs \<Longrightarrow> j < length xs \<Longrightarrow> k < length xs \<Longrightarrow>
    lswap xs i j ! k = (if k = j then xs ! i else if k = i then xs ! j else xs ! k)"
  by (simp add: lswap_def nth_list_update)

lemma ordered_except:
  "heap_ordered ver xs \<longleftrightarrow> except_below ver xs k \<and> except_above ver xs k" if "k < length xs"
proof
  assume h: "heap_ordered ver xs"
  have "ver (xs ! parent k) \<le> ver (xs ! i)" if "0 < i" "i < length xs" "parent i = k" "0 < k" for i
  proof -
    have "ver (xs ! parent k) \<le> ver (xs ! k)" "ver (xs ! k) \<le> ver (xs ! i)"
      using h that parent_less [of i] unfolding heap_ordered_def edge_ok_def by auto
    then show ?thesis
      by simp
  qed
  then show "except_below ver xs k \<and> except_above ver xs k"
    using h \<open>k < length xs\<close> unfolding heap_ordered_def except_below_def except_above_def except_at_def by blast
next
  assume "except_below ver xs k \<and> except_above ver xs k"
  then show "heap_ordered ver xs"
    unfolding heap_ordered_def except_below_def except_above_def except_at_def by blast
qed

lemma sift_up_step:
  assumes "except_above ver xs k" and k: "0 < k" "k < length xs" and less: "\<not> edge_ok ver xs k"
  shows "except_above ver (lswap xs (parent k) k) (parent k)"
proof -
  let ?p = "parent k" and ?ys = "lswap xs (parent k) k"
  note p = parent_less [OF k(1)]
  have y: "?ys ! i = (if i = k then xs ! ?p else if i = ?p then xs ! k else xs ! i)" if "i < length xs" for i
    using that p k by (intro nth_lswap) auto
  have lt: "ver (xs ! k) < ver (xs ! ?p)"
    using less by (simp add: edge_ok_def)
  have A: "\<And>i. 0 < i \<Longrightarrow> i < length xs \<Longrightarrow> i \<noteq> k \<Longrightarrow> ver (xs ! parent i) \<le> ver (xs ! i)"
    and G: "\<And>i. 0 < i \<Longrightarrow> i < length xs \<Longrightarrow> parent i = k \<Longrightarrow> ver (xs ! ?p) \<le> ver (xs ! i)"
    using assms(1) k(1) unfolding except_above_def except_at_def edge_ok_def by fastforce+
  have kids: "ver (?ys ! parent i) \<le> ver (?ys ! i)" if i: "0 < i" "i < length xs" "i \<noteq> ?p" for i
  proof -
    have pi: "parent i < length xs"
      using i parent_less [of i] by simp
    consider "i = k" | "i \<noteq> k" "parent i = k" | "i \<noteq> k" "parent i \<noteq> k" "parent i = ?p"
      | "i \<noteq> k" "parent i \<noteq> k" "parent i \<noteq> ?p"
      by blast
    then show ?thesis
    proof cases
      case 1
      then show ?thesis
        using y [OF i(2)] y [OF pi] p lt by simp
    next
      case 2
      then show ?thesis
        using y [OF i(2)] y [OF pi] i G [OF i(1,2)] by simp
    next
      case 3
      then have "ver (xs ! ?p) \<le> ver (xs ! i)"
        using A [OF i(1,2)] by simp
      then show ?thesis
        using 3 y [OF i(2)] y [OF pi] i lt by simp
    next
      case 4
      then show ?thesis
        using A [OF i(1,2)] y [OF i(2)] y [OF pi] i by simp
    qed
  qed
  have grand: "ver (?ys ! parent ?p) \<le> ver (?ys ! i)" if i: "0 < i" "i < length xs" "parent i = ?p" "0 < ?p" for i
  proof -
    have pp: "parent ?p < ?p"
      using i(4) by (rule parent_less)
    have "ver (xs ! parent ?p) \<le> ver (xs ! ?p)"
      using A [of ?p] i(4) p k(2) by simp
    moreover have "ver (xs ! ?p) \<le> ver (xs ! i)" if "i \<noteq> k"
      using A [OF i(1,2) that] i(3) by simp
    ultimately show ?thesis
      using y [OF i(2)] y [of "parent ?p"] pp p k(2) i(1,3) parent_less [OF i(1)] by (cases "i = k") auto
  qed
  have "ver (?ys ! ?p) \<le> ver (?ys ! i)" if "0 < i" "i < length xs" "parent i = ?p" for i
    using parent_less [OF that(1)] kids [OF that(1,2)] that(3) by simp
  then show ?thesis
    using kids grand unfolding except_above_def except_at_def edge_ok_def length_lswap by (intro conjI allI impI) simp_all
qed

lemma sift_down_stop:
  assumes "except_at ver xs k"
    and "2 * k + 1 < length xs \<Longrightarrow> ver (xs ! k) \<le> ver (xs ! (2 * k + 1))"
    and "2 * k + 2 < length xs \<Longrightarrow> ver (xs ! k) \<le> ver (xs ! (2 * k + 2))"
  shows "except_above ver xs k"
proof -
  have "edge_ok ver xs i" if "0 < i" "i < length xs" "parent i = k" for i
    using parent_kids [OF that(1), of k] that(2,3) assms(2,3) unfolding edge_ok_def that(3) by blast
  then show ?thesis
    using assms(1) unfolding except_above_def by blast
qed

text \<open>Swapping with the older child repairs the edges at \<open>k\<close>.\<close>

lemma sift_down_step:
  assumes "except_at ver xs k" and k: "0 < c" "c < length xs" "parent c = k" and less: "ver (xs ! c) < ver (xs ! k)"
    and best: "\<And>i. 0 < i \<Longrightarrow> i < length xs \<Longrightarrow> parent i = k \<Longrightarrow> ver (xs ! c) \<le> ver (xs ! i)"
  shows "except_below ver (lswap xs k c) c"
proof -
  let ?ys = "lswap xs k c"
  have kc: "k < c" "k < length xs"
    using parent_less [OF k(1)] k(2,3) by simp_all
  have y: "?ys ! i = (if i = c then xs ! k else if i = k then xs ! c else xs ! i)" if "i < length xs" for i
    using that k kc by (intro nth_lswap) auto
  have A: "\<And>i. 0 < i \<Longrightarrow> i < length xs \<Longrightarrow> i \<noteq> k \<Longrightarrow> parent i \<noteq> k \<Longrightarrow> ver (xs ! parent i) \<le> ver (xs ! i)"
    and G: "\<And>i. 0 < i \<Longrightarrow> i < length xs \<Longrightarrow> parent i = k \<Longrightarrow> 0 < k \<Longrightarrow> ver (xs ! parent k) \<le> ver (xs ! i)"
    using assms(1) unfolding except_at_def edge_ok_def by fastforce+
  have edge: "ver (?ys ! parent i) \<le> ver (?ys ! i)" if i: "0 < i" "i < length xs" "parent i \<noteq> c" for i
  proof -
    have pi: "parent i < i" "parent i < length xs"
      using parent_less [OF i(1)] i(2) by simp_all
    consider "i = c" | "i \<noteq> c" "parent i = k" | "i = k" "i \<noteq> c" "parent i \<noteq> k" | "i \<noteq> c" "i \<noteq> k" "parent i \<noteq> k"
      by blast
    then show ?thesis
    proof cases
      case 1
      then show ?thesis
        using y [OF i(2)] y [OF pi(2)] k(3) kc less by simp
    next
      case 2
      then show ?thesis
        using y [OF i(2)] y [OF pi(2)] pi(1) kc best [OF i(1,2)] by simp
    next
      case 3
      then show ?thesis
        using y [OF i(2)] y [OF pi(2)] i G [OF k(1,2,3)] by simp
    next
      case 4
      then show ?thesis
        using A [OF i(1,2)] y [OF i(2)] y [OF pi(2)] i by simp
    qed
  qed
  have grand: "ver (?ys ! parent c) \<le> ver (?ys ! i)" if i: "0 < i" "i < length xs" "parent i = c" for i
  proof -
    have "c < i"
      using parent_less [OF i(1)] i(3) by simp
    then have "ver (xs ! c) \<le> ver (xs ! i)"
      using A [OF i(1,2)] i(3) kc(1) by simp
    then show ?thesis
      using y [OF i(2)] y [OF kc(2)] \<open>c < i\<close> kc(1) k(3) by simp
  qed
  have "parent c \<noteq> c"
    using parent_less [OF k(1)] by simp
  then show ?thesis
    unfolding except_below_def except_at_def edge_ok_def length_lswap
    using edge grand k(1,2) by (intro conjI allI impI) simp_all
qed

section \<open>Slots\<close>

definition hver :: "ReaderHeap \<Rightarrow> reader_id \<Rightarrow> u64" where
  "hver h r = rd_version (hstore h r)"

definition slotted :: "ReaderHeap \<Rightarrow> bool" where
  "slotted h \<longleftrightarrow> distinct (hitems h) \<and> (\<forall>i<length (hitems h). heap_index (hstore h (hitems h ! i)) = int i)"

text \<open>Between two heaps only the slots recorded in readers of \<open>R\<close> differ.\<close>

definition same_readers :: "reader_id set \<Rightarrow> ReaderHeap \<Rightarrow> ReaderHeap \<Rightarrow> bool" where
  "same_readers R h h' \<longleftrightarrow>
     (\<forall>r. \<exists>n. hstore h' r = (hstore h r)\<lparr>heap_index := n\<rparr>) \<and> (\<forall>r. r \<notin> R \<longrightarrow> hstore h' r = hstore h r)"

lemma KVReader_same [simp]: "(rd :: KVReader)\<lparr>heap_index := heap_index rd\<rparr> = rd"
  by simp

lemma same_readers_refl: "same_readers R h h"
  unfolding same_readers_def by (metis KVReader_same)

lemma same_readers_trans: "same_readers R h h' \<Longrightarrow> same_readers R h' h'' \<Longrightarrow> same_readers R h h''"
  unfolding same_readers_def by (metis KVReader.update_convs(2) KVReader.surjective)

lemma same_readers_ver: "same_readers R h h' \<Longrightarrow> hver h' = hver h"
proof
  fix r
  assume "same_readers R h h'"
  then obtain n where "hstore h' r = (hstore h r)\<lparr>heap_index := n\<rparr>"
    unfolding same_readers_def by blast
  then show "hver h' r = hver h r"
    by (simp add: hver_def)
qed

lemma set_heap_index_facts [simp]:
  "hitems (set_heap_index h r n) = hitems h" "hver (set_heap_index h r n) = hver h"
  by (simp_all add: set_heap_index_def hver_def fun_eq_iff)

lemma heap_swap_items: "hitems (heap_swap h i j) = lswap (hitems h) i j"
  by (simp add: heap_swap_def Let_def lswap_def set_heap_index_def)

lemma heap_swap_ver [simp]: "hver (heap_swap h i j) = hver h"
  by (simp add: heap_swap_def Let_def set_heap_index_def hver_def fun_eq_iff)

lemma set_lswap: "i < length xs \<Longrightarrow> j < length xs \<Longrightarrow> set (lswap xs i j) = set xs"
  by (simp add: lswap_def)

lemma distinct_lswap: "i < length xs \<Longrightarrow> j < length xs \<Longrightarrow> distinct (lswap xs i j) = distinct xs"
  by (simp add: lswap_def)

lemma heap_swap_slotted:
  assumes "slotted h" and "i < length (hitems h)" and "j < length (hitems h)"
  shows "slotted (heap_swap h i j)"
proof -
  let ?ys = "lswap (hitems h) i j"
  have dist: "distinct ?ys"
    using assms by (simp add: slotted_def distinct_lswap)
  have st: "heap_index (hstore (heap_swap h i j) r) = (if r = ?ys ! j then int j else if r = ?ys ! i then int i
      else heap_index (hstore h r))" for r
    by (simp add: heap_swap_def Let_def set_heap_index_def lswap_def)
  have "heap_index (hstore (heap_swap h i j) (?ys ! k)) = int k" if k: "k < length (hitems h)" for k
  proof -
    have "?ys ! k = ?ys ! j \<longleftrightarrow> k = j" "?ys ! k = ?ys ! i \<longleftrightarrow> k = i"
      using dist k assms(2,3) by (simp_all add: nth_eq_iff_index_eq)
    moreover have "?ys ! k = hitems h ! k" if "k \<noteq> i" "k \<noteq> j"
      using nth_lswap [OF assms(2,3) k] that by simp
    ultimately show ?thesis
      unfolding st using assms(1) k by (auto simp: slotted_def)
  qed
  then show ?thesis
    using dist unfolding slotted_def heap_swap_items by simp
qed

lemma heap_swap_same:
  assumes "i < length (hitems h)" and "j < length (hitems h)"
  shows "same_readers (set (hitems h)) h (heap_swap h i j)"
proof -
  have "lswap (hitems h) i j ! i \<in> set (hitems h)" "lswap (hitems h) i j ! j \<in> set (hitems h)"
    using assms by (simp_all add: nth_lswap)
  moreover have "hstore (heap_swap h i j) r = (if r = lswap (hitems h) i j ! j then (hstore h r)\<lparr>heap_index := int j\<rparr>
      else if r = lswap (hitems h) i j ! i then (hstore h r)\<lparr>heap_index := int i\<rparr> else hstore h r)" for r
    by (simp add: heap_swap_def Let_def set_heap_index_def lswap_def)
  ultimately show ?thesis
    unfolding same_readers_def by (metis KVReader_same)
qed

section \<open>The heap operations\<close>

definition heap_ok :: "ReaderHeap \<Rightarrow> bool" where
  "heap_ok h \<longleftrightarrow> slotted h \<and> heap_ordered (hver h) (hitems h)"

definition permuted :: "ReaderHeap \<Rightarrow> ReaderHeap \<Rightarrow> bool" where
  "permuted h h' \<longleftrightarrow> slotted h' \<and> set (hitems h') = set (hitems h) \<and> length (hitems h') = length (hitems h)
     \<and> same_readers (set (hitems h)) h h'"

lemma permuted_refl: "slotted h \<Longrightarrow> permuted h h"
  by (simp add: permuted_def same_readers_refl)

lemma permuted_swap:
  "slotted h \<Longrightarrow> i < length (hitems h) \<Longrightarrow> j < length (hitems h) \<Longrightarrow> permuted h (heap_swap h i j)"
  by (simp add: permuted_def heap_swap_slotted heap_swap_items set_lswap heap_swap_same)

lemma permuted_trans: "permuted h h' \<Longrightarrow> permuted h' h'' \<Longrightarrow> permuted h h''"
  unfolding permuted_def using same_readers_trans by metis

lemma permuted_ver: "permuted h h' \<Longrightarrow> hver h' = hver h"
  unfolding permuted_def using same_readers_ver by blast

lemma heap_less_ver: "heap_less h i j \<longleftrightarrow> hver h (hitems h ! i) < hver h (hitems h ! j)"
  by (simp add: heap_less_def hver_def)

lemma heap_up_ok:
  "slotted h \<Longrightarrow> j < length (hitems h) \<Longrightarrow> except_above (hver h) (hitems h) j \<Longrightarrow>
    permuted h (heap_up h j) \<and> heap_ordered (hver h) (hitems (heap_up h j))"
proof (induction h j rule: heap_up.induct)
  case (1 h j)
  have stop: "heap_up h j = h" if "j = 0 \<or> \<not> heap_less h j (parent j)"
    using that by (auto simp: heap_up.simps [of h j] parent_def Let_def)
  have ordered: "heap_ordered (hver h) (hitems h)" if "0 < j \<Longrightarrow> edge_ok (hver h) (hitems h) j"
    using ordered_except [OF 1(3)] 1(4) that unfolding except_below_def except_above_def by blast
  show ?case
  proof (cases "0 < j \<and> heap_less h j (parent j)")
    case True
    then have j: "0 < j" and less: "heap_less h j (parent j)"
      by simp_all
    have pj: "parent j < length (hitems h)"
      using parent_less [OF j] 1(3) by simp
    note swap = permuted_swap [OF 1(2) pj 1(3)]
    have up: "heap_up h j = heap_up (heap_swap h (parent j) j) (parent j)"
      using j less by (simp add: heap_up.simps [of h j] parent_def Let_def)
    have "\<not> edge_ok (hver h) (hitems h) j"
      using less by (simp add: edge_ok_def heap_less_ver)
    from sift_up_step [OF 1(4) j 1(3) this]
    have "except_above (hver (heap_swap h (parent j) j)) (hitems (heap_swap h (parent j) j)) (parent j)"
      by (simp add: heap_swap_items)
    then have "permuted (heap_swap h (parent j) j) (heap_up h j) \<and> heap_ordered (hver h) (hitems (heap_up h j))"
      using 1(1) [OF j, of "parent j"] less swap pj unfolding up permuted_def parent_def by simp
    then show ?thesis
      using swap permuted_trans by blast
  next
    case False
    then have "heap_up h j = h"
      by (intro stop) auto
    moreover have "heap_ordered (hver h) (hitems h)"
      using False by (intro ordered) (simp add: edge_ok_def heap_less_ver)
    ultimately show ?thesis
      using permuted_refl [OF 1(2)] by simp
  qed
qed

lemma heap_down_loop_ok:
  "slotted h \<Longrightarrow> i < length (hitems h) \<Longrightarrow> except_at (hver h) (hitems h) i \<Longrightarrow> heap_down_loop h i = (i', h') \<Longrightarrow>
    permuted h h' \<and> i \<le> i' \<and> (i' = i \<longrightarrow> h' = h \<and> except_above (hver h) (hitems h) i)
    \<and> (i < i' \<or> except_below (hver h) (hitems h) i \<longrightarrow> heap_ordered (hver h) (hitems h'))"
proof (induction h i arbitrary: i' h' rule: heap_down_loop.induct)
  case (1 h i)
  define kid where "kid = (if 2 * i + 1 + 1 < length (hitems h) \<and> heap_less h (2 * i + 1 + 1) (2 * i + 1)
    then 2 * i + 1 + 1 else 2 * i + 1)"
  have unfold: "heap_down_loop h i = (if 2 * i + 1 < length (hitems h)
      then if \<not> heap_less h kid i then (i, h) else heap_down_loop (heap_swap h i kid) kid else (i, h))"
    by (simp only: heap_down_loop.simps [of h i] Let_def kid_def)
  show ?case
  proof (cases "2 * i + 1 < length (hitems h) \<and> heap_less h kid i")
    case False
    then have res: "i' = i" "h' = h"
      using 1(5) unfolding unfold by (auto split: if_splits)
    have "except_above (hver h) (hitems h) i"
    proof (rule sift_down_stop [OF 1(4)])
      have le: "hver h (hitems h ! i) \<le> hver h (hitems h ! kid)" if "2 * i + 1 < length (hitems h)"
        using False that by (simp add: heap_less_ver)
      then show "hver h (hitems h ! i) \<le> hver h (hitems h ! (2 * i + 1))" if "2 * i + 1 < length (hitems h)"
        using that unfolding kid_def by (auto simp: heap_less_ver split: if_splits)
      show "hver h (hitems h ! i) \<le> hver h (hitems h ! (2 * i + 2))" if "2 * i + 2 < length (hitems h)"
        using le that unfolding kid_def by (auto simp: heap_less_ver not_less split: if_splits)
    qed
    then show ?thesis
      using res permuted_refl [OF 1(2)] ordered_except [OF 1(3)] by auto
  next
    case True
    have kid: "0 < kid" "kid < length (hitems h)" "parent kid = i" "i < kid"
      using True unfolding kid_def parent_def by auto
    have best: "hver h (hitems h ! kid) \<le> hver h (hitems h ! c)"
      if c: "0 < c" "c < length (hitems h)" "parent c = i" for c
      using parent_kids [OF c(1), of i] c(2,3) unfolding kid_def by (auto simp: heap_less_ver not_less split: if_splits)
    let ?g = "heap_swap h i kid"
    note swap = permuted_swap [OF 1(2,3) kid(2)]
    have "hver h (hitems h ! kid) < hver h (hitems h ! i)"
      using True unfolding heap_less_ver by blast
    note step = sift_down_step [OF 1(4) kid(1-3) this best]
    have below: "except_below (hver ?g) (hitems ?g) kid"
      unfolding heap_swap_items heap_swap_ver by (rule step)
    have loop: "heap_down_loop ?g kid = (i', h')"
      using 1(5) True unfolding unfold by simp
    have g: "slotted ?g" "kid < length (hitems ?g)" "except_at (hver ?g) (hitems ?g) kid" "\<not> \<not> heap_less h kid i"
      using swap kid(2) below True unfolding permuted_def except_below_def by simp_all
    have "2 * i + 1 < length (hitems h)"
      using True by blast
    from 1(1) [OF this refl kid_def g(4,1-3) loop]
    have IH: "permuted ?g h' \<and> kid \<le> i' \<and> heap_ordered (hver ?g) (hitems h')"
      using below by blast
    then show ?thesis
      using permuted_trans [OF swap] kid(4) by auto
  qed
qed

lemma heap_down_ok:
  assumes "slotted h" and "i < length (hitems h)" and "except_at (hver h) (hitems h) i" and "heap_down h i = (moved, h')"
  defines "g \<equiv> if moved then h' else heap_up h' i"
  shows "permuted h g \<and> heap_ordered (hver h) (hitems g)"
proof -
  obtain i' where loop: "heap_down_loop h i = (i', h')" "moved = (i' > i)"
    using assms(4) by (auto simp: heap_down_def split: prod.splits)
  note down = heap_down_loop_ok [OF assms(1-3) loop(1)]
  show ?thesis
  proof (cases "i < i'")
    case True
    then show ?thesis
      using down loop(2) by (simp add: g_def)
  next
    case False
    then have "i' = i"
      using down by simp
    with down have "h' = h \<and> except_above (hver h) (hitems h) i"
      by blast
    then show ?thesis
      using heap_up_ok [OF assms(1,2)] loop(2) False by (simp add: g_def)
  qed
qed

lemma heap_push_ok:
  assumes "heap_ok h" and "r \<notin> set (hitems h)"
  shows "heap_ok (heap_push h r) \<and> set (hitems (heap_push h r)) = insert r (set (hitems h))
    \<and> same_readers (insert r (set (hitems h))) h (heap_push h r)"
proof -
  let ?n = "length (hitems h)"
  define g where "g = (set_heap_index h r (int ?n))\<lparr>hitems := hitems h @ [r]\<rparr>"
  have items: "hitems g = hitems h @ [r]" and ver: "hver g = hver h"
    by (simp_all add: g_def hver_def set_heap_index_def fun_eq_iff)
  have push: "heap_push h r = heap_up g ?n"
    by (simp add: heap_push_def Let_def g_def)
  have "slotted g"
    using assms by (auto simp: slotted_def heap_ok_def g_def set_heap_index_def nth_append)
  moreover have "except_above (hver g) (hitems g) ?n"
  proof -
    have "edge_ok (hver h) (hitems h @ [r]) i" if "0 < i" "i < ?n" for i
      using assms(1) that parent_less [OF that(1)] by (simp add: heap_ok_def heap_ordered_def edge_ok_def nth_append)
    moreover have "parent i \<noteq> ?n" if "0 < i" "i < Suc ?n" for i
      using parent_less [OF that(1)] that by simp
    ultimately show ?thesis
      unfolding except_above_def except_at_def items ver by (auto simp: less_Suc_eq)
  qed
  ultimately have up: "permuted g (heap_push h r) \<and> heap_ordered (hver g) (hitems (heap_push h r))"
    using heap_up_ok [of g ?n] unfolding push by (simp add: items)
  have "same_readers (insert r (set (hitems h))) h g"
    unfolding same_readers_def g_def set_heap_index_def by simp (metis KVReader_same)
  then have "same_readers (insert r (set (hitems h))) h (heap_push h r)"
    using up same_readers_trans unfolding permuted_def items by fastforce
  then show ?thesis
    using up permuted_ver [of g "heap_push h r"] unfolding heap_ok_def permuted_def items by auto
qed

text \<open>Removing a slot: the last item takes its place, which may break the order there in either direction.\<close>

lemma replaced_except:
  assumes "heap_ordered ver xs" and i: "i < length xs - 1"
  shows "except_at ver (butlast (lswap xs i (length xs - 1))) i"
proof -
  let ?n = "length xs - 1" and ?ys = "butlast (lswap xs i (length xs - 1))"
  have y: "?ys ! k = (if k = i then xs ! ?n else xs ! k)" if "k < ?n" for k
    using that i nth_lswap [of i xs ?n k] by (simp add: nth_butlast)
  have edge: "ver (xs ! parent k) \<le> ver (xs ! k)" if "0 < k" "k < length xs" for k
    using assms(1) that by (simp add: heap_ordered_def edge_ok_def)
  have plain: "ver (?ys ! parent k) \<le> ver (?ys ! k)" if "0 < k" "k < ?n" "k \<noteq> i" "parent k \<noteq> i" for k
    using edge [of k] that parent_less [OF that(1)] y [of k] y [of "parent k"] by simp
  have grand: "ver (?ys ! parent i) \<le> ver (?ys ! k)" if k: "0 < k" "k < ?n" "parent k = i" "0 < i" for k
  proof -
    have "i < k" "parent i < i"
      using parent_less [OF k(1)] parent_less [OF k(4)] k(3) by simp_all
    moreover from this have "ver (xs ! parent i) \<le> ver (xs ! i)" "ver (xs ! i) \<le> ver (xs ! k)"
      using edge [of i] edge [of k] k by simp_all
    ultimately show ?thesis
      using y [of k] y [of "parent i"] k(2) by simp
  qed
  show ?thesis
    unfolding except_at_def edge_ok_def length_butlast length_lswap using plain grand by (intro conjI allI impI) simp_all
qed

lemma butlast_slotted: "slotted h \<Longrightarrow> slotted (h\<lparr>hitems := butlast (hitems h)\<rparr>)"
  by (auto simp: slotted_def nth_butlast distinct_butlast)

lemma heap_remove_ok:
  assumes "heap_ok h" and i: "i < length (hitems h)"
  obtains h' where "heap_remove h (int i) = Inr (hitems h ! i, h')" and "heap_ok h'"
    and "set (hitems h') = set (hitems h) - {hitems h ! i}" and "heap_index (hstore h' (hitems h ! i)) = -1"
    and "same_readers (set (hitems h)) h h'"
proof -
  let ?n = "length (hitems h) - 1"
  define g where "g = (heap_swap h i ?n)\<lparr>hitems := butlast (hitems (heap_swap h i ?n))\<rparr>"
  define f where "f = (if i < length (hitems g) then
    let (moved, h') = heap_down g i in if moved then h' else heap_up h' i else g)"
  let ?r = "hitems h ! i"
  have ne: "hitems h \<noteq> []" and n: "?n < length (hitems h)"
    using i by auto
  have slot: "slotted h" and dist: "distinct (hitems h)" and ord: "heap_ordered (hver h) (hitems h)"
    using assms(1) by (simp_all add: heap_ok_def slotted_def)
  have items: "hitems g = butlast (lswap (hitems h) i ?n)" and ver: "hver g = hver h"
    using fun_cong [OF heap_swap_ver [of h i ?n]] by (simp_all add: g_def heap_swap_items hver_def fun_eq_iff del: heap_swap_ver)
  have last: "last (lswap (hitems h) i ?n) = ?r"
    using ne i nth_lswap [OF i n n] by (simp add: last_conv_nth lswap_def)
  have run: "heap_remove h (int i) = Inr (?r, set_heap_index f ?r (-1))"
    using i last unfolding f_def g_def heap_remove_def Let_def nat_int heap_swap_items [symmetric] by simp
  have g: "slotted g"
    unfolding g_def by (rule butlast_slotted) (rule heap_swap_slotted [OF slot i n])
  have "lswap (hitems h) i ?n = hitems g @ [?r]"
    using ne last items by (metis append_butlast_last_id length_greater_0_conv length_lswap)
  then have set: "set (hitems h) = insert ?r (set (hitems g))" and new: "?r \<notin> set (hitems g)"
    using set_lswap [OF i n] distinct_lswap [OF i n] dist by auto
  have f: "permuted g f \<and> heap_ordered (hver g) (hitems f)"
  proof (cases "i < length (hitems g)")
    case True
    have "except_at (hver g) (hitems g) i"
      using replaced_except [OF ord, of i] True unfolding items ver by simp
    then show ?thesis
      using heap_down_ok [OF g True] True unfolding f_def by (cases "heap_down g i") auto
  next
    case False
    then have "i = ?n"
      using i by (simp add: items)
    then have "hitems g = butlast (hitems h)"
      by (simp add: items lswap_def)
    moreover have "heap_ordered (hver h) (butlast (hitems h))"
      unfolding heap_ordered_def edge_ok_def
    proof (intro allI impI)
      fix k
      assume k: "0 < k \<and> k < length (butlast (hitems h))"
      then have "0 < k" "k < length (hitems h)"
        unfolding length_butlast by linarith+
      then have "hver h (hitems h ! parent k) \<le> hver h (hitems h ! k)"
        using ord by (simp add: heap_ordered_def edge_ok_def)
      then show "hver h (butlast (hitems h) ! parent k) \<le> hver h (butlast (hitems h) ! k)"
        using k parent_less [of k] by (simp add: nth_butlast)
    qed
    ultimately show ?thesis
      using False permuted_refl [OF g] ver by (simp add: f_def)
  qed
  let ?h = "set_heap_index f ?r (-1)"
  have fset: "set (hitems f) = set (hitems g)" and fslot: "slotted f"
    using f by (simp_all add: permuted_def)
  have "hitems f ! k \<noteq> ?r" if "k < length (hitems f)" for k
    using nth_mem [OF that] new fset by metis
  then have "slotted ?h"
    using fslot by (auto simp: slotted_def set_heap_index_def)
  then have ok: "heap_ok ?h"
    using f permuted_ver [of g f] by (simp add: heap_ok_def)
  have "same_readers (set (hitems h)) h g"
    using heap_swap_same [OF i n] by (simp add: g_def same_readers_def)
  moreover have "same_readers (set (hitems h)) g f"
    using f unfolding permuted_def same_readers_def set by blast
  moreover have "same_readers (set (hitems h)) f ?h"
    unfolding same_readers_def set set_heap_index_def by simp (metis KVReader_same)
  ultimately have same: "same_readers (set (hitems h)) h ?h"
    using same_readers_trans by blast
  show thesis
    by (rule that [OF run ok _ _ same]) (use set new fset in \<open>auto simp: set_heap_index_def\<close>)
qed

lemma heap_min_le:
  assumes "heap_ordered ver xs" and "i < length xs"
  shows "ver (xs ! 0) \<le> ver (xs ! i)"
  using assms(2)
proof (induction i rule: less_induct)
  case (less i)
  show ?case
  proof (cases "i = 0")
    case False
    then have "ver (xs ! 0) \<le> ver (xs ! parent i)"
      using less parent_less [of i] by simp
    also have "\<dots> \<le> ver (xs ! i)"
      using assms(1) False less(2) by (simp add: heap_ordered_def edge_ok_def)
    finally show ?thesis .
  qed simp
qed

lemma heap_min_ok:
  assumes "heap_ok h"
  shows "case heap_min h of None \<Rightarrow> hitems h = []
    | Some r \<Rightarrow> r \<in> set (hitems h) \<and> (\<forall>q\<in>set (hitems h). hver h r \<le> hver h q)"
proof (cases "hitems h = []")
  case False
  have "hver h (hd (hitems h)) \<le> hver h q" if "q \<in> set (hitems h)" for q
    using that heap_min_le [of "hver h" "hitems h"] assms False
    unfolding heap_ok_def in_set_conv_nth by (auto simp: hd_conv_nth)
  then show ?thesis
    using False by (simp add: heap_min_def)
qed (simp add: heap_min_def)

section \<open>The contract\<close>

definition empty_heap :: ReaderHeap where
  "empty_heap = \<lparr>hitems = [], hstore = (\<lambda>r. \<lparr>rd_version = of_nat (10 - r), heap_index = -1, tree_root = 0, chunks = []\<rparr>)\<rparr>"

lemma empty_heap_ok: "heap_ok empty_heap" "hitems empty_heap = []"
  by (simp_all add: empty_heap_def heap_ok_def slotted_def heap_ordered_def)

text \<open>
  C35: opening a reader adds exactly that reader. The heap stays in order, every open reader records
  its own slot, no reader changes otherwise, and readers outside the heap do not change at all.
\<close>

theorem heap_push_correct:
  assumes "heap_ok h" and "r \<notin> set (hitems h)"
  shows "heap_ok (heap_push h r) \<and> set (hitems (heap_push h r)) = insert r (set (hitems h))
    \<and> same_readers (insert r (set (hitems h))) h (heap_push h r)"
  using assms by (rule heap_push_ok)

lemma heap_push_correct_witness:
  "heap_ok (heap_push (heap_push empty_heap 3) 7) \<and> set (hitems (heap_push (heap_push empty_heap 3) 7)) = {3, 7}"
proof -
  have one: "heap_ok (heap_push empty_heap 3)" "set (hitems (heap_push empty_heap 3)) = {3}"
    using heap_push_correct [OF empty_heap_ok(1), of 3] by (simp_all add: empty_heap_ok)
  show ?thesis
    using heap_push_correct [OF one(1), of 7] one(2) by auto
qed

text \<open>
  C36: ending a reader removes exactly that reader from any slot. Its recorded slot becomes -1, the
  rest of the heap is in order with every slot recorded, and the versions of readers do not change.
\<close>

theorem heap_remove_correct:
  assumes "heap_ok h" and "r \<in> set (hitems h)"
  shows "\<exists>h'. heap_remove h (heap_index (hstore h r)) = Inr (r, h') \<and> heap_ok h'
    \<and> set (hitems h') = set (hitems h) - {r} \<and> heap_index (hstore h' r) = -1
    \<and> same_readers (set (hitems h)) h h'"
proof -
  obtain i where i: "i < length (hitems h)" "hitems h ! i = r"
    using assms(2) by (auto simp: in_set_conv_nth)
  then have "heap_index (hstore h r) = int i"
    using assms(1) by (auto simp: heap_ok_def slotted_def)
  then show ?thesis
    using heap_remove_ok [OF assms(1) i(1)] i(2) by metis
qed

lemma heap_remove_correct_witness:
  "\<exists>h'. heap_remove (heap_push (heap_push empty_heap 3) 7) (heap_index (hstore (heap_push (heap_push empty_heap 3) 7) 3))
    = Inr (3, h') \<and> set (hitems h') = {7}"
proof -
  have one: "heap_ok (heap_push empty_heap 3)" "set (hitems (heap_push empty_heap 3)) = {3}"
    using heap_push_ok [OF empty_heap_ok(1), of 3] by (simp_all add: empty_heap_ok)
  have two: "heap_ok (heap_push (heap_push empty_heap 3) 7)" "set (hitems (heap_push (heap_push empty_heap 3) 7)) = {7, 3}"
    using heap_push_ok [OF one(1), of 7] one(2) by simp_all
  show ?thesis
    using heap_remove_correct [OF two(1), of 3] two(2) by auto
qed

text \<open>\<open>min\<close> answers an open reader no other open reader is older than, and nothing exactly when none is open.\<close>

theorem heap_min_correct:
  assumes "heap_ok h"
  shows "case heap_min h of None \<Rightarrow> hitems h = []
    | Some r \<Rightarrow> r \<in> set (hitems h) \<and> (\<forall>q\<in>set (hitems h). hver h r \<le> hver h q)"
  using assms by (rule heap_min_ok)

lemma heap_min_correct_witness:
  "heap_min (heap_push (heap_push empty_heap 3) 7) = Some 7"
proof -
  have one: "heap_ok (heap_push empty_heap 3)" "set (hitems (heap_push empty_heap 3)) = {3}"
    and s1: "same_readers {3} empty_heap (heap_push empty_heap 3)"
    using heap_push_ok [OF empty_heap_ok(1), of 3] by (simp_all add: empty_heap_ok)
  have two: "heap_ok (heap_push (heap_push empty_heap 3) 7)" "set (hitems (heap_push (heap_push empty_heap 3) 7)) = {7, 3}"
    and s2: "same_readers {7, 3} (heap_push empty_heap 3) (heap_push (heap_push empty_heap 3) 7)"
    using heap_push_ok [OF one(1), of 7] one(2) by simp_all
  have ver: "hver (heap_push (heap_push empty_heap 3) 7) = hver empty_heap"
    using same_readers_ver [OF s1] same_readers_ver [OF s2] by simp
  have "\<not> hver empty_heap 3 \<le> hver empty_heap 7"
    by (simp add: hver_def empty_heap_def)
  then show ?thesis
    using heap_min_correct [OF two(1)] two(2) unfolding ver by (auto split: option.splits)
qed

end
