(* ===== verification/KV.thy ===== *)
theory KV
  imports Os_File KVTX_Spec Reader_Heap
begin

text \<open>
  The store of \<open>storage/kv\<close>: opening and closing the file, the meta page, readers, the write
  transaction's life cycle, and the two-phase commit. A computation that may throw runs on the state
  and returns the state it leaves behind, since what is rolled back and what is kept is the point.
  The mutex \<open>writer_\<close> is the flag \<open>st_writer\<close>; a section under \<open>mu_\<close> is one step.
\<close>

section \<open>The meta page\<close>

definition DB_SIG :: bytes where "DB_SIG = str ''DB''"
definition META_SIG_SIZE :: nat where "META_SIG_SIZE = 16"
definition MIN_MMAP_SIZE :: u64 where "MIN_MMAP_SIZE = push_bit 20 64"
definition MAX_IOVS :: nat where "MAX_IOVS = 64"

datatype MetaField =
    META_ROOT | META_FLUSHED | META_HEAD_PAGE | META_HEAD_SEQ | META_TAIL_PAGE | META_TAIL_SEQ | META_VERSION
  | META_FIELD_COUNT

fun field_index :: "MetaField \<Rightarrow> nat" where
  "field_index META_ROOT = 0"
| "field_index META_FLUSHED = 1"
| "field_index META_HEAD_PAGE = 2"
| "field_index META_HEAD_SEQ = 3"
| "field_index META_TAIL_PAGE = 4"
| "field_index META_TAIL_SEQ = 5"
| "field_index META_VERSION = 6"
| "field_index META_FIELD_COUNT = 7"

definition META_DATA_SIZE :: nat where
  "META_DATA_SIZE = META_SIG_SIZE + field_index META_FIELD_COUNT * 8"

definition meta_offset :: "MetaField \<Rightarrow> nat" where
  "meta_offset field = META_SIG_SIZE + field_index field * 8"

record Meta =
  m_root :: u64
  m_flushed :: u64
  m_free :: FreeListState
  m_version :: u64

definition parse_meta :: "bytes \<Rightarrow> Meta res" where
  "parse_meta data =
     rbind (read_u64 data (meta_offset META_ROOT)) (\<lambda>root.
     rbind (read_u64 data (meta_offset META_FLUSHED)) (\<lambda>flushed.
     rbind (read_u64 data (meta_offset META_HEAD_PAGE)) (\<lambda>hp.
     rbind (read_u64 data (meta_offset META_HEAD_SEQ)) (\<lambda>hs.
     rbind (read_u64 data (meta_offset META_TAIL_PAGE)) (\<lambda>tp.
     rbind (read_u64 data (meta_offset META_TAIL_SEQ)) (\<lambda>ts.
     rbind (read_u64 data (meta_offset META_VERSION)) (\<lambda>version.
     Inr \<lparr>m_root = root, m_flushed = flushed,
          m_free = \<lparr>head_page = hp, head_seq = hs, tail_page = tp, tail_seq = ts\<rparr>, m_version = version\<rparr>)))))))"

section \<open>The state\<close>

record KV =
  st_file :: OsFile
  st_open :: bool
  st_writer :: bool
  st_root :: u64
  st_version :: u64
  st_chunks :: "MmapChunk list"
  st_readers :: ReaderHeap
  st_flushed :: u64
  st_free :: FreeListState
  st_durable :: u64
  st_mmap :: u64

text \<open>\<open>KV_new f\<close>: a store before \<open>open\<close>, over the file \<open>f\<close> its path names.\<close>

definition KV_new :: "OsFile \<Rightarrow> KV" where
  "KV_new f = \<lparr>st_file = f, st_open = False, st_writer = False, st_root = 0, st_version = 0, st_chunks = [],
     st_readers = \<lparr>hitems = [], hstore = (\<lambda>_. \<lparr>rd_version = 0, heap_index = -1, tree_root = 0, chunks = []\<rparr>)\<rparr>,
     st_flushed = 0, st_free = \<lparr>head_page = 0, head_seq = 0, tail_page = 0, tail_seq = 0\<rparr>,
     st_durable = 0, st_mmap = 0\<rparr>"

type_synonym 'a io = "KV \<Rightarrow> 'a res \<times> KV"

definition iobind :: "'a io \<Rightarrow> ('a \<Rightarrow> 'b io) \<Rightarrow> 'b io" where
  "iobind m f kv = (case m kv of (Inl e, kv) \<Rightarrow> (Inl e, kv) | (Inr x, kv) \<Rightarrow> f x kv)"

definition sys :: "(OsFile \<Rightarrow> bool \<times> OsFile) \<Rightarrow> string \<Rightarrow> unit io" where
  "sys call msg kv =
     (case call (st_file kv) of (ok, f) \<Rightarrow> (if ok then Inr () else Inl (Runtime_error msg), kv\<lparr>st_file := f\<rparr>))"

definition lift_res :: "'a res \<Rightarrow> 'a io" where
  "lift_res r kv = (r, kv)"

definition save_meta :: "KV \<Rightarrow> bytes res" where
  "save_meta kv =
     (let data = DB_SIG @ replicate (META_DATA_SIZE - length DB_SIG) 0 in
     rbind (write_u64 data (meta_offset META_ROOT) (st_root kv)) (\<lambda>data.
     rbind (write_u64 data (meta_offset META_FLUSHED) (st_flushed kv)) (\<lambda>data.
     rbind (write_u64 data (meta_offset META_HEAD_PAGE) (head_page (st_free kv))) (\<lambda>data.
     rbind (write_u64 data (meta_offset META_HEAD_SEQ) (head_seq (st_free kv))) (\<lambda>data.
     rbind (write_u64 data (meta_offset META_TAIL_PAGE) (tail_page (st_free kv))) (\<lambda>data.
     rbind (write_u64 data (meta_offset META_TAIL_SEQ) (tail_seq (st_free kv))) (\<lambda>data.
     write_u64 data (meta_offset META_VERSION) (st_version kv))))))))"

section \<open>Opening and closing\<close>

text \<open>The doubling loop of \<open>extend_mmap\<close>; \<open>None\<close> if it does not end.\<close>

partial_function (option) grow_alloc :: "u64 \<Rightarrow> u64 \<Rightarrow> u64 \<Rightarrow> u64 option" where
  "grow_alloc covered alloc n =
     (if covered + alloc < n then grow_alloc covered (alloc * 2) n else Some alloc)"

definition extend_mmap :: "u64 \<Rightarrow> unit io" where
  "extend_mmap n kv =
     (if n \<le> st_mmap kv then (Inr (), kv) else
      case grow_alloc (st_mmap kv) (max (st_mmap kv) MIN_MMAP_SIZE) n of
        None \<Rightarrow> (Inl Diverges, kv)
      | Some alloc \<Rightarrow>
          iobind (sys os_call ''KV: mmap failed'') (\<lambda>_ kv.
            (Inr (), kv\<lparr>st_chunks := st_chunks kv @ [\<lparr>chunk_data = unat (st_mmap kv), chunk_size = unat alloc\<rparr>],
                        st_mmap := st_mmap kv + alloc\<rparr>)) kv)"

definition create_file_sync :: "unit io" where
  "create_file_sync =
     iobind (sys os_call ''KV: open directory failed'') (\<lambda>_.
     iobind (sys os_call ''KV: open file failed'') (\<lambda>_.
     sys os_call ''KV: fsync directory failed''))"

definition meta_valid :: "Meta \<Rightarrow> bool" where
  "meta_valid meta \<longleftrightarrow> m_version meta \<noteq> 0 \<and> m_flushed meta \<ge> 2 \<and> m_root meta < m_flushed meta
     \<and> head_page (m_free meta) \<noteq> 0 \<and> head_page (m_free meta) < m_flushed meta
     \<and> tail_page (m_free meta) \<noteq> 0 \<and> tail_page (m_free meta) < m_flushed meta
     \<and> head_seq (m_free meta) \<le> tail_seq (m_free meta)"

text \<open>\<open>read_root\<close> in three steps: \<open>fstat\<close>, what the size says, and what the meta page says.\<close>

definition root_from_meta :: "bytes \<Rightarrow> unit io" where
  "root_from_meta data =
     (if take (length DB_SIG) data \<noteq> DB_SIG then
        lift_res (Inl (Runtime_error ''KV: not a valid db file (bad signature)''))
      else
        iobind (lift_res (parse_meta data)) (\<lambda>meta kv.
          if \<not> meta_valid meta then (Inl (Runtime_error ''KV: corrupt meta page''), kv)
          else
            extend_mmap (m_flushed meta * word_of_nat BTREE_PAGE_SIZE)
              (kv\<lparr>st_root := m_root meta, st_version := m_version meta, st_durable := m_version meta,
                 st_flushed := m_flushed meta, st_free := m_free meta\<rparr>)))"

definition root_from_file :: "unit io" where
  "root_from_file kv =
     (let n = length (content (st_file kv)) in
      if n = 0 then
        (Inr (), kv\<lparr>st_root := 0, st_version := 0, st_durable := 0, st_flushed := 2,
           st_free := \<lparr>head_page = 1, head_seq = 0, tail_page = 1, tail_seq = 0\<rparr>\<rparr>)
      else if n < META_DATA_SIZE then
        (Inl (Runtime_error ''KV: file too small to contain a meta page''), kv)
      else
        iobind (sys os_call ''KV: read meta page failed'')
          (\<lambda>_ kv. root_from_meta (take META_DATA_SIZE (content (st_file kv))) kv) kv)"

definition read_root :: "unit io" where
  "read_root = iobind (sys os_call ''KV: fstat failed'') (\<lambda>_. root_from_file)"

definition KV_open :: "unit io" where
  "KV_open = iobind create_file_sync (\<lambda>_ kv. read_root (kv\<lparr>st_open := True\<rparr>))"

definition KV_close :: "unit io" where
  "KV_close kv =
     (if \<not> st_open kv then (Inr (), kv)
      else if hitems (st_readers kv) \<noteq> [] then
        (Inl (Assertion_failed ''readers_.empty() && \"KV::close: a reader is still open\"''), kv)
      else
        (Inr (), kv\<lparr>st_file := snd (os_fsync (st_file kv)), st_open := False, st_chunks := [], st_mmap := 0\<rparr>))"

section \<open>Transactions\<close>

definition snapshot :: "KV \<Rightarrow> 'a KVReader_scheme \<Rightarrow> 'a KVReader_scheme" where
  "snapshot kv tx = tx\<lparr>rd_version := st_version kv, tree_root := st_root kv, chunks := st_chunks kv\<rparr>"

definition KV_begin_read :: "reader_id \<Rightarrow> KV \<Rightarrow> KV" where
  "KV_begin_read r kv =
     (let h = st_readers kv;
          h = h\<lparr>hstore := (hstore h)(r := snapshot kv (hstore h r))\<rparr>
      in kv\<lparr>st_readers := heap_push h r\<rparr>)"

definition KV_end_read :: "reader_id \<Rightarrow> KV \<Rightarrow> KV res" where
  "KV_end_read r kv =
     rbind (heap_remove (st_readers kv) (heap_index (hstore (st_readers kv) r)))
       (\<lambda>(_, h). Inr (kv\<lparr>st_readers := h\<rparr>))"

text \<open>\<open>begin\<close> waits while another write transaction runs: \<open>None\<close>.\<close>

definition KV_begin :: "KVTX \<Rightarrow> KV \<Rightarrow> (KVTX \<times> KV) option" where
  "KV_begin tx kv =
     (if st_writer kv then None else
      let kv = kv\<lparr>st_writer := True\<rparr>;
          tx = tx\<lparr>kv_flushed := st_flushed kv, page_updates := [], page_append_count := 0,
                  free_list := (FreeList_new (st_free kv))\<lparr>fl_version := st_version kv, fl_min_reader := st_durable kv\<rparr>\<rparr>;
          tx = snapshot kv tx;
          tx = (case heap_min (st_readers kv) of
                  None \<Rightarrow> tx
                | Some oldest \<Rightarrow>
                    let v = rd_version (hstore (st_readers kv) oldest) in
                    if version_before v (st_durable kv)
                    then tx\<lparr>free_list := (free_list tx)\<lparr>fl_min_reader := v\<rparr>\<rparr> else tx);
          tx = (if st_version kv = 0 then tx\<lparr>page_updates := omap_put 1 (replicate BTREE_PAGE_SIZE 0) (page_updates tx)\<rparr> else tx)
      in Some (tx, kv))"

definition KV_abort :: "KVTX \<Rightarrow> KV \<Rightarrow> KVTX \<times> KV" where
  "KV_abort tx kv = (tx\<lparr>page_updates := []\<rparr>, kv\<lparr>st_writer := False\<rparr>)"

section \<open>Committing\<close>

text \<open>\<open>take_run n ptr xs\<close>: the data of up to \<open>n\<close> consecutive pages from \<open>ptr\<close> on, and what is left.\<close>

fun take_run :: "nat \<Rightarrow> u64 \<Rightarrow> (u64 \<times> bytes) list \<Rightarrow> bytes list \<times> (u64 \<times> bytes) list" where
  "take_run n ptr [] = ([], [])"
| "take_run n ptr ((p, d) # xs) =
     (if p = ptr \<and> 0 < n then let (iovs, rest) = take_run (n - 1) (ptr + 1) xs in (d # iovs, rest)
      else ([], (p, d) # xs))"

lemma length_take_run: "length (snd (take_run n ptr xs)) \<le> length xs"
  by (induction n ptr xs rule: take_run.induct) (auto split: prod.splits)

lemma take_run_shorter: "0 < n \<Longrightarrow> length (snd (take_run n p ((p, d) # xs))) < Suc (length xs)"
  using length_take_run [of "n - 1" "p + 1" xs] by (simp add: less_Suc_eq_le split_beta)

function write_runs :: "(u64 \<times> bytes) list \<Rightarrow> unit io" where
  "write_runs [] kv = (Inr (), kv)"
| "write_runs ((first, d) # xs) kv =
     (let (iovs, rest) = take_run MAX_IOVS first ((first, d) # xs) in
      iobind (sys (os_write (unat (first * word_of_nat BTREE_PAGE_SIZE)) (concat iovs)) ''KV: pwritev failed'')
        (\<lambda>_ kv. write_runs rest kv) kv)"
  by pat_completeness auto
termination
proof (relation "measure (\<lambda>(xs, kv). length xs)")
  show "((rest, kv'), ((first, d) # xs, kv)) \<in> measure (\<lambda>(xs, kv). length xs)"
    if "x = take_run MAX_IOVS first ((first, d) # xs)" "(iovs, rest) = x" for first d xs kv x iovs rest u kv'
    using take_run_shorter [of MAX_IOVS first d xs] that by (simp add: MAX_IOVS_def split_beta)
qed simp

definition write_pages :: "KVTX \<Rightarrow> unit io" where
  "write_pages tx kv =
     iobind (extend_mmap ((st_flushed kv + page_append_count tx) * word_of_nat BTREE_PAGE_SIZE))
       (\<lambda>_. write_runs (page_updates tx)) kv"

definition update_root :: "unit io" where
  "update_root kv =
     iobind (lift_res (save_meta kv)) (\<lambda>data. sys (os_write_sector 0 data) ''KV: write meta page failed'') kv"

definition commit_locked :: "KVTX \<Rightarrow> unit io" where
  "commit_locked tx kv =
     (if tree_root tx = st_root kv then (Inr (), kv) else
      iobind (write_pages tx) (\<lambda>_.
      iobind (sys os_fsync ''KV: fsync failed'') (\<lambda>_ kv.
      let kv = kv\<lparr>st_flushed := st_flushed kv + page_append_count tx, st_free := fl_state (free_list tx)\<rparr>;
          kv = kv\<lparr>st_root := tree_root tx, st_version := st_version kv + 1\<rparr>
      in iobind update_root (\<lambda>_.
         iobind (sys os_fsync ''KV: fsync failed'') (\<lambda>_ kv.
         (Inr (), kv\<lparr>st_durable := st_version kv\<rparr>))) kv)) kv)"

definition KV_commit :: "KVTX \<Rightarrow> unit io" where
  "KV_commit tx kv = (case commit_locked tx kv of (r, kv) \<Rightarrow> (r, kv\<lparr>st_writer := False\<rparr>))"

end
