(* ===== verification/Checkpoint.thy ===== *)
theory Checkpoint
  imports KV
begin

text \<open>
  Versions of the database as they lie in the file. A checkpoint is a meta page together with what it
  describes: the nodes and items of its free list, and the map its tree holds. Whether a file still
  holds a checkpoint depends only on the bytes that matter to it: its tree pages, its list nodes, and
  of its tail node only the items below its tail position. The section on shields says which pages of
  an old checkpoint the current free list may not hand out.
\<close>

record ckpt =
  ck_meta :: Meta
  ck_nodes :: "u64 list"
  ck_items :: "item list"
  ck_map :: "bytes \<rightharpoonup> bytes"

text \<open>Version 0 is the empty database, whose free list node exists in memory only.\<close>

definition ck_view :: "bytes \<Rightarrow> Meta \<Rightarrow> u64 \<rightharpoonup> bytes" where
  "ck_view f C p =
     (if p = 0 \<or> m_flushed C \<le> p then None
      else if m_version C = 0 then (if p = 1 then Some (BNode BTREE_PAGE_SIZE) else None)
      else file_page f p)"

definition ck_pages :: "bytes \<Rightarrow> ckpt \<Rightarrow> u64 \<rightharpoonup> bytes" where
  "ck_pages f c p = (if p \<in> set (fl_owned (ck_nodes c) (ck_items c)) then None else ck_view f (ck_meta c) p)"

definition ck_ok :: "bytes \<Rightarrow> ckpt \<Rightarrow> bool" where
  "ck_ok f c \<longleftrightarrow> fl_rep (ck_view f (ck_meta c)) (m_free (ck_meta c)) (ck_nodes c) (ck_items c)
     \<and> btree (ck_pages f c) (m_root (ck_meta c)) (ck_map c)
     \<and> (\<forall>(p, v)\<in>set (ck_items c). v \<le> m_version (ck_meta c))
     \<and> 2 \<le> m_flushed (ck_meta c) \<and> unat (m_flushed (ck_meta c)) \<le> MAX_PAGES
     \<and> (m_version (ck_meta c) = 0 \<longrightarrow> m_flushed (ck_meta c) = 2)
     \<and> (m_version (ck_meta c) \<noteq> 0 \<longrightarrow> BTREE_PAGE_SIZE * unat (m_flushed (ck_meta c)) \<le> length f)"

section \<open>Pages as ranges of bytes\<close>

definition in_page :: "u64 \<Rightarrow> nat \<Rightarrow> bool" where
  "in_page p i \<longleftrightarrow> BTREE_PAGE_SIZE * unat p \<le> i \<and> i < BTREE_PAGE_SIZE * unat p + BTREE_PAGE_SIZE"

lemma in_page_unique: "in_page p i \<Longrightarrow> in_page q i \<Longrightarrow> p = q"
proof -
  assume h: "in_page p i" "in_page q i"
  have "i div BTREE_PAGE_SIZE = unat r" if "in_page r i" for r
    using that unfolding in_page_def by (intro div_nat_eqI) (simp_all add: mult.commute)
  then have "unat p = unat q"
    using h by metis
  then show ?thesis
    by (simp add: word_unat_eq_iff)
qed

definition page_at :: "bytes \<Rightarrow> u64 \<Rightarrow> bytes" where
  "page_at f p = map (\<lambda>j. byte_at f (BTREE_PAGE_SIZE * unat p + j)) [0..<BTREE_PAGE_SIZE]"

lemma length_page_at [simp]: "length (page_at f p) = BTREE_PAGE_SIZE"
  by (simp add: page_at_def)

lemma file_page_at:
  "file_page f p = (if BTREE_PAGE_SIZE * unat p + BTREE_PAGE_SIZE \<le> length f then Some (page_at f p) else None)"
proof -
  have "take BTREE_PAGE_SIZE (drop (BTREE_PAGE_SIZE * unat p) f) = page_at f p"
    if "BTREE_PAGE_SIZE * unat p + BTREE_PAGE_SIZE \<le> length f"
    using that by (intro nth_equalityI) (auto simp: page_at_def byte_at_def)
  then show ?thesis
    by (simp add: file_page_def load_def)
qed

lemma page_at_eqI: "(\<And>i. in_page p i \<Longrightarrow> byte_at g i = byte_at f i) \<Longrightarrow> page_at g p = page_at f p"
  by (auto simp: page_at_def in_page_def)

lemma items_below_page_at:
  assumes "\<And>i. in_page p i \<Longrightarrow> 8 \<le> i - BTREE_PAGE_SIZE * unat p \<Longrightarrow> i - BTREE_PAGE_SIZE * unat p < 8 + k * 16 \<Longrightarrow>
      byte_at g i = byte_at f i"
  shows "items_below k (page_at g p) = items_below k (page_at f p)"
proof -
  have "page_at g p ! j = page_at f p ! j" if "8 \<le> j" "j < 8 + k * 16" "j < BTREE_PAGE_SIZE" for j
    using assms [of "BTREE_PAGE_SIZE * unat p + j"] that by (simp add: page_at_def in_page_def)
  then show ?thesis
    unfolding items_below_def list_eq_iff_nth_eq by (auto simp: less_diff_conv add.commute [of _ 8])
qed

section \<open>The bytes that matter to a checkpoint\<close>

definition guarded :: "ckpt \<Rightarrow> u64 set" where
  "guarded c = {p. 0 < p \<and> p < m_flushed (ck_meta c) \<and> p \<notin> fst ` set (ck_items c)}"

definition tail_slots :: "ckpt \<Rightarrow> nat" where
  "tail_slots c = unat (tail_seq (m_free (ck_meta c))) mod FREE_LIST_CAP"

definition matters :: "ckpt \<Rightarrow> nat \<Rightarrow> bool" where
  "matters c i \<longleftrightarrow> m_version (ck_meta c) \<noteq> 0 \<and> (\<exists>p\<in>guarded c. in_page p i \<and>
     (p = last (ck_nodes c) \<longrightarrow> 8 \<le> i - BTREE_PAGE_SIZE * unat p \<and> i - BTREE_PAGE_SIZE * unat p < 8 + tail_slots c * 16))"

definition agree :: "ckpt \<Rightarrow> bytes \<Rightarrow> bytes \<Rightarrow> bool" where
  "agree c f g \<longleftrightarrow> (m_version (ck_meta c) \<noteq> 0 \<longrightarrow> BTREE_PAGE_SIZE * unat (m_flushed (ck_meta c)) \<le> length g)
     \<and> (\<forall>i. matters c i \<longrightarrow> byte_at g i = byte_at f i)"

lemma agree_refl: "ck_ok f c \<Longrightarrow> agree c f f"
  by (simp add: agree_def ck_ok_def)

lemma agree_trans: "agree c f g \<Longrightarrow> agree c g h \<Longrightarrow> agree c f h"
  by (simp add: agree_def)

lemma ck_owned:
  assumes "ck_ok f c"
  shows "ck_nodes c \<noteq> []" and "distinct (fl_owned (ck_nodes c) (ck_items c))"
    and "p \<in> set (fl_owned (ck_nodes c) (ck_items c)) \<Longrightarrow> 0 < p \<and> p < m_flushed (ck_meta c)"
    and "set (ck_nodes c) \<subseteq> guarded c"
proof -
  note own = fl_part_owned [OF fl_rep_slot(1), of "ck_view f (ck_meta c)" "m_free (ck_meta c)" "ck_nodes c" "ck_items c"]
  have rep: "fl_rep (ck_view f (ck_meta c)) (m_free (ck_meta c)) (ck_nodes c) (ck_items c)"
    using assms by (simp add: ck_ok_def)
  show "ck_nodes c \<noteq> []" "distinct (fl_owned (ck_nodes c) (ck_items c))"
    using own(1,2) [OF rep] by blast+
  show less: "0 < p \<and> p < m_flushed (ck_meta c)" if "p \<in> set (fl_owned (ck_nodes c) (ck_items c))" for p
  proof -
    have "p \<in> dom (ck_view f (ck_meta c))"
      using own(4) [OF rep] that by blast
    then show ?thesis
      by (auto simp: ck_view_def word_neq_0_conv split: if_splits)
  qed
  show "set (ck_nodes c) \<subseteq> guarded c"
    using less own(2) [OF rep] by (auto simp: guarded_def fl_owned_def)
qed

lemma flushed_page:
  assumes "ck_ok f c" and "m_version (ck_meta c) \<noteq> 0" and "p < m_flushed (ck_meta c)"
    and "BTREE_PAGE_SIZE * unat (m_flushed (ck_meta c)) \<le> length g"
  shows "file_page g p = Some (page_at g p)"
proof -
  have "unat p + 1 \<le> unat (m_flushed (ck_meta c))"
    using assms(3) by (simp add: word_less_nat_alt)
  then have "BTREE_PAGE_SIZE * (unat p + 1) \<le> BTREE_PAGE_SIZE * unat (m_flushed (ck_meta c))"
    by (rule mult_le_mono2)
  then show ?thesis
    using assms(4) by (simp add: file_page_at)
qed

text \<open>A file that agrees with one holding the checkpoint holds it too.\<close>

lemma agree_ok:
  assumes ok: "ck_ok f c" and agree: "agree c f g"
  shows "ck_ok g c"
proof (cases "m_version (ck_meta c) = 0")
  case True
  then have "ck_view g (ck_meta c) = ck_view f (ck_meta c)"
    by (simp add: fun_eq_iff ck_view_def)
  moreover from this have "ck_pages g c = ck_pages f c"
    by (simp add: fun_eq_iff ck_pages_def)
  ultimately show ?thesis
    using ok True by (simp add: ck_ok_def MAX_PAGES_def)
next
  case ver: False
  note own = ck_owned [OF ok]
  have len: "BTREE_PAGE_SIZE * unat (m_flushed (ck_meta c)) \<le> length f"
      "BTREE_PAGE_SIZE * unat (m_flushed (ck_meta c)) \<le> length g"
    using ok agree ver by (simp_all add: ck_ok_def agree_def)
  have bytes: "byte_at g i = byte_at f i" if "matters c i" for i
    using agree that by (simp add: agree_def)
  have same: "ck_view g (ck_meta c) p = ck_view f (ck_meta c) p" if p: "p \<in> guarded c" "p \<noteq> last (ck_nodes c)" for p
  proof -
    have "matters c i" if "in_page p i" for i
      using p that ver by (auto simp: matters_def)
    then have "page_at g p = page_at f p"
      using bytes by (intro page_at_eqI) blast
    then show ?thesis
      using p flushed_page [OF ok ver _ len(1), of p] flushed_page [OF ok ver _ len(2), of p]
      by (simp add: ck_view_def ver guarded_def)
  qed
  have pages: "ck_pages g c = ck_pages f c"
  proof
    fix p
    show "ck_pages g c p = ck_pages f c p"
    proof (cases "p = 0 \<or> m_flushed (ck_meta c) \<le> p \<or> p \<in> set (fl_owned (ck_nodes c) (ck_items c))")
      case False
      then have "p \<in> guarded c" "p \<noteq> last (ck_nodes c)"
        using own(1) by (auto simp: guarded_def fl_owned_def word_neq_0_conv)
      then show ?thesis
        by (simp add: ck_pages_def same)
    qed (auto simp: ck_pages_def ck_view_def)
  qed
  have last: "last (ck_nodes c) \<in> guarded c"
    using own(1,4) by (meson last_in_set subsetD)
  then have last': "last (ck_nodes c) < m_flushed (ck_meta c)" "last (ck_nodes c) \<noteq> 0"
    by (auto simp: guarded_def)
  have view_last: "ck_view h (ck_meta c) (last (ck_nodes c)) = Some (page_at h (last (ck_nodes c)))"
    if "BTREE_PAGE_SIZE * unat (m_flushed (ck_meta c)) \<le> length h" for h
    using last' flushed_page [OF ok ver last'(1) that] by (auto simp: ck_view_def ver)
  have "fl_rep (ck_view g (ck_meta c)) (m_free (ck_meta c)) (ck_nodes c) (ck_items c)"
  proof (rule fl_rep_frame_tail)
    show "fl_rep (ck_view f (ck_meta c)) (m_free (ck_meta c)) (ck_nodes c) (ck_items c)"
      using ok by (simp add: ck_ok_def)
    show "\<forall>q\<in>set (butlast (ck_nodes c)). ck_view g (ck_meta c) q = ck_view f (ck_meta c) q"
    proof
      fix q
      assume q: "q \<in> set (butlast (ck_nodes c))"
      have "distinct (butlast (ck_nodes c) @ [last (ck_nodes c)])"
        using own(1,2) by (simp add: fl_owned_def)
      then have "q \<noteq> last (ck_nodes c)"
        using q by auto
      then show "ck_view g (ck_meta c) q = ck_view f (ck_meta c) q"
        using own(4) q by (intro same) (auto dest: in_set_butlastD)
    qed
    show "keeps_items (unat (tail_seq (m_free (ck_meta c))) mod FREE_LIST_CAP) (ck_view f (ck_meta c))
        (ck_view g (ck_meta c)) (last (ck_nodes c))"
    proof -
      have "items_below (tail_slots c) (page_at g (last (ck_nodes c))) = items_below (tail_slots c) (page_at f (last (ck_nodes c)))"
        using last ver by (intro items_below_page_at bytes) (auto simp: matters_def)
      then show ?thesis
        using view_last [OF len(1)] view_last [OF len(2)] by (simp add: keeps_items_def tail_slots_def)
    qed
    show "set (fl_owned (ck_nodes c) (ck_items c)) \<subseteq> dom (ck_view g (ck_meta c))"
    proof
      fix p
      assume "p \<in> set (fl_owned (ck_nodes c) (ck_items c))"
      then have "0 < p" "p < m_flushed (ck_meta c)"
        using own(3) by blast+
      then show "p \<in> dom (ck_view g (ck_meta c))"
        using flushed_page [OF ok ver _ len(2), of p] by (auto simp: ck_view_def ver)
    qed
  qed (simp_all add: view_last [OF len(1)] view_last [OF len(2)])
  then show ?thesis
    using ok ver len(2) by (simp add: ck_ok_def pages)
qed

text \<open>Writes \<open>A\<close> that change nothing that matters.\<close>

definition harmless :: "(nat \<Rightarrow> byte \<Rightarrow> bool) \<Rightarrow> bytes \<Rightarrow> ckpt \<Rightarrow> bool" where
  "harmless A f c \<longleftrightarrow> (\<forall>i b. matters c i \<longrightarrow> A i b \<longrightarrow> b = byte_at f i)"

lemma harmless_agree: "harmless A f c \<Longrightarrow> agree c f g \<Longrightarrow> harmless A g c"
  by (simp add: harmless_def agree_def)

lemma patched_agree:
  assumes "ck_ok f c" and "harmless A f c" and "patched A f g"
  shows "agree c f g"
proof -
  have "byte_at g i = byte_at f i" if "matters c i" for i
  proof (cases "i < length g")
    case True
    then show ?thesis
      using assms(2,3) that by (auto simp: harmless_def patched_def)
  next
    case False
    then show ?thesis
      using assms(3) by (simp add: patched_def byte_at_def)
  qed
  then show ?thesis
    using assms(1,3) by (auto simp: agree_def patched_def ck_ok_def)
qed

section \<open>Shields\<close>

text \<open>
  \<open>shielded c d\<close>: the free list of the current checkpoint \<open>d\<close> keeps what the older \<open>c\<close> needs. A page
  \<open>c\<close> uses is an item only with a version that is not before \<open>c\<close>'s, and it is not the tail node,
  except that the two may share the tail, which then has grown.
\<close>

definition shielded :: "ckpt \<Rightarrow> ckpt \<Rightarrow> bool" where
  "shielded c d \<longleftrightarrow> (\<forall>(p, v)\<in>set (ck_items d). p \<in> guarded c \<longrightarrow> m_version (ck_meta c) \<le> v)
     \<and> (last (ck_nodes d) \<in> guarded c \<longrightarrow> last (ck_nodes d) = last (ck_nodes c)
          \<and> unat (tail_seq (m_free (ck_meta c))) \<le> unat (tail_seq (m_free (ck_meta d)))
          \<and> unat (tail_seq (m_free (ck_meta c))) div FREE_LIST_CAP = unat (tail_seq (m_free (ck_meta d))) div FREE_LIST_CAP)
     \<and> m_flushed (ck_meta c) \<le> m_flushed (ck_meta d) \<and> m_version (ck_meta c) \<le> m_version (ck_meta d)"

lemma shielded_refl:
  "shielded c c"
  by (auto simp: shielded_def guarded_def) (force simp: image_iff)

end
