(* ===== verification/KV_Io.thy ===== *)
theory KV_Io
  imports Checkpoint
begin

text \<open>
  The file side of the store: the meta page reads back as it was written, the mapping grows by whole
  pages and far enough, and \<open>write_pages\<close> writes exactly the buffered pages.
\<close>

section \<open>The meta page\<close>

definition meta_of :: "KV \<Rightarrow> Meta" where
  "meta_of kv = \<lparr>m_root = st_root kv, m_flushed = st_flushed kv, m_free = st_free kv, m_version = st_version kv\<rparr>"

definition meta_fields :: "Meta \<Rightarrow> u64 list" where
  "meta_fields M = [m_root M, m_flushed M, head_page (m_free M), head_seq (m_free M), tail_page (m_free M),
     tail_seq (m_free M), m_version M]"

definition meta_bytes :: "Meta \<Rightarrow> bytes" where
  "meta_bytes M = DB_SIG @ replicate 14 0 @ concat (map (\<lambda>v. le_bytes 8 (unat v)) (meta_fields M))"

lemma DB_SIG_bytes: "DB_SIG = [68, 66]"
  by (simp add: DB_SIG_def str_def of_char_def)

lemma meta_offsets:
  "meta_offset META_ROOT = 16" "meta_offset META_FLUSHED = 24" "meta_offset META_HEAD_PAGE = 32"
  "meta_offset META_HEAD_SEQ = 40" "meta_offset META_TAIL_PAGE = 48" "meta_offset META_TAIL_SEQ = 56"
  "meta_offset META_VERSION = 64" "META_DATA_SIZE = 72"
  by (simp_all add: meta_offset_def META_DATA_SIZE_def META_SIG_SIZE_def)

lemma length_meta_bytes [simp]: "length (meta_bytes M) = 72"
  by (simp add: meta_bytes_def meta_fields_def DB_SIG_bytes)

lemma field_write:
  assumes "length pre = p"
  shows "write_u64 (pre @ replicate (8 + n) 0) p v = Inr ((pre @ le_bytes 8 (unat v)) @ replicate n 0)"
  using assms by (simp add: write_u64_def store_def replicate_add)

lemma field_read:
  assumes "length pre = p"
  shows "read_u64 (pre @ le_bytes 8 (unat v) @ post) p = Inr v"
  using assms by (intro read_u64_mid)

lemma save_meta_bytes: "save_meta kv = Inr (meta_bytes (meta_of kv))"
proof -
  let ?b = "\<lambda>v. le_bytes 8 (unat v)"
  let ?sig = "DB_SIG @ replicate 14 0"
  have start: "DB_SIG @ replicate (META_DATA_SIZE - length DB_SIG) 0 = ?sig @ replicate (8 + 48) 0"
    by (simp add: DB_SIG_bytes meta_offsets replicate_add [symmetric])
  show ?thesis
    unfolding save_meta_def Let_def start
    using field_write [of ?sig 16 48 "st_root kv"]
      field_write [of "?sig @ ?b (st_root kv)" 24 40 "st_flushed kv"]
      field_write [of "(?sig @ ?b (st_root kv)) @ ?b (st_flushed kv)" 32 32 "head_page (st_free kv)"]
      field_write [of "((?sig @ ?b (st_root kv)) @ ?b (st_flushed kv)) @ ?b (head_page (st_free kv))" 40 24 "head_seq (st_free kv)"]
      field_write [of "(((?sig @ ?b (st_root kv)) @ ?b (st_flushed kv)) @ ?b (head_page (st_free kv))) @ ?b (head_seq (st_free kv))"
        48 16 "tail_page (st_free kv)"]
      field_write [of "((((?sig @ ?b (st_root kv)) @ ?b (st_flushed kv)) @ ?b (head_page (st_free kv))) @ ?b (head_seq (st_free kv)))
        @ ?b (tail_page (st_free kv))" 56 8 "tail_seq (st_free kv)"]
      field_write [of "(((((?sig @ ?b (st_root kv)) @ ?b (st_flushed kv)) @ ?b (head_page (st_free kv))) @ ?b (head_seq (st_free kv)))
        @ ?b (tail_page (st_free kv))) @ ?b (tail_seq (st_free kv))" 64 0 "st_version kv"]
    by (simp add: meta_offsets DB_SIG_bytes meta_bytes_def meta_fields_def meta_of_def)
qed

lemma parse_meta_bytes: "parse_meta (meta_bytes M) = Inr M"
proof -
  have read: "read_u64 (meta_bytes M) (16 + 8 * length xs) = Inr v" if "meta_fields M = xs @ v # ys" for xs v ys
  proof -
    let ?b = "\<lambda>v. le_bytes 8 (unat v) :: bytes"
    have "length (concat (map ?b zs)) = 8 * length zs" for zs
      by (induction zs) simp_all
    then have "length (DB_SIG @ replicate 14 0 @ concat (map ?b xs)) = 16 + 8 * length xs"
      by (simp add: DB_SIG_bytes)
    from field_read [OF this, of v "concat (map ?b ys)"] show ?thesis
      by (simp add: meta_bytes_def that)
  qed
  note R = read [unfolded meta_fields_def]
  have "read_u64 (meta_bytes M) 16 = Inr (m_root M)" "read_u64 (meta_bytes M) 24 = Inr (m_flushed M)"
      "read_u64 (meta_bytes M) 32 = Inr (head_page (m_free M))" "read_u64 (meta_bytes M) 40 = Inr (head_seq (m_free M))"
      "read_u64 (meta_bytes M) 48 = Inr (tail_page (m_free M))" "read_u64 (meta_bytes M) 56 = Inr (tail_seq (m_free M))"
      "read_u64 (meta_bytes M) 64 = Inr (m_version M)"
    using R [of "[]"] R [of "[_]"] R [of "[_, _]"] R [of "[_, _, _]"] R [of "[_, _, _, _]"] R [of "[_, _, _, _, _]"]
      R [of "[_, _, _, _, _, _]"] by simp_all
  then show ?thesis
    by (simp add: parse_meta_def meta_offsets)
qed

section \<open>Growing the mapping\<close>

definition MAP_LIMIT :: nat where
  "MAP_LIMIT = 2 ^ 63 + 2 ^ 27"

lemma unat_double: "unat (x :: u64) < 2 ^ 63 \<Longrightarrow> unat (x * 2) = 2 * unat x"
  by (simp add: unat_word_ariths(2))

lemma grow_alloc_ok:
  assumes "unat n \<le> 2 ^ 62" and "0 < unat alloc" and "BTREE_PAGE_SIZE dvd unat alloc"
    and "unat covered + unat alloc \<le> MAP_LIMIT"
  shows "\<exists>a. grow_alloc covered alloc n = Some a \<and> unat n \<le> unat covered + unat a \<and> BTREE_PAGE_SIZE dvd unat a
    \<and> unat covered + unat a \<le> MAP_LIMIT"
  using assms(2-4)
proof (induction "unat n - unat alloc" arbitrary: alloc rule: less_induct)
  case less
  have sum: "unat (covered + alloc) = unat covered + unat alloc"
    using less.prems(3) by (simp add: MAP_LIMIT_def unat_word_ariths(1))
  show ?case
  proof (cases "covered + alloc < n")
    case True
    then have lt: "unat covered + unat alloc < unat n"
      using sum by (simp add: word_less_nat_alt)
    then have double: "unat (alloc * 2) = 2 * unat alloc"
      using assms(1) by (intro unat_double) simp
    have "\<exists>a. grow_alloc covered (alloc * 2) n = Some a \<and> unat n \<le> unat covered + unat a \<and> BTREE_PAGE_SIZE dvd unat a
        \<and> unat covered + unat a \<le> MAP_LIMIT"
    proof (rule less.hyps)
      show "unat n - unat (alloc * 2) < unat n - unat alloc"
        using lt less.prems(1) unfolding double by linarith
      show "0 < unat (alloc * 2)" "BTREE_PAGE_SIZE dvd unat (alloc * 2)"
        using less.prems(1,2) by (simp_all add: double)
      show "unat covered + unat (alloc * 2) \<le> MAP_LIMIT"
        using lt assms(1) unfolding double MAP_LIMIT_def by simp
    qed
    then show ?thesis
      using True by (subst grow_alloc.simps) simp
  next
    case False
    then have "unat n \<le> unat covered + unat alloc"
      using sum by (simp add: word_less_nat_alt)
    then show ?thesis
      using False less.prems by (subst grow_alloc.simps) simp
  qed
qed

definition mapping_ok :: "KV \<Rightarrow> bool" where
  "mapping_ok kv \<longleftrightarrow> mapped (st_chunks kv) 0 \<and> mapped_total (st_chunks kv) = unat (st_mmap kv)
     \<and> unat (st_mmap kv) \<le> MAP_LIMIT"

lemma mapped_append: "mapped (cs @ ds) n \<longleftrightarrow> mapped cs n \<and> mapped ds (n + mapped_total cs)"
  by (induction cs arbitrary: n) (auto simp: mapped_total_def add.assoc)

lemma mapped_dvd: "mapped cs n \<Longrightarrow> BTREE_PAGE_SIZE dvd mapped_total cs"
  by (induction cs arbitrary: n) (auto simp: mapped_total_def)

lemma mapping_reader:
  assumes "mapping_ok kv" and "chunks rd = st_chunks kv"
  shows "reader_ok rd" and "mapped_total (chunks rd) = unat (st_mmap kv)"
  using assms unat_u64_less [of "st_mmap kv"] by (simp_all add: mapping_ok_def reader_ok_def)

text \<open>\<open>io_step r ok\<close>: a computation fails only with a \<open>Runtime_error\<close>, and only if some call does.\<close>

definition io_step :: "KV \<Rightarrow> 'a res \<Rightarrow> KV \<Rightarrow> bool" where
  "io_step kv r kv' \<longleftrightarrow> (\<forall>e. r = Inl e \<longrightarrow> (\<exists>msg. e = Runtime_error msg) \<and> faults (st_file kv) \<noteq> [])
     \<and> (faults (st_file kv) = [] \<longrightarrow> faults (st_file kv') = [])"

lemma extend_mmap_ok:
  assumes map: "mapping_ok kv" and n: "unat n \<le> 2 ^ 62" and run: "extend_mmap n kv = (r, kv')"
  shows "\<exists>f cs m. kv' = kv\<lparr>st_file := f, st_chunks := st_chunks kv @ cs, st_mmap := m\<rparr> \<and> same_disk (st_file kv) f
    \<and> mapping_ok kv' \<and> (r = Inr () \<longrightarrow> unat n \<le> unat (st_mmap kv')) \<and> io_step kv r kv' \<and> unat (st_mmap kv) \<le> unat m"
proof (cases "n \<le> st_mmap kv")
  case True
  then have kv': "kv' = kv" "r = Inr ()"
    using run by (simp_all add: extend_mmap_def)
  show ?thesis
    by (rule exI [of _ "st_file kv"], rule exI [of _ "[]"], rule exI [of _ "st_mmap kv"])
      (use True map in \<open>simp add: kv' io_step_def word_le_nat_alt\<close>)
next
  case False
  then have lt: "unat (st_mmap kv) < unat n"
    by (simp add: word_le_nat_alt)
  have min: "unat MIN_MMAP_SIZE = 2 ^ 26"
    by (simp add: MIN_MMAP_SIZE_def push_bit_eq_mult)
  have max: "unat (max (st_mmap kv) MIN_MMAP_SIZE) = max (unat (st_mmap kv)) (2 ^ 26)"
    using min by (auto simp: max_def word_le_nat_alt)
  have dvd: "BTREE_PAGE_SIZE dvd unat (st_mmap kv)"
    using map mapped_dvd by (metis mapping_ok_def)
  have "\<exists>a. grow_alloc (st_mmap kv) (max (st_mmap kv) MIN_MMAP_SIZE) n = Some a \<and> unat n \<le> unat (st_mmap kv) + unat a
      \<and> BTREE_PAGE_SIZE dvd unat a \<and> unat (st_mmap kv) + unat a \<le> MAP_LIMIT"
  proof (rule grow_alloc_ok [OF n])
    show "0 < unat (max (st_mmap kv) MIN_MMAP_SIZE)"
      unfolding max by simp
    show "BTREE_PAGE_SIZE dvd unat (max (st_mmap kv) MIN_MMAP_SIZE)"
      unfolding max using dvd by (simp add: max_def BTREE_PAGE_SIZE_def)
    show "unat (st_mmap kv) + unat (max (st_mmap kv) MIN_MMAP_SIZE) \<le> MAP_LIMIT"
      unfolding max MAP_LIMIT_def using lt n by (simp add: max_def)
  qed
  then obtain a where a: "grow_alloc (st_mmap kv) (max (st_mmap kv) MIN_MMAP_SIZE) n = Some a"
      "unat n \<le> unat (st_mmap kv) + unat a" "BTREE_PAGE_SIZE dvd unat a" "unat (st_mmap kv) + unat a \<le> MAP_LIMIT"
    by blast
  obtain ok f where call: "os_call (st_file kv) = (ok, f)"
    by fastforce
  note same = os_call_disk [OF call]
  have run': "extend_mmap n kv = (if ok then Inr () else Inl (Runtime_error ''KV: mmap failed''),
      if ok then kv\<lparr>st_file := f, st_chunks := st_chunks kv @ [\<lparr>chunk_data = unat (st_mmap kv), chunk_size = unat a\<rparr>],
                    st_mmap := st_mmap kv + a\<rparr> else kv\<lparr>st_file := f\<rparr>)"
    using False a(1) call by (simp add: extend_mmap_def iobind_def sys_def)
  have nofault: "faults (st_file kv) = [] \<Longrightarrow> ok \<and> f = st_file kv"
    using no_faults(1) call by simp
  show ?thesis
  proof (cases ok)
    case True
    have sum: "unat (st_mmap kv + a) = unat (st_mmap kv) + unat a"
      using a(4) by (simp add: MAP_LIMIT_def unat_word_ariths(1))
    have kv': "r = Inr ()" "kv' = kv\<lparr>st_file := f, st_chunks := st_chunks kv @ [\<lparr>chunk_data = unat (st_mmap kv), chunk_size = unat a\<rparr>],
        st_mmap := st_mmap kv + a\<rparr>"
      using run run' True by simp_all
    have "mapping_ok kv'"
      using map a(3,4) sum by (simp add: mapping_ok_def kv' mapped_append) (simp add: mapped_total_def)
    then show ?thesis
      using same a(2) sum nofault kv'(1)
      by (intro exI [of _ f] exI [of _ "[\<lparr>chunk_data = unat (st_mmap kv), chunk_size = unat a\<rparr>]"] exI [of _ "st_mmap kv + a"])
        (simp add: kv'(2) io_step_def)
  next
    case err: False
    then have kv': "r = Inl (Runtime_error ''KV: mmap failed'')" "kv' = kv\<lparr>st_file := f\<rparr>"
      using run run' by simp_all
    show ?thesis
      by (rule exI [of _ f], rule exI [of _ "[]"], rule exI [of _ "st_mmap kv"])
        (use map same nofault err kv'(1) in \<open>auto simp: kv'(2) io_step_def mapping_ok_def\<close>)
  qed
qed

section \<open>Writing pages\<close>

definition page_writes :: "(u64 \<times> bytes) list \<Rightarrow> nat \<Rightarrow> byte \<Rightarrow> bool" where
  "page_writes D i b \<longleftrightarrow> (\<exists>(p, d)\<in>set D. in_page p i \<and> b = d ! (i - BTREE_PAGE_SIZE * unat p))"

definition pages_ok :: "(u64 \<times> bytes) list \<Rightarrow> bool" where
  "pages_ok D \<longleftrightarrow> (\<forall>(p, d)\<in>set D. length d = BTREE_PAGE_SIZE \<and> unat p < MAX_PAGES) \<and> distinct (map fst D)"

lemma page_writes_mono: "page_writes D i b \<Longrightarrow> set D \<subseteq> set D' \<Longrightarrow> page_writes D' i b"
  unfolding page_writes_def by blast

lemma patchedD: "patched A g0 g \<Longrightarrow> byte_at g i = byte_at g0 i \<or> A i (byte_at g i)"
  unfolding patched_def by (cases "i < length g") (auto simp: byte_at_def)

lemma take_run_split:
  "take_run n ptr xs = (iovs, rest) \<Longrightarrow>
    \<exists>pre. xs = pre @ rest \<and> iovs = map snd pre \<and> (\<forall>k<length pre. fst (pre ! k) = ptr + word_of_nat k)"
proof (induction n ptr xs arbitrary: iovs rest rule: take_run.induct)
  case (2 n ptr p d xs)
  show ?case
  proof (cases "p = ptr \<and> 0 < n")
    case True
    then obtain iovs' where r: "take_run (n - 1) (ptr + 1) xs = (iovs', rest)" "iovs = d # iovs'"
      using 2(2) by (auto split: prod.splits)
    obtain pre where pre: "xs = pre @ rest" "iovs' = map snd pre" "\<forall>k<length pre. fst (pre ! k) = ptr + 1 + word_of_nat k"
      using 2(1) [OF True r(1)] by blast
    have "fst (((p, d) # pre) ! k) = ptr + word_of_nat k" if "k < length ((p, d) # pre)" for k
      using pre(3) that True by (cases k) (auto simp: add.assoc)
    then show ?thesis
      using pre(1,2) r(2) by (intro exI [of _ "(p, d) # pre"]) simp
  next
    case False
    then have "iovs = []" "rest = (p, d) # xs"
      using 2(2) by auto
    then show ?thesis
      by simp
  qed
qed simp

lemma concat_pages:
  assumes "\<forall>d\<in>set ds. length d = N" and "j < length (concat ds)" and "0 < (N :: nat)"
  shows "j div N < length ds \<and> concat ds ! j = ds ! (j div N) ! (j mod N)"
  using assms(1,2)
proof (induction ds arbitrary: j)
  case (Cons d ds)
  show ?case
  proof (cases "j < N")
    case True
    then show ?thesis
      using Cons.prems by (simp add: nth_append)
  next
    case False
    then have "(j - N) div N < length ds \<and> concat ds ! (j - N) = ds ! ((j - N) div N) ! ((j - N) mod N)"
      using Cons.prems by (intro Cons.IH) auto
    moreover have "j div N = Suc ((j - N) div N)" "j mod N = (j - N) mod N"
      using False assms(3) by (simp_all add: le_div_geq le_mod_geq)
    ultimately show ?thesis
      using False Cons.prems by (simp add: nth_append)
  qed
qed simp

lemma run_numbers:
  fixes p :: u64
  assumes "\<forall>k<length pre. fst (pre ! k) = p + word_of_nat k" and "\<forall>(q, d)\<in>set pre. unat q < MAX_PAGES"
  shows "k < length pre \<Longrightarrow> unat (fst (pre ! k)) = unat p + k"
proof (induction k)
  case (Suc k)
  have small: "unat (fst (pre ! k)) < MAX_PAGES"
    using assms(2) Suc.prems by (metis Suc_lessD case_prod_beta nth_mem)
  have "fst (pre ! Suc k) = fst (pre ! k) + 1"
    using assms(1) Suc.prems by (simp add: algebra_simps)
  moreover have "unat (fst (pre ! k) + 1) = unat (fst (pre ! k)) + 1"
    using small by (intro unat_Suc64) (simp add: MAX_PAGES_def)
  ultimately show ?case
    using Suc by simp
qed (use assms in simp)

text \<open>The bytes of a run of consecutive pages.\<close>

lemma run_bytes:
  assumes run: "\<forall>k<length pre. fst (pre ! k) = p + word_of_nat k" and ok: "pages_ok pre"
  shows "length (concat (map snd pre)) = BTREE_PAGE_SIZE * length pre"
    and "j < length (concat (map snd pre)) \<Longrightarrow> page_writes pre (BTREE_PAGE_SIZE * unat p + j) (concat (map snd pre) ! j)"
    and "(q, d) \<in> set pre \<Longrightarrow> in_page q i \<Longrightarrow> BTREE_PAGE_SIZE * unat p \<le> i
      \<and> i < BTREE_PAGE_SIZE * unat p + length (concat (map snd pre))
      \<and> concat (map snd pre) ! (i - BTREE_PAGE_SIZE * unat p) = d ! (i - BTREE_PAGE_SIZE * unat q)"
proof -
  let ?N = BTREE_PAGE_SIZE
  have num: "unat (fst (pre ! k)) = unat p + k" if "k < length pre" for k
    using run ok that by (intro run_numbers) (auto simp: pages_ok_def)
  have lens: "\<forall>d\<in>set (map snd pre). length d = ?N"
    using ok by (auto simp: pages_ok_def)
  have pos: "0 < ?N"
    by (simp add: BTREE_PAGE_SIZE_def)
  show len: "length (concat (map snd pre)) = ?N * length pre"
    using lens by (induction pre) auto
  note at = concat_pages [OF lens _ pos]
  show "page_writes pre (?N * unat p + j) (concat (map snd pre) ! j)" if j: "j < length (concat (map snd pre))"
  proof -
    let ?k = "j div ?N"
    have k: "?k < length pre"
      using at [OF j] by simp
    have eq: "?N * unat p + j = ?N * unat (fst (pre ! ?k)) + j mod ?N"
      unfolding num [OF k] by (simp add: distrib_left add.assoc)
    have "in_page (fst (pre ! ?k)) (?N * unat p + j)"
      unfolding in_page_def eq using pos by simp
    moreover have "concat (map snd pre) ! j = snd (pre ! ?k) ! (?N * unat p + j - ?N * unat (fst (pre ! ?k)))"
      using at [OF j] k unfolding eq by simp
    ultimately show ?thesis
      using nth_mem [OF k] unfolding page_writes_def by (intro bexI [of _ "pre ! ?k"]) (simp_all add: split_beta)
  qed
  show "?N * unat p \<le> i \<and> i < ?N * unat p + length (concat (map snd pre))
      \<and> concat (map snd pre) ! (i - ?N * unat p) = d ! (i - ?N * unat q)"
    if q: "(q, d) \<in> set pre" "in_page q i"
  proof -
    obtain k where k: "k < length pre" "pre ! k = (q, d)"
      using q(1) by (auto simp: in_set_conv_nth)
    have uq: "unat q = unat p + k"
      using num [OF k(1)] k(2) by simp
    define r where "r = i - ?N * unat q"
    have r: "i = ?N * unat p + (?N * k + r)" "r < ?N"
      using q(2) unfolding r_def in_page_def uq distrib_left by linarith+
    have "?N * (k + 1) \<le> ?N * length pre"
      using k(1) by (intro mult_le_mono2) simp
    then have j: "?N * k + r < length (concat (map snd pre))"
      using r(2) len by simp
    have "(?N * k + r) div ?N = k" "(?N * k + r) mod ?N = r"
      using r(2) by simp_all
    then have "concat (map snd pre) ! (?N * k + r) = d ! r"
      using at [OF j] k by simp
    moreover have "i - ?N * unat p = ?N * k + r" "i - ?N * unat q = r"
      unfolding r_def using q(2) unfolding in_page_def uq distrib_left by linarith+
    ultimately show ?thesis
      using r(1) j by simp
  qed
qed

lemma page_offset: "unat p < MAX_PAGES \<Longrightarrow> unat (p * word_of_nat BTREE_PAGE_SIZE) = BTREE_PAGE_SIZE * unat p" for p :: u64
  by (simp add: unat_word_ariths(2) BTREE_PAGE_SIZE_def MAX_PAGES_def)

lemma write_runs_ok:
  "pages_ok D \<Longrightarrow> write_runs D kv = (r, kv') \<Longrightarrow>
    \<exists>f. kv' = kv\<lparr>st_file := f\<rparr> \<and> wrote (page_writes D) (st_file kv) f \<and> io_step kv r kv'
      \<and> (r = Inr () \<longrightarrow> (\<forall>(p, d)\<in>set D. BTREE_PAGE_SIZE * unat p + BTREE_PAGE_SIZE \<le> length (content f)
           \<and> (\<forall>i. in_page p i \<longrightarrow> byte_at (content f) i = d ! (i - BTREE_PAGE_SIZE * unat p))))"
proof (induction D kv arbitrary: r kv' rule: write_runs.induct)
  case (1 kv)
  then show ?case
    by (intro exI [of _ "st_file kv"]) (auto simp: io_step_def intro: wrote.none)
next
  case (2 p d xs kv)
  let ?D = "(p, d) # xs"
  obtain iovs rest where run: "take_run MAX_IOVS p ?D = (iovs, rest)"
    by fastforce
  obtain pre where pre: "?D = pre @ rest" "iovs = map snd pre" "\<forall>k<length pre. fst (pre ! k) = p + word_of_nat k"
    using take_run_split [OF run] by blast
  have ok: "pages_ok pre" "pages_ok rest" "fst ` set pre \<inter> fst ` set rest = {}"
    using 2(2) unfolding pre(1) by (auto simp: pages_ok_def)
  have p: "unat p < MAX_PAGES"
    using 2(2) by (simp add: pages_ok_def)
  note off = page_offset [OF p]
  note bytes = run_bytes [OF pre(3) ok(1), folded pre(2)]
  obtain good f1 where call: "os_write (BTREE_PAGE_SIZE * unat p) (concat iovs) (st_file kv) = (good, f1)"
    by fastforce
  have w1: "wrote (page_writes pre) (st_file kv) f1"
    and c1: "good \<Longrightarrow> content f1 = overwrite (content (st_file kv)) (BTREE_PAGE_SIZE * unat p) (concat iovs)"
    using os_write_wrote [OF call, of "page_writes pre"] bytes(2) by blast+
  have step: "write_runs ?D kv = (if good then write_runs rest (kv\<lparr>st_file := f1\<rparr>)
      else (Inl (Runtime_error ''KV: pwritev failed''), kv\<lparr>st_file := f1\<rparr>))"
    unfolding write_runs.simps(2) [of p d xs kv] run Let_def prod.case off by (simp add: iobind_def sys_def call)
  have nofault: "faults (st_file kv) = [] \<Longrightarrow> good \<and> faults f1 = []"
    using no_faults(2) [of "st_file kv"] call by (metis faults_kept(1) prod.inject)
  have mono: "wrote (page_writes ?D) f f'" if "wrote (page_writes pre) f f' \<or> wrote (page_writes rest) f f'" for f f'
    using that unfolding pre(1) by (auto elim!: wrote_mono page_writes_mono)
  show ?case
  proof (cases good)
    case False
    then show ?thesis
      using 2(3) step w1 mono nofault by (intro exI [of _ f1]) (auto simp: io_step_def)
  next
    case True
    have rec: "write_runs rest (kv\<lparr>st_file := f1\<rparr>) = (r, kv')"
      using 2(3) step True by simp
    have "sys (os_write (unat (p * word_of_nat BTREE_PAGE_SIZE)) (concat iovs)) ''KV: pwritev failed'' kv
        = (Inr (), kv\<lparr>st_file := f1\<rparr>)"
      using True by (simp add: sys_def off call)
    from 2(1) [OF run [symmetric] refl ok(2) rec] obtain f where f: "kv' = kv\<lparr>st_file := f1\<rparr>\<lparr>st_file := f\<rparr>"
        "wrote (page_writes rest) f1 f" "io_step (kv\<lparr>st_file := f1\<rparr>) r kv'"
        "r = Inr () \<longrightarrow> (\<forall>(p, d)\<in>set rest. BTREE_PAGE_SIZE * unat p + BTREE_PAGE_SIZE \<le> length (content f)
           \<and> (\<forall>i. in_page p i \<longrightarrow> byte_at (content f) i = d ! (i - BTREE_PAGE_SIZE * unat p)))"
      by auto
    have patch: "patched (page_writes rest) (content f1) (content f)"
      by (rule wrote_patched [OF f(2)])
    have early: "BTREE_PAGE_SIZE * unat q + BTREE_PAGE_SIZE \<le> length (content f)
        \<and> (\<forall>i. in_page q i \<longrightarrow> byte_at (content f) i = e ! (i - BTREE_PAGE_SIZE * unat q))"
      if q: "(q, e) \<in> set pre" for q e
    proof (intro conjI allI impI)
      have "in_page q (BTREE_PAGE_SIZE * unat q + BTREE_PAGE_SIZE - 1)"
        by (simp add: in_page_def BTREE_PAGE_SIZE_def)
      then have "BTREE_PAGE_SIZE * unat q + BTREE_PAGE_SIZE - 1 < BTREE_PAGE_SIZE * unat p + length (concat iovs)"
        using bytes(3) [OF q] by blast
      moreover have "concat iovs \<noteq> []"
      proof -
        have "0 < length pre"
          using q by (cases pre) auto
        then have "0 < length (concat iovs)"
          unfolding bytes(1) by (simp add: BTREE_PAGE_SIZE_def)
        then show ?thesis
          using length_greater_0_conv by blast
      qed
      ultimately have "BTREE_PAGE_SIZE * unat q + BTREE_PAGE_SIZE \<le> length (content f1)"
        using c1 [OF True] by (auto simp: length_overwrite BTREE_PAGE_SIZE_def max_def)
      then show "BTREE_PAGE_SIZE * unat q + BTREE_PAGE_SIZE \<le> length (content f)"
        using patch by (simp add: patched_def)
      fix i
      assume i: "in_page q i"
      have "byte_at (content f1) i = e ! (i - BTREE_PAGE_SIZE * unat q)"
        using bytes(3) [OF q i] c1 [OF True] by (simp add: byte_at_overwrite)
      moreover have "\<not> page_writes rest i b" for b
      proof
        assume "page_writes rest i b"
        then obtain q' e' where "(q', e') \<in> set rest" "in_page q' i"
          by (auto simp: page_writes_def)
        then show False
          using in_page_unique [OF i] q ok(3) by force
      qed
      ultimately show "byte_at (content f) i = e ! (i - BTREE_PAGE_SIZE * unat q)"
        using patchedD [OF patch] by metis
    qed
    have "wrote (page_writes ?D) (st_file kv) f"
      using wrote_trans [of "page_writes ?D" f1 f "st_file kv"] mono w1 f(2) by blast
    moreover have "io_step kv r kv'"
      using f(3) nofault by (auto simp: io_step_def)
    ultimately show ?thesis
      using f(1,4) early unfolding pre(1) by (intro exI [of _ f]) auto
  qed
qed

end
