(* ===== verification/Reads.thy ===== *)
theory Reads
  imports KVTX_Spec
begin

text \<open>
  Point reads and range scans through a reader over the mapped file, and through a write transaction,
  which inherits \<open>seek\<close> and runs it over its own view of the pages.
\<close>

definition KVReader_seek :: "bytes \<Rightarrow> KVReader \<Rightarrow> bytes \<Rightarrow> CMP \<Rightarrow> BIter res" where
  "KVReader_seek file rd key cmp = BTree_seek (MappedPages file) (tree_root rd) rd key cmp"

definition KVTX_seek :: "bytes \<Rightarrow> KVTX \<Rightarrow> bytes \<Rightarrow> CMP \<Rightarrow> BIter res" where
  "KVTX_seek file tx key cmp = BTree_seek (KVTX_Pages file) (tree_root tx) tx key cmp"

section \<open>A database of one leaf\<close>

text \<open>For the witnesses: a file of a zero page and a leaf with one pair, and a reader that maps it.\<close>

definition one_leaf :: tree where
  "one_leaf = Leaf [([], []), ([97], [1])]"

definition one_reader :: KVReader where
  "one_reader = \<lparr>rd_version = 0, heap_index = -1, tree_root = 1, chunks = [\<lparr>chunk_data = 0, chunk_size = 8192\<rparr>]\<rparr>"

lemma one_reader_ok: "reader_ok one_reader"
  by (simp add: reader_ok_def one_reader_def mapped_total_def BTREE_PAGE_SIZE_def)

lemma one_leaf_map: "tree_map one_leaf = [[97] \<mapsto> [1]]"
  by (auto simp: tree_map_def one_leaf_def)

lemma one_leaf_file: "\<exists>f. represents (reader_pages f one_reader) 1 [[97] \<mapsto> [1]]"
proof -
  have "list_all ent_ok (ents one_leaf)" "node_size (ents one_leaf) \<le> BTREE_PAGE_SIZE"
    by (simp_all add: one_leaf_def kv_ent_def ent_ok_def node_size_def kv_size_def BTREE_MAX_KEY_SIZE_def
        BTREE_MAX_VAL_SIZE_def BTREE_PAGE_SIZE_def)
  then obtain d where d: "node_is d BNODE_LEAF (ents one_leaf)" "length d = BTREE_PAGE_SIZE"
    using build_page [of "ents one_leaf" BNODE_LEAF] by (auto simp: BNODE_LEAF_def)
  let ?f = "BNode BTREE_PAGE_SIZE @ d"
  have "reader_pages ?f one_reader 1 = Some d"
    using d(2) by (simp add: reader_pages_def file_page_def load_def BNode_def one_reader_def mapped_total_def
        BTREE_PAGE_SIZE_def)
  moreover have "tree_inv one_leaf"
    unfolding tree_inv_def using \<open>node_size (ents one_leaf) \<le> BTREE_PAGE_SIZE\<close>
    by (intro conjI exI [of _ 0]) (simp_all add: one_leaf_def fits_def first_key_def)
  ultimately have "tree_at (reader_pages ?f one_reader) 1 one_leaf"
    using d by (simp add: tree_at_def page_of_def node_of_def one_leaf_def)
  then show ?thesis
    unfolding represents_def one_leaf_map [symmetric] by blast
qed

section \<open>Reading\<close>

text \<open>
  C4: a snapshot reads its map. If the pages a reader maps hold a tree for \<open>m\<close> at its root, \<open>get\<close>
  terminates, stays inside the mapping, and returns what \<open>m\<close> has for the key.
\<close>

theorem KVReader_get_correct:
  assumes "reader_ok rd" and "represents (reader_pages f rd) (tree_root rd) m" and "valid_key key"
  shows "KVReader_get f rd key = Inr (m key)"
  using mapped.BTree_get_ok [OF assms] by (simp add: KVReader_get_def)

lemma KVReader_get_correct_witness:
  "\<exists>f. KVReader_get f one_reader [97] = Inr (Some [1]) \<and> KVReader_get f one_reader [98] = Inr None"
proof -
  obtain f where f: "represents (reader_pages f one_reader) 1 [[97] \<mapsto> [1]]"
    using one_leaf_file by blast
  have root: "tree_root one_reader = 1"
    by (simp add: one_reader_def)
  have "valid_key [97]" "valid_key [98]"
    by (simp_all add: valid_key_def BTREE_MAX_KEY_SIZE_def)
  then show ?thesis
    using KVReader_get_correct [OF one_reader_ok, of f "[[97] \<mapsto> [1]]"] f unfolding root by fastforce
qed

text \<open>
  C5: a range scan of a snapshot is exact. Seeking a key with a relation and stepping the iterator in
  the relation's direction while it is valid yields every pair of the map whose key satisfies the
  relation, once each, in ascending order for GE and GT and in descending order for LT and LE.
\<close>

theorem KVReader_scan_correct:
  assumes "reader_ok rd" and "represents (reader_pages f rd) (tree_root rd) m"
  shows "\<exists>it fuel r. KVReader_seek f rd key cmp = Inr it
    \<and> walk (MappedPages f) rd (cmp_val cmp > 0) fuel it = Inr r \<and> scanned m key cmp r"
  using mapped.seek_walk_ok [OF assms] unfolding KVReader_seek_def by metis

lemma KVReader_scan_correct_witness:
  "\<exists>f it fuel r. KVReader_seek f one_reader [97] CMP_LE = Inr it
    \<and> walk (MappedPages f) one_reader False fuel it = Inr r \<and> set r = {([97], [1])}"
proof -
  obtain f where f: "represents (reader_pages f one_reader) (tree_root one_reader) [[97] \<mapsto> [1]]"
    using one_leaf_file by (auto simp: one_reader_def)
  obtain it fuel r where "KVReader_seek f one_reader [97] CMP_LE = Inr it"
      "walk (MappedPages f) one_reader False fuel it = Inr r" "scanned [[97] \<mapsto> [1]] [97] CMP_LE r"
    using KVReader_scan_correct [OF one_reader_ok f, of "[97]" CMP_LE] by auto
  moreover from this(3) have "set r = {([97], [1])}"
    unfolding scanned_def by (auto split: if_splits)
  ultimately show ?thesis
    by blast
qed

text \<open>
  C24: a range scan inside a write transaction sees the transaction's own writes: from a transaction
  that holds \<open>m\<close>, seeking and stepping yields exactly the pairs of \<open>m\<close> in the range, in order.
\<close>

theorem KVTX_scan_correct:
  assumes "tx_holds f tx m"
  shows "\<exists>it fuel r. KVTX_seek f tx key cmp = Inr it
    \<and> walk (KVTX_Pages f) tx (cmp_val cmp > 0) fuel it = Inr r \<and> scanned m key cmp r"
  using assms tx_pages.seek_walk_ok [of f tx "tree_root tx" m key cmp] btree_represents
  unfolding KVTX_seek_def tx_holds_def by metis

lemma KVTX_scan_correct_witness:
  "\<exists>tx it fuel r. KVTX_set [] fresh_tx [97] [1] = Inr tx \<and> KVTX_seek [] tx [] CMP_GT = Inr it
    \<and> walk (KVTX_Pages []) tx True fuel it = Inr r \<and> set r = {([97], [1])}"
proof -
  obtain tx where tx: "KVTX_set [] fresh_tx [97] [1] = Inr tx" "tx_holds [] tx [[97] \<mapsto> [1]]"
    using fresh_tx_set by blast
  obtain it fuel r where "KVTX_seek [] tx [] CMP_GT = Inr it" "walk (KVTX_Pages []) tx True fuel it = Inr r"
      "scanned [[97] \<mapsto> [1]] [] CMP_GT r"
    using KVTX_scan_correct [OF tx(2), of "[]" CMP_GT] by auto
  moreover from this(3) have "set r = {([97], [1])}"
    unfolding scanned_def by (auto split: if_splits)
  ultimately show ?thesis
    using tx(1) by blast
qed

end
