(* ===== verification/KV_Inv.thy ===== *)
theory KV_Inv
  imports KV_Io Reads
begin

text \<open>
  The invariant of the store. The history \<open>H\<close> gives for each version number the checkpoint that
  version published. The file holds the checkpoint of every version that is still needed: those since
  the last durable meta page, and those an open reader began on; and the current free list shields
  them. Whatever a crash leaves holds all versions since the last durable one, and the meta page of one
  of them.
\<close>

definition kept :: "KV \<Rightarrow> u64 set" where
  "kept kv = {v. st_durable kv \<le> v \<and> v \<le> st_version kv}
     \<union> (\<lambda>r. rd_version (hstore (st_readers kv) r)) ` set (hitems (st_readers kv))"

definition reader_fits :: "(u64 \<Rightarrow> ckpt) \<Rightarrow> KVReader \<Rightarrow> bool" where
  "reader_fits H rd \<longleftrightarrow> reader_ok rd \<and> tree_root rd = m_root (ck_meta (H (rd_version rd)))
     \<and> (rd_version rd \<noteq> 0 \<longrightarrow>
          BTREE_PAGE_SIZE * unat (m_flushed (ck_meta (H (rd_version rd)))) \<le> mapped_total (chunks rd))"

definition meta_page :: "bytes \<Rightarrow> Meta \<Rightarrow> bool" where
  "meta_page g M \<longleftrightarrow> 72 \<le> length g \<and> take 72 g = meta_bytes M"

definition durable_ok :: "KV \<Rightarrow> (u64 \<Rightarrow> ckpt) \<Rightarrow> bool" where
  "durable_ok kv H \<longleftrightarrow> os_wf 72 (st_file kv)
     \<and> (st_durable kv \<noteq> 0 \<longrightarrow> 72 \<le> length (synced (st_file kv))
          \<and> (\<forall>g. crash_image 72 (st_file kv) g \<longrightarrow>
               (\<forall>v. st_durable kv \<le> v \<longrightarrow> v \<le> st_version kv \<longrightarrow> agree (H v) (content (st_file kv)) g)
               \<and> (\<exists>v. st_durable kv \<le> v \<and> v \<le> st_version kv \<and> meta_page g (ck_meta (H v)))))"

definition kv_inv :: "KV \<Rightarrow> (u64 \<Rightarrow> ckpt) \<Rightarrow> bool" where
  "kv_inv kv H \<longleftrightarrow> ck_meta (H (st_version kv)) = meta_of kv
     \<and> st_durable kv \<le> st_version kv \<and> unat (st_version kv) < 2 ^ 63
     \<and> (\<forall>v\<in>kept kv. v \<le> st_version kv \<and> m_version (ck_meta (H v)) = v \<and> ck_ok (content (st_file kv)) (H v)
          \<and> shielded (H v) (H (st_version kv)))
     \<and> heap_ok (st_readers kv) \<and> (\<forall>r\<in>set (hitems (st_readers kv)). reader_fits H (hstore (st_readers kv) r))
     \<and> mapping_ok kv
     \<and> (st_version kv \<noteq> 0 \<longrightarrow> BTREE_PAGE_SIZE * unat (st_flushed kv) \<le> unat (st_mmap kv))
     \<and> durable_ok kv H"

lemma kv_inv_writer [simp]: "kv_inv (kv\<lparr>st_writer := b\<rparr>) H = kv_inv kv H"
  by (cases kv) (simp only: kv_inv_def kept_def meta_of_def mapping_ok_def durable_ok_def KV.simps)

text \<open>The map a store holds is that of its latest version.\<close>

definition kv_map :: "KV \<Rightarrow> (u64 \<Rightarrow> ckpt) \<Rightarrow> bytes \<rightharpoonup> bytes" where
  "kv_map kv H = ck_map (H (st_version kv))"

lemma kv_invD:
  assumes "kv_inv kv H"
  shows "ck_meta (H (st_version kv)) = meta_of kv" and "st_durable kv \<le> st_version kv" and "unat (st_version kv) < 2 ^ 63"
    and "heap_ok (st_readers kv)" and "r \<in> set (hitems (st_readers kv)) \<Longrightarrow> reader_fits H (hstore (st_readers kv) r)"
    and "mapping_ok kv" and "st_version kv \<noteq> 0 \<Longrightarrow> BTREE_PAGE_SIZE * unat (st_flushed kv) \<le> unat (st_mmap kv)"
    and "durable_ok kv H"
  using assms unfolding kv_inv_def by blast+

lemma kept_version: "kv_inv kv H \<Longrightarrow> st_version kv \<in> kept kv"
  unfolding kv_inv_def kept_def by blast

lemma kept_durable: "st_durable kv \<le> v \<Longrightarrow> v \<le> st_version kv \<Longrightarrow> v \<in> kept kv"
  by (simp add: kept_def)

lemma kept_ok:
  assumes "kv_inv kv H" and "v \<in> kept kv"
  shows "v \<le> st_version kv" and "m_version (ck_meta (H v)) = v" and "ck_ok (content (st_file kv)) (H v)"
    and "shielded (H v) (H (st_version kv))"
  using assms unfolding kv_inv_def by blast+

lemma current_ok:
  assumes "kv_inv kv H"
  shows "ck_meta (H (st_version kv)) = meta_of kv" and "ck_ok (content (st_file kv)) (H (st_version kv))"
  by (rule kv_invD(1) [OF assms]) (rule kept_ok(3) [OF assms kept_version [OF assms]])

lemma version_before_less:
  assumes "unat v < 2 ^ 63" and "unat w < 2 ^ 63"
  shows "version_before v w \<longleftrightarrow> v < w"
proof -
  have small: "int (unat x) < 2 ^ 63" if "unat x < 2 ^ 63" for x :: u64
    using that by (metis of_nat_less_iff of_nat_numeral of_nat_power)
  have diff: "v - w = word_of_int (int (unat v) - int (unat w))"
    by (simp add: of_nat_diff)
  have "sint (v - w) = signed_take_bit 63 (int (unat v) - int (unat w))"
    unfolding diff signed_of_int by simp
  also have "\<dots> = int (unat v) - int (unat w)"
    using small [OF assms(1)] small [OF assms(2)] by (intro signed_take_bit_int_eq_self) linarith+
  finally show ?thesis
    by (simp add: version_before_def word_less_def)
qed

section \<open>Trees in more pages\<close>

lemma represents_mono:
  assumes "represents P root m" and "\<And>p d. P p = Some d \<Longrightarrow> Q p = Some d"
  shows "represents Q root m"
proof -
  have "tree_at Q root t" if t: "tree_at P root t" for t
  proof -
    have "Q p = P p" if "p \<in> set (pages t)" for p
    proof -
      have "p \<in> dom P"
        using t that stored_dom [of P t] unfolding tree_at_def by blast
      then show ?thesis
        using assms(2) by auto
    qed
    then have "stored Q t"
      using t stored_frame [of P t Q] unfolding tree_at_def by blast
    then show ?thesis
      using t assms(2) by (auto simp: tree_at_def page_of_def)
  qed
  then show ?thesis
    using assms(1) unfolding represents_def by blast
qed

lemma represents_unique: "represents P root m \<Longrightarrow> represents P root m' \<Longrightarrow> m = m'"
  using tree_at_unique unfolding represents_def tree_at_def by metis

section \<open>Readers\<close>

lemma ck_pages_view: "ck_pages f c p = Some d \<Longrightarrow> ck_view f (ck_meta c) p = Some d"
  by (simp add: ck_pages_def split: if_splits)

text \<open>Version 0 is empty.\<close>

lemma version_zero:
  assumes "ck_ok f c" and "m_version (ck_meta c) = 0"
  shows "ck_map c = Map.empty" and "m_root (ck_meta c) = 0" and "ck_pages f c = Map.empty"
proof -
  have "p = 1" if "p \<in> set (fl_owned (ck_nodes c) (ck_items c))" for p
    using ck_owned(3) [OF assms(1) that] assms by (auto simp: ck_ok_def word_less_nat_alt word_unat_eq_iff)
  then have "1 \<in> set (ck_nodes c)"
    using ck_owned(1) [OF assms(1)] unfolding fl_owned_def by (metis UnI1 last_in_set set_append)
  then show none: "ck_pages f c = Map.empty"
    using assms(2) by (auto simp: ck_pages_def ck_view_def fl_owned_def)
  show "ck_map c = Map.empty" "m_root (ck_meta c) = 0"
    using assms(1) unfolding ck_ok_def none by (auto simp: btree_def)
qed

lemma reader_represents:
  assumes ok: "ck_ok f (H (rd_version rd))" and ver: "m_version (ck_meta (H (rd_version rd))) = rd_version rd"
    and fits: "reader_fits H rd"
  shows "represents (reader_pages f rd) (tree_root rd) (ck_map (H (rd_version rd)))"
proof (cases "rd_version rd = 0")
  case True
  then show ?thesis
    using version_zero [OF ok] ver fits by (simp add: reader_fits_def represents_def)
next
  case False
  let ?c = "H (rd_version rd)"
  have "represents (ck_pages f ?c) (tree_root rd) (ck_map ?c)"
    using ok fits btree_represents by (simp add: ck_ok_def reader_fits_def)
  then show ?thesis
  proof (rule represents_mono)
    fix p d
    assume "ck_pages f ?c p = Some d"
    then have view: "p < m_flushed (ck_meta ?c)" "file_page f p = Some d"
      using False ver by (auto simp: ck_pages_def ck_view_def split: if_splits)
    have "BTREE_PAGE_SIZE * unat p < BTREE_PAGE_SIZE * unat (m_flushed (ck_meta ?c))"
      using view(1) by (simp add: word_less_nat_alt BTREE_PAGE_SIZE_def)
    also have "\<dots> \<le> mapped_total (chunks rd)"
      using fits False by (simp add: reader_fits_def)
    finally show "reader_pages f rd p = Some d"
      using view(2) by (simp add: reader_pages_def)
  qed
qed

text \<open>An open reader sees the map of the version it began on.\<close>

lemma open_reader_represents:
  assumes inv: "kv_inv kv H" and r: "r \<in> set (hitems (st_readers kv))"
  defines "rd \<equiv> hstore (st_readers kv) r"
  shows "reader_ok rd" and "represents (reader_pages (content (st_file kv)) rd) (tree_root rd) (ck_map (H (rd_version rd)))"
proof -
  have fits: "reader_fits H rd" and kept: "rd_version rd \<in> kept kv"
    using kv_invD(5) [OF inv r] r by (simp_all add: rd_def kept_def)
  show "reader_ok rd"
    using fits by (simp add: reader_fits_def)
  show "represents (reader_pages (content (st_file kv)) rd) (tree_root rd) (ck_map (H (rd_version rd)))"
    using reader_represents [OF _ _ fits] kept_ok(2,3) [OF inv kept] by blast
qed

lemma kv_invI:
  assumes "ck_meta (H (st_version kv)) = meta_of kv" and "st_durable kv \<le> st_version kv" and "unat (st_version kv) < 2 ^ 63"
    and "\<And>v. v \<in> kept kv \<Longrightarrow> v \<le> st_version kv \<and> m_version (ck_meta (H v)) = v \<and> ck_ok (content (st_file kv)) (H v)
          \<and> shielded (H v) (H (st_version kv))"
    and "heap_ok (st_readers kv)" and "\<And>r. r \<in> set (hitems (st_readers kv)) \<Longrightarrow> reader_fits H (hstore (st_readers kv) r)"
    and "mapping_ok kv" and "st_version kv \<noteq> 0 \<Longrightarrow> BTREE_PAGE_SIZE * unat (st_flushed kv) \<le> unat (st_mmap kv)"
    and "durable_ok kv H"
  shows "kv_inv kv H"
  using assms unfolding kv_inv_def by blast

lemma begin_read_inv:
  assumes inv: "kv_inv kv H" and r: "r \<notin> set (hitems (st_readers kv))"
  defines "kv' \<equiv> KV_begin_read r kv"
  shows "kv_inv kv' H" and "set (hitems (st_readers kv')) = insert r (set (hitems (st_readers kv)))"
    and "rd_version (hstore (st_readers kv') r) = st_version kv" and "st_version kv' = st_version kv"
    and "\<forall>q\<in>set (hitems (st_readers kv)). rd_version (hstore (st_readers kv') q) = rd_version (hstore (st_readers kv) q)"
proof -
  define h where "h = st_readers kv"
  define h1 where "h1 = h\<lparr>hstore := (hstore h)(r := snapshot kv (hstore h r))\<rparr>"
  define h2 where "h2 = heap_push h1 r"
  have kv': "kv' = kv\<lparr>st_readers := h2\<rparr>"
    by (simp add: kv'_def KV_begin_read_def h_def h1_def h2_def Let_def)
  have ok: "heap_ok h"
    using kv_invD(4) [OF inv] by (simp add: h_def)
  have items1: "hitems h1 = hitems h" and out: "r \<notin> set (hitems h)"
    using r by (simp_all add: h1_def h_def)
  have ver1: "hver h1 q = hver h q" if "q \<in> set (hitems h)" for q
    using that out by (auto simp: hver_def h1_def)
  have ok1: "heap_ok h1"
  proof -
    have "hstore h1 q = hstore h q" if "q \<in> set (hitems h)" for q
      using that out by (auto simp: h1_def)
    then have "slotted h1"
      using ok unfolding heap_ok_def slotted_def items1 by (metis nth_mem)
    moreover have "edge_ok (hver h1) (hitems h) i = edge_ok (hver h) (hitems h) i" if "0 < i" "i < length (hitems h)" for i
      using ver1 [OF nth_mem [of i "hitems h"]] ver1 [OF nth_mem [of "parent i" "hitems h"]] parent_less [OF that(1)] that
      by (simp add: edge_ok_def)
    ultimately show ?thesis
      using ok unfolding heap_ok_def heap_ordered_def items1 by blast
  qed
  note push = heap_push_ok [OF ok1, of r, folded h2_def, unfolded items1, OF out]
  have same: "hstore h2 q = (hstore h1 q)\<lparr>heap_index := heap_index (hstore h2 q)\<rparr>" for q
  proof -
    obtain n where "hstore h2 q = (hstore h1 q)\<lparr>heap_index := n\<rparr>"
      using push unfolding same_readers_def by blast
    then show ?thesis
      by simp
  qed
  have fields: "rd_version (hstore h2 q) = rd_version (hstore h1 q)" "tree_root (hstore h2 q) = tree_root (hstore h1 q)"
      "chunks (hstore h2 q) = chunks (hstore h1 q)" for q
    by (subst same, simp)+
  show items: "set (hitems (st_readers kv')) = insert r (set (hitems (st_readers kv)))"
    using push by (simp add: kv' h_def)
  show ver: "rd_version (hstore (st_readers kv') r) = st_version kv"
    by (simp add: kv' fields) (simp add: h1_def snapshot_def)
  show olds: "\<forall>q\<in>set (hitems (st_readers kv)). rd_version (hstore (st_readers kv') q) = rd_version (hstore (st_readers kv) q)"
    using out by (auto simp: kv' fields h1_def h_def)
  show "st_version kv' = st_version kv"
    by (simp add: kv')
  have kept: "kept kv' = kept kv"
    using kept_version [OF inv] items ver olds by (auto simp: kept_def kv')
  have fits: "reader_fits H (hstore h2 q)" if q: "q \<in> insert r (set (hitems h))" for q
  proof (cases "q = r")
    case True
    have map: "mapping_ok kv" "st_version kv \<noteq> 0 \<Longrightarrow> BTREE_PAGE_SIZE * unat (st_flushed kv) \<le> unat (st_mmap kv)"
        "ck_meta (H (st_version kv)) = meta_of kv"
      using kv_invD [OF inv] by blast+
    have f: "rd_version (hstore h2 r) = st_version kv" "tree_root (hstore h2 r) = st_root kv" "chunks (hstore h2 r) = st_chunks kv"
      by (simp_all add: fields) (simp_all add: h1_def snapshot_def)
    show ?thesis
      using map mapping_reader [OF map(1) f(3)] unfolding True reader_fits_def f by (simp add: meta_of_def)
  next
    case False
    then have "reader_fits H (hstore h q)"
      using kv_invD(5) [OF inv, of q] q by (simp add: h_def)
    then show ?thesis
      using False by (simp add: reader_fits_def fields reader_ok_def) (simp add: h1_def)
  qed
  show "kv_inv kv' H"
  proof (rule kv_invI)
    show "ck_meta (H (st_version kv')) = meta_of kv'" "mapping_ok kv'" "durable_ok kv' H"
      using kv_invD(1,6,8) [OF inv] by (simp_all add: kv' meta_of_def mapping_ok_def durable_ok_def)
    show "v \<le> st_version kv' \<and> m_version (ck_meta (H v)) = v \<and> ck_ok (content (st_file kv')) (H v)
          \<and> shielded (H v) (H (st_version kv'))" if "v \<in> kept kv'" for v
      using kept_ok [OF inv, of v] that unfolding kept by (simp add: kv')
    show "reader_fits H (hstore (st_readers kv') q)" if "q \<in> set (hitems (st_readers kv'))" for q
      using that fits items by (simp add: kv' h_def)
  qed (use kv_invD(2,3,7) [OF inv] push in \<open>simp_all add: kv'\<close>)
qed

lemma end_read_inv:
  assumes inv: "kv_inv kv H" and r: "r \<in> set (hitems (st_readers kv))"
  shows "\<exists>h. KV_end_read r kv = Inr (kv\<lparr>st_readers := h\<rparr>) \<and> kv_inv (kv\<lparr>st_readers := h\<rparr>) H
    \<and> set (hitems h) = set (hitems (st_readers kv)) - {r}
    \<and> (\<forall>q. rd_version (hstore h q) = rd_version (hstore (st_readers kv) q))"
proof -
  define h where "h = st_readers kv"
  have ok: "heap_ok h"
    using kv_invD(4) [OF inv] by (simp add: h_def)
  obtain i where i: "i < length (hitems h)" "hitems h ! i = r"
    using r by (auto simp: in_set_conv_nth h_def)
  then have slot: "heap_index (hstore h r) = int i"
    using ok by (auto simp: heap_ok_def slotted_def)
  obtain h' where h': "heap_remove h (int i) = Inr (r, h')" "heap_ok h'" "set (hitems h') = set (hitems h) - {r}"
      "same_readers (set (hitems h)) h h'"
    using heap_remove_ok [OF ok i(1)] i(2) by auto
  let ?kv = "kv\<lparr>st_readers := h'\<rparr>"
  have same: "hstore h' q = (hstore h q)\<lparr>heap_index := heap_index (hstore h' q)\<rparr>" for q
  proof -
    obtain n where "hstore h' q = (hstore h q)\<lparr>heap_index := n\<rparr>"
      using h'(4) unfolding same_readers_def by blast
    then show ?thesis
      by simp
  qed
  have fields: "rd_version (hstore h' q) = rd_version (hstore h q)" "tree_root (hstore h' q) = tree_root (hstore h q)"
      "chunks (hstore h' q) = chunks (hstore h q)" for q
    by (subst same, simp)+
  have kept: "kept ?kv \<subseteq> kept kv"
    using h'(3) by (auto simp: kept_def fields h_def)
  have "kv_inv ?kv H"
  proof (rule kv_invI)
    show "ck_meta (H (st_version ?kv)) = meta_of ?kv" "mapping_ok ?kv" "durable_ok ?kv H"
      using kv_invD(1,6,8) [OF inv] by (simp_all add: meta_of_def mapping_ok_def durable_ok_def)
    show "v \<le> st_version ?kv \<and> m_version (ck_meta (H v)) = v \<and> ck_ok (content (st_file ?kv)) (H v)
          \<and> shielded (H v) (H (st_version ?kv))" if "v \<in> kept ?kv" for v
      using kept_ok [OF inv, of v] that kept by auto
    show "reader_fits H (hstore (st_readers ?kv) q)" if "q \<in> set (hitems (st_readers ?kv))" for q
    proof -
      have "reader_fits H (hstore h q)"
        using kv_invD(5) [OF inv, of q] that h'(3) by (simp add: h_def)
      then show ?thesis
        by (simp add: reader_fits_def fields reader_ok_def)
    qed
  qed (use kv_invD(2,3,7) [OF inv] h'(2) in simp_all)
  then show ?thesis
    using h'(1,3) slot fields(1) by (intro exI [of _ h']) (simp add: KV_end_read_def h_def)
qed

end
