(* ===== verification/KV_Begin.thy ===== *)
theory KV_Begin
  imports KV_Inv
begin

text \<open>
  Beginning a write transaction, and what is known of a transaction that is running: it holds a map
  over the pages of the version it began on, and it wrote only what that version's free list allowed.
\<close>

definition begun :: "KV \<Rightarrow> KVTX \<Rightarrow> bool" where
  "begun kv tx \<longleftrightarrow> kv_flushed tx = st_flushed kv \<and> page_append_count tx = 0
     \<and> fl_state (free_list tx) = st_free kv \<and> fl_version (free_list tx) = st_version kv
     \<and> (\<forall>v\<in>kept kv. fl_min_reader (free_list tx) \<le> v)
     \<and> buffered tx = (if st_version kv = 0 then {1} else {})
     \<and> (\<forall>p. p \<noteq> 0 \<longrightarrow> tx_view (content (st_file kv)) tx p = ck_view (content (st_file kv)) (meta_of kv) p)
     \<and> (st_version kv \<noteq> 0 \<longrightarrow> BTREE_PAGE_SIZE * unat (st_flushed kv) \<le> mapped_total (chunks tx))"

definition running :: "KV \<Rightarrow> KVTX \<Rightarrow> (bytes \<rightharpoonup> bytes) \<Rightarrow> bool" where
  "running kv tx m \<longleftrightarrow> tx_holds (content (st_file kv)) tx m
     \<and> (\<exists>tx0. begun kv tx0 \<and> tx_since (content (st_file kv)) tx0 tx)"

lemma begin_fields:
  assumes "KV_begin tx kv = Some (tx', kv')"
  shows "kv' = kv\<lparr>st_writer := True\<rparr>" and "rd_version tx' = st_version kv" and "tree_root tx' = st_root kv"
    and "chunks tx' = st_chunks kv" and "kv_flushed tx' = st_flushed kv" and "page_append_count tx' = 0"
    and "page_updates tx' = (if st_version kv = 0 then [(1, BNode BTREE_PAGE_SIZE)] else [])"
    and "fl_state (free_list tx') = st_free kv" and "fl_version (free_list tx') = st_version kv"
    and "fl_min_reader (free_list tx') = (case heap_min (st_readers kv) of None \<Rightarrow> st_durable kv
      | Some r \<Rightarrow> if version_before (hver (st_readers kv) r) (st_durable kv) then hver (st_readers kv) r else st_durable kv)"
  using assms
  by (auto simp: KV_begin_def Let_def snapshot_def FreeList_new_def hver_def BNode_def split: option.splits if_splits)

lemma begin_oldest:
  assumes inv: "kv_inv kv H" and tx: "KV_begin tx kv = Some (tx', kv')" and v: "v \<in> kept kv"
  shows "fl_min_reader (free_list tx') \<le> v"
proof -
  let ?h = "st_readers kv" and ?d = "st_durable kv"
  have small: "unat w < 2 ^ 63" if "w \<le> st_version kv" for w
    using that kv_invD(3) [OF inv] by (simp add: word_le_nat_alt)
  have before: "version_before (hver ?h r) ?d \<longleftrightarrow> hver ?h r < ?d" if "r \<in> set (hitems ?h)" for r
  proof (rule version_before_less)
    have "hver ?h r \<in> kept kv"
      using that by (auto simp: kept_def hver_def)
    then show "unat (hver ?h r) < 2 ^ 63"
      using kept_ok(1) [OF inv] small by blast
    show "unat ?d < 2 ^ 63"
      using kv_invD(2) [OF inv] by (rule small)
  qed
  note least = heap_min_ok [OF kv_invD(4) [OF inv]]
  have le: "fl_min_reader (free_list tx') \<le> ?d"
    unfolding begin_fields(10) [OF tx] using least before by (auto split: option.splits)
  show ?thesis
  proof (cases "?d \<le> v")
    case True
    then show ?thesis
      using le by simp
  next
    case False
    then obtain q where q: "q \<in> set (hitems ?h)" "v = hver ?h q"
      using v by (auto simp: kept_def hver_def)
    then obtain r where r: "heap_min ?h = Some r" "r \<in> set (hitems ?h)" "hver ?h r \<le> v"
      using least by (auto split: option.splits)
    then show ?thesis
      unfolding begin_fields(10) [OF tx] using before [OF r(2)] False by auto
  qed
qed

lemma begin_view:
  assumes inv: "kv_inv kv H" and tx: "KV_begin tx kv = Some (tx', kv')" and p: "p \<noteq> 0"
  shows "tx_view (content (st_file kv)) tx' p = ck_view (content (st_file kv)) (meta_of kv) p"
proof -
  let ?f = "content (st_file kv)"
  note F = begin_fields [OF tx]
  have bound: "unat p < tx_bound tx' \<longleftrightarrow> p < st_flushed kv"
    by (simp add: tx_bound_def F word_less_nat_alt)
  have ok: "ck_ok ?f (H (st_version kv))" "ck_meta (H (st_version kv)) = meta_of kv"
    using current_ok [OF inv] by simp_all
  show ?thesis
  proof (cases "st_version kv = 0")
    case True
    then have two: "st_flushed kv = 2"
      using ok by (simp add: ck_ok_def meta_of_def)
    then have "p < st_flushed kv \<longleftrightarrow> p = 1"
      using p by (auto simp: word_less_nat_alt word_unat_eq_iff)
    then show ?thesis
      using True p bound F(7) two by (simp add: tx_view_def ck_view_def meta_of_def linorder_not_le)
  next
    case False
    have "BTREE_PAGE_SIZE * unat p < mapped_total (chunks tx')" if "p < st_flushed kv"
    proof -
      have "BTREE_PAGE_SIZE * unat p < BTREE_PAGE_SIZE * unat (st_flushed kv)"
        using that by (simp add: word_less_nat_alt BTREE_PAGE_SIZE_def)
      then show ?thesis
        using kv_invD(7) [OF inv False] mapping_reader(2) [OF kv_invD(6) [OF inv] F(4)] by linarith
    qed
    then show ?thesis
      using False p bound F(7) by (auto simp: tx_view_def ck_view_def meta_of_def reader_pages_def)
  qed
qed

text \<open>A transaction whose pages are those of a checkpoint holds its map.\<close>

lemma view_holds:
  assumes ok: "tx_ok tx" and ck: "ck_ok f c" and st: "fl_state (free_list tx) = m_free (ck_meta c)"
    and root: "tree_root tx = m_root (ck_meta c)"
    and ver: "\<not> version_before (fl_version (free_list tx)) (fl_min_reader (free_list tx))"
    and view: "\<forall>p. p \<noteq> 0 \<longrightarrow> tx_view f tx p = ck_view f (ck_meta c) p"
  shows "tx_holds f tx (ck_map c)" and "fl_rep (tx_view f tx) (fl_state (free_list tx)) (ck_nodes c) (ck_items c)"
proof -
  have rep: "fl_rep (ck_view f (ck_meta c)) (m_free (ck_meta c)) (ck_nodes c) (ck_items c)"
    using ck by (simp add: ck_ok_def)
  note own = fl_part_owned [OF fl_rep_slot(1) [OF rep]]
  have in_view: "tx_view f tx p = ck_view f (ck_meta c) p" if "p \<in> set (fl_owned (ck_nodes c) (ck_items c))" for p
    using view own(3) that by metis
  show rep': "fl_rep (tx_view f tx) (fl_state (free_list tx)) (ck_nodes c) (ck_items c)"
    unfolding st
  proof (rule fl_rep_frame [OF rep])
    show "\<forall>q\<in>set (ck_nodes c). tx_view f tx q = ck_view f (ck_meta c) q"
      using in_view by (simp add: fl_owned_def)
    show "set (fl_owned (ck_nodes c) (ck_items c)) \<subseteq> dom (tx_view f tx)"
      using in_view own(4) by (auto simp: dom_def subset_iff)
  qed
  have "tx_live f tx = ck_pages f c"
    using view by (auto simp: fun_eq_iff tx_live_def ck_pages_def tx_free_eq [OF rep'] ck_view_def)
  then show "tx_holds f tx (ck_map c)"
    using ok rep' ver root ck by (auto simp: tx_holds_def tx_inv_def ck_ok_def)
qed

lemma begin_running:
  assumes inv: "kv_inv kv H" and tx: "KV_begin tx kv = Some (tx', kv')"
  shows "running kv' tx' (kv_map kv H)" and "kv_inv kv' H"
proof -
  let ?f = "content (st_file kv)"
  note F = begin_fields [OF tx]
  have ck: "ck_ok ?f (H (st_version kv))" "ck_meta (H (st_version kv)) = meta_of kv"
    using current_ok [OF inv] by simp_all
  have flushed: "2 \<le> unat (st_flushed kv)" "unat (st_flushed kv) \<le> MAX_PAGES"
    using ck by (simp_all add: ck_ok_def meta_of_def word_le_nat_alt)
  have bound: "tx_bound tx' = unat (st_flushed kv)"
    by (simp add: tx_bound_def F)
  have ok: "tx_ok tx'"
    using mapping_reader(1) [OF kv_invD(6) [OF inv] F(4)] flushed bound F(7)
    by (auto simp: tx_ok_def F(5) BNode_def buffered_def)
  have min: "fl_min_reader (free_list tx') \<le> st_version kv"
    by (rule begin_oldest [OF inv tx kept_version [OF inv]])
  have "unat (fl_min_reader (free_list tx')) < 2 ^ 63"
    using min kv_invD(3) [OF inv] unfolding word_le_nat_alt by (rule order_le_less_trans)
  then have ver: "\<not> version_before (fl_version (free_list tx')) (fl_min_reader (free_list tx'))"
    using min kv_invD(3) [OF inv] by (simp add: F(9) version_before_less)
  have holds: "tx_holds ?f tx' (kv_map kv H)"
    unfolding kv_map_def using ok ck(1) begin_view [OF inv tx] ver by (intro view_holds) (simp_all add: ck(2) F meta_of_def)
  moreover have "begun kv' tx'"
    using F begin_oldest [OF inv tx] begin_view [OF inv tx] kv_invD(7) [OF inv]
      mapping_reader(2) [OF kv_invD(6) [OF inv] F(4)]
    by (auto simp: begun_def buffered_def kept_def meta_of_def)
  moreover have "tx_since ?f tx' tx'"
    using holds by (intro tx_since_refl) (simp add: tx_holds_def)
  ultimately show "running kv' tx' (kv_map kv H)"
    unfolding running_def F(1) by auto
  show "kv_inv kv' H"
    using inv by (simp add: F(1))
qed

text \<open>The writes of a running transaction.\<close>

lemma set_running:
  assumes "running kv tx m" and "valid_key key" and "length val \<le> BTREE_MAX_VAL_SIZE"
    and "tx_cost (content (st_file kv)) tx \<le> tx_budget tx"
  shows "\<exists>tx'. KVTX_set (content (st_file kv)) tx key val = Inr tx' \<and> running kv tx' (m(key \<mapsto> val))"
  using assms set_holds [of "content (st_file kv)" tx m key val] set_holds_since unfolding running_def by metis

lemma del_running_roomy:
  assumes "running kv tx m" and "valid_key key" and "roomy (tx_live (content (st_file kv)) tx) (tree_root tx) key"
    and "tx_cost (content (st_file kv)) tx \<le> tx_budget tx"
  shows "\<exists>tx'. KVTX_del (content (st_file kv)) tx key = Inr (m key \<noteq> None, tx') \<and> running kv tx' (m(key := None))"
proof (cases "m key = None")
  case True
  then have "m(key := None) = m"
    by auto
  with True assms show ?thesis
    using del_holds_absent [of "content (st_file kv)" tx m key] by (auto simp: running_def)
next
  case False
  with assms show ?thesis
    using del_holds [of "content (st_file kv)" tx m key] del_holds_since [of "content (st_file kv)" tx m _ key]
    unfolding running_def by (auto 0 4)
qed

text \<open>Readers may come and go while it runs.\<close>

lemma running_readers:
  assumes "running kv tx m" and "kept kv' \<subseteq> kept kv" and "kv' = kv\<lparr>st_readers := h\<rparr>"
  shows "running kv' tx m"
proof -
  have same: "st_file kv' = st_file kv" "meta_of kv' = meta_of kv"
    by (simp_all add: assms(3) meta_of_def)
  have "begun kv' tx0" if "begun kv tx0" for tx0
    using that assms(2) unfolding begun_def same by (auto simp: assms(3))
  then show ?thesis
    using assms(1) unfolding running_def same by blast
qed

end
