(* ===== verification/KV_Commit.thy ===== *)
theory KV_Commit
  imports KV_Begin
begin

text \<open>
  The two-phase commit keeps the invariant whichever call fails: the pages a transaction wrote matter
  to no version that is still needed, the new version is complete in the file before it is published,
  and the meta page changes as a whole.
\<close>

section \<open>A transaction writes nothing that matters\<close>

lemma begun_rep:
  assumes inv: "kv_inv kv H" and tx0: "begun kv tx0"
  shows "fl_rep (tx_view (content (st_file kv)) tx0) (fl_state (free_list tx0))
    (ck_nodes (H (st_version kv))) (ck_items (H (st_version kv)))"
proof -
  let ?f = "content (st_file kv)" and ?c = "H (st_version kv)"
  have ck: "ck_ok ?f ?c" "ck_meta ?c = meta_of kv"
    using current_ok [OF inv] by simp_all
  have rep: "fl_rep (ck_view ?f (meta_of kv)) (fl_state (free_list tx0)) (ck_nodes ?c) (ck_items ?c)"
    using ck tx0 by (simp add: ck_ok_def begun_def meta_of_def)
  note own = fl_part_owned [OF fl_rep_slot(1) [OF rep]]
  have in_view: "tx_view ?f tx0 p = ck_view ?f (meta_of kv) p" if "p \<in> set (fl_owned (ck_nodes ?c) (ck_items ?c))" for p
    using tx0 own(3) that unfolding begun_def by metis
  show ?thesis
  proof (rule fl_rep_frame [OF rep])
    show "\<forall>q\<in>set (ck_nodes ?c). tx_view ?f tx0 q = ck_view ?f (meta_of kv) q"
      using in_view by (simp add: fl_owned_def)
    show "set (fl_owned (ck_nodes ?c) (ck_items ?c)) \<subseteq> dom (tx_view ?f tx0)"
      using in_view own(4) by (auto simp: dom_def subset_iff)
  qed
qed

lemma since_current:
  assumes inv: "kv_inv kv H" and tx0: "begun kv tx0" and since: "tx_since (content (st_file kv)) tx0 tx"
  obtains ns xs where "since_lists (content (st_file kv)) tx0 tx (ck_nodes (H (st_version kv))) (ck_items (H (st_version kv))) ns xs"
proof -
  obtain ns0 xs0 ns xs where L: "since_lists (content (st_file kv)) tx0 tx ns0 xs0 ns xs"
    using since by (auto simp: tx_since_def)
  have "ns0 = ck_nodes (H (st_version kv)) \<and> xs0 = ck_items (H (st_version kv))"
    using L begun_rep [OF inv tx0] by (intro fl_rep_unique) (auto simp: since_lists_def)
  then show ?thesis
    using L that by blast
qed

lemma guarded_view:
  assumes "ck_ok f c" and "m_version (ck_meta c) \<noteq> 0" and "p \<in> guarded c"
  shows "ck_view f (ck_meta c) p = Some (page_at f p)"
  using assms flushed_page [OF assms(1,2), of p f] by (auto simp: guarded_def ck_view_def ck_ok_def)

lemma writable_not_guarded:
  assumes inv: "kv_inv kv H" and tx0: "begun kv tx0" and v: "v \<in> kept kv"
    and p: "p \<in> writable (content (st_file kv)) tx0 (ck_items (H (st_version kv)))"
  shows "p \<notin> guarded (H v)"
proof
  assume g: "p \<in> guarded (H v)"
  let ?f = "content (st_file kv)" and ?c = "H (st_version kv)"
  have sh: "shielded (H v) ?c" and ver: "m_version (ck_meta (H v)) = v" and le: "v \<le> st_version kv"
    using kept_ok [OF inv v] by simp_all
  have cur: "ck_meta ?c = meta_of kv" "ck_ok ?f ?c"
    using current_ok [OF inv] by simp_all
  from p consider u where "(p, u) \<in> set (ck_items ?c)" "version_before u (fl_min_reader (free_list tx0))"
    | "tx_view ?f tx0 p = None" "p \<noteq> 0"
    by (auto simp: writable_def reusable_def)
  then show False
  proof cases
    case 1
    have min: "fl_min_reader (free_list tx0) \<le> v"
      using tx0 v by (simp add: begun_def)
    have "v \<le> u"
      using sh 1(1) g ver by (auto simp: shielded_def)
    moreover have "u \<le> st_version kv"
      using cur 1(1) by (auto simp: ck_ok_def meta_of_def)
    then have "unat u < 2 ^ 63" "unat (fl_min_reader (free_list tx0)) < 2 ^ 63"
      using min le kv_invD(3) [OF inv] unfolding word_le_nat_alt by linarith+
    then have "u < fl_min_reader (free_list tx0)"
      using 1(2) version_before_less by blast
    ultimately show False
      using min by simp
  next
    case 2
    have "p < st_flushed kv"
      using g sh cur(1) by (auto simp: guarded_def shielded_def meta_of_def)
    moreover have "ck_view ?f (meta_of kv) p = None"
      using tx0 2 by (simp add: begun_def)
    moreover have "st_version kv = 0 \<Longrightarrow> p = 1"
      using \<open>p < st_flushed kv\<close> 2(2) cur by (auto simp: ck_ok_def meta_of_def word_less_nat_alt word_unat_eq_iff)
    moreover have "file_page ?f p = Some (page_at ?f p)" if "st_version kv \<noteq> 0"
      using flushed_page [OF cur(2)] that \<open>p < st_flushed kv\<close> cur by (simp add: ck_ok_def meta_of_def)
    ultimately show False
      using 2(2) by (auto simp: ck_view_def meta_of_def split: if_splits)
  qed
qed

lemma items_below_nth:
  assumes "items_below k d = items_below k d'" and "length d = BTREE_PAGE_SIZE" "length d' = BTREE_PAGE_SIZE"
    and "8 \<le> j" "j < 8 + k * 16" "j < BTREE_PAGE_SIZE"
  shows "d ! j = d' ! j"
proof -
  have "items_below k e ! (j - 8) = e ! j" if "length e = BTREE_PAGE_SIZE" for e
    using assms(4-6) that by (simp add: items_below_def)
  then show ?thesis
    using assms(1-3) by metis
qed

lemma tx_updates:
  assumes "tx_ok tx"
  shows "pages_ok (page_updates tx)" and "(p, d) \<in> set (page_updates tx) \<Longrightarrow> map_of (page_updates tx) p = Some d"
    and "distinct (map fst (page_updates tx))"
proof -
  show dist: "distinct (map fst (page_updates tx))"
    using assms strict_sorted_iff by (auto simp: tx_ok_def)
  show "(p, d) \<in> set (page_updates tx) \<Longrightarrow> map_of (page_updates tx) p = Some d"
    using dist by simp
  show "pages_ok (page_updates tx)"
    using assms dist by (force simp: pages_ok_def tx_ok_def buffered_def dom_map_of_conv_image_fst)
qed

lemma writes_harmless:
  assumes inv: "kv_inv kv H" and tx: "running kv tx m" and v: "v \<in> kept kv"
  shows "harmless (page_writes (page_updates tx)) (content (st_file kv)) (H v)"
  unfolding harmless_def
proof (intro allI impI)
  let ?f = "content (st_file kv)" and ?c = "H (st_version kv)"
  fix i b
  assume "matters (H v) i" and "page_writes (page_updates tx) i b"
  then obtain p q d where ver: "m_version (ck_meta (H v)) \<noteq> 0" and p: "p \<in> guarded (H v)" "in_page p i"
      "p = last (ck_nodes (H v)) \<longrightarrow> 8 \<le> i - BTREE_PAGE_SIZE * unat p \<and> i - BTREE_PAGE_SIZE * unat p < 8 + tail_slots (H v) * 16"
    and q: "(q, d) \<in> set (page_updates tx)" "b = d ! (i - BTREE_PAGE_SIZE * unat q)" "in_page q i"
    unfolding matters_def page_writes_def by blast
  have "q = p"
    by (rule in_page_unique [OF q(3) p(2)])
  note d = q(1,2) [unfolded this]
  obtain tx0 where tx0: "begun kv tx0" and since: "tx_since ?f tx0 tx" and holds: "tx_holds ?f tx m"
    using tx by (auto simp: running_def)
  have ok: "tx_ok tx"
    using holds by (simp add: tx_holds_def tx_inv_def)
  obtain ns xs where L: "since_lists ?f tx0 tx (ck_nodes ?c) (ck_items ?c) ns xs"
    using since_current [OF inv tx0 since] .
  note K = kept_ok [OF inv v]
  have cur: "ck_meta ?c = meta_of kv" "ck_ok ?f ?c"
    using current_ok [OF inv] by simp_all
  have nz: "st_version kv \<noteq> 0"
    using K(1,2) ver by auto
  have mapd: "map_of (page_updates tx) p = Some d"
    by (rule tx_updates(2) [OF ok d(1)])
  then have "p \<in> buffered tx"
    by (auto simp: buffered_def)
  then have "p = last (ck_nodes ?c)"
    using L tx0 nz writable_not_guarded [OF inv tx0 v] p(1) by (auto simp: since_lists_def begun_def)
  then have tail: "p = last (ck_nodes (H v))" "unat (tail_seq (m_free (ck_meta (H v)))) \<le> unat (tail_seq (st_free kv))"
      "unat (tail_seq (m_free (ck_meta (H v)))) div FREE_LIST_CAP = unat (tail_seq (st_free kv)) div FREE_LIST_CAP"
    using K(4) p(1) cur(1) by (auto simp: shielded_def meta_of_def)
  have k: "tail_slots (H v) \<le> fl_tail tx0 mod FREE_LIST_CAP"
    using tail(2,3) tx0 unfolding tail_slots_def fl_tail_def begun_def
    by (metis div_mult_mod_eq nat_add_left_cancel_le)
  have p0: "p \<noteq> 0" "p < st_flushed kv"
    using p(1) K(4) cur(1) by (auto simp: guarded_def shielded_def meta_of_def)
  then have view0: "tx_view ?f tx0 p = Some (page_at ?f p)"
    using tx0 flushed_page [OF cur(2), of p ?f] cur nz by (simp add: begun_def ck_view_def meta_of_def ck_ok_def)
  then have "keeps_items (fl_tail tx0 mod FREE_LIST_CAP) (tx_view ?f tx0) (tx_view ?f tx) p"
    using L \<open>p = last (ck_nodes ?c)\<close> by (simp add: since_lists_def)
  then obtain d' where d': "tx_view ?f tx p = Some d'"
      "items_below (fl_tail tx0 mod FREE_LIST_CAP) d' = items_below (fl_tail tx0 mod FREE_LIST_CAP) (page_at ?f p)"
    using view0 by (auto simp: keeps_items_def)
  have "d' = d"
    using d'(1) mapd by (auto simp: tx_view_def split: if_splits)
  moreover have "length d = BTREE_PAGE_SIZE"
    using ok d(1) by (auto simp: tx_ok_def)
  moreover have "i - BTREE_PAGE_SIZE * unat p < BTREE_PAGE_SIZE"
    using p(2) by (auto simp: in_page_def)
  ultimately have "d ! (i - BTREE_PAGE_SIZE * unat p) = page_at ?f p ! (i - BTREE_PAGE_SIZE * unat p)"
    using items_below_nth [OF items_below_mono [OF d'(2) k]] p(3) tail(1) by simp
  also have "\<dots> = byte_at ?f i"
    using p(2) \<open>i - BTREE_PAGE_SIZE * unat p < BTREE_PAGE_SIZE\<close> by (auto simp: page_at_def in_page_def)
  finally show "b = byte_at ?f i"
    using d(2) by simp
qed

lemma writes_far:
  assumes inv: "kv_inv kv H" and tx: "running kv tx m" and A: "page_writes (page_updates tx) i b"
  shows "72 \<le> i"
proof -
  let ?f = "content (st_file kv)" and ?c = "H (st_version kv)"
  obtain p d where p: "(p, d) \<in> set (page_updates tx)" "in_page p i"
    using A by (auto simp: page_writes_def)
  obtain tx0 where tx0: "begun kv tx0" and since: "tx_since ?f tx0 tx"
    using tx by (auto simp: running_def)
  obtain ns xs where L: "since_lists ?f tx0 tx (ck_nodes ?c) (ck_items ?c) ns xs"
    using since_current [OF inv tx0 since] .
  note own = fl_part_owned [OF fl_rep_slot(1) [OF begun_rep [OF inv tx0]]]
  have "p \<in> buffered tx"
    using p(1) by (force simp: buffered_def dom_map_of_conv_image_fst)
  then have "p \<in> buffered tx0 \<union> insert (last (ck_nodes ?c)) (writable ?f tx0 (ck_items ?c))"
    using L by (auto simp: since_lists_def)
  moreover have "0 \<notin> buffered tx0"
    using tx0 by (simp add: begun_def)
  moreover have "last (ck_nodes ?c) \<noteq> 0"
    using own(1,3) owned_last by metis
  moreover have "0 \<notin> writable ?f tx0 (ck_items ?c)"
    using own(3) by (auto simp: writable_def reusable_def fl_owned_def) (metis fst_conv image_eqI)
  ultimately have "p \<noteq> 0"
    by auto
  then have "1 \<le> unat p"
    by (simp add: Suc_le_eq unat_gt_0)
  then have "BTREE_PAGE_SIZE * 1 \<le> BTREE_PAGE_SIZE * unat p"
    by (rule mult_le_mono2)
  then show ?thesis
    using p(2) by (simp add: in_page_def BTREE_PAGE_SIZE_def)
qed

section \<open>The invariant under writes, syncs and a new meta page\<close>

lemma matters_far: "matters c i \<Longrightarrow> 72 \<le> i"
proof -
  assume "matters c i"
  then obtain p where p: "p \<in> guarded c" "in_page p i"
    by (auto simp: matters_def)
  then have "1 \<le> unat p"
    by (simp add: guarded_def word_less_nat_alt Suc_le_eq)
  then have "BTREE_PAGE_SIZE * 1 \<le> BTREE_PAGE_SIZE * unat p"
    by (rule mult_le_mono2)
  then show ?thesis
    using p(2) by (simp add: in_page_def BTREE_PAGE_SIZE_def)
qed

lemma durable_okD:
  assumes "durable_ok kv H"
  shows "os_wf 72 (st_file kv)" and "st_durable kv \<noteq> 0 \<Longrightarrow> 72 \<le> length (synced (st_file kv))"
    and "st_durable kv \<noteq> 0 \<Longrightarrow> crash_image 72 (st_file kv) g \<Longrightarrow> st_durable kv \<le> v \<Longrightarrow> v \<le> st_version kv \<Longrightarrow>
      agree (H v) (content (st_file kv)) g"
    and "st_durable kv \<noteq> 0 \<Longrightarrow> crash_image 72 (st_file kv) g \<Longrightarrow>
      \<exists>v. st_durable kv \<le> v \<and> v \<le> st_version kv \<and> meta_page g (ck_meta (H v))"
  using assms unfolding durable_ok_def by blast+

lemma durable_okI:
  assumes "os_wf 72 (st_file kv)" and "st_durable kv \<noteq> 0 \<Longrightarrow> 72 \<le> length (synced (st_file kv))"
    and "\<And>g v. st_durable kv \<noteq> 0 \<Longrightarrow> crash_image 72 (st_file kv) g \<Longrightarrow> st_durable kv \<le> v \<Longrightarrow> v \<le> st_version kv \<Longrightarrow>
      agree (H v) (content (st_file kv)) g"
    and "\<And>g. st_durable kv \<noteq> 0 \<Longrightarrow> crash_image 72 (st_file kv) g \<Longrightarrow>
      \<exists>v. st_durable kv \<le> v \<and> v \<le> st_version kv \<and> meta_page g (ck_meta (H v))"
  shows "durable_ok kv H"
  using assms unfolding durable_ok_def by blast

lemma agree_via:
  assumes "agree c f f'" and "agree c f g"
  shows "agree c f' g"
  using assms by (simp add: agree_def)

lemma patched_low:
  assumes "patched A f g" and "\<And>i b. A i b \<Longrightarrow> n \<le> i" and "n \<le> length f"
  shows "take n g = take n f" and "n \<le> length g"
proof -
  show len: "n \<le> length g"
    using assms(1,3) by (simp add: patched_def)
  have "byte_at g i = byte_at f i" if "i < n" for i
    using patchedD [OF assms(1), of i] assms(2) [of i] that by fastforce
  then show "take n g = take n f"
    using take_byte_at [OF len assms(3)] by blast
qed

lemma inv_after_writes:
  assumes inv: "kv_inv kv H" and harm: "\<And>v. v \<in> kept kv \<Longrightarrow> harmless A (content (st_file kv)) (H v)"
    and far: "\<And>i b. A i b \<Longrightarrow> 72 \<le> i" and w: "wrote A (st_file kv) f"
    and kv': "kv' = kv\<lparr>st_file := f, st_chunks := cs, st_mmap := mm\<rparr>" and map: "mapping_ok kv'" "unat (st_mmap kv) \<le> unat mm"
  shows "kv_inv kv' H"
proof -
  let ?c = "content (st_file kv)"
  have sel: "st_version kv' = st_version kv" "st_durable kv' = st_durable kv" "st_file kv' = f" "meta_of kv' = meta_of kv"
      "st_readers kv' = st_readers kv" "kept kv' = kept kv" "st_flushed kv' = st_flushed kv" "st_mmap kv' = mm"
    by (simp_all add: kv' meta_of_def kept_def)
  note K = kept_ok [OF inv]
  have agr: "agree (H v) ?c (content f)" if "v \<in> kept kv" for v
    using patched_agree [OF K(3) [OF that] harm [OF that] wrote_patched [OF w]] .
  note D = durable_okD [OF kv_invD(8) [OF inv]]
  have "durable_ok kv' H"
  proof (rule durable_okI; unfold sel)
    show "os_wf 72 f"
      by (rule wrote_wf [OF w far D(1)])
    show "st_durable kv \<noteq> 0 \<Longrightarrow> 72 \<le> length (synced f)"
      using D(2) wrote_synced [OF w] by simp
  next
    fix g
    assume d: "st_durable kv \<noteq> 0" and img: "crash_image 72 f g"
    have "\<exists>g0. crash_image 72 (st_file kv) g0 \<and> patched A g0 g"
      by (rule wrote_crash [OF w _ _ D(1) img]) (use far in auto)
    then obtain g0 where g0: "crash_image 72 (st_file kv) g0" "patched A g0 g"
      by blast
    show "agree (H v) (content f) g" if v: "st_durable kv \<le> v" "v \<le> st_version kv" for v
    proof -
      have k: "v \<in> kept kv"
        using v by (rule kept_durable)
      have a0: "agree (H v) ?c g0"
        by (rule D(3) [OF d g0(1) v])
      have "agree (H v) g0 g"
        using agree_ok [OF K(3) [OF k] a0] harmless_agree [OF harm [OF k] a0] g0(2) by (rule patched_agree)
      then show ?thesis
        using agr [OF k] agree_trans [OF a0] agree_via by blast
    qed
    obtain v where v: "st_durable kv \<le> v" "v \<le> st_version kv" "meta_page g0 (ck_meta (H v))"
      using D(4) [OF d g0(1)] by blast
    then have "meta_page g (ck_meta (H v))"
      using patched_low [OF g0(2) far] by (simp add: meta_page_def)
    then show "\<exists>v. st_durable kv \<le> v \<and> v \<le> st_version kv \<and> meta_page g (ck_meta (H v))"
      using v by blast
  qed
  then show ?thesis
  proof (intro kv_invI; (unfold sel)?)
    show "v \<le> st_version kv \<and> m_version (ck_meta (H v)) = v \<and> ck_ok (content f) (H v) \<and> shielded (H v) (H (st_version kv))"
      if "v \<in> kept kv" for v
      using K [OF that] agree_ok [OF K(3) [OF that] agr [OF that]] by blast
    show "BTREE_PAGE_SIZE * unat (st_flushed kv) \<le> unat mm" if "st_version kv \<noteq> 0"
      using kv_invD(7) [OF inv that] map(2) by simp
  qed (use kv_invD [OF inv] map(1) in simp_all)
qed

lemma inv_same_disk:
  assumes inv: "kv_inv kv H" and same: "same_disk (st_file kv) f"
  shows "kv_inv (kv\<lparr>st_file := f\<rparr>) H"
proof (rule inv_after_writes [OF inv, where A = "\<lambda>i b. False" and f = f and cs = "st_chunks kv" and mm = "st_mmap kv"])
  show "mapping_ok (kv\<lparr>st_file := f\<rparr>)"
    using kv_invD(6) [OF inv] by (simp add: mapping_ok_def)
qed (use same in \<open>auto simp: harmless_def intro: wrote.none\<close>)

text \<open>After an \<open>fsync\<close> the file is all that a crash can leave.\<close>

lemma inv_after_sync:
  assumes inv: "kv_inv kv H" and same: "same_disk (flushed_file (st_file kv)) f"
  shows "kv_inv (kv\<lparr>st_file := f\<rparr>) H" and "crash_image 72 f g \<longleftrightarrow> g = content (st_file kv)"
    and "content f = content (st_file kv)" and "synced f = content (st_file kv)"
proof -
  let ?kv = "kv\<lparr>st_file := f\<rparr>" and ?c = "content (st_file kv)"
  show c: "content f = ?c" "synced f = ?c"
    using same by (simp_all add: same_disk_def flushed_file_def)
  show img: "crash_image 72 f g \<longleftrightarrow> g = ?c" for g
    using same_disk_facts(3) [OF same] flushed_facts(3) by simp
  note D = durable_okD [OF kv_invD(8) [OF inv]]
  have sel: "st_version ?kv = st_version kv" "st_durable ?kv = st_durable kv" "st_file ?kv = f" "meta_of ?kv = meta_of kv"
      "st_readers ?kv = st_readers kv" "kept ?kv = kept kv" "st_flushed ?kv = st_flushed kv" "st_mmap ?kv = st_mmap kv"
      "mapping_ok ?kv = mapping_ok kv"
    by (simp_all add: meta_of_def kept_def mapping_ok_def)
  have here: "crash_image 72 (st_file kv) ?c"
    by (rule crash_image_content [OF D(1)])
  have "durable_ok ?kv H"
  proof (rule durable_okI; unfold sel)
    show "os_wf 72 f"
      using same_disk_facts(4) [OF same] flushed_facts(2) by simp
    show "72 \<le> length (synced f)" if "st_durable kv \<noteq> 0"
      using D(2) [OF that] crash_imageD(1) [OF here] by (simp add: c)
    show "agree (H v) (content f) g" if "crash_image 72 f g" "st_durable kv \<le> v" "v \<le> st_version kv" for g v
      using agree_refl [OF kept_ok(3) [OF inv kept_durable [OF that(2,3)]]] that(1) by (simp add: img c)
    show "\<exists>v. st_durable kv \<le> v \<and> v \<le> st_version kv \<and> meta_page g (ck_meta (H v))"
      if "st_durable kv \<noteq> 0" "crash_image 72 f g" for g
      using D(4) [OF that(1) here] that(2) by (simp add: img)
  qed
  then show "kv_inv ?kv H"
    using inv unfolding kv_inv_def sel c by blast
qed

text \<open>The new meta page, wholly written or not at all.\<close>

lemma inv_after_meta:
  assumes inv: "kv_inv kv H" and same: "same_disk (put_bytes (st_file kv) 0 (meta_bytes (meta_of kv))) f"
  shows "kv_inv (kv\<lparr>st_file := f\<rparr>) H" and "meta_page (content f) (meta_of kv)"
proof -
  let ?kv = "kv\<lparr>st_file := f\<rparr>" and ?c = "content (st_file kv)" and ?d = "meta_bytes (meta_of kv)"
  note D = durable_okD [OF kv_invD(8) [OF inv]]
  have sel: "st_version ?kv = st_version kv" "st_durable ?kv = st_durable kv" "st_file ?kv = f" "meta_of ?kv = meta_of kv"
      "st_readers ?kv = st_readers kv" "kept ?kv = kept kv" "st_flushed ?kv = st_flushed kv" "st_mmap ?kv = st_mmap kv"
      "mapping_ok ?kv = mapping_ok kv"
    by (simp_all add: meta_of_def kept_def mapping_ok_def)
  have f: "content f = overwrite ?c 0 ?d" "synced f = synced (st_file kv)"
    using same by (simp_all add: same_disk_def put_bytes_def)
  have d: "?d \<noteq> []"
    using length_meta_bytes [of "meta_of kv"] by (metis list.size(3) zero_neq_numeral)
  have "take 72 (content f) = ?d"
    unfolding f overwrite_def using d by simp
  moreover have len: "length (content f) = max (length ?c) 72"
    using d by (simp add: f length_overwrite)
  ultimately show "meta_page (content f) (meta_of kv)"
    by (simp add: meta_page_def)
  have high: "byte_at (content f) i = byte_at ?c i" if "72 \<le> i" for i
    using that by (simp add: f byte_at_overwrite)
  have agr: "agree (H v) ?c (content f)" if "v \<in> kept kv" for v
    using agree_refl [OF kept_ok(3) [OF inv that]] high matters_far len by (fastforce simp: agree_def)
  have "durable_ok ?kv H"
  proof (rule durable_okI; unfold sel)
    show "os_wf 72 f"
      using same_disk_facts(4) [OF same] put_record_wf [OF D(1)] by simp
    show "72 \<le> length (synced f)" if "st_durable kv \<noteq> 0"
      using D(2) [OF that] by (simp add: f)
  next
    fix g
    assume dur: "st_durable kv \<noteq> 0" and img: "crash_image 72 f g"
    obtain g0 where g0: "crash_image 72 (st_file kv) g0" "length g0 = length g"
        "\<forall>i\<ge>72. byte_at g i = byte_at g0 i" "take 72 g = take 72 g0 \<or> take 72 g = ?d"
      using put_record [OF D(1) _ D(2) [OF dur], of ?d g] img same_disk_facts(3) [OF same] by auto
    show "agree (H v) (content f) g" if v: "st_durable kv \<le> v" "v \<le> st_version kv" for v
    proof -
      have "agree (H v) ?c g0"
        by (rule D(3) [OF dur g0(1) v])
      then have "agree (H v) ?c g"
        using g0(2,3) matters_far by (fastforce simp: agree_def)
      then show ?thesis
        using agr [OF kept_durable [OF v]] agree_via by blast
    qed
    obtain v where v: "st_durable kv \<le> v" "v \<le> st_version kv" "meta_page g0 (ck_meta (H v))"
      using D(4) [OF dur g0(1)] by blast
    show "\<exists>v. st_durable kv \<le> v \<and> v \<le> st_version kv \<and> meta_page g (ck_meta (H v))"
    proof (cases "take 72 g = ?d")
      case True
      have "72 \<le> length g"
        using v(3) g0(2) by (simp add: meta_page_def)
      then have "meta_page g (ck_meta (H (st_version kv)))"
        using True kv_invD(1) [OF inv] by (simp add: meta_page_def)
      then show ?thesis
        using kv_invD(2) [OF inv] by blast
    next
      case False
      then show ?thesis
        using v g0(2,4) by (auto simp: meta_page_def)
    qed
  qed
  moreover have "ck_ok (content f) (H v)" if "v \<in> kept kv" for v
    using agree_ok [OF kept_ok(3) [OF inv that] agr [OF that]] .
  ultimately show "kv_inv ?kv H"
    using inv unfolding kv_inv_def sel by blast
qed

end
