(* ===== verification/KV_Publish.thy ===== *)
theory KV_Publish
  imports KV_Commit
begin

text \<open>
  The new version: once the buffered pages are in the file it is a complete checkpoint, its free list
  shields every version that is still needed, and publishing it keeps the invariant. Then the commit
  as a whole.
\<close>

definition new_ckpt :: "KV \<Rightarrow> KVTX \<Rightarrow> (bytes \<rightharpoonup> bytes) \<Rightarrow> u64 list \<Rightarrow> item list \<Rightarrow> ckpt" where
  "new_ckpt kv tx m ns xs =
     \<lparr>ck_meta = \<lparr>m_root = tree_root tx, m_flushed = st_flushed kv + page_append_count tx,
                m_free = fl_state (free_list tx), m_version = st_version kv + 1\<rparr>,
      ck_nodes = ns, ck_items = xs, ck_map = m\<rparr>"

text \<open>\<open>written tx g\<close>: the file \<open>g\<close> has every page the transaction buffered.\<close>

definition written :: "KVTX \<Rightarrow> bytes \<Rightarrow> bool" where
  "written tx g \<longleftrightarrow> (\<forall>(p, d)\<in>set (page_updates tx). BTREE_PAGE_SIZE * unat p + BTREE_PAGE_SIZE \<le> length g
     \<and> (\<forall>i. in_page p i \<longrightarrow> byte_at g i = d ! (i - BTREE_PAGE_SIZE * unat p)))"

lemma written_page:
  assumes "written tx g" and "(p, d) \<in> set (page_updates tx)" and "length d = BTREE_PAGE_SIZE"
  shows "file_page g p = Some d"
proof -
  have "page_at g p = d"
    using assms by (intro nth_equalityI) (auto simp: written_def page_at_def in_page_def)
  then show ?thesis
    using assms(1,2) by (auto simp: file_page_at written_def)
qed


section \<open>What a running transaction sees of the file\<close>

lemma running_base:
  assumes "kv_inv kv H" and "running kv tx m"
  shows "tx_ok tx" and "kv_flushed tx = st_flushed kv" and "unat (st_flushed kv + page_append_count tx) = tx_bound tx"
    and "st_version kv \<noteq> 0 \<Longrightarrow> BTREE_PAGE_SIZE * unat (st_flushed kv) \<le> mapped_total (chunks tx)"
    and "st_version kv = 0 \<Longrightarrow> 1 \<in> buffered tx \<and> st_flushed kv = 2"
    and "2 \<le> unat (st_flushed kv)"
proof -
  let ?f = "content (st_file kv)"
  obtain tx0 where tx0: "begun kv tx0" and since: "tx_since ?f tx0 tx" and holds: "tx_holds ?f tx m"
    using assms(2) by (auto simp: running_def)
  show ok: "tx_ok tx"
    using holds by (simp add: tx_holds_def tx_inv_def)
  have snap: "chunks tx = chunks tx0" "kv_flushed tx = kv_flushed tx0" "buffered tx0 \<subseteq> buffered tx"
    using since by (auto simp: tx_since_def same_snapshot_def)
  show fl: "kv_flushed tx = st_flushed kv"
    using snap tx0 by (simp add: begun_def)
  have "unat (st_flushed kv) + unat (page_append_count tx) < 2 ^ 64"
    using tx_okD(3) [OF ok] by (simp add: tx_bound_def MAX_PAGES_def fl)
  then show "unat (st_flushed kv + page_append_count tx) = tx_bound tx"
    by (simp add: tx_bound_def fl unat_word_ariths(1))
  show "BTREE_PAGE_SIZE * unat (st_flushed kv) \<le> mapped_total (chunks tx)" if "st_version kv \<noteq> 0"
    using tx0 that snap by (simp add: begun_def)
  show "1 \<in> buffered tx \<and> st_flushed kv = 2" if "st_version kv = 0"
    using tx0 that snap current_ok [OF assms(1)] by (auto simp: begun_def ck_ok_def meta_of_def)
  show "2 \<le> unat (st_flushed kv)"
    using tx_okD(2) [OF ok] fl by simp
qed

lemma unbuffered_page:
  assumes inv: "kv_inv kv H" and tx: "running kv tx m" and p: "p \<noteq> 0" "p < st_flushed kv" "p \<notin> buffered tx"
  shows "st_version kv \<noteq> 0" and "tx_view (content (st_file kv)) tx p = Some (page_at (content (st_file kv)) p)"
    and "BTREE_PAGE_SIZE * unat p + BTREE_PAGE_SIZE \<le> length (content (st_file kv))"
proof -
  let ?f = "content (st_file kv)"
  note B = running_base [OF inv tx]
  show nz: "st_version kv \<noteq> 0"
  proof
    assume z: "st_version kv = 0"
    then have "p = 1"
      using B(5) p(1,2) by (auto simp: word_less_nat_alt word_unat_eq_iff)
    then show False
      using B(5) [OF z] p(3) by simp
  qed
  have cur: "ck_meta (H (st_version kv)) = meta_of kv" "ck_ok ?f (H (st_version kv))"
    using current_ok [OF inv] by simp_all
  have len: "BTREE_PAGE_SIZE * unat (st_flushed kv) \<le> length ?f"
    using cur nz by (simp add: ck_ok_def meta_of_def)
  have page: "file_page ?f p = Some (page_at ?f p)"
    using flushed_page [OF cur(2)] cur(1) nz p(2) len by (simp add: meta_of_def)
  then show "BTREE_PAGE_SIZE * unat p + BTREE_PAGE_SIZE \<le> length ?f"
    by (simp add: file_page_at split: if_splits)
  have "BTREE_PAGE_SIZE * unat p < BTREE_PAGE_SIZE * unat (st_flushed kv)"
    using p(2) by (simp add: word_less_nat_alt BTREE_PAGE_SIZE_def)
  then have "BTREE_PAGE_SIZE * unat p < mapped_total (chunks tx)"
    using B(4) [OF nz] by linarith
  moreover have "unat p < tx_bound tx"
    using p(2) by (simp add: tx_bound_def B(2) word_less_nat_alt)
  moreover have "map_of (page_updates tx) p = None"
    using p(3) by (auto simp: buffered_def)
  ultimately show "tx_view ?f tx p = Some (page_at ?f p)"
    using page by (simp add: tx_view_def reader_pages_def)
qed

lemma published_view:
  assumes inv: "kv_inv kv H" and tx: "running kv tx m" and ver: "unat (st_version kv) + 1 < 2 ^ 63"
    and patch: "patched (page_writes (page_updates tx)) (content (st_file kv)) g" and w: "written tx g" and p: "p \<noteq> 0"
  shows "ck_view g (ck_meta (new_ckpt kv tx m ns xs)) p = tx_view (content (st_file kv)) tx p"
proof (cases "unat p < tx_bound tx")
  case False
  then have "st_flushed kv + page_append_count tx \<le> p"
    using running_base(3) [OF inv tx] by (simp add: word_le_nat_alt)
  then show ?thesis
    using False by (simp add: ck_view_def new_ckpt_def tx_view_def)
next
  case True
  let ?f = "content (st_file kv)"
  note B = running_base [OF inv tx]
  have lt: "\<not> st_flushed kv + page_append_count tx \<le> p"
    using True B(3) by (simp add: word_le_nat_alt)
  have nz: "st_version kv + 1 \<noteq> 0"
  proof -
    have "unat (st_version kv + 1) = unat (st_version kv) + 1"
      using ver by (intro unat_Suc64) simp
    then show ?thesis
      by auto
  qed
  have view: "ck_view g (ck_meta (new_ckpt kv tx m ns xs)) p = file_page g p"
    using lt nz p by (simp add: ck_view_def new_ckpt_def)
  show ?thesis
  proof (cases "map_of (page_updates tx) p")
    case (Some d)
    then have d: "(p, d) \<in> set (page_updates tx)"
      by (rule map_of_SomeD)
    then have "length d = BTREE_PAGE_SIZE"
      using tx_okD(4) [OF B(1)] by auto
    then show ?thesis
      using written_page [OF w d] Some True view by (simp add: tx_view_def)
  next
    case None
    then have out: "p \<notin> buffered tx"
      by (auto simp: buffered_def)
    then have "p < st_flushed kv"
      using tx_ok_buffered(1) [OF B(1), of p] True B(2) unfolding word_less_nat_alt linorder_not_le [symmetric] by metis
    note U = unbuffered_page [OF inv tx p this out]
    have "byte_at g i = byte_at ?f i" if i: "in_page p i" for i
    proof -
      have "\<not> page_writes (page_updates tx) i b" for b
      proof
        assume "page_writes (page_updates tx) i b"
        then obtain q d where "(q, d) \<in> set (page_updates tx)" "in_page q i"
          by (auto simp: page_writes_def)
        then show False
          using in_page_unique [OF i] None by (metis map_of_eq_None_iff image_eqI fst_conv)
      qed
      then show ?thesis
        using patchedD [OF patch] by blast
    qed
    then have "page_at g p = page_at ?f p"
      by (rule page_at_eqI)
    moreover have "length ?f \<le> length g"
      using patch by (simp add: patched_def)
    ultimately show ?thesis
      using U(2,3) view by (simp add: file_page_at)
  qed
qed

lemma published_ok:
  assumes inv: "kv_inv kv H" and tx: "running kv tx m" and ver: "unat (st_version kv) + 1 < 2 ^ 63"
    and patch: "patched (page_writes (page_updates tx)) (content (st_file kv)) g" and w: "written tx g"
    and L: "since_lists (content (st_file kv)) tx0 tx (ck_nodes (H (st_version kv))) (ck_items (H (st_version kv))) ns xs"
    and tx0: "begun kv tx0"
  shows "ck_ok g (new_ckpt kv tx m ns xs)"
proof -
  let ?f = "content (st_file kv)" and ?c = "new_ckpt kv tx m ns xs"
  note B = running_base [OF inv tx]
  have v1: "unat (st_version kv + 1) = unat (st_version kv) + 1"
    using ver by (intro unat_Suc64) simp
  have sel: "m_free (ck_meta ?c) = fl_state (free_list tx)" "ck_nodes ?c = ns" "ck_items ?c = xs" "ck_map ?c = m"
      "m_root (ck_meta ?c) = tree_root tx" "m_version (ck_meta ?c) = st_version kv + 1"
      "m_flushed (ck_meta ?c) = st_flushed kv + page_append_count tx"
    by (simp_all add: new_ckpt_def)
  have view: "ck_view g (ck_meta ?c) p = tx_view ?f tx p" if "p \<noteq> 0" for p
    by (rule published_view [OF inv tx ver patch w that])
  have rep: "fl_rep (tx_view ?f tx) (fl_state (free_list tx)) ns xs"
    using L by (simp add: since_lists_def)
  note own = fl_part_owned [OF fl_rep_slot(1) [OF rep]]
  have in_view: "ck_view g (ck_meta ?c) p = tx_view ?f tx p" if "p \<in> set (fl_owned ns xs)" for p
    using view own(3) that by metis
  have rep': "fl_rep (ck_view g (ck_meta ?c)) (fl_state (free_list tx)) ns xs"
  proof (rule fl_rep_frame [OF rep])
    show "\<forall>q\<in>set ns. ck_view g (ck_meta ?c) q = tx_view ?f tx q"
      using in_view by (simp add: fl_owned_def)
    show "set (fl_owned ns xs) \<subseteq> dom (ck_view g (ck_meta ?c))"
      using in_view own(4) by (auto simp: dom_def subset_iff)
  qed
  have "ck_pages g ?c = tx_live ?f tx"
    using view by (auto simp: fun_eq_iff tx_live_def ck_pages_def tx_free_eq [OF rep] sel) (simp add: ck_view_def)
  moreover have "btree (tx_live ?f tx) (tree_root tx) m"
    using tx by (simp add: running_def tx_holds_def)
  moreover have "v \<le> st_version kv + 1" if "(p, v) \<in> set xs" for p v
  proof -
    have "v \<le> st_version kv"
      using L tx0 that current_ok [OF inv] by (auto simp: since_lists_def begun_def ck_ok_def meta_of_def)
    then show ?thesis
      using v1 by (simp add: word_le_nat_alt)
  qed
  moreover have "BTREE_PAGE_SIZE * tx_bound tx \<le> length g"
  proof -
    define q :: u64 where "q = word_of_nat (tx_bound tx - 1)"
    have bound: "2 \<le> tx_bound tx" "tx_bound tx \<le> MAX_PAGES"
      using B(6) tx_okD(3) [OF B(1)] by (simp_all add: tx_bound_def B(2))
    have uq: "unat q = tx_bound tx - 1"
      unfolding q_def using bound unfolding unat_of_nat by (intro mod_less) (simp add: MAX_PAGES_def)
    then have q0: "q \<noteq> 0"
      using bound by auto
    have "BTREE_PAGE_SIZE * unat q + BTREE_PAGE_SIZE \<le> length g"
    proof (cases "q \<in> buffered tx")
      case True
      then obtain d where "(q, d) \<in> set (page_updates tx)"
        by (auto simp: buffered_def dest: map_of_SomeD)
      then show ?thesis
        using w by (auto simp: written_def)
    next
      case False
      then have "q < st_flushed kv"
        using tx_ok_buffered(1) [OF B(1), of q] uq bound(1) B(2) unfolding word_less_nat_alt by fastforce
      then show ?thesis
        using unbuffered_page(3) [OF inv tx q0 _ False] patch by (simp add: patched_def)
    qed
    moreover have "BTREE_PAGE_SIZE * unat q + BTREE_PAGE_SIZE = BTREE_PAGE_SIZE * tx_bound tx"
      using uq bound by (simp add: diff_mult_distrib2 BTREE_PAGE_SIZE_def)
    ultimately show ?thesis
      by simp
  qed
  moreover have "2 \<le> tx_bound tx" "tx_bound tx \<le> MAX_PAGES"
    using B(6) tx_okD(3) [OF B(1)] by (simp_all add: tx_bound_def B(2))
  moreover have "st_version kv + 1 \<noteq> 0"
    using v1 by auto
  ultimately show ?thesis
    unfolding ck_ok_def sel using rep' B(3) by (auto simp: word_le_nat_alt)
qed

lemma published_shields:
  assumes inv: "kv_inv kv H" and tx: "running kv tx m" and ver: "unat (st_version kv) + 1 < 2 ^ 63"
    and L: "since_lists (content (st_file kv)) tx0 tx (ck_nodes (H (st_version kv))) (ck_items (H (st_version kv))) ns xs"
    and tx0: "begun kv tx0" and v: "v \<in> kept kv"
  shows "shielded (H v) (new_ckpt kv tx m ns xs)"
proof -
  let ?f = "content (st_file kv)" and ?c = "H (st_version kv)"
  note K = kept_ok [OF inv v]
  note B = running_base [OF inv tx]
  have v1: "unat (st_version kv + 1) = unat (st_version kv) + 1"
    using ver by (intro unat_Suc64) simp
  have cur: "ck_meta ?c = meta_of kv"
    using current_ok [OF inv] by simp
  have sh: "m_flushed (ck_meta (H v)) \<le> st_flushed kv"
      "\<And>p u. (p, u) \<in> set (ck_items ?c) \<Longrightarrow> p \<in> guarded (H v) \<Longrightarrow> v \<le> u"
      "last (ck_nodes ?c) \<in> guarded (H v) \<Longrightarrow> last (ck_nodes ?c) = last (ck_nodes (H v))
          \<and> unat (tail_seq (m_free (ck_meta (H v)))) \<le> unat (tail_seq (st_free kv))
          \<and> unat (tail_seq (m_free (ck_meta (H v)))) div FREE_LIST_CAP = unat (tail_seq (st_free kv)) div FREE_LIST_CAP"
    using K(2,4) cur by (auto simp: shielded_def meta_of_def)
  have tail0: "fl_tail tx0 = unat (tail_seq (st_free kv))"
    using tx0 by (simp add: fl_tail_def begun_def)
  have "v \<le> u" if "(p, u) \<in> set xs" "p \<in> guarded (H v)" for p u
  proof -
    have "(p, u) \<in> set (ck_items ?c) \<or> u = st_version kv"
      using L tx0 that(1) by (auto simp: since_lists_def begun_def)
    then show ?thesis
      using sh(2) that(2) K(1) by blast
  qed
  moreover have "last ns = last (ck_nodes (H v)) \<and> unat (tail_seq (m_free (ck_meta (H v)))) \<le> fl_tail tx
      \<and> unat (tail_seq (m_free (ck_meta (H v)))) div FREE_LIST_CAP = fl_tail tx div FREE_LIST_CAP"
    if g: "last ns \<in> guarded (H v)"
  proof -
    have "last ns = last (ck_nodes ?c) \<and> fl_tail tx0 \<le> fl_tail tx \<and> fl_tail tx div FREE_LIST_CAP = fl_tail tx0 div FREE_LIST_CAP"
      using L writable_not_guarded [OF inv tx0 v] g by (auto simp: since_lists_def)
    then show ?thesis
      using sh(3) g unfolding tail0 by auto
  qed
  moreover have "st_flushed kv \<le> st_flushed kv + page_append_count tx"
    using B(2,3) by (simp add: word_le_nat_alt tx_bound_def)
  moreover have "v \<le> st_version kv + 1"
    using K(1) v1 by (simp add: word_le_nat_alt)
  ultimately show ?thesis
    using sh(1) K(2) unfolding shielded_def by (auto simp: new_ckpt_def fl_tail_def)
qed

section \<open>Publishing\<close>

lemma inv_after_publish:
  assumes inv: "kv_inv kv H" and tx: "running kv tx m" and ver: "unat (st_version kv) + 1 < 2 ^ 63"
    and kv2: "kv2 = kv\<lparr>st_file := f, st_chunks := cs, st_mmap := mm\<rparr>" and inv2: "kv_inv kv2 H"
    and img: "\<And>g. crash_image 72 f g \<longleftrightarrow> g = content f" and sync: "synced f = content f"
    and patch: "patched (page_writes (page_updates tx)) (content (st_file kv)) (content f)" and w: "written tx (content f)"
    and room: "BTREE_PAGE_SIZE * tx_bound tx \<le> unat mm"
    and kv3: "kv3 = kv2\<lparr>st_flushed := st_flushed kv + page_append_count tx, st_free := fl_state (free_list tx),
                st_root := tree_root tx, st_version := st_version kv + 1\<rparr>"
  shows "\<exists>c. kv_inv kv3 (H(st_version kv + 1 := c)) \<and> ck_map c = m"
proof -
  let ?f = "content (st_file kv)" and ?v' = "st_version kv + 1"
  obtain tx0 where tx0: "begun kv tx0" and since: "tx_since ?f tx0 tx"
    using tx by (auto simp: running_def)
  obtain ns xs where L: "since_lists ?f tx0 tx (ck_nodes (H (st_version kv))) (ck_items (H (st_version kv))) ns xs"
    using since_current [OF inv tx0 since] .
  define c where "c = new_ckpt kv tx m ns xs"
  define H' where "H' = H(?v' := c)"
  have v1: "unat ?v' = unat (st_version kv) + 1"
    using ver by (intro unat_Suc64) simp
  have le: "st_version kv \<le> ?v'" "st_version kv \<noteq> ?v'"
    using v1 by (auto simp: word_le_nat_alt)
  have cases: "v \<le> st_version kv \<or> v = ?v'" if "v \<le> ?v'" for v
    using that v1 unfolding word_le_nat_alt by (metis le_SucE Suc_eq_plus1 word_unat_eq_iff)
  have old: "H' v = H v" if "v \<le> st_version kv" for v
    using that le by (auto simp: H'_def)
  have sel: "st_version kv3 = ?v'" "st_durable kv3 = st_durable kv" "st_file kv3 = f" "st_readers kv3 = st_readers kv"
      "st_flushed kv3 = st_flushed kv + page_append_count tx" "st_mmap kv3 = mm"
    by (simp_all add: kv3 kv2)
  have sel2: "st_version kv2 = st_version kv" "st_durable kv2 = st_durable kv" "st_file kv2 = f" "kept kv2 = kept kv"
    by (simp_all add: kv2 kept_def)
  have keep: "v \<in> kept kv \<or> v = ?v'" if "v \<in> kept kv3" for v
    using that cases by (auto simp: kept_def sel)
  have new: "ck_meta c = meta_of kv3" "ck_map c = m" "m_version (ck_meta c) = ?v'"
    by (simp_all add: c_def new_ckpt_def meta_of_def kv3 kv2)
  have new_ok: "ck_ok (content f) c"
    unfolding c_def by (rule published_ok [OF inv tx ver patch w L tx0])
  have K: "v \<le> ?v' \<and> m_version (ck_meta (H' v)) = v \<and> ck_ok (content f) (H' v) \<and> shielded (H' v) c" if v: "v \<in> kept kv3" for v
  proof (cases "v = ?v'")
    case True
    then show ?thesis
      using new(3) new_ok shielded_refl by (simp add: H'_def)
  next
    case False
    then have kept: "v \<in> kept kv"
      using keep [OF v] by simp
    have "v \<le> st_version kv" "m_version (ck_meta (H v)) = v"
      using kept_ok(1,2) [OF inv kept] by blast+
    moreover have "ck_ok (content f) (H v)"
      using kept_ok(3) [OF inv2, of v] kept by (simp add: sel2)
    moreover have "shielded (H v) c"
      unfolding c_def by (rule published_shields [OF inv tx ver L tx0 kept])
    ultimately show ?thesis
      using old le(1) by (metis order_trans)
  qed
  have fits: "reader_fits H' (hstore (st_readers kv) r)" if r: "r \<in> set (hitems (st_readers kv))" for r
  proof -
    have "rd_version (hstore (st_readers kv) r) \<in> kept kv"
      using r by (simp add: kept_def)
    then show ?thesis
      using kv_invD(5) [OF inv r] old [OF kept_ok(1) [OF inv]] by (simp add: reader_fits_def)
  qed
  note D = durable_okD [OF kv_invD(8) [OF inv2], unfolded sel2]
  have "durable_ok kv3 H'"
  proof (rule durable_okI; unfold sel)
    show "os_wf 72 f"
      by (rule D(1))
    show "72 \<le> length (synced f)" if "st_durable kv \<noteq> 0"
      by (rule D(2) [OF that])
    show "agree (H' v) (content f) g" if "crash_image 72 f g" "st_durable kv \<le> v" "v \<le> ?v'" for g v
    proof -
      have "v \<in> kept kv3"
        using that(2,3) by (simp add: kept_def sel)
      then show ?thesis
        using K agree_refl that(1) by (simp add: img)
    qed
    show "\<exists>v. st_durable kv \<le> v \<and> v \<le> ?v' \<and> meta_page g (ck_meta (H' v))"
      if "st_durable kv \<noteq> 0" "crash_image 72 f g" for g
      using D(4) [OF that] old le(1) by (metis order_trans)
  qed
  moreover have "mapping_ok kv3"
    using kv_invD(6) [OF inv2] by (simp add: mapping_ok_def kv3)
  moreover have "BTREE_PAGE_SIZE * unat (st_flushed kv + page_append_count tx) \<le> unat mm"
    unfolding running_base(3) [OF inv tx] by (rule room)
  ultimately have "kv_inv kv3 H'"
  proof (intro kv_invI; (unfold sel)?)
    show "ck_meta (H' ?v') = meta_of kv3"
      by (simp add: H'_def new(1))
    show "st_durable kv \<le> ?v'"
      using kv_invD(2) [OF inv] le(1) by (rule order_trans)
    show "v \<le> ?v' \<and> m_version (ck_meta (H' v)) = v \<and> ck_ok (content f) (H' v) \<and> shielded (H' v) (H' ?v')"
      if "v \<in> kept kv3" for v
      using K [OF that] by (simp add: H'_def)
  qed (use kv_invD(4) [OF inv] v1 ver fits in simp_all)
  then show ?thesis
    using new(2) unfolding H'_def by blast
qed

text \<open>A transaction whose root is still the committed one holds the committed map.\<close>

lemma same_root:
  assumes inv: "kv_inv kv H" and tx: "running kv tx m" and root: "tree_root tx = st_root kv"
  shows "m = kv_map kv H"
proof -
  let ?f = "content (st_file kv)" and ?c = "H (st_version kv)"
  obtain tx0 where tx0: "begun kv tx0" and since: "tx_since ?f tx0 tx" and holds: "tx_holds ?f tx m"
    using tx by (auto simp: running_def)
  obtain ns xs where L: "since_lists ?f tx0 tx (ck_nodes ?c) (ck_items ?c) ns xs"
    using since_current [OF inv tx0 since] .
  have cur: "ck_meta ?c = meta_of kv" "ck_ok ?f ?c"
    using current_ok [OF inv] by simp_all
  have "represents (tx_live ?f tx) (st_root kv) m"
    using holds root btree_represents by (simp add: tx_holds_def)
  then have "represents (tx_view ?f tx) (st_root kv) m"
    by (rule represents_mono) (simp add: tx_live_def split: if_splits)
  moreover have "represents (tx_view ?f tx) (st_root kv) (ck_map ?c)"
  proof (rule represents_mono)
    show "represents (ck_pages ?f ?c) (st_root kv) (ck_map ?c)"
      using cur btree_represents by (simp add: ck_ok_def meta_of_def)
    fix p d
    assume pd: "ck_pages ?f ?c p = Some d"
    have nz: "st_version kv \<noteq> 0"
    proof
      assume "st_version kv = 0"
      then have "ck_pages ?f ?c = Map.empty"
        using version_zero(3) [OF cur(2)] cur(1) by (simp add: meta_of_def)
      then show False
        using pd by simp
    qed
    have p: "p \<noteq> 0" "p < st_flushed kv" "p \<notin> set (fl_owned (ck_nodes ?c) (ck_items ?c))" "file_page ?f p = Some d"
      using pd nz cur(1) by (auto simp: ck_pages_def ck_view_def meta_of_def split: if_splits)
    then have g: "p \<in> guarded ?c" "p \<noteq> last (ck_nodes ?c)"
      using cur(1) ck_owned(1) [OF cur(2)] by (auto simp: guarded_def fl_owned_def meta_of_def word_neq_0_conv)
    have "p \<notin> buffered tx"
      using L tx0 nz g writable_not_guarded [OF inv tx0 kept_version [OF inv]] by (auto simp: since_lists_def begun_def)
    then show "tx_view ?f tx p = Some d"
      using unbuffered_page(2) [OF inv tx p(1,2)] p(4) by (simp add: file_page_at split: if_splits)
  qed
  ultimately show ?thesis
    unfolding kv_map_def by (rule represents_unique)
qed

section \<open>The commit\<close>

lemma inv_durable:
  assumes inv: "kv_inv kv H" and img: "\<And>g. crash_image 72 (st_file kv) g \<longleftrightarrow> g = content (st_file kv)"
    and meta: "meta_page (content (st_file kv)) (meta_of kv)" and sync: "synced (st_file kv) = content (st_file kv)"
  shows "kv_inv (kv\<lparr>st_durable := st_version kv\<rparr>) H"
proof -
  let ?kv = "kv\<lparr>st_durable := st_version kv\<rparr>"
  have kept: "kept ?kv \<subseteq> kept kv"
    using kv_invD(2) [OF inv] by (auto simp: kept_def)
  have "durable_ok ?kv H"
  proof (rule durable_okI)
    show "os_wf 72 (st_file ?kv)"
      using durable_okD(1) [OF kv_invD(8) [OF inv]] by simp
    show "72 \<le> length (synced (st_file ?kv))"
      using meta sync by (simp add: meta_page_def)
    show "agree (H v) (content (st_file ?kv)) g"
      if "crash_image 72 (st_file ?kv) g" "st_durable ?kv \<le> v" "v \<le> st_version ?kv" for g v
    proof -
      have "v = st_version kv"
        using that(2,3) by simp
      then show ?thesis
        using agree_refl [OF current_ok(2) [OF inv]] that(1) by (simp add: img)
    qed
    show "\<exists>v. st_durable ?kv \<le> v \<and> v \<le> st_version ?kv \<and> meta_page g (ck_meta (H v))"
      if "crash_image 72 (st_file ?kv) g" for g
      using that meta kv_invD(1) [OF inv] by (intro exI [of _ "st_version kv"]) (simp add: img)
  qed
  then show ?thesis
  proof (intro kv_invI)
    show "v \<le> st_version ?kv \<and> m_version (ck_meta (H v)) = v \<and> ck_ok (content (st_file ?kv)) (H v)
          \<and> shielded (H v) (H (st_version ?kv))" if "v \<in> kept ?kv" for v
      using kept_ok [OF inv, of v] that kept by auto
  qed (use kv_invD [OF inv] in \<open>simp_all add: meta_of_def mapping_ok_def\<close>)
qed

end
