(* ===== verification/KV_Spec.thy ===== *)
theory KV_Spec
  imports KV_Publish
begin

text \<open>
  What the store promises: commits are atomic and isolated whichever call fails, and reopening the file
  after a crash finds one of the versions since the last durable one, complete.
\<close>

section \<open>The outcomes of a commit\<close>

definition commit_outcome :: "KV \<Rightarrow> KVTX \<Rightarrow> (u64 \<Rightarrow> ckpt) \<Rightarrow> (bytes \<rightharpoonup> bytes) \<Rightarrow> unit res \<Rightarrow> KV \<Rightarrow> (u64 \<Rightarrow> ckpt) \<Rightarrow> bool" where
  "commit_outcome kv tx H m r kv' H' \<longleftrightarrow> kv_inv kv' H' \<and> (\<forall>v. v \<le> st_version kv \<longrightarrow> H' v = H v)
     \<and> st_readers kv' = st_readers kv \<and> io_step kv r kv'
     \<and> (st_durable kv' = st_durable kv \<or> st_durable kv' = st_version kv + 1 \<and> st_version kv' = st_version kv + 1)
     \<and> (st_flushed kv' = st_flushed kv \<and> st_free kv' = st_free kv
          \<or> st_flushed kv' = st_flushed kv + page_append_count tx \<and> st_free kv' = fl_state (free_list tx))
     \<and> (case r of
          Inr u \<Rightarrow> kv_map kv' H' = m
            \<and> (st_version kv' = st_version kv \<or> st_version kv' = st_version kv + 1 \<and> st_durable kv' = st_version kv')
        | Inl e \<Rightarrow> st_durable kv' = st_durable kv
            \<and> (st_version kv' = st_version kv \<or> st_version kv' = st_version kv + 1 \<and> kv_map kv' H' = m))"

lemma io_step_trans: "io_step kv r1 kv1 \<Longrightarrow> io_step kv1 r kv' \<Longrightarrow> io_step kv r kv'"
  by (auto simp: io_step_def)

lemma io_step_faults: "io_step kv r kv' \<Longrightarrow> faults (st_file kv'') = faults (st_file kv') \<Longrightarrow> io_step kv r kv''"
  by (simp add: io_step_def)

lemma sys_step:
  assumes "\<And>f. faults f = [] \<Longrightarrow> \<exists>f'. call f = (True, f') \<and> faults f' = []" and "sys call msg kv = (r, kv')"
  shows "io_step kv r kv'" and "\<exists>ok f. call (st_file kv) = (ok, f) \<and> kv' = kv\<lparr>st_file := f\<rparr>
    \<and> r = (if ok then Inr () else Inl (Runtime_error msg))"
proof -
  show sys: "\<exists>ok f. call (st_file kv) = (ok, f) \<and> kv' = kv\<lparr>st_file := f\<rparr>
      \<and> r = (if ok then Inr () else Inl (Runtime_error msg))"
  proof -
    obtain ok f where c: "call (st_file kv) = (ok, f)"
      by fastforce
    show ?thesis
      by (rule exI [of _ ok], rule exI [of _ f]) (use assms(2) in \<open>simp add: sys_def c\<close>)
  qed
  then show "io_step kv r kv'"
  proof (elim exE conjE)
    fix ok f
    assume c: "call (st_file kv) = (ok, f)" "kv' = kv\<lparr>st_file := f\<rparr>" "r = (if ok then Inr () else Inl (Runtime_error msg))"
    have "ok \<and> faults f = []" if "faults (st_file kv) = []"
      using assms(1) [OF that] c(1) by simp
    then show ?thesis
      using c(2,3) by (cases ok) (simp_all add: io_step_def, blast)
  qed
qed

text \<open>Writing the pages: whatever happens, the old versions stay; if it succeeds, the file is complete.\<close>

lemma write_pages_ok:
  assumes inv: "kv_inv kv H" and tx: "running kv tx m" and run: "write_pages tx kv = (r, kv')"
  shows "\<exists>f cs mm. kv' = kv\<lparr>st_file := f, st_chunks := cs, st_mmap := mm\<rparr> \<and> kv_inv kv' H \<and> io_step kv r kv'
    \<and> (r = Inr () \<longrightarrow> patched (page_writes (page_updates tx)) (content (st_file kv)) (content f)
        \<and> written tx (content f) \<and> BTREE_PAGE_SIZE * tx_bound tx \<le> unat mm)"
proof -
  note B = running_base [OF inv tx]
  define n where "n = (st_flushed kv + page_append_count tx) * word_of_nat BTREE_PAGE_SIZE"
  have bound: "tx_bound tx \<le> 2 ^ 50"
    using tx_okD(3) [OF B(1)] by (simp add: MAX_PAGES_def)
  have un: "unat n = BTREE_PAGE_SIZE * tx_bound tx"
    using bound unfolding n_def unat_word_ariths(2) [of "st_flushed kv + page_append_count tx"] B(3)
    by (simp add: BTREE_PAGE_SIZE_def)
  obtain r1 kv1 where map: "extend_mmap n kv = (r1, kv1)"
    by fastforce
  have n62: "unat n \<le> 2 ^ 62"
    using bound unfolding un by (simp add: BTREE_PAGE_SIZE_def)
  obtain f1 cs mm where kv1: "kv1 = kv\<lparr>st_file := f1, st_chunks := st_chunks kv @ cs, st_mmap := mm\<rparr>" "same_disk (st_file kv) f1"
      "mapping_ok kv1" "r1 = Inr () \<longrightarrow> unat n \<le> unat (st_mmap kv1)" "io_step kv r1 kv1" "unat (st_mmap kv) \<le> unat mm"
    using extend_mmap_ok [OF kv_invD(6) [OF inv] n62 map] by auto
  have split: "write_pages tx kv = (case r1 of Inl e \<Rightarrow> (Inl e, kv1) | Inr u \<Rightarrow> write_runs (page_updates tx) kv1)"
    by (simp add: write_pages_def iobind_def map [unfolded n_def] split: sum.splits)
  note after = inv_after_writes [OF inv]
  show ?thesis
  proof (cases r1)
    case (Inl e)
    have "kv_inv kv1 H"
      by (rule after [where A = "\<lambda>i b. False", OF _ _ _ kv1(1) kv1(3,6)]) (use kv1(2) in \<open>auto simp: harmless_def intro: wrote.none\<close>)
    then show ?thesis
      using Inl run split kv1(1,5) by auto
  next
    case (Inr u)
    then have wr: "write_runs (page_updates tx) kv1 = (r, kv')"
      using run split by simp
    obtain f2 where f2: "kv' = kv1\<lparr>st_file := f2\<rparr>" "wrote (page_writes (page_updates tx)) (st_file kv1) f2" "io_step kv1 r kv'"
        "r = Inr () \<longrightarrow> written tx (content f2)"
      using write_runs_ok [OF tx_updates(1) [OF B(1)] wr] unfolding written_def by blast
    have w: "wrote (page_writes (page_updates tx)) (st_file kv) f2"
      using wrote_trans [OF f2(2)] kv1(1,2) by (simp add: wrote.none)
    have kv': "kv' = kv\<lparr>st_file := f2, st_chunks := st_chunks kv @ cs, st_mmap := mm\<rparr>"
      by (simp add: f2(1) kv1(1))
    have "mapping_ok kv'"
      using kv1(3) by (simp add: f2(1) mapping_ok_def)
    then have "kv_inv kv' H"
      by (intro after [OF writes_harmless [OF inv tx] writes_far [OF inv tx] w kv' _ kv1(6)])
    moreover have "BTREE_PAGE_SIZE * tx_bound tx \<le> unat mm"
      using kv1(1,4) Inr un by simp
    moreover have "io_step kv r kv'"
      using io_step_trans [OF kv1(5) f2(3)] .
    ultimately show ?thesis
      using kv' f2(4) wrote_patched [OF w] by (intro exI [of _ f2] exI [of _ "st_chunks kv @ cs"] exI [of _ mm]) simp
  qed
qed

lemma os_steps:
  "faults f = [] \<Longrightarrow> \<exists>f'. os_fsync f = (True, f') \<and> faults f' = []"
  "faults f = [] \<Longrightarrow> \<exists>f'. os_write_sector off d f = (True, f') \<and> faults f' = []"
  "faults f = [] \<Longrightarrow> \<exists>f'. os_call f = (True, f') \<and> faults f' = []"
  by (simp_all add: no_faults)

lemma sync_ok:
  assumes inv: "kv_inv kv H" and run: "sys os_fsync msg kv = (r, kv')"
  shows "\<exists>f. kv' = kv\<lparr>st_file := f\<rparr> \<and> kv_inv kv' H \<and> io_step kv r kv' \<and> content f = content (st_file kv)
    \<and> (r = Inr () \<longrightarrow> (\<forall>g. crash_image 72 f g \<longleftrightarrow> g = content f) \<and> synced f = content f)"
proof -
  obtain ok f where f: "os_fsync (st_file kv) = (ok, f)" "kv' = kv\<lparr>st_file := f\<rparr>"
      "r = (if ok then Inr () else Inl (Runtime_error msg))"
    using sys_step(2) [OF os_steps(1) run] by blast
  have step: "io_step kv r kv'"
    by (rule sys_step(1) [OF os_steps(1) run])
  from os_fsync_cases [OF f(1)] show ?thesis
  proof (elim disjE conjE)
    assume ok and same: "same_disk (flushed_file (st_file kv)) f"
    then show ?thesis
      unfolding f(2) using step [unfolded f(2)] inv_after_sync [OF inv same] by (intro exI [of _ f]) simp
  next
    assume "\<not> ok" and same: "same_disk (st_file kv) f"
    then show ?thesis
      unfolding f(2) using f(3) step [unfolded f(2)] inv_same_disk [OF inv same] same_disk_facts(1) [OF same]
      by (intro exI [of _ f]) simp
  qed
qed

lemma update_root_ok:
  assumes inv: "kv_inv kv H" and run: "update_root kv = (r, kv')"
  shows "\<exists>f. kv' = kv\<lparr>st_file := f\<rparr> \<and> kv_inv kv' H \<and> io_step kv r kv' \<and> (r = Inr () \<longrightarrow> meta_page (content f) (meta_of kv))"
proof -
  let ?w = "os_write_sector 0 (meta_bytes (meta_of kv))"
  have run': "sys ?w ''KV: write meta page failed'' kv = (r, kv')"
    using run by (simp add: update_root_def iobind_def lift_res_def save_meta_bytes)
  obtain ok f where f: "?w (st_file kv) = (ok, f)" "kv' = kv\<lparr>st_file := f\<rparr>"
      "r = (if ok then Inr () else Inl (Runtime_error ''KV: write meta page failed''))"
    using sys_step(2) [OF os_steps(2) run'] by blast
  have step: "io_step kv r kv'"
    by (rule sys_step(1) [OF os_steps(2) run'])
  from os_write_sector_cases [OF f(1)] show ?thesis
  proof (elim disjE conjE)
    assume same: "same_disk (put_bytes (st_file kv) 0 (meta_bytes (meta_of kv))) f"
    then show ?thesis
      unfolding f(2) using step [unfolded f(2)] inv_after_meta [OF inv same] by (intro exI [of _ f]) simp
  next
    assume "\<not> ok" and same: "same_disk (st_file kv) f"
    then show ?thesis
      unfolding f(2) using f(3) step [unfolded f(2)] inv_same_disk [OF inv same] by (intro exI [of _ f]) simp
  qed
qed

lemma commit_locked_ok:
  assumes inv: "kv_inv kv H" and tx: "running kv tx m" and ver: "unat (st_version kv) + 1 < 2 ^ 63"
    and run: "commit_locked tx kv = (r, kv')"
  shows "\<exists>H'. commit_outcome kv tx H m r kv' H'"
proof (cases "tree_root tx = st_root kv")
  case True
  then have "r = Inr ()" "kv' = kv"
    using run by (simp_all add: commit_locked_def)
  then have "commit_outcome kv tx H m r kv' H"
    using inv same_root [OF inv tx True] by (simp add: commit_outcome_def io_step_def)
  then show ?thesis
    by blast
next
  case False
  obtain r1 kv1 where w: "write_pages tx kv = (r1, kv1)"
    by fastforce
  obtain f1 cs mm where kv1: "kv1 = kv\<lparr>st_file := f1, st_chunks := cs, st_mmap := mm\<rparr>" "kv_inv kv1 H" "io_step kv r1 kv1"
      "r1 = Inr () \<longrightarrow> patched (page_writes (page_updates tx)) (content (st_file kv)) (content f1)
        \<and> written tx (content f1) \<and> BTREE_PAGE_SIZE * tx_bound tx \<le> unat mm"
    using write_pages_ok [OF inv tx w] by blast
  have rolled_back: "commit_outcome kv tx H m (Inl e) kv'' H"
    if "kv'' = kv\<lparr>st_file := f, st_chunks := cs, st_mmap := mm\<rparr>" "kv_inv kv'' H" "io_step kv (Inl e :: unit res) kv''" for e f kv''
    using that by (simp add: commit_outcome_def)
  show ?thesis
  proof (cases r1)
    case (Inl e)
    then have "r = Inl e" "kv' = kv1"
      using run False w by (simp_all add: commit_locked_def iobind_def)
    then show ?thesis
      using rolled_back [OF kv1(1,2)] kv1(3) Inl by blast
  next
    case r1: (Inr u1)
    obtain r2 kv2 where s: "sys os_fsync ''KV: fsync failed'' kv1 = (r2, kv2)"
      by fastforce
    obtain f2 where kv2: "kv2 = kv1\<lparr>st_file := f2\<rparr>" "kv_inv kv2 H" "io_step kv1 r2 kv2" "content f2 = content (st_file kv1)"
        "r2 = Inr () \<longrightarrow> (\<forall>g. crash_image 72 f2 g \<longleftrightarrow> g = content f2) \<and> synced f2 = content f2"
      using sync_ok [OF kv1(2) s] by blast
    have kv2': "kv2 = kv\<lparr>st_file := f2, st_chunks := cs, st_mmap := mm\<rparr>"
      by (simp add: kv2(1) kv1(1))
    have step2: "io_step kv r2 kv2"
      by (rule io_step_trans [OF kv1(3) kv2(3)])
    show ?thesis
    proof (cases r2)
      case (Inl e)
      then have "r = Inl e" "kv' = kv2"
        using run False w r1 s by (simp_all add: commit_locked_def iobind_def)
      then show ?thesis
        using rolled_back [OF kv2' kv2(2)] step2 Inl by blast
    next
      case r2: (Inr u2)
      define kv3 where "kv3 = kv2\<lparr>st_flushed := st_flushed kv + page_append_count tx, st_free := fl_state (free_list tx),
          st_root := tree_root tx, st_version := st_version kv + 1\<rparr>"
      have c2: "content f2 = content f1"
        using kv2(4) by (simp add: kv1(1))
      have img2: "crash_image 72 f2 g \<longleftrightarrow> g = content f2" for g
        using kv2(5) r2 by simp
      have sync2: "synced f2 = content f2"
        using kv2(5) r2 by simp
      have "\<exists>c. kv_inv kv3 (H(st_version kv + 1 := c)) \<and> ck_map c = m"
        by (rule inv_after_publish [OF inv tx ver kv2' kv2(2) img2 sync2 _ _ _ kv3_def]) (use kv1(4) r1 c2 in simp_all)
      then obtain c where c: "kv_inv kv3 (H(st_version kv + 1 := c))" "ck_map c = m"
        by blast
      define H' where "H' = H(st_version kv + 1 := c)"
      have v1: "unat (st_version kv + 1) = unat (st_version kv) + 1"
        using ver by (intro unat_Suc64) simp
      have old: "\<forall>v. v \<le> st_version kv \<longrightarrow> H' v = H v"
        using v1 by (auto simp: H'_def word_le_nat_alt)
      have published: "commit_outcome kv tx H m (Inl e) kv'' H'"
        if "kv'' = kv3\<lparr>st_file := f\<rparr>" "kv_inv kv'' H'" "io_step kv (Inl e :: unit res) kv''" for e f kv''
        using that old c(2) by (simp add: commit_outcome_def kv3_def kv2' kv_map_def H'_def)
      have step3: "io_step kv2 x y" if "io_step kv3 x y" for x :: "unit res" and y
        using that by (simp add: io_step_def kv3_def)
      obtain r3 kv4 where u: "update_root kv3 = (r3, kv4)"
        by fastforce
      obtain f4 where kv4: "kv4 = kv3\<lparr>st_file := f4\<rparr>" "kv_inv kv4 H'" "io_step kv3 r3 kv4"
          "r3 = Inr () \<longrightarrow> meta_page (content f4) (meta_of kv3)"
        using update_root_ok [OF c(1) u] unfolding H'_def by blast
      have step4: "io_step kv r3 kv4"
        by (rule io_step_trans [OF step2 step3 [OF kv4(3)]])
      show ?thesis
      proof (cases r3)
        case (Inl e)
        then have "r = Inl e" "kv' = kv4"
          using run False w r1 s r2 u by (simp_all add: commit_locked_def iobind_def Let_def kv3_def kv2')
        then show ?thesis
          using published [OF kv4(1,2)] step4 Inl by blast
      next
        case r3: (Inr u3)
        obtain r4 kv5 where s2: "sys os_fsync ''KV: fsync failed'' kv4 = (r4, kv5)"
          by fastforce
        obtain f5 where kv5: "kv5 = kv4\<lparr>st_file := f5\<rparr>" "kv_inv kv5 H'" "io_step kv4 r4 kv5" "content f5 = content (st_file kv4)"
            "r4 = Inr () \<longrightarrow> (\<forall>g. crash_image 72 f5 g \<longleftrightarrow> g = content f5) \<and> synced f5 = content f5"
          using sync_ok [OF kv4(2) s2] by blast
        have kv5': "kv5 = kv3\<lparr>st_file := f5\<rparr>"
          by (simp add: kv5(1) kv4(1))
        have step5: "io_step kv r4 kv5"
          by (rule io_step_trans [OF step4 kv5(3)])
        show ?thesis
        proof (cases r4)
          case (Inl e)
          then have "r = Inl e" "kv' = kv5"
            using run False w r1 s r2 u r3 s2 by (simp_all add: commit_locked_def iobind_def Let_def kv3_def kv2')
          then show ?thesis
            using published [OF kv5' kv5(2)] step5 Inl by blast
        next
          case r4: (Inr u4)
          have r: "r = Inr ()" "kv' = kv5\<lparr>st_durable := st_version kv5\<rparr>"
            using run False w r1 s r2 u r3 s2 r4 by (simp_all add: commit_locked_def iobind_def Let_def kv3_def kv2')
          have "meta_page (content f5) (meta_of kv5)"
            using kv4(4) r3 kv5(4) by (simp add: kv4(1) kv5' meta_of_def)
          then have "kv_inv kv' H'"
            unfolding r(2) using kv5(5) r4 by (intro inv_durable [OF kv5(2)]) (simp_all add: kv5')
          moreover have "io_step kv r kv'"
            using step5 r4 by (simp add: r io_step_def)
          ultimately have "commit_outcome kv tx H m r kv' H'"
            using old c(2) by (simp add: commit_outcome_def r kv5' kv3_def kv2' kv_map_def H'_def)
          then show ?thesis
            by blast
        qed
      qed
    qed
  qed
qed

lemma commit_ok:
  assumes "kv_inv kv H" and "running kv tx m" and "unat (st_version kv) + 1 < 2 ^ 63" and "KV_commit tx kv = (r, kv')"
  shows "\<exists>H'. commit_outcome kv tx H m r kv' H'"
proof -
  obtain kv1 where kv1: "commit_locked tx kv = (r, kv1)" "kv' = kv1\<lparr>st_writer := False\<rparr>"
    using assms(4) by (auto simp: KV_commit_def split: prod.splits)
  obtain H' where "commit_outcome kv tx H m r kv1 H'"
    using commit_locked_ok [OF assms(1-3) kv1(1)] by blast
  then have "commit_outcome kv tx H m r kv' H'"
    by (cases r) (simp_all add: commit_outcome_def kv1(2) kv_map_def io_step_def)
  then show ?thesis
    by blast
qed

end
