(* ===== verification/KV_Recovery.thy ===== *)
theory KV_Recovery
  imports KV_Spec
begin

text \<open>
  Opening a file: a new one gives the empty store, and what a crash leaves gives the store of the
  checkpoint whose meta page it holds.
\<close>

section \<open>A file after a restart\<close>

definition disk :: "bytes \<Rightarrow> nat option list \<Rightarrow> OsFile" where
  "disk g fs = \<lparr>content = g, synced = g, pending = [], faults = fs\<rparr>"

definition at_rest :: "OsFile \<Rightarrow> bytes \<Rightarrow> bool" where
  "at_rest f g \<longleftrightarrow> content f = g \<and> synced f = g \<and> pending f = []"

lemma at_rest_facts:
  assumes "at_rest f g"
  shows "os_wf n f" and "crash_image n f g' \<longleftrightarrow> g' = g"
proof -
  have same: "same_disk (flushed_file f) f"
    using assms by (simp add: same_disk_def flushed_file_def at_rest_def)
  show "os_wf n f" "crash_image n f g' \<longleftrightarrow> g' = g"
    using same_disk_facts(3,4) [OF same, of n] flushed_facts(2,3) [of n f] assms by (simp_all add: at_rest_def)
qed

lemma at_rest_same: "same_disk f f' \<Longrightarrow> at_rest f g \<Longrightarrow> at_rest f' g"
  by (simp add: same_disk_def at_rest_def)

lemma sys_call_rest:
  assumes "sys os_call msg kv = (r, kv')" and "at_rest (st_file kv) g"
  shows "\<exists>f. kv' = kv\<lparr>st_file := f\<rparr> \<and> at_rest f g" and "io_step kv r kv'"
proof -
  obtain ok f where f: "os_call (st_file kv) = (ok, f)" "kv' = kv\<lparr>st_file := f\<rparr>"
    using sys_step(2) [OF os_steps(3) assms(1)] by blast
  show "\<exists>f. kv' = kv\<lparr>st_file := f\<rparr> \<and> at_rest f g"
    using f(2) at_rest_same [OF os_call_disk [OF f(1)] assms(2)] by blast
  show "io_step kv r kv'"
    by (rule sys_step(1) [OF os_steps(3) assms(1)])
qed

text \<open>One call of \<open>open\<close>: it fails and the opening with it, or the rest goes on over the same file.\<close>

lemma call_then:
  assumes run: "iobind (sys os_call msg) k kv = (r, kv')" and rest: "at_rest (st_file kv) g"
  shows "(\<exists>e. r = Inl (Runtime_error e)) \<and> faults (st_file kv) \<noteq> []
    \<or> (\<exists>f. at_rest f g \<and> k () (kv\<lparr>st_file := f\<rparr>) = (r, kv') \<and> (faults (st_file kv) = [] \<longrightarrow> faults f = []))"
proof -
  obtain r1 kv1 where c: "sys os_call msg kv = (r1, kv1)"
    by fastforce
  obtain f where f: "kv1 = kv\<lparr>st_file := f\<rparr>" "at_rest f g"
    using sys_call_rest(1) [OF c rest] by blast
  have step: "io_step kv r1 kv1"
    by (rule sys_call_rest(2) [OF c rest])
  have k: "iobind (sys os_call msg) k kv = (case r1 of Inl e \<Rightarrow> (Inl e, kv1) | Inr u \<Rightarrow> k u kv1)"
    by (simp add: iobind_def c split: sum.split)
  show ?thesis
  proof (cases r1)
    case (Inl e)
    then have "r = Inl e" "\<exists>msg. e = Runtime_error msg" "faults (st_file kv) \<noteq> []"
      using run step unfolding k by (simp_all add: io_step_def)
    then show ?thesis
      by blast
  next
    case (Inr u)
    have "k () (kv\<lparr>st_file := f\<rparr>) = (r, kv')"
      using run Inr unfolding k by (simp add: f(1))
    moreover have "faults (st_file kv) = [] \<longrightarrow> faults f = []"
      using step by (simp add: io_step_def f(1))
    ultimately show ?thesis
      using f(2) by blast
  qed
qed

section \<open>The store that is opened\<close>

definition opened :: "KV \<Rightarrow> ckpt \<Rightarrow> bytes \<Rightarrow> bool" where
  "opened kv c g \<longleftrightarrow> kv_inv kv (\<lambda>v. c) \<and> meta_of kv = ck_meta c \<and> st_durable kv = st_version kv
     \<and> hitems (st_readers kv) = [] \<and> \<not> st_writer kv \<and> st_open kv \<and> at_rest (st_file kv) g"

lemma opened_map: "opened kv c g \<Longrightarrow> kv_inv kv (\<lambda>v. c) \<and> kv_map kv (\<lambda>v. c) = ck_map c"
  by (simp add: opened_def kv_map_def)

lemma openedI:
  assumes rest: "at_rest (st_file kv) g" and meta: "meta_of kv = ck_meta c" "st_durable kv = st_version kv"
    and empty: "hitems (st_readers kv) = []" and flags: "\<not> st_writer kv" "st_open kv" and ok: "ck_ok g c"
    and small: "unat (st_version kv) < 2 ^ 63" and map: "mapping_ok kv"
    and room: "st_version kv \<noteq> 0 \<Longrightarrow> BTREE_PAGE_SIZE * unat (st_flushed kv) \<le> unat (st_mmap kv)"
    and page: "st_version kv \<noteq> 0 \<Longrightarrow> meta_page g (ck_meta c)"
  shows "opened kv c g"
proof -
  have ver: "m_version (ck_meta c) = st_version kv"
    using meta(1) by (metis Meta.select_convs(4) meta_of_def)
  have kept: "v = st_version kv" if "v \<in> kept kv" for v
    using that empty meta(2) by (auto simp: kept_def)
  have "kv_inv kv (\<lambda>v. c)"
  proof (rule kv_invI)
    show "ck_meta c = meta_of kv" "st_durable kv \<le> st_version kv"
      using meta by simp_all
    show "v \<le> st_version kv \<and> m_version (ck_meta c) = v \<and> ck_ok (content (st_file kv)) c \<and> shielded c c" if "v \<in> kept kv" for v
      using kept [OF that] ver ok rest shielded_refl by (simp add: at_rest_def)
    show "heap_ok (st_readers kv)"
      using empty by (simp add: heap_ok_def slotted_def heap_ordered_def)
    show "durable_ok kv (\<lambda>v. c)"
    proof (rule durable_okI)
      show "os_wf 72 (st_file kv)"
        by (rule at_rest_facts(1) [OF rest])
      show "72 \<le> length (synced (st_file kv))" if "st_durable kv \<noteq> 0"
        using page that meta(2) rest by (simp add: meta_page_def at_rest_def)
      show "agree c (content (st_file kv)) g'" if "crash_image 72 (st_file kv) g'" for g'
        using at_rest_facts(2) [OF rest] that rest agree_refl [OF ok] by (simp add: at_rest_def)
      show "\<exists>v. st_durable kv \<le> v \<and> v \<le> st_version kv \<and> meta_page g' (ck_meta c)"
        if "st_durable kv \<noteq> 0" "crash_image 72 (st_file kv) g'" for g'
        using at_rest_facts(2) [OF rest] that page meta(2) by (intro exI [of _ "st_version kv"]) simp
    qed
  qed (use small map room empty in simp_all)
  then show ?thesis
    using assms by (simp add: opened_def)
qed

text \<open>\<open>open_result\<close>: an opening that fails only if some call does, and else yields the store of \<open>c\<close>.\<close>

definition open_result :: "nat option list \<Rightarrow> unit res \<Rightarrow> KV \<Rightarrow> ckpt \<Rightarrow> bytes \<Rightarrow> bool" where
  "open_result fs r kv c g \<longleftrightarrow> (\<exists>e. r = Inl (Runtime_error e)) \<and> fs \<noteq> []
     \<or> r = Inr () \<and> opened kv c g \<and> (fs = [] \<longrightarrow> faults (st_file kv) = [])"

lemma iobind_assoc: "iobind (iobind m f) h = iobind m (\<lambda>x. iobind (f x) h)"
  by (simp add: fun_eq_iff iobind_def split: prod.splits sum.splits)

lemma open_calls:
  assumes run: "KV_open (KV_new (disk g fs)) = (r, kv')"
  shows "(\<exists>e. r = Inl (Runtime_error e)) \<and> fs \<noteq> []
    \<or> (\<exists>f. at_rest f g \<and> read_root ((KV_new f)\<lparr>st_open := True\<rparr>) = (r, kv') \<and> (fs = [] \<longrightarrow> faults f = []))"
proof -
  have new: "(KV_new f)\<lparr>st_file := f'\<rparr> = KV_new f'" "st_file (KV_new f) = f" for f f'
    by (simp_all add: KV_new_def)
  have rest: "at_rest (st_file (KV_new (disk g fs))) g" and flt: "faults (st_file (KV_new (disk g fs))) = fs"
    by (simp_all add: at_rest_def disk_def KV_new_def)
  note step = call_then [where g = g]
  from step [OF run [unfolded KV_open_def create_file_sync_def iobind_assoc] rest] show ?thesis
  proof (elim disjE exE conjE)
    fix f
    assume f: "at_rest f g" "faults (st_file (KV_new (disk g fs))) = [] \<longrightarrow> faults f = []"
      and run1: "iobind (sys os_call ''KV: open file failed'') (\<lambda>x. iobind (sys os_call ''KV: fsync directory failed'')
        (\<lambda>_ kv. read_root (kv\<lparr>st_open := True\<rparr>))) ((KV_new (disk g fs))\<lparr>st_file := f\<rparr>) = (r, kv')"
    have at: "st_file ((KV_new x)\<lparr>st_file := y\<rparr>) = y" for x y
      by simp
    from step [OF run1, unfolded at, OF f(1)] show ?thesis
    proof (elim disjE exE conjE)
      fix f'
      assume f': "at_rest f' g" "faults f = [] \<longrightarrow> faults f' = []"
        and run2: "iobind (sys os_call ''KV: fsync directory failed'') (\<lambda>_ kv. read_root (kv\<lparr>st_open := True\<rparr>))
          ((KV_new (disk g fs))\<lparr>st_file := f, st_file := f'\<rparr>) = (r, kv')"
      have "at_rest (st_file ((KV_new (disk g fs))\<lparr>st_file := f, st_file := f'\<rparr>)) g"
        using f'(1) by simp
      from step [OF run2 this] show ?thesis
        using f f' flt by (auto simp: new)
    qed (use f flt in auto)
  qed (use flt in auto)
qed

section \<open>A new file\<close>

definition empty_ckpt :: ckpt where
  "empty_ckpt = \<lparr>ck_meta = \<lparr>m_root = 0, m_flushed = 2,
       m_free = \<lparr>head_page = 1, head_seq = 0, tail_page = 1, tail_seq = 0\<rparr>, m_version = 0\<rparr>,
     ck_nodes = [1], ck_items = [], ck_map = Map.empty\<rparr>"

lemma empty_ckpt_ok: "ck_ok g empty_ckpt"
proof -
  have view: "ck_view g (ck_meta empty_ckpt) = [1 \<mapsto> BNode BTREE_PAGE_SIZE]"
  proof
    have "p = 0 \<or> 2 \<le> p \<or> p = 1" for p :: u64
      by (auto simp: word_le_nat_alt word_unat_eq_iff)
    then show "ck_view g (ck_meta empty_ckpt) p = [1 \<mapsto> BNode BTREE_PAGE_SIZE] p" for p
      using word_le_nat_alt [of 2 "1 :: u64"] by (auto simp: ck_view_def empty_ckpt_def)
  qed
  have "fl_rep (ck_view g (ck_meta empty_ckpt)) (m_free (ck_meta empty_ckpt)) [1] []"
    by (simp add: fl_rep_def fl_part_def fl_owned_def view) (simp add: empty_ckpt_def)
  moreover have "ck_pages g empty_ckpt = Map.empty"
    by (auto simp: fun_eq_iff ck_pages_def view fl_owned_def) (simp add: empty_ckpt_def)
  ultimately show ?thesis
    by (simp add: ck_ok_def btree_def) (simp add: empty_ckpt_def MAX_PAGES_def)
qed

lemma open_new:
  assumes run: "KV_open (KV_new (disk [] fs)) = (r, kv')"
  shows "open_result fs r kv' empty_ckpt []"
  using open_calls [OF run]
proof (elim disjE exE conjE)
  fix f
  assume f: "at_rest f []" "read_root ((KV_new f)\<lparr>st_open := True\<rparr>) = (r, kv')" "fs = [] \<longrightarrow> faults f = []"
  have rest: "at_rest (st_file ((KV_new f)\<lparr>st_open := True\<rparr>)) []" and file_is: "st_file ((KV_new f)\<lparr>st_open := True\<rparr>) = f"
    using f(1) by (simp_all add: KV_new_def)
  from call_then [OF f(2) [unfolded read_root_def] rest] show ?thesis
  proof (elim disjE exE conjE)
    fix f'
    assume f': "at_rest f' []" "faults (st_file ((KV_new f)\<lparr>st_open := True\<rparr>)) = [] \<longrightarrow> faults f' = []"
      and run': "root_from_file ((KV_new f)\<lparr>st_open := True, st_file := f'\<rparr>) = (r, kv')"
    have "content f' = []"
      using f'(1) by (simp add: at_rest_def)
    then have kv': "r = Inr ()" "kv' = (KV_new f)\<lparr>st_open := True, st_file := f', st_root := 0, st_version := 0, st_durable := 0,
        st_flushed := 2, st_free := \<lparr>head_page = 1, head_seq = 0, tail_page = 1, tail_seq = 0\<rparr>\<rparr>"
      using run' by (simp_all add: root_from_file_def)
    have "opened kv' empty_ckpt []"
      by (rule openedI [OF _ _ _ _ _ _ empty_ckpt_ok])
        (use f'(1) in \<open>simp_all add: kv'(2) KV_new_def meta_of_def empty_ckpt_def mapping_ok_def mapped_total_def\<close>)
    then show ?thesis
      using kv'(1) f(3) f'(2) file_is by (simp add: open_result_def) (simp add: kv'(2))
  qed (use f(3) file_is in \<open>auto simp: open_result_def\<close>)
qed (simp add: open_result_def)

section \<open>A file with a checkpoint\<close>

lemma ck_meta_valid:
  assumes ok: "ck_ok g c" and ver: "m_version (ck_meta c) \<noteq> 0"
  shows "meta_valid (ck_meta c)"
proof -
  let ?M = "ck_meta c"
  have rep: "fl_rep (ck_view g ?M) (m_free ?M) (ck_nodes c) (ck_items c)"
    and tree: "btree (ck_pages g c) (m_root ?M) (ck_map c)" and two: "2 \<le> m_flushed ?M"
    using ok by (simp_all add: ck_ok_def)
  note own = ck_owned [OF ok]
  have ends: "hd (ck_nodes c) = head_page (m_free ?M)" "last (ck_nodes c) = tail_page (m_free ?M)"
      "unat (head_seq (m_free ?M)) \<le> unat (tail_seq (m_free ?M))"
    using rep by (simp_all add: fl_rep_def fl_part_def)
  have in_list: "hd (ck_nodes c) \<in> set (fl_owned (ck_nodes c) (ck_items c))"
      "last (ck_nodes c) \<in> set (fl_owned (ck_nodes c) (ck_items c))"
    using own(1) by (simp_all add: fl_owned_def)
  have "m_root ?M < m_flushed ?M"
  proof (cases "m_root ?M = 0")
    case True
    then show ?thesis
      using two by (simp add: word_less_nat_alt word_le_nat_alt)
  next
    case False
    then have "m_root ?M \<in> dom (ck_pages g c)"
      using tree by (auto simp: btree_def)
    then show ?thesis
      by (auto simp: ck_pages_def ck_view_def split: if_splits)
  qed
  then show ?thesis
    using own(3) [OF in_list(1)] own(3) [OF in_list(2)] ends ver two
    by (simp add: meta_valid_def word_le_nat_alt word_neq_0_conv)
qed

lemma root_from_meta_ok:
  assumes ok: "ck_ok g c" and ver: "m_version (ck_meta c) \<noteq> 0" "unat (m_version (ck_meta c)) < 2 ^ 63"
    and page: "meta_page g (ck_meta c)" and rest: "at_rest (st_file kv) g" and kv: "kv = (KV_new f)\<lparr>st_open := True\<rparr>"
    and run: "root_from_meta (meta_bytes (ck_meta c)) kv = (r, kv')"
  shows "open_result (faults (st_file kv)) r kv' c g"
proof -
  let ?M = "ck_meta c"
  let ?kv = "kv\<lparr>st_root := m_root ?M, st_version := m_version ?M, st_durable := m_version ?M,
      st_flushed := m_flushed ?M, st_free := m_free ?M\<rparr>"
  let ?n = "m_flushed ?M * word_of_nat BTREE_PAGE_SIZE"
  have sig: "take (length DB_SIG) (meta_bytes ?M) = DB_SIG"
    by (simp add: meta_bytes_def)
  have map: "extend_mmap ?n ?kv = (r, kv')"
    using run ck_meta_valid [OF ok ver(1)]
    by (simp add: root_from_meta_def sig iobind_def lift_res_def parse_meta_bytes)
  have small: "unat (m_flushed ?M) \<le> 2 ^ 50"
    using ok by (simp add: ck_ok_def MAX_PAGES_def)
  then have n: "unat ?n = BTREE_PAGE_SIZE * unat (m_flushed ?M)"
    unfolding unat_word_ariths(2) [of "m_flushed ?M"] by (simp add: BTREE_PAGE_SIZE_def)
  have n62: "unat ?n \<le> 2 ^ 62"
    using small unfolding n by (simp add: BTREE_PAGE_SIZE_def)
  have "mapping_ok ?kv"
    by (simp add: kv KV_new_def mapping_ok_def mapped_total_def)
  then obtain f' cs mm where kv': "kv' = ?kv\<lparr>st_file := f', st_chunks := st_chunks ?kv @ cs, st_mmap := mm\<rparr>"
      "same_disk (st_file ?kv) f'" "mapping_ok kv'" "r = Inr () \<longrightarrow> unat ?n \<le> unat (st_mmap kv')" "io_step ?kv r kv'"
    using extend_mmap_ok [OF _ n62 map] by blast
  show ?thesis
  proof (cases r)
    case (Inl e)
    then show ?thesis
      using kv'(5) by (simp add: io_step_def open_result_def)
  next
    case (Inr u)
    have rest': "at_rest f' g"
      using at_rest_same [OF kv'(2)] rest by simp
    have room: "BTREE_PAGE_SIZE * unat (m_flushed ?M) \<le> unat (st_mmap kv')"
      using kv'(4) Inr unfolding n by simp
    have "opened kv' c g"
      by (rule openedI [OF _ _ _ _ _ _ ok _ kv'(3)])
        (use rest' ver room page in \<open>simp_all add: kv'(1) kv KV_new_def meta_of_def\<close>)
    moreover have "faults (st_file kv) = [] \<longrightarrow> faults (st_file kv') = []"
      using kv'(5) by (simp add: io_step_def)
    ultimately show ?thesis
      using Inr by (simp add: open_result_def)
  qed
qed

lemma open_checkpoint:
  assumes ok: "ck_ok g c" and ver: "m_version (ck_meta c) \<noteq> 0" "unat (m_version (ck_meta c)) < 2 ^ 63"
    and page: "meta_page g (ck_meta c)" and run: "KV_open (KV_new (disk g fs)) = (r, kv')"
  shows "open_result fs r kv' c g"
  using open_calls [OF run]
proof (elim disjE exE conjE)
  have weaken: "open_result fs r kv' c g" if "open_result fs' r kv' c g" "fs = [] \<longrightarrow> fs' = []" for fs'
    using that by (auto simp: open_result_def)
  have long: "72 \<le> length g" "take 72 g = meta_bytes (ck_meta c)"
    using page by (simp_all add: meta_page_def)
  fix f
  assume f: "at_rest f g" "read_root ((KV_new f)\<lparr>st_open := True\<rparr>) = (r, kv')" "fs = [] \<longrightarrow> faults f = []"
  have at: "st_file ((KV_new x)\<lparr>st_open := True\<rparr>) = x" "(KV_new x)\<lparr>st_open := True, st_file := y\<rparr> = (KV_new y)\<lparr>st_open := True\<rparr>"
      for x y
    by (simp_all add: KV_new_def)
  from call_then [OF f(2) [unfolded read_root_def], unfolded at, OF f(1)] show ?thesis
  proof (elim disjE exE conjE)
    fix f1
    assume f1: "at_rest f1 g" "root_from_file ((KV_new f1)\<lparr>st_open := True\<rparr>) = (r, kv')" "faults f = [] \<longrightarrow> faults f1 = []"
    have c1: "content f1 = g"
      using f1(1) by (simp add: at_rest_def)
    have "iobind (sys os_call ''KV: read meta page failed'')
        (\<lambda>_ kv. root_from_meta (take META_DATA_SIZE (content (st_file kv))) kv) ((KV_new f1)\<lparr>st_open := True\<rparr>) = (r, kv')"
    proof -
      have "g \<noteq> []" "\<not> length g < META_DATA_SIZE"
        using long(1) by (auto simp: meta_offsets)
      then show ?thesis
        using f1(2) unfolding root_from_file_def at c1 Let_def by simp
    qed
    from call_then [OF this, unfolded at, OF f1(1)] show ?thesis
    proof (elim disjE exE conjE)
      fix f2
      assume f2: "at_rest f2 g" "root_from_meta (take META_DATA_SIZE (content f2)) ((KV_new f2)\<lparr>st_open := True\<rparr>) = (r, kv')"
        "faults f1 = [] \<longrightarrow> faults f2 = []"
      have "content f2 = g"
        using f2(1) by (simp add: at_rest_def)
      then have "root_from_meta (meta_bytes (ck_meta c)) ((KV_new f2)\<lparr>st_open := True\<rparr>) = (r, kv')"
        using f2(2) long(2) by (simp add: meta_offsets)
      from root_from_meta_ok [OF ok ver page _ refl this, unfolded at, OF f2(1)] show ?thesis
        using f(3) f1(3) f2(3) by (intro weaken [of "faults f2"]) auto
    qed (use f(3) f1(3) in \<open>auto simp: open_result_def\<close>)
  qed (use f(3) in \<open>auto simp: open_result_def\<close>)
qed (simp add: open_result_def)

text \<open>A crash leaves a file with one of the versions since the last durable one.\<close>

lemma open_crashed:
  assumes inv: "kv_inv kv H" and dur: "st_durable kv \<noteq> 0" and crash: "crash_image 72 (st_file kv) g"
    and run: "KV_open (KV_new (disk g fs)) = (r, kv')"
  shows "\<exists>v. st_durable kv \<le> v \<and> v \<le> st_version kv \<and> open_result fs r kv' (H v) g"
proof -
  note D = durable_okD [OF kv_invD(8) [OF inv]]
  obtain v where v: "st_durable kv \<le> v" "v \<le> st_version kv" "meta_page g (ck_meta (H v))"
    using D(4) [OF dur crash] by blast
  have kept: "v \<in> kept kv"
    using kept_durable v by blast
  have ok: "ck_ok g (H v)"
    using agree_ok [OF kept_ok(3) [OF inv kept] D(3) [OF dur crash v(1,2)]] .
  have ver: "m_version (ck_meta (H v)) = v"
    by (rule kept_ok(2) [OF inv kept])
  have "v \<noteq> 0"
    using dur v(1) by (auto simp: word_le_nat_alt word_unat_eq_iff)
  moreover have "unat v < 2 ^ 63"
    using v(2) kv_invD(3) [OF inv] by (simp add: word_le_nat_alt)
  ultimately have "open_result fs r kv' (H v) g"
    using open_checkpoint [OF ok _ _ v(3) run] ver by simp
  with v show ?thesis
    by blast
qed

end
