(* ===== verification/KV_Theorems.thy ===== *)
theory KV_Theorems
  imports KV_Recovery
begin

text \<open>
  The properties of the store. The history \<open>H\<close> is a ghost: it names what each version published. The
  witnesses run a new store through one write transaction.
\<close>

section \<open>A new store\<close>

definition fresh_store :: "nat option list \<Rightarrow> KV" where
  "fresh_store fs = (KV_new (disk [] fs))\<lparr>st_open := True, st_flushed := 2,
     st_free := \<lparr>head_page = 1, head_seq = 0, tail_page = 1, tail_seq = 0\<rparr>\<rparr>"

lemma fresh_store_fields [simp]:
  "st_file (fresh_store fs) = disk [] fs" "st_writer (fresh_store fs) = False" "st_root (fresh_store fs) = 0"
  "st_version (fresh_store fs) = 0" "st_durable (fresh_store fs) = 0" "st_flushed (fresh_store fs) = 2"
  "hitems (st_readers (fresh_store fs)) = []" "st_chunks (fresh_store fs) = []" "st_mmap (fresh_store fs) = 0"
  "st_open (fresh_store fs)"
  by (simp_all add: fresh_store_def KV_new_def)

lemma disk_fields [simp]: "content (disk g fs) = g" "faults (disk g fs) = fs"
  by (simp_all add: disk_def)

lemma open_fresh: "KV_open (KV_new (disk [] (replicate 4 None @ fs))) = (Inr (), fresh_store fs)"
proof -
  have "KV_open (KV_new (disk [] (None # None # None # None # fs))) = (Inr (), fresh_store fs)"
    by (simp add: KV_open_def create_file_sync_def read_root_def root_from_file_def iobind_def sys_def os_call_def
        next_fault_def fresh_store_def KV_new_def disk_def)
  then show ?thesis
    by (simp add: eval_nat_numeral)
qed

lemma fresh_store_opened: "opened (fresh_store fs) empty_ckpt []"
  by (rule openedI [OF _ _ _ _ _ _ empty_ckpt_ok])
    (simp_all add: fresh_store_def KV_new_def disk_def at_rest_def meta_of_def empty_ckpt_def mapping_ok_def mapped_total_def)

lemma fresh_store_inv: "kv_inv (fresh_store fs) (\<lambda>v. empty_ckpt)" "kv_map (fresh_store fs) (\<lambda>v. empty_ckpt) = Map.empty"
  using opened_map [OF fresh_store_opened] by (simp_all add: empty_ckpt_def)

lemma fresh_begin: "KV_begin fresh_tx (fresh_store fs) = Some (fresh_tx, (fresh_store fs)\<lparr>st_writer := True\<rparr>)"
  by (simp add: KV_begin_def fresh_store_def KV_new_def snapshot_def heap_min_def fresh_tx_def FreeList_new_def Let_def BNode_def)

lemma fresh_running: "running ((fresh_store fs)\<lparr>st_writer := True\<rparr>) fresh_tx Map.empty"
  using begin_running(1) [OF fresh_store_inv(1) fresh_begin] by (simp add: fresh_store_inv(2))

text \<open>A transaction that sets one key of a new store, possibly with a reader open.\<close>

lemma fresh_write:
  "\<exists>tx. KVTX_set [] fresh_tx [97] [1] = Inr tx \<and> running ((fresh_store fs)\<lparr>st_writer := True\<rparr>) tx [[97] \<mapsto> [1]]"
  using set_running [OF fresh_running [of fs] valid_key_a(1), of "[1]"] fresh_tx_budget(1) [of "[]"] fresh_tx_budget(2)
  by (auto simp: BTREE_MAX_VAL_SIZE_def)

lemma reader_reads:
  assumes "kv_inv kv H" and "r \<in> set (hitems (st_readers kv))" and "valid_key key"
  shows "KVReader_get (content (st_file kv)) (hstore (st_readers kv) r) key
    = Inr (ck_map (H (rd_version (hstore (st_readers kv) r))) key)"
  using mapped.BTree_get_ok [OF open_reader_represents [OF assms(1,2)] assms(3)] by (simp add: KVReader_get_def)

section \<open>The meta page\<close>

text \<open>
  The meta page reads back as it was saved. \<open>save_meta\<close> always succeeds, writes exactly
  \<open>META_DATA_SIZE\<close> bytes that start with the signature, and \<open>parse_meta\<close> of them yields every field
  of the store's state, for all 64-bit values.
\<close>

theorem save_parse_meta:
  "\<exists>data. save_meta kv = Inr data \<and> length data = META_DATA_SIZE \<and> take (length DB_SIG) data = DB_SIG
    \<and> parse_meta data = Inr \<lparr>m_root = st_root kv, m_flushed = st_flushed kv, m_free = st_free kv, m_version = st_version kv\<rparr>"
proof -
  have "take (length DB_SIG) (meta_bytes M) = DB_SIG" for M
    by (simp add: meta_bytes_def)
  then show ?thesis
    using parse_meta_bytes [of "meta_of kv"]
    by (intro exI [of _ "meta_bytes (meta_of kv)"]) (auto simp: save_meta_bytes meta_offsets meta_of_def)
qed

section \<open>Opening\<close>

text \<open>
  A new file opens as the empty store. The opening fails only if some system call does, and then
  with a runtime error; else the store holds the empty map, no version is durable yet, and the free
  list starts at page 1.
\<close>

theorem KV_open_new:
  assumes "KV_open (KV_new (disk [] fs)) = (r, kv)"
  shows "(\<exists>e. r = Inl (Runtime_error e)) \<and> fs \<noteq> []
    \<or> r = Inr () \<and> kv_inv kv (\<lambda>v. empty_ckpt) \<and> kv_map kv (\<lambda>v. empty_ckpt) = Map.empty \<and> st_durable kv = 0 \<and> \<not> st_writer kv"
proof -
  have "kv_inv kv (\<lambda>v. empty_ckpt) \<and> kv_map kv (\<lambda>v. empty_ckpt) = Map.empty \<and> st_durable kv = 0 \<and> \<not> st_writer kv"
    if o: "opened kv empty_ckpt []"
  proof -
    have "m_version (meta_of kv) = 0" "st_durable kv = st_version kv" "\<not> st_writer kv"
      using o by (simp_all add: opened_def) (simp add: empty_ckpt_def)
    then show ?thesis
      using opened_map [OF o] by (simp add: meta_of_def) (simp add: empty_ckpt_def)
  qed
  then show ?thesis
    using open_new [OF assms] unfolding open_result_def by blast
qed

lemma KV_open_new_witness:
  "\<exists>kv. KV_open (KV_new (disk [] (replicate 4 None))) = (Inr (), kv) \<and> kv_map kv (\<lambda>v. empty_ckpt) = Map.empty"
  using KV_open_new [OF open_fresh [of "[]"]] open_fresh [of "[]"] by auto

section \<open>Transactions\<close>

text \<open>
  C23: \<open>begin\<close> starts a write transaction on the committed map. When no other one is running, it
  yields a transaction that holds exactly what the last commit published, whatever readers are open;
  and the pages it may reuse are none that a durable version or an open reader needs.
\<close>

theorem KV_begin_correct:
  assumes "kv_inv kv H" and "\<not> st_writer kv"
  shows "\<exists>tx' kv'. KV_begin tx kv = Some (tx', kv') \<and> st_writer kv' \<and> kv_inv kv' H \<and> running kv' tx' (kv_map kv H)
    \<and> tx_holds (content (st_file kv')) tx' (kv_map kv H) \<and> (\<forall>v\<in>kept kv. fl_min_reader (free_list tx') \<le> v)"
proof -
  obtain tx' kv' where tx: "KV_begin tx kv = Some (tx', kv')"
    using assms(2) by (auto simp: KV_begin_def Let_def)
  have "running kv' tx' (kv_map kv H)" "kv_inv kv' H"
    using begin_running [OF assms(1) tx] by blast+
  then show ?thesis
    using begin_oldest [OF assms(1) tx] begin_fields(1) [OF tx] tx by (auto simp: running_def)
qed

lemma KV_begin_correct_witness:
  "\<exists>tx' kv'. KV_begin fresh_tx (fresh_store []) = Some (tx', kv') \<and> tx_holds [] tx' Map.empty"
  using KV_begin_correct [OF fresh_store_inv(1) [of "[]"], of fresh_tx] fresh_store_inv(2) [of "[]"] fresh_begin [of "[]"] by auto

text \<open>
  C7: a commit is atomic, whichever system call fails. Either the store still holds the old map and
  its version has not moved, or it holds the transaction's map under the next version; every older
  version is unchanged, the open readers are untouched, and the invariant holds again. If the commit
  returns, the store holds the transaction's map, and a new version is durable. It fails only if some
  call does, with a runtime error.\<close>

theorem KV_commit_atomic:
  assumes "kv_inv kv H" and "running kv tx m" and "unat (st_version kv) + 1 < 2 ^ 63" and "KV_commit tx kv = (r, kv')"
  shows "\<exists>H'. kv_inv kv' H' \<and> (\<forall>v. v \<le> st_version kv \<longrightarrow> H' v = H v) \<and> st_readers kv' = st_readers kv
    \<and> (st_version kv' = st_version kv \<and> kv_map kv' H' = kv_map kv H
       \<or> st_version kv' = st_version kv + 1 \<and> kv_map kv' H' = m)
    \<and> (r = Inr () \<longrightarrow> kv_map kv' H' = m \<and> (st_version kv' \<noteq> st_version kv \<longrightarrow> st_durable kv' = st_version kv'))
    \<and> (\<forall>e. r = Inl e \<longrightarrow> (\<exists>msg. e = Runtime_error msg) \<and> faults (st_file kv) \<noteq> [])"
proof -
  obtain H' where C: "commit_outcome kv tx H m r kv' H'"
    using commit_ok [OF assms] by blast
  have same: "kv_map kv' H' = kv_map kv H" if "st_version kv' = st_version kv"
    using C that by (simp add: commit_outcome_def kv_map_def)
  show ?thesis
  proof (intro exI [of _ H'] conjI)
    show "st_version kv' = st_version kv \<and> kv_map kv' H' = kv_map kv H
       \<or> st_version kv' = st_version kv + 1 \<and> kv_map kv' H' = m"
      using C same by (cases r) (auto simp: commit_outcome_def)
    show "r = Inr () \<longrightarrow> kv_map kv' H' = m \<and> (st_version kv' \<noteq> st_version kv \<longrightarrow> st_durable kv' = st_version kv')"
      using C by (auto simp: commit_outcome_def)
  qed (use C in \<open>simp_all add: commit_outcome_def io_step_def\<close>)
qed

text \<open>A first commit, with no call failing.\<close>

lemma first_commit:
  assumes inv: "kv_inv kv (\<lambda>v. empty_ckpt)" and tx: "running kv tx [[97] \<mapsto> [1]]" and v0: "st_version kv = 0"
    and calm: "faults (st_file kv) = []" and run: "KV_commit tx kv = (r, kv')"
  shows "r = Inr () \<and> \<not> st_writer kv' \<and> st_version kv' = 1 \<and> st_durable kv' = 1 \<and> st_readers kv' = st_readers kv
    \<and> (\<exists>H. kv_inv kv' H \<and> kv_map kv' H = [[97] \<mapsto> [1]])
    \<and> (st_flushed kv' = st_flushed kv \<and> st_free kv' = st_free kv
         \<or> st_flushed kv' = st_flushed kv + page_append_count tx \<and> st_free kv' = fl_state (free_list tx))
    \<and> faults (st_file kv') = []"
proof -
  obtain H where C: "commit_outcome kv tx (\<lambda>v. empty_ckpt) [[97] \<mapsto> [1]] r kv' H"
    using commit_ok [OF inv tx _ run] v0 by auto
  have ok: "r = Inr ()"
    using C calm by (cases r) (auto simp: commit_outcome_def io_step_def)
  have "st_version kv' \<noteq> 0"
  proof
    assume "st_version kv' = 0"
    then have "kv_map kv' H = Map.empty"
      using C v0 by (simp add: commit_outcome_def kv_map_def) (simp add: empty_ckpt_def)
    then have "[[97] \<mapsto> [1]] = (Map.empty :: bytes \<rightharpoonup> bytes)"
      using C ok by (simp add: commit_outcome_def)
    then show False
      by simp
  qed
  then have "st_version kv' = 1" "st_durable kv' = 1"
    using C ok v0 by (auto simp: commit_outcome_def)
  moreover have "\<not> st_writer kv'"
    using run by (auto simp: KV_commit_def split: prod.splits)
  moreover have "kv_inv kv' H" "kv_map kv' H = [[97] \<mapsto> [1]]" "st_readers kv' = st_readers kv"
      "st_flushed kv' = st_flushed kv \<and> st_free kv' = st_free kv
         \<or> st_flushed kv' = st_flushed kv + page_append_count tx \<and> st_free kv' = fl_state (free_list tx)"
    using C ok by (simp_all add: commit_outcome_def)
  moreover have "faults (st_file kv') = []"
    using C calm by (simp add: commit_outcome_def io_step_def)
  ultimately show ?thesis
    using ok by blast
qed

lemma fresh_commit:
  "\<exists>tx kv H. KVTX_set [] fresh_tx [97] [1] = Inr tx \<and> KV_commit tx ((fresh_store [])\<lparr>st_writer := True\<rparr>) = (Inr (), kv)
    \<and> kv_inv kv H \<and> kv_map kv H = [[97] \<mapsto> [1]] \<and> st_version kv = 1 \<and> st_durable kv = 1 \<and> \<not> st_writer kv
    \<and> hitems (st_readers kv) = []"
proof -
  let ?kv = "(fresh_store [])\<lparr>st_writer := True\<rparr>"
  obtain tx where tx: "KVTX_set [] fresh_tx [97] [1] = Inr tx" "running ?kv tx [[97] \<mapsto> [1]]"
    using fresh_write by blast
  obtain r kv where run: "KV_commit tx ?kv = (r, kv)"
    by fastforce
  have inv: "kv_inv ?kv (\<lambda>v. empty_ckpt)"
    using fresh_store_inv(1) by simp
  show ?thesis
    using first_commit [OF inv tx(2) _ _ run] tx(1) run by auto
qed

lemma KV_commit_atomic_witness:
  "\<exists>tx kv H. KVTX_set [] fresh_tx [97] [1] = Inr tx \<and> KV_commit tx ((fresh_store [])\<lparr>st_writer := True\<rparr>) = (Inr (), kv)
    \<and> kv_inv kv H \<and> kv_map kv H = [[97] \<mapsto> [1]]"
proof -
  let ?kv = "(fresh_store [])\<lparr>st_writer := True\<rparr>"
  obtain tx where tx: "KVTX_set [] fresh_tx [97] [1] = Inr tx" "running ?kv tx [[97] \<mapsto> [1]]"
    using fresh_write by blast
  obtain r kv where run: "KV_commit tx ?kv = (r, kv)"
    by fastforce
  have inv: "kv_inv ?kv (\<lambda>v. empty_ckpt)"
    using fresh_store_inv(1) by simp
  have "r = Inr ()"
    using KV_commit_atomic [OF inv tx(2) _ run] by (cases r) auto
  then show ?thesis
    using KV_commit_atomic [OF inv tx(2) _ run] tx(1) run by auto
qed

section \<open>Readers\<close>

text \<open>
  A reader sees the committed map. \<open>begin_read\<close> adds the reader to the open ones and keeps the
  invariant, and every \<open>get\<close> of the reader then returns what the last commit published.
\<close>

theorem KV_begin_read_correct:
  assumes "kv_inv kv H" and "r \<notin> set (hitems (st_readers kv))" and "valid_key key"
  shows "kv_inv (KV_begin_read r kv) H
    \<and> set (hitems (st_readers (KV_begin_read r kv))) = insert r (set (hitems (st_readers kv)))
    \<and> KVReader_get (content (st_file (KV_begin_read r kv))) (hstore (st_readers (KV_begin_read r kv)) r) key
        = Inr (kv_map kv H key)"
proof -
  note B = begin_read_inv [OF assms(1,2)]
  have "r \<in> set (hitems (st_readers (KV_begin_read r kv)))"
    unfolding B(2) by simp
  from reader_reads [OF B(1) this assms(3)] B(1,2) show ?thesis
    by (simp add: B(3) kv_map_def)
qed

lemma KV_begin_read_correct_witness:
  "\<exists>kv. st_version kv = 1
    \<and> KVReader_get (content (st_file (KV_begin_read 0 kv))) (hstore (st_readers (KV_begin_read 0 kv)) 0) [97] = Inr (Some [1])"
proof -
  obtain tx kv H where kv: "KV_commit tx ((fresh_store [])\<lparr>st_writer := True\<rparr>) = (Inr (), kv)" "kv_inv kv H"
      "kv_map kv H = [[97] \<mapsto> [1]]" "st_version kv = 1" "hitems (st_readers kv) = []"
    using fresh_commit by blast
  then show ?thesis
    using KV_begin_read_correct [OF kv(2), of 0 "[97]"] valid_key_a(1) by auto
qed

text \<open>
  Closing a reader. \<open>end_read\<close> of an open reader succeeds (its recorded heap slot is right),
  removes exactly that reader, and keeps the invariant, so the other readers still see their maps.
\<close>

theorem KV_end_read_correct:
  assumes "kv_inv kv H" and "r \<in> set (hitems (st_readers kv))"
  shows "\<exists>kv'. KV_end_read r kv = Inr kv' \<and> kv_inv kv' H \<and> set (hitems (st_readers kv')) = set (hitems (st_readers kv)) - {r}
    \<and> kv_map kv' H = kv_map kv H"
proof -
  obtain h where "KV_end_read r kv = Inr (kv\<lparr>st_readers := h\<rparr>)" "kv_inv (kv\<lparr>st_readers := h\<rparr>) H"
      "set (hitems h) = set (hitems (st_readers kv)) - {r}"
    using end_read_inv [OF assms] by blast
  then show ?thesis
    by (intro exI [of _ "kv\<lparr>st_readers := h\<rparr>"]) (simp add: kv_map_def)
qed

lemma KV_end_read_correct_witness:
  "\<exists>kv'. KV_end_read 0 (KV_begin_read 0 (fresh_store [])) = Inr kv' \<and> hitems (st_readers kv') = []"
proof -
  have B: "kv_inv (KV_begin_read 0 (fresh_store [])) (\<lambda>v. empty_ckpt)"
      "set (hitems (st_readers (KV_begin_read 0 (fresh_store [])))) = {0}"
    using begin_read_inv(1,2) [OF fresh_store_inv(1), of 0 "[]"] by simp_all
  show ?thesis
    using KV_end_read_correct [OF B(1), of 0] B(2) by auto
qed

text \<open>The same with a reader that began before the commit.\<close>

lemma fresh_reader:
  fixes fs
  defines "kr \<equiv> KV_begin_read 0 ((fresh_store fs)\<lparr>st_writer := True\<rparr>)"
  shows "kv_inv kr (\<lambda>v. empty_ckpt)" and "0 \<in> set (hitems (st_readers kr))" and "st_version kr = 0"
    and "set (hitems (st_readers kr)) = {0}"
  using begin_read_inv [of "(fresh_store fs)\<lparr>st_writer := True\<rparr>" "\<lambda>v. empty_ckpt" 0] fresh_store_inv(1)
  by (simp_all add: kr_def)

lemma fresh_reader_commit:
  "\<exists>tx kv'. KVTX_set [] fresh_tx [97] [1] = Inr tx \<and> running (KV_begin_read 0 ((fresh_store [])\<lparr>st_writer := True\<rparr>)) tx [[97] \<mapsto> [1]]
    \<and> KV_commit tx (KV_begin_read 0 ((fresh_store [])\<lparr>st_writer := True\<rparr>)) = (Inr (), kv') \<and> st_version kv' = 1
    \<and> set (hitems (st_readers kv')) = {0}"
proof -
  let ?kv = "(fresh_store [])\<lparr>st_writer := True\<rparr>"
  let ?kr = "KV_begin_read 0 ?kv"
  note R = fresh_reader [of "[]"]
  obtain tx where tx: "KVTX_set [] fresh_tx [97] [1] = Inr tx" "running ?kv tx [[97] \<mapsto> [1]]"
    using fresh_write by blast
  have "kept ?kr \<subseteq> kept ?kv"
  proof
    fix v
    assume "v \<in> kept ?kr"
    then have "v = 0"
      using kept_ok(1) [OF R(1)] R(3) by force
    then show "v \<in> kept ?kv"
      using kept_version [of ?kv "\<lambda>v. empty_ckpt"] fresh_store_inv(1) by simp
  qed
  then have run: "running ?kr tx [[97] \<mapsto> [1]]"
    by (rule running_readers [OF tx(2)]) (simp add: KV_begin_read_def Let_def)
  obtain res kv' where c: "KV_commit tx ?kr = (res, kv')"
    by fastforce
  have "faults (st_file ?kr) = []"
    by (simp add: KV_begin_read_def Let_def)
  then have "res = Inr () \<and> st_version kv' = 1 \<and> st_readers kv' = st_readers ?kr"
    using first_commit [OF R(1) run R(3) _ c] by blast
  then show ?thesis
    using tx(1) run c R(4) by auto
qed

text \<open>
  C10: snapshot isolation. While a reader is open, a commit of any transaction, successful or failing
  at any call, does not change what the reader reads: each key has the value of the version it began
  on. Freed pages are not reused, and reused ones not overwritten, before the reader closes.
\<close>

theorem KV_snapshot_isolation:
  assumes "kv_inv kv H" and "r \<in> set (hitems (st_readers kv))" and "running kv tx m"
    and "unat (st_version kv) + 1 < 2 ^ 63" and "KV_commit tx kv = (res, kv')" and "valid_key key"
  shows "KVReader_get (content (st_file kv')) (hstore (st_readers kv') r) key
      = KVReader_get (content (st_file kv)) (hstore (st_readers kv) r) key
    \<and> r \<in> set (hitems (st_readers kv')) \<and> (\<exists>val. KVReader_get (content (st_file kv)) (hstore (st_readers kv) r) key = Inr val)"
proof -
  obtain H' where C: "kv_inv kv' H'" "st_readers kv' = st_readers kv" "\<And>v. v \<le> st_version kv \<Longrightarrow> H' v = H v"
    using commit_ok [OF assms(1,3,4,5)] unfolding commit_outcome_def by blast
  let ?v = "rd_version (hstore (st_readers kv) r)"
  have "?v \<in> kept kv"
    using assms(2) by (simp add: kept_def)
  then have "H' ?v = H ?v"
    using C(3) kept_ok(1) [OF assms(1)] by blast
  then show ?thesis
    using reader_reads [OF assms(1,2,6)] reader_reads [OF C(1) _ assms(6), of r] assms(2) C(2) by simp
qed

lemma KV_snapshot_isolation_witness:
  "\<exists>tx kv'. let kv = KV_begin_read 0 ((fresh_store [])\<lparr>st_writer := True\<rparr>) in
    KVTX_set [] fresh_tx [97] [1] = Inr tx \<and> KV_commit tx kv = (Inr (), kv') \<and> st_version kv' = 1
    \<and> KVReader_get (content (st_file kv')) (hstore (st_readers kv') 0) [97] = Inr None"
proof -
  let ?kr = "KV_begin_read 0 ((fresh_store [])\<lparr>st_writer := True\<rparr>)"
  note R = fresh_reader
  obtain tx kv' where c: "KVTX_set [] fresh_tx [97] [1] = Inr tx" "running ?kr tx [[97] \<mapsto> [1]]"
      "KV_commit tx ?kr = (Inr (), kv')" "st_version kv' = 1"
    using fresh_reader_commit by blast
  have "KVReader_get (content (st_file ?kr)) (hstore (st_readers ?kr) 0) [97] = Inr None"
    using reader_reads [OF R(1,2) valid_key_a(1)] by (simp add: empty_ckpt_def)
  then show ?thesis
    using KV_snapshot_isolation [OF R(1,2) c(2) _ c(3) valid_key_a(1)] R(3) c by (auto simp: Let_def)
qed

section \<open>Crashes\<close>

lemma opened_version: "opened kv c g \<Longrightarrow> st_version kv = m_version (ck_meta c)"
  unfolding opened_def meta_of_def by (metis Meta.select_convs(4))

text \<open>A commit of a second transaction: the store of \<open>fresh_commit\<close>, then one more key.\<close>

lemma second_write:
  "\<exists>kv H tx. kv_inv kv H \<and> kv_map kv H = [[97] \<mapsto> [1]] \<and> st_version kv = 1 \<and> st_durable kv = 1
    \<and> running kv tx [[97] \<mapsto> [1], [98] \<mapsto> [2]] \<and> faults (st_file kv) = []"
proof -
  let ?kv = "(fresh_store [])\<lparr>st_writer := True\<rparr>"
  have inv: "kv_inv ?kv (\<lambda>v. empty_ckpt)"
    using fresh_store_inv(1) by simp
  obtain tx where tx: "KVTX_set [] fresh_tx [97] [1] = Inr tx" "tx_budget fresh_tx \<le> tx_budget tx + 4"
    using set_holds [OF fresh_tx_holds valid_key_a(1), of "[1]" "[]"] fresh_tx_budget(1) [of "[]"] fresh_tx_budget(2)
    by (auto simp: BTREE_MAX_VAL_SIZE_def)
  have holds: "running ?kv tx [[97] \<mapsto> [1]]"
    using fresh_write [of "[]"] tx(1) by auto
  obtain r kv where run: "KV_commit tx ?kv = (r, kv)"
    by fastforce
  obtain H where kv: "kv_inv kv H" "kv_map kv H = [[97] \<mapsto> [1]]" "st_version kv = 1" "st_durable kv = 1" "\<not> st_writer kv"
      "st_flushed kv = 2 \<and> st_free kv = st_free (fresh_store [])
        \<or> st_flushed kv = 2 + page_append_count tx \<and> st_free kv = fl_state (free_list tx)" "faults (st_file kv) = []"
    using first_commit [OF inv holds _ _ run] by auto
  obtain tx0 kv0 where b: "KV_begin fresh_tx kv = Some (tx0, kv0)"
    using kv(5) by (auto simp: KV_begin_def Let_def)
  note R = begin_running [OF kv(1) b] and F = begin_fields [OF b]
  have flushed: "unat (st_flushed kv) \<le> tx_bound tx \<and> unat (tail_seq (st_free kv)) \<le> unat (tail_seq (fl_state (free_list tx)))"
    using kv(6)
  proof
    assume old: "st_flushed kv = 2 \<and> st_free kv = st_free (fresh_store [])"
    then show ?thesis
      using running_base(2) [OF inv holds] by (simp add: tx_bound_def) (simp add: fresh_store_def)
  next
    assume new: "st_flushed kv = 2 + page_append_count tx \<and> st_free kv = fl_state (free_list tx)"
    then show ?thesis
      using running_base(3) [OF inv holds] by simp
  qed
  have "tx_bound tx0 \<le> tx_bound tx" "tail_seq (fl_state (free_list tx0)) = tail_seq (st_free kv)"
    using flushed by (simp_all add: tx_bound_def F)
  then have "tx_avail tx \<le> tx_avail tx0" "unat (tail_seq (fl_state (free_list tx0))) \<le> unat (tail_seq (fl_state (free_list tx)))"
    using flushed by (simp_all add: tx_avail_def diff_le_mono2)
  then have "tx_budget tx \<le> tx_budget tx0"
    unfolding tx_budget_def by (intro min.mono div_le_mono diff_le_mono2)
  then have "tx_cost (content (st_file kv0)) tx0 \<le> tx_budget tx0"
    using tx(2) fresh_tx_budget_exact by (intro tx_cost_small) linarith
  then obtain tx1 where "running kv0 tx1 ((kv_map kv H)([98] \<mapsto> [2]))"
    using set_running [OF R(1), of "[98]" "[2]"] by (auto simp: valid_key_def BTREE_MAX_KEY_SIZE_def BTREE_MAX_VAL_SIZE_def)
  moreover have "kv_inv kv0 H" "kv_map kv0 H = kv_map kv H" "st_version kv0 = 1" "st_durable kv0 = 1" "faults (st_file kv0) = []"
    using R(2) kv(3,4,7) by (simp_all add: F(1) kv_map_def)
  ultimately show ?thesis
    using kv(2) by (intro exI [of _ kv0] exI [of _ H] exI [of _ tx1]) simp
qed

text \<open>
  C9: recovery after a crash. Whatever the power failure leaves of the writes since the last
  \<open>fsync\<close> (each page or part of it old or new, independently), the file opens again, and the store
  then holds one of the versions since the last durable one, complete, with its invariant. Opening
  fails only if a system call does.
\<close>

theorem KV_crash_recovery:
  assumes "kv_inv kv H" and "st_durable kv \<noteq> 0" and "crash_image 72 (st_file kv) g"
    and "KV_open (KV_new (disk g fs)) = (r, kv')"
  shows "(\<exists>e. r = Inl (Runtime_error e)) \<and> fs \<noteq> []
    \<or> r = Inr () \<and> (\<exists>v H'. st_durable kv \<le> v \<and> v \<le> st_version kv \<and> st_version kv' = v
        \<and> kv_inv kv' H' \<and> kv_map kv' H' = ck_map (H v))"
proof -
  obtain v where v: "st_durable kv \<le> v" "v \<le> st_version kv" "open_result fs r kv' (H v) g"
    using open_crashed [OF assms] by blast
  have "st_version kv' = v" if "opened kv' (H v) g"
    using opened_version [OF that] kept_ok(2) [OF assms(1) kept_durable [OF v(1,2)]] by simp
  then show ?thesis
    using v opened_map [of kv' "H v" g] unfolding open_result_def by blast
qed

lemma KV_crash_recovery_witness:
  "\<exists>(kv :: KV) g kv' H'. st_durable kv = 1 \<and> crash_image 72 (st_file kv) g \<and> KV_open (KV_new (disk g [])) = (Inr (), kv')
    \<and> kv_inv kv' H' \<and> kv_map kv' H' = [[97] \<mapsto> [1]]"
proof -
  obtain kv H where kv: "kv_inv kv H" "kv_map kv H = [[97] \<mapsto> [1]]" "st_version kv = 1" "st_durable kv = 1"
    using fresh_commit by blast
  let ?g = "content (st_file kv)"
  obtain r kv' where run: "KV_open (KV_new (disk ?g [])) = (r, kv')"
    by fastforce
  have crash: "crash_image 72 (st_file kv) ?g"
    using durable_okD(1) [OF kv_invD(8) [OF kv(1)]] by (rule crash_image_content)
  obtain v H' where "r = Inr ()" "1 \<le> v" "v \<le> 1" "kv_inv kv' H'" "kv_map kv' H' = ck_map (H v)"
    using KV_crash_recovery [OF kv(1) _ crash run] kv(3,4) by auto
  moreover from this have "v = 1"
    by simp
  ultimately have "KV_open (KV_new (disk ?g [])) = (Inr (), kv')" "kv_inv kv' H'" "kv_map kv' H' = [[97] \<mapsto> [1]]"
    using run kv(2,3) by (simp_all add: kv_map_def)
  then show ?thesis
    using kv(4) crash by blast
qed

text \<open>
  C8: commits are atomic across crashes. Let the store hold a durable version and commit a
  transaction; let the commit return or fail at any call, and the machine then crash. The reopened
  store holds the old map or the transaction's map, nothing in between; and if the commit had
  returned, it holds the transaction's map.
\<close>

theorem KV_commit_crash_atomic:
  assumes "kv_inv kv H" and "running kv tx m" and "st_version kv \<noteq> 0" and "st_durable kv = st_version kv"
    and "unat (st_version kv) + 1 < 2 ^ 63" and "KV_commit tx kv = (r, kv')"
    and "crash_image 72 (st_file kv') g" and "KV_open (KV_new (disk g [])) = (r', kv'')"
  shows "r' = Inr () \<and> (\<exists>H''. kv_inv kv'' H'' \<and> (kv_map kv'' H'' = m \<or> kv_map kv'' H'' = kv_map kv H \<and> r \<noteq> Inr ()))"
proof -
  obtain H' where C: "commit_outcome kv tx H m r kv' H'"
    using commit_ok [OF assms(1,2,5,6)] by blast
  have inv': "kv_inv kv' H'" and old: "H' (st_version kv) = H (st_version kv)"
    using C by (simp_all add: commit_outcome_def)
  have dur: "st_version kv \<le> st_durable kv'" "st_durable kv' \<noteq> 0"
  proof -
    have "st_version kv < st_version kv + 1"
      using unat_Suc64 [of "st_version kv"] assms(5) by (simp add: word_less_nat_alt)
    moreover have "st_durable kv' = st_version kv \<or> st_durable kv' = st_version kv + 1"
      using C assms(4) by (auto simp: commit_outcome_def)
    ultimately show "st_version kv \<le> st_durable kv'" "st_durable kv' \<noteq> 0"
      using assms(3) by (auto simp: word_less_nat_alt word_le_nat_alt)
  qed
  obtain v where v: "st_durable kv' \<le> v" "v \<le> st_version kv'" "open_result [] r' kv'' (H' v) g"
    using open_crashed [OF inv' dur(2) assms(7,8)] by blast
  have o: "r' = Inr ()" "opened kv'' (H' v) g"
    using v(3) by (auto simp: open_result_def)
  have "ck_map (H' v) = m \<or> ck_map (H' v) = kv_map kv H \<and> r \<noteq> Inr ()"
  proof (cases "v = st_version kv'")
    case True
    have "st_version kv' = st_version kv \<Longrightarrow> kv_map kv' H' = kv_map kv H"
      using old by (simp add: kv_map_def)
    then show ?thesis
      using C True by (cases r) (auto simp: commit_outcome_def kv_map_def)
  next
    case False
    have "st_version kv' = st_version kv \<or> st_version kv' = st_version kv + 1"
      using C by (cases r) (auto simp: commit_outcome_def)
    then have moved: "st_version kv' = st_version kv + 1" "v = st_version kv"
    proof -
      assume h: "st_version kv' = st_version kv \<or> st_version kv' = st_version kv + 1"
      have ge: "unat (st_version kv) \<le> unat v" "unat v \<le> unat (st_version kv')" "unat v \<noteq> unat (st_version kv')"
        using v(1,2) dur(1) False by (auto simp: word_le_nat_alt word_unat_eq_iff)
      then show "st_version kv' = st_version kv + 1"
        using h by auto
      then have "unat (st_version kv') = unat (st_version kv) + 1"
        using unat_Suc64 [of "st_version kv"] assms(5) by simp
      then have "unat v = unat (st_version kv)"
        using ge by linarith
      then show "v = st_version kv"
        by (simp only: word_unat_eq_iff)
    qed
    have "r \<noteq> Inr ()"
    proof
      assume "r = Inr ()"
      then have "st_durable kv' = st_version kv'"
        using C moved(1) by (auto simp: commit_outcome_def)
      then show False
        using v(1,2) False by simp
    qed
    then show ?thesis
      using moved(2) old by (simp add: kv_map_def)
  qed
  then show ?thesis
    using o opened_map [OF o(2)] by metis
qed

lemma KV_commit_crash_atomic_witness:
  "\<exists>kv tx kv' g kv'' H''. KV_commit tx kv = (Inr (), kv') \<and> crash_image 72 (st_file kv') g
    \<and> KV_open (KV_new (disk g [])) = (Inr (), kv'') \<and> kv_inv kv'' H'' \<and> kv_map kv'' H'' = [[97] \<mapsto> [1], [98] \<mapsto> [2]]"
proof -
  obtain kv H tx where kv: "kv_inv kv H" "kv_map kv H = [[97] \<mapsto> [1]]" "st_version kv = 1" "st_durable kv = 1"
      "running kv tx [[97] \<mapsto> [1], [98] \<mapsto> [2]]" "faults (st_file kv) = []"
    using second_write by blast
  obtain r kv' where run: "KV_commit tx kv = (r, kv')"
    by fastforce
  have small: "unat (st_version kv) + 1 < 2 ^ 63"
    by (simp add: kv(3))
  obtain H' where C: "commit_outcome kv tx H [[97] \<mapsto> [1], [98] \<mapsto> [2]] r kv' H'"
    using commit_ok [OF kv(1,5) small run] by blast
  have ok: "r = Inr ()"
    using C kv(6) by (cases r) (auto simp: commit_outcome_def io_step_def)
  have inv': "kv_inv kv' H'"
    using C by (simp add: commit_outcome_def)
  let ?g = "content (st_file kv')"
  have crash: "crash_image 72 (st_file kv') ?g"
    using durable_okD(1) [OF kv_invD(8) [OF inv']] by (rule crash_image_content)
  obtain r' kv'' where reopen: "KV_open (KV_new (disk ?g [])) = (r', kv'')"
    by fastforce
  have "r' = Inr () \<and> (\<exists>H''. kv_inv kv'' H'' \<and> kv_map kv'' H'' = [[97] \<mapsto> [1], [98] \<mapsto> [2]])"
    using KV_commit_crash_atomic [OF kv(1,5) _ _ small run crash reopen] kv(3,4) ok by auto
  then show ?thesis
    using run ok crash reopen by blast
qed

end
