(* ===== verification/First_Commit.thy ===== *)
theory First_Commit
  imports KV_Theorems
begin

text \<open>
  The limit of recovery: a database whose very first commit fails or is cut off after it has begun to
  write pages cannot be opened again. The pages start at offset 4096, so the file is no longer empty,
  but its first sector is a hole, and \<open>read_root\<close> takes only an empty file for a new one.
\<close>

lemma first_buffered:
  assumes inv: "kv_inv kv H" and tx: "running kv tx m" and v0: "st_version kv = 0"
  shows "\<exists>d xs. page_updates tx = (1, d) # xs \<and> length d = BTREE_PAGE_SIZE"
proof -
  have ok: "tx_ok tx"
    by (rule running_base(1) [OF inv tx])
  have sorted: "sorted_wrt (<) (map fst (page_updates tx))"
    using ok by (simp add: tx_ok_def)
  have one: "1 \<in> fst ` set (page_updates tx)"
    using running_base(5) [OF inv tx v0] by (simp add: buffered_def dom_map_of_conv_image_fst)
  obtain p d xs where P: "page_updates tx = (p, d) # xs"
    using one by (cases "page_updates tx") auto
  have len: "length d = BTREE_PAGE_SIZE"
    using tx_updates(1) [OF ok] P by (simp add: pages_ok_def)
  have "page_writes (page_updates tx) (BTREE_PAGE_SIZE * unat p) (d ! 0)"
    unfolding page_writes_def P by (auto simp: in_page_def BTREE_PAGE_SIZE_def)
  then have "p \<noteq> 0"
    using writes_far [OF inv tx] by fastforce
  moreover have "p \<le> 1"
    using one sorted by (auto simp: P)
  ultimately have "p = 1"
    by (auto simp: word_le_nat_alt word_unat_eq_iff le_Suc_eq)
  then show ?thesis
    using P len by blast
qed

lemma torn_write:
  assumes inv: "kv_inv kv H" and tx: "running kv tx m" and v0: "st_version kv = 0" and moved: "tree_root tx \<noteq> st_root kv"
    and flts: "faults (st_file kv) = [None, Some 100]" and empty: "content (st_file kv) = []" "st_mmap kv = 0"
    and run: "KV_commit tx kv = (r, kv')"
  shows "r = Inl (Runtime_error ''KV: pwritev failed'') \<and> length (content (st_file kv')) = 4196
    \<and> take 72 (content (st_file kv')) = replicate 72 0 \<and> st_version kv' = st_version kv"
proof -
  obtain d xs where P: "page_updates tx = (1, d) # xs" "length d = BTREE_PAGE_SIZE"
    using first_buffered [OF inv tx v0] by blast
  note B = running_base [OF inv tx]
  define n where "n = (st_flushed kv + page_append_count tx) * word_of_nat BTREE_PAGE_SIZE"
  have bound: "tx_bound tx \<le> 2 ^ 50" "2 \<le> tx_bound tx"
    using tx_okD(3) [OF B(1)] B(2,6) by (simp_all add: MAX_PAGES_def tx_bound_def)
  have un: "unat n = BTREE_PAGE_SIZE * tx_bound tx"
    using bound unfolding n_def unat_word_ariths(2) [of "st_flushed kv + page_append_count tx"] B(3)
    by (simp add: BTREE_PAGE_SIZE_def)
  have n62: "unat n \<le> 2 ^ 62" and pos: "\<not> n \<le> st_mmap kv"
    using bound unfolding word_le_nat_alt un empty(2) by (simp_all add: BTREE_PAGE_SIZE_def)
  have min: "unat MIN_MMAP_SIZE = 2 ^ 26"
    by (simp add: MIN_MMAP_SIZE_def push_bit_eq_mult)
  obtain a where grow: "grow_alloc 0 MIN_MMAP_SIZE n = Some a"
    using grow_alloc_ok [OF n62, of MIN_MMAP_SIZE 0] min by (auto simp: BTREE_PAGE_SIZE_def MAP_LIMIT_def)
  let ?f1 = "(st_file kv)\<lparr>faults := [Some 100]\<rparr>"
  obtain cs mm where map: "extend_mmap n kv = (Inr (), kv\<lparr>st_file := ?f1, st_chunks := cs, st_mmap := mm\<rparr>)"
  proof
    show "extend_mmap n kv = (Inr (), kv\<lparr>st_file := ?f1,
        st_chunks := st_chunks kv @ [\<lparr>chunk_data = unat (st_mmap kv), chunk_size = unat a\<rparr>], st_mmap := st_mmap kv + a\<rparr>)"
      using pos grow by (simp add: extend_mmap_def empty(2) iobind_def sys_def os_call_def next_fault_def flts max_def)
  qed
  obtain iovs rest where runs: "take_run MAX_IOVS 1 ((1, d) # xs) = (d # iovs, rest)"
    by (cases "take_run (MAX_IOVS - 1) (1 + 1) xs") (auto simp: MAX_IOVS_def)
  define w where "w = take 100 (concat (d # iovs))"
  have w: "length w = 100"
    using P(2) by (simp add: w_def BTREE_PAGE_SIZE_def)
  let ?kv1 = "kv\<lparr>st_file := ?f1, st_chunks := cs, st_mmap := mm\<rparr>"
  have "write_runs ((1, d) # xs) ?kv1 = (Inl (Runtime_error ''KV: pwritev failed''),
      ?kv1\<lparr>st_file := (put_bytes (st_file kv) 4096 w)\<lparr>faults := []\<rparr>\<rparr>)"
    using runs by (simp add: iobind_def sys_def os_write_def next_fault_def put_bytes_def w_def BTREE_PAGE_SIZE_def Let_def)
  then have "KV_commit tx kv = (Inl (Runtime_error ''KV: pwritev failed''),
      ?kv1\<lparr>st_file := (put_bytes (st_file kv) 4096 w)\<lparr>faults := []\<rparr>, st_writer := False\<rparr>)"
    using moved map by (simp add: KV_commit_def commit_locked_def write_pages_def iobind_def P(1) n_def)
  then have "r = Inl (Runtime_error ''KV: pwritev failed'')" "content (st_file kv') = overwrite [] 4096 w" "st_version kv' = st_version kv"
    using run by (simp_all add: put_bytes_def empty(1))
  moreover have "overwrite [] 4096 w = replicate 4096 0 @ w"
    using w by (auto simp: overwrite_def)
  ultimately show ?thesis
    using w by simp
qed

lemma bad_signature:
  assumes "72 \<le> length g" and "take 72 g = replicate 72 0"
  shows "fst (KV_open (KV_new (disk g []))) = Inl (Runtime_error ''KV: not a valid db file (bad signature)'')"
proof -
  have sig: "take (length DB_SIG) (take META_DATA_SIZE g) \<noteq> DB_SIG"
    unfolding meta_offsets assms(2) by (simp add: DB_SIG_bytes)
  have long: "g \<noteq> []" "\<not> length g < META_DATA_SIZE"
    using assms(1) by (auto simp: meta_offsets)
  have "root_from_meta (take META_DATA_SIZE g) kv = (Inl (Runtime_error ''KV: not a valid db file (bad signature)''), kv)" for kv
    using sig by (simp add: root_from_meta_def lift_res_def)
  with long show ?thesis
    by (simp add: KV_open_def create_file_sync_def read_root_def root_from_file_def iobind_def sys_def
        os_call_def next_fault_def KV_new_def disk_def)
qed

text \<open>
  C28: a failed first commit makes the database unreadable. On a new database whose first commit fails
  in its first \<open>pwritev\<close> (say the disk is full), the store in memory rightly still holds the empty
  map; but the file it leaves is rejected by \<open>open\<close> with "bad signature" although every call works.
\<close>

theorem KV_first_commit_unopenable:
  "\<exists>fs kv tx kv1 kv2 kv3. KV_open (KV_new (disk [] fs)) = (Inr (), kv) \<and> KV_begin fresh_tx kv = Some (fresh_tx, kv1)
    \<and> KVTX_set (content (st_file kv1)) fresh_tx [97] [1] = Inr tx
    \<and> KV_commit tx kv1 = (Inl (Runtime_error ''KV: pwritev failed''), kv2)
    \<and> (\<exists>H. kv_inv kv2 H \<and> kv_map kv2 H = Map.empty)
    \<and> KV_open (KV_new (disk (content (st_file kv2)) []))
        = (Inl (Runtime_error ''KV: not a valid db file (bad signature)''), kv3)"
proof -
  let ?fs = "[None, Some 100]"
  let ?kv1 = "(fresh_store ?fs)\<lparr>st_writer := True\<rparr>"
  obtain tx where tx: "KVTX_set [] fresh_tx [97] [1] = Inr tx" "running ?kv1 tx [[97] \<mapsto> [1]]"
    using fresh_write by blast
  have inv: "kv_inv ?kv1 (\<lambda>v. empty_ckpt)" and none: "kv_map ?kv1 (\<lambda>v. empty_ckpt) = Map.empty"
    using fresh_store_inv by (simp_all add: kv_map_def)
  have moved: "tree_root tx \<noteq> st_root ?kv1"
  proof
    assume "tree_root tx = st_root ?kv1"
    then have "[[97] \<mapsto> [1]] = (Map.empty :: bytes \<rightharpoonup> bytes)"
      using same_root [OF inv tx(2)] none by simp
    then show False
      by simp
  qed
  obtain r kv2 where run: "KV_commit tx ?kv1 = (r, kv2)"
    by fastforce
  have torn: "r = Inl (Runtime_error ''KV: pwritev failed'')" "length (content (st_file kv2)) = 4196"
      "take 72 (content (st_file kv2)) = replicate 72 0" "st_version kv2 = 0"
    using torn_write [OF inv tx(2) _ moved _ _ _ run] by simp_all
  obtain H where C: "commit_outcome ?kv1 tx (\<lambda>v. empty_ckpt) [[97] \<mapsto> [1]] r kv2 H"
    using commit_ok [OF inv tx(2) _ run] by auto
  let ?g = "content (st_file kv2)"
  obtain r3 kv3 where reopen: "KV_open (KV_new (disk ?g [])) = (r3, kv3)"
    by fastforce
  have "kv_inv kv2 H \<and> kv_map kv2 H = Map.empty"
    using C torn(4) by (simp add: commit_outcome_def kv_map_def) (simp add: empty_ckpt_def)
  moreover have "r3 = Inl (Runtime_error ''KV: not a valid db file (bad signature)'')"
    using bad_signature [OF _ torn(3)] torn(2) reopen by simp
  moreover have "KV_open (KV_new (disk [] (replicate 4 None @ ?fs))) = (Inr (), fresh_store ?fs)"
    by (rule open_fresh)
  ultimately show ?thesis
    using fresh_begin [of ?fs] tx(1) run torn(1) reopen by (intro exI conjI) auto
qed

end
