(* ===== verification/KV_Machine.thy ===== *)
theory KV_Machine
  imports KV_Theorems
begin

text \<open>
  The store as a machine: any interleaving of one write transaction at a time, readers that open and
  close, commits that return or fail, and crashes followed by a reopening. It refines a store of whole
  maps: one committed map, the map the writer sees, and for each open reader the map it began on.
\<close>

section \<open>What is promised\<close>

text \<open>
  \<open>sp_recent\<close> are the maps published since the last durable version: what a crash may fall back to.
\<close>

record store_spec =
  sp_map :: "bytes \<rightharpoonup> bytes"
  sp_recent :: "(bytes \<rightharpoonup> bytes) set"
  sp_writer :: "(bytes \<rightharpoonup> bytes) option"
  sp_readers :: "reader_id \<rightharpoonup> (bytes \<rightharpoonup> bytes)"

datatype event =
    Begins | Sets bytes bytes | Deletes bytes bool | Commits bool | Aborts
  | Reader_begins reader_id | Reader_ends reader_id | Crashes

definition spec_init :: store_spec where
  "spec_init = \<lparr>sp_map = Map.empty, sp_recent = {Map.empty}, sp_writer = None, sp_readers = Map.empty\<rparr>"

text \<open>A commit that fails may have published its map or not; only one that returns is certainly durable.\<close>

inductive spec_step :: "store_spec \<Rightarrow> event \<Rightarrow> store_spec \<Rightarrow> bool" where
  spec_begin: "sp_writer a = None \<Longrightarrow> spec_step a Begins (a\<lparr>sp_writer := Some (sp_map a)\<rparr>)"
| spec_set: "sp_writer a = Some m \<Longrightarrow> spec_step a (Sets key val) (a\<lparr>sp_writer := Some (m(key \<mapsto> val))\<rparr>)"
| spec_del: "sp_writer a = Some m \<Longrightarrow> spec_step a (Deletes key (m key \<noteq> None)) (a\<lparr>sp_writer := Some (m(key := None))\<rparr>)"
| spec_commit: "sp_writer a = Some m \<Longrightarrow> R = {m} \<or> m = sp_map a \<and> R = sp_recent a \<Longrightarrow>
    spec_step a (Commits True) (a\<lparr>sp_map := m, sp_recent := R, sp_writer := None\<rparr>)"
| spec_commit_lost: "sp_writer a = Some m \<Longrightarrow> spec_step a (Commits False) (a\<lparr>sp_writer := None\<rparr>)"
| spec_commit_unsure: "sp_writer a = Some m \<Longrightarrow>
    spec_step a (Commits False) (a\<lparr>sp_map := m, sp_recent := insert m (sp_recent a), sp_writer := None\<rparr>)"
| spec_abort: "sp_writer a = Some m \<Longrightarrow> spec_step a Aborts (a\<lparr>sp_writer := None\<rparr>)"
| spec_reader: "sp_readers a r = None \<Longrightarrow> spec_step a (Reader_begins r) (a\<lparr>sp_readers := (sp_readers a)(r \<mapsto> sp_map a)\<rparr>)"
| spec_reader_end: "sp_readers a r \<noteq> None \<Longrightarrow> spec_step a (Reader_ends r) (a\<lparr>sp_readers := (sp_readers a)(r := None)\<rparr>)"
| spec_crash: "m \<in> sp_recent a \<Longrightarrow>
    spec_step a Crashes \<lparr>sp_map = m, sp_recent = {m}, sp_writer = None, sp_readers = Map.empty\<rparr>"

section \<open>What the code does\<close>

text \<open>
  The store with the write transaction that runs, if one does. The guards are the obligations of the
  caller: keys and values within the limits, page numbers and versions in range, a new reader object,
  and at least one version made durable before a crash. A fault schedule decides which system calls fail.
\<close>

type_synonym machine = "KV \<times> KVTX option"

inductive kv_step :: "machine \<Rightarrow> event \<Rightarrow> machine \<Rightarrow> bool" where
  kv_begin: "KV_begin tx0 kv = Some (tx, kv') \<Longrightarrow> kv_step (kv, None) Begins (kv', Some tx)"
| kv_set: "valid_key key \<Longrightarrow> length val \<le> BTREE_MAX_VAL_SIZE \<Longrightarrow> tx_cost (content (st_file kv)) tx \<le> tx_budget tx \<Longrightarrow>
    KVTX_set (content (st_file kv)) tx key val = Inr tx' \<Longrightarrow> kv_step (kv, Some tx) (Sets key val) (kv, Some tx')"
| kv_del: "valid_key key \<Longrightarrow> roomy (tx_live (content (st_file kv)) tx) (tree_root tx) key \<Longrightarrow>
    tx_cost (content (st_file kv)) tx \<le> tx_budget tx \<Longrightarrow>
    KVTX_del (content (st_file kv)) tx key = Inr (found, tx') \<Longrightarrow> kv_step (kv, Some tx) (Deletes key found) (kv, Some tx')"
| kv_commit: "unat (st_version kv) + 1 < 2 ^ 63 \<Longrightarrow> KV_commit tx kv = (r, kv') \<Longrightarrow>
    kv_step (kv, Some tx) (Commits (r = Inr ())) (kv', None)"
| kv_abort: "KV_abort tx kv = (tx', kv') \<Longrightarrow> kv_step (kv, Some tx) Aborts (kv', None)"
| kv_reader: "r \<notin> set (hitems (st_readers kv)) \<Longrightarrow> kv_step (kv, w) (Reader_begins r) (KV_begin_read r kv, w)"
| kv_reader_end: "r \<in> set (hitems (st_readers kv)) \<Longrightarrow> KV_end_read r kv = Inr kv' \<Longrightarrow>
    kv_step (kv, w) (Reader_ends r) (kv', w)"
| kv_crash: "st_durable kv \<noteq> 0 \<Longrightarrow> crash_image 72 (st_file kv) g \<Longrightarrow> KV_open (KV_new (disk g fs)) = (Inr (), kv') \<Longrightarrow>
    kv_step (kv, w) Crashes (kv', None)"

text \<open>Sequences of steps.\<close>

inductive runs :: "('s \<Rightarrow> 'e \<Rightarrow> 's \<Rightarrow> bool) \<Rightarrow> 's \<Rightarrow> 'e list \<Rightarrow> 's \<Rightarrow> bool" for step where
  runs_nil: "runs step s [] s"
| runs_cons: "step s e s' \<Longrightarrow> runs step s' es s'' \<Longrightarrow> runs step s (e # es) s''"

inductive_simps runs_Nil [simp]: "runs step s [] s'"

inductive_simps runs_Cons [simp]: "runs step s (e # es) s''"

inductive_cases spec_beginE: "spec_step a Begins a'"

inductive_cases spec_setE: "spec_step a (Sets key val) a'"

inductive_cases spec_commitE: "spec_step a (Commits True) a'"

inductive_cases spec_readerE: "spec_step a (Reader_begins r) a'"

section \<open>The relation\<close>

definition recent :: "KV \<Rightarrow> (u64 \<Rightarrow> ckpt) \<Rightarrow> (bytes \<rightharpoonup> bytes) set" where
  "recent kv H = (\<lambda>v. ck_map (H v)) ` {v. st_durable kv \<le> v \<and> v \<le> st_version kv}"

definition reader_maps :: "KV \<Rightarrow> (u64 \<Rightarrow> ckpt) \<Rightarrow> reader_id \<rightharpoonup> (bytes \<rightharpoonup> bytes)" where
  "reader_maps kv H = (\<lambda>r. if r \<in> set (hitems (st_readers kv)) then Some (ck_map (H (rd_version (hstore (st_readers kv) r)))) else None)"

definition spec_of :: "KV \<Rightarrow> (u64 \<Rightarrow> ckpt) \<Rightarrow> (bytes \<rightharpoonup> bytes) option \<Rightarrow> store_spec" where
  "spec_of kv H w = \<lparr>sp_map = kv_map kv H, sp_recent = recent kv H, sp_writer = w, sp_readers = reader_maps kv H\<rparr>"

definition refines :: "machine \<Rightarrow> store_spec \<Rightarrow> bool" where
  "refines c a \<longleftrightarrow> (\<exists>H w. kv_inv (fst c) H \<and> a = spec_of (fst c) H w
     \<and> (case snd c of None \<Rightarrow> \<not> st_writer (fst c) \<and> w = None | Some tx \<Rightarrow> \<exists>m. running (fst c) tx m \<and> w = Some m))"

lemma refinesE:
  assumes "refines (kv, w) a"
  obtains H w' where "kv_inv kv H" and "a = spec_of kv H w'"
    and "case w of None \<Rightarrow> \<not> st_writer kv \<and> w' = None | Some tx \<Rightarrow> \<exists>m. running kv tx m \<and> w' = Some m"
  using assms unfolding refines_def fst_conv snd_conv by blast

lemma refinesI:
  assumes "kv_inv kv H"
    and "case w of None \<Rightarrow> \<not> st_writer kv \<and> w' = None | Some tx \<Rightarrow> \<exists>m. running kv tx m \<and> w' = Some m"
  shows "refines (kv, w) (spec_of kv H w')"
  using assms unfolding refines_def fst_conv snd_conv by blast

lemma refines_idle: "refines (kv, None) a \<longleftrightarrow> (\<exists>H. kv_inv kv H \<and> a = spec_of kv H None \<and> \<not> st_writer kv)"
  by (auto simp: refines_def)

lemma refines_running: "refines (kv, Some tx) a \<longleftrightarrow> (\<exists>H m. kv_inv kv H \<and> a = spec_of kv H (Some m) \<and> running kv tx m)"
  by (auto simp: refines_def)

lemma spec_of_fields [simp]:
  "sp_map (spec_of kv H w) = kv_map kv H" "sp_recent (spec_of kv H w) = recent kv H" "sp_writer (spec_of kv H w) = w"
  "sp_readers (spec_of kv H w) = reader_maps kv H"
  "(spec_of kv H w)\<lparr>sp_writer := w'\<rparr> = spec_of kv H w'"
  by (simp_all add: spec_of_def)

lemma spec_of_writer [simp]: "spec_of (kv\<lparr>st_writer := b\<rparr>) H w = spec_of kv H w"
  by (simp add: spec_of_def kv_map_def recent_def reader_maps_def cong: if_cong)

section \<open>The simulation\<close>

lemma commit_writer: "KV_commit tx kv = (r, kv') \<Longrightarrow> \<not> st_writer kv'"
  by (auto simp: KV_commit_def split: prod.splits)

lemma next_version:
  fixes v :: u64
  assumes "unat v + 1 < 2 ^ 63"
  shows "u \<le> v + 1 \<longleftrightarrow> u \<le> v \<or> u = v + 1" and "\<not> v + 1 \<le> v"
proof -
  have "unat (v + 1) = unat v + 1"
    using unat_Suc64 [of v] assms by simp
  then show "u \<le> v + 1 \<longleftrightarrow> u \<le> v \<or> u = v + 1" "\<not> v + 1 \<le> v"
    by (auto simp: word_le_nat_alt word_unat_eq_iff)
qed

lemma commit_refines:
  assumes inv: "kv_inv kv H" and tx: "running kv tx m" and small: "unat (st_version kv) + 1 < 2 ^ 63"
    and run: "KV_commit tx kv = (r, kv')"
  shows "\<exists>a. spec_step (spec_of kv H (Some m)) (Commits (r = Inr ())) a \<and> refines (kv', None) a"
proof -
  obtain H' where C: "commit_outcome kv tx H m r kv' H'"
    using commit_ok [OF inv tx small run] by blast
  have inv': "kv_inv kv' H'" and old: "\<And>v. v \<le> st_version kv \<Longrightarrow> H' v = H v" and readers: "st_readers kv' = st_readers kv"
    using C by (simp_all add: commit_outcome_def)
  have "H' (rd_version (hstore (st_readers kv) q)) = H (rd_version (hstore (st_readers kv) q))"
    if "q \<in> set (hitems (st_readers kv))" for q
    using that kept_ok(1) [OF inv] by (intro old) (auto simp: kept_def)
  then have same_readers: "reader_maps kv' H' = reader_maps kv H"
    by (auto simp: reader_maps_def readers)
  let ?a = "spec_of kv H (Some m)" and ?a' = "spec_of kv' H' None"
  have stay: "kv_map kv' H' = kv_map kv H \<and> recent kv' H' = recent kv H"
    if "st_version kv' = st_version kv" "st_durable kv' = st_durable kv"
    using old that by (auto simp: kv_map_def recent_def)
  have dur: "st_durable kv \<le> st_version kv"
    using kv_invD(2) [OF inv] .
  note nv = next_version [OF small]
  have "spec_step ?a (Commits (r = Inr ())) ?a'"
  proof (cases r)
    case (Inl e)
    then have d: "st_durable kv' = st_durable kv"
        and or: "st_version kv' = st_version kv \<or> st_version kv' = st_version kv + 1 \<and> kv_map kv' H' = m"
      using C by (simp_all add: commit_outcome_def)
    show ?thesis
      using or
    proof
      assume "st_version kv' = st_version kv"
      then have "?a' = ?a\<lparr>sp_writer := None\<rparr>"
        using stay d same_readers by (simp add: spec_of_def)
      then show ?thesis
        using spec_commit_lost [of ?a m] Inl by simp
    next
      assume new: "st_version kv' = st_version kv + 1 \<and> kv_map kv' H' = m"
      have "{v. st_durable kv' \<le> v \<and> v \<le> st_version kv'} = insert (st_version kv') {v. st_durable kv \<le> v \<and> v \<le> st_version kv}"
        using new dur d nv(1) kv_invD(2) [OF inv'] by auto
      moreover have "ck_map (H' (st_version kv')) = m"
        using new unfolding kv_map_def by (rule conjunct2)
      moreover have "(\<lambda>v. ck_map (H' v)) ` {v. st_durable kv \<le> v \<and> v \<le> st_version kv} = recent kv H"
        unfolding recent_def using old by (intro image_cong) auto
      ultimately have "recent kv' H' = insert m (recent kv H)"
        by (simp add: recent_def)
      then have "?a' = ?a\<lparr>sp_map := m, sp_recent := insert m (sp_recent ?a), sp_writer := None\<rparr>"
        using new same_readers by (simp add: spec_of_def)
      then show ?thesis
        using spec_commit_unsure [of ?a m] Inl by simp
    qed
  next
    case (Inr u)
    then have map: "kv_map kv' H' = m"
        and or: "st_version kv' = st_version kv \<or> st_version kv' = st_version kv + 1 \<and> st_durable kv' = st_version kv'"
      using C by (simp_all add: commit_outcome_def)
    have R: "recent kv' H' = {m} \<or> m = kv_map kv H \<and> recent kv' H' = recent kv H"
      using or
    proof
      assume v: "st_version kv' = st_version kv"
      then have "st_durable kv' = st_durable kv"
        using C nv(2) by (auto simp: commit_outcome_def)
      then show ?thesis
        using stay v map by auto
    next
      assume "st_version kv' = st_version kv + 1 \<and> st_durable kv' = st_version kv'"
      then have "{v. st_durable kv' \<le> v \<and> v \<le> st_version kv'} = {st_version kv'}"
        by auto
      then show ?thesis
        using map by (simp add: recent_def kv_map_def)
    qed
    have "?a' = ?a\<lparr>sp_map := m, sp_recent := recent kv' H', sp_writer := None\<rparr>"
      using map same_readers by (simp add: spec_of_def)
    then show ?thesis
      using spec_commit [of ?a m "recent kv' H'"] R Inr by simp
  qed
  then show ?thesis
    using inv' commit_writer [OF run] by (auto simp: refines_idle)
qed

lemma reader_refines:
  assumes inv: "kv_inv kv H" and r: "r \<notin> set (hitems (st_readers kv))"
  shows "spec_step (spec_of kv H w) (Reader_begins r) (spec_of (KV_begin_read r kv) H w)"
    and "running kv tx m \<Longrightarrow> running (KV_begin_read r kv) tx m"
proof -
  let ?kv = "KV_begin_read r kv"
  note B = begin_read_inv [OF inv r]
  have fields: "\<exists>h. ?kv = kv\<lparr>st_readers := h\<rparr>"
    by (auto simp: KV_begin_read_def Let_def)
  then have same: "st_version ?kv = st_version kv" "st_durable ?kv = st_durable kv"
    by auto
  have "reader_maps ?kv H = (reader_maps kv H)(r \<mapsto> kv_map kv H)"
    using B(2,3,5) by (auto simp: reader_maps_def kv_map_def fun_eq_iff)
  then have "spec_of ?kv H w = (spec_of kv H w)\<lparr>sp_readers := (sp_readers (spec_of kv H w))(r \<mapsto> sp_map (spec_of kv H w))\<rparr>"
    using same by (simp add: spec_of_def kv_map_def recent_def)
  then show "spec_step (spec_of kv H w) (Reader_begins r) (spec_of ?kv H w)"
    using spec_reader [of "spec_of kv H w" r] r by (simp add: reader_maps_def)
  have "kept ?kv \<subseteq> kept kv"
    using B(2,3,5) same kept_version [OF inv] by (auto simp: kept_def)
  then show "running ?kv tx m" if "running kv tx m"
    using running_readers [OF that] fields by blast
qed

lemma reader_end_refines:
  assumes inv: "kv_inv kv H" and r: "r \<in> set (hitems (st_readers kv))" and run: "KV_end_read r kv = Inr kv'"
  shows "spec_step (spec_of kv H w) (Reader_ends r) (spec_of kv' H w)" and "kv_inv kv' H" and "st_writer kv' = st_writer kv"
    and "running kv tx m \<Longrightarrow> running kv' tx m"
proof -
  obtain h where h: "kv' = kv\<lparr>st_readers := h\<rparr>" "kv_inv kv' H" "set (hitems h) = set (hitems (st_readers kv)) - {r}"
      "\<forall>q. rd_version (hstore h q) = rd_version (hstore (st_readers kv) q)"
    using end_read_inv [OF inv r] run by auto
  then show "kv_inv kv' H" "st_writer kv' = st_writer kv"
    by simp_all
  have "reader_maps kv' H = (reader_maps kv H)(r := None)"
    using h(3,4) by (auto simp: reader_maps_def h(1) fun_eq_iff)
  then have "spec_of kv' H w = (spec_of kv H w)\<lparr>sp_readers := (sp_readers (spec_of kv H w))(r := None)\<rparr>"
    by (simp add: spec_of_def kv_map_def recent_def h(1))
  then show "spec_step (spec_of kv H w) (Reader_ends r) (spec_of kv' H w)"
    using spec_reader_end [of "spec_of kv H w" r] r by (simp add: reader_maps_def)
  have "kept kv' \<subseteq> kept kv"
    using h(3,4) by (auto simp: kept_def h(1))
  then show "running kv' tx m" if "running kv tx m"
    using running_readers [OF that] h(1) by blast
qed

lemma crash_refines:
  assumes inv: "kv_inv kv H" and dur: "st_durable kv \<noteq> 0" and crash: "crash_image 72 (st_file kv) g"
    and run: "KV_open (KV_new (disk g fs)) = (Inr (), kv')"
  shows "\<exists>a. spec_step (spec_of kv H w) Crashes a \<and> refines (kv', None) a"
proof -
  obtain v where v: "st_durable kv \<le> v" "v \<le> st_version kv" "open_result fs (Inr ()) kv' (H v) g"
    using open_crashed [OF inv dur crash run] by blast
  then have o: "opened kv' (H v) g"
    by (simp add: open_result_def)
  let ?a = "spec_of kv' (\<lambda>u. H v) None"
  have "?a = \<lparr>sp_map = ck_map (H v), sp_recent = {ck_map (H v)}, sp_writer = None, sp_readers = Map.empty\<rparr>"
    using o by (auto simp: spec_of_def opened_def kv_map_def recent_def reader_maps_def)
  moreover have "ck_map (H v) \<in> recent kv H"
    using v(1,2) by (auto simp: recent_def)
  ultimately have "spec_step (spec_of kv H w) Crashes ?a"
    using spec_crash [of "ck_map (H v)" "spec_of kv H w"] by simp
  moreover have "refines (kv', None) ?a"
    using o unfolding refines_idle opened_def by blast
  ultimately show ?thesis
    by blast
qed

lemma step_refines:
  assumes "kv_step c e c'" and "refines c a"
  shows "\<exists>a'. spec_step a e a' \<and> refines c' a'"
  using assms
proof (cases rule: kv_step.cases)
  case (kv_begin tx0 kv tx kv')
  obtain H where H: "kv_inv kv H" "a = spec_of kv H None"
    using assms(2) kv_begin(1) by (auto simp: refines_idle)
  note B = begin_running [OF H(1) kv_begin(4)]
  have "spec_of kv' H (Some (kv_map kv H)) = a\<lparr>sp_writer := Some (sp_map a)\<rparr>"
    by (simp add: H(2) begin_fields(1) [OF kv_begin(4)])
  then have "spec_step a Begins (spec_of kv' H (Some (kv_map kv H)))"
    using spec_begin [of a] H(2) by simp
  then show ?thesis
    using B kv_begin(2,3) refines_running by blast
next
  case (kv_set key val kv tx tx')
  obtain H m where H: "kv_inv kv H" "a = spec_of kv H (Some m)" "running kv tx m"
    using assms(2) kv_set(1) by (auto simp: refines_running)
  have "running kv tx' (m(key \<mapsto> val))"
    using set_running [OF H(3) kv_set(4-6)] kv_set(7) by auto
  then show ?thesis
    using spec_set [of a m key val] H kv_set(2,3) refines_running [of kv tx'] by auto
next
  case (kv_del key kv tx found tx')
  obtain H m where H: "kv_inv kv H" "a = spec_of kv H (Some m)" "running kv tx m"
    using assms(2) kv_del(1) by (auto simp: refines_running)
  have "running kv tx' (m(key := None))" "found = (m key \<noteq> None)"
    using del_running_roomy [OF H(3) kv_del(4-6)] kv_del(7) by auto
  then show ?thesis
    using spec_del [of a m key] H kv_del(2,3) refines_running [of kv tx'] by auto
next
  case (kv_commit kv tx r kv')
  then show ?thesis
    using assms(2) commit_refines by (auto simp: refines_running)
next
  case (kv_abort tx kv tx' kv')
  obtain H m where H: "kv_inv kv H" "a = spec_of kv H (Some m)"
    using assms(2) kv_abort(1) by (auto simp: refines_running)
  have kv': "kv' = kv\<lparr>st_writer := False\<rparr>"
    using kv_abort(4) by (simp add: KV_abort_def)
  have "spec_of kv' H None = a\<lparr>sp_writer := None\<rparr>"
    by (simp add: H(2) kv')
  then show ?thesis
    using spec_abort [of a m] H kv_abort(2,3) kv' by (auto simp: refines_idle)
next
  case (kv_reader r kv w)
  obtain H w' where H: "kv_inv kv H" "a = spec_of kv H w'"
      "case w of None \<Rightarrow> \<not> st_writer kv \<and> w' = None | Some tx \<Rightarrow> \<exists>m. running kv tx m \<and> w' = Some m"
    using assms(2) unfolding kv_reader(1) by (rule refinesE)
  have "st_writer (KV_begin_read r kv) = st_writer kv"
    by (simp add: KV_begin_read_def Let_def)
  then have "refines (KV_begin_read r kv, w) (spec_of (KV_begin_read r kv) H w')"
    using begin_read_inv(1) [OF H(1) kv_reader(4)] reader_refines(2) [OF H(1) kv_reader(4)] H(3)
    by (intro refinesI) (auto split: option.splits)
  then show ?thesis
    using reader_refines(1) [OF H(1) kv_reader(4)] H(2) kv_reader(2,3) by blast
next
  case (kv_reader_end r kv kv' w)
  obtain H w' where H: "kv_inv kv H" "a = spec_of kv H w'"
      "case w of None \<Rightarrow> \<not> st_writer kv \<and> w' = None | Some tx \<Rightarrow> \<exists>m. running kv tx m \<and> w' = Some m"
    using assms(2) unfolding kv_reader_end(1) by (rule refinesE)
  note R = reader_end_refines [OF H(1) kv_reader_end(4,5)]
  have "refines (kv', w) (spec_of kv' H w')"
    using R(2-4) H(3) by (intro refinesI) (auto split: option.splits)
  then show ?thesis
    using R(1) H(2) kv_reader_end(2,3) by blast
next
  case (kv_crash kv g fs kv' w)
  then show ?thesis
    using assms(2) crash_refines by (auto simp: refines_def)
qed

lemma runs_refine:
  "runs kv_step c es c' \<Longrightarrow> refines c a \<Longrightarrow> \<exists>a'. runs spec_step a es a' \<and> refines c' a'"
proof (induction arbitrary: a rule: runs.induct)
  case (runs_cons c e c' es c'')
  then show ?case
    using step_refines [of c e c' a] by (simp add: runs.runs_cons) (meson runs.runs_cons)
qed (auto intro: runs_nil)

section \<open>The property\<close>

lemma open_refines: "KV_open (KV_new (disk [] fs)) = (Inr (), kv) \<Longrightarrow> refines (kv, None) spec_init"
proof -
  assume "KV_open (KV_new (disk [] fs)) = (Inr (), kv)"
  then have o: "opened kv empty_ckpt []"
    using open_new unfolding open_result_def by blast
  then have "{v. st_durable kv \<le> v \<and> v \<le> st_version kv} = {st_version kv}"
    by (auto simp: opened_def)
  then have "recent kv (\<lambda>v. empty_ckpt) = {Map.empty}"
    by (simp add: recent_def empty_ckpt_def)
  then have "spec_of kv (\<lambda>v. empty_ckpt) None = spec_init"
    using o by (simp add: spec_of_def spec_init_def opened_def kv_map_def reader_maps_def) (simp add: empty_ckpt_def)
  then show ?thesis
    using o unfolding refines_idle opened_def by metis
qed

text \<open>What a client can see of a state: which readers are open, and what every \<open>get\<close> returns.\<close>

definition agrees :: "machine \<Rightarrow> store_spec \<Rightarrow> bool" where
  "agrees c a \<longleftrightarrow>
     (\<forall>r. r \<in> set (hitems (st_readers (fst c))) \<longleftrightarrow> sp_readers a r \<noteq> None)
     \<and> (\<forall>r m key. sp_readers a r = Some m \<longrightarrow> valid_key key \<longrightarrow>
          KVReader_get (content (st_file (fst c))) (hstore (st_readers (fst c)) r) key = Inr (m key))
     \<and> (case snd c of None \<Rightarrow> sp_writer a = None
        | Some tx \<Rightarrow> \<exists>m. sp_writer a = Some m
            \<and> (\<forall>key. valid_key key \<longrightarrow> KVTX_get (content (st_file (fst c))) tx key = Inr (m key)))"

lemma refines_agrees:
  assumes "refines c a"
  shows "agrees c a"
proof -
  obtain kv w where c: "c = (kv, w)"
    by fastforce
  obtain H w' where H: "kv_inv kv H" "a = spec_of kv H w'"
      "case w of None \<Rightarrow> \<not> st_writer kv \<and> w' = None | Some tx \<Rightarrow> \<exists>m. running kv tx m \<and> w' = Some m"
    using assms unfolding c by (rule refinesE)
  have "KVReader_get (content (st_file kv)) (hstore (st_readers kv) r) key = Inr (m key)"
    if "reader_maps kv H r = Some m" "valid_key key" for r m key
    using that reader_reads [OF H(1)] by (auto simp: reader_maps_def split: if_splits)
  moreover have "KVTX_get (content (st_file kv)) tx key = Inr (m key)" if "running kv tx m" "valid_key key" for tx m key
    using that get_holds by (auto simp: running_def)
  moreover have "r \<in> set (hitems (st_readers kv)) \<longleftrightarrow> reader_maps kv H r \<noteq> None" for r
    by (simp add: reader_maps_def)
  ultimately show ?thesis
    using H(3) unfolding agrees_def c H(2) by (auto split: option.splits)
qed

text \<open>
  C6: the store refines a store of whole maps. Whatever sequence of operations runs on a new store,
  with readers and write transactions interleaved, system calls failing and power failing in between,
  the same sequence is one of the specification, and every read in the state reached returns what the
  specification says: a reader the map it began on, the writer its own writes over the committed map.
\<close>

theorem store_refines_spec:
  assumes "KV_open (KV_new (disk [] fs)) = (Inr (), kv)" and "runs kv_step (kv, None) es c"
  shows "\<exists>a. runs spec_step spec_init es a \<and> agrees c a"
  using runs_refine [OF assms(2) open_refines [OF assms(1)]] refines_agrees by blast

text \<open>A write transaction with one reader begun before its commit and one after.\<close>

theorem store_refines_spec_witness:
  "\<exists>kv kv' w. runs kv_step (kv, None) [Begins, Sets [97] [1], Reader_begins 0, Commits True, Reader_begins 1] (kv', w)
     \<and> KVReader_get (content (st_file kv')) (hstore (st_readers kv') 0) [97] = Inr None
     \<and> KVReader_get (content (st_file kv')) (hstore (st_readers kv') 1) [97] = Inr (Some [1])"
proof -
  have new: "KV_open (KV_new (disk [] [None, None, None, None])) = (Inr (), fresh_store [])"
    using open_fresh [of "[]"] by (simp add: eval_nat_numeral)
  let ?es = "[Begins, Sets [97] [1], Reader_begins 0, Commits True, Reader_begins 1]"
  let ?kv = "(fresh_store [])\<lparr>st_writer := True\<rparr>"
  obtain tx kv' where c: "KVTX_set [] fresh_tx [97] [1] = Inr tx" "KV_commit tx (KV_begin_read 0 ?kv) = (Inr (), kv')"
      "set (hitems (st_readers kv')) = {0}"
    using fresh_reader_commit by blast
  have steps: "kv_step (fresh_store [], None) Begins (?kv, Some fresh_tx)"
      "kv_step (?kv, Some fresh_tx) (Sets [97] [1]) (?kv, Some tx)"
      "kv_step (?kv, Some tx) (Reader_begins 0) (KV_begin_read 0 ?kv, Some tx)"
      "kv_step (KV_begin_read 0 ?kv, Some tx) (Commits True) (kv', None)"
      "kv_step (kv', None) (Reader_begins 1) (KV_begin_read 1 kv', None)"
    using kv_begin [OF fresh_begin] kv_set [of "[97]" "[1]" ?kv fresh_tx tx] kv_reader [of 0 ?kv "Some tx"]
      kv_commit [of "KV_begin_read 0 ?kv" tx "Inr ()" kv'] kv_reader [of 1 kv' None]
      valid_key_a(1) fresh_tx_budget(1) [of "[]"] fresh_tx_budget(2) fresh_reader(3) [of "[]"] c by (simp_all add: BTREE_MAX_VAL_SIZE_def)
  then have run: "runs kv_step (fresh_store [], None) ?es (KV_begin_read 1 kv', None)"
    by (intro runs_cons) (auto intro: runs_nil)
  obtain a where a: "runs spec_step spec_init ?es a" "agrees (KV_begin_read 1 kv', None) a"
    using store_refines_spec [OF new run] by blast
  obtain a1 a2 a3 a4 where a': "spec_step spec_init Begins a1" "spec_step a1 (Sets [97] [1]) a2"
      "spec_step a2 (Reader_begins 0) a3" "spec_step a3 (Commits True) a4" "spec_step a4 (Reader_begins 1) a"
    using a(1) unfolding runs_Cons runs_Nil by blast
  have "sp_writer a1 = Some Map.empty" "sp_map a1 = Map.empty" "sp_readers a1 = Map.empty"
    using a'(1) by (rule spec_beginE; simp add: spec_init_def)+
  with a'(2) have "sp_writer a2 = Some [[97] \<mapsto> [1]]" "sp_map a2 = Map.empty" "sp_readers a2 = Map.empty"
    by (auto elim: spec_setE)
  with a'(3) have "sp_writer a3 = Some [[97] \<mapsto> [1]]" "sp_readers a3 = [0 \<mapsto> Map.empty]"
    by (auto elim: spec_readerE)
  with a'(4) have "sp_map a4 = [[97] \<mapsto> [1]]" "sp_readers a4 = [0 \<mapsto> Map.empty]"
    by (auto elim: spec_commitE)
  with a'(5) have ends: "sp_readers a 0 = Some Map.empty \<and> sp_readers a 1 = Some [[97] \<mapsto> [1]]"
    by (auto elim: spec_readerE)
  let ?kr = "KV_begin_read 1 kv'"
  have "KVReader_get (content (st_file ?kr)) (hstore (st_readers ?kr) r) [97] = Inr (m [97])" if "sp_readers a r = Some m" for r m
    using a(2) that valid_key_a(1) unfolding agrees_def fst_conv by blast
  from this [of 0] this [of 1] ends run show ?thesis
    by (intro exI [of _ "fresh_store []"] exI [of _ ?kr] exI [of _ None]) (simp del: runs_Cons)
qed

end
