(* ===== verification/Values.thy ===== *)
theory Values
  imports Prelude
begin

text \<open>
  Column values, rows and table definitions: \<open>catalog/value\<close>, \<open>catalog/record\<close> and the structures of
  \<open>catalog/tabledef\<close> with their builder. A \<open>Value\<close> is a tagged union whose unused fields keep their
  default, so the program's equality \<open>Value_eq\<close> is coarser than equality of the records.
\<close>

section \<open>Value\<close>

datatype ValueType = ERROR | INT_64 | BYTES

record Value =
  vtype :: ValueType
  int64 :: u64
  vstr :: bytes

definition default_Value :: Value where
  "default_Value = \<lparr>vtype = ERROR, int64 = 0, vstr = []\<rparr>"

definition make_int64 :: "u64 \<Rightarrow> Value" where
  "make_int64 v = default_Value\<lparr>vtype := INT_64, int64 := v\<rparr>"

definition make_bytes :: "bytes \<Rightarrow> Value" where
  "make_bytes v = default_Value\<lparr>vtype := BYTES, vstr := v\<rparr>"

definition Value_eq :: "Value \<Rightarrow> Value \<Rightarrow> bool" where
  "Value_eq a b =
     (if vtype a \<noteq> vtype b then False
      else case vtype a of
        INT_64 \<Rightarrow> int64 a = int64 b
      | BYTES \<Rightarrow> vstr a = vstr b
      | ERROR \<Rightarrow> True)"

text \<open>The order the encodings preserve: signed integers, byte strings lexicographically.\<close>

definition Value_lt :: "Value \<Rightarrow> Value \<Rightarrow> bool" where
  "Value_lt a b =
     (case vtype a of
        INT_64 \<Rightarrow> sint (int64 a) < sint (int64 b)
      | BYTES \<Rightarrow> vstr a < vstr b
      | ERROR \<Rightarrow> False)"

fun Values_lt :: "Value list \<Rightarrow> Value list \<Rightarrow> bool" where
  "Values_lt [] ws = (ws \<noteq> [])"
| "Values_lt (v # vs) [] = False"
| "Values_lt (v # vs) (w # ws) = (Value_lt v w \<or> Value_eq v w \<and> Values_lt vs ws)"

lemma Value_eq_refl [simp]: "Value_eq v v"
  by (cases "vtype v") (simp_all add: Value_eq_def)

lemma Value_eq_sym: "Value_eq a b \<Longrightarrow> Value_eq b a"
  by (auto simp: Value_eq_def split: if_splits ValueType.splits)

lemma Value_eq_trans: "Value_eq a b \<Longrightarrow> Value_eq b c \<Longrightarrow> Value_eq a c"
  by (auto simp: Value_eq_def split: if_splits ValueType.splits)

lemma Value_eq_vtype: "Value_eq a b \<Longrightarrow> vtype a = vtype b"
  by (auto simp: Value_eq_def split: if_splits)

lemma vtype_make [simp]: "vtype (make_int64 v) = INT_64" "vtype (make_bytes s) = BYTES"
  by (simp_all add: make_int64_def make_bytes_def)

lemma fields_make [simp]: "int64 (make_int64 v) = v" "vstr (make_bytes s) = s"
  by (simp_all add: make_int64_def make_bytes_def)

lemma Value_lt_linear:
  assumes "vtype a = vtype b" and "vtype a \<noteq> ERROR"
  shows "Value_lt a b \<or> Value_eq a b \<or> Value_lt b a"
  using assms
  by (cases "vtype a") (auto simp: Value_lt_def Value_eq_def signed_word_eqI)

lemma Value_lt_irrefl: "Value_eq a b \<Longrightarrow> \<not> Value_lt a b"
  by (cases "vtype a") (auto simp: Value_lt_def Value_eq_def split: if_splits)

section \<open>Record\<close>

text \<open>
  \<open>Record::get\<close> walks \<open>cols\<close> and returns the value at the same position. The two vectors are
  parallel in every record the code builds; a column without a value (an out-of-range read in C++)
  is answered like an absent column.
\<close>

record Record =
  rec_cols :: "bytes list"
  rec_vals :: "Value list"

definition empty_Record :: Record where
  "empty_Record = \<lparr>rec_cols = [], rec_vals = []\<rparr>"

definition add_str :: "Record \<Rightarrow> bytes \<Rightarrow> bytes \<Rightarrow> Record" where
  "add_str r col v =
     r\<lparr>rec_cols := rec_cols r @ [col], rec_vals := rec_vals r @ [make_bytes v]\<rparr>"

definition add_int64 :: "Record \<Rightarrow> bytes \<Rightarrow> u64 \<Rightarrow> Record" where
  "add_int64 r col v =
     r\<lparr>rec_cols := rec_cols r @ [col], rec_vals := rec_vals r @ [make_int64 v]\<rparr>"

fun get_from :: "bytes list \<Rightarrow> Value list \<Rightarrow> bytes \<Rightarrow> Value option" where
  "get_from (c # cs) (v # vs) col = (if c = col then Some v else get_from cs vs col)"
| "get_from _ _ col = None"

definition Record_get :: "Record \<Rightarrow> bytes \<Rightarrow> Value option" where
  "Record_get r col = get_from (rec_cols r) (rec_vals r) col"

lemma get_from_map_of: "get_from cs vs col = map_of (zip cs vs) col"
  by (induction cs vs col rule: get_from.induct) auto

lemma get_from_append:
  "length cs = length vs \<Longrightarrow>
   get_from (cs @ cs') (vs @ vs') k =
     (case get_from cs vs k of Some v \<Rightarrow> Some v | None \<Rightarrow> get_from cs' vs' k)"
  by (induction cs vs rule: list_induct2) auto

definition Record_ok :: "Record \<Rightarrow> bool" where
  "Record_ok r \<longleftrightarrow> length (rec_cols r) = length (rec_vals r)"

lemma Record_ok_add [simp]:
  "Record_ok (add_str r c s) = Record_ok r"
  "Record_ok (add_int64 r c n) = Record_ok r"
  by (simp_all add: Record_ok_def add_str_def add_int64_def)

lemma Record_get_add_str:
  assumes "Record_ok r"
  shows "Record_get (add_str r c s) k =
    (case Record_get r k of Some v \<Rightarrow> Some v | None \<Rightarrow> if k = c then Some (make_bytes s) else None)"
  using assms
  by (simp add: Record_get_def Record_ok_def add_str_def get_from_append split: option.splits)

lemma Record_get_add_int64:
  assumes "Record_ok r"
  shows "Record_get (add_int64 r c n) k =
    (case Record_get r k of Some v \<Rightarrow> Some v | None \<Rightarrow> if k = c then Some (make_int64 n) else None)"
  using assms
  by (simp add: Record_get_def Record_ok_def add_int64_def get_from_append split: option.splits)

section \<open>TableDef and its builder\<close>

record TableDef =
  tname :: bytes
  types :: "ValueType list"
  tcols :: "bytes list"
  pkeys :: int
  indexes :: "bytes list list"
  prefix :: u32
  index_prefixes :: "u32 list"

definition TableDefBuilder :: "bytes \<Rightarrow> TableDef" where
  "TableDefBuilder name = \<lparr>tname = name, types = [], tcols = [], pkeys = 0, indexes = [],
     prefix = 0, index_prefixes = []\<rparr>"

definition add_col :: "TableDef \<Rightarrow> bytes \<Rightarrow> ValueType \<Rightarrow> TableDef" where
  "add_col d name type = d\<lparr>tcols := tcols d @ [name], types := types d @ [type]\<rparr>"

definition set_pkeys :: "TableDef \<Rightarrow> int \<Rightarrow> TableDef" where
  "set_pkeys d n = d\<lparr>pkeys := n\<rparr>"

definition add_index :: "TableDef \<Rightarrow> bytes list \<Rightarrow> TableDef" where
  "add_index d cols = d\<lparr>indexes := indexes d @ [cols]\<rparr>"

definition set_prefix :: "TableDef \<Rightarrow> u32 \<Rightarrow> TableDef" where
  "set_prefix d p = d\<lparr>prefix := p\<rparr>"

lemmas builder_defs = TableDefBuilder_def add_col_def set_pkeys_def add_index_def set_prefix_def

end
