(* ===== verification/Schema.thy ===== *)
theory Schema
  imports Values
begin

text \<open>
  Schema validation of \<open>catalog/catalog\<close>: looking columns up, normalising the columns of a secondary
  index, and checking a table definition. A function that returns false with \<open>*err\<close> set returns the
  error text as the left summand.
\<close>

section \<open>Columns and index keys\<close>

fun col_index_from :: "bytes list \<Rightarrow> bytes \<Rightarrow> nat \<Rightarrow> int" where
  "col_index_from [] col i = -1"
| "col_index_from (c # cs) col i = (if c = col then int i else col_index_from cs col (Suc i))"

definition col_index :: "TableDef \<Rightarrow> bytes \<Rightarrow> int" where
  "col_index tdef col = col_index_from (tcols tdef) col 0"

definition contains :: "bytes list \<Rightarrow> bytes \<Rightarrow> bool" where
  "contains cols col \<longleftrightarrow> col \<in> set cols"

fun check_index_cols :: "TableDef \<Rightarrow> bytes list \<Rightarrow> bytes list \<Rightarrow> bytes + bytes list" where
  "check_index_cols tdef [] out = Inr out"
| "check_index_cols tdef (col # cols) out =
     (if col_index tdef col < 0 then Inl (str ''unknown index column: '' @ col)
      else if contains out col then Inl (str ''duplicate index column: '' @ col)
      else check_index_cols tdef cols (out @ [col]))"

fun add_missing :: "bytes list \<Rightarrow> bytes list \<Rightarrow> bytes list" where
  "add_missing out [] = out"
| "add_missing out (col # cols) = add_missing (if contains out col then out else out @ [col]) cols"

text \<open>The first \<open>pkeys\<close> columns are the primary key; \<open>table_def_check\<close> has checked the range.\<close>

definition check_index_keys :: "TableDef \<Rightarrow> bytes list \<Rightarrow> bytes + bytes list" where
  "check_index_keys tdef index =
     (if index = [] then Inl (str ''index must have at least one column'')
      else rbind (check_index_cols tdef index []) (\<lambda>out.
        let out = add_missing out (take (nat (pkeys tdef)) (tcols tdef)) in
        if length out \<ge> length (tcols tdef)
        then Inl (str ''index plus primary key must not cover every column'')
        else Inr out))"

fun check_indexes :: "TableDef \<Rightarrow> bytes list list \<Rightarrow> bytes + bytes list list" where
  "check_indexes tdef [] = Inr []"
| "check_indexes tdef (index # rest) =
     rbind (check_index_keys tdef index) (\<lambda>normalized.
     rbind (check_indexes tdef rest) (\<lambda>rest. Inr (normalized # rest)))"

definition table_def_check :: "TableDef \<Rightarrow> bytes + TableDef" where
  "table_def_check tdef =
     (if tname tdef = [] then Inl (str ''table name must not be empty'')
      else if length (tcols tdef) \<noteq> length (types tdef) then
        Inl (str ''cols and types must have the same size'')
      else if pkeys tdef \<le> 0 \<or> nat (pkeys tdef) > length (tcols tdef) then
        Inl (str ''pkeys must be in (0, cols.size()]'')
      else rbind (check_indexes tdef (indexes tdef)) (\<lambda>ixs. Inr (tdef\<lparr>indexes := ixs\<rparr>)))"

section \<open>What validation establishes\<close>

definition pk_cols :: "TableDef \<Rightarrow> bytes list" where
  "pk_cols tdef = take (nat (pkeys tdef)) (tcols tdef)"

lemma col_index_from_iff:
  "col_index_from cs col i \<ge> 0 \<longleftrightarrow> col \<in> set cs"
  by (induction cs arbitrary: i) auto

lemma col_index_from_nth:
  "col \<in> set cs \<Longrightarrow> \<exists>j<length cs. col_index_from cs col i = int (i + j) \<and> cs ! j = col \<and> (\<forall>k<j. cs ! k \<noteq> col)"
proof (induction cs arbitrary: i)
  case (Cons c cs)
  show ?case
  proof (cases "c = col")
    case False
    then have "col \<in> set cs"
      using Cons.prems by simp
    from Cons.IH [OF this, of "Suc i"] obtain j where j: "j < length cs"
        "col_index_from cs col (Suc i) = int (Suc i + j)" "cs ! j = col" "\<forall>k<j. cs ! k \<noteq> col"
      by blast
    have "\<forall>k<Suc j. (c # cs) ! k \<noteq> col"
    proof (intro allI impI)
      fix k
      assume "k < Suc j"
      then show "(c # cs) ! k \<noteq> col"
        using False j(4) by (cases k) auto
    qed
    with False j show ?thesis
      by (intro exI [of _ "Suc j"]) simp
  qed (auto intro!: exI [of _ 0])
qed simp

lemma check_index_cols_Inr:
  "check_index_cols tdef cols out = Inr r \<Longrightarrow> distinct out \<Longrightarrow>
    r = out @ cols \<and> distinct r \<and> set cols \<subseteq> set (tcols tdef)"
proof (induction tdef cols out rule: check_index_cols.induct)
  case (2 tdef col cols out)
  then have "\<not> col_index tdef col < 0" "\<not> contains out col"
    by (auto split: if_splits)
  moreover from this have "col \<in> set (tcols tdef)"
    using col_index_from_iff [of "tcols tdef" col 0] by (simp add: col_index_def)
  ultimately show ?case
    using 2 by (auto simp: contains_def)
qed simp

lemma add_missing_spec:
  "distinct out \<Longrightarrow> distinct (add_missing out cols) \<and> set (add_missing out cols) = set out \<union> set cols
    \<and> take (length out) (add_missing out cols) = out"
proof (induction out cols rule: add_missing.induct)
  case (2 out col cols)
  show ?case
  proof (cases "contains out col")
    case True
    with 2 show ?thesis
      by (auto simp: contains_def)
  next
    case False
    then have IH: "distinct (add_missing (out @ [col]) cols)"
        "set (add_missing (out @ [col]) cols) = set (out @ [col]) \<union> set cols"
        "take (length (out @ [col])) (add_missing (out @ [col]) cols) = out @ [col]"
      using 2 by (auto simp: contains_def)
    have "take (length out) (add_missing (out @ [col]) cols)
        = take (length out) (take (length (out @ [col])) (add_missing (out @ [col]) cols))"
      by (simp add: min_def)
    also have "\<dots> = out"
      unfolding IH(3) by simp
    finally show ?thesis
      using False IH(1,2) by auto
  qed
qed simp

lemma check_index_keys_Inr:
  assumes "check_index_keys tdef index = Inr r"
  shows "distinct r \<and> set r = set index \<union> set (pk_cols tdef) \<and> take (length index) r = index
    \<and> set r \<subseteq> set (tcols tdef) \<and> length r < length (tcols tdef) \<and> index \<noteq> []"
proof -
  obtain out where out: "check_index_cols tdef index [] = Inr out" "index \<noteq> []"
      "r = add_missing out (pk_cols tdef)" "length r < length (tcols tdef)"
    using assms by (auto simp: check_index_keys_def rbind_eq_Inr Let_def pk_cols_def split: if_splits)
  have "out = index" "distinct out" "set index \<subseteq> set (tcols tdef)"
    using check_index_cols_Inr [OF out(1)] by auto
  moreover have "set (pk_cols tdef) \<subseteq> set (tcols tdef)"
    by (simp add: pk_cols_def set_take_subset)
  ultimately show ?thesis
    using add_missing_spec [of out "pk_cols tdef"] out by auto
qed

text \<open>An index that validation produced passes it again unchanged.\<close>

lemma add_missing_same: "set cols \<subseteq> set out \<Longrightarrow> add_missing out cols = out"
  by (induction out cols rule: add_missing.induct) (auto simp: contains_def)

lemma check_index_cols_same:
  "distinct (out @ cols) \<Longrightarrow> set cols \<subseteq> set (tcols tdef) \<Longrightarrow> check_index_cols tdef cols out = Inr (out @ cols)"
proof (induction tdef cols out rule: check_index_cols.induct)
  case (2 tdef col cols out)
  then have "\<not> col_index tdef col < 0"
    using col_index_from_iff [of "tcols tdef" col 0] by (simp add: col_index_def not_less)
  with 2 show ?case
    by (auto simp: contains_def)
qed simp

lemma check_index_keys_idem:
  assumes "check_index_keys tdef index = Inr r"
  shows "check_index_keys tdef r = Inr r"
proof -
  note spec = check_index_keys_Inr [OF assms]
  then have "r \<noteq> []"
    by auto
  moreover have "check_index_cols tdef r [] = Inr r"
    using check_index_cols_same [of "[]" r tdef, unfolded append_Nil] spec by blast
  ultimately show ?thesis
    using spec add_missing_same [of "pk_cols tdef" r]
    by (simp add: check_index_keys_def Let_def pk_cols_def)
qed

lemma check_indexes_Inr:
  "check_indexes tdef ixs = Inr rs \<Longrightarrow> list_all2 (\<lambda>ix r. check_index_keys tdef ix = Inr r) ixs rs"
  by (induction ixs arbitrary: rs) (auto simp: rbind_eq_Inr)

lemma check_indexes_all2:
  "list_all2 (\<lambda>ix r. check_index_keys tdef ix = Inr r) ixs rs \<Longrightarrow> check_indexes tdef ixs = Inr rs"
  by (induction rule: list_all2_induct) auto

lemma index_checks_ignore: "check_index_keys (tdef\<lparr>indexes := ixs\<rparr>) ix = check_index_keys tdef ix"
proof -
  have "check_index_cols (tdef\<lparr>indexes := ixs\<rparr>) cols out = check_index_cols tdef cols out" for cols out
    by (induction cols arbitrary: out) (simp_all add: col_index_def)
  then show ?thesis
    by (simp add: check_index_keys_def)
qed

text \<open>A definition that passed validation.\<close>

definition checked_def :: "TableDef \<Rightarrow> bool" where
  "checked_def t \<longleftrightarrow> tname t \<noteq> [] \<and> length (tcols t) = length (types t) \<and> 0 < pkeys t
     \<and> nat (pkeys t) \<le> length (tcols t)
     \<and> (\<forall>ix\<in>set (indexes t). distinct ix \<and> set (pk_cols t) \<subseteq> set ix \<and> set ix \<subseteq> set (tcols t)
          \<and> length ix < length (tcols t))"

lemma table_def_check_ok:
  assumes "table_def_check t = Inr t'"
  shows "checked_def t' \<and> t' = t\<lparr>indexes := indexes t'\<rparr>
    \<and> list_all2 (\<lambda>ix ix'. take (length ix) ix' = ix) (indexes t) (indexes t') \<and> table_def_check t' = Inr t'"
proof -
  obtain ixs where ixs: "check_indexes t (indexes t) = Inr ixs" "t' = t\<lparr>indexes := ixs\<rparr>"
    and base: "tname t \<noteq> []" "length (tcols t) = length (types t)" "0 < pkeys t" "nat (pkeys t) \<le> length (tcols t)"
    using assms by (auto simp: table_def_check_def rbind_eq_Inr split: if_splits)
  note all = check_indexes_Inr [OF ixs(1)]
  have spec: "distinct r \<and> set (pk_cols t) \<subseteq> set r \<and> set r \<subseteq> set (tcols t) \<and> length r < length (tcols t)
      \<and> check_index_keys t r = Inr r" if "r \<in> set ixs" for r
  proof -
    note mem = that
    obtain ix where "check_index_keys t ix = Inr r"
      using all mem by (auto simp: list_all2_conv_all_nth in_set_conv_nth)
    then show ?thesis
      using check_index_keys_Inr check_index_keys_idem by blast
  qed
  have pk: "pk_cols t' = pk_cols t"
    by (simp add: ixs(2) pk_cols_def)
  have "list_all2 (\<lambda>ix ix'. take (length ix) ix' = ix) (indexes t) ixs"
    using all by (rule list_all2_mono) (use check_index_keys_Inr in blast)
  moreover have "list_all2 (\<lambda>ix r. check_index_keys t' ix = Inr r) ixs ixs"
    using spec by (simp add: list.rel_refl_strong list_all2_same ixs(2) index_checks_ignore)
  then have "table_def_check t' = Inr t'"
    using base check_indexes_all2 [of t' ixs ixs] by (simp add: table_def_check_def ixs(2))
  moreover have "checked_def t'"
    using base spec unfolding checked_def_def pk by (simp add: ixs(2))
  ultimately show ?thesis
    by (simp add: ixs(2))
qed

text \<open>
  C40: validation normalises the indexes. A definition that passes has a name, types for its columns
  and a primary key within them; every index then lists distinct known columns, contains the whole
  primary key (so its keys are unique), still starts with the columns asked for, and leaves some
  column out. Validating the result again changes nothing.
\<close>

theorem table_def_check_normalises:
  assumes "table_def_check t = Inr t'"
  shows "checked_def t' \<and> t' = t\<lparr>indexes := indexes t'\<rparr>
    \<and> list_all2 (\<lambda>ix ix'. take (length ix) ix' = ix) (indexes t) (indexes t') \<and> table_def_check t' = Inr t'"
  using assms by (rule table_def_check_ok)

definition books :: TableDef where
  "books = add_index (set_pkeys (add_col (add_col (add_col (TableDefBuilder (str ''books''))
     (str ''id'') INT_64) (str ''author'') BYTES) (str ''title'') BYTES) 1) [str ''author'']"

lemma table_def_check_normalises_witness:
  "\<exists>t. table_def_check books = Inr t \<and> indexes t = [[str ''author'', str ''id'']] \<and> checked_def t"
proof -
  have "table_def_check books = Inr (books\<lparr>indexes := [[str ''author'', str ''id'']]\<rparr>)"
    by (simp add: table_def_check_def books_def builder_defs str_def check_index_keys_def Let_def col_index_def
        contains_def)
  from table_def_check_normalises [OF this] this show ?thesis
    by simp
qed

end
