(* ===== verification/Table_Text.thy ===== *)
theory Table_Text
  imports Schema
begin

text \<open>
  The text form of a table definition, \<open>encode_table_def\<close> and \<open>decode_table_def\<close> of
  \<open>catalog/tabledef\<close>. An input stream is the bytes not yet read. The formatted extractors are those of
  \<open>std::istream\<close> in the classic locale: they skip white space, and fail without a token, without
  digits, or when a number is out of range.
\<close>

section \<open>Streams\<close>

definition is_space :: "byte \<Rightarrow> bool" where
  "is_space c \<longleftrightarrow> c = 32 \<or> 9 \<le> c \<and> c \<le> 13"

definition is_digit :: "byte \<Rightarrow> bool" where
  "is_digit c \<longleftrightarrow> 48 \<le> c \<and> c \<le> 57"

definition newline :: byte where "newline = 10"
definition space :: byte where "space = 32"

fun show_nat :: "nat \<Rightarrow> bytes" where
  "show_nat n = (if n < 10 then [48 + word_of_nat n] else show_nat (n div 10) @ [48 + word_of_nat (n mod 10)])"

declare show_nat.simps [simp del]

definition show_int :: "int \<Rightarrow> bytes" where
  "show_int i = (if i < 0 then 45 # show_nat (nat (- i)) else show_nat (nat i))"

definition digits_value :: "bytes \<Rightarrow> nat" where
  "digits_value ds = foldl (\<lambda>v d. v * 10 + (unat d - 48)) 0 ds"

definition get_line :: "bytes \<Rightarrow> (bytes \<times> bytes) option" where
  "get_line s = (if s = [] then None
     else Some (takeWhile (\<lambda>c. c \<noteq> newline) s, drop 1 (dropWhile (\<lambda>c. c \<noteq> newline) s)))"

definition read_word :: "bytes \<Rightarrow> (bytes \<times> bytes) option" where
  "read_word s =
     (let s = dropWhile is_space s in
      if s = [] then None else Some (takeWhile (\<lambda>c. \<not> is_space c) s, dropWhile (\<lambda>c. \<not> is_space c) s))"

text \<open>An optional sign, then digits; the sign, the value and what follows.\<close>

definition read_number :: "bytes \<Rightarrow> (bool \<times> nat \<times> bytes) option" where
  "read_number s =
     (let s = dropWhile is_space s;
          neg = (s \<noteq> [] \<and> hd s = 45);
          s = (if s \<noteq> [] \<and> (hd s = 45 \<or> hd s = 43) then tl s else s);
          ds = takeWhile is_digit s
      in if ds = [] then None else Some (neg, digits_value ds, dropWhile is_digit s))"

definition read_unsigned :: "nat \<Rightarrow> bytes \<Rightarrow> (nat \<times> bytes) option" where
  "read_unsigned bits s =
     (case read_number s of
        None \<Rightarrow> None
      | Some (neg, v, rest) \<Rightarrow>
          if v \<ge> 2 ^ bits then None else Some (if neg then (2 ^ bits - v) mod 2 ^ bits else v, rest))"

definition read_int :: "bytes \<Rightarrow> (int \<times> bytes) option" where
  "read_int s =
     (case read_number s of
        None \<Rightarrow> None
      | Some (neg, v, rest) \<Rightarrow>
          let i = (if neg then - int v else int v) in
          if i < - (2 ^ 31) \<or> 2 ^ 31 \<le> i then None else Some (i, rest))"

section \<open>Encoding\<close>

fun type_code :: "ValueType \<Rightarrow> nat" where
  "type_code ERROR = 0"
| "type_code INT_64 = 1"
| "type_code BYTES = 2"

fun show_cols :: "bytes list \<Rightarrow> ValueType list \<Rightarrow> bytes res" where
  "show_cols [] ts = Inr []"
| "show_cols (c # cs) [] = Inl Bad_access"
| "show_cols (c # cs) (t # ts) =
     rbind (show_cols cs ts) (\<lambda>rest. Inr (c @ [space] @ show_nat (type_code t) @ [newline] @ rest))"

definition show_index :: "bytes list \<Rightarrow> bytes" where
  "show_index index = show_nat (length index) @ concat (map (\<lambda>c. space # c) index) @ [newline]"

definition encode_table_def :: "TableDef \<Rightarrow> bytes res" where
  "encode_table_def def =
     rbind (show_cols (tcols def) (types def)) (\<lambda>cols.
     Inr (tname def @ [newline] @ show_int (pkeys def) @ [newline] @ show_nat (unat (prefix def)) @ [newline]
       @ show_nat (length (tcols def)) @ [newline] @ cols
       @ show_nat (length (indexes def)) @ [newline] @ concat (map show_index (indexes def))
       @ show_nat (length (index_prefixes def))
       @ concat (map (\<lambda>p. space # show_nat (unat p)) (index_prefixes def)) @ [newline]))"

section \<open>Decoding\<close>

text \<open>
  \<open>None\<close> is the result false. A type number without an enumerator is \<open>Bad_access\<close>: from 4 on the
  language leaves the conversion undefined, and 3 is a value that names no type.
\<close>

fun type_of_code :: "nat \<Rightarrow> ValueType res" where
  "type_of_code n = (if n = 0 then Inr ERROR else if n = 1 then Inr INT_64 else if n = 2 then Inr BYTES else Inl Bad_access)"

definition obind :: "'a option \<Rightarrow> ('a \<Rightarrow> 'b option res) \<Rightarrow> 'b option res" where
  "obind x f = (case x of None \<Rightarrow> Inr None | Some y \<Rightarrow> f y)"

fun read_cols :: "nat \<Rightarrow> bytes \<Rightarrow> (bytes list \<times> ValueType list \<times> bytes) option res" where
  "read_cols 0 s = Inr (Some ([], [], s))"
| "read_cols (Suc n) s =
     obind (read_word s) (\<lambda>(c, s).
     obind (read_unsigned 32 s) (\<lambda>(k, s).
     rbind (type_of_code k) (\<lambda>t.
     rbind (read_cols n s) (\<lambda>r.
     Inr (map_option (\<lambda>(cs, ts, s). (c # cs, t # ts, s)) r)))))"

fun read_names :: "nat \<Rightarrow> bytes \<Rightarrow> (bytes list \<times> bytes) option" where
  "read_names 0 s = Some ([], s)"
| "read_names (Suc n) s =
     (case read_word s of None \<Rightarrow> None | Some (c, s) \<Rightarrow>
        map_option (\<lambda>(cs, s). (c # cs, s)) (read_names n s))"

fun read_indexes :: "nat \<Rightarrow> bytes \<Rightarrow> (bytes list list \<times> bytes) option" where
  "read_indexes 0 s = Some ([], s)"
| "read_indexes (Suc k) s =
     (case read_unsigned 64 s of None \<Rightarrow> None | Some (n, s) \<Rightarrow>
      case read_names n s of None \<Rightarrow> None | Some (index, s) \<Rightarrow>
        map_option (\<lambda>(ixs, s). (index # ixs, s)) (read_indexes k s))"

fun read_prefixes :: "nat \<Rightarrow> bytes \<Rightarrow> (u32 list \<times> bytes) option" where
  "read_prefixes 0 s = Some ([], s)"
| "read_prefixes (Suc k) s =
     (case read_unsigned 32 s of None \<Rightarrow> None | Some (p, s) \<Rightarrow>
        map_option (\<lambda>(ps, s). (word_of_nat p # ps, s)) (read_prefixes k s))"

text \<open>\<open>in.ignore()\<close> drops one byte. What follows the last prefix is not looked at.\<close>

definition decode_table_def :: "bytes \<Rightarrow> TableDef option res" where
  "decode_table_def s =
     obind (get_line s) (\<lambda>(name, s).
     obind (read_int s) (\<lambda>(pk, s).
     obind (read_unsigned 32 s) (\<lambda>(pfx, s).
     obind (read_unsigned 64 s) (\<lambda>(ncols, s).
     rbind (read_cols ncols (drop 1 s)) (\<lambda>r. obind r (\<lambda>(cs, ts, s).
     obind (read_unsigned 64 s) (\<lambda>(nindexes, s).
     obind (read_indexes nindexes s) (\<lambda>(ixs, s).
     obind (read_unsigned 64 s) (\<lambda>(nprefixes, s).
     obind (read_prefixes nprefixes s) (\<lambda>(ps, s).
     Inr (Some \<lparr>tname = name, types = ts, tcols = cs, pkeys = pk, indexes = ixs, prefix = word_of_nat pfx,
       index_prefixes = ps\<rparr>)))))))))))"

section \<open>Reading what was written\<close>

lemma space_facts [simp]:
  "is_space space" "is_space newline" "\<not> is_digit space" "\<not> is_digit newline" "newline \<noteq> space"
  by (simp_all add: is_space_def is_digit_def space_def newline_def)

lemma digit_facts:
  assumes "is_digit c"
  shows "\<not> is_space c" and "c \<noteq> 45" and "c \<noteq> 43"
  using assms unfolding is_digit_def is_space_def word_le_nat_alt by auto

lemma show_digit:
  assumes "n < 10"
  shows "is_digit (48 + word_of_nat n)" and "unat (48 + word_of_nat n :: byte) - 48 = n"
proof -
  have "unat (48 + word_of_nat n :: byte) = 48 + n"
    using assms by (simp add: unat_word_ariths unat_of_nat)
  then show "is_digit (48 + word_of_nat n)" "unat (48 + word_of_nat n :: byte) - 48 = n"
    using assms by (simp_all add: is_digit_def word_le_nat_alt)
qed

lemma show_nat_digits: "show_nat n \<noteq> [] \<and> (\<forall>c\<in>set (show_nat n). is_digit c) \<and> digits_value (show_nat n) = n"
proof (induction n rule: show_nat.induct)
  case (1 n)
  show ?case
  proof (cases "n < 10")
    case True
    then show ?thesis
      using show_digit [OF True] by (simp add: show_nat.simps [of n] digits_value_def)
  next
    case False
    have "n mod 10 < 10"
      by simp
    note d = show_digit [OF this]
    have "n = n div 10 * 10 + n mod 10"
      by simp
    then show ?thesis
      using 1 [OF False] d False by (simp add: show_nat.simps [of n] digits_value_def)
  qed
qed

definition stops :: "(byte \<Rightarrow> bool) \<Rightarrow> bytes \<Rightarrow> bool" where
  "stops P s \<longleftrightarrow> s = [] \<or> \<not> P (hd s)"

lemma takeWhile_stops:
  assumes "\<forall>c\<in>set xs. P c" and "stops P s"
  shows "takeWhile P (xs @ s) = xs" and "dropWhile P (xs @ s) = s"
  using assms by (cases s; simp add: stops_def)+

lemma skip_space: "w = [] \<or> (\<exists>c. w = [c] \<and> is_space c) \<Longrightarrow> stops is_space s \<Longrightarrow> dropWhile is_space (w @ s) = s"
  by (cases s) (auto simp: stops_def)

lemma read_number_shown:
  assumes "w = [] \<or> (\<exists>c. w = [c] \<and> is_space c)" and "stops is_digit s"
  shows "read_number (w @ show_nat n @ s) = Some (False, n, s)"
proof -
  obtain d ds where ds: "show_nat n = d # ds" "\<forall>c\<in>set (d # ds). is_digit c"
    using show_nat_digits [of n] by (cases "show_nat n") auto
  have "dropWhile is_space (w @ show_nat n @ s) = show_nat n @ s"
    using ds digit_facts(1) [of d] by (intro skip_space [OF assms(1)]) (simp add: stops_def)
  moreover have "takeWhile is_digit (show_nat n @ s) = show_nat n" "dropWhile is_digit (show_nat n @ s) = s"
    using show_nat_digits [of n] assms(2) takeWhile_stops [of "show_nat n" is_digit s] by blast+
  ultimately show ?thesis
    using ds digit_facts(2,3) [of d] show_nat_digits [of n] by (simp add: read_number_def Let_def)
qed

lemma read_unsigned_shown:
  "w = [] \<or> (\<exists>c. w = [c] \<and> is_space c) \<Longrightarrow> stops is_digit s \<Longrightarrow> n < 2 ^ bits \<Longrightarrow>
    read_unsigned bits (w @ show_nat n @ s) = Some (n, s)"
  by (simp add: read_unsigned_def read_number_shown)

lemma read_int_shown:
  assumes "stops is_digit s" and "0 \<le> i" "i < 2 ^ 31"
  shows "read_int (show_int i @ s) = Some (i, s)"
  using read_number_shown [of "[]" s "nat i"] assms by (simp add: read_int_def show_int_def)

text \<open>A name that survives: not empty and without white space.\<close>

definition plain_name :: "bytes \<Rightarrow> bool" where
  "plain_name c \<longleftrightarrow> c \<noteq> [] \<and> (\<forall>b\<in>set c. \<not> is_space b)"

lemma read_word_shown:
  assumes "w = [] \<or> (\<exists>c. w = [c] \<and> is_space c)" and "plain_name c" and "b = space \<or> b = newline"
  shows "read_word (w @ c @ b # s) = Some (c, b # s)"
proof -
  have "dropWhile is_space (w @ c @ b # s) = c @ b # s"
    using assms(2) by (intro skip_space [OF assms(1)]) (auto simp: plain_name_def stops_def)
  moreover have "takeWhile (\<lambda>c. \<not> is_space c) (c @ b # s) = c" "dropWhile (\<lambda>c. \<not> is_space c) (c @ b # s) = b # s"
    using assms(2,3) by (auto intro!: takeWhile_stops simp: plain_name_def stops_def)
  ultimately show ?thesis
    using assms(2) by (simp add: read_word_def plain_name_def Let_def)
qed

text \<open>At most one white-space byte before the next token.\<close>

definition gap :: "bytes \<Rightarrow> bool" where
  "gap w \<longleftrightarrow> w = [] \<or> (\<exists>c. w = [c] \<and> is_space c)"

lemma gap_simps [simp]: "gap []" "gap [space]" "gap [newline]"
  by (simp_all add: gap_def)

lemma stops_simps [simp]: "stops is_digit (space # s)" "stops is_digit (newline # s)"
  by (simp_all add: stops_def)

lemma type_code_inverse [simp]: "type_of_code (type_code t) = Inr t" "type_code t < 4294967296"
  by (cases t; simp)+

lemma read_cols_shown:
  assumes "length cs = length ts" and "\<forall>c\<in>set cs. plain_name c" and "gap w"
  shows "\<exists>out w'. show_cols cs ts = Inr out \<and> gap w' \<and> read_cols (length cs) (w @ out @ s) = Inr (Some (cs, ts, w' @ s))"
  using assms
proof (induction cs ts arbitrary: w rule: list_induct2)
  case (Cons c cs t ts)
  obtain out w' where IH: "show_cols cs ts = Inr out" "gap w'"
      "read_cols (length cs) ([newline] @ out @ s) = Inr (Some (cs, ts, w' @ s))"
    using Cons.IH [of "[newline]"] Cons.prems by auto
  let ?out = "c @ [space] @ show_nat (type_code t) @ [newline] @ out"
  have "read_word (w @ c @ space # show_nat (type_code t) @ newline # out @ s)
      = Some (c, space # show_nat (type_code t) @ newline # out @ s)"
    using Cons.prems by (intro read_word_shown) (simp_all add: gap_def)
  moreover have "read_unsigned 32 ([space] @ show_nat (type_code t) @ newline # out @ s)
      = Some (type_code t, newline # out @ s)"
    by (rule read_unsigned_shown) simp_all
  ultimately have "read_cols (length (c # cs)) (w @ ?out @ s) = Inr (Some (c # cs, t # ts, w' @ s))"
    using IH(3) by (simp add: obind_def del: type_of_code.simps)
  then show ?case
    using IH(1,2) by auto
qed auto

lemma read_names_shown:
  "\<forall>c\<in>set ix. plain_name c \<Longrightarrow>
    read_names (length ix) (concat (map (\<lambda>c. space # c) ix) @ newline # s) = Some (ix, newline # s)"
proof (induction ix)
  case (Cons c ix)
  obtain b r where r: "concat (map (\<lambda>c. space # c) ix) @ newline # s = b # r" "b = space \<or> b = newline"
    by (cases ix) auto
  have "read_word ([space] @ c @ b # r) = Some (c, b # r)"
    using Cons.prems r(2) by (intro read_word_shown) simp_all
  then show ?case
    using Cons r(1) by simp
qed simp

lemma stops_names [simp]: "stops is_digit (concat (map (\<lambda>c. space # f c) xs) @ newline # s)"
  by (cases xs) simp_all

lemma read_indexes_shown:
  assumes "\<forall>ix\<in>set ixs. length ix < 2 ^ 64 \<and> (\<forall>c\<in>set ix. plain_name c)" and "gap w"
  shows "\<exists>w'. gap w' \<and> read_indexes (length ixs) (w @ concat (map show_index ixs) @ s) = Some (ixs, w' @ s)"
  using assms
proof (induction ixs arbitrary: w)
  case (Cons ix ixs)
  obtain w' where IH: "gap w'" "read_indexes (length ixs) ([newline] @ concat (map show_index ixs) @ s) = Some (ixs, w' @ s)"
    using Cons.IH [of "[newline]"] Cons.prems(1) by auto
  let ?r = "concat (map show_index ixs) @ s"
  have "read_unsigned 64 (w @ show_nat (length ix) @ concat (map (\<lambda>c. space # c) ix) @ newline # ?r)
      = Some (length ix, concat (map (\<lambda>c. space # c) ix) @ newline # ?r)"
    using Cons.prems by (intro read_unsigned_shown) (simp_all add: gap_def)
  moreover have "show_index ix = show_nat (length ix) @ concat (map (\<lambda>c. space # c) ix) @ [newline]"
    by (simp add: show_index_def)
  ultimately show ?case
    using IH read_names_shown [of ix ?r] Cons.prems(1) by auto
qed auto

lemma read_prefixes_shown:
  "read_prefixes (length ps) (concat (map (\<lambda>p. space # show_nat (unat p)) ps) @ newline # s) = Some (ps, newline # s)"
proof (induction ps)
  case (Cons p ps)
  have "read_unsigned 32 ([space] @ show_nat (unat p) @ concat (map (\<lambda>p. space # show_nat (unat p)) ps) @ newline # s)
      = Some (unat p, concat (map (\<lambda>p. space # show_nat (unat p)) ps) @ newline # s)"
    using unat_u32_less [of p] by (intro read_unsigned_shown) simp_all
  then show ?case
    using Cons.IH by simp
qed simp

definition text_ok :: "TableDef \<Rightarrow> bool" where
  "text_ok t \<longleftrightarrow> newline \<notin> set (tname t) \<and> (\<forall>c\<in>set (tcols t). plain_name c)
     \<and> (\<forall>ix\<in>set (indexes t). length ix < 2 ^ 64 \<and> (\<forall>c\<in>set ix. plain_name c))
     \<and> length (types t) = length (tcols t) \<and> 0 \<le> pkeys t \<and> pkeys t < 2 ^ 31
     \<and> length (tcols t) < 2 ^ 64 \<and> length (indexes t) < 2 ^ 64 \<and> length (index_prefixes t) < 2 ^ 64"

lemma table_def_text_ok:
  assumes "text_ok t"
  shows "\<exists>out. encode_table_def t = Inr out \<and> decode_table_def out = Inr (Some t)"
proof -
  let ?pfx = "concat (map (\<lambda>p. space # show_nat (unat p)) (index_prefixes t)) @ [newline]"
  let ?s4 = "show_nat (length (index_prefixes t)) @ ?pfx"
  let ?s3 = "show_nat (length (indexes t)) @ [newline] @ concat (map show_index (indexes t)) @ ?s4"
  obtain cols w where cols: "show_cols (tcols t) (types t) = Inr cols" "gap w"
      "read_cols (length (tcols t)) (cols @ ?s3) = Inr (Some (tcols t, types t, w @ ?s3))"
    using read_cols_shown [of "tcols t" "types t" "[]" ?s3] assms by (auto simp: text_ok_def)
  obtain w' where ixs: "gap w'"
      "read_indexes (length (indexes t)) ([newline] @ concat (map show_index (indexes t)) @ ?s4) = Some (indexes t, w' @ ?s4)"
    using read_indexes_shown [of "indexes t" "[newline]" ?s4] assms by (auto simp: text_ok_def)
  let ?s2 = "show_nat (length (tcols t)) @ newline # cols @ ?s3"
  let ?s1 = "show_nat (unat (prefix t)) @ newline # ?s2"
  let ?s0 = "show_int (pkeys t) @ newline # ?s1"
  have enc: "encode_table_def t = Inr (tname t @ newline # ?s0)"
    by (simp add: encode_table_def_def cols(1))
  have line: "get_line (tname t @ newline # ?s0) = Some (tname t, ?s0)"
  proof -
    have "\<forall>c\<in>set (tname t). c \<noteq> newline"
      using assms by (auto simp: text_ok_def)
    then show ?thesis
      using takeWhile_stops [of "tname t" "\<lambda>c. c \<noteq> newline" "newline # ?s0"] by (simp add: get_line_def stops_def)
  qed
  have pk: "read_int ?s0 = Some (pkeys t, newline # ?s1)"
    using assms by (intro read_int_shown) (simp_all add: text_ok_def)
  have pfx: "read_unsigned 32 (newline # ?s1) = Some (unat (prefix t), newline # ?s2)"
    using read_unsigned_shown [of "[newline]" "newline # ?s2" "unat (prefix t)" 32] unat_u32_less [of "prefix t"] by simp
  have ncols: "read_unsigned 64 (newline # ?s2) = Some (length (tcols t), newline # cols @ ?s3)"
    using read_unsigned_shown [of "[newline]" "newline # cols @ ?s3" "length (tcols t)" 64] assms by (simp add: text_ok_def)
  have nix: "read_unsigned 64 (w @ ?s3) = Some (length (indexes t), [newline] @ concat (map show_index (indexes t)) @ ?s4)"
    using cols(2) assms by (intro read_unsigned_shown) (simp_all add: text_ok_def gap_def)
  have nps: "read_unsigned 64 (w' @ ?s4) = Some (length (index_prefixes t), ?pfx)"
    using ixs(1) assms by (intro read_unsigned_shown) (simp_all add: text_ok_def gap_def)
  have "decode_table_def (tname t @ newline # ?s0) = Inr (Some t)"
    unfolding decode_table_def_def line pk pfx ncols obind_def option.case prod.case drop_Suc_Cons drop_0 One_nat_def cols(3)
      rbind_simps nix ixs(2) nps read_prefixes_shown by simp
  then show ?thesis
    using enc by blast
qed

text \<open>
  C33: the catalog's text form round-trips. A definition whose table name has no newline and whose
  column names are non-empty and without white space is written without error, and reading the text
  gives back every field.
\<close>

theorem table_def_text_roundtrip:
  assumes "text_ok t"
  shows "\<exists>out. encode_table_def t = Inr out \<and> decode_table_def out = Inr (Some t)"
  using assms by (rule table_def_text_ok)

lemma table_def_text_roundtrip_witness:
  "\<exists>out. encode_table_def books = Inr out \<and> decode_table_def out = Inr (Some books)"
  by (rule table_def_text_roundtrip)
    (simp add: text_ok_def books_def builder_defs str_def newline_def plain_name_def is_space_def)

definition spaced :: TableDef where
  "spaced = set_pkeys (add_col (TableDefBuilder [116]) [97, 32, 98] BYTES) 1"

text \<open>
  C34: validation admits definitions the catalog cannot read back. A one-column table whose column
  name contains a space passes \<open>table_def_check\<close>, and the text written for it is rejected by
  \<open>decode_table_def\<close>.
\<close>

theorem table_def_text_lossy:
  "table_def_check spaced = Inr spaced
    \<and> (\<exists>out. encode_table_def spaced = Inr out \<and> decode_table_def out = Inr None)"
proof
  show "table_def_check spaced = Inr spaced"
    by (simp add: table_def_check_def spaced_def builder_defs)
  have "encode_table_def spaced = Inr [116, 10, 49, 10, 48, 10, 49, 10, 97, 32, 98, 32, 50, 10, 48, 10, 48, 10]"
    by (simp add: encode_table_def_def spaced_def builder_defs show_nat.simps show_int_def newline_def space_def)
  moreover have "decode_table_def [116, 10, 49, 10, 48, 10, 49, 10, 97, 32, 98, 32, 50, 10, 48, 10, 48, 10] = Inr None"
    by (simp add: decode_table_def_def obind_def get_line_def newline_def read_int_def read_unsigned_def read_number_def
        read_word_def is_space_def is_digit_def digits_value_def Let_def)
  ultimately show "\<exists>out. encode_table_def spaced = Inr out \<and> decode_table_def out = Inr None"
    by blast
qed

end
