(* ===== verification/QL_Ast.thy ===== *)
theory QL_Ast
  imports Table_Text KVTX
begin

text \<open>
  The syntax trees of the query language, \<open>ql/ql_ast\<close>: node tags, the tree, the statements, their
  constructors, equality and rendering; and the lexer's \<open>unquote\<close>, which reads a rendered string
  literal back. \<open>int64_t\<close> offsets and limits are only compared, and stand as integers.
\<close>

section \<open>Trees\<close>

datatype QLNodeType =
    QL_UNINIT
  | QL_I64 | QL_STR | QL_SYM | QL_STAR
  | QL_TUP
  | QL_CMP_GE | QL_CMP_GT | QL_CMP_LT | QL_CMP_LE | QL_CMP_EQ | QL_CMP_NE
  | QL_ADD | QL_SUB | QL_MUL | QL_DIV | QL_MOD
  | QL_AND | QL_OR | QL_NOT | QL_NEG

datatype QLNode = QLNode (q_type: QLNodeType) (q_val: Value) (q_kids: "QLNode list")

definition empty_QLNode :: QLNode where
  "empty_QLNode = QLNode QL_UNINIT default_Value []"

function QLNode_eq :: "QLNode \<Rightarrow> QLNode \<Rightarrow> bool" where
  "QLNode_eq (QLNode t v ks) (QLNode t' v' ks') =
     (t = t' \<and> Value_eq v v' \<and> length ks = length ks' \<and> list_all (\<lambda>(a, b). QLNode_eq a b) (zip ks ks'))"
  by pat_completeness auto
termination
proof (relation "measure (\<lambda>(a, b). size a)")
  show "((a, b), (QLNode t v ks, QLNode t' v' ks')) \<in> measure (\<lambda>(a, b). size a)"
    if "z \<in> set (zip ks ks')" "(a, b) = z" for t v ks t' v' ks' z a b
  proof -
    have "a \<in> set ks"
      using that by (metis set_zip_leftD)
    then show ?thesis
      by (auto dest: size_list_estimation' [where f = size and y = "size a"])
  qed
qed simp

definition ql_int64 :: "u64 \<Rightarrow> QLNode" where
  "ql_int64 v = QLNode QL_I64 (make_int64 v) []"

definition ql_str :: "bytes \<Rightarrow> QLNode" where
  "ql_str v = QLNode QL_STR (make_bytes v) []"

definition ql_sym :: "bytes \<Rightarrow> QLNode" where
  "ql_sym name = QLNode QL_SYM (make_bytes name) []"

definition ql_star :: QLNode where
  "ql_star = QLNode QL_STAR default_Value []"

definition ql_unop :: "QLNodeType \<Rightarrow> QLNode \<Rightarrow> QLNode" where
  "ql_unop type x = QLNode type default_Value [x]"

definition ql_binop :: "QLNodeType \<Rightarrow> QLNode \<Rightarrow> QLNode \<Rightarrow> QLNode" where
  "ql_binop type lhs rhs = QLNode type default_Value [lhs, rhs]"

definition ql_tuple :: "QLNode list \<Rightarrow> QLNode" where
  "ql_tuple kids = QLNode QL_TUP default_Value kids"

lemmas ql_defs = ql_int64_def ql_str_def ql_sym_def ql_star_def ql_unop_def ql_binop_def ql_tuple_def

section \<open>Statements\<close>

record QLScan =
  sc_table :: bytes
  sc_key1 :: QLNode
  sc_key2 :: QLNode
  sc_filter :: QLNode
  sc_offset :: int
  sc_limit :: int

record QLSelect =
  sel_scan :: QLScan
  sel_names :: "bytes list"
  sel_output :: "QLNode list"

record QLInsert =
  qi_table :: bytes
  qi_mode :: UpdateMode
  qi_names :: "bytes list"
  qi_values :: "QLNode list list"

record QLUpdate =
  qu_scan :: QLScan
  qu_names :: "bytes list"
  qu_values :: "QLNode list"

record QLDelete =
  qd_scan :: QLScan

record QLCreateTable =
  qc_def :: TableDef

datatype QLStatement =
  Create_Table QLCreateTable | Select QLSelect | Insert QLInsert | Update QLUpdate | Delete QLDelete

section \<open>Rendering\<close>

fun op_name :: "QLNodeType \<Rightarrow> bytes" where
  "op_name QL_TUP = str ''tuple''"
| "op_name QL_CMP_GE = str ''>=''"
| "op_name QL_CMP_GT = str ''>''"
| "op_name QL_CMP_LT = str ''<''"
| "op_name QL_CMP_LE = str ''<=''"
| "op_name QL_CMP_EQ = str ''=''"
| "op_name QL_CMP_NE = str ''!=''"
| "op_name QL_ADD = str ''+''"
| "op_name QL_SUB = str ''-''"
| "op_name QL_MUL = str ''*''"
| "op_name QL_DIV = str ''/''"
| "op_name QL_MOD = str ''%''"
| "op_name QL_AND = str ''and''"
| "op_name QL_OR = str ''or''"
| "op_name QL_NOT = str ''not''"
| "op_name QL_NEG = str ''neg''"
| "op_name _ = str ''?''"

text \<open>The characters: 39 is the quote, 92 the backslash, 10, 9 and 13 newline, tab and return.\<close>

definition quote_char :: "byte \<Rightarrow> bytes" where
  "quote_char c =
     (if c = 39 then [92, 39] else if c = 92 then [92, 92] else if c = 10 then [92, 110]
      else if c = 9 then [92, 116] else if c = 13 then [92, 114] else [c])"

definition quote :: "bytes \<Rightarrow> bytes" where
  "quote s = 39 # concat (map quote_char s) @ [39]"

fun ql_to_string :: "QLNode \<Rightarrow> bytes" where
  "ql_to_string (QLNode t v kids) =
     (case t of
        QL_UNINIT \<Rightarrow> str ''()''
      | QL_I64 \<Rightarrow> show_int (sint (int64 v))
      | QL_STR \<Rightarrow> quote (vstr v)
      | QL_SYM \<Rightarrow> vstr v
      | QL_STAR \<Rightarrow> str ''*''
      | _ \<Rightarrow> str ''('' @ op_name t @ concat (map (\<lambda>k. str '' '' @ ql_to_string k) kids) @ str '')'')"

section \<open>The lexer's string literals\<close>

text \<open>
  \<open>unquote_from\<close> runs the loop on what is left of the token; the loop ends before the last character,
  the closing quote.
\<close>

fun unquote_from :: "bytes \<Rightarrow> bytes" where
  "unquote_from (c # d # rest) =
     (if c = 39 \<and> d = 39 then 39 # unquote_from rest
      else if c \<noteq> 92 then c # unquote_from (d # rest)
      else (if d = 110 then 10 else if d = 116 then 9 else if d = 114 then 13 else if d = 48 then 0 else d)
        # unquote_from rest)"
| "unquote_from _ = []"

definition unquote :: "bytes \<Rightarrow> bytes" where
  "unquote s = unquote_from (drop 1 s)"

lemma unquote_char: "rest \<noteq> [] \<Longrightarrow> unquote_from (quote_char c @ rest) = c # unquote_from rest"
  by (cases rest) (auto simp: quote_char_def)

text \<open>
  A rendered string literal reads back as the string, whatever bytes it holds: \<open>to_string\<close> of a
  literal is what the lexer turns into that literal.
\<close>

theorem unquote_quote: "unquote (ql_to_string (ql_str s)) = s"
proof -
  have "unquote_from (concat (map quote_char s) @ [39]) = s"
    by (induction s) (simp_all add: unquote_char)
  then show ?thesis
    by (simp add: unquote_def ql_str_def quote_def)
qed

end
