(* ===== verification/QL_Lexer.thy ===== *)
theory QL_Lexer
  imports QL_Ast
begin

text \<open>
  The scanner of the query language, \<open>ql/lexer.l\<close>: at each position the rule with the longest match,
  the first one among equals, with the line and column of every token.
\<close>

section \<open>Tokens\<close>

datatype token =
    NUM u64 | IDENT bytes | STR_LIT bytes
  | SELECT | FROM | WHERE | FILTER | LIMIT | INSERT | INTO | VALUES | UPDATE | SET | DELETE | CREATE | TABLE | PRIMARY | KEY | AS
  | LPAREN | RPAREN | COMMA | SEMI | AND | OR | NOT | EQ | NE | LT | LE | GT | GE | PLUS | MINUS | STAR | SLASH | PERCENT

definition keyword_list :: "(bytes \<times> token) list" where
  "keyword_list =
     [(str ''select'', SELECT), (str ''from'', FROM), (str ''where'', WHERE), (str ''filter'', FILTER), (str ''limit'', LIMIT),
      (str ''insert'', INSERT), (str ''into'', INTO), (str ''values'', VALUES), (str ''update'', UPDATE), (str ''set'', SET),
      (str ''delete'', DELETE), (str ''create'', CREATE), (str ''table'', TABLE), (str ''primary'', PRIMARY), (str ''key'', KEY),
      (str ''as'', AS), (str ''and'', AND), (str ''or'', OR), (str ''not'', NOT)]"

definition is_alpha :: "byte \<Rightarrow> bool" where
  "is_alpha c \<longleftrightarrow> 65 \<le> c \<and> c \<le> 90 \<or> 97 \<le> c \<and> c \<le> 122 \<or> c = 95"

definition is_word_char :: "byte \<Rightarrow> bool" where
  "is_word_char c \<longleftrightarrow> is_alpha c \<or> is_digit c"

definition lower :: "byte \<Rightarrow> byte" where
  "lower c = (if 65 \<le> c \<and> c \<le> 90 then c + 32 else c)"

section \<open>Matches that end by themselves\<close>

text \<open>The length of the rest of a block comment, up to the first star followed by a slash.\<close>

fun comment_end :: "bytes \<Rightarrow> nat option" where
  "comment_end (a # b # s) = (if a = 42 \<and> b = 47 then Some 2 else map_option Suc (comment_end (b # s)))"
| "comment_end _ = None"

text \<open>
  The length of the rest of a string literal, the longest that ends in a quote: a doubled quote goes on
  only if the literal is closed later.
\<close>

fun string_end :: "bytes \<Rightarrow> nat option" where
  "string_end [] = None"
| "string_end [a] = (if a = 39 then Some 1 else None)"
| "string_end (a # b # s) =
     (if a = 39 then (if b = 39 then (case string_end s of Some n \<Rightarrow> Some (n + 2) | None \<Rightarrow> Some 1) else Some 1)
      else if a = 92 then (if b = newline then None else map_option (\<lambda>n. n + 2) (string_end s))
      else if a = newline then None
      else map_option Suc (string_end (b # s)))"

section \<open>One match\<close>

text \<open>A match and its length; an error ends the parse.\<close>

datatype lexeme = Skip nat | Token token nat | Lex_error bytes

definition operators :: "(bytes \<times> token) list" where
  "operators =
     [(str ''>='', GE), (str ''<='', LE), (str ''!='', NE), (str ''<>'', NE), (str ''='', EQ), (str ''<'', LT), (str ''>'', GT),
      (str ''+'', PLUS), (str ''-'', MINUS), (str ''*'', STAR), (str ''/'', SLASH), (str ''%'', PERCENT), (str ''('', LPAREN),
      (str '')'', RPAREN), (str '','', COMMA), (str '';'', SEMI)]"

fun lex_operator :: "(bytes \<times> token) list \<Rightarrow> bytes \<Rightarrow> lexeme" where
  "lex_operator [] s = Lex_error (str ''unexpected character: '' @ take 1 s)"
| "lex_operator ((text, t) # rest) s =
     (if take (length text) s = text then Token t (length text) else lex_operator rest s)"

definition lex_number :: "bytes \<Rightarrow> lexeme" where
  "lex_number s =
     (let digits = takeWhile is_digit s in
      if digits_value digits \<ge> 2 ^ 63 then Lex_error (str ''integer literal out of range: '' @ digits)
      else Token (NUM (word_of_nat (digits_value digits))) (length digits))"

definition lex_word :: "bytes \<Rightarrow> lexeme" where
  "lex_word s =
     (let word = takeWhile is_word_char s in
      case map_of keyword_list (map lower word) of
        Some t \<Rightarrow> Token t (length word)
      | None \<Rightarrow> Token (IDENT word) (length word))"

definition lex_string :: "bytes \<Rightarrow> lexeme" where
  "lex_string s =
     (case string_end (drop 1 s) of
        Some n \<Rightarrow> Token (STR_LIT (unquote (take (n + 1) s))) (n + 1)
      | None \<Rightarrow> Lex_error (str ''unterminated string literal''))"

definition is_blank :: "byte \<Rightarrow> bool" where
  "is_blank c \<longleftrightarrow> c = 32 \<or> c = 9 \<or> c = 13"

definition lex_one :: "bytes \<Rightarrow> lexeme" where
  "lex_one s =
     (let c = hd s in
      if is_blank c then Skip (length (takeWhile is_blank s))
      else if c = newline then Skip 1
      else if take 2 s = str ''--'' then Skip (length (takeWhile (\<lambda>c. c \<noteq> newline) s))
      else if take 2 s = str ''/*'' \<and> comment_end (drop 2 s) \<noteq> None then Skip (the (comment_end (drop 2 s)) + 2)
      else if is_digit c then lex_number s
      else if is_alpha c then lex_word s
      else if c = 39 then lex_string s
      else lex_operator operators s)"

lemma lex_operator_length: "lex_operator ops s = Token t n \<Longrightarrow> (\<forall>(text, t)\<in>set ops. text \<noteq> []) \<Longrightarrow> 0 < n"
  by (induction ops) (auto split: if_splits)

lemma string_end_pos: "string_end s = Some n \<Longrightarrow> 0 < n"
  by (induction s arbitrary: n rule: string_end.induct) (auto split: if_splits option.splits)

lemma lex_one_progress:
  assumes "s \<noteq> []"
  shows "lex_one s = Skip n \<Longrightarrow> 0 < n" and "lex_one s = Token t n \<Longrightarrow> 0 < n"
proof -
  obtain c r where s: "s = c # r"
    using assms by (cases s) auto
  have ops: "\<forall>(text, t)\<in>set operators. text \<noteq> []"
    by (simp add: operators_def str_def)
  show "0 < n" if "lex_one s = Skip n"
  proof -
    have "lex_number s \<noteq> Skip n" "lex_word s \<noteq> Skip n" "lex_string s \<noteq> Skip n"
      by (auto simp: lex_number_def lex_word_def lex_string_def Let_def split: option.splits)
    moreover have "lex_operator ops' s \<noteq> Skip n" for ops'
      by (induction ops') (auto split: if_splits)
    ultimately show ?thesis
      using that by (auto simp: lex_one_def Let_def s newline_def str_def split: if_splits)
  qed
  show "0 < n" if "lex_one s = Token t n"
    using that lex_operator_length [OF _ ops, of s t n]
    by (auto simp: lex_one_def Let_def s lex_number_def lex_word_def lex_string_def is_word_char_def split: if_splits option.splits)
qed

section \<open>A statement\<close>

text \<open>Columns restart after the last newline of a match.\<close>

definition advance :: "bytes \<Rightarrow> int \<times> int \<Rightarrow> int \<times> int" where
  "advance text pos =
     (if newline \<notin> set text then (fst pos, snd pos + int (length text))
      else (fst pos + int (length (filter (\<lambda>c. c = newline) text)), int (length (takeWhile (\<lambda>c. c \<noteq> newline) (rev text))) + 1))"

text \<open>The tokens with their positions, and the error that ends them, if one does.\<close>

function lex :: "int \<times> int \<Rightarrow> bytes \<Rightarrow> (token \<times> int \<times> int) list \<times> ((int \<times> int) \<times> bytes) option" where
  "lex pos s =
     (if s = [] then ([], None) else
      case lex_one s of
        Skip n \<Rightarrow> lex (advance (take n s) pos) (drop n s)
      | Token t n \<Rightarrow> apfst (\<lambda>ts. (t, pos) # ts) (lex (advance (take n s) pos) (drop n s))
      | Lex_error msg \<Rightarrow> ([], Some (pos, msg)))"
  by pat_completeness auto
termination
  using lex_one_progress by (relation "measure (\<lambda>(pos, s). length s)") auto

declare lex.simps [simp del]

definition tokens :: "bytes \<Rightarrow> token list" where
  "tokens sql = map fst (fst (lex (1, 1) sql))"

section \<open>What the tokens carry\<close>

text \<open>Identifiers have no white space, and numbers are at most the largest \<open>int64_t\<close>.\<close>

definition token_ok :: "token \<Rightarrow> bool" where
  "token_ok t \<longleftrightarrow> (case t of IDENT name \<Rightarrow> plain_name name | NUM v \<Rightarrow> unat v < 2 ^ 63 | _ \<Rightarrow> True)"

lemma word_char_no_space: "is_word_char c \<Longrightarrow> \<not> is_space c"
  by (auto simp: is_word_char_def is_alpha_def is_digit_def is_space_def word_le_nat_alt)

lemma keyword_ok: "map_of keyword_list w = Some t \<Longrightarrow> token_ok t"
  by (auto simp: keyword_list_def token_ok_def split: if_splits)

lemma lex_operator_ok: "lex_operator ops s = Token t n \<Longrightarrow> (\<forall>(text, t)\<in>set ops. token_ok t) \<Longrightarrow> token_ok t"
  by (induction ops) (auto split: if_splits)

lemma lex_one_ok:
  assumes "s \<noteq> []" and "lex_one s = Token t n"
  shows "token_ok t"
proof -
  obtain c r where s: "s = c # r"
    using assms(1) by (cases s) auto
  have word: "token_ok t" if "is_alpha c" "lex_word s = Token t n"
  proof -
    have "plain_name (takeWhile is_word_char s)"
      using that(1) word_char_no_space by (auto simp: plain_name_def s is_word_char_def dest: set_takeWhileD)
    then show ?thesis
      using that(2) keyword_ok by (auto simp: lex_word_def Let_def token_ok_def split: option.splits)
  qed
  have number: "token_ok t" if "lex_number s = Token t n"
  proof -
    let ?v = "digits_value (takeWhile is_digit s)"
    have "?v < 2 ^ 63" "t = NUM (word_of_nat ?v)"
      using that by (auto simp: lex_number_def Let_def split: if_splits)
    then show ?thesis
      by (simp add: token_ok_def unat_of_nat)
  qed
  have "\<forall>(text, t)\<in>set operators. token_ok t"
    by (simp add: operators_def token_ok_def)
  then show ?thesis
    using assms(2) word number lex_operator_ok [of operators s t n]
    by (auto simp: lex_one_def Let_def s lex_string_def token_ok_def split: if_splits option.splits)
qed

lemma lex_ok: "(t, p) \<in> set (fst (lex pos s)) \<Longrightarrow> token_ok t"
proof (induction pos s rule: lex.induct)
  case (1 pos s)
  show ?case
  proof (cases "s = []")
    case False
    then show ?thesis
      using 1 lex_one_ok [OF False] by (cases "lex_one s") (auto simp: lex.simps [of pos s])
  qed (use 1 in \<open>simp add: lex.simps\<close>)
qed

lemma tokens_ok: "t \<in> set (tokens sql) \<Longrightarrow> token_ok t"
  unfolding tokens_def using lex_ok by fastforce

end
