(* ===== verification/QL_Eval.thy ===== *)
theory QL_Eval
  imports QL_Ast "HOL-Library.Signed_Division"
begin

text \<open>
  Expression evaluation, \<open>ql_eval\<close> of \<open>ql/ql_exec\<close>. The contract is typing:
  a well-typed expression over a row of the right types evaluates to a value of its type, or reports
  one of the three arithmetic errors.
\<close>

section \<open>Values\<close>

definition I64_MIN :: u64 where
  "I64_MIN = push_bit 63 1"

definition make_bool :: "bool \<Rightarrow> Value" where
  "make_bool v = make_int64 (if v then 1 else 0)"

definition compare :: "Value \<Rightarrow> Value \<Rightarrow> int ql" where
  "compare lhs rhs =
     (if vtype lhs \<noteq> vtype rhs then qerr (str ''cannot compare a number with a string'')
      else if vtype lhs = INT_64 then
        qret (if sint (int64 lhs) < sint (int64 rhs) then -1 else if sint (int64 lhs) > sint (int64 rhs) then 1 else 0)
      else
        qret (if vstr lhs < vstr rhs then -1 else if vstr lhs > vstr rhs then 1 else 0))"

definition cmp_holds :: "QLNodeType \<Rightarrow> int \<Rightarrow> bool" where
  "cmp_holds type c =
     (case type of QL_CMP_EQ \<Rightarrow> c = 0 | QL_CMP_NE \<Rightarrow> c \<noteq> 0 | QL_CMP_LT \<Rightarrow> c < 0 | QL_CMP_LE \<Rightarrow> c \<le> 0
      | QL_CMP_GT \<Rightarrow> c > 0 | _ \<Rightarrow> c \<ge> 0)"

text \<open>The overflow builtins report whether the exact result is outside the 64-bit range.\<close>

definition exact64 :: "int \<Rightarrow> u64 ql" where
  "exact64 i = (if - (2 ^ 63) \<le> i \<and> i < 2 ^ 63 then qret (word_of_int i) else qerr (str ''integer overflow''))"

definition arith :: "QLNodeType \<Rightarrow> u64 \<Rightarrow> u64 \<Rightarrow> u64 ql" where
  "arith type a b =
     (case type of
        QL_ADD \<Rightarrow> exact64 (sint a + sint b)
      | QL_SUB \<Rightarrow> exact64 (sint a - sint b)
      | QL_MUL \<Rightarrow> exact64 (sint a * sint b)
      | _ \<Rightarrow>
          if b = 0 then qerr (if type = QL_DIV then str ''division by zero'' else str ''modulo by zero'')
          else if a = I64_MIN \<and> b = -1 then qerr (str ''integer overflow'')
          else qret (if type = QL_DIV then word_of_int (sint a sdiv sint b) else word_of_int (sint a smod sint b)))"

section \<open>Evaluation\<close>

text \<open>\<open>ql_unary\<close> and \<open>ql_binary\<close>: what a node makes of the values of its kids.\<close>

definition ql_unary :: "QLNodeType \<Rightarrow> Value \<Rightarrow> Value ql" where
  "ql_unary type v =
     (if type = QL_NEG then
        if vtype v \<noteq> INT_64 then qerr (str ''unary minus needs a number'')
        else qbind (arith QL_SUB 0 (int64 v)) (\<lambda>r. qret (make_int64 r))
      else
        if vtype v \<noteq> INT_64 then qerr (str ''NOT needs a boolean'')
        else qret (make_bool (int64 v = 0)))"

definition ql_binary :: "QLNodeType \<Rightarrow> Value \<Rightarrow> Value \<Rightarrow> Value ql" where
  "ql_binary type a b =
     (if type \<in> {QL_AND, QL_OR} then
        if vtype a \<noteq> INT_64 \<or> vtype b \<noteq> INT_64
        then qerr ((if type = QL_AND then str ''AND'' else str ''OR'') @ str '' needs booleans'')
        else
          let lhs = int64 a \<noteq> 0; rhs = int64 b \<noteq> 0
          in qret (make_bool (if type = QL_AND then lhs \<and> rhs else lhs \<or> rhs))
      else if type \<in> {QL_CMP_EQ, QL_CMP_NE, QL_CMP_LT, QL_CMP_LE, QL_CMP_GT, QL_CMP_GE} then
        qbind (compare a b) (\<lambda>c. qret (make_bool (cmp_holds type c)))
      else
        if vtype a \<noteq> INT_64 \<or> vtype b \<noteq> INT_64 then qerr (str ''arithmetic needs numbers'')
        else qbind (arith type (int64 a) (int64 b)) (\<lambda>r. qret (make_int64 r)))"

fun ql_eval :: "QLNode \<Rightarrow> Record \<Rightarrow> Value ql" where
  "ql_eval (QLNode type v kids) env =
     (if type \<in> {QL_I64, QL_STR} then qret v
      else if type = QL_SYM then
        (case Record_get env (vstr v) of
           None \<Rightarrow> qerr (str ''unknown column: '' @ vstr v)
         | Some x \<Rightarrow> qret x)
      else if type \<in> {QL_NEG, QL_NOT} then
        (case kids of
           k # _ \<Rightarrow> qbind (ql_eval k env) (ql_unary type)
         | _ \<Rightarrow> Inl Bad_access)
      else if type = QL_TUP then qerr (str ''a tuple is not a value'')
      else if type = QL_STAR then qerr (str ''* is only valid in a SELECT list'')
      else if type = QL_UNINIT then qerr (str ''empty expression'')
      else
        (case kids of
           k0 # k1 # _ \<Rightarrow> qbind (ql_eval k0 env) (\<lambda>a. qbind (ql_eval k1 env) (ql_binary type a))
         | k0 # _ \<Rightarrow> qbind (ql_eval k0 env) (\<lambda>_. Inl Bad_access)
         | _ \<Rightarrow> Inl Bad_access))"

declare ql_eval.simps [simp del]

section \<open>Typing\<close>

text \<open>\<open>ql_type G node\<close>: the type of an expression over columns of the types \<open>G\<close>, if it has one.\<close>

definition is_cmp :: "QLNodeType \<Rightarrow> bool" where
  "is_cmp t \<longleftrightarrow> t \<in> {QL_CMP_EQ, QL_CMP_NE, QL_CMP_LT, QL_CMP_LE, QL_CMP_GT, QL_CMP_GE}"

fun ql_type :: "(bytes \<rightharpoonup> ValueType) \<Rightarrow> QLNode \<Rightarrow> ValueType option" where
  "ql_type G (QLNode t v kids) =
     (if t = QL_I64 then (if vtype v = INT_64 then Some INT_64 else None)
      else if t = QL_STR then (if vtype v = BYTES then Some BYTES else None)
      else if t = QL_SYM then G (vstr v)
      else if t \<in> {QL_NEG, QL_NOT} then
        (case kids of [k] \<Rightarrow> if ql_type G k = Some INT_64 then Some INT_64 else None | _ \<Rightarrow> None)
      else if t \<in> {QL_TUP, QL_STAR, QL_UNINIT} then None
      else
        (case kids of
           [k0, k1] \<Rightarrow>
             if ql_type G k0 = None \<or> ql_type G k0 \<noteq> ql_type G k1 then None
             else if is_cmp t \<or> ql_type G k0 = Some INT_64 then Some INT_64 else None
         | _ \<Rightarrow> None))"

declare ql_type.simps [simp del]

definition row_typed :: "(bytes \<rightharpoonup> ValueType) \<Rightarrow> Record \<Rightarrow> bool" where
  "row_typed G env \<longleftrightarrow> (\<forall>c T. G c = Some T \<longrightarrow> (\<exists>v. Record_get env c = Some v \<and> vtype v = T))"

definition arith_errors :: "bytes set" where
  "arith_errors = {str ''integer overflow'', str ''division by zero'', str ''modulo by zero''}"

text \<open>\<open>evaluates T r\<close>: the outcome is a value of type \<open>T\<close>, or an arithmetic error.\<close>

definition evaluates :: "ValueType \<Rightarrow> Value ql \<Rightarrow> bool" where
  "evaluates T r \<longleftrightarrow> (\<exists>v. r = qret v \<and> vtype v = T) \<or> (\<exists>e\<in>arith_errors. r = qerr e)"

lemma evaluates_qret [simp]: "evaluates T (qret v) \<longleftrightarrow> vtype v = T"
  by (auto simp: evaluates_def)

lemma evaluates_bind: "evaluates T m \<Longrightarrow> (\<And>v. vtype v = T \<Longrightarrow> evaluates T' (f v)) \<Longrightarrow> evaluates T' (qbind m f)"
  unfolding evaluates_def [of T m] by (elim disjE exE bexE conjE) (auto simp: evaluates_def [of T' "qerr _"])

lemma arith_outcome: "(\<exists>r. arith t a b = qret r) \<or> (\<exists>e\<in>arith_errors. arith t a b = qerr e)"
  by (auto simp: arith_def exact64_def arith_errors_def split: QLNodeType.split)

lemma evaluates_arith: "evaluates INT_64 (qbind (arith t a b) (\<lambda>r. qret (make_int64 r)))"
  using arith_outcome [of t a b] by (auto simp: evaluates_def)

lemma vtype_make_bool [simp]: "vtype (make_bool b) = INT_64"
  by (simp add: make_bool_def)

lemma evaluates_unary: "vtype v = INT_64 \<Longrightarrow> evaluates INT_64 (ql_unary t v)"
  by (simp add: ql_unary_def evaluates_arith)

lemma evaluates_cmp: "is_cmp t \<Longrightarrow> vtype a = vtype b \<Longrightarrow> evaluates INT_64 (ql_binary t a b)"
  by (auto simp: ql_binary_def is_cmp_def compare_def)

lemma evaluates_binary: "vtype a = INT_64 \<Longrightarrow> vtype b = INT_64 \<Longrightarrow> \<not> is_cmp t \<Longrightarrow> evaluates INT_64 (ql_binary t a b)"
  by (simp add: ql_binary_def evaluates_arith Let_def is_cmp_def)

lemma eval_typed:
  assumes row: "row_typed G env"
  shows "ql_type G node = Some T \<Longrightarrow> evaluates T (ql_eval node env)"
proof (induction node arbitrary: T)
  case (QLNode t v kids)
  consider "t \<in> {QL_I64, QL_STR, QL_SYM}" | "t \<in> {QL_NEG, QL_NOT}" | "t \<in> {QL_TUP, QL_STAR, QL_UNINIT}"
    | "t \<notin> {QL_I64, QL_STR, QL_SYM, QL_NEG, QL_NOT, QL_TUP, QL_STAR, QL_UNINIT}"
    by blast
  then show ?case
  proof cases
    case 1
    then show ?thesis
      using QLNode.prems row by (force simp: ql_type.simps ql_eval.simps row_typed_def split: if_splits)
  next
    case 2
    then obtain k where k: "kids = [k]" "ql_type G k = Some INT_64" "T = INT_64"
      using QLNode.prems by (auto simp: ql_type.simps split: if_splits list.splits)
    have "evaluates INT_64 (ql_eval k env)"
      using QLNode.IH [of k] k by simp
    then show ?thesis
      using 2 k(1,3) by (auto simp: ql_eval.simps intro: evaluates_bind evaluates_unary)
  next
    case 3
    then show ?thesis
      using QLNode.prems by (auto simp: ql_type.simps)
  next
    case 4
    then obtain k0 k1 T0 where k: "kids = [k0, k1]" "ql_type G k0 = Some T0" "ql_type G k1 = Some T0" "T = INT_64"
        "is_cmp t \<or> T0 = INT_64"
      using QLNode.prems by (cases "ql_type G (hd kids)") (auto simp: ql_type.simps split: if_splits list.splits)
    have "evaluates T0 (ql_eval k0 env)" "evaluates T0 (ql_eval k1 env)"
      using QLNode.IH [of k0] QLNode.IH [of k1] k by simp_all
    moreover have "evaluates INT_64 (ql_binary t a b)" if "vtype a = T0" "vtype b = T0" for a b
      using k(5) that evaluates_cmp [of t a b] evaluates_binary [of a b t] by metis
    ultimately have "evaluates INT_64 (qbind (ql_eval k0 env) (\<lambda>a. qbind (ql_eval k1 env) (ql_binary t a)))"
      by (intro evaluates_bind) auto
    then show ?thesis
      using 4 k(1,4) by (simp add: ql_eval.simps)
  qed
qed

text \<open>
  C27: well-typed expressions do not go wrong. Over a row whose columns have the types the expression
  assumes, evaluation ends in a value of the expression's type, or in one of the three arithmetic
  errors (overflow, division or modulo by zero): there is no type error, no unknown column, and no
  access to a missing operand.
\<close>

theorem ql_eval_typed:
  assumes "row_typed G env" and "ql_type G node = Some T"
  shows "(\<exists>v. ql_eval node env = Inr (Inr v) \<and> vtype v = T) \<or> (\<exists>e\<in>arith_errors. ql_eval node env = Inr (Inl e))"
  using eval_typed [OF assms] by (simp add: evaluates_def qret_def qerr_def)

text \<open>A row with \<open>a = 5\<close>, and \<open>10 / a < 3\<close>.\<close>

definition sample_row :: Record where
  "sample_row = add_int64 empty_Record (str ''a'') 5"

definition sample_expr :: QLNode where
  "sample_expr = ql_binop QL_CMP_LT (ql_binop QL_DIV (ql_int64 10) (ql_sym (str ''a''))) (ql_int64 3)"

lemma ql_eval_typed_witness: "ql_eval sample_expr sample_row = Inr (Inr (make_bool True)) \<and> vtype (make_bool True) = INT_64"
proof -
  have row: "row_typed [str ''a'' \<mapsto> INT_64] sample_row"
    by (simp add: row_typed_def sample_row_def add_int64_def empty_Record_def Record_get_def)
  have ty: "ql_type [str ''a'' \<mapsto> INT_64] sample_expr = Some INT_64"
    by (simp add: sample_expr_def ql_defs ql_type.simps is_cmp_def)
  have "ql_eval sample_expr sample_row = Inr (Inr (make_bool True))"
    by (simp add: sample_expr_def sample_row_def ql_defs ql_eval.simps ql_binary_def arith_def compare_def cmp_holds_def
        add_int64_def empty_Record_def Record_get_def qret_def signed_divide_int_def I64_MIN_def)
  then show ?thesis
    using ql_eval_typed [OF row ty] by auto
qed

end
