(* ===== verification/QL_Parse.thy ===== *)
theory QL_Parse
  imports QL_Lexer QL_Eval
begin

text \<open>
  The grammar of the query language, \<open>ql/parser.y\<close>, and \<open>parse_statement\<close>: parse trees with one
  constructor per production, the tokens a tree stands for, and the actions, which build statements. Bison
  makes the parser; which tree it picks where precedence decides is its own, so it is a parameter. Error
  positions other than those of tokens are not kept: an action that throws is its message.
\<close>

section \<open>Helpers of the actions\<close>

definition row_from_expr :: "QLNode \<Rightarrow> QLNode list" where
  "row_from_expr e = (if q_type e = QL_TUP then q_kids e else [e])"

definition add_select_item :: "QLSelect \<Rightarrow> bytes \<times> QLNode \<Rightarrow> QLSelect" where
  "add_select_item sel item =
     (let name = (if fst item = [] then
                    (if q_type (snd item) = QL_SYM then vstr (q_val (snd item))
                     else str ''col'' @ show_nat (length (sel_output sel) + 1))
                  else fst item)
      in sel\<lparr>sel_names := sel_names sel @ [name], sel_output := sel_output sel @ [snd item]\<rparr>)"

definition upper :: "byte \<Rightarrow> byte" where
  "upper c = (if 97 \<le> c \<and> c \<le> 122 then c - 32 else c)"

definition value_type_from_name :: "bytes \<Rightarrow> ValueType option" where
  "value_type_from_name name =
     (let u = map upper name in
      if u = str ''INT64'' \<or> u = str ''INT'' \<or> u = str ''INTEGER'' \<or> u = str ''BIGINT'' then Some INT_64
      else if u = str ''BYTES'' \<or> u = str ''STR'' \<or> u = str ''STRING'' \<or> u = str ''TEXT'' \<or> u = str ''VARCHAR''
           \<or> u = str ''BLOB'' then Some BYTES
      else None)"

text \<open>\<open>build_table_def\<close>: its check for duplicates, its loop over the key columns, and the rest of the columns.\<close>

fun duplicate_col :: "(bytes \<times> ValueType) list \<Rightarrow> bytes option" where
  "duplicate_col [] = None"
| "duplicate_col (c # cs) = (if fst c \<in> fst ` set cs then Some (fst c) else duplicate_col cs)"

fun add_key_cols :: "(bytes \<times> ValueType) list \<Rightarrow> bytes list \<Rightarrow> bool list \<Rightarrow> TableDef \<Rightarrow> bytes + (bool list \<times> TableDef)" where
  "add_key_cols cols [] taken builder = Inr (taken, builder)"
| "add_key_cols cols (key # keys) taken builder =
     (let at = length (takeWhile (\<lambda>c. fst c \<noteq> key) cols) in
      if at = length cols then Inl (str ''primary key column is not defined: '' @ key)
      else if taken ! at then Inl (str ''duplicate primary key column: '' @ key)
      else add_key_cols cols keys (taken[at := True]) (add_col builder (fst (cols ! at)) (snd (cols ! at))))"

fun add_other_cols :: "(bytes \<times> ValueType) list \<Rightarrow> bool list \<Rightarrow> TableDef \<Rightarrow> TableDef" where
  "add_other_cols (c # cs) (t # ts) builder =
     add_other_cols cs ts (if t then builder else add_col builder (fst c) (snd c))"
| "add_other_cols _ _ builder = builder"

definition build_table_def :: "bytes \<Rightarrow> (bytes \<times> ValueType) list \<Rightarrow> bytes list \<Rightarrow> bytes + TableDef" where
  "build_table_def name cols pk =
     (case duplicate_col cols of
        Some c \<Rightarrow> Inl (str ''duplicate column: '' @ c)
      | None \<Rightarrow>
          rbind (add_key_cols cols pk (replicate (length cols) False) (TableDefBuilder name)) (\<lambda>(taken, builder).
          Inr (set_pkeys (add_other_cols cols taken builder) (int (length pk)))))"

section \<open>Expressions\<close>

datatype expr =
    E_or expr expr | E_and expr expr | E_not expr
  | E_eq expr expr | E_ne expr expr | E_lt expr expr | E_le expr expr | E_gt expr expr | E_ge expr expr
  | E_plus expr expr | E_minus expr expr | E_star expr expr | E_slash expr expr | E_percent expr expr | E_neg expr
  | E_num u64 | E_str bytes | E_ident bytes | E_paren expr | E_tuple expr expr "expr list"

fun expr_action :: "expr \<Rightarrow> QLNode" where
  "expr_action (E_or a b) = ql_binop QL_OR (expr_action a) (expr_action b)"
| "expr_action (E_and a b) = ql_binop QL_AND (expr_action a) (expr_action b)"
| "expr_action (E_not a) = ql_unop QL_NOT (expr_action a)"
| "expr_action (E_eq a b) = ql_binop QL_CMP_EQ (expr_action a) (expr_action b)"
| "expr_action (E_ne a b) = ql_binop QL_CMP_NE (expr_action a) (expr_action b)"
| "expr_action (E_lt a b) = ql_binop QL_CMP_LT (expr_action a) (expr_action b)"
| "expr_action (E_le a b) = ql_binop QL_CMP_LE (expr_action a) (expr_action b)"
| "expr_action (E_gt a b) = ql_binop QL_CMP_GT (expr_action a) (expr_action b)"
| "expr_action (E_ge a b) = ql_binop QL_CMP_GE (expr_action a) (expr_action b)"
| "expr_action (E_plus a b) = ql_binop QL_ADD (expr_action a) (expr_action b)"
| "expr_action (E_minus a b) = ql_binop QL_SUB (expr_action a) (expr_action b)"
| "expr_action (E_star a b) = ql_binop QL_MUL (expr_action a) (expr_action b)"
| "expr_action (E_slash a b) = ql_binop QL_DIV (expr_action a) (expr_action b)"
| "expr_action (E_percent a b) = ql_binop QL_MOD (expr_action a) (expr_action b)"
| "expr_action (E_neg a) = ql_unop QL_NEG (expr_action a)"
| "expr_action (E_num v) = ql_int64 v"
| "expr_action (E_str s) = ql_str s"
| "expr_action (E_ident name) = ql_sym name"
| "expr_action (E_paren a) = expr_action a"
| "expr_action (E_tuple a b es) = ql_tuple (expr_action a # expr_action b # map expr_action es)"

definition commas :: "token list list \<Rightarrow> token list" where
  "commas tss = (case tss of [] \<Rightarrow> [] | ts # rest \<Rightarrow> ts @ concat (map (\<lambda>ts. COMMA # ts) rest))"

fun expr_tokens :: "expr \<Rightarrow> token list" where
  "expr_tokens (E_or a b) = expr_tokens a @ OR # expr_tokens b"
| "expr_tokens (E_and a b) = expr_tokens a @ AND # expr_tokens b"
| "expr_tokens (E_not a) = NOT # expr_tokens a"
| "expr_tokens (E_eq a b) = expr_tokens a @ EQ # expr_tokens b"
| "expr_tokens (E_ne a b) = expr_tokens a @ NE # expr_tokens b"
| "expr_tokens (E_lt a b) = expr_tokens a @ LT # expr_tokens b"
| "expr_tokens (E_le a b) = expr_tokens a @ LE # expr_tokens b"
| "expr_tokens (E_gt a b) = expr_tokens a @ GT # expr_tokens b"
| "expr_tokens (E_ge a b) = expr_tokens a @ GE # expr_tokens b"
| "expr_tokens (E_plus a b) = expr_tokens a @ PLUS # expr_tokens b"
| "expr_tokens (E_minus a b) = expr_tokens a @ MINUS # expr_tokens b"
| "expr_tokens (E_star a b) = expr_tokens a @ STAR # expr_tokens b"
| "expr_tokens (E_slash a b) = expr_tokens a @ SLASH # expr_tokens b"
| "expr_tokens (E_percent a b) = expr_tokens a @ PERCENT # expr_tokens b"
| "expr_tokens (E_neg a) = MINUS # expr_tokens a"
| "expr_tokens (E_num v) = [NUM v]"
| "expr_tokens (E_str s) = [STR_LIT s]"
| "expr_tokens (E_ident name) = [IDENT name]"
| "expr_tokens (E_paren a) = LPAREN # expr_tokens a @ [RPAREN]"
| "expr_tokens (E_tuple a b es) =
     LPAREN # expr_tokens a @ COMMA # expr_tokens b @ concat (map (\<lambda>e. COMMA # expr_tokens e) es) @ [RPAREN]"

section \<open>Statements\<close>

datatype select_item = Item_star | Item_expr expr | Item_as expr bytes

datatype filter_clause = No_filter | Where_filter expr | Filter_filter expr

datatype limit_clause = No_limit | Limit u64 | Offset_limit u64 u64

datatype stmt =
    Create_stmt bytes "(bytes \<times> bytes) list" "bytes list"
  | Select_stmt "select_item list" bytes filter_clause limit_clause
  | Insert_stmt bytes "bytes list" "expr list"
  | Update_stmt bytes "(bytes \<times> expr) list" filter_clause limit_clause
  | Delete_stmt bytes filter_clause limit_clause

fun select_item_action :: "select_item \<Rightarrow> bytes \<times> QLNode" where
  "select_item_action Item_star = (str ''*'', ql_star)"
| "select_item_action (Item_expr e) = ([], expr_action e)"
| "select_item_action (Item_as e name) = (name, expr_action e)"

fun filter_action :: "filter_clause \<Rightarrow> QLNode" where
  "filter_action No_filter = empty_QLNode"
| "filter_action (Where_filter e) = expr_action e"
| "filter_action (Filter_filter e) = expr_action e"

fun limit_action :: "limit_clause \<Rightarrow> int \<times> int" where
  "limit_action No_limit = (0, -1)"
| "limit_action (Limit n) = (0, sint n)"
| "limit_action (Offset_limit m n) = (sint m, sint n)"

definition scan_action :: "bytes \<Rightarrow> filter_clause \<Rightarrow> limit_clause \<Rightarrow> QLScan" where
  "scan_action table f l = \<lparr>sc_table = table, sc_key1 = empty_QLNode, sc_key2 = empty_QLNode, sc_filter = filter_action f,
     sc_offset = fst (limit_action l), sc_limit = snd (limit_action l)\<rparr>"

fun col_defs_action :: "(bytes \<times> bytes) list \<Rightarrow> bytes + (bytes \<times> ValueType) list" where
  "col_defs_action [] = Inr []"
| "col_defs_action ((c, type) # cs) =
     (case value_type_from_name type of
        None \<Rightarrow> Inl (str ''unknown column type: '' @ type)
      | Some t \<Rightarrow> rbind (col_defs_action cs) (\<lambda>rest. Inr ((c, t) # rest)))"

fun stmt_action :: "stmt \<Rightarrow> bytes + QLStatement" where
  "stmt_action (Create_stmt name cols pk) =
     rbind (col_defs_action cols) (\<lambda>cols.
     rbind (build_table_def name cols pk) (\<lambda>tdef. Inr (Create_Table \<lparr>qc_def = tdef\<rparr>)))"
| "stmt_action (Select_stmt items table f l) =
     Inr (Select ((foldl add_select_item \<lparr>sel_scan = scan_action table f l, sel_names = [], sel_output = []\<rparr>
       (map select_item_action items))))"
| "stmt_action (Insert_stmt table cols rows) =
     Inr (Insert \<lparr>qi_table = table, qi_mode = INSERT_ONLY, qi_names = cols, qi_values = map (row_from_expr \<circ> expr_action) rows\<rparr>)"
| "stmt_action (Update_stmt table sets f l) =
     Inr (Update \<lparr>qu_scan = scan_action table f l, qu_names = map fst sets, qu_values = map (expr_action \<circ> snd) sets\<rparr>)"
| "stmt_action (Delete_stmt table f l) = Inr (Delete \<lparr>qd_scan = scan_action table f l\<rparr>)"

fun filter_tokens :: "filter_clause \<Rightarrow> token list" where
  "filter_tokens No_filter = []"
| "filter_tokens (Where_filter e) = WHERE # expr_tokens e"
| "filter_tokens (Filter_filter e) = FILTER # expr_tokens e"

fun limit_tokens :: "limit_clause \<Rightarrow> token list" where
  "limit_tokens No_limit = []"
| "limit_tokens (Limit n) = [LIMIT, NUM n]"
| "limit_tokens (Offset_limit m n) = [LIMIT, NUM m, COMMA, NUM n]"

fun item_tokens :: "select_item \<Rightarrow> token list" where
  "item_tokens Item_star = [STAR]"
| "item_tokens (Item_expr e) = expr_tokens e"
| "item_tokens (Item_as e name) = expr_tokens e @ [AS, IDENT name]"

fun stmt_tokens :: "stmt \<Rightarrow> token list" where
  "stmt_tokens (Create_stmt name cols pk) =
     [CREATE, TABLE, IDENT name, LPAREN] @ commas (map (\<lambda>(c, t). [IDENT c, IDENT t]) cols)
       @ [COMMA, PRIMARY, KEY, LPAREN] @ commas (map (\<lambda>c. [IDENT c]) pk) @ [RPAREN, RPAREN]"
| "stmt_tokens (Select_stmt items table f l) =
     [SELECT] @ commas (map item_tokens items) @ [FROM, IDENT table] @ filter_tokens f @ limit_tokens l"
| "stmt_tokens (Insert_stmt table cols rows) =
     [INSERT, INTO, IDENT table, LPAREN] @ commas (map (\<lambda>c. [IDENT c]) cols) @ [RPAREN, VALUES] @ commas (map expr_tokens rows)"
| "stmt_tokens (Update_stmt table sets f l) =
     [UPDATE, IDENT table, SET] @ commas (map (\<lambda>(c, e). IDENT c # EQ # expr_tokens e) sets) @ filter_tokens f @ limit_tokens l"
| "stmt_tokens (Delete_stmt table f l) = [DELETE, FROM, IDENT table] @ filter_tokens f @ limit_tokens l"

text \<open>Lists in a statement have at least one element.\<close>

fun stmt_ok :: "stmt \<Rightarrow> bool" where
  "stmt_ok (Create_stmt name cols pk) \<longleftrightarrow> cols \<noteq> [] \<and> pk \<noteq> []"
| "stmt_ok (Select_stmt items table f l) \<longleftrightarrow> items \<noteq> []"
| "stmt_ok (Insert_stmt table cols rows) \<longleftrightarrow> cols \<noteq> [] \<and> rows \<noteq> []"
| "stmt_ok (Update_stmt table sets f l) \<longleftrightarrow> sets \<noteq> []"
| "stmt_ok (Delete_stmt table f l) \<longleftrightarrow> True"

section \<open>Parsing\<close>

record ParseContext =
  pc_out :: QLStatement
  pc_err :: bytes

text \<open>
  \<open>parse_statement\<close>, over a statement that starts as the first alternative's default. \<open>start\<close> tells whether flex could set up a scanner, and \<open>run\<close> is the generated parser
  over the generated scanner: its result code and the context it leaves.
\<close>

definition parse_statement :: "bool \<Rightarrow> (bytes \<Rightarrow> ParseContext \<Rightarrow> int \<times> ParseContext) \<Rightarrow> bytes \<Rightarrow> QLStatement ql" where
  "parse_statement start run sql =
     (if \<not> start then qerr (str ''failed to start the lexer'') else
      case run sql \<lparr>pc_out = Create_Table \<lparr>qc_def = TableDefBuilder []\<rparr>, pc_err = []\<rparr> of (rc, ctx) \<Rightarrow>
        if rc \<noteq> 0 then qerr (if pc_err ctx = [] then str ''syntax error'' else pc_err ctx)
        else qret (pc_out ctx))"

text \<open>
  What is relied on of bison: it accepts only if the input lexes, the tokens are those of a tree of the
  grammar, with an optional semicolon, and the actions of that tree ran without throwing.
\<close>

definition bison :: "(bytes \<Rightarrow> ParseContext \<Rightarrow> int \<times> ParseContext) \<Rightarrow> bool" where
  "bison run \<longleftrightarrow> (\<forall>sql ctx ctx'. run sql ctx = (0, ctx') \<longrightarrow> snd (lex (1, 1) sql) = None
     \<and> (\<exists>tree out. stmt_ok tree \<and> (tokens sql = stmt_tokens tree \<or> tokens sql = stmt_tokens tree @ [SEMI])
          \<and> stmt_action tree = Inr out \<and> pc_out ctx' = out))"

end
