(* ===== verification/Encoding.thy ===== *)
theory Encoding
  imports Values
begin

text \<open>
  \<open>encoding/order_preserving\<close>: encodings of column values whose byte order is the order of the
  values. The component's contract is that encoding is a strictly monotone map of value lists of the
  same types into byte strings, and that decoding inverts it and rejects everything else.
\<close>

unbundle bit_operations_syntax

section \<open>Signed integers\<close>

definition SIGN_BIT :: u64 where
  "SIGN_BIT = push_bit 63 1"

definition encode_int64 :: "bytes \<Rightarrow> u64 \<Rightarrow> bytes" where
  "encode_int64 out v =
     (let u = v + SIGN_BIT
      in out @ map (\<lambda>shift. ucast (drop_bit shift u)) [56, 48, 40, 32, 24, 16, 8, 0])"

definition decode_int64 :: "bytes \<Rightarrow> nat \<Rightarrow> (u64 \<times> nat) res" where
  "decode_int64 data pos =
     (if pos + 8 > length data then Inl (Invalid_argument ''order_preserving: truncated int64'')
      else let u = foldl (\<lambda>u i. push_bit 8 u OR ucast (data ! (pos + i))) 0 [0..<8]
           in Inr (u - SIGN_BIT, pos + 8))"

section \<open>Byte strings\<close>

definition escape_char :: "byte \<Rightarrow> bytes" where
  "escape_char c = (if c \<le> 0x01 then [0x01, c + 1] else [c])"

definition escape_string :: "bytes \<Rightarrow> bytes" where
  "escape_string s =
     (if s \<noteq> [] \<and> hd s \<ge> 0xfe then [0xfe] else []) @ concat (map escape_char s)"

fun unescape_from :: "bytes \<Rightarrow> bytes res" where
  "unescape_from [] = Inr []"
| "unescape_from (c # cs) =
     (if c \<noteq> 0x01 then rbind (unescape_from cs) (\<lambda>out. Inr (c # out))
      else case cs of
          [] \<Rightarrow> Inl (Invalid_argument ''order_preserving: bad escape sequence'')
        | d # ds \<Rightarrow>
            (if d \<noteq> 0x01 \<and> d \<noteq> 0x02
             then Inl (Invalid_argument ''order_preserving: bad escape sequence'')
             else rbind (unescape_from ds) (\<lambda>out. Inr ((d - 1) # out))))"

definition unescape_string :: "bytes \<Rightarrow> bytes res" where
  "unescape_string s =
     (if s \<noteq> [] \<and> hd s \<ge> 0xfe
      then (if hd s \<noteq> 0xfe \<or> length s < 2 \<or> s ! 1 < 0xfe
            then Inl (Invalid_argument ''order_preserving: bad escape sequence'')
            else unescape_from (tl s))
      else unescape_from s)"

definition encode_bytes :: "bytes \<Rightarrow> bytes \<Rightarrow> bytes" where
  "encode_bytes out s = out @ escape_string s @ [0]"

text \<open>\<open>std::string::find\<close> of a NUL from a position, \<open>npos\<close> as \<open>None\<close>.\<close>

fun find_zero :: "bytes \<Rightarrow> nat option" where
  "find_zero [] = None"
| "find_zero (c # cs) = (if c = 0 then Some 0 else map_option Suc (find_zero cs))"

definition decode_bytes :: "bytes \<Rightarrow> nat \<Rightarrow> (bytes \<times> nat) res" where
  "decode_bytes data pos =
     (case find_zero (drop pos data) of
        None \<Rightarrow> Inl (Invalid_argument ''order_preserving: unterminated bytes'')
      | Some n \<Rightarrow>
          rbind (unescape_string (take n (drop pos data))) (\<lambda>s. Inr (s, pos + n + 1)))"

section \<open>Lists of values\<close>

fun encode_values_from :: "bytes \<Rightarrow> Value list \<Rightarrow> bytes res" where
  "encode_values_from out [] = Inr out"
| "encode_values_from out (v # vs) =
     (case vtype v of
        INT_64 \<Rightarrow> encode_values_from (encode_int64 out (int64 v)) vs
      | BYTES \<Rightarrow> encode_values_from (encode_bytes out (vstr v)) vs
      | ERROR \<Rightarrow> Inl (Invalid_argument ''order_preserving: cannot encode an ERROR value''))"

definition encode_values :: "Value list \<Rightarrow> bytes res" where
  "encode_values values = encode_values_from [] values"

fun decode_values_from :: "bytes \<Rightarrow> nat \<Rightarrow> Value list \<Rightarrow> (Value list \<times> nat) res" where
  "decode_values_from data pos [] = Inr ([], pos)"
| "decode_values_from data pos (v # vs) =
     rbind
       (case vtype v of
          INT_64 \<Rightarrow> rbind (decode_int64 data pos) (\<lambda>(n, pos'). Inr (v\<lparr>int64 := n\<rparr>, pos'))
        | BYTES \<Rightarrow> rbind (decode_bytes data pos) (\<lambda>(s, pos'). Inr (v\<lparr>vstr := s\<rparr>, pos'))
        | ERROR \<Rightarrow>
            Inl (Invalid_argument ''order_preserving: cannot decode into an ERROR slot''))
       (\<lambda>(v', pos'). rbind (decode_values_from data pos' vs) (\<lambda>(vs', end). Inr (v' # vs', end)))"

definition decode_values :: "bytes \<Rightarrow> Value list \<Rightarrow> Value list res" where
  "decode_values data out =
     rbind (decode_values_from data 0 out)
       (\<lambda>(vs, pos). if pos \<noteq> length data
          then Inl (Invalid_argument ''order_preserving: trailing bytes after the last value'')
          else Inr vs)"

section \<open>Integers: big-endian bytes of the flipped value\<close>

lemma upt_8: "[0..<8] = [0, 1, 2, 3, 4, 5, 6, 7 :: nat]"
  by (simp add: upt_rec)

lemma ucast_drop_bit_byte: "(ucast (drop_bit n (u :: u64)) :: byte) = word_of_nat (unat u div 2 ^ n)"
proof -
  have "unat (ucast (drop_bit n u) :: byte) = (unat u div 2 ^ n) mod 256"
    by (simp add: unsigned_ucast_eq take_bit_eq_mod unat_drop_bit_eq)
      (simp add: drop_bit_eq_div)
  then show ?thesis
    by (simp only: word_unat_eq_iff unat_byte_of_nat)
qed

lemma encode_int64_eq: "encode_int64 out v = out @ be_bytes 8 (unat (v + SIGN_BIT))"
  by (simp add: encode_int64_def Let_def ucast_drop_bit_byte be_bytes_numeral)


lemma uint_SIGN_BIT: "uint SIGN_BIT = 2 ^ 63"
  by (simp add: SIGN_BIT_def)

lemma uint_flip: "uint (v + SIGN_BIT) = sint (v :: u64) + 2 ^ 63"
proof -
  have "uint (v + SIGN_BIT) = (uint v + 2 ^ 63) mod 2 ^ 64"
    by (simp add: uint_word_ariths uint_SIGN_BIT)
  moreover have "sint v = (uint v + 2 ^ 63) mod 2 ^ 64 - 2 ^ 63"
    by (simp add: sint_uint signed_take_bit_eq_take_bit_shift take_bit_eq_mod)
  ultimately show ?thesis by simp
qed

lemma unat_flip_less_iff:
  "unat (v + SIGN_BIT) < unat (w + SIGN_BIT) \<longleftrightarrow> sint (v :: u64) < sint w"
proof -
  have "unat (v + SIGN_BIT) < unat (w + SIGN_BIT) \<longleftrightarrow> uint (v + SIGN_BIT) < uint (w + SIGN_BIT)"
    using word_less_nat_alt [of "v + SIGN_BIT" "w + SIGN_BIT"]
      word_less_def [of "v + SIGN_BIT" "w + SIGN_BIT"] by blast
  then show ?thesis by (simp add: uint_flip)
qed

lemma push_byte: "push_bit 8 (word_of_nat a :: u64) OR ucast (b :: byte)
    = word_of_nat (a * 256 + unat b)"
proof -
  have 1: "push_bit 8 (word_of_nat a :: u64) OR ucast b = push_bit 8 (word_of_nat a) + ucast b"
    by (rule disjunctive_add_eq_or [symmetric])
      (rule bit_word_eqI, auto simp: bit_simps dest: bit_imp_le_length)
  have 2: "push_bit 8 (word_of_nat a :: u64) = word_of_nat (a * 256)"
    by (simp add: push_bit_eq_mult)
  have 3: "(ucast b :: u64) = word_of_nat (unat b)"
    by (simp add: of_nat_unat)
  show ?thesis
    unfolding 1 unfolding 2 3 by (simp only: of_nat_add)
qed

lemma foldl_push_byte:
  "foldl (\<lambda>u b. push_bit 8 u OR ucast b) (word_of_nat a :: u64) (bs :: bytes)
    = word_of_nat (foldl (\<lambda>a b. a * 256 + unat b) a bs)"
  by (induction bs arbitrary: a) (simp_all add: push_byte del: of_nat_add of_nat_mult)

lemma decode_int64_eq:
  assumes "pos + 8 \<le> length data"
  shows "decode_int64 data pos
    = Inr (word_of_nat (be_nat (take 8 (drop pos data))) - SIGN_BIT, pos + 8)"
proof -
  have *: "take 8 (drop pos data) = map (\<lambda>i. data ! (pos + i)) [0..<8]"
    using assms by (intro nth_equalityI) auto
  have "foldl (\<lambda>u i. push_bit 8 u OR ucast (data ! (pos + i))) (0 :: u64) [0..<8]
      = foldl (\<lambda>u b. push_bit 8 u OR ucast b) (word_of_nat 0) (take 8 (drop pos data))"
    unfolding * foldl_map by simp
  then show ?thesis
    using assms foldl_push_byte [of 0 "take 8 (drop pos data)"]
    by (simp add: decode_int64_def be_nat_def)
qed

lemma decode_encode_int64:
  "decode_int64 (encode_int64 pre v @ rest) (length pre) = Inr (v, length pre + 8)"
proof -
  have "be_nat (be_bytes 8 (unat (v + SIGN_BIT))) = unat (v + SIGN_BIT)"
    using unat_u64_less [of "v + SIGN_BIT"] by (simp add: be_nat_be_bytes)
  then show ?thesis
    by (simp add: encode_int64_eq decode_int64_eq)
qed

section \<open>Byte strings: escaping\<close>

lemma byte_cases_01: "(c :: byte) \<le> 0x01 \<longleftrightarrow> c = 0 \<or> c = 1"
  by (auto simp: word_le_nat_alt word_unat_eq_iff)

lemma escape_char_simps [simp]:
  "escape_char 0 = [1, 1]"
  "escape_char 1 = [1, 2]"
  "c \<noteq> 0 \<Longrightarrow> c \<noteq> 1 \<Longrightarrow> escape_char c = [c]"
  by (auto simp: escape_char_def byte_cases_01)

lemma byte_case [case_names zero one big]:
  assumes "(c :: byte) = 0 \<Longrightarrow> P" and "c = 1 \<Longrightarrow> P" and "c \<noteq> 0 \<Longrightarrow> c \<noteq> 1 \<Longrightarrow> 1 < c \<Longrightarrow> P"
  shows P
  using assms by (metis byte_cases_01 linorder_le_less_linear)

lemma escape_char_nonzero: "0 \<notin> set (escape_char c)"
  by (cases c rule: byte_case) simp_all

lemma escape_string_nonzero: "0 \<notin> set (escape_string s)"
  by (auto simp: escape_string_def escape_char_nonzero)

lemma unescape_from_escape: "unescape_from (concat (map escape_char s)) = Inr s"
proof (induction s)
  case Nil
  then show ?case by simp
next
  case (Cons c s)
  then show ?case by (cases c rule: byte_case) simp_all
qed

text \<open>The escaped body starts with the marker \<open>0xfe\<close> or more exactly when the string does.\<close>

lemma hd_escape_body:
  "s \<noteq> [] \<Longrightarrow> hd s \<ge> 0xfe \<Longrightarrow> concat (map escape_char s) \<noteq> [] \<and> hd (concat (map escape_char s)) = hd s"
  by (cases s; cases "hd s" rule: byte_case) auto

lemma hd_escape_body_small:
  "s \<noteq> [] \<Longrightarrow> hd s < 0xfe \<Longrightarrow> concat (map escape_char s) \<noteq> [] \<and> hd (concat (map escape_char s)) < 0xfe"
  by (cases s; cases "hd s" rule: byte_case) auto

lemma unescape_string_plain:
  "E = [] \<or> hd E < 0xfe \<Longrightarrow> unescape_string E = unescape_from E"
  by (auto simp: unescape_string_def not_le [symmetric])

lemma unescape_escape: "unescape_string (escape_string s) = Inr s"
proof (cases "s \<noteq> [] \<and> hd s \<ge> 0xfe")
  case True
  then obtain d ds where "concat (map escape_char s) = d # ds" and "d \<ge> 0xfe"
    using hd_escape_body [of s] by (cases "concat (map escape_char s)") auto
  with True show ?thesis
    using unescape_from_escape [of s]
    by (simp add: unescape_string_def escape_string_def not_less)
next
  case False
  then have "concat (map escape_char s) = [] \<or> hd (concat (map escape_char s)) < 0xfe"
    using hd_escape_body_small [of s] by (cases "s = []") (auto simp: not_le)
  then have "unescape_string (concat (map escape_char s)) = Inr s"
    by (simp only: unescape_string_plain unescape_from_escape)
  with False show ?thesis
    by (simp only: escape_string_def if_False append_Nil)
qed

text \<open>
  Escaped strings compare like the strings, even when more bytes follow the terminator: no encoding
  is a proper prefix of another.
\<close>

lemma escape_body_less_iff:
  "concat (map escape_char a) @ 0 # x < concat (map escape_char b) @ 0 # y
    \<longleftrightarrow> a < b \<or> a = b \<and> x < y"
proof (induction a arbitrary: b)
  case Nil
  show ?case
  proof (cases b)
    case (Cons d ds)
    then show ?thesis by (cases d rule: byte_case) (auto simp: word_gt_0)
  qed simp
next
  case (Cons c a)
  show ?case
  proof (cases b)
    case Nil
    then show ?thesis by (cases c rule: byte_case) auto
  next
    case (Cons d ds)
    with Cons.IH [of ds] show ?thesis
      by (cases c rule: byte_case; cases d rule: byte_case) (auto simp: word_gt_0)
  qed
qed

lemma escape_string_less_iff:
  "escape_string a @ 0 # x < escape_string b @ 0 # y \<longleftrightarrow> a < b \<or> a = b \<and> x < y"
proof -
  define A where "A = concat (map escape_char a)"
  define B where "B = concat (map escape_char b)"
  have body: "A @ 0 # x < B @ 0 # y \<longleftrightarrow> a < b \<or> a = b \<and> x < y"
    unfolding A_def B_def by (rule escape_body_less_iff)
  have small: "C = [] \<or> hd C < 0xfe" if "C = concat (map escape_char s)"
    and "\<not> (s \<noteq> [] \<and> hd s \<ge> 0xfe)" for C s
    using that hd_escape_body_small [of s] by (cases s) (auto simp: not_le)
  show ?thesis
  proof (cases "a \<noteq> [] \<and> hd a \<ge> 0xfe"; cases "b \<noteq> [] \<and> hd b \<ge> 0xfe")
    assume "a \<noteq> [] \<and> hd a \<ge> 0xfe" and "\<not> (b \<noteq> [] \<and> hd b \<ge> 0xfe)"
    moreover from this have "\<not> a < b \<and> a \<noteq> b"
      by (cases a; cases b) auto
    moreover have "B = [] \<or> hd B < 0xfe"
      using small [OF B_def] calculation by blast
    ultimately show ?thesis
      by (cases B) (auto simp: escape_string_def A_def [symmetric] B_def [symmetric])
  next
    assume "\<not> (a \<noteq> [] \<and> hd a \<ge> 0xfe)" and "b \<noteq> [] \<and> hd b \<ge> 0xfe"
    moreover from this have "a < b"
      by (cases a; cases b) (auto simp: not_le)
    moreover have "A = [] \<or> hd A < 0xfe"
      using small [OF A_def] calculation by blast
    ultimately show ?thesis
      by (cases A) (auto simp: escape_string_def A_def [symmetric] B_def [symmetric] word_gt_0)
  qed (use body in \<open>auto simp: escape_string_def A_def [symmetric] B_def [symmetric]\<close>)
qed

lemma find_zero_append: "0 \<notin> set e \<Longrightarrow> find_zero (e @ 0 # rest) = Some (length e)"
  by (induction e) auto

lemma decode_encode_bytes:
  "decode_bytes (encode_bytes pre s @ rest) (length pre)
    = Inr (s, length (encode_bytes pre s))"
proof -
  have "find_zero (escape_string s @ 0 # rest) = Some (length (escape_string s))"
    by (rule find_zero_append) (rule escape_string_nonzero)
  then show ?thesis
    by (simp add: decode_bytes_def encode_bytes_def unescape_escape)
qed

section \<open>Lists of values: one encoding per value\<close>

definition value_bytes :: "Value \<Rightarrow> bytes" where
  "value_bytes v =
     (case vtype v of
        INT_64 \<Rightarrow> encode_int64 [] (int64 v)
      | BYTES \<Rightarrow> encode_bytes [] (vstr v)
      | ERROR \<Rightarrow> [])"

lemma encode_int64_append: "encode_int64 out v = out @ encode_int64 [] v"
  by (simp add: encode_int64_eq)

lemma encode_bytes_append: "encode_bytes out s = out @ encode_bytes [] s"
  by (simp add: encode_bytes_def)

lemma encode_values_from_eq:
  "ERROR \<notin> vtype ` set vs \<Longrightarrow>
   encode_values_from out vs = Inr (out @ concat (map value_bytes vs))"
proof (induction vs arbitrary: out)
  case Nil
  then show ?case by simp
next
  case (Cons v vs)
  then show ?case
    using encode_int64_append [of out "int64 v"] encode_bytes_append [of out "vstr v"]
    by (cases "vtype v") (auto simp: value_bytes_def)
qed

lemma encode_values_from_Inr:
  "encode_values_from out vs = Inr a \<Longrightarrow> ERROR \<notin> vtype ` set vs"
  by (induction out vs rule: encode_values_from.induct) (auto split: ValueType.splits)

lemma encode_values_iff:
  "encode_values vs = Inr a \<longleftrightarrow> ERROR \<notin> vtype ` set vs \<and> a = concat (map value_bytes vs)"
proof -
  have "ERROR \<notin> vtype ` set vs" if "encode_values vs = Inr a"
    using that unfolding encode_values_def by (rule encode_values_from_Inr)
  then show ?thesis
    using encode_values_from_eq [of vs "[]"] by (auto simp: encode_values_def)
qed

lemma value_bytes_less_iff:
  assumes "vtype v = vtype w" and "vtype v \<noteq> ERROR"
  shows "value_bytes v @ x < value_bytes w @ y \<longleftrightarrow> Value_lt v w \<or> Value_eq v w \<and> x < y"
proof (cases "vtype v")
  case INT_64
  have enc: "value_bytes u = be_bytes 8 (unat (int64 u + SIGN_BIT))" if "vtype u = INT_64" for u
    using that by (simp add: value_bytes_def encode_int64_eq)
  have less: "be_bytes 8 (unat (int64 v + SIGN_BIT)) < be_bytes 8 (unat (int64 w + SIGN_BIT))
      \<longleftrightarrow> Value_lt v w"
    using INT_64 unat_u64_less [of "int64 v + SIGN_BIT"] unat_u64_less [of "int64 w + SIGN_BIT"]
    by (simp add: be_bytes_less_iff unat_flip_less_iff Value_lt_def)
  show ?thesis
  proof (cases "int64 v = int64 w")
    case True
    with INT_64 assms show ?thesis by (simp add: enc Value_lt_def Value_eq_def)
  next
    case False
    then have "unat (int64 v + SIGN_BIT) \<noteq> unat (int64 w + SIGN_BIT)"
      by (metis add_right_cancel word_unat_eq_iff)
    moreover have "be_nat (be_bytes 8 (unat (u + SIGN_BIT))) = unat (u + SIGN_BIT)" for u
      using unat_u64_less [of "u + SIGN_BIT"] by (simp add: be_nat_be_bytes)
    ultimately have "be_bytes 8 (unat (int64 v + SIGN_BIT)) \<noteq> be_bytes 8 (unat (int64 w + SIGN_BIT))"
      by metis
    with INT_64 assms False less show ?thesis
      by (simp add: enc less_list_same_length Value_eq_def)
  qed
next
  case BYTES
  with assms show ?thesis
    using escape_string_less_iff [of "vstr v" x "vstr w" y]
    by (auto simp: value_bytes_def encode_bytes_def Value_lt_def Value_eq_def)
qed (use assms in simp)

lemma value_bytes_eq_iff:
  assumes "vtype v = vtype w" and "vtype v \<noteq> ERROR"
  shows "value_bytes v @ x = value_bytes w @ y \<longleftrightarrow> Value_eq v w \<and> x = y"
proof -
  have w: "vtype w \<noteq> ERROR" "vtype w = vtype v"
    using assms by simp_all
  have "value_bytes v @ x = value_bytes w @ y \<longleftrightarrow>
      \<not> value_bytes v @ x < value_bytes w @ y \<and> \<not> value_bytes w @ y < value_bytes v @ x"
    by auto
  also have "\<dots> \<longleftrightarrow> Value_eq v w \<and> x = y"
    unfolding value_bytes_less_iff [OF assms] value_bytes_less_iff [OF w(2,1)]
    using Value_lt_linear [OF assms] Value_lt_irrefl [of v w] Value_lt_irrefl [of w v]
      Value_eq_sym [of v w] Value_eq_sym [of w v] by auto
  finally show ?thesis .
qed

lemma concat_value_bytes_less_iff:
  assumes "map vtype vs = map vtype ws" and "ERROR \<notin> vtype ` set vs"
  shows "concat (map value_bytes vs) @ x < concat (map value_bytes ws) @ y
    \<longleftrightarrow> Values_lt vs ws \<or> list_all2 Value_eq vs ws \<and> x < y"
  using assms
proof (induction vs arbitrary: ws)
  case Nil
  then show ?case by simp
next
  case (Cons v vs)
  then obtain w ws' where ws: "ws = w # ws'" "vtype v = vtype w" "map vtype vs = map vtype ws'"
    by (cases ws) auto
  with Cons show ?case
    using value_bytes_less_iff [of v w] by auto
qed

lemma concat_value_bytes_eq_iff:
  assumes "map vtype vs = map vtype ws" and "ERROR \<notin> vtype ` set vs"
  shows "concat (map value_bytes vs) @ x = concat (map value_bytes ws) @ y
    \<longleftrightarrow> list_all2 Value_eq vs ws \<and> x = y"
  using assms
proof (induction vs arbitrary: ws)
  case Nil
  then show ?case by simp
next
  case (Cons v vs)
  then obtain w ws' where ws: "ws = w # ws'" "vtype v = vtype w" "map vtype vs = map vtype ws'"
    by (cases ws) auto
  with Cons show ?case
    using value_bytes_eq_iff [of v w] by auto
qed

section \<open>Decoding\<close>

text \<open>The slot a decoder fills: the field that the slot's type selects.\<close>

definition fill_slot :: "Value \<Rightarrow> Value \<Rightarrow> Value" where
  "fill_slot slot v =
     (case vtype slot of
        INT_64 \<Rightarrow> slot\<lparr>int64 := int64 v\<rparr>
      | BYTES \<Rightarrow> slot\<lparr>vstr := vstr v\<rparr>
      | ERROR \<Rightarrow> slot)"

lemma vtype_fill_slot [simp]: "vtype (fill_slot slot v) = vtype slot"
  by (simp add: fill_slot_def split: ValueType.splits)

lemma fill_slot_eq: "vtype slot = vtype v \<Longrightarrow> Value_eq (fill_slot slot v) v"
  by (auto simp: fill_slot_def Value_eq_def split: ValueType.splits)

lemma decode_values_from_encoded:
  assumes "map vtype out = map vtype vs" and "ERROR \<notin> vtype ` set vs"
  shows "decode_values_from (pre @ concat (map value_bytes vs) @ rest) (length pre) out
    = Inr (map2 fill_slot out vs, length (pre @ concat (map value_bytes vs)))"
  using assms
proof (induction vs arbitrary: out pre)
  case Nil
  then show ?case by simp
next
  case (Cons v vs)
  then obtain slot out' where out: "out = slot # out'" "vtype slot = vtype v"
      "map vtype out' = map vtype vs"
    by (cases out) auto
  define tail where "tail = concat (map value_bytes vs) @ rest"
  have IH: "decode_values_from ((pre @ value_bytes v) @ tail) (length (pre @ value_bytes v)) out'
      = Inr (map2 fill_slot out' vs, length ((pre @ value_bytes v) @ concat (map value_bytes vs)))"
    using Cons.IH [of out' "pre @ value_bytes v"] Cons.prems out(3) by (simp add: tail_def)
  show ?case
  proof (cases "vtype v")
    case INT_64
    have "decode_int64 (pre @ value_bytes v @ tail) (length pre)
        = Inr (int64 v, length (pre @ value_bytes v))"
      using INT_64 decode_encode_int64 [of pre "int64 v" tail] encode_int64_append [of pre "int64 v"]
      by (simp add: value_bytes_def encode_int64_eq)
    with INT_64 out IH show ?thesis
      by (simp add: tail_def [symmetric] fill_slot_def)
  next
    case BYTES
    have "decode_bytes (pre @ value_bytes v @ tail) (length pre)
        = Inr (vstr v, length (pre @ value_bytes v))"
      using BYTES decode_encode_bytes [of pre "vstr v" tail] encode_bytes_append [of pre "vstr v"]
      by (simp add: value_bytes_def)
    with BYTES out IH show ?thesis
      by (simp add: tail_def [symmetric] fill_slot_def)
  qed (use Cons.prems in auto)
qed

lemma unescape_from_Inr:
  "unescape_from t = Inr s \<Longrightarrow> 0 \<notin> set t \<Longrightarrow> concat (map escape_char s) = t"
proof (induction t arbitrary: s rule: unescape_from.induct)
  case 1
  then show ?case by simp
next
  case (2 c cs)
  show ?case
  proof (cases "c = 1")
    case False
    with 2 show ?thesis by (auto simp: rbind_eq_Inr)
  next
    case True
    then obtain d ds where cs: "cs = d # ds" "d = 1 \<or> d = 2"
      using 2 by (auto split: list.splits if_splits)
    moreover from this True 2 obtain s' where "unescape_from ds = Inr s'" "s = (d - 1) # s'"
      by (auto simp: rbind_eq_Inr)
    ultimately show ?thesis
      using True 2(2) [of d ds s'] 2(4) by auto
  qed
qed

lemma unescape_string_Inr:
  assumes "unescape_string t = Inr s" and nz: "0 \<notin> set t"
  shows "escape_string s = t"
proof (cases "t \<noteq> [] \<and> hd t \<ge> 0xfe")
  case True
  with assms(1) have t: "hd t = 0xfe" "2 \<le> length t" "t ! 1 \<ge> 0xfe" "unescape_from (tl t) = Inr s"
    by (auto simp: unescape_string_def not_le not_less split: if_splits)
  then obtain c cs where tl: "t = 0xfe # c # cs" "c \<ge> 0xfe"
    by (cases t; cases "tl t") auto
  have "concat (map escape_char s) = c # cs"
    using unescape_from_Inr [OF t(4)] nz tl by (cases t) auto
  moreover have "c \<noteq> 1"
    using tl(2) by (auto simp: word_le_nat_alt)
  then have "s \<noteq> [] \<and> hd s = c"
    using t(4) tl by (auto simp: rbind_eq_Inr)
  ultimately show ?thesis
    using tl by (simp add: escape_string_def)
next
  case False
  then have u: "unescape_from t = Inr s"
    using assms(1) by (auto simp: unescape_string_def)
  then have "concat (map escape_char s) = t"
    using nz by (rule unescape_from_Inr)
  moreover have "\<not> (s \<noteq> [] \<and> hd s \<ge> 0xfe)"
    using hd_escape_body [of s] calculation False by auto
  ultimately show ?thesis
    by (auto simp: escape_string_def)
qed

lemma find_zero_Some: "find_zero xs = Some n \<Longrightarrow> n < length xs \<and> xs ! n = 0 \<and> 0 \<notin> set (take n xs)"
  by (induction xs arbitrary: n) (auto split: if_splits)

lemma decode_int64_Inr:
  assumes "decode_int64 data pos = Inr (n, pos')"
  shows "pos' \<le> length data \<and> take pos' data = take pos data @ encode_int64 [] n"
proof -
  have le: "pos + 8 \<le> length data" and pos': "pos' = pos + 8"
    using assms by (auto simp: decode_int64_def Let_def split: if_splits)
  define bs where "bs = take 8 (drop pos data)"
  have n: "n = word_of_nat (be_nat bs) - SIGN_BIT" and len: "length bs = 8"
    using assms le by (auto simp: decode_int64_eq bs_def)
  have "be_nat bs < 2 ^ 64"
    using be_nat_less [of bs] len by simp
  then have "unat (n + SIGN_BIT) = be_nat bs"
    by (simp add: n unat_of_nat)
  then have "encode_int64 [] n = bs"
    by (simp add: encode_int64_eq be_bytes_be_nat len)
  then show ?thesis
    using le by (simp add: pos' bs_def take_add)
qed

lemma decode_bytes_Inr:
  assumes "decode_bytes data pos = Inr (s, pos')"
  shows "pos' \<le> length data \<and> take pos' data = take pos data @ encode_bytes [] s"
proof -
  obtain n where n: "find_zero (drop pos data) = Some n"
    and dec: "unescape_string (take n (drop pos data)) = Inr s" and pos': "pos' = pos + n + 1"
    using assms by (auto simp: decode_bytes_def rbind_eq_Inr split: option.splits)
  note z = find_zero_Some [OF n]
  have "escape_string s = take n (drop pos data)"
    using dec z by (intro unescape_string_Inr) auto
  moreover have "take (n + 1) (drop pos data) = take n (drop pos data) @ [0]"
    using z by (simp add: take_Suc_conv_app_nth)
  moreover have "Suc (pos + n) \<le> length data"
    using z by auto
  ultimately show ?thesis
    using z take_add [of pos "n + 1" data] by (simp add: pos' encode_bytes_def)
qed

lemma decode_values_from_Inr:
  "decode_values_from data pos out = Inr (vs, pos') \<Longrightarrow> pos \<le> length data \<Longrightarrow>
    pos' \<le> length data \<and> map vtype vs = map vtype out \<and> ERROR \<notin> vtype ` set vs
    \<and> take pos' data = take pos data @ concat (map value_bytes vs)"
proof (induction out arbitrary: pos vs)
  case Nil
  then show ?case by simp
next
  case (Cons slot out)
  obtain v p vs' where dec: "decode_values_from data p out = Inr (vs', pos')" and vs: "vs = v # vs'"
    and v: "vtype v = vtype slot" "vtype v \<noteq> ERROR"
    and p: "p \<le> length data" "take p data = take pos data @ value_bytes v"
    using Cons.prems
    by (cases "vtype slot")
      (auto simp: rbind_eq_Inr value_bytes_def dest!: decode_int64_Inr decode_bytes_Inr)
  from Cons.IH [OF dec p(1)] show ?case
    using vs v p by auto
qed

lemma decode_values_written:
  assumes "encode_values vs = Inr a" and "map vtype out = map vtype vs"
  shows "\<exists>vs'. decode_values a out = Inr vs' \<and> list_all2 Value_eq vs' vs"
proof -
  have a: "a = concat (map value_bytes vs)" and ok: "ERROR \<notin> vtype ` set vs"
    using assms(1) by (auto simp: encode_values_iff)
  have "decode_values a out = Inr (map2 fill_slot out vs)"
    using decode_values_from_encoded [OF assms(2) ok, of "[]" "[]"] by (simp add: a decode_values_def)
  moreover have "list_all2 Value_eq (map2 fill_slot out vs) vs"
  proof -
    have len: "length out = length vs"
      using assms(2) by (rule map_eq_imp_length_eq)
    moreover have "vtype (out ! i) = vtype (vs ! i)" if "i < length vs" for i
      using that len assms(2) by (metis nth_map)
    ultimately show ?thesis
      by (simp add: list_all2_conv_all_nth fill_slot_eq)
  qed
  ultimately show ?thesis by blast
qed

section \<open>Properties\<close>

text \<open>
  C30: encoding preserves order. For two lists of values of the same column types, the encoded byte
  strings compare (as the B+tree compares keys) exactly as the lists do, lexicographically with
  signed integers and unsigned bytes, and two lists get the same encoding only when they are equal.
\<close>

theorem encode_values_order:
  assumes "map vtype vs = map vtype ws"
    and "encode_values vs = Inr a" and "encode_values ws = Inr b"
  shows "(a < b \<longleftrightarrow> Values_lt vs ws) \<and> (a = b \<longleftrightarrow> list_all2 Value_eq vs ws)"
  using assms concat_value_bytes_less_iff [OF assms(1), of "[]" "[]"]
    concat_value_bytes_eq_iff [OF assms(1), of "[]" "[]"]
  by (simp add: encode_values_iff)

theorem encode_values_order_witness:
  "\<exists>a b. encode_values [make_int64 (- 1), make_bytes [0xff]] = Inr a
    \<and> encode_values [make_int64 0, make_bytes [0]] = Inr b \<and> a < b"
proof -
  let ?vs = "[make_int64 (- 1), make_bytes [0xff]]" and ?ws = "[make_int64 0, make_bytes [0]]"
  obtain a b where a: "encode_values ?vs = Inr a" and b: "encode_values ?ws = Inr b"
    by (simp add: encode_values_iff)
  have "a < b \<longleftrightarrow> Values_lt ?vs ?ws"
    using encode_values_order [of ?vs ?ws, OF _ a b] by simp
  moreover have "Values_lt ?vs ?ws"
    by (simp add: Value_lt_def)
  ultimately show ?thesis
    using a b by blast
qed

text \<open>
  C31: decoding inverts encoding. What \<open>encode_values\<close> writes, \<open>decode_values\<close> reads back into slots
  of the same types, consuming every byte; the values read equal the values written.
\<close>

theorem decode_encode_values:
  assumes "encode_values vs = Inr a" and "map vtype out = map vtype vs"
  shows "\<exists>vs'. decode_values a out = Inr vs' \<and> list_all2 Value_eq vs' vs"
  using assms by (rule decode_values_written)

theorem decode_encode_values_witness:
  "\<exists>a vs'. encode_values [make_bytes [0xfe, 0, 1], make_int64 7] = Inr a
    \<and> decode_values a [default_Value\<lparr>vtype := BYTES\<rparr>, default_Value\<lparr>vtype := INT_64\<rparr>] = Inr vs'
    \<and> list_all2 Value_eq vs' [make_bytes [0xfe, 0, 1], make_int64 7]"
proof -
  let ?vs = "[make_bytes [0xfe, 0, 1], make_int64 7]"
  let ?out = "[default_Value\<lparr>vtype := BYTES\<rparr>, default_Value\<lparr>vtype := INT_64\<rparr>]"
  obtain a where a: "encode_values ?vs = Inr a"
    by (simp add: encode_values_iff)
  show ?thesis
    using a decode_encode_values [OF a, of ?out] by auto
qed

text \<open>
  C32: decoding accepts canonical encodings only. Whatever \<open>decode_values\<close> accepts is the encoding of
  the values it returns, which have the types of the slots; malformed escapes, truncated integers,
  missing terminators and trailing bytes are all rejected.
\<close>

theorem decode_values_canonical:
  assumes "decode_values data out = Inr vs"
  shows "encode_values vs = Inr data \<and> map vtype vs = map vtype out"
proof -
  have "decode_values_from data 0 out = Inr (vs, length data)"
    using assms by (auto simp: decode_values_def rbind_eq_Inr split: if_splits)
  from decode_values_from_Inr [OF this] show ?thesis
    by (auto simp: encode_values_iff)
qed

theorem decode_values_canonical_witness:
  "encode_values [make_bytes [0xff]] = Inr [0xfe, 0xff, 0]"
proof -
  have "decode_values [0xfe, 0xff, 0] [make_bytes []] = Inr [make_bytes [0xff]]"
    by (simp add: decode_values_def decode_bytes_def unescape_string_def make_bytes_def)
  from decode_values_canonical [OF this] show ?thesis by simp
qed

end
