(* ===== verification/Row_Codec.thy ===== *)
theory Row_Codec
  imports Encoding Schema BIter
begin

text \<open>
  \<open>access/row_codec\<close> and the index choice of \<open>access/table_access\<close>: how rows become keys and values, and
  which index a range key is scanned on. Keys are a table prefix followed by order-preserving
  encodings, so the contract is about order: keys of different tables do not mix, keys of one table
  compare like their values, and a partial bound stands for every key that starts with its values.
\<close>

section \<open>Keys\<close>

definition KEY_PREFIX_SIZE :: nat where
  "KEY_PREFIX_SIZE = 4"

definition append_u32_be :: "bytes \<Rightarrow> u32 \<Rightarrow> bytes" where
  "append_u32_be out v = out @ [ucast (drop_bit 24 v), ucast (drop_bit 16 v), ucast (drop_bit 8 v), ucast v]"

definition encode_key :: "u32 \<Rightarrow> Value list \<Rightarrow> bytes res" where
  "encode_key pfx pk_values =
     (let out = append_u32_be [] pfx in rbind (encode_values pk_values) (\<lambda>e. Inr (out @ e)))"

text \<open>The padding loop of \<open>encode_key_partial\<close>, over the columns without a value.\<close>

fun pad_cols :: "TableDef \<Rightarrow> bytes \<Rightarrow> bytes list \<Rightarrow> bytes res" where
  "pad_cols tdef out [] = Inr out"
| "pad_cols tdef out (c # cs) =
     (let col = col_index tdef c in
      rbind (check (col \<ge> 0) (Assertion_failed ''col >= 0'')) (\<lambda>_.
      if nat col \<ge> length (types tdef) then Inl Bad_access else
      case types tdef ! nat col of
        INT_64 \<Rightarrow> pad_cols tdef (out @ replicate 8 0xff) cs
      | BYTES \<Rightarrow> Inr (out @ [0xff])
      | ERROR \<Rightarrow> Inl (Invalid_argument ''row_codec: cannot pad an ERROR column'')))"

definition encode_key_partial :: "u32 \<Rightarrow> Value list \<Rightarrow> TableDef \<Rightarrow> bytes list \<Rightarrow> CMP \<Rightarrow> bytes res" where
  "encode_key_partial pfx values tdef index_cols cmp =
     rbind (encode_key pfx values) (\<lambda>out.
     if cmp \<noteq> CMP_GT \<and> cmp \<noteq> CMP_LE then Inr out
     else pad_cols tdef out (drop (length values) index_cols))"

definition decode_key :: "bytes \<Rightarrow> Value list \<Rightarrow> Value list res" where
  "decode_key key out =
     (if length key < KEY_PREFIX_SIZE
      then Inl (Invalid_argument ''row_codec: key is shorter than its table prefix'')
      else decode_values (drop KEY_PREFIX_SIZE key) out)"

section \<open>Rows\<close>

text \<open>Reading the type of a column outside \<open>types\<close> is \<open>Bad_access\<close>.\<close>

definition typed_slots :: "TableDef \<Rightarrow> nat \<Rightarrow> nat \<Rightarrow> Value list res" where
  "typed_slots tdef begin end =
     (if end < begin then Inl (Logic_error ''vector: cannot create a vector larger than max_size()'')
      else if begin < end \<and> length (types tdef) < end then Inl Bad_access
      else Inr (map (\<lambda>i. default_Value\<lparr>vtype := types tdef ! i\<rparr>) [begin..<end]))"

definition decode_row :: "TableDef \<Rightarrow> bytes \<Rightarrow> bytes \<Rightarrow> Record res" where
  "decode_row tdef key val =
     (let pk = nat (pkeys tdef mod 2 ^ 64) in
      rbind (typed_slots tdef 0 pk) (\<lambda>pk_values.
      rbind (typed_slots tdef pk (length (tcols tdef))) (\<lambda>col_values.
      rbind (decode_key key pk_values) (\<lambda>pk_values.
      rbind (decode_values val col_values) (\<lambda>col_values.
      Inr \<lparr>rec_cols = tcols tdef, rec_vals = pk_values @ col_values\<rparr>)))))"

text \<open>
  \<open>check_record\<close> answers the values in column order, or the error text as the left summand; \<open>*out\<close> is
  not read after a failure.
\<close>

fun collect_cols :: "TableDef \<Rightarrow> Record \<Rightarrow> nat list \<Rightarrow> (bytes + Value list) res" where
  "collect_cols tdef rec [] = Inr (Inr [])"
| "collect_cols tdef rec (i # is) =
     (if length (tcols tdef) \<le> i then Inl Bad_access else
      let col = tcols tdef ! i in
      case Record_get rec col of
        None \<Rightarrow> Inr (Inl (str ''missing column: '' @ col))
      | Some v \<Rightarrow>
          if length (types tdef) \<le> i then Inl Bad_access
          else if vtype v \<noteq> types tdef ! i then Inr (Inl (str ''type mismatch for column: '' @ col))
          else rbind (collect_cols tdef rec is) (\<lambda>r. Inr (rbind r (\<lambda>vs. Inr (v # vs)))))"

definition check_record :: "TableDef \<Rightarrow> Record \<Rightarrow> int \<Rightarrow> (bytes + Value list) res" where
  "check_record tdef rec n =
     (if n < 0 then Inl (Logic_error ''vector::_M_fill_assign'') else
      rbind (collect_cols tdef rec [0..<nat n]) (\<lambda>r.
      case r of
        Inl err \<Rightarrow> Inr (Inl err)
      | Inr out \<Rightarrow>
          (case find (\<lambda>col. col \<notin> set (take (nat n) (tcols tdef))) (rec_cols rec) of
             Some col \<Rightarrow> Inr (Inl (str ''unexpected column: '' @ col))
           | None \<Rightarrow> Inr (Inr out))))"

section \<open>The index of a range key\<close>

definition is_prefix :: "bytes list \<Rightarrow> bytes list \<Rightarrow> bool" where
  "is_prefix long_cols short_cols \<longleftrightarrow>
     length short_cols \<le> length long_cols \<and> take (length short_cols) long_cols = short_cols"

text \<open>The loop over the indexes from \<open>i\<close>; \<open>winner\<close> is -2 until one matches.\<close>

fun find_index_loop :: "TableDef \<Rightarrow> bytes list \<Rightarrow> int \<Rightarrow> nat list \<Rightarrow> int" where
  "find_index_loop tdef keys winner [] = winner"
| "find_index_loop tdef keys winner (i # is) =
     (if \<not> is_prefix (indexes tdef ! i) keys then find_index_loop tdef keys winner is
      else if winner = -2 \<or> length (indexes tdef ! i) < length (indexes tdef ! nat winner)
      then find_index_loop tdef keys (int i) is
      else find_index_loop tdef keys winner is)"

text \<open>-1 is the primary key; the error text stands for -2.\<close>

definition find_index :: "TableDef \<Rightarrow> bytes list \<Rightarrow> bytes + int" where
  "find_index tdef keys =
     (if is_prefix (take (nat (pkeys tdef)) (tcols tdef)) keys then Inr (-1) else
      let winner = find_index_loop tdef keys (-2) [0..<length (indexes tdef)] in
      if winner = -2 then Inl (str ''no index starts with the range key's columns in table: '' @ tname tdef)
      else Inr winner)"

end
