(* ===== verification/Row_Spec.thy ===== *)
theory Row_Spec
  imports Row_Codec
begin

text \<open>Order, bounds and round trips of the row codec, and the choice of an index.\<close>

section \<open>Keys are ordered by prefix, then by values\<close>

lemma ucast_drop_bit_u32: "(ucast (drop_bit n (u :: u32)) :: byte) = word_of_nat (unat u div 2 ^ n)"
proof -
  have "unat (ucast (drop_bit n u) :: byte) = (unat u div 2 ^ n) mod 256"
    by (simp add: unsigned_ucast_eq take_bit_eq_mod unat_drop_bit_eq)
      (simp add: drop_bit_eq_div)
  then show ?thesis
    by (simp only: word_unat_eq_iff unat_byte_of_nat)
qed

lemma append_u32_be_eq: "append_u32_be out v = out @ be_bytes 4 (unat v)"
  using ucast_drop_bit_u32 [of 0 v]
  by (simp add: append_u32_be_def ucast_drop_bit_u32 be_bytes_numeral)

lemma encode_key_iff:
  "encode_key p vs = Inr k \<longleftrightarrow> ERROR \<notin> vtype ` set vs \<and> k = be_bytes 4 (unat p) @ concat (map value_bytes vs)"
  by (auto simp: encode_key_def rbind_eq_Inr encode_values_iff append_u32_be_eq)

lemma u32_bytes_less: "be_bytes 4 (unat p) < be_bytes 4 (unat q) \<longleftrightarrow> p < (q :: u32)"
  using unat_u32_less [of p] unat_u32_less [of q] by (simp add: be_bytes_less_iff word_less_nat_alt)

lemma table_before:
  assumes "p < q"
  shows "be_bytes 4 (unat p) @ x < be_bytes 4 (unat (q :: u32)) @ y"
proof -
  have "be_bytes 4 (unat p) < be_bytes 4 (unat q)"
    using assms by (simp add: u32_bytes_less)
  then show ?thesis
    using less_list_same_length [of "be_bytes 4 (unat p)" "be_bytes 4 (unat q)" x y] by fastforce
qed

section \<open>Padding\<close>

definition col_type :: "TableDef \<Rightarrow> bytes \<Rightarrow> ValueType" where
  "col_type tdef c = types tdef ! nat (col_index tdef c)"

definition known_cols :: "TableDef \<Rightarrow> bytes list \<Rightarrow> bool" where
  "known_cols tdef cols \<longleftrightarrow> set cols \<subseteq> set (tcols tdef) \<and> length (types tdef) = length (tcols tdef)
     \<and> ERROR \<notin> set (types tdef)"

lemma known_col:
  assumes "known_cols tdef cols" and "c \<in> set cols"
  shows "0 \<le> col_index tdef c" and "nat (col_index tdef c) < length (types tdef)" and "col_type tdef c \<noteq> ERROR"
proof -
  have "c \<in> set (tcols tdef)"
    using assms by (auto simp: known_cols_def)
  from col_index_from_nth [OF this, of 0] obtain j where j: "j < length (tcols tdef)" "col_index tdef c = int j"
    by (auto simp: col_index_def)
  then show "0 \<le> col_index tdef c" "nat (col_index tdef c) < length (types tdef)" "col_type tdef c \<noteq> ERROR"
    using assms(1) by (auto simp: known_cols_def col_type_def in_set_conv_nth)
qed

lemma known_cols_Cons: "known_cols tdef (c # cs) \<Longrightarrow> known_cols tdef cs"
  by (simp add: known_cols_def)

lemma byte_le_ff: "(b :: byte) \<le> 0xff"
  using unat_byte_less [of b] by (simp add: word_le_nat_alt del: unat_byte_less)

lemma ff_max: "\<not> replicate (length xs) 0xff < (xs :: bytes)"
proof (induction xs)
  case (Cons b xs)
  then show ?case
    using byte_le_ff [of b] by (auto simp: not_less)
qed simp

lemma escape_first: "\<exists>c cs. escape_string s @ [0] = c # cs \<and> c < 0xff"
proof (cases "s \<noteq> [] \<and> hd s \<ge> 0xfe")
  case True
  then show ?thesis
    by (simp add: escape_string_def)
next
  case False
  then show ?thesis
  proof (cases s)
    case (Cons b bs)
    then have "b < 0xfe"
      using False by (simp add: not_le)
    then have "b < 0xff"
      by (rule less_trans) simp
    then show ?thesis
      using False Cons by (simp add: escape_string_def escape_char_def)
  qed (simp add: escape_string_def)
qed

text \<open>The padding is at least the encoding of any values for the missing columns.\<close>

lemma pad_cols_max:
  "known_cols tdef cs \<Longrightarrow> \<exists>pad. pad_cols tdef out cs = Inr (out @ pad)
    \<and> (\<forall>vs. map vtype vs = map (col_type tdef) cs \<longrightarrow> \<not> pad < concat (map value_bytes vs))"
proof (induction tdef out cs rule: pad_cols.induct)
  case (2 tdef out c cs)
  note c = known_col [OF 2(2), of c, simplified]
  show ?case
  proof (cases "col_type tdef c")
    case INT_64
    then have t: "types tdef ! nat (col_index tdef c) = INT_64"
      by (simp add: col_type_def)
    obtain pad where pad: "pad_cols tdef (out @ replicate 8 0xff) cs = Inr ((out @ replicate 8 0xff) @ pad)"
        "\<forall>vs. map vtype vs = map (col_type tdef) cs \<longrightarrow> \<not> pad < concat (map value_bytes vs)"
      using 2(1) [OF refl _ _ t] 2(2) c known_cols_Cons by fastforce
    have "\<not> replicate 8 0xff @ pad < concat (map value_bytes vs)" if "map vtype vs = INT_64 # map (col_type tdef) cs" for vs
    proof -
      note types = that
      obtain v ws where vs: "vs = v # ws" "vtype v = INT_64" "map vtype ws = map (col_type tdef) cs"
        using types by (cases vs) auto
      have len: "length (value_bytes v) = 8"
        using vs(2) by (simp add: value_bytes_def encode_int64_eq)
      show ?thesis
      proof (cases "value_bytes v = replicate 8 0xff")
        case True
        then show ?thesis
          using pad(2) vs(3) by (simp only: vs(1) list.map concat.simps less_list_append) blast
      next
        case False
        then show ?thesis
          using less_list_same_length [of "replicate 8 0xff" "value_bytes v" pad "concat (map value_bytes ws)"]
            ff_max [of "value_bytes v"] len by (simp only: vs(1) list.map concat.simps length_replicate) simp
      qed
    qed
    then show ?thesis
      using pad(1) c t INT_64 by (intro exI [of _ "replicate 8 0xff @ pad"]) simp
  next
    case BYTES
    then have t: "types tdef ! nat (col_index tdef c) = BYTES"
      by (simp add: col_type_def)
    have "\<not> [0xff] < concat (map value_bytes vs)" if "map vtype vs = BYTES # map (col_type tdef) cs" for vs
    proof -
      note types = that
      obtain v ws where vs: "vs = v # ws" "vtype v = BYTES"
        using types by (cases vs) auto
      obtain b bs where "escape_string (vstr v) @ [0] = b # bs" "b < 0xff"
        using escape_first by blast
      then show ?thesis
        using vs by (auto simp: value_bytes_def encode_bytes_def)
    qed
    then show ?thesis
      using c t BYTES by (intro exI [of _ "[0xff]"]) simp
  next
    case ERROR
    then show ?thesis
      using c by simp
  qed
qed simp

section \<open>The contract of keys\<close>

text \<open>
  C37: keys of different tables are separated and keys of one table compare like their values. A key
  with a smaller prefix sorts first whatever follows; under the same prefix and the same column types
  the keys are ordered as the value lists are, and are equal only for equal values.
\<close>

theorem encode_key_order:
  assumes "encode_key p vs = Inr k" and "encode_key q ws = Inr l"
  shows "(p < q \<longrightarrow> k < l) \<and>
    (p = q \<longrightarrow> map vtype vs = map vtype ws \<longrightarrow> (k < l \<longleftrightarrow> Values_lt vs ws) \<and> (k = l \<longleftrightarrow> list_all2 Value_eq vs ws))"
  using assms table_before [of p q] concat_value_bytes_less_iff [of vs ws "[]" "[]"]
    concat_value_bytes_eq_iff [of vs ws "[]" "[]"]
  by (simp add: encode_key_iff)

lemma encode_key_order_witness:
  "\<exists>k l. encode_key 100 [make_int64 (- 5)] = Inr k \<and> encode_key 100 [make_int64 3] = Inr l \<and> k < l"
proof -
  obtain k l where kl: "encode_key 100 [make_int64 (- 5)] = Inr k" "encode_key 100 [make_int64 3] = Inr l"
    by (simp add: encode_key_iff)
  show ?thesis
    using encode_key_order [OF kl] kl by (simp add: Value_lt_def)
qed

text \<open>\<open>val_ok cmp vs ks\<close>: the values \<open>vs\<close> of a row are on the right side of the bound \<open>ks\<close>.\<close>

definition val_ok :: "CMP \<Rightarrow> Value list \<Rightarrow> Value list \<Rightarrow> bool" where
  "val_ok cmp vs ks =
     (case cmp of CMP_GE \<Rightarrow> \<not> Values_lt vs ks | CMP_GT \<Rightarrow> Values_lt ks vs | CMP_LT \<Rightarrow> Values_lt vs ks | CMP_LE \<Rightarrow> \<not> Values_lt ks vs)"

lemma partial_bound:
  assumes "known_cols tdef cols" and "map vtype pre = take (length pre) (map (col_type tdef) cols)"
  shows "\<exists>b. encode_key_partial p pre tdef cols cmp = Inr b \<and>
    (\<forall>ws k. map vtype ws = map (col_type tdef) cols \<longrightarrow> encode_key p ws = Inr k \<longrightarrow>
      cmp_ok k cmp b =
        (case cmp of
           CMP_GE \<Rightarrow> \<not> Values_lt (take (length pre) ws) pre
         | CMP_GT \<Rightarrow> Values_lt pre (take (length pre) ws)
         | CMP_LT \<Rightarrow> Values_lt (take (length pre) ws) pre
         | CMP_LE \<Rightarrow> \<not> Values_lt pre (take (length pre) ws)))"
proof -
  define n where "n = length pre"
  let ?V = "\<lambda>vs. concat (map value_bytes vs)"
  have "ERROR \<notin> set (map (col_type tdef) cols)"
    using known_col(3) [OF assms(1)] by (auto dest: sym)
  then have ok: "ERROR \<notin> vtype ` set pre"
    using assms(2) set_take_subset by (metis image_set subsetD)
  obtain key where key: "encode_key p pre = Inr key" "key = be_bytes 4 (unat p) @ ?V pre"
    using ok encode_key_iff by blast
  have "known_cols tdef (drop n cols)"
    using assms(1) set_drop_subset [of n cols] by (auto simp: known_cols_def)
  then obtain pad where pad: "pad_cols tdef key (drop n cols) = Inr (key @ pad)"
      "\<forall>vs. map vtype vs = map (col_type tdef) (drop n cols) \<longrightarrow> \<not> pad < ?V vs"
    using pad_cols_max by blast
  let ?pad = "if cmp = CMP_GT \<or> cmp = CMP_LE then pad else []"
  have b: "encode_key_partial p pre tdef cols cmp = Inr (key @ ?pad)"
    using key(1) pad(1) by (cases cmp) (simp_all add: encode_key_partial_def n_def)
  have "cmp_ok k cmp (key @ ?pad) = (case cmp of CMP_GE \<Rightarrow> \<not> Values_lt (take n ws) pre
      | CMP_GT \<Rightarrow> Values_lt pre (take n ws) | CMP_LT \<Rightarrow> Values_lt (take n ws) pre
      | CMP_LE \<Rightarrow> \<not> Values_lt pre (take n ws))"
    if ws: "map vtype ws = map (col_type tdef) cols" "encode_key p ws = Inr k" for ws k
  proof -
    have "map vtype (take n ws) = map vtype pre"
      using ws(1) assms(2) by (simp add: take_map [symmetric] n_def)
    moreover have "ERROR \<notin> vtype ` set (take n ws)"
      using ok calculation by (metis image_set)
    moreover have k: "k = be_bytes 4 (unat p) @ ?V (take n ws) @ ?V (drop n ws)"
      using ws(2) by (metis append_take_drop_id concat_append encode_key_iff map_append)
    ultimately have less: "k < key @ x \<longleftrightarrow> Values_lt (take n ws) pre \<or> list_all2 Value_eq (take n ws) pre \<and> ?V (drop n ws) < x"
        "key @ x < k \<longleftrightarrow> Values_lt pre (take n ws) \<or> list_all2 Value_eq pre (take n ws) \<and> x < ?V (drop n ws)" for x
      using concat_value_bytes_less_iff [of "take n ws" pre] concat_value_bytes_less_iff [of pre "take n ws"] ok
      unfolding key(2) k by simp_all
    have types: "map vtype (drop n ws) = map (col_type tdef) (drop n cols)"
      using ws(1) by (simp add: drop_map [symmetric])
    have "\<not> pad < ?V (drop n ws)"
      using pad(2) types by blast
    then show ?thesis
      using less less(1) [of "[]"] by (cases cmp) (simp_all add: not_less [symmetric])
  qed
  then show ?thesis
    using b unfolding n_def by blast
qed

text \<open>
  C38: a partial bound stands for every key that shares its values. For a bound that names the first
  columns of an index, encoding succeeds, and the comparison of a complete index key with the bound is
  the comparison of the key's leading values with those of the bound: GE and LE include all keys that
  share them, GT and LT exclude them all, whatever the other columns hold.
\<close>

theorem encode_key_partial_bound:
  assumes "known_cols tdef cols" and "map vtype pre = take (length pre) (map (col_type tdef) cols)"
  shows "\<exists>b. encode_key_partial p pre tdef cols cmp = Inr b \<and>
    (\<forall>ws k. map vtype ws = map (col_type tdef) cols \<longrightarrow> encode_key p ws = Inr k \<longrightarrow>
      cmp_ok k cmp b =
        (case cmp of
           CMP_GE \<Rightarrow> \<not> Values_lt (take (length pre) ws) pre
         | CMP_GT \<Rightarrow> Values_lt pre (take (length pre) ws)
         | CMP_LT \<Rightarrow> Values_lt (take (length pre) ws) pre
         | CMP_LE \<Rightarrow> \<not> Values_lt pre (take (length pre) ws)))"
  by (rule partial_bound [OF assms])

lemma encode_key_partial_bound_witness:
  "\<exists>b k. encode_key_partial 101 [make_bytes [120]] books [str ''author'', str ''id''] CMP_LE = Inr b
    \<and> encode_key 101 [make_bytes [120], make_int64 5] = Inr k \<and> cmp_ok k CMP_LE b"
proof -
  let ?cols = "[str ''author'', str ''id'']" and ?pre = "[make_bytes [120]]" and ?ws = "[make_bytes [120], make_int64 5]"
  have types: "map (col_type books) ?cols = [BYTES, INT_64]"
    by (simp add: col_type_def books_def builder_defs col_index_def str_def)
  have known: "known_cols books ?cols"
    by (simp add: known_cols_def books_def builder_defs)
  obtain b where b: "encode_key_partial 101 ?pre books ?cols CMP_LE = Inr b"
      "\<And>ws k. map vtype ws = [BYTES, INT_64] \<Longrightarrow> encode_key 101 ws = Inr k \<Longrightarrow>
        cmp_ok k CMP_LE b = (\<not> Values_lt ?pre (take 1 ws))"
    using encode_key_partial_bound [OF known, of ?pre 101 CMP_LE] unfolding types by auto
  obtain k where k: "encode_key 101 ?ws = Inr k"
    by (simp add: encode_key_iff)
  have "cmp_ok k CMP_LE b"
    using b(2) [OF _ k] by (simp add: Value_lt_irrefl)
  then show ?thesis
    using b(1) k by blast
qed

section \<open>Rows\<close>

lemma collect_cols_ok:
  assumes "length (types tdef) = length (tcols tdef)" and "\<forall>i\<in>set is. i < length (tcols tdef)"
  shows "\<exists>r. collect_cols tdef rec is = Inr r \<and> (\<forall>vs. r = Inr vs \<longleftrightarrow>
    list_all2 (\<lambda>i v. Record_get rec (tcols tdef ! i) = Some v \<and> vtype v = types tdef ! i) is vs)"
  using assms(2)
proof (induction "is")
  case (Cons i "is")
  then obtain r where r: "collect_cols tdef rec is = Inr r" "\<And>vs. r = Inr vs \<longleftrightarrow>
      list_all2 (\<lambda>i v. Record_get rec (tcols tdef ! i) = Some v \<and> vtype v = types tdef ! i) is vs"
    by auto
  show ?case
  proof (cases "Record_get rec (tcols tdef ! i)")
    case None
    then show ?thesis
      using Cons.prems by (auto simp: list_all2_Cons1)
  next
    case (Some v)
    then show ?thesis
      using Cons.prems assms(1) r by (auto simp: list_all2_Cons1 rbind_eq_Inr Let_def)
  qed
qed auto

lemma check_record_ok:
  assumes "length (types tdef) = length (tcols tdef)" and "0 \<le> n" and "nat n \<le> length (tcols tdef)"
  shows "\<exists>r. check_record tdef rec n = Inr r \<and> (\<forall>vs. r = Inr vs \<longleftrightarrow>
    length vs = nat n \<and> (\<forall>i<nat n. Record_get rec (tcols tdef ! i) = Some (vs ! i) \<and> vtype (vs ! i) = types tdef ! i)
    \<and> set (rec_cols rec) \<subseteq> set (take (nat n) (tcols tdef)))"
proof -
  obtain r where r: "collect_cols tdef rec [0..<nat n] = Inr r" "\<And>vs. r = Inr vs \<longleftrightarrow>
      list_all2 (\<lambda>i v. Record_get rec (tcols tdef ! i) = Some v \<and> vtype v = types tdef ! i) [0..<nat n] vs"
    using collect_cols_ok [OF assms(1), of "[0..<nat n]" rec] assms(3) by auto
  let ?f = "find (\<lambda>col. col \<notin> set (take (nat n) (tcols tdef))) (rec_cols rec)"
  have find: "?f = None \<longleftrightarrow> set (rec_cols rec) \<subseteq> set (take (nat n) (tcols tdef))"
    by (auto simp: find_None_iff)
  have all: "r = Inr vs \<longleftrightarrow> length vs = nat n
      \<and> (\<forall>i<nat n. Record_get rec (tcols tdef ! i) = Some (vs ! i) \<and> vtype (vs ! i) = types tdef ! i)" for vs
    unfolding r(2) by (auto simp: list_all2_conv_all_nth)
  show ?thesis
  proof (cases r)
    case (Inl e)
    then show ?thesis
      using assms(2) r(1) all find by (simp add: check_record_def)
  next
    case (Inr out)
    show ?thesis
    proof (cases ?f)
      case None
      then have "check_record tdef rec n = Inr r"
        using assms(2) r(1) Inr by (simp add: check_record_def)
      then show ?thesis
        using all None find by blast
    next
      case (Some c)
      then have "\<not> set (rec_cols rec) \<subseteq> set (take (nat n) (tcols tdef))"
        using find by simp
      then show ?thesis
        using assms(2) r(1) Inr Some by (simp add: check_record_def)
    qed
  qed
qed

text \<open>
  Validation of a record is exact. For a table whose columns have types and a column count within
  it, \<open>check_record\<close> never raises, and it accepts a record, with its values in table order, exactly
  when the record has a value of the right type for each of the first \<open>n\<close> columns and no other column.
\<close>

theorem check_record_exact:
  assumes "length (types tdef) = length (tcols tdef)" and "0 \<le> n" and "nat n \<le> length (tcols tdef)"
  shows "\<exists>r. check_record tdef rec n = Inr r \<and> (\<forall>vs. r = Inr vs \<longleftrightarrow>
    length vs = nat n \<and> (\<forall>i<nat n. Record_get rec (tcols tdef ! i) = Some (vs ! i) \<and> vtype (vs ! i) = types tdef ! i)
    \<and> set (rec_cols rec) \<subseteq> set (take (nat n) (tcols tdef)))"
  using assms by (rule check_record_ok)

definition book :: Record where
  "book = add_str (add_int64 (add_str empty_Record (str ''title'') [104, 105]) (str ''id'') 7) (str ''author'') [120]"

lemma check_record_exact_witness:
  "check_record books book 3 = Inr (Inr [make_int64 7, make_bytes [120], make_bytes [104, 105]])
    \<and> (\<forall>vs. check_record books book 1 \<noteq> Inr (Inr vs))"
proof -
  have cols: "tcols books = [str ''id'', str ''author'', str ''title'']" "types books = [INT_64, BYTES, BYTES]"
    by (simp_all add: books_def builder_defs)
  have ne: "str ''id'' \<noteq> str ''title''" "str ''id'' \<noteq> str ''author''" "str ''author'' \<noteq> str ''title''"
    by (simp_all add: str_def)
  have book: "rec_cols book = [str ''title'', str ''id'', str ''author'']"
      "rec_vals book = [make_bytes [104, 105], make_int64 7, make_bytes [120]]"
    by (simp_all add: book_def empty_Record_def add_str_def add_int64_def)
  have three: "i < 3 \<longleftrightarrow> i = 0 \<or> i = 1 \<or> i = 2" for i :: nat
    by auto
  have "\<exists>r. check_record books book 3 = Inr r \<and>
      r = Inr [make_int64 7, make_bytes [120], make_bytes [104, 105]]"
    using check_record_exact [of books 3 book] ne unfolding cols
    by (fastforce simp: three Record_get_def book)
  moreover have "\<exists>r. check_record books book 1 = Inr r \<and> (\<forall>vs. r \<noteq> Inr vs)"
    using check_record_exact [of books 1 book] ne unfolding cols by (fastforce simp: book)
  ultimately show ?thesis
    by auto
qed

lemma typed_slots_ok:
  assumes "length (types tdef) = length (tcols tdef)" and "b \<le> e" and "e \<le> length (tcols tdef)"
  shows "\<exists>slots. typed_slots tdef b e = Inr slots \<and> map vtype slots = map (\<lambda>i. types tdef ! i) [b..<e]"
  using assms by (simp add: typed_slots_def)

lemma Record_get_rel:
  "list_all2 Value_eq vs ws \<Longrightarrow> rel_option Value_eq (get_from cs vs c) (get_from cs ws c)"
proof (induction vs ws arbitrary: cs rule: list_all2_induct)
  case Nil
  then show ?case
    by (cases cs) simp_all
next
  case (Cons v vs w ws)
  then show ?case
    by (cases cs) simp_all
qed

lemma get_from_same:
  "length cs = length vs \<Longrightarrow> (\<And>i. i < length cs \<Longrightarrow> f (cs ! i) = Some (vs ! i)) \<Longrightarrow>
    get_from cs vs c = (if c \<in> set cs then f c else None)"
proof (induction cs vs rule: list_induct2)
  case (Cons d cs v vs)
  have "f (cs ! i) = Some (vs ! i)" if "i < length cs" for i
    using Cons.prems [of "Suc i"] that by simp
  then show ?case
    using Cons.IH Cons.prems [of 0] by auto
qed simp

lemma get_from_absent: "c \<notin> set cs \<Longrightarrow> get_from cs vs c = None"
  by (induction cs vs c rule: get_from.induct) auto

lemma decode_key_ok:
  assumes "encode_key p vs = Inr key" and "map vtype out = map vtype vs"
  shows "\<exists>vs'. decode_key key out = Inr vs' \<and> list_all2 Value_eq vs' vs"
proof -
  obtain e where "encode_values vs = Inr e" "key = be_bytes 4 (unat p) @ e"
    using assms(1) by (auto simp: encode_key_iff encode_values_iff)
  then show ?thesis
    using decode_values_written [OF _ assms(2)] by (simp add: decode_key_def KEY_PREFIX_SIZE_def)
qed

text \<open>
  C39: a stored row reads back. The values of an accepted record can be encoded, and \<open>decode_row\<close> of the
  key and value written for them is a record that has the table's columns in order and gives every
  column the value the accepted record gave it.
\<close>

theorem decode_row_roundtrip:
  assumes "length (types tdef) = length (tcols tdef)" and "ERROR \<notin> set (types tdef)"
    and "0 \<le> pkeys tdef" and "nat (pkeys tdef) \<le> length (tcols tdef)" and "pkeys tdef < 2 ^ 31"
    and "check_record tdef rec (int (length (tcols tdef))) = Inr (Inr vs)"
  shows "\<exists>key val rec'. encode_key p (take (nat (pkeys tdef)) vs) = Inr key
    \<and> encode_values (drop (nat (pkeys tdef)) vs) = Inr val \<and> decode_row tdef key val = Inr rec'
    \<and> rec_cols rec' = tcols tdef \<and> (\<forall>c. rel_option Value_eq (Record_get rec' c) (Record_get rec c))"
proof -
  define k where "k = nat (pkeys tdef)"
  have vs: "length vs = length (tcols tdef)" "\<And>i. i < length (tcols tdef) \<Longrightarrow> Record_get rec (tcols tdef ! i) = Some (vs ! i)"
      "\<And>i. i < length (tcols tdef) \<Longrightarrow> vtype (vs ! i) = types tdef ! i" and cols: "set (rec_cols rec) \<subseteq> set (tcols tdef)"
    using check_record_ok [OF assms(1), of "int (length (tcols tdef))" rec] assms(6) by auto
  have vt: "map vtype vs = types tdef"
    using vs assms(1) by (intro nth_equalityI) simp_all
  have "ERROR \<notin> vtype ` set (take k vs)" "ERROR \<notin> vtype ` set (drop k vs)"
    using assms(2) set_take_subset [of k vs] set_drop_subset [of k vs] unfolding vt [symmetric] by auto
  then obtain key val where key: "encode_key p (take k vs) = Inr key" and val: "encode_values (drop k vs) = Inr val"
    using encode_key_iff encode_values_iff by blast
  obtain ps cs where ps: "typed_slots tdef 0 k = Inr ps" "map vtype ps = map vtype (take k vs)"
    and cs: "typed_slots tdef k (length (tcols tdef)) = Inr cs" "map vtype cs = map vtype (drop k vs)"
  proof -
    have "map ((!) (types tdef)) [0..<k] = take k (types tdef)"
      "map ((!) (types tdef)) [k..<length (tcols tdef)] = drop k (types tdef)"
      using assms(1,4) by (simp_all add: list_eq_iff_nth_eq k_def)
    moreover have "take k (types tdef) = map vtype (take k vs)" "drop k (types tdef) = map vtype (drop k vs)"
      unfolding vt [symmetric] by (simp_all add: take_map drop_map)
    ultimately show thesis
      using that typed_slots_ok [OF assms(1), of 0 k] typed_slots_ok [OF assms(1), of k "length (tcols tdef)"] assms(4)
      by (auto simp: k_def)
  qed
  obtain ps' cs' where dec: "decode_key key ps = Inr ps'" "list_all2 Value_eq ps' (take k vs)"
      "decode_values val cs = Inr cs'" "list_all2 Value_eq cs' (drop k vs)"
    using decode_key_ok [OF key ps(2)] decode_values_written [OF val cs(2)] by blast
  let ?rec = "\<lparr>rec_cols = tcols tdef, rec_vals = ps' @ cs'\<rparr>"
  have "nat (pkeys tdef mod 2 ^ 64) = k"
    using assms(3,5) by (simp add: k_def)
  then have row: "decode_row tdef key val = Inr ?rec"
    using ps(1) cs(1) dec(1,3) by (simp add: decode_row_def Let_def)
  have "list_all2 Value_eq (ps' @ cs') vs"
    using list_all2_appendI [OF dec(2,4)] by simp
  then have "rel_option Value_eq (Record_get ?rec c) (get_from (tcols tdef) vs c)" for c
    using Record_get_rel by (simp add: Record_get_def)
  moreover have "get_from (tcols tdef) vs c = Record_get rec c" for c
  proof (cases "c \<in> set (tcols tdef)")
    case True
    then show ?thesis
      using get_from_same [of "tcols tdef" vs "Record_get rec" c] vs(1,2) by simp
  next
    case False
    then have "c \<notin> set (rec_cols rec)"
      using cols by blast
    then show ?thesis
      using False by (simp add: get_from_absent Record_get_def)
  qed
  ultimately show ?thesis
    using key val row unfolding k_def by (intro exI [of _ key] exI [of _ val] exI [of _ ?rec]) simp
qed

lemma decode_row_roundtrip_witness:
  "\<exists>key val rec'. encode_key 100 [make_int64 7] = Inr key
    \<and> encode_values [make_bytes [120], make_bytes [104, 105]] = Inr val \<and> decode_row books key val = Inr rec'
    \<and> rel_option Value_eq (Record_get rec' (str ''author'')) (Some (make_bytes [120]))"
proof -
  have cols: "tcols books = [str ''id'', str ''author'', str ''title'']" "types books = [INT_64, BYTES, BYTES]" "pkeys books = 1"
    by (simp_all add: books_def builder_defs)
  have ne: "str ''id'' \<noteq> str ''title''" "str ''id'' \<noteq> str ''author''" "str ''author'' \<noteq> str ''title''"
    by (simp_all add: str_def)
  have book: "rec_cols book = [str ''title'', str ''id'', str ''author'']"
      "rec_vals book = [make_bytes [104, 105], make_int64 7, make_bytes [120]]"
    by (simp_all add: book_def empty_Record_def add_str_def add_int64_def)
  have "check_record books book 3 = Inr (Inr [make_int64 7, make_bytes [120], make_bytes [104, 105]])"
    using ne by (simp add: check_record_def cols book Record_get_def upt_rec)
  then have rec: "check_record books book (int (length (tcols books)))
      = Inr (Inr [make_int64 7, make_bytes [120], make_bytes [104, 105]])"
    by (simp add: cols)
  have "length (types books) = length (tcols books)" "ERROR \<notin> set (types books)" "0 \<le> pkeys books"
    "nat (pkeys books) \<le> length (tcols books)" "pkeys books < 2 ^ 31"
    by (simp_all add: cols)
  from decode_row_roundtrip [OF this rec, of 100] obtain key val rec' where
    row: "encode_key 100 [make_int64 7] = Inr key" "encode_values [make_bytes [120], make_bytes [104, 105]] = Inr val"
      "decode_row books key val = Inr rec'" "\<And>c. rel_option Value_eq (Record_get rec' c) (Record_get book c)"
    by (auto simp: cols)
  have "Record_get book (str ''author'') = Some (make_bytes [120])"
    using ne by (simp add: Record_get_def book)
  then show ?thesis
    using row(1-3) row(4) [of "str ''author''"] by auto
qed

section \<open>Choosing an index\<close>

definition matching :: "TableDef \<Rightarrow> bytes list \<Rightarrow> nat \<Rightarrow> bool" where
  "matching tdef keys i \<longleftrightarrow> i < length (indexes tdef) \<and> is_prefix (indexes tdef ! i) keys"

text \<open>The winner among the indexes before \<open>i\<close>: the first of the shortest that match.\<close>

definition best_before :: "TableDef \<Rightarrow> bytes list \<Rightarrow> nat \<Rightarrow> int \<Rightarrow> bool" where
  "best_before tdef keys i w \<longleftrightarrow>
     (if w = -2 then \<forall>j<i. \<not> is_prefix (indexes tdef ! j) keys
      else \<exists>k<i. w = int k \<and> is_prefix (indexes tdef ! k) keys \<and>
        (\<forall>j<i. is_prefix (indexes tdef ! j) keys \<longrightarrow> length (indexes tdef ! k) < length (indexes tdef ! j)
          \<or> length (indexes tdef ! k) = length (indexes tdef ! j) \<and> k \<le> j))"

lemma best_step:
  assumes "best_before tdef keys i w"
  shows "best_before tdef keys (Suc i) (if \<not> is_prefix (indexes tdef ! i) keys then w
    else if w = -2 \<or> length (indexes tdef ! i) < length (indexes tdef ! nat w) then int i else w)"
proof (cases "w = -2")
  case True
  then show ?thesis
    using assms unfolding best_before_def by (auto simp: less_Suc_eq)
next
  case False
  then obtain k where k: "k < i" "w = int k" "is_prefix (indexes tdef ! k) keys"
      "\<And>j. j < i \<Longrightarrow> is_prefix (indexes tdef ! j) keys \<Longrightarrow> length (indexes tdef ! k) < length (indexes tdef ! j)
        \<or> length (indexes tdef ! k) = length (indexes tdef ! j) \<and> k \<le> j"
    using assms unfolding best_before_def by auto
  show ?thesis
  proof (cases "is_prefix (indexes tdef ! i) keys \<and> length (indexes tdef ! i) < length (indexes tdef ! k)")
    case True
    have "length (indexes tdef ! i) < length (indexes tdef ! j)" if "j < i" "is_prefix (indexes tdef ! j) keys" for j
      using k(4) [OF that] True by auto
    then show ?thesis
      using True k(2) unfolding best_before_def by (auto simp: less_Suc_eq)
  next
    case F: False
    have "best_before tdef keys (Suc i) w"
      using False k F unfolding best_before_def by (auto simp: less_Suc_eq not_less intro!: exI [of _ k])
    then show ?thesis
      using F False k(2) by auto
  qed
qed

lemma find_index_loop_best:
  "best_before tdef keys i w \<Longrightarrow> i \<le> n \<Longrightarrow> best_before tdef keys n (find_index_loop tdef keys w [i..<n])"
proof (induction "n - i" arbitrary: i w)
  case (Suc m)
  then have step: "[i..<n] = i # [Suc i..<n]"
    by (simp add: upt_conv_Cons)
  show ?case
    using Suc(1) [OF _ best_step [OF Suc(3)]] Suc(2,4) unfolding step by (auto split: if_splits)
qed simp

lemma find_index_choice:
  "case find_index tdef keys of
     Inl err \<Rightarrow> \<not> is_prefix (take (nat (pkeys tdef)) (tcols tdef)) keys \<and> (\<forall>j. \<not> matching tdef keys j)
   | Inr w \<Rightarrow>
       if is_prefix (take (nat (pkeys tdef)) (tcols tdef)) keys then w = -1
       else \<exists>k. w = int k \<and> matching tdef keys k \<and> (\<forall>j. matching tdef keys j \<longrightarrow>
         length (indexes tdef ! k) < length (indexes tdef ! j)
         \<or> length (indexes tdef ! k) = length (indexes tdef ! j) \<and> k \<le> j)"
proof -
  have "best_before tdef keys (length (indexes tdef)) (find_index_loop tdef keys (-2) [0..<length (indexes tdef)])"
    by (rule find_index_loop_best) (simp_all add: best_before_def)
  then show ?thesis
    unfolding find_index_def best_before_def matching_def by (auto simp: Let_def split: if_splits)
qed

text \<open>
  A range key is scanned on the best tree. The primary key is chosen exactly when the range key
  names its leading columns; otherwise the choice is the first of the shortest indexes that start with
  the columns named, and an error is reported exactly when there is none.
\<close>

theorem find_index_best:
  "case find_index tdef keys of
     Inl err \<Rightarrow> \<not> is_prefix (take (nat (pkeys tdef)) (tcols tdef)) keys \<and> (\<forall>j. \<not> matching tdef keys j)
   | Inr w \<Rightarrow>
       if is_prefix (take (nat (pkeys tdef)) (tcols tdef)) keys then w = -1
       else \<exists>k. w = int k \<and> matching tdef keys k \<and> (\<forall>j. matching tdef keys j \<longrightarrow>
         length (indexes tdef ! k) < length (indexes tdef ! j)
         \<or> length (indexes tdef ! k) = length (indexes tdef ! j) \<and> k \<le> j)"
  by (rule find_index_choice)

lemma find_index_best_witness: "find_index books [str ''author''] = Inr 0"
proof -
  have books: "take (nat (pkeys books)) (tcols books) = [str ''id'']" "indexes books = [[str ''author'']]"
    by (simp_all add: books_def builder_defs)
  have "\<not> is_prefix [str ''id''] [str ''author'']" "matching books [str ''author''] k \<longleftrightarrow> k = 0" for k
    by (auto simp: is_prefix_def matching_def books str_def)
  then show ?thesis
    using find_index_best [of books "[str ''author'']"] unfolding books by (auto split: sum.splits)
qed

end
