(* ===== verification/QL_Range.thy ===== *)
theory QL_Range
  imports QL_Eval Row_Spec
begin

text \<open>
  Narrowing a scan, \<open>ql/ql_range\<close>: the comparisons a filter ANDs together become bounds on columns, the
  index they fit best is chosen, and the bounds of its leading columns become the range of the scan.
  The \<open>std::map\<close> of bounds is its list of entries.
\<close>

section \<open>Bounds on columns\<close>

record ColBound =
  has_eq :: bool
  has_lo :: bool
  has_hi :: bool
  lo_open :: bool
  hi_open :: bool
  cb_eq :: Value
  cb_lo :: Value
  cb_hi :: Value

definition empty_ColBound :: ColBound where
  "empty_ColBound = \<lparr>has_eq = False, has_lo = False, has_hi = False, lo_open = False, hi_open = False,
     cb_eq = default_Value, cb_lo = default_Value, cb_hi = default_Value\<rparr>"

type_synonym Bounds = "(bytes \<times> ColBound) list"

definition value_less :: "Value \<Rightarrow> Value \<Rightarrow> bool" where
  "value_less a b = (if vtype a = INT_64 then sint (int64 a) < sint (int64 b) else vstr a < vstr b)"

fun flip :: "QLNodeType \<Rightarrow> QLNodeType" where
  "flip QL_CMP_LT = QL_CMP_GT"
| "flip QL_CMP_LE = QL_CMP_GE"
| "flip QL_CMP_GT = QL_CMP_LT"
| "flip QL_CMP_GE = QL_CMP_LE"
| "flip t = t"

definition is_comparison :: "QLNodeType \<Rightarrow> bool" where
  "is_comparison type \<longleftrightarrow> type = QL_CMP_EQ \<or> type = QL_CMP_LT \<or> type = QL_CMP_LE \<or> type = QL_CMP_GT \<or> type = QL_CMP_GE"

definition add_bound :: "QLNodeType \<Rightarrow> bytes \<Rightarrow> Value \<Rightarrow> Bounds \<Rightarrow> Bounds" where
  "add_bound op col v out =
     (let b = (case map_of out col of None \<Rightarrow> empty_ColBound | Some b \<Rightarrow> b);
          b = (if op = QL_CMP_EQ then
                 if \<not> has_eq b then b\<lparr>has_eq := True, cb_eq := v\<rparr> else b
               else if op = QL_CMP_GT \<or> op = QL_CMP_GE then
                 if \<not> has_lo b \<or> value_less (cb_lo b) v
                 then b\<lparr>has_lo := True, lo_open := (op = QL_CMP_GT), cb_lo := v\<rparr> else b
               else if op = QL_CMP_LT \<or> op = QL_CMP_LE then
                 if \<not> has_hi b \<or> value_less v (cb_hi b)
                 then b\<lparr>has_hi := True, hi_open := (op = QL_CMP_LT), cb_hi := v\<rparr> else b
               else b)
      in omap_put col b out)"

text \<open>\<open>collect_cmp\<close> is the part of \<open>collect\<close> for one comparison.\<close>

definition collect_cmp :: "QLNodeType \<Rightarrow> QLNode \<Rightarrow> QLNode \<Rightarrow> TableDef \<Rightarrow> Bounds \<Rightarrow> Bounds res" where
  "collect_cmp type k0 k1 tdef out =
     (let (op, sym, val) = (if q_type k0 \<noteq> QL_SYM then (flip type, k1, k0) else (type, k0, k1)) in
      if q_type sym \<noteq> QL_SYM then Inr out else
      let at = col_index tdef (vstr (q_val sym)) in
      if at < 0 then Inr out else
      rbind (ql_eval val empty_Record) (\<lambda>r.
      case r of
        Inl err \<Rightarrow> Inr out
      | Inr v \<Rightarrow>
          if nat at \<ge> length (types tdef) then Inl Bad_access
          else if vtype v \<noteq> types tdef ! nat at then Inr out
          else Inr (add_bound op (vstr (q_val sym)) v out)))"

fun collect :: "QLNode \<Rightarrow> TableDef \<Rightarrow> Bounds \<Rightarrow> Bounds res" where
  "collect (QLNode type v kids) tdef out =
     (if type = QL_AND then
        (case kids of
           k0 # k1 # _ \<Rightarrow> rbind (collect k0 tdef out) (\<lambda>out. collect k1 tdef out)
         | k0 # _ \<Rightarrow> rbind (collect k0 tdef out) (\<lambda>_. Inl Bad_access)
         | _ \<Rightarrow> Inl Bad_access)
      else if \<not> is_comparison type then Inr out
      else
        (case kids of
           k0 # k1 # _ \<Rightarrow> collect_cmp type k0 k1 tdef out
         | _ \<Rightarrow> Inl Bad_access))"

declare collect.simps [simp del]

section \<open>Choosing an index\<close>

record Fit =
  fit_eq :: nat
  fit_range :: bool

definition score :: "Fit \<Rightarrow> int" where
  "score f = int (fit_eq f) * 2 + (if fit_range f then 1 else 0)"

fun eq_run :: "bytes list \<Rightarrow> Bounds \<Rightarrow> nat" where
  "eq_run [] bounds = 0"
| "eq_run (c # cs) bounds =
     (case map_of bounds c of
        None \<Rightarrow> 0
      | Some b \<Rightarrow> if \<not> has_eq b then 0 else Suc (eq_run cs bounds))"

definition fit_cols :: "bytes list \<Rightarrow> Bounds \<Rightarrow> Fit" where
  "fit_cols cols bounds =
     (let eq = eq_run cols bounds in
      \<lparr>fit_eq = eq,
       fit_range = (if eq < length cols then
          (case map_of bounds (cols ! eq) of None \<Rightarrow> False | Some b \<Rightarrow> has_lo b \<or> has_hi b) else False)\<rparr>)"

fun best_index :: "Bounds \<Rightarrow> bytes list list \<Rightarrow> bytes list \<times> Fit \<times> bool \<Rightarrow> bytes list \<times> Fit \<times> bool" where
  "best_index bounds [] (best, best_fit, best_is_pk) = (best, best_fit, best_is_pk)"
| "best_index bounds (ix # ixs) (best, best_fit, best_is_pk) =
     (let f = fit_cols ix bounds in
      if score f > score best_fit then best_index bounds ixs (ix, f, False)
      else best_index bounds ixs (best, best_fit, best_is_pk))"

section \<open>The range\<close>

record QLRange =
  r_cmp1 :: CMP
  r_cmp2 :: CMP
  r_key1 :: Record
  r_key2 :: Record

definition full_range :: QLRange where
  "full_range = \<lparr>r_cmp1 = CMP_GE, r_cmp2 = CMP_LE, r_key1 = empty_Record, r_key2 = empty_Record\<rparr>"

definition push_col :: "Record \<Rightarrow> bytes \<Rightarrow> Value \<Rightarrow> Record" where
  "push_col r c v = r\<lparr>rec_cols := rec_cols r @ [c], rec_vals := rec_vals r @ [v]\<rparr>"

definition bounds_at :: "Bounds \<Rightarrow> bytes \<Rightarrow> ColBound res" where
  "bounds_at bounds c = (case map_of bounds c of None \<Rightarrow> Inl (Out_of_range ''map::at'') | Some b \<Rightarrow> Inr b)"

fun push_eqs :: "Bounds \<Rightarrow> bytes list \<Rightarrow> QLRange \<Rightarrow> QLRange res" where
  "push_eqs bounds [] out = Inr out"
| "push_eqs bounds (c # cs) out =
     rbind (bounds_at bounds c) (\<lambda>b.
     push_eqs bounds cs (out\<lparr>r_key1 := push_col (r_key1 out) c (cb_eq b), r_key2 := push_col (r_key2 out) c (cb_eq b)\<rparr>))"

definition push_range :: "Bounds \<Rightarrow> bytes \<Rightarrow> QLRange \<Rightarrow> QLRange res" where
  "push_range bounds col out =
     rbind (bounds_at bounds col) (\<lambda>b.
     let out = (if has_lo b then
                  out\<lparr>r_key1 := push_col (r_key1 out) col (cb_lo b), r_cmp1 := (if lo_open b then CMP_GT else CMP_GE)\<rparr>
                else out);
         out = (if has_hi b then
                  out\<lparr>r_key2 := push_col (r_key2 out) col (cb_hi b), r_cmp2 := (if hi_open b then CMP_LT else CMP_LE)\<rparr>
                else out)
     in Inr out)"

definition ql_range :: "QLNode \<Rightarrow> TableDef \<Rightarrow> QLRange res" where
  "ql_range cond tdef =
     (if q_type cond = QL_UNINIT then Inr full_range else
      rbind (collect cond tdef []) (\<lambda>bounds.
      if bounds = [] then Inr full_range else
      if pkeys tdef < 0 \<or> nat (pkeys tdef) > length (tcols tdef) then Inl Bad_access else
      let pk = take (nat (pkeys tdef)) (tcols tdef);
          (best, best_fit, best_is_pk) = best_index bounds (indexes tdef) (pk, fit_cols pk bounds, True)
      in
      if score best_fit = 0 then Inr full_range else
      rbind (push_eqs bounds (take (fit_eq best_fit) best) full_range) (\<lambda>out.
      rbind (if fit_range best_fit then push_range bounds (best ! fit_eq best_fit) out else Inr out) (\<lambda>out.
      if rec_cols (r_key1 out) = [] \<and> \<not> best_is_pk then Inr full_range
      else Inr out))))"

end
