(* ===== verification/QL_Range_Spec.thy ===== *)
theory QL_Range_Spec
  imports QL_Range
begin

text \<open>
  Narrowing is sound: every row the filter keeps is inside the range, whatever index was chosen. The
  bounds over-approximate the filter, and the range over-approximates the bounds.
\<close>

section \<open>Values\<close>

lemma value_less_lt: "vtype a \<noteq> ERROR \<Longrightarrow> value_less a b \<longleftrightarrow> Value_lt a b"
  by (cases "vtype a") (simp_all add: value_less_def Value_lt_def)

lemma Value_lt_trans: "Value_lt a b \<Longrightarrow> Value_lt b c \<Longrightarrow> vtype a = vtype b \<Longrightarrow> Value_lt a c"
  by (cases "vtype a") (auto simp: Value_lt_def)

lemma Value_lt_asym: "Value_lt a b \<Longrightarrow> vtype a = vtype b \<Longrightarrow> \<not> Value_lt b a"
  by (cases "vtype a") (auto simp: Value_lt_def)

lemma Value_lt_neq: "Value_lt a b \<Longrightarrow> vtype a = vtype b \<Longrightarrow> \<not> Value_eq a b"
  by (cases "vtype a") (auto simp: Value_lt_def Value_eq_def)

text \<open>What a comparison that holds says of its operands.\<close>

definition related :: "QLNodeType \<Rightarrow> Value \<Rightarrow> Value \<Rightarrow> bool" where
  "related op a b \<longleftrightarrow> vtype a = vtype b \<and>
     (case op of QL_CMP_EQ \<Rightarrow> Value_eq a b | QL_CMP_LT \<Rightarrow> Value_lt a b | QL_CMP_LE \<Rightarrow> \<not> Value_lt b a
      | QL_CMP_GT \<Rightarrow> Value_lt b a | QL_CMP_GE \<Rightarrow> \<not> Value_lt a b | _ \<Rightarrow> True)"

lemma related_flip: "related op a b \<Longrightarrow> related (flip op) b a"
  by (cases op) (auto simp: related_def intro: Value_eq_sym)

lemma cmp_related:
  assumes "compare a b = qret c" and "cmp_holds op c" and "vtype a \<noteq> ERROR"
  shows "related op a b"
proof -
  have t: "vtype a = vtype b"
    using assms(1) by (auto simp: compare_def split: if_splits)
  have c: "(c < 0 \<longleftrightarrow> Value_lt a b) \<and> (c = 0 \<longleftrightarrow> Value_eq a b) \<and> (0 < c \<longleftrightarrow> Value_lt b a)"
    using assms(1,3) t by (cases "vtype a") (auto simp: compare_def Value_lt_def Value_eq_def signed_word_eqI split: if_splits)
  show ?thesis
    using assms(2) c t by (cases op) (auto simp: related_def cmp_holds_def)
qed

section \<open>The bounds hold of every row the filter keeps\<close>

definition col_types :: "TableDef \<Rightarrow> bytes \<rightharpoonup> ValueType" where
  "col_types tdef c = (if c \<in> set (tcols tdef) then Some (col_type tdef c) else None)"

definition bound_holds :: "Value \<Rightarrow> ColBound \<Rightarrow> bool" where
  "bound_holds v b \<longleftrightarrow> (has_eq b \<longrightarrow> Value_eq v (cb_eq b))
     \<and> (has_lo b \<longrightarrow> vtype (cb_lo b) = vtype v \<and> (if lo_open b then Value_lt (cb_lo b) v else \<not> Value_lt v (cb_lo b)))
     \<and> (has_hi b \<longrightarrow> vtype (cb_hi b) = vtype v \<and> (if hi_open b then Value_lt v (cb_hi b) else \<not> Value_lt (cb_hi b) v))"

definition bounds_hold :: "TableDef \<Rightarrow> Record \<Rightarrow> Bounds \<Rightarrow> bool" where
  "bounds_hold tdef row bounds \<longleftrightarrow> (\<forall>c b. map_of bounds c = Some b \<longrightarrow>
     c \<in> set (tcols tdef) \<and> (\<exists>v. Record_get row c = Some v \<and> vtype v = col_type tdef c \<and> bound_holds v b))"

lemma bounds_holdD:
  "bounds_hold tdef row bounds \<Longrightarrow> map_of bounds c = Some b \<Longrightarrow> \<exists>v. Record_get row c = Some v \<and> bound_holds v b"
  unfolding bounds_hold_def by blast

text \<open>The filter keeps a row if it evaluates to a nonzero number.\<close>

definition keeps :: "QLNode \<Rightarrow> Record \<Rightarrow> bool" where
  "keeps node row \<longleftrightarrow> (\<exists>v. ql_eval node row = qret v \<and> vtype v = INT_64 \<and> int64 v \<noteq> 0)"

lemma eval_const: "ql_eval node empty_Record = qret v \<Longrightarrow> ql_eval node row = qret v"
proof (induction node arbitrary: v)
  case (QLNode t w kids)
  have none: "Record_get empty_Record c = None" for c
    by (simp add: Record_get_def empty_Record_def)
  consider "t \<in> {QL_I64, QL_STR, QL_SYM, QL_TUP, QL_STAR, QL_UNINIT}" | "t \<in> {QL_NEG, QL_NOT}"
    | "t \<notin> {QL_I64, QL_STR, QL_SYM, QL_NEG, QL_NOT, QL_TUP, QL_STAR, QL_UNINIT}"
    by blast
  then show ?case
  proof cases
    case 1
    then show ?thesis
      using QLNode.prems by (auto simp: ql_eval.simps none)
  next
    case 2
    then obtain k ks where k: "kids = k # ks" "qbind (ql_eval k empty_Record) (ql_unary t) = qret v"
      using QLNode.prems by (auto simp: ql_eval.simps qret_def split: list.splits)
    then obtain x where "ql_eval k empty_Record = qret x" "ql_unary t x = qret v"
      unfolding qbind_qret by blast
    then show ?thesis
      using QLNode.IH [of k x] 2 k(1) by (auto simp: ql_eval.simps)
  next
    case 3
    then obtain k0 k1 ks where k: "kids = k0 # k1 # ks"
        "qbind (ql_eval k0 empty_Record) (\<lambda>a. qbind (ql_eval k1 empty_Record) (ql_binary t a)) = qret v"
      using QLNode.prems by (auto simp: ql_eval.simps qret_def qbind_def rbind_def split: list.splits sum.splits)
    then obtain a b where "ql_eval k0 empty_Record = qret a" "ql_eval k1 empty_Record = qret b" "ql_binary t a b = qret v"
      unfolding qbind_qret by blast
    then show ?thesis
      using QLNode.IH [of k0 a] QLNode.IH [of k1 b] 3 k(1) by (simp add: ql_eval.simps)
  qed
qed

lemma keeps_and:
  assumes "keeps (QLNode QL_AND v (k0 # k1 # ks)) row"
  shows "keeps k0 row \<and> keeps k1 row"
  using assms by (auto simp: keeps_def ql_eval.simps qbind_qret ql_binary_def make_bool_def Let_def split: if_splits)

lemma keeps_cmp:
  assumes "keeps (QLNode t v (k0 # k1 # ks)) row" and "is_comparison t"
  shows "\<exists>a b c. ql_eval k0 row = qret a \<and> ql_eval k1 row = qret b \<and> compare a b = qret c \<and> cmp_holds t c"
  using assms by (auto simp: keeps_def is_comparison_def ql_eval.simps qbind_qret ql_binary_def make_bool_def split: if_splits)

lemma add_bound_hold:
  assumes b: "bounds_hold tdef row out" and c: "c \<in> set (tcols tdef)" "Record_get row c = Some x" "vtype x = col_type tdef c"
    and rel: "related op x v" and op: "is_comparison op"
  shows "bounds_hold tdef row (add_bound op c v out)"
proof -
  define b0 where "b0 = (case map_of out c of None \<Rightarrow> empty_ColBound | Some b \<Rightarrow> b)"
  have b0: "bound_holds x b0"
  proof (cases "map_of out c")
    case None
    then show ?thesis
      by (simp add: b0_def bound_holds_def empty_ColBound_def)
  next
    case (Some b1)
    then have "\<exists>v. Record_get row c = Some v \<and> bound_holds v b1"
      using bounds_holdD [OF b] by blast
    then show ?thesis
      using c(2) Some by (simp add: b0_def)
  qed
  have t: "vtype v = vtype x"
    using rel by (simp add: related_def)
  obtain b' where b': "add_bound op c v out = omap_put c b' out" "bound_holds x b'"
  proof (cases op)
    case QL_CMP_EQ
    then show ?thesis
      using rel b0 by (intro that [of "if \<not> has_eq b0 then b0\<lparr>has_eq := True, cb_eq := v\<rparr> else b0"])
        (auto simp: add_bound_def b0_def [symmetric] Let_def bound_holds_def related_def)
  next
    case QL_CMP_LT
    then show ?thesis
      using rel b0 t by (intro that [of "if \<not> has_hi b0 \<or> value_less v (cb_hi b0) then b0\<lparr>has_hi := True, hi_open := True, cb_hi := v\<rparr> else b0"])
        (auto simp: add_bound_def b0_def [symmetric] Let_def bound_holds_def related_def)
  next
    case QL_CMP_LE
    then show ?thesis
      using rel b0 t by (intro that [of "if \<not> has_hi b0 \<or> value_less v (cb_hi b0) then b0\<lparr>has_hi := True, hi_open := False, cb_hi := v\<rparr> else b0"])
        (auto simp: add_bound_def b0_def [symmetric] Let_def bound_holds_def related_def)
  next
    case QL_CMP_GT
    then show ?thesis
      using rel b0 t by (intro that [of "if \<not> has_lo b0 \<or> value_less (cb_lo b0) v then b0\<lparr>has_lo := True, lo_open := True, cb_lo := v\<rparr> else b0"])
        (auto simp: add_bound_def b0_def [symmetric] Let_def bound_holds_def related_def)
  next
    case QL_CMP_GE
    then show ?thesis
      using rel b0 t by (intro that [of "if \<not> has_lo b0 \<or> value_less (cb_lo b0) v then b0\<lparr>has_lo := True, lo_open := False, cb_lo := v\<rparr> else b0"])
        (auto simp: add_bound_def b0_def [symmetric] Let_def bound_holds_def related_def)
  qed (use op in \<open>simp_all add: is_comparison_def\<close>)
  then show ?thesis
    using b c by (auto simp: bounds_hold_def)
qed

text \<open>A schema with column types, none of them \<open>ERROR\<close>, and a row with a value of its type in every column.\<close>

definition typed_row :: "TableDef \<Rightarrow> Record \<Rightarrow> bool" where
  "typed_row tdef row \<longleftrightarrow> known_cols tdef (tcols tdef) \<and> row_typed (col_types tdef) row"

lemma typed_rowD:
  assumes "typed_row tdef row" and "0 \<le> col_index tdef c"
  shows "c \<in> set (tcols tdef)" and "\<exists>x. Record_get row c = Some x \<and> vtype x = col_type tdef c \<and> vtype x \<noteq> ERROR"
proof -
  show c: "c \<in> set (tcols tdef)"
    using assms(2) col_index_from_iff [of "tcols tdef" c 0] by (simp add: col_index_def)
  obtain x where "Record_get row c = Some x" "vtype x = col_type tdef c"
    using assms(1) c unfolding typed_row_def row_typed_def by (metis col_types_def)
  moreover have "col_type tdef c \<noteq> ERROR"
    using known_col(3) assms(1) c by (auto simp: typed_row_def)
  ultimately show "\<exists>x. Record_get row c = Some x \<and> vtype x = col_type tdef c \<and> vtype x \<noteq> ERROR"
    by auto
qed

lemma sym_value: "q_type k = QL_SYM \<Longrightarrow> ql_eval k row = qret x \<longleftrightarrow> Record_get row (vstr (q_val k)) = Some x"
  by (cases k) (auto simp: ql_eval.simps split: option.splits)

lemma is_comparison_flip: "is_comparison t \<Longrightarrow> is_comparison (flip t)"
  by (cases t) (simp_all add: is_comparison_def)

lemma collect_cmp_hold:
  assumes row: "typed_row tdef row" and b: "bounds_hold tdef row out" and op: "is_comparison t"
    and vals: "ql_eval k0 row = qret a" "ql_eval k1 row = qret b'" and rel: "compare a b' = qret c" "cmp_holds t c"
    and run: "collect_cmp t k0 k1 tdef out = Inr out'"
  shows "bounds_hold tdef row out'"
proof -
  define swap where "swap \<longleftrightarrow> q_type k0 \<noteq> QL_SYM"
  define opr sym val x v where "opr = (if swap then flip t else t)" "sym = (if swap then k1 else k0)"
    "val = (if swap then k0 else k1)" "x = (if swap then b' else a)" "v = (if swap then a else b')"
  note d = this
  have ev: "ql_eval sym row = qret x" "ql_eval val row = qret v" and op': "is_comparison opr"
    using vals op is_comparison_flip by (simp_all add: d)
  have run': "collect_cmp t k0 k1 tdef out =
     (if q_type sym \<noteq> QL_SYM then Inr out else
      let at = col_index tdef (vstr (q_val sym)) in
      if at < 0 then Inr out else
      rbind (ql_eval val empty_Record) (\<lambda>r.
      case r of
        Inl err \<Rightarrow> Inr out
      | Inr v \<Rightarrow>
          if nat at \<ge> length (types tdef) then Inl Bad_access
          else if vtype v \<noteq> types tdef ! nat at then Inr out
          else Inr (add_bound opr (vstr (q_val sym)) v out)))"
    unfolding collect_cmp_def d swap_def by (cases "q_type k0 = QL_SYM") simp_all
  let ?c = "vstr (q_val sym)"
  show ?thesis
  proof (cases "q_type sym = QL_SYM \<and> 0 \<le> col_index tdef ?c")
    case True
    have get: "Record_get row ?c = Some x" "?c \<in> set (tcols tdef)" "vtype x = col_type tdef ?c" "vtype x \<noteq> ERROR"
      using ev(1) True sym_value [of sym row x] typed_rowD [OF row, of ?c] by auto
    have rel': "related opr x v"
    proof (cases swap)
      case True
      have "vtype a = vtype b'"
        using rel(1) by (auto simp: compare_def split: if_splits)
      then have "related t a b'"
        using get(4) True by (intro cmp_related [OF rel]) (simp add: d)
      then show ?thesis
        using True related_flip by (simp add: d)
    next
      case False
      then show ?thesis
        using get(4) cmp_related [OF rel] by (simp add: d)
    qed
    have add: "bounds_hold tdef row (add_bound opr ?c v out)"
      by (rule add_bound_hold [OF b get(2,1,3) rel' op'])
    show ?thesis
    proof (cases "\<exists>w. ql_eval val empty_Record = qret w")
      case True
      then obtain w where w: "ql_eval val empty_Record = qret w"
        by blast
      then have "w = v"
        using eval_const [OF w, of row] ev(2) by simp
      then show ?thesis
        using run \<open>q_type sym = QL_SYM \<and> 0 \<le> col_index tdef ?c\<close> w b add unfolding run'
        by (auto simp: qret_def Let_def split: if_splits)
    next
      case False
      then show ?thesis
        using run b unfolding run' by (auto simp: qret_def Let_def rbind_def split: if_splits sum.splits)
    qed
  next
    case False
    then show ?thesis
      using run b unfolding run' by (auto simp: Let_def split: if_splits)
  qed
qed

lemma collect_hold:
  "typed_row tdef row \<Longrightarrow> keeps node row \<Longrightarrow> bounds_hold tdef row out \<Longrightarrow> collect node tdef out = Inr out' \<Longrightarrow>
    bounds_hold tdef row out'"
proof (induction node arbitrary: out out')
  case (QLNode t v kids)
  show ?case
  proof (cases "t = QL_AND")
    case True
    then obtain k0 k1 ks o1 where k: "kids = k0 # k1 # ks" "collect k0 tdef out = Inr o1" "collect k1 tdef o1 = Inr out'"
      using QLNode.prems(4) by (auto simp: collect.simps rbind_eq_Inr split: list.splits)
    have "keeps k0 row \<and> keeps k1 row"
      using keeps_and QLNode.prems(2) True k(1) by blast
    then show ?thesis
      using QLNode.IH(1) [of k0 out o1] QLNode.IH(1) [of k1 o1 out'] QLNode.prems(1,3) k by simp
  next
    case False
    show ?thesis
    proof (cases "is_comparison t")
      case True
      then obtain k0 k1 ks where k: "kids = k0 # k1 # ks" "collect_cmp t k0 k1 tdef out = Inr out'"
        using QLNode.prems(4) False by (auto simp: collect.simps split: list.splits)
      obtain a b c where "ql_eval k0 row = qret a" "ql_eval k1 row = qret b" "compare a b = qret c" "cmp_holds t c"
        using keeps_cmp [OF _ True] QLNode.prems(2) k(1) by blast
      then show ?thesis
        using collect_cmp_hold [OF QLNode.prems(1,3) True _ _ _ _ k(2)] by blast
    next
      case False
      then show ?thesis
        using QLNode.prems(3,4) \<open>t \<noteq> QL_AND\<close> by (simp add: collect.simps)
    qed
  qed
qed

section \<open>The range holds of every row the bounds hold of\<close>

definition row_at :: "Record \<Rightarrow> bytes list \<Rightarrow> Value list" where
  "row_at row cols = map (\<lambda>c. the (Record_get row c)) cols"

definition in_range :: "QLRange \<Rightarrow> Record \<Rightarrow> bool" where
  "in_range r row \<longleftrightarrow> val_ok (r_cmp1 r) (row_at row (rec_cols (r_key1 r))) (rec_vals (r_key1 r))
     \<and> val_ok (r_cmp2 r) (row_at row (rec_cols (r_key2 r))) (rec_vals (r_key2 r))"

definition eq_key :: "Record \<Rightarrow> Record \<Rightarrow> bool" where
  "eq_key row k \<longleftrightarrow> list_all2 Value_eq (row_at row (rec_cols k)) (rec_vals k)"

lemma Values_lt_eq: "list_all2 Value_eq vs ks \<Longrightarrow> \<not> Values_lt vs ks \<and> \<not> Values_lt ks vs"
  by (induction rule: list_all2_induct) (auto dest: Value_lt_irrefl Value_lt_irrefl [OF Value_eq_sym])

lemma Values_lt_last:
  "list_all2 Value_eq vs ks \<Longrightarrow> Values_lt (vs @ [x]) (ks @ [k]) \<longleftrightarrow> Value_lt x k"
  "list_all2 Value_eq vs ks \<Longrightarrow> Values_lt (ks @ [k]) (vs @ [x]) \<longleftrightarrow> Value_lt k x"
  by (induction rule: list_all2_induct) (auto dest: Value_lt_irrefl Value_lt_irrefl [OF Value_eq_sym] intro: Value_eq_sym)

lemma eq_key_val_ok: "eq_key row k \<Longrightarrow> val_ok CMP_GE (row_at row (rec_cols k)) (rec_vals k)
    \<and> val_ok CMP_LE (row_at row (rec_cols k)) (rec_vals k)"
  using Values_lt_eq by (simp add: eq_key_def val_ok_def)

lemma push_col_fields [simp]:
  "rec_cols (push_col r c v) = rec_cols r @ [c]" "rec_vals (push_col r c v) = rec_vals r @ [v]"
  by (simp_all add: push_col_def)

lemma eq_run_bounds: "c \<in> set (take (eq_run cols bounds) cols) \<Longrightarrow> \<exists>b. map_of bounds c = Some b \<and> has_eq b"
  by (induction cols) (auto split: option.splits if_splits)

lemma eq_run_le: "eq_run cols bounds \<le> length cols"
  by (induction cols) (auto split: option.splits)

text \<open>The run of equality columns goes into both keys.\<close>

lemma push_eqs_ok:
  "(\<And>c. c \<in> set cs \<Longrightarrow> \<exists>b. map_of bounds c = Some b \<and> has_eq b) \<Longrightarrow>
    \<exists>out'. push_eqs bounds cs out = Inr out' \<and> r_cmp1 out' = r_cmp1 out \<and> r_cmp2 out' = r_cmp2 out
      \<and> rec_cols (r_key1 out') = rec_cols (r_key1 out) @ cs \<and> rec_cols (r_key2 out') = rec_cols (r_key2 out) @ cs
      \<and> (\<forall>row. bounds_hold tdef row bounds \<longrightarrow> eq_key row (r_key1 out) \<longrightarrow> eq_key row (r_key2 out) \<longrightarrow>
            eq_key row (r_key1 out') \<and> eq_key row (r_key2 out'))"
proof (induction bounds cs out rule: push_eqs.induct)
  case (2 bounds c cs out)
  obtain b where b: "map_of bounds c = Some b" "has_eq b"
    using 2(2) [of c] by auto
  let ?o = "out\<lparr>r_key1 := push_col (r_key1 out) c (cb_eq b), r_key2 := push_col (r_key2 out) c (cb_eq b)\<rparr>"
  have at: "bounds_at bounds c = Inr b"
    by (simp add: bounds_at_def b(1))
  have keys: "eq_key row (r_key1 ?o) \<and> eq_key row (r_key2 ?o)"
    if h: "bounds_hold tdef row bounds" "eq_key row (r_key1 out)" "eq_key row (r_key2 out)" for row
  proof -
    obtain v where "Record_get row c = Some v" "bound_holds v b"
      using bounds_holdD [OF h(1) b(1)] by blast
    then have "Value_eq (the (Record_get row c)) (cb_eq b)"
      using b(2) by (simp add: bound_holds_def)
    then show ?thesis
      using h(2,3) by (simp add: eq_key_def row_at_def list_all2_appendI)
  qed
  obtain out' where "push_eqs bounds cs ?o = Inr out'" "r_cmp1 out' = r_cmp1 ?o" "r_cmp2 out' = r_cmp2 ?o"
      "rec_cols (r_key1 out') = rec_cols (r_key1 ?o) @ cs" "rec_cols (r_key2 out') = rec_cols (r_key2 ?o) @ cs"
      "\<forall>row. bounds_hold tdef row bounds \<longrightarrow> eq_key row (r_key1 ?o) \<longrightarrow> eq_key row (r_key2 ?o) \<longrightarrow>
        eq_key row (r_key1 out') \<and> eq_key row (r_key2 out')"
    using 2(1) [OF at] 2(2) by (metis list.set_intros(2))
  then show ?case
    using keys by (intro exI [of _ out']) (simp add: at)
qed simp

lemma push_range_ok:
  assumes b: "map_of bounds c = Some b" and cmp: "r_cmp1 out = CMP_GE" "r_cmp2 out = CMP_LE"
  shows "\<exists>out'. push_range bounds c out = Inr out'
    \<and> rec_cols (r_key1 out') \<in> {rec_cols (r_key1 out), rec_cols (r_key1 out) @ [c]}
    \<and> rec_cols (r_key2 out') \<in> {rec_cols (r_key2 out), rec_cols (r_key2 out) @ [c]}
    \<and> (\<forall>row. bounds_hold tdef row bounds \<longrightarrow> eq_key row (r_key1 out) \<longrightarrow> eq_key row (r_key2 out) \<longrightarrow> in_range out' row)"
proof -
  define o1 where "o1 = (if has_lo b then
      out\<lparr>r_key1 := push_col (r_key1 out) c (cb_lo b), r_cmp1 := (if lo_open b then CMP_GT else CMP_GE)\<rparr> else out)"
  define o2 where "o2 = (if has_hi b then
      o1\<lparr>r_key2 := push_col (r_key2 o1) c (cb_hi b), r_cmp2 := (if hi_open b then CMP_LT else CMP_LE)\<rparr> else o1)"
  have run: "push_range bounds c out = Inr o2"
    by (simp add: push_range_def bounds_at_def b o1_def o2_def Let_def)
  have "in_range o2 row" if h: "bounds_hold tdef row bounds" "eq_key row (r_key1 out)" "eq_key row (r_key2 out)" for row
  proof -
    obtain v where v: "Record_get row c = Some v" "bound_holds v b"
      using bounds_holdD [OF h(1) b] by blast
    have at: "row_at row (cols @ [c]) = row_at row cols @ [v]" for cols
      by (simp add: row_at_def v(1))
    note last = Values_lt_last [OF h(2) [unfolded eq_key_def]] Values_lt_last [OF h(3) [unfolded eq_key_def]]
    have "val_ok (r_cmp1 o1) (row_at row (rec_cols (r_key1 o1))) (rec_vals (r_key1 o1))"
      using v(2) eq_key_val_ok [OF h(2)] by (simp add: o1_def cmp at val_ok_def last bound_holds_def)
    moreover have "val_ok (r_cmp2 o2) (row_at row (rec_cols (r_key2 o2))) (rec_vals (r_key2 o2))"
      using v(2) eq_key_val_ok [OF h(3)] by (simp add: o2_def o1_def cmp at val_ok_def last bound_holds_def)
    ultimately show ?thesis
      by (simp add: in_range_def o2_def)
  qed
  then show ?thesis
    using run by (intro exI [of _ o2]) (auto simp: o2_def o1_def)
qed

lemma best_index_fit:
  "best_index bounds ixs (b0, fit_cols b0 bounds, p0) = (best, f, p) \<Longrightarrow>
    f = fit_cols best bounds \<and> (best = b0 \<or> best \<in> set ixs)"
  by (induction ixs arbitrary: b0 p0) (auto simp: Let_def split: if_splits)

section \<open>The filter is well-formed\<close>

text \<open>Every node has the kids its tag asks for, as in the trees the parser builds.\<close>

fun ql_wf :: "QLNode \<Rightarrow> bool" where
  "ql_wf (QLNode t v kids) \<longleftrightarrow> list_all ql_wf kids \<and> (t \<in> {QL_NEG, QL_NOT} \<longrightarrow> 1 \<le> length kids)
     \<and> (t \<notin> {QL_I64, QL_STR, QL_SYM, QL_NEG, QL_NOT, QL_TUP, QL_STAR, QL_UNINIT} \<longrightarrow> 2 \<le> length kids)"

lemma eval_Inr: "\<exists>r. ql_unary t v = Inr r" "\<exists>r. ql_binary t a b = Inr r"
proof -
  have a: "\<exists>r. arith t x y = Inr r" for t x y
    using arith_outcome [of t x y] by (auto simp: qret_def qerr_def)
  have b: "\<exists>r. qbind m (\<lambda>x. qret (f x)) = Inr r" if "\<exists>r. m = Inr r" for m :: "'a ql" and f :: "'a \<Rightarrow> Value"
    using that by (auto simp: qbind_def qret_def split: sum.splits)
  show "\<exists>r. ql_unary t v = Inr r"
    using b [OF a] by (auto simp: ql_unary_def qret_def qerr_def)
  have "\<exists>r. compare a b = Inr r"
    by (simp add: compare_def qret_def qerr_def)
  from b [OF this] b [OF a] show "\<exists>r. ql_binary t a b = Inr r"
    by (auto simp: ql_binary_def qret_def qerr_def Let_def)
qed

lemma qbind_Inr: "\<exists>r. m = Inr r \<Longrightarrow> (\<And>x. \<exists>r. f x = Inr r) \<Longrightarrow> \<exists>r. qbind m f = Inr r"
  by (auto simp: qbind_def split: sum.splits)

lemma eval_wf: "ql_wf node \<Longrightarrow> \<exists>r. ql_eval node env = Inr r"
proof (induction node)
  case (QLNode t v kids)
  consider "t \<in> {QL_I64, QL_STR, QL_SYM, QL_TUP, QL_STAR, QL_UNINIT}" | "t \<in> {QL_NEG, QL_NOT}"
    | "t \<notin> {QL_I64, QL_STR, QL_SYM, QL_NEG, QL_NOT, QL_TUP, QL_STAR, QL_UNINIT}"
    by blast
  then show ?case
  proof cases
    case 1
    then show ?thesis
      by (auto simp: ql_eval.simps qret_def qerr_def split: option.splits)
  next
    case 2
    then obtain k ks where k: "kids = k # ks" "ql_wf k"
      using QLNode.prems by (cases kids) auto
    then have "\<exists>r. qbind (ql_eval k env) (ql_unary t) = Inr r"
      using QLNode.IH [of k] by (intro qbind_Inr eval_Inr) simp_all
    then show ?thesis
      using 2 k by (auto simp: ql_eval.simps)
  next
    case 3
    then obtain k0 k1 ks where k: "kids = k0 # k1 # ks" "ql_wf k0" "ql_wf k1"
      using QLNode.prems by (cases kids; cases "tl kids") auto
    then have "\<exists>r. qbind (ql_eval k0 env) (\<lambda>a. qbind (ql_eval k1 env) (ql_binary t a)) = Inr r"
      using QLNode.IH [of k0] QLNode.IH [of k1] by (intro qbind_Inr eval_Inr) simp_all
    then show ?thesis
      using 3 k by (simp add: ql_eval.simps)
  qed
qed

lemma collect_wf: "ql_wf node \<Longrightarrow> known_cols tdef (tcols tdef) \<Longrightarrow> \<exists>out'. collect node tdef out = Inr out'"
proof (induction node arbitrary: out)
  case (QLNode t v kids)
  have cmp: "\<exists>out'. collect_cmp t k0 k1 tdef out = Inr out'" if wf: "ql_wf k0" "ql_wf k1" for k0 k1
  proof -
    define sym val op where "sym = (if q_type k0 \<noteq> QL_SYM then k1 else k0)" "val = (if q_type k0 \<noteq> QL_SYM then k0 else k1)"
      "op = (if q_type k0 \<noteq> QL_SYM then flip t else t)"
    note d = this
    have run: "collect_cmp t k0 k1 tdef out =
        (if q_type sym \<noteq> QL_SYM then Inr out else
         let at = col_index tdef (vstr (q_val sym)) in
         if at < 0 then Inr out else
         rbind (ql_eval val empty_Record) (\<lambda>r.
         case r of
           Inl err \<Rightarrow> Inr out
         | Inr v \<Rightarrow>
             if nat at \<ge> length (types tdef) then Inl Bad_access
             else if vtype v \<noteq> types tdef ! nat at then Inr out
             else Inr (add_bound op (vstr (q_val sym)) v out)))"
      unfolding collect_cmp_def d by (cases "q_type k0 = QL_SYM") simp_all
    obtain r where r: "ql_eval val empty_Record = Inr r"
      using eval_wf wf by (metis d(2))
    have "nat (col_index tdef c) < length (types tdef)" if "\<not> col_index tdef c < 0" for c
      using that col_index_from_iff [of "tcols tdef" c 0] known_col(2) [OF QLNode.prems(2), of c]
      by (simp add: col_index_def)
    then show ?thesis
      unfolding run using r by (auto simp: Let_def not_le [symmetric] split: sum.splits)
  qed
  show ?case
  proof (cases "t = QL_AND \<or> is_comparison t")
    case True
    then obtain k0 k1 ks where k: "kids = k0 # k1 # ks" "ql_wf k0" "ql_wf k1"
      using QLNode.prems(1) by (cases kids; cases "tl kids") (auto simp: is_comparison_def)
    obtain o1 o2 where "collect k0 tdef out = Inr o1" "collect k1 tdef o1 = Inr o2"
      using QLNode.IH QLNode.prems(2) k by (metis list.set_intros)
    then show ?thesis
      using True cmp [OF k(2,3)] k(1) by (auto simp: collect.simps)
  next
    case False
    then show ?thesis
      by (simp add: collect.simps)
  qed
qed

section \<open>Narrowing is sound\<close>

lemma full_in_range: "in_range full_range row"
  by (simp add: in_range_def full_range_def empty_Record_def row_at_def val_ok_def)

lemma eq_key_in_range:
  "r_cmp1 out = CMP_GE \<Longrightarrow> r_cmp2 out = CMP_LE \<Longrightarrow> eq_key row (r_key1 out) \<Longrightarrow> eq_key row (r_key2 out) \<Longrightarrow> in_range out row"
  using eq_key_val_ok by (simp add: in_range_def)

lemma fit_range_bound:
  assumes "fit_range (fit_cols best bounds)"
  shows "fit_eq (fit_cols best bounds) < length best"
    and "\<exists>b. map_of bounds (best ! fit_eq (fit_cols best bounds)) = Some b"
  using assms by (auto simp: fit_cols_def Let_def split: if_splits option.splits)

lemma range_of_fit:
  assumes f: "f = fit_cols best bounds"
  shows "\<exists>out. rbind (push_eqs bounds (take (fit_eq f) best) full_range)
      (\<lambda>out. if fit_range f then push_range bounds (best ! fit_eq f) out else Inr out) = Inr out
    \<and> is_prefix best (rec_cols (r_key1 out)) \<and> is_prefix best (rec_cols (r_key2 out))
    \<and> (\<forall>row. bounds_hold tdef row bounds \<longrightarrow> in_range out row)"
proof -
  let ?n = "fit_eq f"
  have n: "?n = eq_run best bounds"
    by (simp add: f fit_cols_def Let_def)
  have eqs: "\<exists>b. map_of bounds c = Some b \<and> has_eq b" if "c \<in> set (take ?n best)" for c
    using eq_run_bounds that unfolding n by blast
  have full: "eq_key row (r_key1 full_range) \<and> eq_key row (r_key2 full_range)" for row
    by (simp add: eq_key_def full_range_def empty_Record_def row_at_def)
  obtain o1 where o1: "push_eqs bounds (take ?n best) full_range = Inr o1" "r_cmp1 o1 = CMP_GE" "r_cmp2 o1 = CMP_LE"
      "rec_cols (r_key1 o1) = take ?n best" "rec_cols (r_key2 o1) = take ?n best"
      "\<And>row. bounds_hold tdef row bounds \<Longrightarrow> eq_key row (r_key1 o1) \<and> eq_key row (r_key2 o1)"
    using push_eqs_ok [of "take ?n best" bounds full_range tdef] eqs full
    by (auto simp: full_range_def empty_Record_def)
  have pre: "is_prefix best (take ?n best)"
    using eq_run_le [of best bounds] by (simp add: is_prefix_def n min_def)
  show ?thesis
  proof (cases "fit_range f")
    case False
    then show ?thesis
      using o1 pre eq_key_in_range by (intro exI [of _ o1]) simp
  next
    case True
    then obtain b where b: "?n < length best" "map_of bounds (best ! ?n) = Some b"
      using fit_range_bound f by blast
    have "is_prefix best (take ?n best @ [best ! ?n])"
      using b(1) by (simp add: is_prefix_def take_Suc_conv_app_nth)
    moreover obtain out where "push_range bounds (best ! ?n) o1 = Inr out"
        "rec_cols (r_key1 out) \<in> {take ?n best, take ?n best @ [best ! ?n]}"
        "rec_cols (r_key2 out) \<in> {take ?n best, take ?n best @ [best ! ?n]}"
        "\<forall>row. bounds_hold tdef row bounds \<longrightarrow> in_range out row"
      using push_range_ok [OF b(2) o1(2,3), of tdef] o1(4,5,6) by metis
    ultimately show ?thesis
      using True o1(1) pre by (intro exI [of _ out]) auto
  qed
qed

lemma ql_range_covers:
  assumes "ql_wf cond" and "known_cols tdef (tcols tdef)" and "0 \<le> pkeys tdef" and "nat (pkeys tdef) \<le> length (tcols tdef)"
  shows "\<exists>r. ql_range cond tdef = Inr r \<and> (\<forall>row. typed_row tdef row \<longrightarrow> keeps cond row \<longrightarrow> in_range r row)
    \<and> (\<exists>ix\<in>insert (take (nat (pkeys tdef)) (tcols tdef)) (set (indexes tdef)).
         is_prefix ix (rec_cols (r_key1 r)) \<and> is_prefix ix (rec_cols (r_key2 r)))"
proof -
  let ?pk = "take (nat (pkeys tdef)) (tcols tdef)"
  have full: "\<exists>r. ql_range cond tdef = Inr r \<and> (\<forall>row. typed_row tdef row \<longrightarrow> keeps cond row \<longrightarrow> in_range r row)
      \<and> (\<exists>ix\<in>insert ?pk (set (indexes tdef)). is_prefix ix (rec_cols (r_key1 r)) \<and> is_prefix ix (rec_cols (r_key2 r)))"
    if "ql_range cond tdef = Inr full_range"
  proof (intro exI [of _ full_range] conjI bexI [of _ ?pk])
    show "is_prefix ?pk (rec_cols (r_key1 full_range))" "is_prefix ?pk (rec_cols (r_key2 full_range))"
      by (simp_all add: is_prefix_def full_range_def empty_Record_def)
  qed (use that full_in_range in simp_all)
  obtain bounds where bounds: "collect cond tdef [] = Inr bounds"
    using collect_wf assms(1,2) by blast
  have hold: "bounds_hold tdef row bounds" if "typed_row tdef row" "keeps cond row" for row
    using collect_hold [OF that _ bounds] by (simp add: bounds_hold_def)
  obtain best f p where best: "best_index bounds (indexes tdef) (?pk, fit_cols ?pk bounds, True) = (best, f, p)"
    by (metis prod_cases3)
  have f: "f = fit_cols best bounds" and mem: "best \<in> insert ?pk (set (indexes tdef))"
    using best_index_fit [OF best] by auto
  obtain out where out: "rbind (push_eqs bounds (take (fit_eq f) best) full_range)
      (\<lambda>out. if fit_range f then push_range bounds (best ! fit_eq f) out else Inr out) = Inr out"
      "is_prefix best (rec_cols (r_key1 out))" "is_prefix best (rec_cols (r_key2 out))"
      "\<And>row. bounds_hold tdef row bounds \<Longrightarrow> in_range out row"
    using range_of_fit [OF f] by blast
  have run: "ql_range cond tdef =
      (if q_type cond = QL_UNINIT \<or> bounds = [] \<or> score f = 0 \<or> rec_cols (r_key1 out) = [] \<and> \<not> p
       then Inr full_range else Inr out)"
  proof -
    have pk: "\<not> (pkeys tdef < 0 \<or> nat (pkeys tdef) > length (tcols tdef))"
      using assms(3,4) by simp
    note chosen = rbind_assoc [of "push_eqs bounds (take (fit_eq f) best) full_range", symmetric]
    show ?thesis
      unfolding ql_range_def bounds rbind_simps if_not_P [OF pk] Let_def best prod.case chosen out(1) by (cases p) simp_all
  qed
  show ?thesis
  proof (cases "q_type cond = QL_UNINIT \<or> bounds = [] \<or> score f = 0 \<or> rec_cols (r_key1 out) = [] \<and> \<not> p")
    case True
    then show ?thesis
      using full run by simp
  next
    case False
    then show ?thesis
      using run out(2-4) hold mem by (intro exI [of _ out]) auto
  qed
qed

text \<open>
  C25: narrowing loses no row. For a well-formed filter over a schema with typed columns, \<open>ql_range\<close>
  returns a range; every row of the table that the filter keeps lies inside it, whichever index it
  chose; and both keys of the range name leading columns of one and the same index, or of the primary
  key.
\<close>

theorem ql_range_sound:
  assumes "ql_wf cond" and "known_cols tdef (tcols tdef)" and "0 \<le> pkeys tdef" and "nat (pkeys tdef) \<le> length (tcols tdef)"
  shows "\<exists>r. ql_range cond tdef = Inr r \<and> (\<forall>row. typed_row tdef row \<longrightarrow> keeps cond row \<longrightarrow> in_range r row)
    \<and> (\<exists>ix\<in>insert (take (nat (pkeys tdef)) (tcols tdef)) (set (indexes tdef)).
         is_prefix ix (rec_cols (r_key1 r)) \<and> is_prefix ix (rec_cols (r_key2 r)))"
  by (rule ql_range_covers [OF assms])

text \<open>For the witness: \<open>author = 'x' AND id < 5\<close> over \<open>books\<close>, and a row it keeps.\<close>

definition books_cond :: QLNode where
  "books_cond = ql_binop QL_AND (ql_binop QL_CMP_EQ (ql_sym (str ''author'')) (ql_str [120]))
     (ql_binop QL_CMP_LT (ql_sym (str ''id'')) (ql_int64 5))"

definition books_row :: Record where
  "books_row = add_str (add_str (add_int64 empty_Record (str ''id'') 3) (str ''author'') [120]) (str ''title'') [121]"

lemma books_fields:
  "tcols books = [str ''id'', str ''author'', str ''title'']" "types books = [INT_64, BYTES, BYTES]" "pkeys books = 1"
  "indexes books = [[str ''author'']]"
  by (simp_all add: books_def builder_defs)

lemma books_typed: "typed_row books books_row"
proof -
  have get: "Record_get books_row (str ''id'') = Some (make_int64 3)" "Record_get books_row (str ''author'') = Some (make_bytes [120])"
      "Record_get books_row (str ''title'') = Some (make_bytes [121])"
    by (simp_all add: books_row_def Record_get_def add_str_def add_int64_def empty_Record_def str_def)
  have col: "col_type books (str ''id'') = INT_64" "col_type books (str ''author'') = BYTES" "col_type books (str ''title'') = BYTES"
    by (simp_all add: col_type_def col_index_def books_fields str_def)
  have "c = str ''id'' \<or> c = str ''author'' \<or> c = str ''title''" if "col_types books c = Some T" for c T
    using that by (simp add: col_types_def books_fields split: if_splits)
  then have "row_typed (col_types books) books_row"
    using get col unfolding row_typed_def by (force simp: col_types_def books_fields)
  then show ?thesis
    by (simp add: typed_row_def known_cols_def books_fields)
qed

lemma books_kept: "keeps books_cond books_row"
  by (simp add: keeps_def books_cond_def ql_defs ql_eval.simps ql_binary_def compare_def cmp_holds_def make_bool_def
      books_row_def add_str_def add_int64_def empty_Record_def Record_get_def str_def qret_def [symmetric] Let_def)

lemma ql_range_sound_witness:
  "\<exists>r. ql_range books_cond books = Inr r \<and> in_range r books_row \<and> keeps books_cond books_row"
proof -
  have "ql_wf books_cond" "known_cols books (tcols books)"
    by (simp_all add: books_cond_def ql_defs) (simp add: known_cols_def books_fields)
  then obtain r where "ql_range books_cond books = Inr r"
      "\<forall>row. typed_row books row \<longrightarrow> keeps books_cond row \<longrightarrow> in_range r row"
    using ql_range_sound [of books_cond books] by (auto simp: books_fields)
  then show ?thesis
    using books_typed books_kept by blast
qed

end
