(* ===== verification/QL_Parse_Spec.thy ===== *)
theory QL_Parse_Spec
  imports QL_Parse QL_Range_Spec
begin

text \<open>
  What every parsed statement is: the operands are where evaluation and the optimiser look for them, and a
  table definition is one that the catalog accepts and can store.
\<close>

section \<open>Expressions\<close>

lemma expr_wf [simp]: "ql_wf (expr_action e)"
  by (induction e) (auto simp: ql_defs list_all_iff)

lemma row_wf: "ql_wf e \<Longrightarrow> list_all ql_wf (row_from_expr e)"
  by (cases e) (simp add: row_from_expr_def)

section \<open>Table definitions\<close>

text \<open>The state of the loop over the key columns.\<close>

definition building :: "(bytes \<times> ValueType) list \<Rightarrow> bool list \<Rightarrow> TableDef \<Rightarrow> bool" where
  "building cols taken b \<longleftrightarrow> length taken = length cols \<and> (\<forall>i<length cols. taken ! i \<longleftrightarrow> fst (cols ! i) \<in> set (tcols b))
     \<and> distinct (tcols b) \<and> length (types b) = length (tcols b) \<and> set (zip (tcols b) (types b)) \<subseteq> set cols"

lemma takeWhile_first:
  assumes "length (takeWhile (\<lambda>c. fst c \<noteq> key) cols) \<noteq> length cols"
  shows "length (takeWhile (\<lambda>c. fst c \<noteq> key) cols) < length cols"
    and "fst (cols ! length (takeWhile (\<lambda>c. fst c \<noteq> key) cols)) = key"
proof -
  show less: "length (takeWhile (\<lambda>c. fst c \<noteq> key) cols) < length cols"
    using assms length_takeWhile_le [of "\<lambda>c. fst c \<noteq> key" cols] by simp
  then show "fst (cols ! length (takeWhile (\<lambda>c. fst c \<noteq> key) cols)) = key"
    using nth_length_takeWhile by fastforce
qed

lemma building_step:
  assumes b: "building cols taken b" and dist: "distinct (map fst cols)" and at: "at < length cols" "\<not> taken ! at"
  shows "building cols (taken[at := True]) (add_col b (fst (cols ! at)) (snd (cols ! at)))"
proof -
  obtain key v where kv: "cols ! at = (key, v)"
    by fastforce
  have len: "length taken = length cols" "length (types b) = length (tcols b)"
    and iff: "\<And>i. i < length cols \<Longrightarrow> taken ! i \<longleftrightarrow> fst (cols ! i) \<in> set (tcols b)"
    using b by (simp_all add: building_def)
  have new: "key \<notin> set (tcols b)"
    using iff [OF at(1)] at(2) kv by simp
  have other: "fst (cols ! i) = key \<longleftrightarrow> i = at" if "i < length cols" for i
    using nth_eq_iff_index_eq [OF dist, of i at] that at(1) kv by simp
  have "taken[at := True] ! i \<longleftrightarrow> fst (cols ! i) \<in> set (tcols b @ [key])" if "i < length cols" for i
    using iff [OF that] other [OF that] len(1) that by (auto simp: nth_list_update)
  moreover have "(key, v) \<in> set cols"
    using nth_mem [OF at(1)] kv by simp
  moreover have "set (zip (tcols b @ [key]) (types b @ [v])) = insert (key, v) (set (zip (tcols b) (types b)))"
    using len(2) by simp
  ultimately show ?thesis
    using b new by (simp add: building_def add_col_def kv del: set_append)
qed

lemma add_key_cols_ok:
  assumes "distinct (map fst cols)"
  shows "add_key_cols cols keys taken b = Inr (taken', b') \<Longrightarrow> building cols taken b \<Longrightarrow>
    building cols taken' b' \<and> tcols b' = tcols b @ keys \<and> b' = b\<lparr>tcols := tcols b', types := types b'\<rparr>"
proof (induction keys arbitrary: taken b)
  case (Cons key keys)
  define at where "at = length (takeWhile (\<lambda>c. fst c \<noteq> key) cols)"
  let ?b = "add_col b (fst (cols ! at)) (snd (cols ! at))"
  have step: "at \<noteq> length cols" "\<not> taken ! at" "add_key_cols cols keys (taken[at := True]) ?b = Inr (taken', b')"
    using Cons.prems(1) by (simp_all add: at_def Let_def split: if_split_asm)
  have first: "at < length cols" "fst (cols ! at) = key"
    using takeWhile_first [OF step(1) [unfolded at_def]] by (simp_all add: at_def)
  have "building cols (taken[at := True]) ?b"
    by (rule building_step [OF Cons.prems(2) assms first(1) step(2)])
  note ih = Cons.IH [OF step(3) this]
  have "tcols ?b = tcols b @ [key]"
    using first(2) by (simp add: add_col_def)
  moreover have "?b\<lparr>tcols := x, types := y\<rparr> = b\<lparr>tcols := x, types := y\<rparr>" for x y
    by (simp add: add_col_def)
  ultimately show ?case
    using ih by (metis append.assoc append_Cons append_Nil)
qed simp

lemma add_other_cols_ok:
  "length taken = length cols \<Longrightarrow> add_other_cols cols taken b =
     b\<lparr>tcols := tcols b @ map (fst \<circ> fst) (filter (\<lambda>x. \<not> snd x) (zip cols taken)),
       types := types b @ map (snd \<circ> fst) (filter (\<lambda>x. \<not> snd x) (zip cols taken))\<rparr>"
proof (induction cols arbitrary: taken b)
  case (Cons c cols)
  then show ?case
    by (cases taken) (auto simp: add_col_def)
qed simp

lemma duplicate_col_None: "duplicate_col cols = None \<longleftrightarrow> distinct (map fst cols)"
  by (induction cols) (auto simp: image_iff)

text \<open>A table definition as CREATE TABLE makes it.\<close>

definition parsed_table :: "TableDef \<Rightarrow> bool" where
  "parsed_table t \<longleftrightarrow> table_def_check t = Inr t \<and> distinct (tcols t) \<and> ERROR \<notin> set (types t) \<and> plain_name (tname t)
     \<and> (\<forall>c\<in>set (tcols t). plain_name c) \<and> indexes t = [] \<and> prefix t = 0 \<and> index_prefixes t = []"

lemma build_table_def_ok:
  assumes run: "build_table_def name cols pk = Inr t" and pk: "pk \<noteq> []" and name: "plain_name name"
    and plain: "\<forall>c\<in>set cols. plain_name (fst c) \<and> snd c \<noteq> ERROR"
  shows "parsed_table t \<and> take (length pk) (tcols t) = pk \<and> pkeys t = int (length pk) \<and> set (tcols t) = fst ` set cols"
proof -
  obtain taken b where b: "duplicate_col cols = None" "add_key_cols cols pk (replicate (length cols) False) (TableDefBuilder name) = Inr (taken, b)"
      "t = set_pkeys (add_other_cols cols taken b) (int (length pk))"
    using run by (auto simp: build_table_def_def rbind_eq_Inr split: option.splits)
  have dist: "distinct (map fst cols)"
    using b(1) by (simp add: duplicate_col_None)
  have start: "building cols (replicate (length cols) False) (TableDefBuilder name)" "tcols (TableDefBuilder name) = []"
    by (simp_all add: building_def builder_defs)
  note added = add_key_cols_ok [OF dist b(2) start(1)]
  have B: "building cols taken b" "tcols b = pk" "b = (TableDefBuilder name)\<lparr>tcols := pk, types := types b\<rparr>"
    using added start(2) by simp_all metis
  define rest where "rest = filter (\<lambda>x. \<not> snd x) (zip cols taken)"
  have len: "length taken = length cols"
    using B(1) by (simp add: building_def)
  have t: "tcols t = pk @ map (fst \<circ> fst) rest" "types t = types b @ map (snd \<circ> fst) rest" "tname t = name" "pkeys t = int (length pk)"
      "indexes t = []" "prefix t = 0" "index_prefixes t = []"
    unfolding b(3) add_other_cols_ok [OF len] rest_def by (subst B(3), simp add: builder_defs B(2))+
  have taken: "taken ! i \<longleftrightarrow> fst (cols ! i) \<in> set pk" if "i < length cols" for i
    using B(1,2) that by (simp add: building_def)
  have "(x, False) \<in> set (zip cols taken) \<longleftrightarrow> x \<in> set cols \<and> fst x \<notin> set pk" for x
    using taken len by (fastforce simp: set_zip in_set_conv_nth)
  then have in_rest: "z \<in> set rest \<longleftrightarrow> fst z \<in> set cols \<and> fst (fst z) \<notin> set pk \<and> \<not> snd z" for z
    by (cases z) (auto simp: rest_def)
  have pairs: "set (zip pk (types b)) \<subseteq> set cols" "length (types b) = length pk" "distinct pk"
    using B(1,2) by (simp_all add: building_def)
  have "distinct (map (fst \<circ> fst) rest)"
  proof -
    have "distinct (map (fst \<circ> fst) (zip cols taken))"
      using dist len by (simp flip: map_map)
    then show ?thesis
      unfolding rest_def by (rule distinct_map_filter)
  qed
  moreover have in_map: "x \<in> set (map (fst \<circ> fst) rest) \<longleftrightarrow> x \<in> fst ` set cols \<and> x \<notin> set pk" for x
  proof
    assume "x \<in> fst ` set cols \<and> x \<notin> set pk"
    then obtain c where "c \<in> set cols" "x = fst c" "fst c \<notin> set pk"
      by blast
    then have "(c, False) \<in> set rest"
      by (simp add: in_rest)
    then show "x \<in> set (map (fst \<circ> fst) rest)"
      using \<open>x = fst c\<close> by force
  qed (use in_rest in auto)
  ultimately have "distinct (tcols t)"
    unfolding t(1) using pairs(3) by (simp add: disjoint_iff del: set_map)
  moreover have types_pk: "c \<in> set pk \<Longrightarrow> c \<in> fst ` set cols" "v \<in> set (types b) \<Longrightarrow> v \<in> snd ` set cols" for c v
  proof -
    have "set pk = fst ` set (zip pk (types b))" "set (types b) = snd ` set (zip pk (types b))"
      using pairs(2) by (simp_all flip: list.set_map)
    then show "c \<in> set pk \<Longrightarrow> c \<in> fst ` set cols" "v \<in> set (types b) \<Longrightarrow> v \<in> snd ` set cols"
      using pairs(1) by blast+
  qed
  moreover have cols_eq: "set (tcols t) = fst ` set cols"
    unfolding t(1) set_append set_eq_iff using types_pk(1) in_map by blast
  moreover have "ERROR \<notin> set (types t)"
  proof -
    have "v \<in> snd ` set cols" if v: "v \<in> set (map (snd \<circ> fst) rest)" for v
    proof -
      obtain z where "z \<in> set rest" "v = snd (fst z)"
        using v unfolding list.set_map comp_def by blast
      then have "fst z \<in> set cols"
        by (simp add: in_rest)
      then show ?thesis
        using \<open>v = snd (fst z)\<close> by simp
    qed
    then have "set (types t) \<subseteq> snd ` set cols"
      unfolding t(2) set_append using types_pk(2) by blast
    then show ?thesis
      using plain by force
  qed
  moreover have "table_def_check t = Inr t"
  proof -
    have "name \<noteq> []" "0 < length pk"
      using name pk by (auto simp: plain_name_def)
    moreover have "t\<lparr>indexes := []\<rparr> = t"
      using t(5) by simp
    ultimately show ?thesis
      using t pairs(2) by (simp add: table_def_check_def)
  qed
  ultimately show ?thesis
    using t plain name by (auto simp: parsed_table_def)
qed

section \<open>Statements\<close>

text \<open>A scan before the optimiser has given it keys.\<close>

definition scan_wf :: "QLScan \<Rightarrow> bool" where
  "scan_wf sc \<longleftrightarrow> plain_name (sc_table sc) \<and> sc_key1 sc = empty_QLNode \<and> sc_key2 sc = empty_QLNode \<and> ql_wf (sc_filter sc)
     \<and> 0 \<le> sc_offset sc \<and> -1 \<le> sc_limit sc"

fun statement_wf :: "QLStatement \<Rightarrow> bool" where
  "statement_wf (Create_Table c) \<longleftrightarrow> parsed_table (qc_def c)"
| "statement_wf (Select q) \<longleftrightarrow> scan_wf (sel_scan q) \<and> sel_output q \<noteq> [] \<and> length (sel_names q) = length (sel_output q)
     \<and> list_all ql_wf (sel_output q)"
| "statement_wf (Insert q) \<longleftrightarrow> plain_name (qi_table q) \<and> qi_mode q = INSERT_ONLY \<and> qi_names q \<noteq> [] \<and> list_all plain_name (qi_names q)
     \<and> qi_values q \<noteq> [] \<and> list_all (\<lambda>row. row \<noteq> [] \<and> list_all ql_wf row) (qi_values q)"
| "statement_wf (Update q) \<longleftrightarrow> scan_wf (qu_scan q) \<and> qu_names q \<noteq> [] \<and> list_all plain_name (qu_names q)
     \<and> length (qu_names q) = length (qu_values q) \<and> list_all ql_wf (qu_values q)"
| "statement_wf (Delete q) \<longleftrightarrow> scan_wf (qd_scan q)"

lemma set_commas: "ts \<in> set tss \<Longrightarrow> set ts \<subseteq> set (commas tss)"
  by (cases tss) (auto simp: commas_def)

lemma num_bound:
  assumes "token_ok (NUM v)"
  shows "0 \<le> sint v"
proof -
  have "uint v < 2 ^ 63"
    using assms by (simp add: token_ok_def flip: of_nat_less_iff [where 'a = int])
  moreover have "sint v = (uint v + 2 ^ 63) mod 2 ^ 64 - 2 ^ 63"
    by (simp add: sint_uint signed_take_bit_eq_take_bit_shift take_bit_eq_mod)
  moreover have "0 \<le> uint v"
    by simp
  ultimately show ?thesis
    by simp
qed

lemma scan_action_wf:
  assumes "plain_name table" and "\<forall>t\<in>set (limit_tokens l). token_ok t"
  shows "scan_wf (scan_action table f l)"
proof -
  have "ql_wf (filter_action f)"
    by (cases f) (simp_all add: empty_QLNode_def)
  moreover have "0 \<le> fst (limit_action l)" "-1 \<le> snd (limit_action l)"
    using assms(2) num_bound by (cases l; force)+
  ultimately show ?thesis
    using assms(1) by (simp add: scan_wf_def scan_action_def)
qed

lemma add_select_items:
  "\<forall>i\<in>set items. ql_wf (snd i) \<Longrightarrow> length (sel_names q) = length (sel_output q) \<Longrightarrow> list_all ql_wf (sel_output q) \<Longrightarrow>
   let q' = foldl add_select_item q items in
   sel_scan q' = sel_scan q \<and> length (sel_names q') = length (sel_output q') \<and> length (sel_output q') = length (sel_output q) + length items
     \<and> list_all ql_wf (sel_output q')"
  by (induction items arbitrary: q) (auto simp: add_select_item_def Let_def)

lemma value_type_not_error [simp]: "value_type_from_name name \<noteq> Some ERROR"
  by (simp add: value_type_from_name_def Let_def)

lemma col_defs_ok:
  "col_defs_action cols = Inr defs \<Longrightarrow> map fst defs = map fst cols \<and> list_all (\<lambda>d. snd d \<noteq> ERROR) defs"
  by (induction cols arbitrary: defs) (auto simp: rbind_eq_Inr split: option.splits)

lemma row_nonempty: "row_from_expr (expr_action e) \<noteq> []"
  by (induction e) (auto simp: row_from_expr_def ql_defs)

lemma ident_plain: "\<forall>t\<in>set ts. token_ok t \<Longrightarrow> IDENT c \<in> set ts \<Longrightarrow> plain_name c"
  by (auto simp: token_ok_def)

lemma ident_commas: "[IDENT c] \<in> set tss \<Longrightarrow> \<forall>t\<in>set (commas tss). token_ok t \<Longrightarrow> plain_name c"
  using set_commas [of "[IDENT c]" tss] by (auto simp: token_ok_def)

lemma create_wf:
  assumes act: "stmt_action (Create_stmt name cols pk) = Inr out" and ok: "pk \<noteq> []"
    and toks: "\<forall>t\<in>set (stmt_tokens (Create_stmt name cols pk)). token_ok t"
  shows "statement_wf out"
proof -
  obtain defs t where run: "col_defs_action cols = Inr defs" "build_table_def name defs pk = Inr t"
      "out = Create_Table \<lparr>qc_def = t\<rparr>"
    using act by (auto simp: rbind_eq_Inr)
  have name: "plain_name name"
    using toks by (simp add: token_ok_def)
  have col: "plain_name c" if "(c, ty) \<in> set cols" for c ty
  proof -
    have "[IDENT c, IDENT ty] \<in> set (map (\<lambda>(c, t). [IDENT c, IDENT t]) cols)"
      using that by force
    from set_commas [OF this] show ?thesis
      by (intro ident_plain [OF toks]) simp
  qed
  have defs: "map fst defs = map fst cols" "list_all (\<lambda>d. snd d \<noteq> ERROR) defs"
    using col_defs_ok [OF run(1)] by simp_all
  have "plain_name (fst d)" if "d \<in> set defs" for d
  proof -
    have "fst d \<in> fst ` set cols"
      using that defs(1) by (metis image_eqI list.set_map)
    then show ?thesis
      using col by fastforce
  qed
  then have "\<forall>d\<in>set defs. plain_name (fst d) \<and> snd d \<noteq> ERROR"
    using defs(2) by (simp add: list_all_iff)
  from build_table_def_ok [OF run(2) ok name this] show ?thesis
    by (simp add: run(3))
qed

lemma action_wf:
  assumes act: "stmt_action tree = Inr out" and ok: "stmt_ok tree" and toks: "\<forall>t\<in>set (stmt_tokens tree). token_ok t"
  shows "statement_wf out"
proof (cases tree)
  case (Create_stmt name cols pk)
  then show ?thesis
    using create_wf [of name cols pk out] assms by simp
next
  case (Select_stmt items table f l)
  have "plain_name table" "\<forall>t\<in>set (limit_tokens l). token_ok t"
    using toks by (auto simp: Select_stmt token_ok_def)
  note scan = scan_action_wf [OF this, of f]
  have "ql_wf (snd (select_item_action i))" for i
    by (cases i) (simp_all add: ql_star_def)
  then show ?thesis
    using add_select_items [of "map select_item_action items" "\<lparr>sel_scan = scan_action table f l, sel_names = [], sel_output = []\<rparr>"]
      act ok scan by (auto simp: Select_stmt Let_def)
next
  case (Insert_stmt table cols rows)
  have "plain_name c" if "c \<in> set cols" for c
    using that toks by (intro ident_commas [of c "map (\<lambda>c. [IDENT c]) cols"]) (auto simp: Insert_stmt)
  then show ?thesis
    using assms by (auto simp: Insert_stmt token_ok_def list_all_iff row_nonempty dest: row_wf [OF expr_wf, unfolded list_all_iff, rule_format])
next
  case (Update_stmt table sets f l)
  have "plain_name table" "\<forall>t\<in>set (limit_tokens l). token_ok t"
    using toks by (auto simp: Update_stmt token_ok_def)
  note scan = scan_action_wf [OF this, of f]
  have "plain_name c" if "(c, e) \<in> set sets" for c e
  proof -
    have "IDENT c # EQ # expr_tokens e \<in> set (map (\<lambda>(c, e). IDENT c # EQ # expr_tokens e) sets)"
      using that by force
    from set_commas [OF this] show ?thesis
      by (intro ident_plain [OF toks]) (simp add: Update_stmt)
  qed
  then show ?thesis
    using act ok scan by (auto simp: Update_stmt list_all_iff)
next
  case (Delete_stmt table f l)
  have "plain_name table" "\<forall>t\<in>set (limit_tokens l). token_ok t"
    using toks by (auto simp: Delete_stmt token_ok_def)
  then show ?thesis
    using scan_action_wf [of table l f] act by (auto simp: Delete_stmt)
qed

section \<open>The property\<close>

text \<open>
  C26: a statement that parses is well formed: every operand is where evaluation looks for it, the scan has no
  keys yet, a limit is not negative, and a table definition is one that the catalog accepts.
\<close>

theorem parsed_statement_wf:
  assumes "bison run" and "parse_statement start run sql = qret stmt"
  shows "statement_wf stmt"
proof -
  obtain ctx where "run sql \<lparr>pc_out = Create_Table \<lparr>qc_def = TableDefBuilder []\<rparr>, pc_err = []\<rparr> = (0, ctx)" "stmt = pc_out ctx"
    using assms(2) by (auto simp: parse_statement_def qerr_def qret_def split: if_splits prod.splits)
  then obtain tree where tree: "stmt_ok tree" "tokens sql = stmt_tokens tree \<or> tokens sql = stmt_tokens tree @ [SEMI]"
      "stmt_action tree = Inr stmt"
    using assms(1) unfolding bison_def by metis
  have "set (stmt_tokens tree) \<subseteq> set (tokens sql)"
    using tree(2) by auto
  then show ?thesis
    using action_wf [OF tree(3,1)] tokens_ok by blast
qed

text \<open>A scanner and parser for one text.\<close>

definition create_text :: bytes where
  "create_text = str ''create table t (x text, id int, primary key (id))''"

definition create_tree :: stmt where
  "create_tree = Create_stmt (str ''t'') [(str ''x'', str ''text''), (str ''id'', str ''int'')] [str ''id'']"

definition one_text :: "bytes \<Rightarrow> ParseContext \<Rightarrow> int \<times> ParseContext" where
  "one_text sql ctx = (if sql = create_text then
       (case stmt_action create_tree of Inr out \<Rightarrow> (0, ctx\<lparr>pc_out := out\<rparr>) | Inl msg \<Rightarrow> (1, ctx\<lparr>pc_err := msg\<rparr>))
     else (1, ctx))"

lemmas lex_eval = lex.simps lex_one_def Let_def is_blank_def newline_def is_digit_def is_alpha_def is_word_char_def
  lower_def lex_word_def lex_number_def lex_string_def advance_def keyword_list_def operators_def str_def

lemma one_text_tokens: "tokens create_text = stmt_tokens create_tree" "snd (lex (1, 1) create_text) = None"
  by (simp_all add: tokens_def create_text_def create_tree_def commas_def lex_eval)

lemma bison_one_text: "bison one_text"
  unfolding bison_def
proof (intro allI impI)
  fix sql ctx ctx'
  assume "one_text sql ctx = (0, ctx')"
  then have "sql = create_text \<and> stmt_action create_tree = Inr (pc_out ctx')"
    by (cases "stmt_action create_tree") (auto simp: one_text_def split: if_split_asm)
  moreover have "stmt_ok create_tree"
    by (simp add: create_tree_def)
  ultimately show "snd (lex (1, 1) sql) = None \<and> (\<exists>tree out. stmt_ok tree \<and> (tokens sql = stmt_tokens tree
      \<or> tokens sql = stmt_tokens tree @ [SEMI]) \<and> stmt_action tree = Inr out \<and> pc_out ctx' = out)"
    using one_text_tokens by blast
qed

theorem parsed_statement_wf_witness:
  "\<exists>t. parse_statement True one_text create_text = qret (Create_Table \<lparr>qc_def = t\<rparr>) \<and> parsed_table t
     \<and> tcols t = [str ''id'', str ''x''] \<and> types t = [INT_64, BYTES] \<and> pkeys t = 1"
proof -
  define t where "t = TableDefBuilder (str ''t'')\<lparr>tcols := [str ''id'', str ''x''], types := [INT_64, BYTES], pkeys := 1\<rparr>"
  have run: "parse_statement True one_text create_text = qret (Create_Table \<lparr>qc_def = t\<rparr>)"
    by (simp add: t_def parse_statement_def one_text_def create_tree_def value_type_from_name_def upper_def str_def Let_def rbind_eq_Inr
        build_table_def_def builder_defs)
  show ?thesis
    using parsed_statement_wf [OF bison_one_text run] run by (auto simp: t_def)
qed

end
