(* ===== verification/Delete_Overflow.thy ===== *)
theory Delete_Overflow
  imports KVTX_Spec
begin

text \<open>
  The limit of deletion. \<open>node_delete\<close> rebuilds an internal node in a single page although the
  separator it writes can be longer than the one it replaces, by up to the maximal key size. On a
  full node the rebuild does not fit: the overflow assertion of \<open>node_append_kv\<close> fails (without
  assertions the write goes past the page). A concrete well-formed database shows it.
\<close>

lemma append_overflow:
  assumes building: "node_building d t n es" and room: "length es < n" and ok: "ent_ok (p, k, v)"
    and over: "length d < 4 + 10 * n + kvs_size (es @ [(p, k, v)])"
  shows "node_append_kv d (length es) p k v = Inl (Assertion_failed ''node overflow'')"
  using building
proof (rule node_buildingE)
  fix g1 g2 g3
  assume d: "d = layout t n es g1 g2 g3" and le: "length es \<le> n"
    and g1: "length g1 = 8 * (n - length es)" and g2: "length g2 = 2 * (n - length es)"
    and n: "t < 2 ^ 16" "n < 2 ^ 16" and kvs: "kvs_size es < 2 ^ 16"
    and size: "4 + 10 * n + kvs_size es + length g3 = length d"
  have "8 \<le> length g1"
    using g1 room by simp
  then obtain x h1 where x: "g1 = x @ h1" "length x = 8"
    using split_length by blast
  let ?d = "layout t n es (le_bytes 8 (unat p) @ h1) g2 g3"
  have set: "set_ptr d (length es) p = Inr ?d"
    unfolding d x by (rule write_ptr_layout) (rule x(2))
  have pos: "kv_pos ?d (length es) = Inr (4 + 10 * n + kvs_size es)"
    using n le g1 x kvs by (simp add: kv_pos_def offsets_layout get_offset_layout)
  have len: "length ?d = length d"
    using x by (simp add: d length_layout)
  have sizes: "length k \<le> BTREE_MAX_KEY_SIZE" "length v \<le> BTREE_MAX_VAL_SIZE"
    "u16 (length k) = length k" "u16 (length v) = length v"
    using ok by (simp_all add: ent_ok_def u16_def BTREE_MAX_KEY_SIZE_def BTREE_MAX_VAL_SIZE_def)
  have "\<not> 4 + 10 * n + kvs_size es + 4 + length k + length v \<le> length d"
    using over by (simp add: kv_size_def)
  with sizes show ?thesis
    by (simp only: node_append_kv_def set pos rbind_simps Let_def check_simps len if_False)
qed

context page_store
begin

lemma relink_last_overflow:
  assumes node: "node_is old BNODE_NODE (map kid_ent (L @ [(p, q, u)]))"
    and d': "node_of d' u'" "fits u'" "ents u' \<noteq> []" and inv: "inv s" and bud: "0 < budget s"
    and fit: "4 + 10 * (length L + 1) + kvs_size (map kid_ent L) \<le> BTREE_PAGE_SIZE"
    and over: "BTREE_PAGE_SIZE < node_size (map kid_ent L @ key_ents [u'])"
  shows "node_replace_child_n pm s (BNode BTREE_PAGE_SIZE) old (length L) [d'] = Inl (Assertion_failed ''node overflow'')"
proof -
  let ?n = "length L + 1"
  have page: "length (BNode BTREE_PAGE_SIZE) = BTREE_PAGE_SIZE" "BTREE_PAGE_SIZE < 2 ^ 16"
    by (simp_all add: BNode_def BTREE_PAGE_SIZE_def)
  have small: "length L + 1 < 2 ^ 16"
    using fit by (simp add: BTREE_PAGE_SIZE_def)
  obtain d1 where d1: "set_header (BNode BTREE_PAGE_SIZE) BNODE_NODE ?n = Inr d1" "node_building d1 BNODE_NODE ?n []"
      "length d1 = BTREE_PAGE_SIZE"
    using building_init [of ?n "BNode BTREE_PAGE_SIZE" BNODE_NODE] fit page by (auto simp: BNODE_NODE_def)
  obtain d2 where d2: "node_append_range d1 old 0 0 (length L) = Inr d2"
      "node_building d2 BNODE_NODE ?n (map kid_ent L)" "length d2 = BTREE_PAGE_SIZE"
    using append_range_ok [OF node d1(2), of 0 "length L" 0] fit d1(3) by auto
  obtain r s' where new: "pm_new_page pm s d' = Inr (r, s')"
    using new_page_step [OF inv bud d'] by blast
  have "length d2 < 4 + 10 * ?n + kvs_size (map kid_ent L @ [(r, first_key u', [])])"
    using over by (simp add: d2(3) node_size_def key_ents_def kv_size_def)
  then have "node_append_kv d2 (length L) r (first_key u') [] = Inl (Assertion_failed ''node overflow'')"
    using append_overflow [OF d2(2) _ kid_ready(3) [OF d']] by simp
  moreover have "u16 (length L) = length L" "u16 (Suc 0) = 1" "u16_sub (?n + 1) 1 = ?n"
    using small by (simp_all add: u16_def u16_sub_le u16_sub_def)
  ultimately show ?thesis
    using d1(1) d2(1) new kid_ready(2) [OF d'] node_is_nkeys [OF node]
    by (simp add: node_replace_child_n_def Let_def)
qed

end

section \<open>A well-formed tree that cannot delete a key\<close>

definition big_key :: "byte \<Rightarrow> bytes" where
  "big_key c = c # replicate 999 0"

definition last_leaf :: tree where
  "last_leaf = Leaf [([122], []), (big_key 122, replicate 100 0)]"

definition full_kids :: "(u64 \<times> bytes \<times> tree) list" where
  "full_kids = [(2, [], Leaf [([], [])]), (3, big_key 98, Leaf [(big_key 98, [])]),
     (4, big_key 99, Leaf [(big_key 99, [])]), (5, big_key 100, Leaf [(big_key 100, [])]),
     (6, big_key 101, Leaf [(big_key 101, [])])]"

definition full_tree :: tree where
  "full_tree = Node (full_kids @ [(7, [122], last_leaf)])"

lemma length_big_key [simp]: "length (big_key c) = 1000" "big_key c \<noteq> []"
  by (simp_all add: big_key_def)

lemma Nil_less_bytes: "[] < (xs :: bytes) \<longleftrightarrow> xs \<noteq> []"
  by (cases xs) simp_all

lemma big_key_less [simp]:
  "big_key a < big_key b \<longleftrightarrow> a < b" "[] < big_key b" "big_key a < [b] \<longleftrightarrow> a < b"
  "[a] < big_key b \<longleftrightarrow> a \<le> b"
  by (auto simp: big_key_def Nil_less_bytes)

lemma big_key_le [simp]: "big_key a \<le> [b] \<longleftrightarrow> a < b"
  using big_key_less(4) [of b a] by (simp add: not_less [symmetric] del: big_key_less(4))

lemma full_tree_ok: "shape 1 full_tree" "fits full_tree" "sorted1 (kvs full_tree)" "first_key full_tree = []"
  by (simp_all add: full_tree_def full_kids_def last_leaf_def first_key_def fits_def node_size_def kv_ent_def
      kid_ent_def kv_size_def BTREE_PAGE_SIZE_def)

lemma full_tree_ents: "list_all ent_ok (ents full_tree)" "\<forall>x\<in>set (full_kids @ [(7, [122], last_leaf)]). list_all ent_ok (ents (kid x)) \<and> fits (kid x)"
  by (simp_all add: full_tree_def full_kids_def last_leaf_def kv_ent_def kid_ent_def ent_ok_def fits_def node_size_def
      kv_size_def BTREE_MAX_KEY_SIZE_def BTREE_MAX_VAL_SIZE_def BTREE_PAGE_SIZE_def)

definition full_tx :: "(u64 \<times> bytes) list \<Rightarrow> KVTX" where
  "full_tx pgs = fresh_tx\<lparr>tree_root := 8, kv_flushed := 9, page_updates := (1, BNode BTREE_PAGE_SIZE) # pgs\<rparr>"

lemma full_tx_exists:
  "\<exists>pgs d8. map fst pgs = [2, 3, 4, 5, 6, 7, 8] \<and> (\<forall>(p, d)\<in>set pgs. length d = BTREE_PAGE_SIZE)
    \<and> (\<forall>x\<in>set (full_kids @ [(7, [122], last_leaf)]). \<exists>d. map_of pgs (kid_ptr x) = Some d \<and> node_of d (kid x))
    \<and> map_of pgs 8 = Some d8 \<and> node_of d8 full_tree"
proof -
  have page: "\<exists>d. node_of d t \<and> length d = BTREE_PAGE_SIZE" if "list_all ent_ok (ents t)" "fits t" for t
    using build_page [of "ents t" "ntype t"] that
    by (cases t) (auto simp: node_of_def fits_def BNODE_LEAF_def BNODE_NODE_def)
  let ?X = "full_kids @ [(7, [122], last_leaf)]"
  have "\<forall>x\<in>set ?X. \<exists>d. node_of d (kid x) \<and> length d = BTREE_PAGE_SIZE"
    using full_tree_ents(2) page by blast
  then obtain f where f: "\<forall>x\<in>set ?X. node_of (f x) (kid x) \<and> length (f x) = BTREE_PAGE_SIZE"
    by metis
  obtain d8 where d8: "node_of d8 full_tree" "length d8 = BTREE_PAGE_SIZE"
    using page full_tree_ents(1) full_tree_ok(2) by blast
  let ?P = "map (\<lambda>x. (kid_ptr x, f x)) ?X @ [(8, d8)]"
  have "map fst ?P = [2, 3, 4, 5, 6, 7, 8]"
    by (simp add: full_kids_def)
  moreover have "\<forall>(p, d)\<in>set ?P. length d = BTREE_PAGE_SIZE"
    using f d8(2) by auto
  moreover have "\<forall>x\<in>set ?X. \<exists>d. map_of ?P (kid_ptr x) = Some d \<and> node_of d (kid x)"
    using f by (simp add: full_kids_def)
  moreover have "map_of ?P 8 = Some d8"
    by (simp add: full_kids_def)
  ultimately show ?thesis
    using d8(1) by (intro exI [of _ ?P] exI [of _ d8]) (intro conjI)
qed

lemma full_tx_facts:
  assumes keys: "map fst pgs = [2, 3, 4, 5, 6, 7, 8]" and len: "\<forall>(p, d)\<in>set pgs. length d = BTREE_PAGE_SIZE"
  shows "tx_ok (full_tx pgs)" and "tx_view [] (full_tx pgs) = (map_of pgs)(1 \<mapsto> BNode BTREE_PAGE_SIZE)"
    and "tx_inv [] (full_tx pgs)" and "tx_live [] (full_tx pgs) = map_of pgs"
    and "1000 \<le> tx_budget (full_tx pgs)"
proof -
  let ?tx = "full_tx pgs"
  have bound: "tx_bound ?tx = 9"
    by (simp add: tx_bound_def full_tx_def fresh_tx_def)
  have dom: "fst ` set pgs = {2, 3, 4, 5, 6, 7, 8}"
    using arg_cong [OF keys, of set] by simp
  then have none: "map_of pgs p = None" if "p \<notin> {2, 3, 4, 5, 6, 7, 8}" for p
    using that by (simp add: map_of_eq_None_iff)
  have "buffered ?tx = insert 1 {2, 3, 4, 5, 6, 7, 8}"
    using dom by (auto simp: buffered_def dom_map_of_conv_image_fst full_tx_def fresh_tx_def)
  then have buf: "\<forall>p\<in>buffered ?tx. unat p < 9"
    by (simp add: word_less_nat_alt)
  show ok: "tx_ok ?tx"
    using keys len buf by (simp add: tx_ok_def bound MAX_PAGES_def)
      (simp add: full_tx_def fresh_tx_def reader_ok_def mapped_total_def BNode_def)
  show view: "tx_view [] ?tx = (map_of pgs)(1 \<mapsto> BNode BTREE_PAGE_SIZE)"
  proof
    fix p
    have "map_of pgs p = None" if "\<not> unat p < 9"
      using that by (intro none) auto
    then show "tx_view [] ?tx p = ((map_of pgs)(1 \<mapsto> BNode BTREE_PAGE_SIZE)) p"
      unfolding tx_view_def bound
      by (auto simp: full_tx_def fresh_tx_def reader_pages_def mapped_total_def split: option.splits)
  qed
  have rep: "fl_rep (tx_view [] ?tx) (fl_state (free_list ?tx)) [1] []"
    by (simp add: fl_rep_def fl_part_def fl_owned_def view) (simp add: full_tx_def fresh_tx_def)
  show "tx_inv [] ?tx"
    using ok rep by (auto simp: tx_inv_def) (simp add: full_tx_def fresh_tx_def version_before_def)
  show "tx_live [] ?tx = map_of pgs"
    using none [of 0] none [of 1] by (auto simp: fun_eq_iff tx_live_def tx_free_eq [OF rep] fl_owned_def view)
  show "1000 \<le> tx_budget ?tx"
    by (simp add: tx_budget_def tx_avail_def bound MAX_PAGES_def) (simp add: full_tx_def fresh_tx_def)
qed

lemma full_tree_pages: "pages full_tree = [2, 3, 4, 5, 6, 7]"
  by (simp add: full_tree_def full_kids_def last_leaf_def)

lemma full_tx_holds:
  assumes keys: "map fst pgs = [2, 3, 4, 5, 6, 7, 8]" and len: "\<forall>(p, d)\<in>set pgs. length d = BTREE_PAGE_SIZE"
    and kids: "\<forall>x\<in>set (full_kids @ [(7, [122], last_leaf)]). \<exists>d. map_of pgs (kid_ptr x) = Some d \<and> node_of d (kid x)"
    and root: "map_of pgs 8 = Some d8" "node_of d8 full_tree"
  shows "tx_holds [] (full_tx pgs) (tree_map full_tree)"
proof -
  have page: "page_of (map_of pgs p) t" if "map_of pgs p = Some d" "node_of d t" for p d t
    using that len map_of_SomeD [OF that(1)] by (auto simp: page_of_def)
  have "stored (map_of pgs) full_tree"
  proof -
    have "page_of (map_of pgs (kid_ptr x)) (kid x) \<and> stored (map_of pgs) (kid x)"
      if "x \<in> set (full_kids @ [(7, [122], last_leaf)])" for x
      using that kids page by (fastforce simp: full_kids_def last_leaf_def)
    then show ?thesis
      unfolding full_tree_def by simp
  qed
  moreover have "tree_inv full_tree"
    using full_tree_ok by (auto simp: tree_inv_def)
  ultimately have "tree_at (map_of pgs) 8 full_tree"
    using page [OF root] by (simp add: tree_at_def full_tree_pages)
  moreover have "dom (map_of pgs) = set (8 # pages full_tree)"
    using arg_cong [OF keys, of set] by (auto simp: full_tree_pages dom_map_of_conv_image_fst)
  ultimately have "btree (map_of pgs) 8 (tree_map full_tree)"
    by (auto simp: btree_def)
  moreover have "tree_root (full_tx pgs) = 8"
    by (simp add: full_tx_def)
  ultimately show ?thesis
    using full_tx_facts [OF keys len] by (simp add: tx_holds_def)
qed

lemma full_tx_del:
  assumes keys: "map fst pgs = [2, 3, 4, 5, 6, 7, 8]" and len: "\<forall>(p, d)\<in>set pgs. length d = BTREE_PAGE_SIZE"
    and kids: "\<forall>x\<in>set (full_kids @ [(7, [122], last_leaf)]). \<exists>d. map_of pgs (kid_ptr x) = Some d \<and> node_of d (kid x)"
    and root: "map_of pgs 8 = Some d8" "node_of d8 full_tree"
  shows "KVTX_del [] (full_tx pgs) [122] = Inl (Assertion_failed ''node overflow'')"
proof -
  let ?tx = "full_tx pgs" and ?pm = "KVTX_Pages []"
  note facts = full_tx_facts [OF keys len]
  have node: "node_is d8 BNODE_NODE (map kid_ent (full_kids @ [(7, [122], last_leaf)]))"
    using root(2) by (simp add: node_of_def full_tree_def)
  obtain d7 where d7: "map_of pgs 7 = Some d7" "node_of d7 last_leaf"
    using bspec [OF kids, of "(7, [122], last_leaf)"] by auto
  have get: "pm_get ?pm ?tx 8 = Inr d8" "pm_get ?pm ?tx 7 = Inr d7"
    using tx_pages.get_live [OF facts(3)] facts(4) root(1) d7(1) by simp_all
  have five: "length full_kids = 5"
    by (simp add: full_kids_def)
  have look: "node_lookup_le d8 [122] = Inr 5"
  proof -
    have "count_le [122] (map ent_key (ents full_tree)) = 6"
      by (simp add: count_le_def full_tree_def full_kids_def)
    moreover have "first_key full_tree \<le> [122]"
      by (simp add: full_tree_ok(4))
    ultimately show ?thesis
      using lookup_node(1) [OF root(2) full_tree_ok(1,3), of "[122]"] by simp
  qed
  have ptr: "get_ptr d8 5 = Inr 7"
    using node_is_ptr [OF node, of 5] by (simp add: five nth_append)
  have leaf: "shape 0 last_leaf" "sorted1 (kvs last_leaf)" "fits last_leaf" "first_key last_leaf \<le> [122]"
    using full_tree_ents(2) by (simp_all add: last_leaf_def first_key_def)
  let ?u = "Leaf [(big_key 122, replicate 100 0)]"
  have del_kv: "kv_del [122] [([122], []), (big_key 122, replicate 100 0)] = [(big_key 122, replicate 100 0)]"
    by (simp add: kv_del_def big_key_def)
  obtain d' where d': "tree_delete ?pm (2 ^ 64 - 1) ?tx d7 [122] = Inr (d', ?tx)" "node_of d' ?u" "length d' = BTREE_PAGE_SIZE"
      "fits ?u"
    using tx_pages.leaf_delete_tree(2) [OF d7(2) [unfolded last_leaf_def] leaf [unfolded last_leaf_def, unfolded kvs.simps],
        of "2 ^ 64 - 1" "[]" ?tx] by (auto simp: del_kv)
  have "live_del": "\<exists>tx1. pm_del ?pm ?tx 7 = Inr tx1 \<and> tx_inv [] tx1 \<and> 0 < tx_budget tx1"
    using tx_pages.del_page [OF facts(3), of 7] facts(4,5) d7(1) by fastforce
  then obtain tx1 where tx1: "pm_del ?pm ?tx 7 = Inr tx1" "tx_inv [] tx1" "0 < tx_budget tx1"
    by blast
  have un: "node_size (ents ?u) = 1118"
    by (simp add: node_size_def kv_ent_def kv_size_def)
  have nd': "nbytes d' = Inr 1118" "nkeys d' = Inr 1" "d' \<noteq> []"
    using d'(2,3) node_is_nbytes [of d' BNODE_LEAF "ents ?u"] node_is_nkeys [of d' BNODE_LEAF "ents ?u"] un
    by (auto simp: node_of_def BTREE_PAGE_SIZE_def)
  have merge: "should_merge ?pm tx1 d8 5 d' = Inr (MergeNone, BNode BTREE_PAGE_SIZE)"
    using nd'(1) by (simp add: should_merge_def BTREE_PAGE_SIZE_def)
  have "node_replace_child_n ?pm tx1 (BNode BTREE_PAGE_SIZE) d8 (length full_kids) [d'] =
      Inl (Assertion_failed ''node overflow'')"
  proof (rule tx_pages.relink_last_overflow [OF node d'(2,4) _ tx1(2,3)])
    show "4 + 10 * (length full_kids + 1) + kvs_size (map kid_ent full_kids) \<le> BTREE_PAGE_SIZE"
      by (simp add: full_kids_def kv_size_def BTREE_PAGE_SIZE_def)
    show "BTREE_PAGE_SIZE < node_size (map kid_ent full_kids @ key_ents [?u])"
      by (simp add: full_kids_def kv_size_def node_size_def key_ents_def first_key_def BTREE_PAGE_SIZE_def)
  qed simp
  then have "node_delete ?pm (2 ^ 64 - 1) ?tx d8 5 [122] = Inl (Assertion_failed ''node overflow'')"
    using ptr get(2) d'(1) tx1(1) merge nd' five by (simp add: node_delete.simps)
  then have "tree_delete ?pm TREE_FUEL ?tx d8 [122] = Inl (Assertion_failed ''node overflow'')"
    using look node_is_btype [OF node]
    by (simp add: tree_delete.simps TREE_FUEL_def BNODE_NODE_def BNODE_LEAF_def u16_def)
  then show ?thesis
    using get(1) valid_key_a(1)
    by (simp add: KVTX_del_def BTree_remove_def full_tx_def check_key_limit_def BTREE_MAX_KEY_SIZE_def)
qed

text \<open>
  C29: deletion is not total. There is a transaction that holds a map, in perfect order and with room
  to spare for new pages, on which deleting a key that is present fails the overflow assertion: the
  successor of the deleted separator is longer and the rebuilt parent does not fit its page. So the
  condition on the successor key in the deletion theorem is needed.
\<close>

theorem KVTX_del_overflow:
  "\<exists>tx m. tx_holds [] tx m \<and> valid_key [122] \<and> m [122] \<noteq> None \<and> tx_cost [] tx \<le> tx_budget tx
    \<and> KVTX_del [] tx [122] = Inl (Assertion_failed ''node overflow'')"
proof -
  obtain pgs d8 where P: "map fst pgs = [2, 3, 4, 5, 6, 7, 8]" "\<forall>(p, d)\<in>set pgs. length d = BTREE_PAGE_SIZE"
      "\<forall>x\<in>set (full_kids @ [(7, [122], last_leaf)]). \<exists>d. map_of pgs (kid_ptr x) = Some d \<and> node_of d (kid x)"
      "map_of pgs 8 = Some d8" "node_of d8 full_tree"
    using full_tx_exists by (elim exE conjE) (rule that)
  have "valid_key [122]"
    by (simp add: valid_key_def BTREE_MAX_KEY_SIZE_def)
  moreover have "tree_map full_tree [122] \<noteq> None"
    by (simp add: tree_map_def full_tree_def full_kids_def last_leaf_def big_key_def)
  moreover have "tx_cost [] (full_tx pgs) \<le> tx_budget (full_tx pgs)"
  proof -
    have "card (dom (map_of pgs)) \<le> length pgs"
      by (simp add: dom_map_of_conv_image_fst card_image_le [THEN le_trans] card_length)
    moreover have "length pgs = 7"
      using arg_cong [OF P(1), of length] by simp
    ultimately show ?thesis
      using full_tx_facts(4,5) [OF P(1,2)] by (simp add: tx_cost_def)
  qed
  ultimately show ?thesis
    using full_tx_holds [OF P] full_tx_del [OF P] by blast
qed

end
