(* ===== verification/Scanner.thy ===== *)
theory Scanner
  imports Row_Spec KVTX
begin

text \<open>
  \<open>access/scanner\<close> and \<open>db_get\<close> of \<open>access/table_access\<close>: range queries over a table's primary key or one
  of its indexes, and point queries, which are such ranges. They run on any reader, so the reader is its
  page manager, its state and the root of its tree; a write transaction is one too. \<open>tx_\<close>, a pointer in the code,
  is an argument of the steps; \<open>tdef_\<close> is kept by value.
\<close>

section \<open>The scanner\<close>

record Scanner =
  sn_cmp1 :: CMP
  sn_cmp2 :: CMP
  sn_key1 :: Record
  sn_key2 :: Record
  sn_index_no :: int
  sn_tdef :: "TableDef option"
  sn_iter :: BIter
  sn_key_end :: bytes

definition Scanner_new :: "CMP \<Rightarrow> CMP \<Rightarrow> Record \<Rightarrow> Record \<Rightarrow> Scanner" where
  "Scanner_new cmp1 cmp2 key1 key2 =
     \<lparr>sn_cmp1 = cmp1, sn_cmp2 = cmp2, sn_key1 = key1, sn_key2 = key2, sn_index_no = -1, sn_tdef = None, sn_iter = empty_BIter, sn_key_end = []\<rparr>"

text \<open>The loop of \<open>check_bound\<close> over the columns and values of a bound.\<close>

fun check_bound_types :: "TableDef \<Rightarrow> bytes list \<Rightarrow> Value list \<Rightarrow> unit ql" where
  "check_bound_types tdef [] vals = qret ()"
| "check_bound_types tdef (c # cs) [] = Inl Bad_access"
| "check_bound_types tdef (c # cs) (v # vs) =
     (let at = col_index tdef c in
      if at < 0 \<or> nat at \<ge> length (types tdef) then Inl Bad_access
      else if vtype v \<noteq> types tdef ! nat at then qerr (str ''type mismatch for column: '' @ c)
      else check_bound_types tdef cs vs)"

definition check_bound :: "TableDef \<Rightarrow> bytes list \<Rightarrow> Record \<Rightarrow> unit ql" where
  "check_bound tdef index_cols key =
     (if \<not> is_prefix index_cols (rec_cols key) then qerr (str ''range key columns must be a prefix of the scanned index'')
      else check_bound_types tdef (rec_cols key) (rec_vals key))"

definition Scanner_valid :: "Scanner \<Rightarrow> bool res" where
  "Scanner_valid sc =
     rbind (BIter_valid (sn_iter sc)) (\<lambda>v.
     if \<not> v then Inr False
     else rbind (BIter_deref (sn_iter sc)) (\<lambda>(k, _). Inr (cmp_ok k (sn_cmp2 sc) (sn_key_end sc))))"

definition Scanner_next :: "'s IPageManager \<Rightarrow> 's \<Rightarrow> Scanner \<Rightarrow> Scanner res" where
  "Scanner_next pm s sc =
     rbind (Scanner_valid sc) (\<lambda>v.
     rbind (check v (Assertion_failed ''valid()'')) (\<lambda>_.
     rbind (if cmp_val (sn_cmp1 sc) > 0 then BIter_next pm s (sn_iter sc) else BIter_prev pm s (sn_iter sc)) (\<lambda>it.
     Inr (sc\<lparr>sn_iter := it\<rparr>))))"

section \<open>Starting a scan\<close>

text \<open>\<open>scan_setup\<close> is \<open>db_scan\<close> after it has reset the iterator.\<close>

definition scan_setup :: "'s IPageManager \<Rightarrow> u64 \<Rightarrow> 's \<Rightarrow> TableDef \<Rightarrow> Scanner \<Rightarrow> Scanner ql" where
  "scan_setup pm root s tdef req =
     (let up = (\<lambda>c. cmp_val c > 0); down = (\<lambda>c. cmp_val c < 0) in
      if \<not> (up (sn_cmp1 req) \<and> down (sn_cmp2 req)) \<and> \<not> (down (sn_cmp1 req) \<and> up (sn_cmp2 req))
      then qerr (str ''bad range: cmp1 and cmp2 must point in opposite directions'') else
      case find_index tdef (rec_cols (sn_key1 req)) of
        Inl e \<Rightarrow> qerr e
      | Inr index_no \<Rightarrow>
          let by_pk = index_no < 0 in
          if \<not> by_pk \<and> nat index_no \<ge> length (index_prefixes tdef) then Inl Bad_access else
          let pfx = (if by_pk then prefix tdef else index_prefixes tdef ! nat index_no);
              index_cols = (if by_pk then take (nat (pkeys tdef)) (tcols tdef) else indexes tdef ! nat index_no) in
          qbind (check_bound tdef index_cols (sn_key1 req)) (\<lambda>_.
          qbind (check_bound tdef index_cols (sn_key2 req)) (\<lambda>_.
          rbind (encode_key_partial pfx (rec_vals (sn_key2 req)) tdef index_cols (sn_cmp2 req)) (\<lambda>key_end.
          rbind (encode_key_partial pfx (rec_vals (sn_key1 req)) tdef index_cols (sn_cmp1 req)) (\<lambda>key_start.
          rbind (BTree_seek pm root s key_start (sn_cmp1 req)) (\<lambda>it.
          qret (req\<lparr>sn_tdef := Some tdef, sn_index_no := index_no, sn_key_end := key_end, sn_iter := it\<rparr>)))))))"

text \<open>A failed scan leaves the scanner invalid.\<close>

definition db_scan :: "'s IPageManager \<Rightarrow> u64 \<Rightarrow> 's \<Rightarrow> TableDef \<Rightarrow> Scanner \<Rightarrow> (Scanner \<times> bytes option) res" where
  "db_scan pm root s tdef req =
     (let req = req\<lparr>sn_iter := empty_BIter\<rparr> in
      rbind (scan_setup pm root s tdef req) (\<lambda>r.
      case r of Inl err \<Rightarrow> Inr (req, Some err) | Inr req \<Rightarrow> Inr (req, None)))"

section \<open>Rows\<close>

text \<open>The record of an index key: its columns, with values of their types.\<close>

fun index_slots :: "TableDef \<Rightarrow> bytes list \<Rightarrow> Value list res" where
  "index_slots tdef [] = Inr []"
| "index_slots tdef (c # cs) =
     (let at = col_index tdef c in
      if at < 0 \<or> nat at \<ge> length (types tdef) then Inl Bad_access
      else rbind (index_slots tdef cs) (\<lambda>vs. Inr (default_Value\<lparr>vtype := types tdef ! nat at\<rparr> # vs)))"

text \<open>A record's values for given columns, each asserted to be there.\<close>

fun get_all :: "Record \<Rightarrow> bytes list \<Rightarrow> Value list res" where
  "get_all rec [] = Inr []"
| "get_all rec (c # cs) =
     (case Record_get rec c of
        None \<Rightarrow> Inl (Assertion_failed ''v != nullptr'')
      | Some v \<Rightarrow> rbind (get_all rec cs) (\<lambda>vs. Inr (v # vs)))"

text \<open>
  \<open>deref\<close> of an index scan looks the row up with \<open>db_get\<close>, which dereferences a scan of the primary
  key: the recursion is two calls deep, and the fuel says so.
\<close>

fun deref_fuel :: "nat \<Rightarrow> 's IPageManager \<Rightarrow> u64 \<Rightarrow> 's \<Rightarrow> Scanner \<Rightarrow> Record res"
  and get_fuel :: "nat \<Rightarrow> 's IPageManager \<Rightarrow> u64 \<Rightarrow> 's \<Rightarrow> TableDef \<Rightarrow> Record \<Rightarrow> Record option ql" where
  "deref_fuel 0 pm root s sc = Inl Diverges"
| "deref_fuel (Suc n) pm root s sc =
     rbind (Scanner_valid sc) (\<lambda>v.
     rbind (check v (Assertion_failed ''valid()'')) (\<lambda>_.
     rbind (BIter_deref (sn_iter sc)) (\<lambda>(key, val).
     case sn_tdef sc of None \<Rightarrow> Inl Bad_access | Some tdef \<Rightarrow>
     if sn_index_no sc < 0 then decode_row tdef key val else
     rbind (check (val = []) (Assertion_failed ''val.empty()'')) (\<lambda>_.
     if nat (sn_index_no sc) \<ge> length (indexes tdef) then Inl Bad_access else
     let cols = indexes tdef ! nat (sn_index_no sc) in
     rbind (index_slots tdef cols) (\<lambda>slots.
     rbind (decode_key key slots) (\<lambda>vals.
     rbind (get_all \<lparr>rec_cols = cols, rec_vals = vals\<rparr> (take (nat (pkeys tdef)) (tcols tdef))) (\<lambda>pk_vals.
     rbind (get_fuel n pm root s tdef \<lparr>rec_cols = take (nat (pkeys tdef)) (tcols tdef), rec_vals = pk_vals\<rparr>) (\<lambda>r.
     case r of
       Inr (Some row) \<Rightarrow> Inr row
     | _ \<Rightarrow> Inl (Assertion_failed ''found && \"index key without a matching row\"''))))))))) "
| "get_fuel 0 pm root s tdef rec = Inl Diverges"
| "get_fuel (Suc n) pm root s tdef rec =
     qbind (check_record tdef rec (pkeys tdef)) (\<lambda>vals.
     let key = \<lparr>rec_cols = take (nat (pkeys tdef)) (tcols tdef), rec_vals = vals\<rparr> in
     rbind (db_scan pm root s tdef (Scanner_new CMP_GE CMP_LE key key)) (\<lambda>(sc, err).
     case err of
       Some e \<Rightarrow> qerr e
     | None \<Rightarrow>
         rbind (Scanner_valid sc) (\<lambda>v.
         if \<not> v then qret None else rbind (deref_fuel n pm root s sc) (\<lambda>row. qret (Some row)))))"

definition Scanner_deref :: "'s IPageManager \<Rightarrow> u64 \<Rightarrow> 's \<Rightarrow> Scanner \<Rightarrow> Record res" where
  "Scanner_deref pm root s sc = deref_fuel 3 pm root s sc"

text \<open>False with \<open>*err\<close> unset is \<open>None\<close>.\<close>

definition db_get :: "'s IPageManager \<Rightarrow> u64 \<Rightarrow> 's \<Rightarrow> TableDef \<Rightarrow> Record \<Rightarrow> Record option ql" where
  "db_get pm root s tdef rec = get_fuel 2 pm root s tdef rec"

end
