(* ===== verification/Table_Access.thy ===== *)
theory Table_Access
  imports Scanner KVTX_Spec
begin

text \<open>
  Writing rows: \<open>access/index_ops\<close> and the writing half of \<open>access/table_access\<close>. A row is one pair under
  the table's prefix, and one pair with an empty value under the prefix of each index; both are
  written in the same transaction.
\<close>

section \<open>Index entries\<close>

definition INDEX_ADD :: int where "INDEX_ADD = 1"
definition INDEX_DEL :: int where "INDEX_DEL = 2"

definition index_entry :: "bytes \<Rightarrow> KVTX \<Rightarrow> Record \<Rightarrow> int \<Rightarrow> bytes list \<Rightarrow> u32 \<Rightarrow> KVTX res" where
  "index_entry file tx rec op cols pfx =
     rbind (get_all rec cols) (\<lambda>index_values.
     rbind (encode_key pfx index_values) (\<lambda>key.
     rbind (if op = INDEX_ADD then
              rbind (KVTX_update file tx \<lparr>ins_key = key, ins_val = [], ins_mode = INSERT_ONLY, ins_added = False, ins_old = []\<rparr>)
                (\<lambda>(done, _, tx). Inr (done, tx))
            else if op = INDEX_DEL then KVTX_del file tx key
            else Inl (Assertion_failed ''false && \"index_op: bad op\"'')) (\<lambda>(done, tx).
     rbind (check done (Assertion_failed ''done'')) (\<lambda>_. Inr tx))))"

fun index_entries :: "bytes \<Rightarrow> KVTX \<Rightarrow> Record \<Rightarrow> int \<Rightarrow> (bytes list \<times> u32) list \<Rightarrow> KVTX res" where
  "index_entries file tx rec op [] = Inr tx"
| "index_entries file tx rec op ((cols, pfx) # rest) =
     rbind (index_entry file tx rec op cols pfx) (\<lambda>tx. index_entries file tx rec op rest)"

definition index_op :: "bytes \<Rightarrow> KVTX \<Rightarrow> TableDef \<Rightarrow> Record \<Rightarrow> int \<Rightarrow> KVTX res" where
  "index_op file tx tdef rec op =
     rbind (check (length (index_prefixes tdef) = length (indexes tdef))
       (Assertion_failed ''tdef.index_prefixes.size() == tdef.indexes.size()'')) (\<lambda>_.
     index_entries file tx rec op (zip (indexes tdef) (index_prefixes tdef)))"

section \<open>Rows\<close>

definition db_update :: "bytes \<Rightarrow> TableDef \<Rightarrow> Record \<Rightarrow> UpdateMode \<Rightarrow> (KVTX, unit) qstep" where
  "db_update file tdef rec mode =
     sbind (slift (check_record tdef rec (int (length (tcols tdef))))) (\<lambda>values tx.
     if pkeys tdef < 0 \<or> nat (pkeys tdef) > length values then Inl Bad_access else
     let pk_values = take (nat (pkeys tdef)) values;
         col_values = drop (nat (pkeys tdef)) values in
     rbind (encode_key (prefix tdef) pk_values) (\<lambda>key.
     rbind (encode_values col_values) (\<lambda>val.
     rbind (KVTX_update file tx \<lparr>ins_key = key, ins_val = val, ins_mode = mode, ins_added = False, ins_old = []\<rparr>)
       (\<lambda>(ok, req, tx).
     if \<not> ok then
       serr ((if ins_added req then str ''row does not exist in table: '' else str ''row already exists in table: '') @ tname tdef) tx
     else if indexes tdef = [] then sret () tx
     else
       rbind (if \<not> ins_added req then
                rbind (decode_row tdef key (ins_old req)) (\<lambda>old. index_op file tx tdef old INDEX_DEL)
              else Inr tx) (\<lambda>tx.
       rbind (index_op file tx tdef rec INDEX_ADD) (\<lambda>tx. sret () tx))))))"

text \<open>The value is the C++ result; false without a message is a row that does not exist.\<close>

definition db_delete :: "bytes \<Rightarrow> TableDef \<Rightarrow> Record \<Rightarrow> (KVTX, bool) qstep" where
  "db_delete file tdef rec =
     sbind (slift (check_record tdef rec (pkeys tdef))) (\<lambda>pk_values tx.
     rbind (encode_key (prefix tdef) pk_values) (\<lambda>key.
     rbind (KVTX_del_req file tx \<lparr>del_key = key, del_old = []\<rparr>) (\<lambda>(found, req, tx).
     if \<not> found then sret False tx
     else if indexes tdef \<noteq> [] then
       rbind (decode_row tdef key (del_old req)) (\<lambda>old.
       rbind (index_op file tx tdef old INDEX_DEL) (\<lambda>tx. sret True tx))
     else sret True tx)))"

end
