(* ===== verification/Catalog.thy ===== *)
theory Catalog
  imports Table_Text KVTX_Spec
begin

text \<open>
  The catalog: the tables \<open>@meta\<close> and \<open>@table\<close> it keeps in the store, the cache of definitions, the
  allocation of key prefixes, and the creation of tables.
\<close>

section \<open>The internal tables\<close>

definition internal_key :: "u32 \<Rightarrow> bytes \<Rightarrow> bytes" where
  "internal_key pfx pk = [ucast (drop_bit 24 pfx), ucast (drop_bit 16 pfx), ucast (drop_bit 8 pfx), ucast pfx] @ pk"

definition TDEF_META :: TableDef where
  "TDEF_META = set_prefix (set_pkeys (add_col (add_col (TableDefBuilder (str ''@meta''))
     (str ''key'') BYTES) (str ''val'') BYTES) 1) 1"

definition TDEF_TABLE :: TableDef where
  "TDEF_TABLE = set_prefix (set_pkeys (add_col (add_col (TableDefBuilder (str ''@table''))
     (str ''name'') BYTES) (str ''def'') BYTES) 1) 2"

definition TABLE_PREFIX_MIN :: u32 where
  "TABLE_PREFIX_MIN = 3"

text \<open>\<open>internal_get\<close> reads through any reader: its pages, the root of its tree and its state.\<close>

definition internal_get :: "'s IPageManager \<Rightarrow> u64 \<Rightarrow> 's \<Rightarrow> TableDef \<Rightarrow> bytes \<Rightarrow> bytes option res" where
  "internal_get pm root s tdef pk = BTree_get pm root s (internal_key (prefix tdef) pk)"

definition internal_set :: "bytes \<Rightarrow> KVTX \<Rightarrow> TableDef \<Rightarrow> bytes \<Rightarrow> bytes \<Rightarrow> KVTX res" where
  "internal_set file tx tdef pk val = KVTX_set file tx (internal_key (prefix tdef) pk) val"

section \<open>Definitions\<close>

record Catalog =
  cache :: "bytes \<rightharpoonup> TableDef"

definition new_Catalog :: Catalog where
  "new_Catalog = \<lparr>cache = Map.empty\<rparr>"

definition get_table_def_from_kv :: "'s IPageManager \<Rightarrow> u64 \<Rightarrow> 's \<Rightarrow> bytes \<Rightarrow> TableDef option res" where
  "get_table_def_from_kv pm root s name =
     rbind (internal_get pm root s TDEF_TABLE name) (\<lambda>encoded.
     case encoded of None \<Rightarrow> Inr None | Some text \<Rightarrow> decode_table_def text)"

definition get_table_def :: "bytes \<Rightarrow> KVTX \<Rightarrow> bytes \<Rightarrow> Catalog \<Rightarrow> (TableDef option \<times> Catalog) res" where
  "get_table_def file tx name cat =
     (case cache cat name of
        Some tdef \<Rightarrow> Inr (Some tdef, cat)
      | None \<Rightarrow>
          rbind (get_table_def_from_kv (KVTX_Pages file) (tree_root tx) tx name) (\<lambda>tdef.
          case tdef of
            None \<Rightarrow> Inr (None, cat)
          | Some tdef \<Rightarrow> Inr (Some tdef, cat\<lparr>cache := (cache cat)(name \<mapsto> tdef)\<rparr>)))"

definition clear_cache :: "Catalog \<Rightarrow> Catalog" where
  "clear_cache cat = cat\<lparr>cache := Map.empty\<rparr>"

section \<open>Creating tables\<close>

unbundle bit_operations_syntax

text \<open>The number in \<open>@meta\<close>: four bytes, the most significant first.\<close>

definition read_prefix :: "bytes \<Rightarrow> u32" where
  "read_prefix s = push_bit 24 (ucast (s ! 0)) OR push_bit 16 (ucast (s ! 1)) OR push_bit 8 (ucast (s ! 2)) OR ucast (s ! 3)"

definition show_prefix :: "u32 \<Rightarrow> bytes" where
  "show_prefix v = [ucast (drop_bit 24 v), ucast (drop_bit 16 v), ucast (drop_bit 8 v), ucast v]"

definition alloc_prefix :: "bytes \<Rightarrow> KVTX \<Rightarrow> u32 \<Rightarrow> (u32 \<times> KVTX) res" where
  "alloc_prefix file tx n =
     rbind (internal_get (KVTX_Pages file) (tree_root tx) tx TDEF_META (str ''next_prefix'')) (\<lambda>stored.
     let nxt = (case stored of
                  Some s \<Rightarrow> if length s = 4 then read_prefix s else TABLE_PREFIX_MIN
                | None \<Rightarrow> TABLE_PREFIX_MIN);
         following = nxt + n in
     rbind (internal_set file tx TDEF_META (str ''next_prefix'') (show_prefix following)) (\<lambda>tx. Inr (nxt, tx)))"

definition table_new :: "bytes \<Rightarrow> TableDef \<Rightarrow> (KVTX, unit) qstep" where
  "table_new file tdef tx =
     (case table_def_check tdef of
        Inl err \<Rightarrow> serr err tx
      | Inr tdef \<Rightarrow>
          if prefix tdef \<noteq> 0 \<or> index_prefixes tdef \<noteq> [] then serr (str ''prefixes must not be set by the caller'') tx
          else
            rbind (internal_get (KVTX_Pages file) (tree_root tx) tx TDEF_TABLE (tname tdef)) (\<lambda>old.
            if old \<noteq> None then serr (str ''table already exists: '' @ tname tdef) tx
            else
              rbind (alloc_prefix file tx (1 + word_of_nat (length (indexes tdef)))) (\<lambda>(p, tx).
              let tdef = tdef\<lparr>prefix := p, index_prefixes := index_prefixes tdef
                           @ map (\<lambda>i. p + 1 + word_of_nat i) [0..<length (indexes tdef)]\<rparr> in
              rbind (encode_table_def tdef) (\<lambda>text.
              rbind (internal_set file tx TDEF_TABLE (tname tdef) text) (\<lambda>tx. sret () tx)))))"

end
