(* ===== verification/DB.thy ===== *)
theory DB
  imports Table_Access Catalog KV
begin

text \<open>
  \<open>db\<close>, what an application calls: readers and write transactions over one store, the tables looked up
  by name. A write transaction finds definitions in the catalog's cache, which belongs to the \<open>DB\<close>; a
  reader keeps its own. The open readers live in the store, so a \<open>DBReader\<close> names its own.
\<close>

section \<open>The state\<close>

record DB =
  db_kv :: KV
  db_catalog :: Catalog

record DBReader =
  dr_reader :: reader_id
  dr_tables :: "bytes \<rightharpoonup> TableDef"

record DBTX =
  dt_tx :: KVTX
  dt_created :: bool

definition DB_new :: "KV \<Rightarrow> DB" where
  "DB_new kv = \<lparr>db_kv = kv, db_catalog = new_Catalog\<rparr>"

text \<open>The bytes of the open file.\<close>

definition db_file :: "DB \<Rightarrow> bytes" where
  "db_file db = content (st_file (db_kv db))"

section \<open>Beginning and ending\<close>

definition DB_begin_read :: "DBReader \<Rightarrow> DB \<Rightarrow> DBReader \<times> DB" where
  "DB_begin_read tx db =
     (tx\<lparr>dr_tables := Map.empty\<rparr>, db\<lparr>db_kv := KV_begin_read (dr_reader tx) (db_kv db)\<rparr>)"

definition DB_end_read :: "DBReader \<Rightarrow> DB \<Rightarrow> DB res" where
  "DB_end_read tx db = rbind (KV_end_read (dr_reader tx) (db_kv db)) (\<lambda>kv. Inr (db\<lparr>db_kv := kv\<rparr>))"

text \<open>As \<open>KV_begin\<close>: \<open>None\<close> while another write transaction runs.\<close>

definition DB_begin :: "DBTX \<Rightarrow> DB \<Rightarrow> (DBTX \<times> DB) option" where
  "DB_begin tx db =
     (case KV_begin (dt_tx tx) (db_kv db) of
        None \<Rightarrow> None
      | Some (kvtx, kv) \<Rightarrow> Some (tx\<lparr>dt_created := False, dt_tx := kvtx\<rparr>, db\<lparr>db_kv := kv\<rparr>))"

definition drop_uncommitted :: "DBTX \<Rightarrow> DB \<Rightarrow> DB" where
  "drop_uncommitted tx db = (if dt_created tx then db\<lparr>db_catalog := clear_cache (db_catalog db)\<rparr> else db)"

definition DB_commit :: "DBTX \<Rightarrow> DB \<Rightarrow> unit res \<times> DB" where
  "DB_commit tx db =
     (let db = drop_uncommitted tx db in
      case KV_commit (dt_tx tx) (db_kv db) of (r, kv) \<Rightarrow> (r, db\<lparr>db_kv := kv\<rparr>))"

definition DB_abort :: "DBTX \<Rightarrow> DB \<Rightarrow> DBTX \<times> DB" where
  "DB_abort tx db =
     (let db = drop_uncommitted tx db in
      case KV_abort (dt_tx tx) (db_kv db) of (kvtx, kv) \<Rightarrow> (tx\<lparr>dt_tx := kvtx\<rparr>, db\<lparr>db_kv := kv\<rparr>))"

section \<open>Readers\<close>

definition reader_of :: "DB \<Rightarrow> DBReader \<Rightarrow> KVReader" where
  "reader_of db tx = hstore (st_readers (db_kv db)) (dr_reader tx)"

definition no_table :: "bytes \<Rightarrow> bytes" where
  "no_table table = str ''table not found: '' @ table"

definition DBReader_find_table :: "DB \<Rightarrow> bytes \<Rightarrow> (DBReader, TableDef) qstep" where
  "DBReader_find_table db table tx =
     (case dr_tables tx table of
        Some tdef \<Rightarrow> sret tdef tx
      | None \<Rightarrow>
          rbind (get_table_def_from_kv (MappedPages (db_file db)) (tree_root (reader_of db tx)) (reader_of db tx) table) (\<lambda>tdef.
          case tdef of
            None \<Rightarrow> serr (no_table table) tx
          | Some tdef \<Rightarrow> sret tdef (tx\<lparr>dr_tables := (dr_tables tx)(table \<mapsto> tdef)\<rparr>)))"

definition DBReader_get :: "DB \<Rightarrow> bytes \<Rightarrow> Record \<Rightarrow> (DBReader, Record option) qstep" where
  "DBReader_get db table rec =
     sbind (DBReader_find_table db table) (\<lambda>tdef tx.
     slift (db_get (MappedPages (db_file db)) (tree_root (reader_of db tx)) (reader_of db tx) tdef rec) tx)"

definition scan_of :: "'s IPageManager \<Rightarrow> u64 \<Rightarrow> 's \<Rightarrow> TableDef \<Rightarrow> Scanner \<Rightarrow> Scanner ql" where
  "scan_of pm root s tdef req =
     rbind (db_scan pm root s tdef req) (\<lambda>(sc, err). case err of Some e \<Rightarrow> qerr e | None \<Rightarrow> qret sc)"

definition DBReader_scan :: "DB \<Rightarrow> bytes \<Rightarrow> Scanner \<Rightarrow> (DBReader, Scanner) qstep" where
  "DBReader_scan db table req =
     sbind (DBReader_find_table db table) (\<lambda>tdef tx.
     slift (scan_of (MappedPages (db_file db)) (tree_root (reader_of db tx)) (reader_of db tx) tdef req) tx)"

definition DBReader_table_def :: "DB \<Rightarrow> bytes \<Rightarrow> (DBReader, TableDef) qstep" where
  "DBReader_table_def db table = DBReader_find_table db table"

section \<open>Write transactions\<close>

text \<open>
  An operation of a \<open>DBTX\<close> changes the transaction and the cache of the \<open>DB\<close> it belongs to. It reads
  the file, which only a commit writes.
\<close>

type_synonym session = "DBTX \<times> Catalog"

definition on_kv :: "(KVTX, 'a) qstep \<Rightarrow> (session, 'a) qstep" where
  "on_kv m = (\<lambda>(tx, cat). rbind (m (dt_tx tx)) (\<lambda>(r, kvtx). Inr (r, tx\<lparr>dt_tx := kvtx\<rparr>, cat)))"

definition DBTX_find_table :: "bytes \<Rightarrow> bytes \<Rightarrow> (session, TableDef) qstep" where
  "DBTX_find_table file table = (\<lambda>(tx, cat).
     rbind (get_table_def file (dt_tx tx) table cat) (\<lambda>(tdef, cat).
     case tdef of None \<Rightarrow> serr (no_table table) (tx, cat) | Some tdef \<Rightarrow> sret tdef (tx, cat)))"

definition DBTX_table_new :: "bytes \<Rightarrow> TableDef \<Rightarrow> (session, unit) qstep" where
  "DBTX_table_new file tdef =
     sbind (on_kv (table_new file tdef)) (\<lambda>_ (tx, cat). sret () (tx\<lparr>dt_created := True\<rparr>, cat))"

definition DBTX_get :: "bytes \<Rightarrow> bytes \<Rightarrow> Record \<Rightarrow> (session, Record option) qstep" where
  "DBTX_get file table rec =
     sbind (DBTX_find_table file table) (\<lambda>tdef (tx, cat).
     slift (db_get (KVTX_Pages file) (tree_root (dt_tx tx)) (dt_tx tx) tdef rec) (tx, cat))"

definition DBTX_insert :: "bytes \<Rightarrow> bytes \<Rightarrow> Record \<Rightarrow> (session, unit) qstep" where
  "DBTX_insert file table rec =
     sbind (DBTX_find_table file table) (\<lambda>tdef. on_kv (db_update file tdef rec INSERT_ONLY))"

definition DBTX_update :: "bytes \<Rightarrow> bytes \<Rightarrow> Record \<Rightarrow> (session, unit) qstep" where
  "DBTX_update file table rec =
     sbind (DBTX_find_table file table) (\<lambda>tdef. on_kv (db_update file tdef rec UPDATE_ONLY))"

definition DBTX_upsert :: "bytes \<Rightarrow> bytes \<Rightarrow> Record \<Rightarrow> (session, unit) qstep" where
  "DBTX_upsert file table rec =
     sbind (DBTX_find_table file table) (\<lambda>tdef. on_kv (db_update file tdef rec UPSERT))"

definition DBTX_del :: "bytes \<Rightarrow> bytes \<Rightarrow> Record \<Rightarrow> (session, bool) qstep" where
  "DBTX_del file table rec =
     sbind (DBTX_find_table file table) (\<lambda>tdef. on_kv (db_delete file tdef rec))"

definition DBTX_scan :: "bytes \<Rightarrow> bytes \<Rightarrow> Scanner \<Rightarrow> (session, Scanner) qstep" where
  "DBTX_scan file table req =
     sbind (DBTX_find_table file table) (\<lambda>tdef (tx, cat).
     slift (scan_of (KVTX_Pages file) (tree_root (dt_tx tx)) (dt_tx tx) tdef req) (tx, cat))"

definition DBTX_table_def :: "bytes \<Rightarrow> bytes \<Rightarrow> (session, TableDef) qstep" where
  "DBTX_table_def file table = DBTX_find_table file table"

end
