(* ===== verification/QL_Exec.thy ===== *)
theory QL_Exec
  imports DB QL_Range
begin

text \<open>
  Running statements, \<open>ql/ql_exec\<close>: the scan that a filter narrows, SELECT, INSERT, UPDATE, DELETE and
  CREATE TABLE. The executors of the code are templates over readers and write transactions; here they
  are given the operations they use. What a statement wrote to \<open>*out\<close> before it failed is not kept.
\<close>

section \<open>What an executor runs on\<close>

record 's QLTarget =
  t_table_def :: "bytes \<Rightarrow> ('s, TableDef) qstep"
  t_scan :: "bytes \<Rightarrow> Scanner \<Rightarrow> ('s, Scanner) qstep"
  t_next :: "'s \<Rightarrow> Scanner \<Rightarrow> Scanner res"
  t_deref :: "'s \<Rightarrow> Scanner \<Rightarrow> Record res"

definition on_reader :: "DB \<Rightarrow> DBReader QLTarget" where
  "on_reader db = \<lparr>t_table_def = DBReader_table_def db, t_scan = DBReader_scan db,
     t_next = (\<lambda>tx. Scanner_next (MappedPages (db_file db)) (reader_of db tx)),
     t_deref = (\<lambda>tx. Scanner_deref (MappedPages (db_file db)) (tree_root (reader_of db tx)) (reader_of db tx))\<rparr>"

definition on_tx :: "bytes \<Rightarrow> session QLTarget" where
  "on_tx file = \<lparr>t_table_def = DBTX_table_def file, t_scan = DBTX_scan file,
     t_next = (\<lambda>(tx, cat). Scanner_next (KVTX_Pages file) (dt_tx tx)),
     t_deref = (\<lambda>(tx, cat). Scanner_deref (KVTX_Pages file) (tree_root (dt_tx tx)) (dt_tx tx))\<rparr>"

section \<open>Scans\<close>

text \<open>Whether the filter keeps a row.\<close>

definition row_kept :: "QLNode \<Rightarrow> Record \<Rightarrow> bool ql" where
  "row_kept cond rec =
     (if q_type cond = QL_UNINIT then qret True else
      qbind (ql_eval cond rec) (\<lambda>keep.
      if vtype keep \<noteq> INT_64 then qerr (str ''WHERE is not a boolean'') else qret (int64 keep \<noteq> 0)))"

text \<open>The loop of \<open>scan_rows\<close>, at most \<open>fuel\<close> rows long.\<close>

fun scan_loop :: "nat \<Rightarrow> 's QLTarget \<Rightarrow> 's \<Rightarrow> QLScan \<Rightarrow> Scanner \<Rightarrow> int \<Rightarrow> int \<Rightarrow> Record list ql" where
  "scan_loop 0 t s req sc skipped taken = Inl Diverges"
| "scan_loop (Suc fuel) t s req sc skipped taken =
     rbind (Scanner_valid sc) (\<lambda>v. if \<not> v then qret [] else
     rbind (t_deref t s sc) (\<lambda>rec.
     qbind (row_kept (sc_filter req) rec) (\<lambda>keep.
     if \<not> keep then rbind (t_next t s sc) (\<lambda>sc. scan_loop fuel t s req sc skipped taken)
     else if skipped < sc_offset req then rbind (t_next t s sc) (\<lambda>sc. scan_loop fuel t s req sc (skipped + 1) taken)
     else if sc_limit req \<ge> 0 \<and> taken \<ge> sc_limit req then qret []
     else
       rbind (t_next t s sc) (\<lambda>sc.
       qbind (scan_loop fuel t s req sc skipped (taken + 1)) (\<lambda>rest. qret (rec # rest))))))"

definition scan_rows :: "nat \<Rightarrow> 's QLTarget \<Rightarrow> QLScan \<Rightarrow> ('s, Record list) qstep" where
  "scan_rows fuel t req =
     (if q_type (sc_key1 req) \<noteq> QL_UNINIT \<or> q_type (sc_key2 req) \<noteq> QL_UNINIT
      then serr (str ''INDEX BY is not supported; this query language filters with WHERE'')
      else
        sbind (t_table_def t (sc_table req)) (\<lambda>tdef s.
        rbind (ql_range (sc_filter req) tdef) (\<lambda>range.
        sbind (t_scan t (sc_table req) (Scanner_new (r_cmp1 range) (r_cmp2 range) (r_key1 range) (r_key2 range)))
          (\<lambda>sc s. slift (scan_loop fuel t s req sc 0 0) s) s)))"

definition ql_scan :: "bytes \<Rightarrow> nat \<Rightarrow> QLScan \<Rightarrow> (session, Record list) qstep" where
  "ql_scan file fuel req = scan_rows fuel (on_tx file) req"

definition ql_scan_reader :: "DB \<Rightarrow> nat \<Rightarrow> QLScan \<Rightarrow> (DBReader, Record list) qstep" where
  "ql_scan_reader db fuel req = scan_rows fuel (on_reader db) req"

section \<open>SELECT\<close>

text \<open>One output record: the expressions \<open>exprs\<close> with their \<open>names\<close>, a star for all columns.\<close>

fun output_row :: "Record \<Rightarrow> QLNode list \<Rightarrow> bytes list \<Rightarrow> Record \<Rightarrow> Record ql" where
  "output_row row [] names orec = qret orec"
| "output_row row (e # es) names orec =
     (if q_type e = QL_STAR then
        output_row row es (drop 1 names)
          (orec\<lparr>rec_cols := rec_cols orec @ rec_cols row, rec_vals := rec_vals orec @ rec_vals row\<rparr>)
      else
        qbind (ql_eval e row) (\<lambda>v.
        case names of
          [] \<Rightarrow> Inl Bad_access
        | n # ns \<Rightarrow> output_row row es ns (push_col orec n v)))"

fun output_rows :: "QLSelect \<Rightarrow> Record list \<Rightarrow> Record list ql" where
  "output_rows req [] = qret []"
| "output_rows req (row # rows) =
     qbind (output_row row (sel_output req) (sel_names req) empty_Record) (\<lambda>orec.
     qbind (output_rows req rows) (\<lambda>out. qret (orec # out)))"

definition select_rows :: "nat \<Rightarrow> 's QLTarget \<Rightarrow> QLSelect \<Rightarrow> ('s, Record list) qstep" where
  "select_rows fuel t req = sbind (scan_rows fuel t (sel_scan req)) (\<lambda>rows. slift (output_rows req rows))"

definition ql_select :: "bytes \<Rightarrow> nat \<Rightarrow> QLSelect \<Rightarrow> (session, Record list) qstep" where
  "ql_select file fuel req = select_rows fuel (on_tx file) req"

definition ql_select_reader :: "DB \<Rightarrow> nat \<Rightarrow> QLSelect \<Rightarrow> (DBReader, Record list) qstep" where
  "ql_select_reader db fuel req = select_rows fuel (on_reader db) req"

section \<open>CREATE TABLE and INSERT\<close>

definition ql_create_table :: "bytes \<Rightarrow> QLCreateTable \<Rightarrow> (session, unit) qstep" where
  "ql_create_table file req = DBTX_table_new file (qc_def req)"

text \<open>Expressions without a row in scope become the record to insert.\<close>

fun insert_record :: "QLNode list \<Rightarrow> bytes list \<Rightarrow> Record \<Rightarrow> Record ql" where
  "insert_record [] names rec = qret rec"
| "insert_record (e # es) names rec =
     qbind (ql_eval e empty_Record) (\<lambda>v.
     case names of [] \<Rightarrow> Inl Bad_access | n # ns \<Rightarrow> insert_record es ns (push_col rec n v))"

definition write_row :: "bytes \<Rightarrow> UpdateMode \<Rightarrow> bytes \<Rightarrow> Record \<Rightarrow> (session, unit) qstep" where
  "write_row file mode table rec =
     (case mode of
        INSERT_ONLY \<Rightarrow> DBTX_insert file table rec
      | UPDATE_ONLY \<Rightarrow> DBTX_update file table rec
      | UPSERT \<Rightarrow> DBTX_upsert file table rec)"

fun insert_rows :: "bytes \<Rightarrow> QLInsert \<Rightarrow> QLNode list list \<Rightarrow> u64 \<Rightarrow> (session, u64) qstep" where
  "insert_rows file req [] count = sret count"
| "insert_rows file req (vals # rest) count =
     (if length vals \<noteq> length (qi_names req) then
        serr (str ''row has '' @ show_nat (length vals) @ str '' values but ''
              @ show_nat (length (qi_names req)) @ str '' columns were named'')
      else
        sbind (slift (insert_record vals (qi_names req) empty_Record)) (\<lambda>rec.
        sbind (write_row file (qi_mode req) (qi_table req) rec) (\<lambda>_.
        insert_rows file req rest (count + 1))))"

definition ql_insert :: "bytes \<Rightarrow> QLInsert \<Rightarrow> (session, u64) qstep" where
  "ql_insert file req = insert_rows file req (qi_values req) 0"

section \<open>UPDATE\<close>

fun check_assigned :: "TableDef \<Rightarrow> bytes list \<Rightarrow> unit ql" where
  "check_assigned tdef [] = qret ()"
| "check_assigned tdef (c # cs) =
     (let at = col_index tdef c in
      if at < 0 then qerr (str ''unknown column: '' @ c)
      else if at < pkeys tdef then qerr (str ''cannot update a primary key column: '' @ c)
      else check_assigned tdef cs)"

fun eval_all :: "QLNode list \<Rightarrow> Record \<Rightarrow> Value list ql" where
  "eval_all [] row = qret []"
| "eval_all (e # es) row = qbind (ql_eval e row) (\<lambda>v. qbind (eval_all es row) (\<lambda>vs. qret (v # vs)))"

text \<open>The inner loop: the first column of that name gets the value.\<close>

fun set_first :: "bytes list \<Rightarrow> Value list \<Rightarrow> bytes \<Rightarrow> Value \<Rightarrow> Value list" where
  "set_first (c # cs) (v # vs) name x = (if c = name then x # vs else v # set_first cs vs name x)"
| "set_first _ vs name x = vs"

fun assign :: "Record \<Rightarrow> bytes list \<Rightarrow> Value list \<Rightarrow> Record res" where
  "assign row [] vals = Inr row"
| "assign row (n # ns) vals =
     (if n \<notin> set (rec_cols row) then assign row ns (drop 1 vals)
      else case vals of
        [] \<Rightarrow> Inl Bad_access
      | v # vs \<Rightarrow> assign (row\<lparr>rec_vals := set_first (rec_cols row) (rec_vals row) n v\<rparr>) ns vs)"

fun update_rows :: "bytes \<Rightarrow> QLUpdate \<Rightarrow> Record list \<Rightarrow> u64 \<Rightarrow> (session, u64) qstep" where
  "update_rows file req [] count = sret count"
| "update_rows file req (row # rows) count =
     sbind (slift (eval_all (qu_values req) row)) (\<lambda>vals s.
     rbind (assign row (qu_names req) vals) (\<lambda>row.
     sbind (DBTX_update file (sc_table (qu_scan req)) row) (\<lambda>_.
     update_rows file req rows (count + 1)) s))"

definition ql_update :: "bytes \<Rightarrow> nat \<Rightarrow> QLUpdate \<Rightarrow> (session, u64) qstep" where
  "ql_update file fuel req =
     sbind (DBTX_table_def file (sc_table (qu_scan req))) (\<lambda>tdef.
     sbind (slift (check_assigned tdef (qu_names req))) (\<lambda>_.
     sbind (scan_rows fuel (on_tx file) (qu_scan req)) (\<lambda>rows.
     update_rows file req rows 0)))"

section \<open>DELETE\<close>

fun primary_key :: "Record \<Rightarrow> bytes list \<Rightarrow> Record \<Rightarrow> Record ql" where
  "primary_key row [] out = qret out"
| "primary_key row (c # cs) out =
     (case Record_get row c of
        None \<Rightarrow> qerr (str ''row is missing primary key column: '' @ c)
      | Some v \<Rightarrow> primary_key row cs (push_col out c v))"

fun delete_rows :: "bytes \<Rightarrow> QLDelete \<Rightarrow> bytes list \<Rightarrow> Record list \<Rightarrow> u64 \<Rightarrow> (session, u64) qstep" where
  "delete_rows file req pk [] count = sret count"
| "delete_rows file req pk (row # rows) count =
     sbind (slift (primary_key row pk empty_Record)) (\<lambda>key.
     sbind (DBTX_del file (sc_table (qd_scan req)) key) (\<lambda>found.
     if \<not> found then serr [] else delete_rows file req pk rows (count + 1)))"

definition ql_delete :: "bytes \<Rightarrow> nat \<Rightarrow> QLDelete \<Rightarrow> (session, u64) qstep" where
  "ql_delete file fuel req =
     sbind (DBTX_table_def file (sc_table (qd_scan req))) (\<lambda>tdef s.
     if pkeys tdef < 0 \<or> nat (pkeys tdef) > length (tcols tdef) then Inl Bad_access else
     let pk = take (nat (pkeys tdef)) (tcols tdef) in
     sbind (scan_rows fuel (on_tx file) (qd_scan req)) (\<lambda>rows. delete_rows file req pk rows 0) s)"

section \<open>Statements\<close>

record QLResult =
  qr_rows :: "Record list"
  qr_count :: u64

definition result_rows :: "Record list \<Rightarrow> QLResult" where
  "result_rows rows = \<lparr>qr_rows = rows, qr_count = 0\<rparr>"

definition result_count :: "u64 \<Rightarrow> QLResult" where
  "result_count n = \<lparr>qr_rows = [], qr_count = n\<rparr>"

definition ql_exec :: "bytes \<Rightarrow> nat \<Rightarrow> QLStatement \<Rightarrow> (session, QLResult) qstep" where
  "ql_exec file fuel stmt =
     (case stmt of
        Create_Table s \<Rightarrow> sbind (ql_create_table file s) (\<lambda>_. sret (result_rows []))
      | Select s \<Rightarrow> sbind (ql_select file fuel s) (\<lambda>rows. sret (result_rows rows))
      | Insert s \<Rightarrow> sbind (ql_insert file s) (\<lambda>n. sret (result_count n))
      | Update s \<Rightarrow> sbind (ql_update file fuel s) (\<lambda>n. sret (result_count n))
      | Delete s \<Rightarrow> sbind (ql_delete file fuel s) (\<lambda>n. sret (result_count n)))"

definition ql_exec_reader :: "DB \<Rightarrow> nat \<Rightarrow> QLStatement \<Rightarrow> (DBReader, QLResult) qstep" where
  "ql_exec_reader db fuel stmt =
     (case stmt of
        Select s \<Rightarrow> sbind (ql_select_reader db fuel s) (\<lambda>rows. sret (result_rows rows))
      | _ \<Rightarrow> serr (str ''only SELECT can run on a reader; this statement needs a write transaction''))"

text \<open>\<open>parse\<close> stands for \<open>parse_statement\<close>, which bison and flex generate.\<close>

definition ql_run :: "(bytes \<Rightarrow> QLStatement ql) \<Rightarrow> bytes \<Rightarrow> nat \<Rightarrow> bytes \<Rightarrow> (session, QLResult) qstep" where
  "ql_run parse file fuel sql = sbind (slift (parse sql)) (ql_exec file fuel)"

definition ql_run_reader :: "(bytes \<Rightarrow> QLStatement ql) \<Rightarrow> DB \<Rightarrow> nat \<Rightarrow> bytes \<Rightarrow> (DBReader, QLResult) qstep" where
  "ql_run_reader parse db fuel sql = sbind (slift (parse sql)) (ql_exec_reader db fuel)"

end
