(* ===== verification/Range_Mismatch.thy ===== *)
theory Range_Mismatch
  imports QL_Exec QL_Range_Spec
begin

text \<open>
  A scan chosen by \<open>ql_range\<close> that \<open>db_scan\<close> rejects. The range is built for the index that fits the
  filter best, but \<open>find_index\<close> takes the index from the columns of the first key alone. With equality on
  \<open>customer\<close> and only an upper bound on \<open>day\<close>, that key is just \<open>customer\<close>, for which the shorter index
  wins, and the second key does not fit it.
\<close>

definition orders :: TableDef where
  "orders = add_index (add_index (set_pkeys (add_col (add_col (add_col (add_col (TableDefBuilder (str ''orders''))
     (str ''id'') INT_64) (str ''customer'') INT_64) (str ''day'') INT_64) (str ''note'') BYTES) 1)
     [str ''customer'']) [str ''customer'', str ''day'']"

text \<open>As the catalog stores it: the indexes with the primary key appended, and the prefixes.\<close>

definition stored_orders :: TableDef where
  "stored_orders = orders\<lparr>indexes := [[str ''customer'', str ''id''], [str ''customer'', str ''day'', str ''id'']],
     prefix := 3, index_prefixes := [4, 5]\<rparr>"

definition orders_filter :: QLNode where
  "orders_filter = ql_binop QL_AND (ql_binop QL_CMP_EQ (ql_sym (str ''customer'')) (ql_int64 7))
     (ql_binop QL_CMP_LT (ql_sym (str ''day'')) (ql_int64 30))"

definition orders_range :: QLRange where
  "orders_range = \<lparr>r_cmp1 = CMP_GE, r_cmp2 = CMP_LT,
     r_key1 = \<lparr>rec_cols = [str ''customer''], rec_vals = [make_int64 7]\<rparr>,
     r_key2 = \<lparr>rec_cols = [str ''customer'', str ''day''], rec_vals = [make_int64 7, make_int64 30]\<rparr>\<rparr>"

lemma orders_fields:
  "tcols stored_orders = [str ''id'', str ''customer'', str ''day'', str ''note'']"
  "types stored_orders = [INT_64, INT_64, INT_64, BYTES]" "pkeys stored_orders = 1"
  "indexes stored_orders = [[str ''customer'', str ''id''], [str ''customer'', str ''day'', str ''id'']]"
  "index_prefixes stored_orders = [4, 5]"
  by (simp_all add: stored_orders_def orders_def builder_defs)

lemma orders_checked: "table_def_check orders = Inr (orders\<lparr>indexes := indexes stored_orders\<rparr>)"
  by (simp add: table_def_check_def orders_def stored_orders_def builder_defs str_def check_index_keys_def Let_def
      col_index_def contains_def)

lemma names_differ [simp]:
  "str ''id'' \<noteq> str ''customer''" "str ''customer'' \<noteq> str ''id''" "str ''day'' \<noteq> str ''customer''"
  "str ''customer'' \<noteq> str ''day''" "str ''id'' \<noteq> str ''day''" "str ''day'' \<noteq> str ''id''"
  by (simp_all add: str_def)

lemma orders_bounds:
  "collect orders_filter stored_orders [] = Inr
     [(str ''customer'', empty_ColBound\<lparr>has_eq := True, cb_eq := make_int64 7\<rparr>),
      (str ''day'', empty_ColBound\<lparr>has_hi := True, hi_open := True, cb_hi := make_int64 30\<rparr>)]"
proof -
  have less: "str ''customer'' < str ''day''" "\<not> str ''day'' < str ''customer''"
    by (simp_all add: str_def word_less_nat_alt)
  show ?thesis
    by (simp add: orders_filter_def ql_defs collect.simps is_comparison_def collect_cmp_def col_index_def orders_fields
        ql_eval.simps qret_def add_bound_def less empty_ColBound_def Let_def)
qed

lemma orders_narrowed: "ql_range orders_filter stored_orders = Inr orders_range"
  by (simp add: ql_range_def orders_bounds orders_fields fit_cols_def score_def empty_ColBound_def push_range_def
      bounds_at_def full_range_def push_col_def empty_Record_def orders_range_def)
    (simp add: orders_filter_def ql_defs)

lemma orders_index: "find_index stored_orders [str ''customer''] = Inr 0"
  by (simp add: find_index_def is_prefix_def orders_fields)

text \<open>
  C22: some filters make a SELECT fail. \<open>orders\<close> is a table that validation accepts, and the filter
  \<open>customer = 7 AND day < 30\<close> is well-formed and typed; yet on every store, whatever it holds, the scan
  over the range that \<open>ql_range\<close> computes for it is rejected with an error about the range keys, which the
  statement then reports.
\<close>

theorem ql_range_index_mismatch:
  "table_def_check orders = Inr (orders\<lparr>indexes := indexes stored_orders\<rparr>)
    \<and> ql_wf orders_filter \<and> known_cols stored_orders (tcols stored_orders)
    \<and> (\<exists>r. ql_range orders_filter stored_orders = Inr r
        \<and> scan_of pm root s stored_orders (Scanner_new (r_cmp1 r) (r_cmp2 r) (r_key1 r) (r_key2 r))
           = qerr (str ''range key columns must be a prefix of the scanned index''))"
proof -
  have "ql_wf orders_filter" "known_cols stored_orders (tcols stored_orders)"
    by (simp_all add: orders_filter_def ql_defs known_cols_def orders_fields)
  moreover have "scan_of pm root s stored_orders (Scanner_new (r_cmp1 orders_range) (r_cmp2 orders_range)
      (r_key1 orders_range) (r_key2 orders_range)) = qerr (str ''range key columns must be a prefix of the scanned index'')"
    by (simp add: scan_of_def db_scan_def scan_setup_def Scanner_new_def orders_range_def orders_index check_bound_def
        is_prefix_def orders_fields col_index_def qerr_def qret_def)
  ultimately show ?thesis
    using orders_checked orders_narrowed by blast
qed

end
