(* ===== verification/Table_Model.thy ===== *)
theory Table_Model
  imports Table_Access
begin

text \<open>
  What the pairs of a store say about a table: its rows, each a list of values in column order, stored
  under the table's prefix, with one entry per row under the prefix of every index. The lemmas are
  about the keys of rows and the records the code builds from them.
\<close>

section \<open>Schemas\<close>

definition schema_ok :: "TableDef \<Rightarrow> bool" where
  "schema_ok tdef \<longleftrightarrow> checked_def tdef \<and> ERROR \<notin> set (types tdef) \<and> distinct (tcols tdef) \<and> pkeys tdef < 2 ^ 31
     \<and> length (index_prefixes tdef) = length (indexes tdef) \<and> distinct (prefix tdef # index_prefixes tdef)"

lemma schema_okD:
  assumes "schema_ok tdef"
  shows "checked_def tdef" "ERROR \<notin> set (types tdef)" "distinct (tcols tdef)" "pkeys tdef < 2 ^ 31"
    "length (index_prefixes tdef) = length (indexes tdef)" "distinct (prefix tdef # index_prefixes tdef)"
    "length (types tdef) = length (tcols tdef)" "0 < pkeys tdef" "nat (pkeys tdef) \<le> length (tcols tdef)"
    "\<not> pkeys tdef < 0"
  using assms by (auto simp: schema_ok_def checked_def_def)

lemma schema_index:
  assumes "schema_ok tdef" and "ix \<in> set (indexes tdef)"
  shows "set (pk_cols tdef) \<subseteq> set ix" "set ix \<subseteq> set (tcols tdef)" "distinct ix"
  using assms unfolding schema_ok_def checked_def_def by blast+

lemma schema_known:
  assumes "schema_ok tdef" and "set cols \<subseteq> set (tcols tdef)"
  shows "known_cols tdef cols"
  using assms schema_okD [OF assms(1)] by (simp add: known_cols_def)

lemma pk_cols_sub: "set (pk_cols tdef) \<subseteq> set (tcols tdef)"
  by (simp add: pk_cols_def set_take_subset)

section \<open>Rows\<close>

text \<open>A value as decoding builds it: the unused field keeps its default.\<close>

definition canonical :: "Value \<Rightarrow> Value" where
  "canonical v = fill_slot (default_Value\<lparr>vtype := vtype v\<rparr>) v"

definition typed_vals :: "TableDef \<Rightarrow> Value list \<Rightarrow> bool" where
  "typed_vals tdef vs \<longleftrightarrow> map vtype vs = types tdef \<and> map canonical vs = vs"

definition row_rec :: "TableDef \<Rightarrow> Value list \<Rightarrow> Record" where
  "row_rec tdef vs = \<lparr>rec_cols = tcols tdef, rec_vals = vs\<rparr>"

definition field :: "TableDef \<Rightarrow> Value list \<Rightarrow> bytes \<Rightarrow> Value" where
  "field tdef vs c = the (Record_get (row_rec tdef vs) c)"

definition pk_vals :: "TableDef \<Rightarrow> Value list \<Rightarrow> Value list" where
  "pk_vals tdef vs = take (nat (pkeys tdef)) vs"

text \<open>The key under a prefix, and what is stored for a row.\<close>

definition key_of :: "u32 \<Rightarrow> Value list \<Rightarrow> bytes" where
  "key_of p vs = be_bytes 4 (unat p) @ concat (map value_bytes vs)"

definition pk_key :: "TableDef \<Rightarrow> Value list \<Rightarrow> bytes" where
  "pk_key tdef vs = key_of (prefix tdef) (pk_vals tdef vs)"

definition row_val :: "TableDef \<Rightarrow> Value list \<Rightarrow> bytes" where
  "row_val tdef vs = concat (map value_bytes (drop (nat (pkeys tdef)) vs))"

definition ix_key :: "TableDef \<Rightarrow> Value list \<Rightarrow> bytes list \<times> u32 \<Rightarrow> bytes" where
  "ix_key tdef vs ix = key_of (snd ix) (map (field tdef vs) (fst ix))"

definition index_list :: "TableDef \<Rightarrow> (bytes list \<times> u32) list" where
  "index_list tdef = zip (indexes tdef) (index_prefixes tdef)"

definition under :: "u32 \<Rightarrow> bytes \<Rightarrow> bool" where
  "under p k \<longleftrightarrow> take 4 k = be_bytes 4 (unat p)"

definition table_at :: "TableDef \<Rightarrow> (bytes \<rightharpoonup> bytes) \<Rightarrow> Value list set \<Rightarrow> bool" where
  "table_at tdef m R \<longleftrightarrow>
     (\<forall>vs\<in>R. typed_vals tdef vs) \<and> inj_on (pk_vals tdef) R
     \<and> (\<forall>k v. under (prefix tdef) k \<longrightarrow> m k = Some v \<longleftrightarrow> (\<exists>vs\<in>R. k = pk_key tdef vs \<and> v = row_val tdef vs))
     \<and> (\<forall>ix\<in>set (index_list tdef). \<forall>k v. under (snd ix) k \<longrightarrow>
          m k = Some v \<longleftrightarrow> (\<exists>vs\<in>R. k = ix_key tdef vs ix \<and> v = []))"

section \<open>Keys\<close>

lemma under_key_of [simp]: "under p (key_of q vs) \<longleftrightarrow> p = q"
proof -
  have "be_bytes 4 (unat q) = be_bytes 4 (unat p) \<longleftrightarrow> p = q"
    using u32_bytes_less [of p q] u32_bytes_less [of q p] by (metis less_irrefl linorder_neqE)
  then show ?thesis
    by (simp add: under_def key_of_def)
qed

lemma under_pk_key [simp]: "under p (pk_key tdef vs) \<longleftrightarrow> p = prefix tdef"
  by (simp add: pk_key_def)

lemma under_ix_key [simp]: "under p (ix_key tdef vs ix) \<longleftrightarrow> p = snd ix"
  by (simp add: ix_key_def)

lemma encode_key_of: "ERROR \<notin> vtype ` set vs \<Longrightarrow> encode_key p vs = Inr (key_of p vs)"
  by (simp add: encode_key_iff key_of_def)

lemma Value_eq_canonical: "Value_eq v w \<Longrightarrow> canonical v = v \<Longrightarrow> canonical w = w \<Longrightarrow> v = w"
  by (cases v; cases w; cases "vtype v")
    (auto simp: Value_eq_def canonical_def fill_slot_def default_Value_def split: ValueType.splits if_splits)

lemma all_Value_eq_canonical:
  "list_all2 Value_eq vs ws \<Longrightarrow> map canonical vs = vs \<Longrightarrow> map canonical ws = ws \<Longrightarrow> vs = ws"
  by (induction rule: list_all2_induct) (auto dest: Value_eq_canonical)

lemma canonical_facts [simp]:
  "vtype (canonical v) = vtype v" "canonical (canonical v) = canonical v" "value_bytes (canonical v) = value_bytes v"
  "Value_eq (canonical v) v"
  by (cases "vtype v"; simp add: canonical_def fill_slot_def default_Value_def value_bytes_def Value_eq_def)+

lemma key_of_inj:
  assumes "map vtype vs = map vtype ws" and "ERROR \<notin> vtype ` set vs" and "map canonical vs = vs" and "map canonical ws = ws"
  shows "key_of p vs = key_of p ws \<longleftrightarrow> vs = ws"
  using concat_value_bytes_eq_iff [OF assms(1,2), of "[]" "[]"] all_Value_eq_canonical [of vs ws] assms(3,4)
  by (auto simp: key_of_def)

lemma key_of_canonical: "key_of p (map canonical vs) = key_of p vs"
  by (simp add: key_of_def comp_def)

section \<open>Fields of a row\<close>

lemma typed_length: "schema_ok tdef \<Longrightarrow> typed_vals tdef vs \<Longrightarrow> length vs = length (tcols tdef)"
  using schema_okD(7) [of tdef] by (metis length_map typed_vals_def)

lemma typed_no_error:
  assumes "schema_ok tdef" and "typed_vals tdef vs"
  shows "ERROR \<notin> vtype ` set vs"
  using assms schema_okD(2) [OF assms(1)] by (metis list.set_map typed_vals_def)

lemma row_get_nth:
  assumes "schema_ok tdef" and "length vs = length (tcols tdef)" and "i < length vs"
  shows "Record_get (row_rec tdef vs) (tcols tdef ! i) = Some (vs ! i)"
proof -
  have "map_of (zip (tcols tdef) vs) (tcols tdef ! i) = Some (vs ! i)"
    using assms schema_okD(3) [OF assms(1)] by (intro map_of_zip_nth) auto
  then show ?thesis
    by (simp add: Record_get_def row_rec_def get_from_map_of)
qed

lemma field_nth:
  "schema_ok tdef \<Longrightarrow> length vs = length (tcols tdef) \<Longrightarrow> i < length vs \<Longrightarrow> field tdef vs (tcols tdef ! i) = vs ! i"
  by (simp add: field_def row_get_nth)

lemma row_get_field:
  assumes "schema_ok tdef" and "length vs = length (tcols tdef)" and "c \<in> set (tcols tdef)"
  shows "Record_get (row_rec tdef vs) c = Some (field tdef vs c)"
proof -
  obtain i where "i < length vs" "c = tcols tdef ! i"
    using assms(2,3) by (auto simp: in_set_conv_nth)
  then show ?thesis
    using row_get_nth [OF assms(1,2)] by (simp add: field_def)
qed

lemma get_all_fields:
  "(\<And>c. c \<in> set cols \<Longrightarrow> Record_get rec c = Some (f c)) \<Longrightarrow> get_all rec cols = Inr (map f cols)"
  by (induction cols) auto

lemma col_index_nth:
  assumes "schema_ok tdef" and "i < length (tcols tdef)"
  shows "col_index tdef (tcols tdef ! i) = int i"
proof -
  obtain j where j: "j < length (tcols tdef)" "col_index tdef (tcols tdef ! i) = int j" "tcols tdef ! j = tcols tdef ! i"
    using col_index_from_nth [of "tcols tdef ! i" "tcols tdef" 0] assms(2) by (auto simp: col_index_def)
  then show ?thesis
    using schema_okD(3) [OF assms(1)] assms(2) by (simp add: nth_eq_iff_index_eq)
qed

lemma field_type:
  assumes "schema_ok tdef" and "typed_vals tdef vs" and "c \<in> set (tcols tdef)"
  shows "vtype (field tdef vs c) = col_type tdef c" and "canonical (field tdef vs c) = field tdef vs c"
    and "col_type tdef c \<noteq> ERROR"
proof -
  note len = typed_length [OF assms(1,2)]
  obtain i where i: "i < length vs" "c = tcols tdef ! i"
    using assms(3) len by (auto simp: in_set_conv_nth)
  have f: "field tdef vs c = vs ! i"
    using field_nth [OF assms(1) len] i by simp
  have "vtype (vs ! i) = types tdef ! i" "canonical (vs ! i) = vs ! i"
    using assms(2) i(1) nth_map [of i vs vtype] nth_map [of i vs canonical] by (simp_all add: typed_vals_def)
  moreover have "col_type tdef c = types tdef ! i"
    using col_index_nth [OF assms(1)] i len by (simp add: col_type_def)
  ultimately show "vtype (field tdef vs c) = col_type tdef c" "canonical (field tdef vs c) = field tdef vs c"
    "col_type tdef c \<noteq> ERROR"
    using f typed_no_error [OF assms(1,2)] nth_mem [OF i(1)] by (auto simp: image_iff)
qed

text \<open>The values of some columns have the types of the columns and are canonical.\<close>

lemma fields_typed:
  assumes "schema_ok tdef" and "typed_vals tdef vs" and "set cols \<subseteq> set (tcols tdef)"
  shows "map vtype (map (field tdef vs) cols) = map (col_type tdef) cols"
    and "map canonical (map (field tdef vs) cols) = map (field tdef vs) cols"
    and "ERROR \<notin> vtype ` set (map (field tdef vs) cols)"
  using assms field_type [OF assms(1,2)] by (auto simp: subset_iff dest: sym)

lemma pk_vals_fields:
  assumes "schema_ok tdef" and "length vs = length (tcols tdef)"
  shows "pk_vals tdef vs = map (field tdef vs) (pk_cols tdef)"
proof (rule nth_equalityI)
  show "pk_vals tdef vs ! i = map (field tdef vs) (pk_cols tdef) ! i" if "i < length (pk_vals tdef vs)" for i
    using that assms field_nth [OF assms] by (simp add: pk_vals_def pk_cols_def)
qed (use assms in \<open>simp add: pk_vals_def pk_cols_def\<close>)

lemma row_eqI:
  assumes "schema_ok tdef" and "length vs = length (tcols tdef)" and "length ws = length (tcols tdef)"
    and "\<And>c. c \<in> set (tcols tdef) \<Longrightarrow> field tdef vs c = field tdef ws c"
  shows "vs = ws"
  using assms field_nth [OF assms(1)] by (intro nth_equalityI) (auto, metis nth_mem)

section \<open>Two rows with one key\<close>

lemma pk_key_inj:
  assumes "schema_ok tdef" and "typed_vals tdef vs" and "typed_vals tdef ws"
  shows "pk_key tdef vs = pk_key tdef ws \<longleftrightarrow> pk_vals tdef vs = pk_vals tdef ws"
proof -
  note l = typed_length [OF assms(1,2)] typed_length [OF assms(1,3)]
  note t = fields_typed [OF assms(1,2) pk_cols_sub] fields_typed [OF assms(1,3) pk_cols_sub]
  show ?thesis
    unfolding pk_key_def pk_vals_fields [OF assms(1) l(1)] pk_vals_fields [OF assms(1) l(2)]
    using t by (intro key_of_inj) simp_all
qed

lemma index_list_cols: "ix \<in> set (index_list tdef) \<Longrightarrow> fst ix \<in> set (indexes tdef)"
  by (cases ix) (auto simp: index_list_def dest: set_zip_leftD)

lemma ix_key_pk:
  assumes "schema_ok tdef" and "typed_vals tdef vs" and "typed_vals tdef ws" and "ix \<in> set (index_list tdef)"
    and "ix_key tdef vs ix = ix_key tdef ws ix"
  shows "pk_vals tdef vs = pk_vals tdef ws"
proof -
  note ix = index_list_cols [OF assms(4)]
  note l = typed_length [OF assms(1,2)] typed_length [OF assms(1,3)]
  note sub = schema_index [OF assms(1) ix]
  note t = fields_typed [OF assms(1,2) sub(2)] fields_typed [OF assms(1,3) sub(2)]
  have "map (field tdef vs) (fst ix) = map (field tdef ws) (fst ix)"
    using assms(5) key_of_inj [of "map (field tdef vs) (fst ix)" "map (field tdef ws) (fst ix)" "snd ix"] t
    by (simp add: ix_key_def)
  then have "\<forall>c\<in>set (pk_cols tdef). field tdef vs c = field tdef ws c"
    using sub(1) by (simp add: subset_iff)
  then show ?thesis
    unfolding pk_vals_fields [OF assms(1) l(1)] pk_vals_fields [OF assms(1) l(2)] by simp
qed

section \<open>What the code reads and writes\<close>

lemma decode_filled:
  assumes "ERROR \<notin> vtype ` set vs"
  shows "decode_values (concat (map value_bytes vs)) (map (\<lambda>v. default_Value\<lparr>vtype := vtype v\<rparr>) vs) = Inr (map canonical vs)"
proof -
  have "map2 fill_slot (map (\<lambda>v. default_Value\<lparr>vtype := vtype v\<rparr>) vs) vs = map canonical vs"
    by (induction vs) (simp_all add: canonical_def)
  then show ?thesis
    using decode_values_from_encoded [of "map (\<lambda>v. default_Value\<lparr>vtype := vtype v\<rparr>) vs" vs "[]" "[]"] assms
    by (simp add: decode_values_def comp_def)
qed

lemma decode_key_of:
  "ERROR \<notin> vtype ` set vs \<Longrightarrow>
    decode_key (key_of p vs) (map (\<lambda>v. default_Value\<lparr>vtype := vtype v\<rparr>) vs) = Inr (map canonical vs)"
  by (simp add: decode_key_def key_of_def KEY_PREFIX_SIZE_def decode_filled)

text \<open>\<open>decode_row\<close> reads a stored row back exactly.\<close>

lemma decode_stored_row:
  assumes "schema_ok tdef" and "typed_vals tdef vs"
  shows "decode_row tdef (pk_key tdef vs) (row_val tdef vs) = Inr (row_rec tdef vs)"
proof -
  note D = schema_okD [OF assms(1)]
  define k where "k = nat (pkeys tdef)"
  have k: "nat (pkeys tdef mod 2 ^ 64) = k"
    using D(4,8) by (simp add: k_def)
  have vt: "map vtype vs = types tdef" and can: "map canonical vs = vs"
    using assms(2) by (simp_all add: typed_vals_def)
  have type_at: "types tdef ! i = vtype (vs ! i)" if "i < length vs" for i
    using that vt nth_map [of i vs vtype] by simp
  have slots: "map (\<lambda>i. default_Value\<lparr>vtype := types tdef ! i\<rparr>) [a..<b] = map (\<lambda>v. default_Value\<lparr>vtype := vtype v\<rparr>) (drop a (take b vs))"
    if "b \<le> length vs" for a b
    using that type_at by (intro nth_equalityI) simp_all
  have no: "ERROR \<notin> vtype ` set (take k vs)" "ERROR \<notin> vtype ` set (drop k vs)"
    using typed_no_error [OF assms] set_take_subset [of k vs] set_drop_subset [of k vs] by blast+
  have l: "length vs = length (tcols tdef)" "k \<le> length vs"
    using typed_length [OF assms] D(9) by (simp_all add: k_def)
  have "map canonical (take k vs) = take k vs" "map canonical (drop k vs) = drop k vs"
    using can by (metis take_map, metis drop_map)
  then show ?thesis
    using decode_key_of [OF no(1), of "prefix tdef"] decode_filled [OF no(2)] slots [of k 0] slots [of "length vs" k] l D(7)
    unfolding decode_row_def k Let_def
    by (simp add: typed_slots_def pk_key_def pk_vals_def row_val_def row_rec_def k_def [symmetric])
qed

text \<open>A record that \<open>check_record\<close> accepts in full: its fields, and the row it stores.\<close>

lemma checked_record:
  assumes "schema_ok tdef" and "check_record tdef rec (int (length (tcols tdef))) = qret vs"
  shows "map vtype vs = types tdef" and "length vs = length (tcols tdef)" and "typed_vals tdef (map canonical vs)"
    and "c \<in> set (tcols tdef) \<Longrightarrow> Record_get rec c = Some (field tdef vs c)"
    and "c \<in> set (tcols tdef) \<Longrightarrow> canonical (field tdef vs c) = field tdef (map canonical vs) c"
    and "ERROR \<notin> vtype ` set vs"
proof -
  note D = schema_okD [OF assms(1)]
  have vs: "length vs = length (tcols tdef)"
      "\<And>i. i < length (tcols tdef) \<Longrightarrow> Record_get rec (tcols tdef ! i) = Some (vs ! i) \<and> vtype (vs ! i) = types tdef ! i"
    using check_record_ok [OF D(7), of "int (length (tcols tdef))" rec] assms(2) by (auto simp: qret_def)
  show t: "map vtype vs = types tdef"
    using vs D(7) by (intro nth_equalityI) simp_all
  then show "ERROR \<notin> vtype ` set vs"
    using D(2) by (metis list.set_map)
  show "length vs = length (tcols tdef)"
    by (rule vs(1))
  show "typed_vals tdef (map canonical vs)"
    using t by (simp add: typed_vals_def comp_def)
  show "Record_get rec c = Some (field tdef vs c)" "canonical (field tdef vs c) = field tdef (map canonical vs) c"
    if c: "c \<in> set (tcols tdef)"
  proof -
    obtain i where i: "i < length vs" "c = tcols tdef ! i"
      using c vs(1) by (auto simp: in_set_conv_nth)
    then show "Record_get rec c = Some (field tdef vs c)" "canonical (field tdef vs c) = field tdef (map canonical vs) c"
      using vs field_nth [OF assms(1), of vs i] field_nth [OF assms(1), of "map canonical vs" i] by simp_all
  qed
qed

lemma canonical_keys:
  assumes "schema_ok tdef" and "check_record tdef rec (int (length (tcols tdef))) = qret vs"
  shows "pk_key tdef (map canonical vs) = key_of (prefix tdef) (pk_vals tdef vs)"
    and "row_val tdef (map canonical vs) = concat (map value_bytes (drop (nat (pkeys tdef)) vs))"
    and "ix \<in> set (index_list tdef) \<Longrightarrow> ix_key tdef (map canonical vs) ix = ix_key tdef vs ix"
proof -
  show "pk_key tdef (map canonical vs) = key_of (prefix tdef) (pk_vals tdef vs)"
    by (simp add: pk_key_def pk_vals_def take_map key_of_canonical)
  show "row_val tdef (map canonical vs) = concat (map value_bytes (drop (nat (pkeys tdef)) vs))"
    by (simp add: row_val_def drop_map comp_def)
  assume "ix \<in> set (index_list tdef)"
  then have "set (fst ix) \<subseteq> set (tcols tdef)"
    using schema_index [OF assms(1) index_list_cols] by blast
  then have "map (field tdef (map canonical vs)) (fst ix) = map canonical (map (field tdef vs) (fst ix))"
    using checked_record(5) [OF assms] by (auto simp: subset_iff)
  then show "ix_key tdef (map canonical vs) ix = ix_key tdef vs ix"
    by (simp only: ix_key_def key_of_canonical)
qed

end
