(* ===== verification/Tx_Store.thy ===== *)
theory Tx_Store
  imports KVTX_Spec
begin

text \<open>
  The write transaction as the layers above use it: an interface of reads, sets and deletions on a map,
  with the number of writes there is certainly room for. The catalog and the row writers are verified
  against it.
\<close>

section \<open>Room for writes\<close>

text \<open>
  A write costs three page operations for each level of the tree and four at the root, and adds at most one
  level. So \<open>n\<close> writes to a tree of height \<open>h\<close> fit in a budget of \<open>n * (3 * (h + n) + 4)\<close>.
\<close>

definition room :: "bytes \<Rightarrow> nat \<Rightarrow> KVTX \<Rightarrow> bool" where
  "room file n tx \<longleftrightarrow> (\<exists>h. tall (tx_live file tx) (tree_root tx) h \<and> n * (3 * (h + n) + 4) \<le> tx_budget tx)"

lemma room_mono:
  assumes "room file n tx" and "k \<le> n"
  shows "room file k tx"
proof -
  obtain h where h: "tall (tx_live file tx) (tree_root tx) h" "n * (3 * (h + n) + 4) \<le> tx_budget tx"
    using assms(1) by (auto simp: room_def)
  have "k * (3 * (h + k) + 4) \<le> n * (3 * (h + n) + 4)"
    using assms(2) by (intro mult_le_mono) simp_all
  then show ?thesis
    using h unfolding room_def by (blast intro: le_trans)
qed

lemma room_first:
  assumes "room file (Suc n) tx"
  obtains h where "tall (tx_live file tx) (tree_root tx) h" and "3 * h + 4 \<le> tx_budget tx"
    and "\<And>tx' k. tall (tx_live file tx') (tree_root tx') k \<Longrightarrow> k \<le> Suc h \<Longrightarrow> tx_budget tx \<le> tx_budget tx' + (3 * h + 4) \<Longrightarrow> room file n tx'"
proof -
  obtain h where h: "tall (tx_live file tx) (tree_root tx) h" "Suc n * (3 * (h + Suc n) + 4) \<le> tx_budget tx"
    using assms by (auto simp: room_def)
  then have rest: "n * (3 * (Suc h + n) + 4) + (3 * h + 4) \<le> tx_budget tx"
    by (simp add: algebra_simps)
  show thesis
  proof (rule that [OF h(1)])
    show "3 * h + 4 \<le> tx_budget tx"
      using rest by simp
    show "room file n tx'" if "tall (tx_live file tx') (tree_root tx') k" "k \<le> Suc h" "tx_budget tx \<le> tx_budget tx' + (3 * h + 4)" for tx' k
      using rest that(3) tall_mono [OF that(1,2)] unfolding room_def by (intro exI [of _ "Suc h"]) linarith
  qed
qed

text \<open>
  What room amounts to. The height is at most the number of pages in use, so in a database of up to \<open>2 ^ 24\<close>
  pages that has half of its budget left there is room for a million writes.
\<close>

lemma room_pages:
  assumes "tx_holds file tx m" and "n * (3 * (card (dom (tx_live file tx)) + n) + 4) \<le> tx_budget tx"
  shows "room file n tx"
  using assms tall_pages unfolding room_def tx_holds_def by blast

lemma room_large:
  assumes "tx_holds file tx m" and "card (dom (tx_live file tx)) \<le> 2 ^ 24" and "2 ^ 49 \<le> tx_budget tx"
  shows "room file (2 ^ 20) tx"
proof (rule room_pages [OF assms(1)])
  have "2 ^ 20 * (3 * (card (dom (tx_live file tx)) + 2 ^ 20) + 4) \<le> (2 ^ 49 :: nat)"
    using assms(2) by simp
  then show "2 ^ 20 * (3 * (card (dom (tx_live file tx)) + 2 ^ 20) + 4) \<le> tx_budget tx"
    using assms(3) by linarith
qed

section \<open>The interface\<close>

locale tx_store =
  fixes "file" :: bytes
    and ok :: "nat \<Rightarrow> KVTX \<Rightarrow> (bytes \<rightharpoonup> bytes) \<Rightarrow> bool"
  assumes get_ok: "ok n tx m \<Longrightarrow> valid_key key \<Longrightarrow> KVTX_get file tx key = Inr (m key)"
    and set_ok: "ok (Suc n) tx m \<Longrightarrow> valid_key key \<Longrightarrow> length val \<le> BTREE_MAX_VAL_SIZE \<Longrightarrow>
      \<exists>tx'. KVTX_set file tx key val = Inr tx' \<and> ok n tx' (m(key \<mapsto> val))"
    and del_ok: "ok (Suc n) tx m \<Longrightarrow> valid_key key \<Longrightarrow> m key \<noteq> None \<Longrightarrow>
      roomy (tx_live file tx) (tree_root tx) key \<Longrightarrow> \<exists>tx'. KVTX_del file tx key = Inr (True, tx') \<and> ok n tx' (m(key := None))"
    and fewer: "ok n tx m \<Longrightarrow> k \<le> n \<Longrightarrow> ok k tx m"
    and keys_valid: "ok n tx m \<Longrightarrow> m key \<noteq> None \<Longrightarrow> valid_key key"
    and holds: "ok n tx m \<Longrightarrow> tx_holds file tx m"
    and short_room: "ok n tx m \<Longrightarrow> short_successor key m \<Longrightarrow> roomy (tx_live file tx) (tree_root tx) key"
begin

lemma update_ok:
  assumes "ok (Suc n) tx m" and "valid_key (ins_key req)" and "length (ins_val req) \<le> BTREE_MAX_VAL_SIZE"
    and "ins_mode req = INSERT_ONLY \<longrightarrow> m (ins_key req) = None" and "ins_mode req = UPDATE_ONLY \<longrightarrow> m (ins_key req) \<noteq> None"
  obtains tx' where "KVTX_update file tx req = Inr (True, req\<lparr>ins_added := (m (ins_key req) = None),
      ins_old := (case m (ins_key req) of Some v \<Rightarrow> v | None \<Rightarrow> [])\<rparr>, tx')" and "ok n tx' (m(ins_key req \<mapsto> ins_val req))"
    and "KVTX_set file tx (ins_key req) (ins_val req) = Inr tx'"
proof -
  obtain tx' where "KVTX_set file tx (ins_key req) (ins_val req) = Inr tx'" "ok n tx' (m(ins_key req \<mapsto> ins_val req))"
    using set_ok [OF assms(1-3)] by blast
  then show thesis
    using that [of tx'] get_ok [OF assms(1,2)] assms(4,5) unfolding KVTX_update_def
    by (cases "ins_mode req"; cases "m (ins_key req)") auto
qed

lemma update_refused:
  assumes "ok n tx m" and "valid_key (ins_key req)"
    and "ins_mode req = INSERT_ONLY \<and> m (ins_key req) \<noteq> None \<or> ins_mode req = UPDATE_ONLY \<and> m (ins_key req) = None"
  shows "KVTX_update file tx req = Inr (False, req\<lparr>ins_added := (m (ins_key req) = None),
      ins_old := (case m (ins_key req) of Some v \<Rightarrow> v | None \<Rightarrow> [])\<rparr>, tx)"
  using get_ok [OF assms(1,2)] assms(3) unfolding KVTX_update_def by auto

lemma del_req_ok:
  assumes "ok (Suc n) tx m" and "m (del_key req) = Some v"
    and "roomy (tx_live file tx) (tree_root tx) (del_key req)"
  obtains tx' where "KVTX_del_req file tx req = Inr (True, req\<lparr>del_old := v\<rparr>, tx')" and "ok n tx' (m(del_key req := None))"
    and "KVTX_del file tx (del_key req) = Inr (True, tx')"
proof -
  have valid: "valid_key (del_key req)"
    using keys_valid [OF assms(1)] assms(2) by simp
  obtain tx' where "KVTX_del file tx (del_key req) = Inr (True, tx')" "ok n tx' (m(del_key req := None))"
    using del_ok [OF assms(1) valid _ assms(3)] assms(2) by auto
  then show thesis
    using that [of tx'] get_ok [OF assms(1) valid] assms(2) by (simp add: KVTX_del_req_def)
qed

lemma del_req_absent:
  assumes "ok n tx m" and "valid_key (del_key req)" and "m (del_key req) = None"
  shows "KVTX_del_req file tx req = Inr (False, req, tx)"
  using get_ok [OF assms(1,2)] assms(3) by (simp add: KVTX_del_req_def)

end

section \<open>Every transaction provides it\<close>

lemma stored_keys: "stored P t \<Longrightarrow> node_of d t \<Longrightarrow> x \<in> set (kvs t) \<Longrightarrow> length (fst x) \<le> BTREE_MAX_KEY_SIZE"
proof (induction t arbitrary: d)
  case (Leaf xs)
  then show ?case
    by (auto simp: node_of_def node_is_def node_building_def list_all_iff ent_ok_def kv_ent_def)
next
  case (Node cs)
  then obtain y where y: "y \<in> set cs" "x \<in> set (kvs (kid y))"
    by auto
  then obtain d' where "node_of d' (kid y)" "stored P (kid y)"
    using Node.prems(1) by (auto simp: page_of_def)
  then show ?case
    using Node.IH y by (cases y) fastforce
qed

lemma represents_valid:
  assumes "represents P root m" and "m key \<noteq> None"
  shows "valid_key key"
proof -
  obtain t d where t: "m = tree_map t" "stored P t" "node_of d t"
    using assms by (auto simp: represents_def tree_at_def page_of_def)
  then have "key \<noteq> []" "\<exists>v. (key, v) \<in> set (kvs t)"
    using assms(2) by (auto simp: tree_map_def dest: map_of_SomeD split: if_splits)
  then show ?thesis
    using stored_keys [OF t(2,3)] by (auto simp: valid_key_def)
qed

lemma holds_valid: "tx_holds file tx m \<Longrightarrow> m key \<noteq> None \<Longrightarrow> valid_key key"
  by (rule represents_valid [OF btree_represents, of "tx_live file tx" "tree_root tx" m]) (simp_all add: tx_holds_def)

text \<open>A write, with the room and the history of the transaction.\<close>

lemma set_room:
  assumes "tx_holds file tx m" and "room file (Suc n) tx" and "valid_key key" and "length val \<le> BTREE_MAX_VAL_SIZE"
  shows "\<exists>tx'. KVTX_set file tx key val = Inr tx' \<and> tx_holds file tx' (m(key \<mapsto> val)) \<and> room file n tx'
    \<and> (\<forall>tx0. tx_since file tx0 tx \<longrightarrow> tx_since file tx0 tx')"
proof -
  obtain h where h: "tall (tx_live file tx) (tree_root tx) h" "3 * h + 4 \<le> tx_budget tx"
    and rest: "\<And>tx' k. tall (tx_live file tx') (tree_root tx') k \<Longrightarrow> k \<le> Suc h \<Longrightarrow> tx_budget tx \<le> tx_budget tx' + (3 * h + 4) \<Longrightarrow> room file n tx'"
    by (rule room_first [OF assms(2)]) blast
  from set_holds_tall [OF assms(1,3,4) h] show ?thesis
    using rest by blast
qed

lemma del_room_left:
  assumes "tx_holds file tx m" and "room file (Suc n) tx" and "valid_key key" and "m key \<noteq> None"
    and "roomy (tx_live file tx) (tree_root tx) key"
  shows "\<exists>tx'. KVTX_del file tx key = Inr (True, tx') \<and> tx_holds file tx' (m(key := None)) \<and> room file n tx'
    \<and> (\<forall>tx0. tx_since file tx0 tx \<longrightarrow> tx_since file tx0 tx')"
proof -
  obtain h where h: "tall (tx_live file tx) (tree_root tx) h" "3 * h + 4 \<le> tx_budget tx"
    and rest: "\<And>tx' k. tall (tx_live file tx') (tree_root tx') k \<Longrightarrow> k \<le> Suc h \<Longrightarrow> tx_budget tx \<le> tx_budget tx' + (3 * h + 4) \<Longrightarrow> room file n tx'"
    by (rule room_first [OF assms(2)]) blast
  from del_holds_tall [OF assms(1,3-5) h] show ?thesis
    using rest [OF _ le_SucI [OF order_refl]] by blast
qed

interpretation held: tx_store f "\<lambda>n tx m. tx_holds f tx m \<and> room f n tx" for f
proof
  show "\<exists>tx'. KVTX_set f tx key val = Inr tx' \<and> tx_holds f tx' (m(key \<mapsto> val)) \<and> room f n tx'"
    if "tx_holds f tx m \<and> room f (Suc n) tx" "valid_key key" "length val \<le> BTREE_MAX_VAL_SIZE" for n tx m key val
    using set_room that by blast
  show "\<exists>tx'. KVTX_del f tx key = Inr (True, tx') \<and> tx_holds f tx' (m(key := None)) \<and> room f n tx'"
    if "tx_holds f tx m \<and> room f (Suc n) tx" "valid_key key" "m key \<noteq> None" "roomy (tx_live f tx) (tree_root tx) key" for n tx m key
    using del_room_left that by blast
  show "roomy (tx_live f tx) (tree_root tx) key" if "tx_holds f tx m \<and> room f n tx" "short_successor key m" for n tx m key
    using that by (auto simp: tx_holds_def intro: short_successor_roomy)
qed (use get_holds room_mono holds_valid in blast)+

end
