(* ===== verification/Table_Write.thy ===== *)
theory Table_Write
  imports Table_Model Tx_Store
begin

text \<open>Writing rows keeps the rows and the index entries of a table in step.\<close>

section \<open>Index entries\<close>

definition drop_keys :: "bytes list \<Rightarrow> (bytes \<rightharpoonup> bytes) \<Rightarrow> bytes \<rightharpoonup> bytes" where
  "drop_keys ks m = (\<lambda>k. if k \<in> set ks then None else m k)"

definition add_keys :: "bytes list \<Rightarrow> (bytes \<rightharpoonup> bytes) \<Rightarrow> bytes \<rightharpoonup> bytes" where
  "add_keys ks m = (\<lambda>k. if k \<in> set ks then Some [] else m k)"

lemma drop_keys_simps [simp]: "drop_keys [] m = m" "drop_keys (k # ks) m = drop_keys ks (m(k := None))"
  by (auto simp: drop_keys_def)

lemma add_keys_simps [simp]: "add_keys [] m = m" "add_keys (k # ks) m = add_keys ks (m(k \<mapsto> []))"
  by (auto simp: add_keys_def)

text \<open>
  A deletion needs room where the key that replaces a separator is longer (see \<open>roomy\<close>): each key of a
  run of deletions finds it when its turn comes. It does if no key is followed by a longer one.
\<close>

fun del_room :: "bytes \<Rightarrow> bytes list \<Rightarrow> KVTX \<Rightarrow> bool" where
  "del_room file [] tx = True"
| "del_room file (k # ks) tx = (roomy (tx_live file tx) (tree_root tx) k
     \<and> (\<forall>tx'. KVTX_del file tx k = Inr (True, tx') \<longrightarrow> del_room file ks tx'))"

fun short_run :: "bytes list \<Rightarrow> (bytes \<rightharpoonup> bytes) \<Rightarrow> bool" where
  "short_run [] m = True"
| "short_run (k # ks) m = (m k \<noteq> None \<and> short_successor k m \<and> short_run ks (m(k := None)))"

text \<open>The entry an index asks for, from a record that has all its columns.\<close>

definition entry :: "(bytes \<Rightarrow> Value) \<Rightarrow> bytes list \<times> u32 \<Rightarrow> bytes" where
  "entry f ix = key_of (snd ix) (map f (fst ix))"

definition supplies :: "Record \<Rightarrow> (bytes \<Rightarrow> Value) \<Rightarrow> (bytes list \<times> u32) list \<Rightarrow> bool" where
  "supplies rec f ixs \<longleftrightarrow> distinct (map snd ixs)
     \<and> (\<forall>ix\<in>set ixs. \<forall>c\<in>set (fst ix). Record_get rec c = Some (f c) \<and> vtype (f c) \<noteq> ERROR)"

lemma supplies_Cons:
  assumes "supplies rec f (ix # ixs)"
  shows "supplies rec f ixs" and "get_all rec (fst ix) = Inr (map f (fst ix))"
    and "encode_key (snd ix) (map f (fst ix)) = Inr (entry f ix)" and "entry f ix \<notin> set (map (entry f) ixs)"
proof -
  show "supplies rec f ixs" "get_all rec (fst ix) = Inr (map f (fst ix))"
    using assms get_all_fields [of "fst ix" rec f] by (auto simp: supplies_def)
  have "ERROR \<notin> vtype ` set (map f (fst ix))"
    using assms by (auto simp: supplies_def dest: sym)
  then show "encode_key (snd ix) (map f (fst ix)) = Inr (entry f ix)"
    by (simp add: encode_key_of entry_def)
  have "entry f ix \<noteq> entry f y" if "y \<in> set ixs" for y
    using assms that under_key_of [of "snd ix" "snd y" "map f (fst y)"]
    by (auto simp: supplies_def entry_def rev_image_eqI simp del: under_key_of) (metis under_key_of image_eqI)
  then show "entry f ix \<notin> set (map (entry f) ixs)"
    by auto
qed

context tx_store
begin

lemma short_run_room: "ok (length ks + n) tx m \<Longrightarrow> short_run ks m \<Longrightarrow> del_room file ks tx"
proof (induction ks arbitrary: tx m)
  case (Cons k ks)
  have k: "m k \<noteq> None" "roomy (tx_live file tx) (tree_root tx) k"
    using Cons.prems short_room by auto
  moreover obtain tx1 where "KVTX_del file tx k = Inr (True, tx1)" "ok (length ks + n) tx1 (m(k := None))"
    using del_ok [of "length ks + n" tx m k] keys_valid [OF Cons.prems(1)] Cons.prems(1) k by auto
  ultimately show ?case
    using Cons.IH Cons.prems(2) by auto
qed simp

lemma index_entries_del:
  "ok (length ixs + n) tx m \<Longrightarrow> supplies rec f ixs \<Longrightarrow> (\<And>k. k \<in> set (map (entry f) ixs) \<Longrightarrow> m k \<noteq> None) \<Longrightarrow>
    del_room file (map (entry f) ixs) tx \<Longrightarrow>
    \<exists>tx'. index_entries file tx rec INDEX_DEL ixs = Inr tx' \<and> ok n tx' (drop_keys (map (entry f) ixs) m)"
proof (induction ixs arbitrary: tx m)
  case (Cons ix ixs)
  note S = supplies_Cons [OF Cons.prems(2)]
  obtain cols p where ix: "ix = (cols, p)"
    by fastforce
  have present: "m (entry f ix) \<noteq> None"
    using Cons.prems(3) by simp
  obtain tx1 where tx1: "KVTX_del file tx (entry f ix) = Inr (True, tx1)" "ok (length ixs + n) tx1 (m(entry f ix := None))"
    using del_ok [of "length ixs + n" tx m "entry f ix"] keys_valid [OF Cons.prems(1) present] Cons.prems(1,4) present by auto
  have "\<exists>tx'. index_entries file tx1 rec INDEX_DEL ixs = Inr tx' \<and> ok n tx' (drop_keys (map (entry f) ixs) (m(entry f ix := None)))"
  proof (rule Cons.IH [OF tx1(2) S(1)])
    show "(m(entry f ix := None)) k \<noteq> None" if "k \<in> set (map (entry f) ixs)" for k
      using Cons.prems(3) [of k] that S(4) by (cases "k = entry f ix") simp_all
  qed (use Cons.prems(4) tx1(1) in simp)
  then show ?case
    using S(2,3) tx1(1) by (auto simp: ix index_entry_def INDEX_ADD_def INDEX_DEL_def)
qed simp

lemma index_entries_add:
  "ok (length ixs + n) tx m \<Longrightarrow> supplies rec f ixs \<Longrightarrow>
    (\<And>k. k \<in> set (map (entry f) ixs) \<Longrightarrow> m k = None \<and> valid_key k) \<Longrightarrow>
    \<exists>tx'. index_entries file tx rec INDEX_ADD ixs = Inr tx' \<and> ok n tx' (add_keys (map (entry f) ixs) m)"
proof (induction ixs arbitrary: tx m)
  case (Cons ix ixs)
  note S = supplies_Cons [OF Cons.prems(2)]
  obtain cols p where ix: "ix = (cols, p)"
    by fastforce
  let ?req = "\<lparr>ins_key = entry f ix, ins_val = [], ins_mode = INSERT_ONLY, ins_added = False, ins_old = []\<rparr>"
  have new: "m (entry f ix) = None" "valid_key (entry f ix)"
    using Cons.prems(3) by auto
  have "ok (Suc (length ixs + n)) tx m"
    using Cons.prems(1) by simp
  then obtain tx1 where tx1: "KVTX_set file tx (entry f ix) [] = Inr tx1" "ok (length ixs + n) tx1 (m(entry f ix \<mapsto> []))"
      "KVTX_get file tx (entry f ix) = Inr None"
    using set_ok [of "length ixs + n" tx m "entry f ix" "[]"] get_ok new by auto
  have "\<exists>tx'. index_entries file tx1 rec INDEX_ADD ixs = Inr tx' \<and> ok n tx' (add_keys (map (entry f) ixs) (m(entry f ix \<mapsto> [])))"
  proof (rule Cons.IH [OF tx1(2) S(1)])
    show "(m(entry f ix \<mapsto> [])) k = None \<and> valid_key k" if "k \<in> set (map (entry f) ixs)" for k
      using Cons.prems(3) [of k] that S(4) by (cases "k = entry f ix") simp_all
  qed
  then show ?case
    using S(2,3) tx1(1,3) by (auto simp: ix index_entry_def KVTX_update_def)
qed simp

end

section \<open>A table before and after\<close>

abbreviation entries :: "TableDef \<Rightarrow> Value list \<Rightarrow> bytes list" where
  "entries tdef vs \<equiv> map (ix_key tdef vs) (index_list tdef)"

lemma ix_key_entry: "ix_key tdef vs = entry (field tdef vs)"
  by (simp add: fun_eq_iff ix_key_def entry_def)

lemma index_prefix_distinct:
  assumes "schema_ok tdef"
  shows "distinct (map snd (index_list tdef))" and "ix \<in> set (index_list tdef) \<Longrightarrow> snd ix \<noteq> prefix tdef"
proof -
  note D = schema_okD(5,6) [OF assms]
  show "distinct (map snd (index_list tdef))"
    using D by (simp add: index_list_def)
  show "snd ix \<noteq> prefix tdef" if "ix \<in> set (index_list tdef)"
  proof -
    have "snd ix \<in> set (index_prefixes tdef)"
      using that set_zip_rightD [of "fst ix" "snd ix"] by (simp add: index_list_def)
    then show ?thesis
      using D(2) by auto
  qed
qed

lemma entries_under:
  assumes "schema_ok tdef"
  shows "ix \<in> set (index_list tdef) \<Longrightarrow> under (snd ix) k \<Longrightarrow> k \<in> set (entries tdef vs) \<longleftrightarrow> k = ix_key tdef vs ix"
    and "under (prefix tdef) k \<Longrightarrow> k \<notin> set (entries tdef vs)"
proof -
  show "under (prefix tdef) k \<Longrightarrow> k \<notin> set (entries tdef vs)"
    using index_prefix_distinct(2) [OF assms] by (auto simp del: split_paired_All split_paired_Ex) (metis snd_conv)
  assume ix: "ix \<in> set (index_list tdef)" "under (snd ix) k"
  have "y = ix" if "y \<in> set (index_list tdef)" "k = ix_key tdef vs y" for y
    using index_prefix_distinct(1) [OF assms] ix that by (auto simp: distinct_map inj_on_def)
  then show "k \<in> set (entries tdef vs) \<longleftrightarrow> k = ix_key tdef vs ix"
    using ix(1) by (metis (no_types, lifting) image_iff list.set_map)
qed

lemma table_atD:
  assumes "table_at tdef m R"
  shows "vs \<in> R \<Longrightarrow> typed_vals tdef vs" and "inj_on (pk_vals tdef) R"
    and "under (prefix tdef) k \<Longrightarrow> m k = Some v \<longleftrightarrow> (\<exists>vs\<in>R. k = pk_key tdef vs \<and> v = row_val tdef vs)"
    and "ix \<in> set (index_list tdef) \<Longrightarrow> under (snd ix) k \<Longrightarrow> m k = Some v \<longleftrightarrow> (\<exists>vs\<in>R. k = ix_key tdef vs ix \<and> v = [])"
  using assms unfolding table_at_def by blast+

lemma table_row:
  assumes "table_at tdef m R" and "vs \<in> R"
  shows "m (pk_key tdef vs) = Some (row_val tdef vs)" and "ix \<in> set (index_list tdef) \<Longrightarrow> m (ix_key tdef vs ix) = Some []"
  using table_atD(3) [OF assms(1), of "pk_key tdef vs"] table_atD(4) [OF assms(1), of ix "ix_key tdef vs ix"] assms(2)
  by auto

lemma table_pk:
  assumes "schema_ok tdef" and "table_at tdef m R" and "typed_vals tdef row"
  shows "m (pk_key tdef row) = None \<longleftrightarrow> (\<forall>vs\<in>R. pk_vals tdef vs \<noteq> pk_vals tdef row)"
    and "vs \<in> R \<Longrightarrow> pk_vals tdef vs = pk_vals tdef row \<Longrightarrow> m (pk_key tdef row) = Some (row_val tdef vs) \<and> pk_key tdef row = pk_key tdef vs"
proof -
  have key: "pk_key tdef vs = pk_key tdef row \<longleftrightarrow> pk_vals tdef vs = pk_vals tdef row" if "vs \<in> R" for vs
    using pk_key_inj [OF assms(1) table_atD(1) [OF assms(2) that] assms(3)] .
  show "vs \<in> R \<Longrightarrow> pk_vals tdef vs = pk_vals tdef row \<Longrightarrow> m (pk_key tdef row) = Some (row_val tdef vs) \<and> pk_key tdef row = pk_key tdef vs"
    using key table_row(1) [OF assms(2)] by metis
  show "m (pk_key tdef row) = None \<longleftrightarrow> (\<forall>vs\<in>R. pk_vals tdef vs \<noteq> pk_vals tdef row)"
  proof -
    have "(\<exists>v. m (pk_key tdef row) = Some v) \<longleftrightarrow> (\<exists>vs\<in>R. pk_key tdef row = pk_key tdef vs)"
      using table_atD(3) [OF assms(2), of "pk_key tdef row"] by auto
    also have "\<dots> \<longleftrightarrow> (\<exists>vs\<in>R. pk_vals tdef vs = pk_vals tdef row)"
      using key by metis
    finally show ?thesis
      by auto
  qed
qed

text \<open>Storing a row replaces the one with its primary key.\<close>

lemma table_stored:
  assumes S: "schema_ok tdef" and T: "table_at tdef m R" and row: "typed_vals tdef row"
    and pk: "\<And>k. under (prefix tdef) k \<Longrightarrow> m' k = (m(pk_key tdef row \<mapsto> row_val tdef row)) k"
    and ix: "\<And>ix k. ix \<in> set (index_list tdef) \<Longrightarrow> under (snd ix) k \<Longrightarrow> m' k =
      (if k = ix_key tdef row ix then Some []
       else if \<exists>old\<in>R. pk_vals tdef old = pk_vals tdef row \<and> k = ix_key tdef old ix then None else m k)"
  shows "table_at tdef m' (insert row {vs \<in> R. pk_vals tdef vs \<noteq> pk_vals tdef row})"
  unfolding table_at_def
proof (intro conjI ballI allI impI)
  let ?R = "{vs \<in> R. pk_vals tdef vs \<noteq> pk_vals tdef row}"
  note typed = table_atD(1) [OF T]
  show "typed_vals tdef vs" if "vs \<in> insert row ?R" for vs
    using that row typed by auto
  show "inj_on (pk_vals tdef) (insert row ?R)"
    using table_atD(2) [OF T] by (auto simp: inj_on_def)
  show "m' k = Some v \<longleftrightarrow> (\<exists>vs\<in>insert row ?R. k = pk_key tdef vs \<and> v = row_val tdef vs)" if "under (prefix tdef) k" for k v
    using table_atD(3) [OF T that, of v] pk [OF that] pk_key_inj [OF S typed row] by (cases "k = pk_key tdef row") auto
  show "m' k = Some v \<longleftrightarrow> (\<exists>vs\<in>insert row ?R. k = ix_key tdef vs x \<and> v = [])"
    if x: "x \<in> set (index_list tdef)" "under (snd x) k" for x k v
  proof (cases "k = ix_key tdef row x")
    case True
    then show ?thesis
      using ix [OF x] by auto
  next
    case False
    note same = ix_key_pk [OF S typed typed x(1)]
    show ?thesis
    proof (cases "\<exists>old\<in>R. pk_vals tdef old = pk_vals tdef row \<and> k = ix_key tdef old x")
      case True
      then obtain old where old: "old \<in> R" "pk_vals tdef old = pk_vals tdef row" "k = ix_key tdef old x"
        by blast
      have "k \<noteq> ix_key tdef vs x" if "vs \<in> ?R" for vs
        using that same [of vs old] old by auto
      moreover have "m' k = None"
        using ix [OF x] False True by simp
      ultimately show ?thesis
        using False by auto
    next
      case F: False
      then show ?thesis
        using ix [OF x] False table_atD(4) [OF T x, of v] by auto
    qed
  qed
qed

text \<open>Removing the row with a primary key.\<close>

lemma table_removed:
  assumes S: "schema_ok tdef" and T: "table_at tdef m R" and old: "old \<in> R"
    and pk: "\<And>k. under (prefix tdef) k \<Longrightarrow> m' k = (m(pk_key tdef old := None)) k"
    and ix: "\<And>ix k. ix \<in> set (index_list tdef) \<Longrightarrow> under (snd ix) k \<Longrightarrow> m' k =
      (if k = ix_key tdef old ix then None else m k)"
  shows "table_at tdef m' (R - {old})"
  unfolding table_at_def
proof (intro conjI ballI allI impI)
  note typed = table_atD(1) [OF T]
  have one: "vs = old" if "vs \<in> R" "pk_vals tdef vs = pk_vals tdef old" for vs
    using table_atD(2) [OF T] that old by (auto simp: inj_on_def)
  show "typed_vals tdef vs" if "vs \<in> R - {old}" for vs
    using that typed by auto
  show "inj_on (pk_vals tdef) (R - {old})"
    using table_atD(2) [OF T] by (auto simp: inj_on_def)
  have key: "pk_key tdef vs = pk_key tdef old \<longleftrightarrow> vs = old" if "vs \<in> R" for vs
    using pk_key_inj [OF S typed [OF that] typed [OF old]] one [OF that] by auto
  show "m' k = Some v \<longleftrightarrow> (\<exists>vs\<in>R - {old}. k = pk_key tdef vs \<and> v = row_val tdef vs)" if "under (prefix tdef) k" for k v
  proof (cases "k = pk_key tdef old")
    case True
    then have "m' k = None"
      using pk [OF that] by simp
    moreover have "\<not> (vs \<in> R - {old} \<and> k = pk_key tdef vs)" for vs
      using key [of vs] True by (cases "vs \<in> R") auto
    ultimately show ?thesis
      by auto
  next
    case False
    then have "m' k = m k"
      using pk [OF that] by simp
    then show ?thesis
      using table_atD(3) [OF T that, of v] False by auto
  qed
  show "m' k = Some v \<longleftrightarrow> (\<exists>vs\<in>R - {old}. k = ix_key tdef vs x \<and> v = [])"
    if x: "x \<in> set (index_list tdef)" "under (snd x) k" for x k v
  proof -
    have only: "vs = old" if "vs \<in> R" "ix_key tdef vs x = ix_key tdef old x" for vs
      using ix_key_pk [OF S typed [OF that(1)] typed [OF old] x(1) that(2)] one [OF that(1)] by blast
    show ?thesis
    proof (cases "k = ix_key tdef old x")
      case True
      then have "m' k = None"
        using ix [OF x] by simp
      then show ?thesis
        using only True by auto
    next
      case False
      then have "m' k = m k"
        using ix [OF x] by simp
      then show ?thesis
        using table_atD(4) [OF T x, of v] False by auto
    qed
  qed
qed

end
