(* ===== verification/Table_Ops.thy ===== *)
theory Table_Ops
  imports Table_Write
begin

text \<open>\<open>db_update\<close> and \<open>db_delete\<close> on a table: every branch of their results, and the table they leave.\<close>

section \<open>The map after storing a row\<close>

definition same_pk :: "TableDef \<Rightarrow> Value list \<Rightarrow> Value list set \<Rightarrow> Value list set" where
  "same_pk tdef row R = {vs \<in> R. pk_vals tdef vs = pk_vals tdef row}"

definition replace_row :: "TableDef \<Rightarrow> Value list \<Rightarrow> Value list set \<Rightarrow> Value list set" where
  "replace_row tdef row R = insert row {vs \<in> R. pk_vals tdef vs \<noteq> pk_vals tdef row}"

text \<open>Keys of other tables.\<close>

definition foreign :: "TableDef \<Rightarrow> bytes \<Rightarrow> bool" where
  "foreign tdef k \<longleftrightarrow> \<not> under (prefix tdef) k \<and> (\<forall>p\<in>set (index_prefixes tdef). \<not> under p k)"

definition rewritten :: "TableDef \<Rightarrow> Value list \<Rightarrow> Value list set \<Rightarrow> (bytes \<rightharpoonup> bytes) \<Rightarrow> bytes \<rightharpoonup> bytes" where
  "rewritten tdef row R m = (\<lambda>k. if \<exists>old\<in>same_pk tdef row R. k \<in> set (entries tdef old) then None
     else (m(pk_key tdef row \<mapsto> row_val tdef row)) k)"

lemma foreign_entries: "foreign tdef k \<Longrightarrow> k \<notin> set (entries tdef vs) \<and> k \<noteq> pk_key tdef vs"
  by (auto simp: foreign_def index_list_def dest: set_zip_rightD)

lemma rewritten_ok:
  assumes S: "schema_ok tdef" and T: "table_at tdef m R" and row: "typed_vals tdef row"
  shows "k \<in> set (entries tdef row) \<Longrightarrow> rewritten tdef row R m k = None"
    and "table_at tdef (add_keys (entries tdef row) (rewritten tdef row R m)) (replace_row tdef row R)"
    and "foreign tdef k \<Longrightarrow> add_keys (entries tdef row) (rewritten tdef row R m) k = m k"
proof -
  note typed = table_atD(1) [OF T]
  show "rewritten tdef row R m k = None" if k: "k \<in> set (entries tdef row)" for k
  proof (rule ccontr)
    assume some: "rewritten tdef row R m k \<noteq> None"
    obtain ix where ix: "ix \<in> set (index_list tdef)" "k = ix_key tdef row ix"
      using k by auto
    then have "k \<noteq> pk_key tdef row"
      using index_prefix_distinct(2) [OF S ix(1)] by (metis under_ix_key under_pk_key)
    then have "m k \<noteq> None" and fresh: "\<And>old. old \<in> same_pk tdef row R \<Longrightarrow> k \<notin> set (entries tdef old)"
      using some by (auto simp: rewritten_def split: if_splits)
    then obtain vs where vs: "vs \<in> R" "k = ix_key tdef vs ix"
      using table_atD(4) [OF T ix(1), of k] ix(2) by auto
    then have "pk_vals tdef vs = pk_vals tdef row"
      using ix_key_pk [OF S typed row ix(1), of vs] ix(2) by simp
    then show False
      using fresh [of vs] vs ix(1) by (simp add: same_pk_def)
  qed
  show "table_at tdef (add_keys (entries tdef row) (rewritten tdef row R m)) (replace_row tdef row R)"
    unfolding replace_row_def
  proof (rule table_stored [OF S T row])
    show "add_keys (entries tdef row) (rewritten tdef row R m) k = (m(pk_key tdef row \<mapsto> row_val tdef row)) k"
      if "under (prefix tdef) k" for k
      using entries_under(2) [OF S that] by (simp add: add_keys_def rewritten_def)
    show "add_keys (entries tdef row) (rewritten tdef row R m) k =
        (if k = ix_key tdef row ix then Some []
         else if \<exists>old\<in>R. pk_vals tdef old = pk_vals tdef row \<and> k = ix_key tdef old ix then None else m k)"
      if ix: "ix \<in> set (index_list tdef)" "under (snd ix) k" for ix k
    proof -
      have ne: "k \<noteq> pk_key tdef row"
        using index_prefix_distinct(2) [OF S ix(1)] ix(2) by (metis under_pk_key)
      have "(\<exists>old\<in>same_pk tdef row R. k \<in> set (entries tdef old))
          \<longleftrightarrow> (\<exists>old\<in>R. pk_vals tdef old = pk_vals tdef row \<and> k = ix_key tdef old ix)"
        unfolding entries_under(1) [OF S ix] by (auto simp: same_pk_def)
      then show ?thesis
        using ne unfolding add_keys_def rewritten_def entries_under(1) [OF S ix] by auto
    qed
  qed
  show "add_keys (entries tdef row) (rewritten tdef row R m) k = m k" if "foreign tdef k" for k
    using foreign_entries [OF that] by (simp add: add_keys_def rewritten_def)
qed

section \<open>Records that supply index entries\<close>

lemma suppliesI:
  assumes "schema_ok tdef" and "\<And>c. c \<in> set (tcols tdef) \<Longrightarrow> Record_get rec c = Some (f c) \<and> vtype (f c) \<noteq> ERROR"
  shows "supplies rec f (index_list tdef)"
  unfolding supplies_def
proof (intro conjI ballI)
  fix ix c
  assume "ix \<in> set (index_list tdef)" and "c \<in> set (fst ix)"
  then have "c \<in> set (tcols tdef)"
    using schema_index(2) [OF assms(1) index_list_cols] by blast
  then show "Record_get rec c = Some (f c)" "vtype (f c) \<noteq> ERROR"
    using assms(2) by blast+
qed (rule index_prefix_distinct(1) [OF assms(1)])

lemma supplies_row:
  assumes "schema_ok tdef" and "typed_vals tdef vs"
  shows "supplies (row_rec tdef vs) (field tdef vs) (index_list tdef)"
  using row_get_field [OF assms(1) typed_length [OF assms]] field_type [OF assms] by (intro suppliesI [OF assms(1)]) simp

lemma supplies_checked:
  assumes "schema_ok tdef" and "check_record tdef rec (int (length (tcols tdef))) = qret vs"
  shows "supplies rec (field tdef vs) (index_list tdef)" and "map (entry (field tdef vs)) (index_list tdef) = entries tdef (map canonical vs)"
proof -
  note C = checked_record [OF assms]
  have "vtype (field tdef vs c) \<noteq> ERROR" if "c \<in> set (tcols tdef)" for c
    using C(5) [OF that] field_type [OF assms(1) C(3) that] by (metis canonical_facts(1))
  then show "supplies rec (field tdef vs) (index_list tdef)"
    using C(4) by (intro suppliesI [OF assms(1)]) blast
  show "map (entry (field tdef vs)) (index_list tdef) = entries tdef (map canonical vs)"
    using canonical_keys(3) [OF assms] by (simp add: ix_key_entry [symmetric])
qed

lemma index_op_eq: "schema_ok tdef \<Longrightarrow> index_op file tx tdef rec op = index_entries file tx rec op (index_list tdef)"
  using schema_okD(5) by (simp add: index_op_def index_list_def)

lemma length_index_list [simp]: "schema_ok tdef \<Longrightarrow> length (index_list tdef) = length (indexes tdef)"
  using schema_okD(5) by (simp add: index_list_def)

section \<open>Storing and deleting\<close>

definition mode_met :: "UpdateMode \<Rightarrow> bool \<Rightarrow> bool" where
  "mode_met mode present \<longleftrightarrow> (mode = INSERT_ONLY \<longrightarrow> \<not> present) \<and> (mode = UPDATE_ONLY \<longrightarrow> present)"

definition fits_row :: "TableDef \<Rightarrow> Value list \<Rightarrow> bool" where
  "fits_row tdef row \<longleftrightarrow> valid_key (pk_key tdef row) \<and> length (row_val tdef row) \<le> BTREE_MAX_VAL_SIZE
     \<and> (\<forall>k\<in>set (entries tdef row). valid_key k)"

text \<open>Updating a row deletes the index entries of the row it replaces, after the row itself is written.\<close>

definition update_room :: "bytes \<Rightarrow> TableDef \<Rightarrow> KVTX \<Rightarrow> Value list \<Rightarrow> Value list set \<Rightarrow> bool" where
  "update_room file tdef tx row R \<longleftrightarrow> (\<forall>old\<in>same_pk tdef row R. \<forall>tx1.
     KVTX_set file tx (pk_key tdef row) (row_val tdef row) = Inr tx1 \<longrightarrow> del_room file (entries tdef old) tx1)"

definition mode_error :: "TableDef \<Rightarrow> bool \<Rightarrow> bytes" where
  "mode_error tdef present =
     (if present then str ''row already exists in table: '' else str ''row does not exist in table: '') @ tname tdef"

section \<open>Records that name a row\<close>

definition named_row :: "TableDef \<Rightarrow> Value list \<Rightarrow> Value list set \<Rightarrow> Value list set" where
  "named_row tdef pks R = {vs \<in> R. pk_vals tdef vs = map canonical pks}"

lemma checked_key:
  assumes "schema_ok tdef" and "check_record tdef rec (pkeys tdef) = qret pks"
  shows "map vtype pks = take (nat (pkeys tdef)) (types tdef)" and "ERROR \<notin> vtype ` set pks"
    and "encode_key (prefix tdef) pks = Inr (key_of (prefix tdef) pks)" and "length pks = nat (pkeys tdef)"
proof -
  note D = schema_okD [OF assms(1)]
  have vs: "length pks = nat (pkeys tdef)" "\<And>i. i < nat (pkeys tdef) \<Longrightarrow> vtype (pks ! i) = types tdef ! i"
    using check_record_ok [OF D(7), of "pkeys tdef" rec] assms(2) D(8,9) by (auto simp: qret_def)
  show t: "map vtype pks = take (nat (pkeys tdef)) (types tdef)"
    using vs D(7,9) by (intro nth_equalityI) simp_all
  have "set (map vtype pks) \<subseteq> set (types tdef)"
    unfolding t by (rule set_take_subset)
  then show "ERROR \<notin> vtype ` set pks"
    using D(2) by auto
  then show "encode_key (prefix tdef) pks = Inr (key_of (prefix tdef) pks)"
    by (rule encode_key_of)
  show "length pks = nat (pkeys tdef)"
    by (rule vs(1))
qed

lemma named_key:
  assumes "schema_ok tdef" and "check_record tdef rec (pkeys tdef) = qret pks" and "typed_vals tdef vs"
  shows "pk_key tdef vs = key_of (prefix tdef) pks \<longleftrightarrow> pk_vals tdef vs = map canonical pks"
proof -
  have "map vtype (pk_vals tdef vs) = map vtype (map canonical pks)"
    using assms(3) checked_key(1) [OF assms(1,2)] by (simp add: pk_vals_def typed_vals_def take_map [symmetric] comp_def)
  moreover have "map canonical (pk_vals tdef vs) = pk_vals tdef vs"
    using assms(3) by (metis pk_vals_def take_map typed_vals_def)
  moreover have "ERROR \<notin> vtype ` set (pk_vals tdef vs)"
    using typed_no_error [OF assms(1,3)] set_take_subset [of "nat (pkeys tdef)" vs] by (auto simp: pk_vals_def)
  ultimately have "key_of (prefix tdef) (pk_vals tdef vs) = key_of (prefix tdef) (map canonical pks) \<longleftrightarrow> pk_vals tdef vs = map canonical pks"
    by (intro key_of_inj) (simp_all add: comp_def)
  then show ?thesis
    by (simp only: pk_key_def key_of_canonical)
qed

lemma named_lookup:
  assumes "schema_ok tdef" and "table_at tdef m R" and "check_record tdef rec (pkeys tdef) = qret pks"
  shows "named_row tdef pks R = {} \<Longrightarrow> m (key_of (prefix tdef) pks) = None"
    and "old \<in> named_row tdef pks R \<Longrightarrow> m (key_of (prefix tdef) pks) = Some (row_val tdef old)
      \<and> key_of (prefix tdef) pks = pk_key tdef old \<and> old \<in> R"
proof -
  note key = named_key [OF assms(1,3) table_atD(1) [OF assms(2)]]
  show "m (key_of (prefix tdef) pks) = None" if "named_row tdef pks R = {}"
  proof (rule ccontr)
    assume "m (key_of (prefix tdef) pks) \<noteq> None"
    then obtain vs where "vs \<in> R" "key_of (prefix tdef) pks = pk_key tdef vs"
      using table_atD(3) [OF assms(2), of "key_of (prefix tdef) pks"] by auto
    then show False
      using key [of vs] that by (auto simp: named_row_def)
  qed
  show "old \<in> named_row tdef pks R \<Longrightarrow> m (key_of (prefix tdef) pks) = Some (row_val tdef old)
      \<and> key_of (prefix tdef) pks = pk_key tdef old \<and> old \<in> R"
    using key [of old] table_row(1) [OF assms(2), of old] by (auto simp: named_row_def)
qed

context tx_store
begin

lemma index_op_del:
  assumes "schema_ok tdef" and "typed_vals tdef old" and "ok (length (indexes tdef) + n) tx m"
    and "\<And>k. k \<in> set (entries tdef old) \<Longrightarrow> m k \<noteq> None" and "del_room file (entries tdef old) tx"
  obtains tx' where "index_op file tx tdef (row_rec tdef old) INDEX_DEL = Inr tx'" and "ok n tx' (drop_keys (entries tdef old) m)"
  using index_entries_del [OF _ supplies_row [OF assms(1,2)], of n tx m] assms
  unfolding index_op_eq [OF assms(1)] ix_key_entry [symmetric] by auto

lemma index_op_add:
  assumes "schema_ok tdef" and "check_record tdef rec (int (length (tcols tdef))) = qret vs"
    and "ok (length (indexes tdef) + n) tx m"
    and "\<And>k. k \<in> set (entries tdef (map canonical vs)) \<Longrightarrow> m k = None \<and> valid_key k"
  obtains tx' where "index_op file tx tdef rec INDEX_ADD = Inr tx'" and "ok n tx' (add_keys (entries tdef (map canonical vs)) m)"
  using index_entries_add [OF _ supplies_checked(1) [OF assms(1,2)], of n tx m] assms(1,3,4)
  unfolding index_op_eq [OF assms(1)] supplies_checked(2) [OF assms(1,2)] by auto

text \<open>The row of a record, as it is stored.\<close>

lemma encoded_row:
  assumes "schema_ok tdef" and "check_record tdef rec (int (length (tcols tdef))) = qret vs"
  shows "encode_key (prefix tdef) (take (nat (pkeys tdef)) vs) = Inr (pk_key tdef (map canonical vs))"
    and "encode_values (drop (nat (pkeys tdef)) vs) = Inr (row_val tdef (map canonical vs))"
    and "\<not> (pkeys tdef < 0 \<or> nat (pkeys tdef) > length vs)"
proof -
  note C = checked_record [OF assms] and D = schema_okD [OF assms(1)]
  have "ERROR \<notin> vtype ` set (take (nat (pkeys tdef)) vs)" "ERROR \<notin> vtype ` set (drop (nat (pkeys tdef)) vs)"
    using C(6) set_take_subset [of "nat (pkeys tdef)" vs] set_drop_subset [of "nat (pkeys tdef)" vs] by blast+
  then show "encode_key (prefix tdef) (take (nat (pkeys tdef)) vs) = Inr (pk_key tdef (map canonical vs))"
    "encode_values (drop (nat (pkeys tdef)) vs) = Inr (row_val tdef (map canonical vs))"
    using canonical_keys(1,2) [OF assms] by (simp_all add: encode_key_of pk_vals_def encode_values_iff)
  show "\<not> (pkeys tdef < 0 \<or> nat (pkeys tdef) > length vs)"
    using C(2) D(9,10) by simp
qed

lemma rewritten_new: "same_pk tdef row R = {} \<Longrightarrow> rewritten tdef row R m = m(pk_key tdef row \<mapsto> row_val tdef row)"
  by (auto simp: rewritten_def)

lemma rewritten_old:
  "same_pk tdef row R = {old} \<Longrightarrow>
    rewritten tdef row R m = drop_keys (entries tdef old) (m(pk_key tdef row \<mapsto> row_val tdef row))"
  by (auto simp: rewritten_def drop_keys_def)

text \<open>Storing the index entries of a row just written, those of the row it replaced removed first.\<close>

lemma reindex_ok:
  assumes S: "schema_ok tdef" and T: "table_at tdef m R" and rec: "check_record tdef rec (int (length (tcols tdef))) = qret vs"
    and ok1: "ok (2 * length (indexes tdef) + n) tx (m(pk_key tdef row \<mapsto> row_val tdef row))"
    and row: "row = map canonical vs" and fits: "fits_row tdef row"
    and dels: "\<And>old. old \<in> same_pk tdef row R \<Longrightarrow> del_room file (entries tdef old) tx"
  obtains tx' where "rbind (if m (pk_key tdef row) \<noteq> None
        then rbind (decode_row tdef (pk_key tdef row) (the (m (pk_key tdef row)))) (\<lambda>old. index_op file tx tdef old INDEX_DEL)
        else Inr tx) (\<lambda>tx. index_op file tx tdef rec INDEX_ADD) = Inr tx'"
    and "ok n tx' (add_keys (entries tdef row) (rewritten tdef row R m))"
proof -
  have typed: "typed_vals tdef row"
    using checked_record(3) [OF S rec] by (simp add: row)
  note pk = table_pk [OF S T typed]
  define k where "k = length (indexes tdef)"
  have ok2: "ok (k + (k + n)) tx (m(pk_key tdef row \<mapsto> row_val tdef row))"
    using ok1 by (simp add: k_def mult_2 add.assoc)
  have add: "\<exists>tx'. index_op file tx1 tdef rec INDEX_ADD = Inr tx' \<and> ok n tx' (add_keys (entries tdef row) (rewritten tdef row R m))"
    if "ok (k + n) tx1 (rewritten tdef row R m)" for tx1
    using index_op_add [OF S rec that [unfolded k_def]] rewritten_ok(1) [OF S T typed] fits
    unfolding row [symmetric] fits_row_def by metis
  show thesis
  proof (cases "m (pk_key tdef row)")
    case None
    then have "same_pk tdef row R = {}"
      using pk(1) by (auto simp: same_pk_def)
    then have "ok (k + n) tx (rewritten tdef row R m)"
      using fewer [OF ok2] by (simp add: rewritten_new)
    then show thesis
      using add that None by auto
  next
    case (Some v)
    then obtain old where old: "old \<in> R" "pk_vals tdef old = pk_vals tdef row"
      using pk(1) by auto
    then have same: "same_pk tdef row R = {old}"
      using table_atD(2) [OF T] by (auto simp: same_pk_def inj_on_def)
    have v: "v = row_val tdef old" "pk_key tdef row = pk_key tdef old"
      using pk(2) [OF old] Some by simp_all
    note to = table_atD(1) [OF T old(1)]
    have present: "(m(pk_key tdef row \<mapsto> row_val tdef row)) e \<noteq> None" if "e \<in> set (entries tdef old)" for e
      using that table_row(2) [OF T old(1)] by auto
    have del: "del_room file (entries tdef old) tx"
      using dels same by simp
    obtain tx1 where tx1: "index_op file tx tdef (row_rec tdef old) INDEX_DEL = Inr tx1"
        "ok (k + n) tx1 (drop_keys (entries tdef old) (m(pk_key tdef row \<mapsto> row_val tdef row)))"
      using index_op_del [OF S to ok2 [unfolded k_def] present del] unfolding k_def by blast
    then show thesis
      using add [of tx1] that Some decode_stored_row [OF S to] rewritten_old [OF same] v by auto
  qed
qed

lemma db_update_ok:
  assumes S: "schema_ok tdef" and T: "table_at tdef m R" and rec: "check_record tdef rec (int (length (tcols tdef))) = qret vs"
    and ok0: "ok (Suc (2 * length (indexes tdef) + n)) tx m" and row: "row = map canonical vs" and fits: "fits_row tdef row"
    and mode: "mode_met mode (same_pk tdef row R \<noteq> {})"
    and dels: "update_room file tdef tx row R"
  obtains tx' m' where "db_update file tdef rec mode tx = sret () tx'" and "ok n tx' m'"
    and "table_at tdef m' (replace_row tdef row R)" and "\<And>k. foreign tdef k \<Longrightarrow> m' k = m k"
    and "m' = add_keys (entries tdef row) (rewritten tdef row R m)"
proof -
  have typed: "typed_vals tdef row"
    using checked_record(3) [OF S rec] by (simp add: row)
  have present: "same_pk tdef row R \<noteq> {} \<longleftrightarrow> m (pk_key tdef row) \<noteq> None"
    using table_pk(1) [OF S T typed] by (auto simp: same_pk_def)
  let ?m1 = "m(pk_key tdef row \<mapsto> row_val tdef row)" and ?m' = "add_keys (entries tdef row) (rewritten tdef row R m)"
  let ?req = "\<lparr>ins_key = pk_key tdef row, ins_val = row_val tdef row, ins_mode = mode, ins_added = False, ins_old = []\<rparr>"
  obtain tx1 where tx1: "KVTX_update file tx ?req = Inr (True, ?req\<lparr>ins_added := (m (ins_key ?req) = None),
      ins_old := (case m (ins_key ?req) of Some v \<Rightarrow> v | None \<Rightarrow> [])\<rparr>, tx1)" "ok (2 * length (indexes tdef) + n) tx1 (m(ins_key ?req \<mapsto> ins_val ?req))"
      "KVTX_set file tx (ins_key ?req) (ins_val ?req) = Inr tx1"
    by (rule update_ok [OF ok0, of ?req]) (use fits mode present in \<open>auto simp: fits_row_def mode_met_def\<close>)
  have dels': "\<And>old. old \<in> same_pk tdef row R \<Longrightarrow> del_room file (entries tdef old) tx1"
    using dels tx1(3) by (simp add: update_room_def)
  note run = encoded_row [OF S rec, folded row]
  note final = rewritten_ok(2,3) [OF S T typed]
  show thesis
  proof (cases "indexes tdef = []")
    case True
    then have "?m' = ?m1"
      by (auto simp: index_list_def rewritten_def)
    then have "ok n tx1 ?m'"
      using tx1(2) True by simp
    moreover have "db_update file tdef rec mode tx = sret () tx1"
      using rec run tx1(1) True by (simp add: db_update_def sret_def)
    ultimately show thesis
      using that final by blast
  next
    case False
    obtain tx' where tx': "rbind (if m (pk_key tdef row) \<noteq> None
          then rbind (decode_row tdef (pk_key tdef row) (the (m (pk_key tdef row)))) (\<lambda>old. index_op file tx1 tdef old INDEX_DEL)
          else Inr tx1) (\<lambda>tx. index_op file tx tdef rec INDEX_ADD) = Inr tx'" "ok n tx' ?m'"
      using reindex_ok [OF S T rec _ row fits, of n tx1] tx1(2) dels' by auto
    have "db_update file tdef rec mode tx = sret () tx'"
      using rec run tx1(1) False tx'(1) by (cases "m (pk_key tdef row)") (auto simp: db_update_def rbind_eq_Inr sret_def)
    then show thesis
      using that tx'(2) final by blast
  qed
qed

lemma db_update_refused:
  assumes S: "schema_ok tdef" and T: "table_at tdef m R" and rec: "check_record tdef rec (int (length (tcols tdef))) = qret vs"
    and "ok n tx m" and row: "row = map canonical vs" and "valid_key (pk_key tdef row)"
    and mode: "\<not> mode_met mode (same_pk tdef row R \<noteq> {})"
  shows "db_update file tdef rec mode tx = serr (mode_error tdef (same_pk tdef row R \<noteq> {})) tx"
proof -
  have typed: "typed_vals tdef row"
    using checked_record(3) [OF S rec] by (simp add: row)
  have present: "same_pk tdef row R \<noteq> {} \<longleftrightarrow> m (pk_key tdef row) \<noteq> None"
    using table_pk(1) [OF S T typed] by (auto simp: same_pk_def)
  let ?req = "\<lparr>ins_key = pk_key tdef row, ins_val = row_val tdef row, ins_mode = mode, ins_added = False, ins_old = []\<rparr>"
  note run = encoded_row [OF S rec, folded row]
  have "KVTX_update file tx ?req = Inr (False, ?req\<lparr>ins_added := (m (ins_key ?req) = None),
      ins_old := (case m (ins_key ?req) of Some v \<Rightarrow> v | None \<Rightarrow> [])\<rparr>, tx)"
    by (rule update_refused [OF assms(4)]) (use assms(6) mode present in \<open>auto simp: mode_met_def\<close>)
  then show ?thesis
    unfolding present using rec run by (auto simp: db_update_def mode_error_def serr_def)
qed

lemma db_delete_absent:
  assumes "schema_ok tdef" and "table_at tdef m R" and "check_record tdef rec (pkeys tdef) = qret pks"
    and "ok n tx m" and "valid_key (key_of (prefix tdef) pks)" and "named_row tdef pks R = {}"
  shows "db_delete file tdef rec tx = sret False tx"
proof -
  have "KVTX_del_req file tx \<lparr>del_key = key_of (prefix tdef) pks, del_old = []\<rparr>
      = Inr (False, \<lparr>del_key = key_of (prefix tdef) pks, del_old = []\<rparr>, tx)"
    by (rule del_req_absent [OF assms(4)]) (use assms(5) named_lookup(1) [OF assms(1-3,6)] in simp_all)
  then show ?thesis
    using assms(3) checked_key(3) [OF assms(1,3)] by (simp add: db_delete_def)
qed

lemma db_delete_ok:
  assumes S: "schema_ok tdef" and T: "table_at tdef m R" and rec: "check_record tdef rec (pkeys tdef) = qret pks"
    and ok0: "ok (Suc (length (indexes tdef) + n)) tx m" and old: "old \<in> named_row tdef pks R"
    and dels: "del_room file (pk_key tdef old # entries tdef old) tx"
  obtains tx' m' where "db_delete file tdef rec tx = sret True tx'" and "ok n tx' m'"
    and "table_at tdef m' (R - {old})" and "\<And>k. foreign tdef k \<Longrightarrow> m' k = m k"
    and "m' = drop_keys (pk_key tdef old # entries tdef old) m"
proof -
  have at: "m (pk_key tdef old) = Some (row_val tdef old)" "key_of (prefix tdef) pks = pk_key tdef old" and mem: "old \<in> R"
    using named_lookup(2) [OF S T rec old] by auto
  note typed = table_atD(1) [OF T mem]
  let ?m1 = "m(pk_key tdef old := None)"
  let ?req = "\<lparr>del_key = pk_key tdef old, del_old = []\<rparr>"
  obtain tx1 where tx1: "KVTX_del_req file tx ?req = Inr (True, ?req\<lparr>del_old := row_val tdef old\<rparr>, tx1)"
      "ok (length (indexes tdef) + n) tx1 (m(del_key ?req := None))"
      "KVTX_del file tx (del_key ?req) = Inr (True, tx1)"
    by (rule del_req_ok [OF ok0, of ?req "row_val tdef old"]) (use at dels in simp_all)
  have T': "table_at tdef (drop_keys (entries tdef old) ?m1) (R - {old})"
  proof (rule table_removed [OF S T mem])
    show "drop_keys (entries tdef old) ?m1 k = ?m1 k" if "under (prefix tdef) k" for k
      using entries_under(2) [OF S that] by (simp add: drop_keys_def)
    show "drop_keys (entries tdef old) ?m1 k = (if k = ix_key tdef old ix then None else m k)"
      if "ix \<in> set (index_list tdef)" "under (snd ix) k" for ix k
    proof -
      have "k \<noteq> pk_key tdef old"
        using index_prefix_distinct(2) [OF S that(1)] that(2) by auto
      then show ?thesis
        unfolding drop_keys_def entries_under(1) [OF S that] by simp
    qed
  qed
  have other: "drop_keys (entries tdef old) ?m1 k = m k" if "foreign tdef k" for k
    using foreign_entries [OF that] by (simp add: drop_keys_def)
  have exact: "drop_keys (entries tdef old) ?m1 = drop_keys (pk_key tdef old # entries tdef old) m"
    by simp
  note run = rec checked_key(3) [OF S rec] at(2) tx1(1)
  show thesis
  proof (cases "indexes tdef = []")
    case True
    then have "drop_keys (entries tdef old) ?m1 = ?m1"
      by (simp add: index_list_def)
    then have "ok n tx1 (drop_keys (entries tdef old) ?m1)"
      using tx1(2) True by simp
    moreover have "db_delete file tdef rec tx = sret True tx1"
      using run True by (simp add: db_delete_def)
    ultimately show thesis
      using that [OF _ _ T' other exact] by blast
  next
    case False
    have present: "?m1 e \<noteq> None" if "e \<in> set (entries tdef old)" for e
    proof -
      have "m e \<noteq> None"
        using that table_row(2) [OF T mem] by auto
      moreover have "e \<noteq> pk_key tdef old"
        using that entries_under(2) [OF S, of e old] by auto
      ultimately show ?thesis
        by simp
    qed
    have ok1: "ok (length (indexes tdef) + n) tx1 ?m1"
      using tx1(2) by simp
    have rest: "del_room file (entries tdef old) tx1"
      using dels tx1(3) by simp
    obtain tx2 where "index_op file tx1 tdef (row_rec tdef old) INDEX_DEL = Inr tx2"
        "ok n tx2 (drop_keys (entries tdef old) ?m1)"
      using index_op_del [OF S typed ok1 present rest] by blast
    moreover from this have "db_delete file tdef rec tx = sret True tx2"
      using run False decode_stored_row [OF S typed] by (simp add: db_delete_def)
    ultimately show thesis
      using that [OF _ _ T' other exact] by blast
  qed
qed

end

end
