(* ===== verification/Scan_Spec.thy ===== *)
theory Scan_Spec
  imports Table_Ops BIter_Spec
begin

text \<open>
  The scanner over any reader: what is left of a scan, its steps, point reads as scans of one key, and
  range scans, which deliver exactly the rows whose values lie in the range.
\<close>

section \<open>Bounds as values\<close>

lemma partial_val_ok:
  assumes "known_cols tdef cols" and "map vtype pre = take (length pre) (map (col_type tdef) cols)"
  obtains b where "encode_key_partial p pre tdef cols cmp = Inr b"
    and "\<And>ws. map vtype ws = map (col_type tdef) cols \<Longrightarrow> ERROR \<notin> vtype ` set ws \<Longrightarrow>
      cmp_ok (key_of p ws) cmp b = val_ok cmp (take (length pre) ws) pre"
  using partial_bound [OF assms, of p cmp] encode_key_of unfolding val_ok_def by metis

lemma pad_cols_extends: "pad_cols tdef out cs = Inr b \<Longrightarrow> \<exists>x. b = out @ x"
  by (induction tdef out cs rule: pad_cols.induct)
    (auto simp: Let_def rbind_eq_Inr split: if_splits ValueType.splits)

lemma partial_prefix:
  assumes "encode_key_partial p pre tdef cols cmp = Inr b"
  obtains x where "b = be_bytes 4 (unat p) @ x"
proof -
  obtain out where out: "encode_key p pre = Inr out"
      "b = out \<or> pad_cols tdef out (drop (length pre) cols) = Inr b"
    using assms by (auto simp: encode_key_partial_def rbind_eq_Inr split: if_splits)
  moreover obtain y where "out = be_bytes 4 (unat p) @ y"
    using out(1) by (auto simp: encode_key_iff)
  ultimately show thesis
    using that pad_cols_extends by fastforce
qed

text \<open>Between two keys under a prefix there are only keys under it.\<close>

lemma between_prefix: "\<not> k < pb @ a \<Longrightarrow> \<not> pb @ b < k \<Longrightarrow> take (length pb) k = (pb :: bytes)"
proof (induction pb arbitrary: k)
  case (Cons c pb)
  then show ?case
    by (cases k) (auto simp: not_less)
qed simp

lemma in_between:
  assumes "cmp_ok k cmp1 (be_bytes 4 (unat p) @ a)" and "cmp_ok k cmp2 (be_bytes 4 (unat p) @ b)"
    and "(cmp_val cmp1 > 0) \<noteq> (cmp_val cmp2 > 0)"
  shows "under p k"
proof -
  have "\<exists>a b. \<not> k < be_bytes 4 (unat p) @ a \<and> \<not> be_bytes 4 (unat p) @ b < k"
    using assms by (cases cmp1; cases cmp2) (auto simp: not_less intro: less_imp_le)
  then show ?thesis
    using between_prefix [of k "be_bytes 4 (unat p)"] by (auto simp: under_def)
qed

section \<open>What is left of a scan\<close>

lemma walk_step:
  assumes "walk pm s fwd fuel it = Inr r"
  shows "BIter_valid it = Inr (r \<noteq> [])"
    and "r = x # xs \<Longrightarrow> BIter_deref it = Inr x \<and> (\<exists>it' fuel'.
      (if fwd then BIter_next pm s it else BIter_prev pm s it) = Inr it' \<and> walk pm s fwd fuel' it' = Inr xs)"
  using assms by (cases fuel; auto simp: rbind_eq_Inr split: if_splits)+

text \<open>\<open>ahead pm s sc r\<close>: the iterator of \<open>sc\<close>, stepped in the direction of the scan, delivers the pairs \<open>r\<close>.\<close>

definition ahead :: "'s IPageManager \<Rightarrow> 's \<Rightarrow> Scanner \<Rightarrow> (bytes \<times> bytes) list \<Rightarrow> bool" where
  "ahead pm s sc r \<longleftrightarrow> (\<exists>fuel. walk pm s (cmp_val (sn_cmp1 sc) > 0) fuel (sn_iter sc) = Inr r)"

definition within :: "Scanner \<Rightarrow> bytes \<times> bytes \<Rightarrow> bool" where
  "within sc x \<longleftrightarrow> cmp_ok (fst x) (sn_cmp2 sc) (sn_key_end sc)"

lemma within_iter [simp]: "within (sc\<lparr>sn_iter := it\<rparr>) = within sc"
  by (simp add: fun_eq_iff within_def)

lemma ahead_valid: "ahead pm s sc r \<Longrightarrow> Scanner_valid sc = Inr (r \<noteq> [] \<and> within sc (hd r))"
proof -
  assume "ahead pm s sc r"
  then obtain fuel where w: "walk pm s (cmp_val (sn_cmp1 sc) > 0) fuel (sn_iter sc) = Inr r"
    by (auto simp: ahead_def)
  show ?thesis
  proof (cases r)
    case Nil
    then show ?thesis
      using walk_step(1) [OF w] by (simp add: Scanner_valid_def)
  next
    case (Cons x xs)
    then show ?thesis
      using walk_step(1) [OF w] walk_step(2) [OF w Cons] by (cases x) (simp add: Scanner_valid_def within_def)
  qed
qed

lemma ahead_deref: "ahead pm s sc (x # xs) \<Longrightarrow> BIter_deref (sn_iter sc) = Inr x"
  unfolding ahead_def by (elim exE) (rule walk_step(2) [OF _ refl, THEN conjunct1])

lemma ahead_next:
  assumes "ahead pm s sc (x # xs)" and "within sc x"
  obtains it where "Scanner_next pm s sc = Inr (sc\<lparr>sn_iter := it\<rparr>)" and "ahead pm s (sc\<lparr>sn_iter := it\<rparr>) xs"
proof -
  obtain fuel where w: "walk pm s (cmp_val (sn_cmp1 sc) > 0) fuel (sn_iter sc) = Inr (x # xs)"
    using assms(1) by (auto simp: ahead_def)
  obtain it fuel' where it: "(if cmp_val (sn_cmp1 sc) > 0 then BIter_next pm s (sn_iter sc) else BIter_prev pm s (sn_iter sc)) = Inr it"
      "walk pm s (cmp_val (sn_cmp1 sc) > 0) fuel' it = Inr xs"
    using walk_step(2) [OF w refl] by blast
  then have "Scanner_next pm s sc = Inr (sc\<lparr>sn_iter := it\<rparr>)"
    using ahead_valid [OF assms(1)] assms(2) by (simp add: Scanner_next_def)
  moreover have "ahead pm s (sc\<lparr>sn_iter := it\<rparr>) xs"
    using it(2) by (auto simp: ahead_def)
  ultimately show thesis
    using that by blast
qed

text \<open>The pairs up to the end of the range are all pairs in the range.\<close>

lemma takeWhile_antitone:
  "sorted_wrt R (map fst xs) \<Longrightarrow> (\<And>a b. R a b \<Longrightarrow> P b \<Longrightarrow> P a) \<Longrightarrow>
    takeWhile (\<lambda>x. P (fst x)) xs = filter (\<lambda>x. P (fst x)) xs"
proof (induction xs)
  case (Cons x xs)
  note IH = Cons.IH [OF _ Cons.prems(2)]
  have "filter (\<lambda>x. P (fst x)) xs = []" if "\<not> P (fst x)"
  proof -
    have "\<not> P (fst y)" if "y \<in> set xs" for y
      using Cons.prems(1) Cons.prems(2) [of "fst x" "fst y"] that \<open>\<not> P (fst x)\<close> by auto
    then show ?thesis
      by (simp add: filter_empty_conv)
  qed
  then show ?case
    using IH Cons.prems(1) by simp
qed simp

lemma scan_takeWhile:
  assumes "scanned m k1 cmp1 r" and "(cmp_val cmp1 > 0) \<noteq> (cmp_val cmp2 > 0)"
  shows "set (takeWhile (\<lambda>x. cmp_ok (fst x) cmp2 k2) r) = {(k, v). m k = Some v \<and> cmp_ok k cmp1 k1 \<and> cmp_ok k cmp2 k2}"
    and "distinct (takeWhile (\<lambda>x. cmp_ok (fst x) cmp2 k2) r)"
proof -
  have r: "set r = {(k, v). m k = Some v \<and> cmp_ok k cmp1 k1}"
      "sorted_wrt (if cmp_val cmp1 > 0 then (<) else (>)) (map fst r)"
    using assms(1) by (auto simp: scanned_def)
  have "takeWhile (\<lambda>x. cmp_ok (fst x) cmp2 k2) r = filter (\<lambda>x. cmp_ok (fst x) cmp2 k2) r"
    using assms(2) by (intro takeWhile_antitone [OF r(2)]; cases cmp2) (auto split: if_splits)
  then show "set (takeWhile (\<lambda>x. cmp_ok (fst x) cmp2 k2) r) = {(k, v). m k = Some v \<and> cmp_ok k cmp1 k1 \<and> cmp_ok k cmp2 k2}"
    using r(1) by auto
  have "sorted_wrt (<) (map fst r) \<or> sorted_wrt (<) (rev (map fst r))"
    using r(2) by (simp add: sorted_wrt_rev split: if_splits)
  then have "distinct (map fst r)"
    by (auto simp: strict_sorted_iff)
  then show "distinct (takeWhile (\<lambda>x. cmp_ok (fst x) cmp2 k2) r)"
    by (simp add: distinct_map distinct_takeWhile)
qed

lemma scan_takeWhile_sorted:
  assumes "scanned m k1 cmp1 r"
  shows "sorted_wrt (if cmp_val cmp1 > 0 then (<) else (>)) (map fst (takeWhile P r))"
proof -
  have "sorted_wrt (if cmp_val cmp1 > 0 then (<) else (>)) (map fst r)"
    using assms by (simp add: scanned_def)
  then show ?thesis
    by (metis sorted_wrt_take takeWhile_eq_take take_map)
qed

section \<open>The tree a scan runs on\<close>

definition scan_cols :: "TableDef \<Rightarrow> int \<Rightarrow> bytes list" where
  "scan_cols tdef i = (if i < 0 then pk_cols tdef else indexes tdef ! nat i)"

definition scan_prefix :: "TableDef \<Rightarrow> int \<Rightarrow> u32" where
  "scan_prefix tdef i = (if i < 0 then prefix tdef else index_prefixes tdef ! nat i)"

definition tree_key :: "TableDef \<Rightarrow> int \<Rightarrow> Value list \<Rightarrow> bytes" where
  "tree_key tdef i vs = key_of (scan_prefix tdef i) (map (field tdef vs) (scan_cols tdef i))"

definition tree_val :: "TableDef \<Rightarrow> int \<Rightarrow> Value list \<Rightarrow> bytes" where
  "tree_val tdef i vs = (if i < 0 then row_val tdef vs else [])"

definition tree_of :: "TableDef \<Rightarrow> int \<Rightarrow> bool" where
  "tree_of tdef i \<longleftrightarrow> i < 0 \<or> nat i < length (indexes tdef)"

lemma find_index_tree: "find_index tdef keys = Inr i \<Longrightarrow> tree_of tdef i \<and> is_prefix (scan_cols tdef i) keys"
  using find_index_choice [of tdef keys]
  by (auto simp: tree_of_def scan_cols_def pk_cols_def matching_def split: if_splits)

lemma find_index_pk: "find_index tdef (pk_cols tdef) = Inr (-1)"
proof -
  have "is_prefix (take (nat (pkeys tdef)) (tcols tdef)) (pk_cols tdef)"
    by (simp add: is_prefix_def pk_cols_def min_def)
  then show ?thesis
    by (simp add: find_index_def)
qed

lemma scan_cols_known:
  assumes "schema_ok tdef" and "tree_of tdef i"
  shows "set (scan_cols tdef i) \<subseteq> set (tcols tdef)"
  using assms schema_index(2) [OF assms(1) nth_mem] pk_cols_sub [of tdef] by (cases "i < 0") (simp_all add: scan_cols_def tree_of_def)

lemma index_list_nth:
  assumes "schema_ok tdef" and "tree_of tdef i" and "\<not> i < 0"
  shows "(indexes tdef ! nat i, index_prefixes tdef ! nat i) \<in> set (index_list tdef)"
  using assms schema_okD(5) [OF assms(1)] by (auto simp: index_list_def tree_of_def set_zip)

text \<open>The pairs of that tree are the rows.\<close>

lemma tree_pairs:
  assumes S: "schema_ok tdef" and T: "table_at tdef m R" and i: "tree_of tdef i" and k: "under (scan_prefix tdef i) k"
  shows "m k = Some v \<longleftrightarrow> (\<exists>vs\<in>R. k = tree_key tdef i vs \<and> v = tree_val tdef i vs)"
proof (cases "i < 0")
  case True
  have "pk_key tdef vs = tree_key tdef i vs" if "vs \<in> R" for vs
    using True pk_vals_fields [OF S typed_length [OF S table_atD(1) [OF T that]]]
    by (simp add: pk_key_def tree_key_def scan_cols_def scan_prefix_def)
  then show ?thesis
    using table_atD(3) [OF T, of k v] True k by (auto simp: tree_val_def scan_prefix_def)
next
  case False
  then show ?thesis
    using table_atD(4) [OF T index_list_nth [OF S i], of k v] k
    by (simp add: tree_val_def scan_prefix_def tree_key_def scan_cols_def ix_key_def)
qed

lemma tree_key_pk:
  assumes "schema_ok tdef" and "typed_vals tdef vs" and "typed_vals tdef ws" and "tree_of tdef i"
    and "tree_key tdef i vs = tree_key tdef i ws"
  shows "pk_vals tdef vs = pk_vals tdef ws"
proof (cases "i < 0")
  case True
  then have "pk_key tdef vs = pk_key tdef ws"
    using assms pk_vals_fields [OF assms(1) typed_length [OF assms(1)]]
    by (simp add: tree_key_def pk_key_def scan_cols_def scan_prefix_def)
  then show ?thesis
    using pk_key_inj [OF assms(1-3)] by simp
next
  case False
  then show ?thesis
    using ix_key_pk [OF assms(1-3) index_list_nth [OF assms(1,4)]] assms(5)
    by (simp add: tree_key_def ix_key_def scan_cols_def scan_prefix_def)
qed

section \<open>Starting a scan\<close>

definition bound_ok :: "TableDef \<Rightarrow> bytes list \<Rightarrow> Record \<Rightarrow> bool" where
  "bound_ok tdef cols key \<longleftrightarrow> is_prefix cols (rec_cols key) \<and> map vtype (rec_vals key) = map (col_type tdef) (rec_cols key)"

lemma check_bound_types_ok:
  "known_cols tdef cols \<Longrightarrow> map vtype vals = map (col_type tdef) cols \<Longrightarrow> check_bound_types tdef cols vals = qret ()"
proof (induction cols arbitrary: vals)
  case (Cons c cols)
  then obtain v vs where vals: "vals = v # vs" "vtype v = col_type tdef c" "map vtype vs = map (col_type tdef) cols"
    by (cases vals) auto
  then show ?case
    using Cons.IH [OF known_cols_Cons [OF Cons.prems(1)]] known_col(1,2) [OF Cons.prems(1), of c]
    by (simp add: col_type_def Let_def)
qed simp

lemma check_bound_ok:
  assumes "known_cols tdef cols" and "bound_ok tdef cols key"
  shows "check_bound tdef cols key = qret ()"
proof -
  have "set (rec_cols key) \<subseteq> set cols"
    using assms(2) by (auto simp: bound_ok_def is_prefix_def) (metis in_set_takeD)
  then have "known_cols tdef (rec_cols key)"
    using assms(1) by (auto simp: known_cols_def)
  then show ?thesis
    using assms(2) check_bound_types_ok by (simp add: check_bound_def bound_ok_def)
qed

lemma bound_take:
  assumes "bound_ok tdef cols key"
  shows "map vtype (rec_vals key) = take (length (rec_vals key)) (map (col_type tdef) cols)"
    and "take (length (rec_vals key)) (map f cols) = map f (rec_cols key)"
proof -
  have len: "length (rec_vals key) = length (rec_cols key)"
    using assms by (metis bound_ok_def length_map)
  then have "take (length (rec_vals key)) cols = rec_cols key"
    using assms by (simp add: bound_ok_def is_prefix_def)
  then show "map vtype (rec_vals key) = take (length (rec_vals key)) (map (col_type tdef) cols)"
    "take (length (rec_vals key)) (map f cols) = map f (rec_cols key)"
    using assms by (simp_all add: bound_ok_def take_map)
qed

text \<open>A row lies in the range that the keys and relations of a scanner ask for.\<close>

definition row_in :: "TableDef \<Rightarrow> Scanner \<Rightarrow> Value list \<Rightarrow> bool" where
  "row_in tdef req vs \<longleftrightarrow>
     val_ok (sn_cmp1 req) (map (field tdef vs) (rec_cols (sn_key1 req))) (rec_vals (sn_key1 req))
     \<and> val_ok (sn_cmp2 req) (map (field tdef vs) (rec_cols (sn_key2 req))) (rec_vals (sn_key2 req))"

definition opposite :: "CMP \<Rightarrow> CMP \<Rightarrow> bool" where
  "opposite cmp1 cmp2 \<longleftrightarrow> (cmp_val cmp1 > 0) \<noteq> (cmp_val cmp2 > 0)"

lemma opposite_check:
  "opposite cmp1 cmp2 \<Longrightarrow> \<not> (\<not> (cmp_val cmp1 > 0 \<and> cmp_val cmp2 < 0) \<and> \<not> (cmp_val cmp1 < 0 \<and> cmp_val cmp2 > 0))"
  by (cases cmp1; cases cmp2) (simp_all add: opposite_def)

lemma fields_bound:
  assumes S: "schema_ok tdef" and i: "tree_of tdef i" and b: "bound_ok tdef (scan_cols tdef i) key"
  obtains e x where "encode_key_partial (scan_prefix tdef i) (rec_vals key) tdef (scan_cols tdef i) cmp = Inr e"
    and "e = be_bytes 4 (unat (scan_prefix tdef i)) @ x"
    and "\<And>vs. typed_vals tdef vs \<Longrightarrow> cmp_ok (tree_key tdef i vs) cmp e = val_ok cmp (map (field tdef vs) (rec_cols key)) (rec_vals key)"
proof -
  note cols = scan_cols_known [OF S i]
  obtain e where e: "encode_key_partial (scan_prefix tdef i) (rec_vals key) tdef (scan_cols tdef i) cmp = Inr e"
      "\<And>ws. map vtype ws = map (col_type tdef) (scan_cols tdef i) \<Longrightarrow> ERROR \<notin> vtype ` set ws \<Longrightarrow>
        cmp_ok (key_of (scan_prefix tdef i) ws) cmp e = val_ok cmp (take (length (rec_vals key)) ws) (rec_vals key)"
    using partial_val_ok [OF schema_known [OF S cols] bound_take(1) [OF b], of "scan_prefix tdef i" cmp] by blast
  obtain x where "e = be_bytes 4 (unat (scan_prefix tdef i)) @ x"
    by (rule partial_prefix [OF e(1)])
  moreover have "cmp_ok (tree_key tdef i vs) cmp e = val_ok cmp (map (field tdef vs) (rec_cols key)) (rec_vals key)"
    if "typed_vals tdef vs" for vs
    using e(2) [OF fields_typed(1,3) [OF S that cols]] bound_take(2) [OF b, of "field tdef vs"] by (simp add: tree_key_def)
  ultimately show thesis
    using that e(1) by blast
qed

text \<open>A row lies in the range exactly if its pair does.\<close>

lemma rows_between:
  assumes S: "schema_ok tdef" and T: "table_at tdef m R" and i: "tree_of tdef i" and opp: "opposite (sn_cmp1 req) (sn_cmp2 req)"
    and b1: "bound_ok tdef (scan_cols tdef i) (sn_key1 req)" and b2: "bound_ok tdef (scan_cols tdef i) (sn_key2 req)"
    and e1: "encode_key_partial (scan_prefix tdef i) (rec_vals (sn_key1 req)) tdef (scan_cols tdef i) (sn_cmp1 req) = Inr e1"
    and e2: "encode_key_partial (scan_prefix tdef i) (rec_vals (sn_key2 req)) tdef (scan_cols tdef i) (sn_cmp2 req) = Inr e2"
  shows "{(k, v). m k = Some v \<and> cmp_ok k (sn_cmp1 req) e1 \<and> cmp_ok k (sn_cmp2 req) e2}
    = (\<lambda>vs. (tree_key tdef i vs, tree_val tdef i vs)) ` {vs \<in> R. row_in tdef req vs}"
proof -
  obtain x1 where f1: "e1 = be_bytes 4 (unat (scan_prefix tdef i)) @ x1" "\<And>vs. typed_vals tdef vs \<Longrightarrow> cmp_ok (tree_key tdef i vs) (sn_cmp1 req) e1
      = val_ok (sn_cmp1 req) (map (field tdef vs) (rec_cols (sn_key1 req))) (rec_vals (sn_key1 req))"
    using fields_bound [OF S i b1, of "sn_cmp1 req"] e1 by auto
  obtain x2 where f2: "e2 = be_bytes 4 (unat (scan_prefix tdef i)) @ x2" "\<And>vs. typed_vals tdef vs \<Longrightarrow> cmp_ok (tree_key tdef i vs) (sn_cmp2 req) e2
      = val_ok (sn_cmp2 req) (map (field tdef vs) (rec_cols (sn_key2 req))) (rec_vals (sn_key2 req))"
    using fields_bound [OF S i b2, of "sn_cmp2 req"] e2 by auto
  have in_row: "cmp_ok (tree_key tdef i vs) (sn_cmp1 req) e1 \<and> cmp_ok (tree_key tdef i vs) (sn_cmp2 req) e2 \<longleftrightarrow> row_in tdef req vs"
    if "vs \<in> R" for vs
    using f1(2) f2(2) table_atD(1) [OF T that] by (simp add: row_in_def)
  have pre: "under (scan_prefix tdef i) k" if "cmp_ok k (sn_cmp1 req) e1" "cmp_ok k (sn_cmp2 req) e2" for k
    using in_between [OF that [unfolded f1(1) f2(1)]] opp by (simp add: opposite_def)
  have at: "m (tree_key tdef i vs) = Some (tree_val tdef i vs)" if "vs \<in> R" for vs
    using tree_pairs [OF S T i, of "tree_key tdef i vs"] that by (auto simp: tree_key_def)
  show ?thesis
  proof (intro set_eqI iffI)
    fix x
    assume "x \<in> {(k, v). m k = Some v \<and> cmp_ok k (sn_cmp1 req) e1 \<and> cmp_ok k (sn_cmp2 req) e2}"
    then obtain k v where x: "x = (k, v)" "m k = Some v" "cmp_ok k (sn_cmp1 req) e1" "cmp_ok k (sn_cmp2 req) e2"
      by auto
    obtain vs where "vs \<in> R" "k = tree_key tdef i vs" "v = tree_val tdef i vs"
      using x(2) unfolding tree_pairs [OF S T i pre [OF x(3,4)]] by blast
    then show "x \<in> (\<lambda>vs. (tree_key tdef i vs, tree_val tdef i vs)) ` {vs \<in> R. row_in tdef req vs}"
      using x in_row by blast
  next
    fix x
    assume "x \<in> (\<lambda>vs. (tree_key tdef i vs, tree_val tdef i vs)) ` {vs \<in> R. row_in tdef req vs}"
    then obtain vs where vs: "vs \<in> R" "row_in tdef req vs" "x = (tree_key tdef i vs, tree_val tdef i vs)"
      by blast
    then show "x \<in> {(k, v). m k = Some v \<and> cmp_ok k (sn_cmp1 req) e1 \<and> cmp_ok k (sn_cmp2 req) e2}"
      using in_row [OF vs(1)] at [OF vs(1)] by simp
  qed
qed

text \<open>A list of pairs that are those of distinct rows.\<close>

lemma rows_of_pairs:
  assumes "distinct xs" and "set xs = f ` A" and "inj_on f A"
  obtains L where "distinct L" and "set L = A" and "xs = map f L"
proof -
  let ?L = "map (the_inv_into A f) xs"
  have f: "f (the_inv_into A f x) = x" if "x \<in> set xs" for x
    using assms(2,3) that by (simp add: f_the_inv_into_f)
  then have xs: "xs = map f ?L"
    by (simp add: map_idI)
  moreover have "set ?L = A"
    using assms(2,3) by (simp add: image_image the_inv_into_f_f)
  moreover have "distinct ?L"
    using assms(1) xs distinct_map [of f ?L] by metis
  ultimately show thesis
    using that by blast
qed

lemma tree_pair_inj:
  assumes S: "schema_ok tdef" and T: "table_at tdef m R" and i: "tree_of tdef i"
  shows "inj_on (\<lambda>vs. (tree_key tdef i vs, tree_val tdef i vs)) {vs \<in> R. P vs}"
proof (rule inj_onI)
  fix vs ws
  assume a: "vs \<in> {vs \<in> R. P vs}" "ws \<in> {vs \<in> R. P vs}"
    and eq: "(tree_key tdef i vs, tree_val tdef i vs) = (tree_key tdef i ws, tree_val tdef i ws)"
  then have "pk_vals tdef vs = pk_vals tdef ws"
    using tree_key_pk [OF S table_atD(1) [OF T] table_atD(1) [OF T] i] by auto
  then show "vs = ws"
    using table_atD(2) [OF T] a by (auto simp: inj_on_def)
qed

context page_view
begin

text \<open>\<open>db_scan\<close> succeeds and has exactly the rows in the range ahead.\<close>

lemma db_scan_ok:
  assumes inv: "inv s" and rep: "represents (live s) root m" and S: "schema_ok tdef" and T: "table_at tdef m R"
    and i: "find_index tdef (rec_cols (sn_key1 req)) = Inr i" and opp: "opposite (sn_cmp1 req) (sn_cmp2 req)"
    and b1: "bound_ok tdef (scan_cols tdef i) (sn_key1 req)" and b2: "bound_ok tdef (scan_cols tdef i) (sn_key2 req)"
  obtains sc r L where "db_scan pm root s tdef req = Inr (sc, None)" and "sn_tdef sc = Some tdef" and "sn_index_no sc = i"
    and "ahead pm s sc r" and "takeWhile (within sc) r = map (\<lambda>vs. (tree_key tdef i vs, tree_val tdef i vs)) L"
    and "distinct L" and "set L = {vs \<in> R. row_in tdef req vs}"
    and "sorted_wrt (if cmp_val (sn_cmp1 req) > 0 then (<) else (>)) (map (tree_key tdef i) L)"
proof -
  have tree: "tree_of tdef i"
    using find_index_tree [OF i] by blast
  obtain e1 where e1: "encode_key_partial (scan_prefix tdef i) (rec_vals (sn_key1 req)) tdef (scan_cols tdef i) (sn_cmp1 req) = Inr e1"
    using fields_bound [OF S tree b1] by metis
  obtain e2 where e2: "encode_key_partial (scan_prefix tdef i) (rec_vals (sn_key2 req)) tdef (scan_cols tdef i) (sn_cmp2 req) = Inr e2"
    using fields_bound [OF S tree b2] by metis
  obtain it fuel r where it: "BTree_seek pm root s e1 (sn_cmp1 req) = Inr it"
      "walk pm s (cmp_val (sn_cmp1 req) > 0) fuel it = Inr r" "scanned m e1 (sn_cmp1 req) r"
    by (rule seek_walk_ok [OF inv rep])
  define sc where "sc = req\<lparr>sn_iter := it, sn_tdef := Some tdef, sn_index_no := i, sn_key_end := e2\<rparr>"
  note checks = check_bound_ok [OF schema_known [OF S scan_cols_known [OF S tree]]]
  have cols: "(if i < 0 then take (nat (pkeys tdef)) (tcols tdef) else indexes tdef ! nat i) = scan_cols tdef i"
    "(if i < 0 then prefix tdef else index_prefixes tdef ! nat i) = scan_prefix tdef i"
    by (simp_all add: scan_cols_def scan_prefix_def pk_cols_def)
  have "\<not> (\<not> i < 0 \<and> nat i \<ge> length (index_prefixes tdef))"
    using tree schema_okD(5) [OF S] by (auto simp: tree_of_def)
  note index = this
  have "cmp_val (sn_cmp1 req) > 0 \<and> cmp_val (sn_cmp2 req) < 0 \<or> cmp_val (sn_cmp1 req) < 0 \<and> cmp_val (sn_cmp2 req) > 0"
    using opposite_check [OF opp] by blast
  then have "scan_setup pm root s tdef (req\<lparr>sn_iter := empty_BIter\<rparr>) = qret sc"
    using i index checks [OF b1] checks [OF b2] e1 e2 it(1) by (elim disjE) (auto simp: scan_setup_def Let_def cols sc_def)
  then have run: "db_scan pm root s tdef req = Inr (sc, None)"
    by (simp add: db_scan_def qret_def)
  have within: "within sc = (\<lambda>x. cmp_ok (fst x) (sn_cmp2 req) e2)"
    by (simp add: within_def sc_def fun_eq_iff)
  have opp': "(cmp_val (sn_cmp1 req) > 0) \<noteq> (cmp_val (sn_cmp2 req) > 0)"
    using opp by (simp add: opposite_def)
  note tw = scan_takeWhile [OF it(3) opp', of e2]
  obtain L where L: "distinct L" "set L = {vs \<in> R. row_in tdef req vs}"
      "takeWhile (within sc) r = map (\<lambda>vs. (tree_key tdef i vs, tree_val tdef i vs)) L"
    using rows_of_pairs [OF tw(2) tw(1) [unfolded rows_between [OF S T tree opp b1 b2 e1 e2]] tree_pair_inj [OF S T tree]]
    unfolding within by blast
  have "ahead pm s sc r"
    using it(2) by (auto simp: ahead_def sc_def)
  moreover have "map fst (takeWhile (within sc) r) = map (tree_key tdef i) L"
    unfolding L(3) by simp
  with scan_takeWhile_sorted [OF it(3), of "within sc"]
  have "sorted_wrt (if cmp_val (sn_cmp1 req) > 0 then (<) else (>)) (map (tree_key tdef i) L)"
    by simp
  ultimately show thesis
    using that [OF run _ _ _ L(3,1,2)] by (simp add: sc_def)
qed

end

section \<open>Point reads\<close>

lemma ahead_none:
  assumes "ahead pm s sc r" and "takeWhile (within sc) r = []"
  shows "Scanner_valid sc = Inr False"
  using ahead_valid [OF assms(1)] assms(2) by (cases r) (auto split: if_splits)

lemma ahead_some:
  assumes "ahead pm s sc r" and "takeWhile (within sc) r = x # xs"
  obtains r' where "r = x # r'" and "within sc x" and "Scanner_valid sc = Inr True" and "BIter_deref (sn_iter sc) = Inr x"
proof -
  obtain r' where r: "r = x # r'" "within sc x"
    using assms(2) by (cases r) (auto split: if_splits)
  have "BIter_deref (sn_iter sc) = Inr x"
    using assms(1) unfolding r(1) by (rule ahead_deref)
  then show thesis
    using that r ahead_valid [OF assms(1)] by simp
qed

text \<open>A record of exactly the key columns, in order.\<close>

definition key_rec :: "TableDef \<Rightarrow> Value list \<Rightarrow> Record" where
  "key_rec tdef pks = \<lparr>rec_cols = pk_cols tdef, rec_vals = pks\<rparr>"

lemma tree_key_minus [simp]:
  assumes "schema_ok tdef" and "typed_vals tdef vs" and "i < 0"
  shows "tree_key tdef i vs = pk_key tdef vs" and "tree_val tdef i vs = row_val tdef vs"
  using assms pk_vals_fields [OF assms(1) typed_length [OF assms(1,2)]]
  by (simp_all add: tree_key_def tree_val_def pk_key_def scan_cols_def scan_prefix_def)

lemma key_types:
  assumes "schema_ok tdef"
  shows "take (nat (pkeys tdef)) (types tdef) = map (col_type tdef) (pk_cols tdef)"
proof (rule nth_equalityI)
  note D = schema_okD [OF assms]
  show "length (take (nat (pkeys tdef)) (types tdef)) = length (map (col_type tdef) (pk_cols tdef))"
    using D(7) by (simp add: pk_cols_def)
  show "take (nat (pkeys tdef)) (types tdef) ! i = map (col_type tdef) (pk_cols tdef) ! i"
    if "i < length (take (nat (pkeys tdef)) (types tdef))" for i
    using that col_index_nth [OF assms, of i] D(7) by (simp add: pk_cols_def col_type_def)
qed

lemma point_range:
  assumes S: "schema_ok tdef" and rec: "check_record tdef rec (pkeys tdef) = qret pks" and vs: "typed_vals tdef vs"
  shows "bound_ok tdef (pk_cols tdef) (key_rec tdef pks)"
    and "row_in tdef (Scanner_new CMP_GE CMP_LE (key_rec tdef pks) (key_rec tdef pks)) vs \<longleftrightarrow> pk_vals tdef vs = map canonical pks"
proof -
  let ?key = "key_rec tdef pks"
  show b: "bound_ok tdef (pk_cols tdef) ?key"
    using checked_key(1) [OF S rec] key_types [OF S] by (simp add: bound_ok_def key_rec_def is_prefix_def)
  have b': "bound_ok tdef (scan_cols tdef (-1)) ?key"
    using b by (simp add: scan_cols_def)
  have len: "length pks = length (pk_cols tdef)"
    using checked_key(4) [OF S rec] schema_okD(9) [OF S] by (simp add: pk_cols_def)
  have e: "encode_key_partial (scan_prefix tdef (-1)) (rec_vals ?key) tdef (scan_cols tdef (-1)) cmp = Inr (key_of (prefix tdef) pks)" for cmp
    using checked_key(3) [OF S rec] len by (simp add: encode_key_partial_def key_rec_def scan_prefix_def scan_cols_def)
  have cmp: "cmp_ok (pk_key tdef vs) cmp (key_of (prefix tdef) pks) = val_ok cmp (map (field tdef vs) (pk_cols tdef)) pks" for cmp
  proof -
    have "tree_of tdef (-1)"
      by (simp add: tree_of_def)
    then obtain f where f: "encode_key_partial (scan_prefix tdef (-1)) (rec_vals ?key) tdef (scan_cols tdef (-1)) cmp = Inr f"
        "cmp_ok (tree_key tdef (-1) vs) cmp f = val_ok cmp (map (field tdef vs) (rec_cols ?key)) (rec_vals ?key)"
      using fields_bound [OF S _ b', of cmp] vs by metis
    then show ?thesis
      using e [of cmp] tree_key_minus(1) [OF S vs, of "-1"] by (simp add: key_rec_def)
  qed
  have "row_in tdef (Scanner_new CMP_GE CMP_LE ?key ?key) vs \<longleftrightarrow> pk_key tdef vs = key_of (prefix tdef) pks"
    using cmp [of CMP_GE] cmp [of CMP_LE] by (auto simp: row_in_def Scanner_new_def key_rec_def)
  then show "row_in tdef (Scanner_new CMP_GE CMP_LE ?key ?key) vs \<longleftrightarrow> pk_vals tdef vs = map canonical pks"
    using named_key [OF S rec vs] by simp
qed

context page_view
begin

lemma get_fuel_ok:
  assumes inv: "inv s" and rep: "represents (live s) root m" and S: "schema_ok tdef" and T: "table_at tdef m R"
    and rec: "check_record tdef rec (pkeys tdef) = qret pks"
  shows "named_row tdef pks R = {} \<Longrightarrow> get_fuel (Suc (Suc n)) pm root s tdef rec = qret None"
    and "vs \<in> named_row tdef pks R \<Longrightarrow> get_fuel (Suc (Suc n)) pm root s tdef rec = qret (Some (row_rec tdef vs))"
proof -
  let ?req = "Scanner_new CMP_GE CMP_LE (key_rec tdef pks) (key_rec tdef pks)"
  have req: "rec_cols (sn_key1 ?req) = pk_cols tdef" "sn_key1 ?req = key_rec tdef pks" "sn_key2 ?req = key_rec tdef pks"
      "opposite (sn_cmp1 ?req) (sn_cmp2 ?req)"
    by (simp_all add: Scanner_new_def key_rec_def opposite_def)
  have in_row: "{vs \<in> R. row_in tdef ?req vs} = named_row tdef pks R"
    using point_range(2) [OF S rec table_atD(1) [OF T]] by (auto simp: named_row_def)
  have b: "bound_ok tdef (scan_cols tdef (-1)) (key_rec tdef pks)"
    using checked_key(1) [OF S rec] key_types [OF S] by (simp add: bound_ok_def key_rec_def is_prefix_def scan_cols_def)
  obtain sc r L where sc: "db_scan pm root s tdef ?req = Inr (sc, None)" "sn_tdef sc = Some tdef" "sn_index_no sc = -1"
      "ahead pm s sc r" "takeWhile (within sc) r = map (\<lambda>vs. (tree_key tdef (-1) vs, tree_val tdef (-1) vs)) L"
      "set L = named_row tdef pks R"
  proof (rule db_scan_ok [OF inv rep S T, of ?req "-1"])
    show "find_index tdef (rec_cols (sn_key1 ?req)) = Inr (-1)"
      unfolding req(1) by (rule find_index_pk)
    show "bound_ok tdef (scan_cols tdef (-1)) (sn_key1 ?req)" "bound_ok tdef (scan_cols tdef (-1)) (sn_key2 ?req)"
      unfolding req(2,3) by (rule b)+
  qed (use req(4) in_row in auto)
  have run: "get_fuel (Suc (Suc n)) pm root s tdef rec =
      rbind (Scanner_valid sc) (\<lambda>v. if \<not> v then qret None else rbind (deref_fuel (Suc n) pm root s sc) (\<lambda>row. qret (Some row)))"
    using rec sc(1) by (simp add: key_rec_def pk_cols_def del: deref_fuel.simps)
  show "get_fuel (Suc (Suc n)) pm root s tdef rec = qret None" if "named_row tdef pks R = {}"
    using run sc(6) that ahead_none [OF sc(4)] sc(5) by simp
  show "get_fuel (Suc (Suc n)) pm root s tdef rec = qret (Some (row_rec tdef vs))" if vs: "vs \<in> named_row tdef pks R"
  proof -
    obtain w L' where L: "L = w # L'"
      using vs sc(6) by (cases L) auto
    have "w \<in> named_row tdef pks R"
      using L sc(6) by auto
    then have w: "w = vs" "vs \<in> R"
      using vs table_atD(2) [OF T] by (auto simp: named_row_def inj_on_def)
    note typed = table_atD(1) [OF T w(2)]
    have tw: "takeWhile (within sc) r = (pk_key tdef vs, row_val tdef vs) # map (\<lambda>vs. (tree_key tdef (-1) vs, tree_val tdef (-1) vs)) L'"
      using sc(5) L w(1) tree_key_minus [OF S typed, of "-1"] by simp
    obtain r' where at: "Scanner_valid sc = Inr True" "BIter_deref (sn_iter sc) = Inr (pk_key tdef vs, row_val tdef vs)"
      using ahead_some [OF sc(4) tw] by blast
    have "deref_fuel (Suc n) pm root s sc = Inr (row_rec tdef vs)"
      using at sc(2,3) decode_stored_row [OF S typed] by simp
    then show ?thesis
      using run at(1) by simp
  qed
qed

end

text \<open>The row a key names, as a record.\<close>

definition found_row :: "TableDef \<Rightarrow> Value list \<Rightarrow> Value list set \<Rightarrow> Record option" where
  "found_row tdef pks R = (if named_row tdef pks R = {} then None else Some (row_rec tdef (the_elem (named_row tdef pks R))))"

lemma named_row_single: "table_at tdef m R \<Longrightarrow> vs \<in> named_row tdef pks R \<Longrightarrow> named_row tdef pks R = {vs}"
  using table_atD(2) [of tdef m R] by (auto simp: named_row_def inj_on_def)

context page_view
begin

lemma db_get_found:
  assumes "inv s" and "represents (live s) root m" and "schema_ok tdef" and T: "table_at tdef m R"
    and "check_record tdef rec (pkeys tdef) = qret pks"
  shows "db_get pm root s tdef rec = qret (found_row tdef pks R)"
proof (cases "named_row tdef pks R = {}")
  case True
  then show ?thesis
    using get_fuel_ok(1) [OF assms, of 0] by (simp add: db_get_def found_row_def numeral_2_eq_2 del: get_fuel.simps)
next
  case False
  then obtain vs where "vs \<in> named_row tdef pks R"
    by blast
  moreover from this have "named_row tdef pks R = {vs}"
    by (rule named_row_single [OF T])
  ultimately show ?thesis
    using get_fuel_ok(2) [OF assms, of vs 0]
    by (simp add: db_get_def found_row_def numeral_2_eq_2 del: get_fuel.simps)
qed

end

section \<open>Rows of a scan\<close>

lemma get_from_map: "c \<in> set cols \<Longrightarrow> get_from cols (map f cols) c = Some (f c)"
  by (induction cols) auto

lemma Record_get_map: "c \<in> set cols \<Longrightarrow> Record_get \<lparr>rec_cols = cols, rec_vals = map f cols\<rparr> c = Some (f c)"
  by (simp add: Record_get_def get_from_map)

lemma index_slots_ok:
  "known_cols tdef cols \<Longrightarrow> index_slots tdef cols = Inr (map (\<lambda>c. default_Value\<lparr>vtype := col_type tdef c\<rparr>) cols)"
proof (induction cols)
  case (Cons c cols)
  then show ?case
    using known_col(1,2) [OF Cons.prems, of c] known_cols_Cons [OF Cons.prems] by (simp add: col_type_def Let_def)
qed simp

lemma check_key_rec:
  assumes S: "schema_ok tdef" and vs: "typed_vals tdef vs"
  shows "check_record tdef (key_rec tdef (pk_vals tdef vs)) (pkeys tdef) = qret (pk_vals tdef vs)"
proof -
  note D = schema_okD [OF S] and len = typed_length [OF S vs]
  obtain r where r: "check_record tdef (key_rec tdef (pk_vals tdef vs)) (pkeys tdef) = Inr r"
      "\<And>ws. r = Inr ws \<longleftrightarrow> length ws = nat (pkeys tdef) \<and> (\<forall>i<nat (pkeys tdef).
        Record_get (key_rec tdef (pk_vals tdef vs)) (tcols tdef ! i) = Some (ws ! i) \<and> vtype (ws ! i) = types tdef ! i)
        \<and> set (rec_cols (key_rec tdef (pk_vals tdef vs))) \<subseteq> set (take (nat (pkeys tdef)) (tcols tdef))"
    using check_record_ok [OF D(7), of "pkeys tdef" "key_rec tdef (pk_vals tdef vs)"] D(8,9) by auto
  have "Record_get (key_rec tdef (pk_vals tdef vs)) (tcols tdef ! i) = Some (pk_vals tdef vs ! i)
      \<and> vtype (pk_vals tdef vs ! i) = types tdef ! i" if i: "i < nat (pkeys tdef)" for i
  proof -
    have c: "tcols tdef ! i \<in> set (pk_cols tdef)"
      using i D(9) by (auto simp: pk_cols_def in_set_conv_nth)
    have "vtype (vs ! i) = types tdef ! i"
      using vs i len D(9) nth_map [of i vs vtype] by (simp add: typed_vals_def)
    then show ?thesis
      using Record_get_map [OF c, of "field tdef vs"] field_nth [OF S len, of i] i len D(9)
      by (simp add: key_rec_def pk_vals_fields [OF S len, symmetric]) (simp add: pk_vals_def)
  qed
  then have "r = Inr (pk_vals tdef vs)"
    unfolding r(2) using len D(9) by (simp add: pk_vals_def key_rec_def pk_cols_def)
  then show ?thesis
    using r(1) by (simp add: qret_def)
qed

context page_view
begin

lemma deref_ok:
  assumes inv: "inv s" and rep: "represents (live s) root m" and S: "schema_ok tdef" and T: "table_at tdef m R"
    and at: "BIter_deref (sn_iter sc) = Inr (tree_key tdef i vs, tree_val tdef i vs)" "Scanner_valid sc = Inr True"
    and sc: "sn_tdef sc = Some tdef" "sn_index_no sc = i" and i: "tree_of tdef i" and vs: "vs \<in> R"
  shows "Scanner_deref pm root s sc = Inr (row_rec tdef vs)"
proof -
  note typed = table_atD(1) [OF T vs]
  have three: "(3 :: nat) = Suc (Suc (Suc 0))"
    by simp
  show ?thesis
  proof (cases "i < 0")
    case True
    then show ?thesis
      using at sc decode_stored_row [OF S typed] tree_key_minus [OF S typed True] by (simp add: Scanner_deref_def three)
  next
    case False
    define cols where "cols = scan_cols tdef i"
    have cols: "indexes tdef ! nat i = cols" "\<not> nat i \<ge> length (indexes tdef)" "set cols \<subseteq> set (tcols tdef)"
      using False i scan_cols_known [OF S i] by (auto simp: cols_def scan_cols_def tree_of_def)
    have pk: "set (pk_cols tdef) \<subseteq> set cols"
      using schema_index(1) [OF S, of cols] cols False i by (auto simp: tree_of_def)
    note F = fields_typed [OF S typed cols(3)]
    have slots: "index_slots tdef cols = Inr (map (\<lambda>v. default_Value\<lparr>vtype := vtype v\<rparr>) (map (field tdef vs) cols))"
    proof -
      have "\<forall>c\<in>set cols. vtype (field tdef vs c) = col_type tdef c"
        using field_type(1) [OF S typed] cols(3) by blast
      then show ?thesis
        using index_slots_ok [OF schema_known [OF S cols(3)]] by simp
    qed
    have key: "decode_key (tree_key tdef i vs) (map (\<lambda>v. default_Value\<lparr>vtype := vtype v\<rparr>) (map (field tdef vs) cols))
        = Inr (map (field tdef vs) cols)"
      using decode_key_of [OF F(3)] F(2) by (simp add: tree_key_def cols_def)
    have all: "get_all \<lparr>rec_cols = cols, rec_vals = map (field tdef vs) cols\<rparr> (pk_cols tdef) = Inr (pk_vals tdef vs)"
      unfolding pk_vals_fields [OF S typed_length [OF S typed]] using pk by (intro get_all_fields Record_get_map) blast
    have "vs \<in> named_row tdef (pk_vals tdef vs) R"
      using vs typed by (simp add: named_row_def pk_vals_def typed_vals_def take_map [symmetric])
    then have get: "get_fuel (Suc (Suc 0)) pm root s tdef \<lparr>rec_cols = pk_cols tdef, rec_vals = pk_vals tdef vs\<rparr> = qret (Some (row_rec tdef vs))"
      using get_fuel_ok(2) [OF inv rep S T check_key_rec [OF S typed]] by (simp only: key_rec_def)
    show ?thesis
      unfolding Scanner_deref_def three deref_fuel.simps(2)
      using at sc False cols(1,2) slots key all get
      by (simp add: tree_val_def pk_cols_def qret_def del: get_fuel.simps deref_fuel.simps)
  qed
qed

end

end
