(* ===== verification/Range_Types.thy ===== *)
theory Range_Types
  imports QL_Range_Spec
begin

text \<open>The keys of a range have the types of their columns, and its relations point inwards.\<close>

definition bound_typed :: "ValueType \<Rightarrow> ColBound \<Rightarrow> bool" where
  "bound_typed T b \<longleftrightarrow> (has_eq b \<longrightarrow> vtype (cb_eq b) = T) \<and> (has_lo b \<longrightarrow> vtype (cb_lo b) = T) \<and> (has_hi b \<longrightarrow> vtype (cb_hi b) = T)"

definition bounds_typed :: "TableDef \<Rightarrow> Bounds \<Rightarrow> bool" where
  "bounds_typed tdef bounds \<longleftrightarrow> (\<forall>c b. map_of bounds c = Some b \<longrightarrow> bound_typed (col_type tdef c) b)"

lemma add_bound_typed:
  assumes "bounds_typed tdef out" and "vtype v = col_type tdef c"
  shows "bounds_typed tdef (add_bound op c v out)"
proof -
  have "bound_typed (col_type tdef c) (case map_of out c of None \<Rightarrow> empty_ColBound | Some b \<Rightarrow> b)"
    using assms(1) by (auto simp: bounds_typed_def bound_typed_def empty_ColBound_def split: option.splits)
  then show ?thesis
    using assms by (auto simp: bounds_typed_def add_bound_def Let_def bound_typed_def split: if_splits)
qed

lemma collect_cmp_typed:
  assumes "bounds_typed tdef out" and "collect_cmp t k0 k1 tdef out = Inr out'"
  shows "bounds_typed tdef out'"
proof -
  obtain op sym val where d: "(if q_type k0 \<noteq> QL_SYM then (flip t, k1, k0) else (t, k0, k1)) = (op, sym, val)"
    by (metis prod_cases3)
  have "out' = out \<or> (\<exists>v. vtype v = col_type tdef (vstr (q_val sym)) \<and> out' = add_bound op (vstr (q_val sym)) v out)"
  proof (cases "ql_eval val empty_Record")
    case (Inr r)
    then show ?thesis
      using assms(2) unfolding collect_cmp_def d by (cases r) (auto simp: Let_def col_type_def split: if_splits)
  qed (use assms(2) in \<open>auto simp: collect_cmp_def d Let_def split: if_splits\<close>)
  then show ?thesis
    using assms(1) add_bound_typed [OF assms(1)] by auto
qed

lemma collect_typed: "bounds_typed tdef out \<Longrightarrow> collect node tdef out = Inr out' \<Longrightarrow> bounds_typed tdef out'"
proof (induction node arbitrary: out out')
  case (QLNode t v kids)
  show ?case
  proof (cases "t = QL_AND")
    case True
    then obtain k0 k1 ks o1 where k: "kids = k0 # k1 # ks" "collect k0 tdef out = Inr o1" "collect k1 tdef o1 = Inr out'"
      using QLNode.prems(2) by (auto simp: collect.simps rbind_eq_Inr split: list.splits)
    then show ?thesis
      using QLNode.IH(1) [of k0 out o1] QLNode.IH(1) [of k1 o1 out'] QLNode.prems(1) by simp
  next
    case False
    then show ?thesis
      using QLNode.prems collect_cmp_typed by (auto simp: collect.simps split: if_splits list.splits)
  qed
qed

definition range_typed :: "TableDef \<Rightarrow> QLRange \<Rightarrow> bool" where
  "range_typed tdef r \<longleftrightarrow> r_cmp1 r \<in> {CMP_GE, CMP_GT} \<and> r_cmp2 r \<in> {CMP_LE, CMP_LT}
     \<and> map vtype (rec_vals (r_key1 r)) = map (col_type tdef) (rec_cols (r_key1 r))
     \<and> map vtype (rec_vals (r_key2 r)) = map (col_type tdef) (rec_cols (r_key2 r))"

lemma full_range_typed: "range_typed tdef full_range"
  by (simp add: range_typed_def full_range_def empty_Record_def)

lemma push_eqs_typed:
  "bounds_typed tdef bounds \<Longrightarrow> (\<And>c. c \<in> set cs \<Longrightarrow> \<exists>b. map_of bounds c = Some b \<and> has_eq b) \<Longrightarrow>
    range_typed tdef out \<Longrightarrow> push_eqs bounds cs out = Inr out' \<Longrightarrow> range_typed tdef out'"
proof (induction bounds cs out rule: push_eqs.induct)
  case (2 bounds c cs out)
  obtain b where b: "map_of bounds c = Some b" "has_eq b"
    using 2(3) [of c] by auto
  then have "vtype (cb_eq b) = col_type tdef c"
    using 2(2) by (auto simp: bounds_typed_def bound_typed_def)
  then have "range_typed tdef (out\<lparr>r_key1 := push_col (r_key1 out) c (cb_eq b), r_key2 := push_col (r_key2 out) c (cb_eq b)\<rparr>)"
    using 2(4) by (simp add: range_typed_def push_col_def)
  then show ?case
    using 2(1) [of b] 2(2,3,5) b by (simp add: bounds_at_def)
qed simp

lemma push_range_typed:
  assumes "bounds_typed tdef bounds" and "range_typed tdef out" and "push_range bounds c out = Inr out'"
  shows "range_typed tdef out'"
proof -
  obtain b where b: "map_of bounds c = Some b"
    using assms(3) by (auto simp: push_range_def bounds_at_def rbind_eq_Inr split: option.splits)
  then have "bound_typed (col_type tdef c) b"
    using assms(1) by (auto simp: bounds_typed_def)
  then show ?thesis
    using assms(2,3) b by (auto simp: push_range_def bounds_at_def bound_typed_def range_typed_def push_col_def Let_def split: if_splits)
qed

lemma ql_range_typed:
  assumes "ql_range cond tdef = Inr r"
  shows "range_typed tdef r"
proof (cases "r = full_range")
  case True
  then show ?thesis
    by (simp add: full_range_typed)
next
  case False
  let ?pk = "take (nat (pkeys tdef)) (tcols tdef)"
  obtain bounds where bounds: "collect cond tdef [] = Inr bounds"
    using assms False by (auto simp: ql_range_def rbind_eq_Inr split: if_splits)
  have typed: "bounds_typed tdef bounds"
    by (rule collect_typed [OF _ bounds]) (simp add: bounds_typed_def)
  obtain best f p where best: "best_index bounds (indexes tdef) (?pk, fit_cols ?pk bounds, True) = (best, f, p)"
    by (metis prod_cases3)
  obtain o1 where o1: "push_eqs bounds (take (fit_eq f) best) full_range = Inr o1"
      "(if fit_range f then push_range bounds (best ! fit_eq f) o1 else Inr o1) = Inr r"
    using assms False unfolding ql_range_def bounds rbind_simps Let_def best prod.case
    by (auto simp: rbind_eq_Inr split: if_splits)
  have "fit_eq f = eq_run best bounds"
    using best_index_fit [OF best] by (simp add: fit_cols_def Let_def)
  then have "range_typed tdef o1"
    using push_eqs_typed [OF typed _ full_range_typed o1(1)] eq_run_bounds by auto
  then show ?thesis
    using o1(2) push_range_typed [OF typed] by (auto split: if_splits)
qed

end
