(* ===== verification/Table_Spec.thy ===== *)
theory Table_Spec
  imports Table_Ops
begin

text \<open>
  What storing and deleting a row do to a table, as one statement each: the refinement of the writes to
  the store by updates of a set of rows. Deletions ask that no key is followed by a longer one, so that
  the tree has room (see \<open>roomy\<close>).
\<close>

section \<open>The contracts\<close>

definition stored_rows :: "TableDef \<Rightarrow> Value list \<Rightarrow> UpdateMode \<Rightarrow> Value list set \<Rightarrow> Value list set" where
  "stored_rows tdef row mode R = (if mode_met mode (same_pk tdef row R \<noteq> {}) then replace_row tdef row R else R)"

definition store_result :: "TableDef \<Rightarrow> Value list \<Rightarrow> UpdateMode \<Rightarrow> Value list set \<Rightarrow> bytes + unit" where
  "store_result tdef row mode R =
     (if mode_met mode (same_pk tdef row R \<noteq> {}) then Inr () else Inl (mode_error tdef (same_pk tdef row R \<noteq> {})))"

definition short_update :: "TableDef \<Rightarrow> Value list \<Rightarrow> (bytes \<rightharpoonup> bytes) \<Rightarrow> Value list set \<Rightarrow> bool" where
  "short_update tdef row m R \<longleftrightarrow>
     (\<forall>old\<in>same_pk tdef row R. short_run (entries tdef old) (m(pk_key tdef row \<mapsto> row_val tdef row)))"

definition short_delete :: "TableDef \<Rightarrow> Value list \<Rightarrow> (bytes \<rightharpoonup> bytes) \<Rightarrow> Value list set \<Rightarrow> bool" where
  "short_delete tdef pks m R \<longleftrightarrow> (\<forall>old\<in>named_row tdef pks R. short_run (pk_key tdef old # entries tdef old) m)"

definition update_writes :: "TableDef \<Rightarrow> nat" where
  "update_writes tdef = Suc (2 * length (indexes tdef))"

context tx_store
begin

lemma db_update_step:
  assumes S: "schema_ok tdef" and T: "table_at tdef m R" and rec: "check_record tdef rec (int (length (tcols tdef))) = qret vs"
    and ok0: "ok (update_writes tdef + n) tx m" and fits: "fits_row tdef (map canonical vs)" and short: "short_update tdef (map canonical vs) m R"
  shows "\<exists>tx' m'. db_update file tdef rec mode tx = Inr (store_result tdef (map canonical vs) mode R, tx') \<and> ok n tx' m'
    \<and> table_at tdef m' (stored_rows tdef (map canonical vs) mode R) \<and> (\<forall>k. foreign tdef k \<longrightarrow> m' k = m k)
    \<and> (store_result tdef (map canonical vs) mode R = Inr () \<longrightarrow>
         m' = add_keys (entries tdef (map canonical vs)) (rewritten tdef (map canonical vs) R m))"
proof (cases "mode_met mode (same_pk tdef (map canonical vs) R \<noteq> {})")
  case True
  have ok1: "ok (Suc (2 * length (indexes tdef) + n)) tx m"
    using ok0 by (simp add: update_writes_def)
  have "update_room file tdef tx (map canonical vs) R"
    unfolding update_room_def
  proof (intro ballI allI impI)
    fix old tx1
    assume old: "old \<in> same_pk tdef (map canonical vs) R"
      and tx1: "KVTX_set file tx (pk_key tdef (map canonical vs)) (row_val tdef (map canonical vs)) = Inr tx1"
    have "ok (2 * length (indexes tdef) + n) tx1 (m(pk_key tdef (map canonical vs) \<mapsto> row_val tdef (map canonical vs)))"
      using set_ok [OF ok1] fits tx1 by (fastforce simp: fits_row_def)
    then have "ok (length (entries tdef old) + 0) tx1 (m(pk_key tdef (map canonical vs) \<mapsto> row_val tdef (map canonical vs)))"
      by (rule fewer) (simp add: S)
    then show "del_room file (entries tdef old) tx1"
      using short old unfolding short_update_def by (blast intro: short_run_room)
  qed
  then show ?thesis
    using db_update_ok [OF S T rec ok1 refl fits True] True
    by (auto simp: store_result_def stored_rows_def sret_def)
next
  case False
  have "db_update file tdef rec mode tx = serr (mode_error tdef (same_pk tdef (map canonical vs) R \<noteq> {})) tx"
    using db_update_refused [OF S T rec ok0 refl _ False] fits by (simp add: fits_row_def)
  moreover have "ok n tx m"
    by (rule fewer [OF ok0]) simp
  ultimately show ?thesis
    using T False by (auto simp: store_result_def stored_rows_def serr_def)
qed

lemma db_delete_step:
  assumes S: "schema_ok tdef" and T: "table_at tdef m R" and rec: "check_record tdef rec (pkeys tdef) = qret pks"
    and ok0: "ok (Suc (length (indexes tdef)) + n) tx m" and key: "valid_key (key_of (prefix tdef) pks)"
    and short: "short_delete tdef pks m R"
  shows "\<exists>tx' m'. db_delete file tdef rec tx = sret (named_row tdef pks R \<noteq> {}) tx' \<and> ok n tx' m'
    \<and> table_at tdef m' (R - named_row tdef pks R) \<and> (\<forall>k. foreign tdef k \<longrightarrow> m' k = m k)
    \<and> (\<forall>old\<in>named_row tdef pks R. m' = drop_keys (pk_key tdef old # entries tdef old) m)"
proof (cases "named_row tdef pks R = {}")
  case True
  moreover have "ok n tx m"
    by (rule fewer [OF ok0]) simp
  ultimately show ?thesis
    using db_delete_absent [OF S T rec ok0 key True] T by auto
next
  case False
  then obtain old where old: "old \<in> named_row tdef pks R"
    by blast
  then have named: "named_row tdef pks R = {old}"
    using table_atD(2) [OF T] by (auto simp: named_row_def inj_on_def)
  have "ok (length (pk_key tdef old # entries tdef old) + 0) tx m"
    by (rule fewer [OF ok0]) (simp add: S)
  then have "del_room file (pk_key tdef old # entries tdef old) tx"
    using short old unfolding short_delete_def by (blast intro: short_run_room)
  then obtain tx' m' where "db_delete file tdef rec tx = sret True tx'" "ok n tx' m'" "table_at tdef m' (R - {old})"
      "\<And>k. foreign tdef k \<Longrightarrow> m' k = m k" "m' = drop_keys (pk_key tdef old # entries tdef old) m"
    using db_delete_ok [OF S T rec ok0 [unfolded add_Suc] old] by blast
  then show ?thesis
    unfolding named by (intro exI [of _ tx'] exI [of _ m']) simp
qed

end

end
