(* ===== verification/Catalog_Spec.thy ===== *)
theory Catalog_Spec
  imports Catalog Table_Spec
begin

text \<open>
  The catalog as a whole: which tables a store has, that their key prefixes never collide, and that the
  next prefix to hand out is unused. A store is described by a map from table names to a definition and
  a set of rows, and every operation on tables is an update of that map.
\<close>

section \<open>Keys of the catalog\<close>

abbreviation meta_key :: bytes where
  "meta_key \<equiv> internal_key (prefix TDEF_META) (str ''next_prefix'')"

abbreviation table_key :: "bytes \<Rightarrow> bytes" where
  "table_key name \<equiv> internal_key (prefix TDEF_TABLE) name"

lemma internal_key_eq: "internal_key p k = be_bytes 4 (unat p) @ k"
  using append_u32_be_eq [of "[]" p] by (simp add: internal_key_def append_u32_be_def)

lemma under_internal_key [simp]: "under p (internal_key q k) \<longleftrightarrow> p = q"
  using under_key_of [of p q "[]"] by (simp add: under_def key_of_def internal_key_eq)

lemma internal_prefixes [simp]: "prefix TDEF_META = 1" "prefix TDEF_TABLE = 2"
  by (simp_all add: TDEF_META_def TDEF_TABLE_def set_prefix_def)

lemma internal_key_inj [simp]: "internal_key p a = internal_key q b \<longleftrightarrow> p = q \<and> a = b"
proof -
  have "p = q" if "internal_key p a = internal_key q b"
    using under_internal_key [of p q b] that by (metis under_internal_key)
  then show ?thesis
    by (auto simp: internal_key_def)
qed

lemma show_prefix_length [simp]: "length (show_prefix v) = 4"
  by (simp add: show_prefix_def)

lemma read_shown_prefix [simp]: "read_prefix (show_prefix v) = v"
proof (rule bit_word_eqI)
  show "bit (read_prefix (show_prefix v)) n = bit v n" if "n < LENGTH(32)" for n
    using that unfolding read_prefix_def show_prefix_def
    by (cases "n < 8"; cases "n < 16"; cases "n < 24") (auto simp: bit_simps)
qed

text \<open>The number that \<open>alloc_prefix\<close> hands out next.\<close>

definition next_prefix :: "(bytes \<rightharpoonup> bytes) \<Rightarrow> u32" where
  "next_prefix m = (case m meta_key of
     Some s \<Rightarrow> if length s = 4 then read_prefix s else TABLE_PREFIX_MIN | None \<Rightarrow> TABLE_PREFIX_MIN)"

text \<open>The definition of a table as the catalog stores it.\<close>

definition stored_def :: "(bytes \<rightharpoonup> bytes) \<Rightarrow> bytes \<Rightarrow> TableDef \<Rightarrow> bool" where
  "stored_def m name tdef \<longleftrightarrow> (\<exists>text. m (table_key name) = Some text \<and> decode_table_def text = Inr (Some tdef))"

section \<open>The database a store describes\<close>

type_synonym tables = "bytes \<rightharpoonup> TableDef \<times> Value list set"

definition prefixes :: "TableDef \<Rightarrow> u32 set" where
  "prefixes tdef = insert (prefix tdef) (set (index_prefixes tdef))"

definition table_in :: "(bytes \<rightharpoonup> bytes) \<Rightarrow> bytes \<Rightarrow> TableDef \<Rightarrow> Value list set \<Rightarrow> bool" where
  "table_in m name tdef R \<longleftrightarrow> stored_def m name tdef \<and> tname tdef = name \<and> schema_ok tdef \<and> table_at tdef m R
     \<and> (\<forall>p\<in>prefixes tdef. TABLE_PREFIX_MIN \<le> p \<and> p < next_prefix m)"

definition database :: "(bytes \<rightharpoonup> bytes) \<Rightarrow> tables \<Rightarrow> bool" where
  "database m D \<longleftrightarrow> TABLE_PREFIX_MIN \<le> next_prefix m
     \<and> (\<forall>name. D name = None \<longrightarrow> m (table_key name) = None)
     \<and> (\<forall>name tdef R. D name = Some (tdef, R) \<longrightarrow> table_in m name tdef R)
     \<and> (\<forall>a ta Ra b tb Rb. D a = Some (ta, Ra) \<longrightarrow> D b = Some (tb, Rb) \<longrightarrow> a \<noteq> b \<longrightarrow> prefixes ta \<inter> prefixes tb = {})
     \<and> (\<forall>p k. next_prefix m \<le> p \<longrightarrow> under p k \<longrightarrow> m k = None)"

lemma databaseD:
  assumes "database m D"
  shows "TABLE_PREFIX_MIN \<le> next_prefix m" and "D name = None \<Longrightarrow> m (table_key name) = None"
    and "D name = Some (tdef, R) \<Longrightarrow> table_in m name tdef R"
    and "D a = Some (ta, Ra) \<Longrightarrow> D b = Some (tb, Rb) \<Longrightarrow> a \<noteq> b \<Longrightarrow> prefixes ta \<inter> prefixes tb = {}"
    and "next_prefix m \<le> p \<Longrightarrow> under p k \<Longrightarrow> m k = None"
  using assms unfolding database_def by blast+

lemma empty_database: "database Map.empty Map.empty"
  by (simp add: database_def next_prefix_def)

lemma foreign_internal [simp]: "foreign tdef (internal_key p k) \<longleftrightarrow> p \<notin> prefixes tdef"
  by (auto simp: foreign_def prefixes_def)

lemma foreign_iff: "foreign tdef k \<longleftrightarrow> (\<forall>p\<in>prefixes tdef. \<not> under p k)"
  by (auto simp: foreign_def prefixes_def)

lemma under_unique: "under p k \<Longrightarrow> under q k \<Longrightarrow> p = q"
  using u32_bytes_less [of p q] u32_bytes_less [of q p] by (metis less_irrefl linorder_neqE under_def)

text \<open>A table depends on the keys under its prefixes only.\<close>

lemma table_at_cong:
  assumes "table_at tdef m R" and "\<And>k p. p \<in> prefixes tdef \<Longrightarrow> under p k \<Longrightarrow> m' k = m k"
  shows "table_at tdef m' R"
proof -
  have "snd ix \<in> prefixes tdef" if "ix \<in> set (index_list tdef)" for ix
    using that set_zip_rightD [of "fst ix" "snd ix"] by (simp add: prefixes_def index_list_def)
  then have "m' k = m k" if "under (prefix tdef) k \<or> (\<exists>ix\<in>set (index_list tdef). under (snd ix) k)" for k
    using that assms(2) [of _ k] by (auto simp: prefixes_def)
  then show ?thesis
    unfolding table_at_def
  proof (intro conjI ballI allI impI)
    show "m' k = Some v \<longleftrightarrow> (\<exists>vs\<in>R. k = pk_key tdef vs \<and> v = row_val tdef vs)"
      if "under (prefix tdef) k" and "\<And>k. under (prefix tdef) k \<or> (\<exists>ix\<in>set (index_list tdef). under (snd ix) k) \<Longrightarrow> m' k = m k" for k v
      using that table_atD(3) [OF assms(1)] by simp
    show "m' k = Some v \<longleftrightarrow> (\<exists>vs\<in>R. k = ix_key tdef vs ix \<and> v = [])"
      if "ix \<in> set (index_list tdef)" "under (snd ix) k"
        and "\<And>k. under (prefix tdef) k \<or> (\<exists>ix\<in>set (index_list tdef). under (snd ix) k) \<Longrightarrow> m' k = m k" for ix k v
    proof -
      have "m' k = m k"
        using that by blast
      then show ?thesis
        using table_atD(4) [OF assms(1) that(1,2)] by simp
    qed
  qed (use table_atD(1,2) [OF assms(1)] in auto)
qed

lemma table_prefixes:
  assumes "table_in m name tdef R" and "p \<in> prefixes tdef"
  shows "p \<noteq> prefix TDEF_META" and "p \<noteq> prefix TDEF_TABLE"
proof -
  have "3 \<le> p"
    using assms by (simp add: table_in_def TABLE_PREFIX_MIN_def)
  then show "p \<noteq> prefix TDEF_META" "p \<noteq> prefix TDEF_TABLE"
    by (auto simp: word_le_nat_alt)
qed

text \<open>Changing the rows of one table, and nothing else.\<close>

lemma database_rows:
  assumes db: "database m D" and D: "D name = Some (tdef, R)" and T: "table_at tdef m' R'"
    and other: "\<And>k. foreign tdef k \<Longrightarrow> m' k = m k"
  shows "database m' (D(name \<mapsto> (tdef, R')))"
proof -
  note in_db = databaseD [OF db]
  have in_t: "table_in m name tdef R"
    by (rule in_db(3) [OF D])
  have ne: "prefix TDEF_META \<notin> prefixes tdef" "prefix TDEF_TABLE \<notin> prefixes tdef"
    using table_prefixes [OF in_t] by blast+
  have keys: "m' (internal_key (prefix TDEF_META) k) = m (internal_key (prefix TDEF_META) k)" "m' (table_key k) = m (table_key k)" for k
    using other ne by (simp_all only: foreign_internal not_False_eq_True)
  then have nxt: "next_prefix m' = next_prefix m" and st: "stored_def m' a t = stored_def m a t" for a t
    by (simp_all add: next_prefix_def stored_def_def)
  have rest: "table_in m' a ta Ra" if a: "D a = Some (ta, Ra)" "a \<noteq> name" for a ta Ra
  proof -
    have "table_at ta m' Ra"
    proof (rule table_at_cong)
      show "table_at ta m Ra"
        using in_db(3) [OF a(1)] by (simp add: table_in_def)
      show "m' k = m k" if "p \<in> prefixes ta" "under p k" for k p
      proof (rule other)
        show "foreign tdef k"
          using in_db(4) [OF a(1) D a(2)] that under_unique unfolding foreign_iff by blast
      qed
    qed
    then show ?thesis
      using in_db(3) [OF a(1)] by (simp add: table_in_def nxt st)
  qed
  have own: "table_in m' name tdef R'"
    using in_t T by (simp add: table_in_def nxt st)
  have free: "m' k = None" if "next_prefix m \<le> p" "under p k" for p k
  proof -
    have "p \<notin> prefixes tdef"
      using in_t that(1) by (auto simp: table_in_def)
    then have "foreign tdef k"
      using under_unique [OF that(2)] unfolding foreign_iff by blast
    then show ?thesis
      using other in_db(5) that by simp
  qed
  show ?thesis
    unfolding database_def nxt
  proof (intro conjI allI impI)
    show "prefixes ta \<inter> prefixes tb = {}"
      if "(D(name \<mapsto> (tdef, R'))) a = Some (ta, Ra)" "(D(name \<mapsto> (tdef, R'))) b = Some (tb, Rb)" "a \<noteq> b" for a ta Ra b tb Rb
      using that in_db(4) [of a ta _ b tb] D by (auto split: if_splits)
    show "m' (table_key a) = None" if "(D(name \<mapsto> (tdef, R'))) a = None" for a
      using that in_db(2) [of a] keys(2) by (simp split: if_splits)
    show "table_in m' a ta Ra" if "(D(name \<mapsto> (tdef, R'))) a = Some (ta, Ra)" for a ta Ra
      using that own rest by (cases "a = name") auto
  qed (rule in_db(1), rule free)
qed


section \<open>Creating a table\<close>

text \<open>What the catalog stores for a checked definition: prefixes from \<open>p\<close> on, one for the rows and one per index.\<close>

definition with_prefixes :: "u32 \<Rightarrow> TableDef \<Rightarrow> TableDef" where
  "with_prefixes p t = t\<lparr>prefix := p, index_prefixes := map (\<lambda>i. p + 1 + word_of_nat i) [0..<length (indexes t)]\<rparr>"

lemma with_prefixes_simps [simp]:
  "tname (with_prefixes p t) = tname t" "tcols (with_prefixes p t) = tcols t" "types (with_prefixes p t) = types t"
  "pkeys (with_prefixes p t) = pkeys t" "indexes (with_prefixes p t) = indexes t" "prefix (with_prefixes p t) = p"
  "length (index_prefixes (with_prefixes p t)) = length (indexes t)"
  by (simp_all add: with_prefixes_def)

lemma with_prefixes_checked [simp]: "checked_def (with_prefixes p t) = checked_def t"
  by (simp add: checked_def_def pk_cols_def)

definition creation :: "tables \<Rightarrow> u32 \<Rightarrow> TableDef \<Rightarrow> bytes + TableDef" where
  "creation D p tdef =
     (case table_def_check tdef of
        Inl err \<Rightarrow> Inl err
      | Inr t \<Rightarrow>
          if prefix t \<noteq> 0 \<or> index_prefixes t \<noteq> [] then Inl (str ''prefixes must not be set by the caller'')
          else if D (tname t) \<noteq> None then Inl (str ''table already exists: '' @ tname t)
          else Inr (with_prefixes p t))"

text \<open>
  What the catalog leaves to its caller: names it can read back, no column twice, no column of type
  \<open>ERROR\<close>, a definition that fits a value, and prefixes that have not run out.
\<close>

definition storable :: "u32 \<Rightarrow> TableDef \<Rightarrow> bool" where
  "storable p t \<longleftrightarrow> text_ok t \<and> distinct (tcols t) \<and> ERROR \<notin> set (types t) \<and> valid_key (table_key (tname t))
     \<and> unat p + 1 + length (indexes t) < 2 ^ 32
     \<and> (\<forall>text. encode_table_def t = Inr text \<longrightarrow> length text \<le> BTREE_MAX_VAL_SIZE)"

lemma unat_prefix:
  assumes "unat p + 1 + n < 2 ^ 32" and "i \<le> n"
  shows "unat (p + 1 + word_of_nat i :: u32) = unat p + 1 + i"
proof -
  have "p + 1 + word_of_nat i = word_of_nat (unat p + 1 + i)"
    by simp
  then show ?thesis
    using assms by (simp only: unat_of_nat) (simp add: take_bit_nat_eq_self)
qed

lemma new_prefixes:
  assumes "unat p + 1 + length (indexes t) < 2 ^ 32"
  shows "distinct (p # index_prefixes (with_prefixes p t))"
    and "q \<in> prefixes (with_prefixes p t) \<Longrightarrow> p \<le> q \<and> q < p + 1 + word_of_nat (length (indexes t))"
proof -
  note u = unat_prefix [OF assms]
  have "inj_on (\<lambda>i. p + 1 + word_of_nat i) {0..<length (indexes t)}"
    using u by (intro inj_onI) (metis add_left_imp_eq atLeastLessThan_iff less_imp_le)
  moreover have "p \<noteq> p + 1 + word_of_nat i" if "i < length (indexes t)" for i
    using u [of i] that by (metis Suc_eq_plus1 add.commute add_Suc less_add_Suc1 less_imp_le less_irrefl)
  ultimately show "distinct (p # index_prefixes (with_prefixes p t))"
    by (auto simp: with_prefixes_def distinct_map)
  show "p \<le> q \<and> q < p + 1 + word_of_nat (length (indexes t))" if "q \<in> prefixes (with_prefixes p t)"
    using that u u [OF order_refl] unfolding prefixes_def with_prefixes_def word_le_nat_alt word_less_nat_alt by auto
qed

lemma new_schema:
  assumes "table_def_check tdef = Inr t" and "storable p (with_prefixes p t)"
  shows "schema_ok (with_prefixes p t)"
proof -
  have "checked_def t"
    using table_def_check_ok [OF assms(1)] by blast
  then show ?thesis
    using assms(2) new_prefixes(1) [of p t] by (simp add: schema_ok_def storable_def text_ok_def)
qed

lemma meta_key_valid: "valid_key meta_key"
  by (simp add: valid_key_def internal_key_def BTREE_MAX_KEY_SIZE_def str_def)

lemma database_new:
  assumes db: "database m D" and D: "D (tname t) = None" and S: "schema_ok (with_prefixes p t)" and p: "p = next_prefix m"
    and wrap: "unat p + 1 + length (indexes t) < 2 ^ 32"
    and enc: "decode_table_def enc = Inr (Some (with_prefixes p t))"
  shows "database (m(meta_key \<mapsto> show_prefix (p + 1 + word_of_nat (length (indexes t))), table_key (tname t) \<mapsto> enc))
    (D(tname t \<mapsto> (with_prefixes p t, {})))" (is "database ?m ?D")
proof -
  let ?q = "p + 1 + word_of_nat (length (indexes t))" and ?t = "with_prefixes p t"
  note in_db = databaseD [OF db]
  have q: "unat ?q = unat p + 1 + length (indexes t)"
    by (rule unat_prefix [OF wrap order_refl])
  then have pq: "p < ?q"
    by (simp add: word_less_nat_alt)
  have nxt: "next_prefix ?m = ?q"
    by (simp add: next_prefix_def)
  have keep: "?m k = m k" if "under r k" "TABLE_PREFIX_MIN \<le> r" for r k
  proof -
    have "r \<noteq> 1" "r \<noteq> 2"
      using that(2) by (auto simp: TABLE_PREFIX_MIN_def word_le_nat_alt)
    then show ?thesis
      using that(1) by (auto simp: fun_upd_def)
  qed
  have old: "table_in ?m a ta Ra" if a: "D a = Some (ta, Ra)" for a ta Ra
  proof -
    have ta: "table_in m a ta Ra"
      by (rule in_db(3) [OF a])
    have "table_at ta ?m Ra"
      using ta keep unfolding table_in_def by (blast intro: table_at_cong [of ta m Ra])
    moreover have "a \<noteq> tname t"
      using a D by auto
    moreover have "r < ?q" if "r \<in> prefixes ta" for r
      using ta that pq p by (auto simp: table_in_def intro: less_trans)
    ultimately show ?thesis
      using ta unfolding table_in_def nxt by (simp add: stored_def_def)
  qed
  have min: "TABLE_PREFIX_MIN \<le> r \<and> r < ?q \<and> p \<le> r" if "r \<in> prefixes ?t" for r
    using new_prefixes(2) [OF wrap that] in_db(1) p by auto
  have "table_at ?t ?m {}"
  proof (rule table_at_cong [of ?t Map.empty])
    show "table_at ?t Map.empty {}"
      by (simp add: table_at_def)
    show "?m k = None" if "r \<in> prefixes ?t" "under r k" for k r
      using keep [OF that(2)] in_db(5) [OF _ that(2)] min [OF that(1)] p by simp
  qed
  then have new: "table_in ?m (tname t) ?t {}"
    using S enc min unfolding table_in_def nxt by (simp add: stored_def_def)
  have apart: "prefixes ta \<inter> prefixes ?t = {}" if "D a = Some (ta, Ra)" for a ta Ra
    using in_db(3) [OF that] min p by (fastforce simp: table_in_def)
  show ?thesis
    unfolding database_def nxt
  proof (intro conjI allI impI)
    show "TABLE_PREFIX_MIN \<le> ?q"
      using in_db(1) pq p by simp
    show "?m (table_key a) = None" if "?D a = None" for a
      using that in_db(2) [of a] by (simp split: if_splits)
    show "table_in ?m a ta Ra" if "?D a = Some (ta, Ra)" for a ta Ra
      using that old new by (cases "a = tname t") auto
    show "prefixes ta \<inter> prefixes tb = {}" if "?D a = Some (ta, Ra)" "?D b = Some (tb, Rb)" "a \<noteq> b" for a ta Ra b tb Rb
      using that apart [of a] apart [of b] in_db(4) [of a ta Ra b tb Rb] by (auto split: if_splits)
    show "?m k = None" if "?q \<le> r" "under r k" for r k
      using keep [OF that(2)] in_db(5) [OF _ that(2)] that(1) in_db(1) pq p by simp
  qed
qed

context tx_store
begin

lemma alloc_ok:
  assumes "ok (Suc n) tx m"
  shows "\<exists>tx'. alloc_prefix file tx k = Inr (next_prefix m, tx') \<and> ok n tx' (m(meta_key \<mapsto> show_prefix (next_prefix m + k)))"
proof -
  have "KVTX_get file tx meta_key = Inr (m meta_key)"
    by (rule get_ok [OF assms meta_key_valid])
  moreover obtain tx' where "KVTX_set file tx meta_key (show_prefix (next_prefix m + k)) = Inr tx'"
      "ok n tx' (m(meta_key \<mapsto> show_prefix (next_prefix m + k)))"
    using set_ok [OF assms meta_key_valid, of "show_prefix (next_prefix m + k)"] by (auto simp: BTREE_MAX_VAL_SIZE_def)
  ultimately show ?thesis
    by (cases "m meta_key") (simp_all add: alloc_prefix_def internal_get_def internal_set_def KVTX_get_def next_prefix_def Let_def)
qed

lemma table_new_step:
  assumes db: "database m D" and ok0: "ok (Suc (Suc n)) tx m"
    and new: "\<And>t. creation D (next_prefix m) tdef = Inr t \<Longrightarrow> storable (next_prefix m) t"
    and key: "valid_key (table_key (tname tdef))"
  shows "\<exists>tx' m'. table_new file tdef tx = Inr (rbind (creation D (next_prefix m) tdef) (\<lambda>_. Inr ()), tx') \<and> ok n tx' m'
    \<and> database m' (case creation D (next_prefix m) tdef of Inl _ \<Rightarrow> D | Inr t \<Rightarrow> D(tname t \<mapsto> (t, {})))
    \<and> (\<forall>name. D name \<noteq> None \<or> (\<exists>e. creation D (next_prefix m) tdef = Inl e) \<longrightarrow> m' (table_key name) = m (table_key name))"
proof (cases "creation D (next_prefix m) tdef")
  case (Inl err)
  have less: "ok n tx m"
    by (rule fewer [OF ok0]) simp
  have exists: "m (table_key a) \<noteq> None" if "D a \<noteq> None" for a
    using that databaseD(3) [OF db, of a] by (auto simp: table_in_def stored_def_def)
  have "table_new file tdef tx = serr err tx"
  proof (cases "table_def_check tdef")
    case (Inr t)
    have "tname (tdef\<lparr>indexes := indexes t\<rparr>) = tname tdef"
      by simp
    then have "tname t = tname tdef"
      using table_def_check_ok [OF Inr] by metis
    then have get: "KVTX_get file tx (table_key (tname t)) = Inr (m (table_key (tname t)))"
      using get_ok [OF ok0] key by simp
    show ?thesis
    proof (cases "prefix t \<noteq> 0 \<or> index_prefixes t \<noteq> []")
      case True
      then show ?thesis
        using \<open>creation D (next_prefix m) tdef = Inl err\<close> Inr by (auto simp: table_new_def creation_def)
    next
      case False
      then have "err = str ''table already exists: '' @ tname t" "D (tname t) \<noteq> None"
        using \<open>creation D (next_prefix m) tdef = Inl err\<close> Inr by (auto simp: creation_def split: if_splits)
      then show ?thesis
        using get exists [of "tname t"] False Inr
        by (simp add: table_new_def internal_get_def KVTX_get_def)
    qed
  qed (use Inl in \<open>simp add: table_new_def creation_def\<close>)
  then show ?thesis
    using Inl less db by (auto simp: serr_def)
next
  case (Inr t')
  then obtain t where t: "table_def_check tdef = Inr t" "prefix t = 0" "index_prefixes t = []" "D (tname t) = None"
      "t' = with_prefixes (next_prefix m) t"
    by (auto simp: creation_def simp del: not_None_eq split: sum.splits if_splits)
  let ?p = "next_prefix m"
  have st: "storable ?p t'"
    by (rule new [OF Inr])
  have S: "schema_ok t'"
    using new_schema [OF t(1)] st t(5) by simp
  obtain enc where enc: "encode_table_def t' = Inr enc" "decode_table_def enc = Inr (Some t')" "length enc \<le> BTREE_MAX_VAL_SIZE"
    using table_def_text_ok [of t'] st by (auto simp: storable_def)
  have name: "valid_key (table_key (tname t))" "unat ?p + 1 + length (indexes t) < 2 ^ 32"
    using st t(5) by (simp_all add: storable_def)
  have absent: "KVTX_get file tx (table_key (tname t)) = Inr None"
    using get_ok [OF ok0 name(1)] databaseD(2) [OF db t(4)] by simp
  let ?q = "1 + word_of_nat (length (indexes t)) :: u32"
  obtain tx1 where tx1: "alloc_prefix file tx ?q = Inr (?p, tx1)" "ok (Suc n) tx1 (m(meta_key \<mapsto> show_prefix (?p + ?q)))"
    using alloc_ok [OF ok0] by blast
  let ?m = "m(meta_key \<mapsto> show_prefix (?p + ?q), table_key (tname t) \<mapsto> enc)"
  obtain tx2 where tx2: "KVTX_set file tx1 (table_key (tname t)) enc = Inr tx2" "ok n tx2 ?m"
    using set_ok [OF tx1(2) name(1) enc(3)] by blast
  have "table_new file tdef tx = sret () tx2"
    using t absent tx1(1) enc(1) tx2(1)
    by (simp add: table_new_def internal_get_def internal_set_def KVTX_get_def Let_def with_prefixes_def)
  moreover have "database ?m (D(tname t \<mapsto> (t', {})))"
    using database_new [OF db t(4) _ refl name(2), of enc] S enc(2) t(5) by (simp add: add.assoc)
  moreover have "?m (table_key name) = m (table_key name)" if "D name \<noteq> None" for name
    using that t(4) by auto
  ultimately show ?thesis
    using tx2(2) Inr t(5) by (auto simp: sret_def)
qed

end

end
