(* ===== verification/Exec_Spec.thy ===== *)
theory Exec_Spec
  imports QL_Exec Scan_Spec Range_Types Catalog_Spec
begin

text \<open>
  The scan of a statement, on anything that finds tables and delivers the rows of a range: what a filter,
  an offset and a limit make of the rows of the table, whichever index the range was read from.
\<close>

section \<open>Delivering rows\<close>

fun delivers :: "'s QLTarget \<Rightarrow> 's \<Rightarrow> Scanner \<Rightarrow> Record list \<Rightarrow> bool" where
  "delivers t s sc [] = (Scanner_valid sc = Inr False)"
| "delivers t s sc (x # xs) = (Scanner_valid sc = Inr True \<and> t_deref t s sc = Inr x
     \<and> (\<exists>sc'. t_next t s sc = Inr sc' \<and> delivers t s sc' xs))"

text \<open>Rows after \<open>offset\<close> of them, at most \<open>limit\<close> unless that is negative.\<close>

definition limited :: "int \<Rightarrow> int \<Rightarrow> 'a list \<Rightarrow> 'a list" where
  "limited offset limit xs = (let ys = drop (nat offset) xs in if limit < 0 then ys else take (nat limit) ys)"

lemma limited_all: "limited 0 (-1) xs = xs"
  by (simp add: limited_def)

lemma set_limited: "set (limited offset limit xs) \<subseteq> set xs"
  by (auto simp: limited_def Let_def dest: in_set_dropD in_set_takeD split: if_splits)

lemma distinct_limited: "distinct xs \<Longrightarrow> distinct (limited offset limit xs)"
  by (simp add: limited_def Let_def)

text \<open>The part of a list that the offset and the limit of a scan leave.\<close>

abbreviation picked :: "QLScan \<Rightarrow> 'a list \<Rightarrow> 'a list" where
  "picked req \<equiv> limited (sc_offset req) (sc_limit req)"

definition kept_row :: "QLNode \<Rightarrow> Record \<Rightarrow> bool" where
  "kept_row cond row \<longleftrightarrow> row_kept cond row = qret True"

lemma scan_loop_delivers:
  assumes "\<And>x. x \<in> set xs \<Longrightarrow> \<exists>b. row_kept (sc_filter req) x = qret b"
  shows "delivers t s sc xs \<Longrightarrow> length xs < fuel \<Longrightarrow>
    scan_loop fuel t s req sc skipped taken
      = qret (limited (sc_offset req - skipped) (if sc_limit req < 0 then -1 else max 0 (sc_limit req - taken)) (filter (kept_row (sc_filter req)) xs))"
  using assms
proof (induction xs arbitrary: fuel sc skipped taken)
  case Nil
  then show ?case
    by (cases fuel) (simp_all add: limited_def)
next
  case (Cons x xs)
  obtain fuel' where fuel: "fuel = Suc fuel'" "length xs < fuel'"
    using Cons.prems(2) by (cases fuel) auto
  obtain sc' where sc': "Scanner_valid sc = Inr True" "t_deref t s sc = Inr x" "t_next t s sc = Inr sc'" "delivers t s sc' xs"
    using Cons.prems(1) by auto
  note IH = Cons.IH [OF sc'(4) fuel(2) Cons.prems(3)]
  obtain b where b: "row_kept (sc_filter req) x = qret b"
    using Cons.prems(3) by auto
  show ?case
  proof (cases "\<not> b \<or> skipped < sc_offset req")
    case True
    then show ?thesis
      using IH sc' b by (auto simp: fuel(1) kept_row_def limited_def Let_def nat_diff_distrib' drop_Cons' Suc_nat_eq_nat_zadd1 intro!: arg_cong2 [of _ _ _ _ take] arg_cong2 [of _ _ _ _ drop])
  next
    case False
    have "nat (sc_limit req - (taken + 1)) = nat (sc_limit req - taken) - Suc 0"
      by linarith
    then show ?thesis
      using False IH sc' b by (auto simp: fuel(1) kept_row_def limited_def Let_def take_Cons')
  qed
qed

section \<open>What an executor relies on\<close>

text \<open>The keys of a range fit one tree of the table, the one that \<open>find_index\<close> chooses.\<close>

definition range_fits :: "TableDef \<Rightarrow> Scanner \<Rightarrow> bool" where
  "range_fits tdef req \<longleftrightarrow> opposite (sn_cmp1 req) (sn_cmp2 req) \<and> (\<exists>i. find_index tdef (rec_cols (sn_key1 req)) = Inr i
     \<and> bound_ok tdef (scan_cols tdef i) (sn_key1 req) \<and> bound_ok tdef (scan_cols tdef i) (sn_key2 req))"

text \<open>Rows in the order in which a scan of that tree finds them: by the keys they have in it.\<close>

definition in_key_order :: "TableDef \<Rightarrow> Scanner \<Rightarrow> Value list list \<Rightarrow> bool" where
  "in_key_order tdef req L \<longleftrightarrow> (\<exists>i. find_index tdef (rec_cols (sn_key1 req)) = Inr i
     \<and> sorted_wrt (if cmp_val (sn_cmp1 req) > 0 then (<) else (>)) (map (tree_key tdef i) L))"

locale ql_target =
  fixes t :: "'s QLTarget" and sees :: "'s \<Rightarrow> (bytes \<rightharpoonup> bytes) \<Rightarrow> bool"
  assumes table_found: "sees s m \<Longrightarrow> stored_def m name tdef \<Longrightarrow> \<exists>s'. t_table_def t name s = sret tdef s' \<and> sees s' m"
    and table_missing: "sees s m \<Longrightarrow> valid_key (internal_key (prefix TDEF_TABLE) name) \<Longrightarrow>
      m (internal_key (prefix TDEF_TABLE) name) = None \<Longrightarrow> t_table_def t name s = serr (no_table name) s"
    and scan_found: "sees s m \<Longrightarrow> stored_def m name tdef \<Longrightarrow> schema_ok tdef \<Longrightarrow> table_at tdef m R \<Longrightarrow> range_fits tdef req \<Longrightarrow>
      \<exists>s' sc L. t_scan t name req s = sret sc s' \<and> sees s' m \<and> delivers t s' sc (map (row_rec tdef) L)
        \<and> distinct L \<and> set L = {vs \<in> R. row_in tdef req vs} \<and> in_key_order tdef req L"
begin

lemma scan_missing:
  assumes "sees s m" and "valid_key (internal_key (prefix TDEF_TABLE) (sc_table req))"
    and "m (internal_key (prefix TDEF_TABLE) (sc_table req)) = None"
    and "q_type (sc_key1 req) = QL_UNINIT" and "q_type (sc_key2 req) = QL_UNINIT"
  shows "scan_rows fuel t req s = serr (no_table (sc_table req)) s"
  using assms table_missing [OF assms(1-3)] by (simp add: scan_rows_def sbind_def serr_def)

end

section \<open>Rows in range and rows kept\<close>

lemma typed_row_rec:
  assumes "schema_ok tdef" and "typed_vals tdef vs"
  shows "typed_row tdef (row_rec tdef vs)"
proof -
  have "row_typed (col_types tdef) (row_rec tdef vs)"
    using row_get_field [OF assms(1) typed_length [OF assms]] field_type(1) [OF assms]
    by (auto simp: row_typed_def col_types_def split: if_splits)
  then show ?thesis
    using schema_known [OF assms(1)] by (simp add: typed_row_def)
qed

definition range_scanner :: "QLRange \<Rightarrow> Scanner" where
  "range_scanner r = Scanner_new (r_cmp1 r) (r_cmp2 r) (r_key1 r) (r_key2 r)"

lemma in_range_row: "in_range r (row_rec tdef vs) \<longleftrightarrow> row_in tdef (range_scanner r) vs"
  by (simp add: in_range_def row_in_def range_scanner_def Scanner_new_def row_at_def field_def [abs_def])

lemma kept_keeps:
  assumes "q_type cond \<noteq> QL_UNINIT"
  shows "kept_row cond row \<longleftrightarrow> keeps cond row"
proof (cases "ql_eval cond row")
  case (Inr r)
  then show ?thesis
    using assms by (cases r) (auto simp: kept_row_def keeps_def row_kept_def qret_def qerr_def)
qed (use assms in \<open>auto simp: kept_row_def keeps_def row_kept_def qret_def\<close>)

lemma kept_in_range:
  assumes S: "schema_ok tdef" and wf: "ql_wf cond" and r: "ql_range cond tdef = Inr r"
    and vs: "typed_vals tdef vs" and k: "kept_row cond (row_rec tdef vs)"
  shows "row_in tdef (range_scanner r) vs"
proof (cases "q_type cond = QL_UNINIT")
  case True
  then show ?thesis
    using r full_in_range by (simp add: ql_range_def in_range_row [symmetric])
next
  case False
  then have "keeps cond (row_rec tdef vs)"
    using k kept_keeps by blast
  then have "in_range r (row_rec tdef vs)"
    using ql_range_covers [OF wf schema_known [OF S order_refl]] schema_okD(8,9) [OF S] typed_row_rec [OF S vs] r by auto
  then show ?thesis
    by (simp add: in_range_row)
qed

lemma range_opposite: "range_typed tdef r \<Longrightarrow> opposite (sn_cmp1 (range_scanner r)) (sn_cmp2 (range_scanner r))"
  by (auto simp: range_typed_def opposite_def range_scanner_def Scanner_new_def)

text \<open>
  A range fits when its second key names leading columns of the index chosen for its first key; the
  rest is a property of every range.
\<close>

definition one_index :: "TableDef \<Rightarrow> QLRange \<Rightarrow> bool" where
  "one_index tdef r \<longleftrightarrow> (\<exists>i. find_index tdef (rec_cols (r_key1 r)) = Inr i \<and> is_prefix (scan_cols tdef i) (rec_cols (r_key2 r)))"

lemma one_index_fits:
  assumes "one_index tdef r" and "range_typed tdef r"
  shows "range_fits tdef (range_scanner r)"
proof -
  obtain i where i: "find_index tdef (rec_cols (r_key1 r)) = Inr i" "is_prefix (scan_cols tdef i) (rec_cols (r_key2 r))"
    using assms(1) by (auto simp: one_index_def)
  then show ?thesis
    using find_index_tree [OF i(1)] assms(2) range_opposite [OF assms(2)]
    by (auto simp: range_fits_def bound_ok_def range_typed_def range_scanner_def Scanner_new_def)
qed

text \<open>
  The order of a statement's rows: ascending by the keys they have in the tree that the scan reads, which is
  the index that \<open>find_index\<close> chooses for the range of the filter, or the table itself. The order is strict,
  so there is one such list for a set of rows.
\<close>

definition scan_order :: "TableDef \<Rightarrow> QLScan \<Rightarrow> Value list list \<Rightarrow> bool" where
  "scan_order tdef req L \<longleftrightarrow> (\<exists>r i. ql_range (sc_filter req) tdef = Inr r
     \<and> find_index tdef (rec_cols (r_key1 r)) = Inr i \<and> sorted_wrt (<) (map (tree_key tdef i) L))"

lemma sorted_map_unique:
  fixes f :: "'a \<Rightarrow> 'b :: linorder"
  assumes "sorted_wrt (<) (map f xs)" and "sorted_wrt (<) (map f ys)" and "set xs = set ys"
  shows "xs = ys"
proof -
  have "map f xs = map f ys"
    using assms by (intro sorted_distinct_set_unique) (simp_all add: strict_sorted_iff)
  moreover have "inj_on f (set xs \<union> set ys)"
    using assms(1,3) by (simp add: strict_sorted_iff distinct_map)
  ultimately show ?thesis
    by (rule map_inj_on)
qed

lemma scan_order_unique:
  assumes "scan_order tdef req L" and "scan_order tdef req L'" and "set L = set L'"
  shows "L = L'"
proof -
  obtain i where "sorted_wrt (<) (map (tree_key tdef i) L)" "sorted_wrt (<) (map (tree_key tdef i) L')"
    using assms(1,2) unfolding scan_order_def by auto
  then show ?thesis
    using assms(3) by (rule sorted_map_unique)
qed

lemma scan_order_distinct: "scan_order tdef req L \<Longrightarrow> distinct L"
  by (auto simp: scan_order_def strict_sorted_iff distinct_map)

lemma scan_order_filter: "scan_order tdef req L \<Longrightarrow> scan_order tdef req (filter P L)"
proof -
  have "sorted_wrt (<) (map f (filter P L))" if "sorted_wrt (<) (map f L)" for f :: "Value list \<Rightarrow> bytes"
    using that by (simp add: sorted_wrt_map sorted_wrt_filter)
  then show "scan_order tdef req (filter P L)" if "scan_order tdef req L"
    using that unfolding scan_order_def by blast
qed

lemma key_order_scan:
  assumes "ql_range (sc_filter req) tdef = Inr r" and "in_key_order tdef (range_scanner r) L"
  shows "scan_order tdef req L"
proof -
  have "cmp_val (sn_cmp1 (range_scanner r)) > 0"
    using ql_range_typed [OF assms(1)] by (auto simp: range_typed_def range_scanner_def Scanner_new_def)
  then show ?thesis
    using assms by (simp add: scan_order_def in_key_order_def) (simp add: range_scanner_def Scanner_new_def)
qed

context ql_target
begin

text \<open>The rows a scan returns are those the filter keeps; it takes no more steps than there are rows.\<close>

lemma scan_rows_ok:
  assumes sees: "sees s m" and fin: "finite R" and D: "stored_def m (sc_table req) tdef" and S: "schema_ok tdef" and T: "table_at tdef m R"
    and keys: "q_type (sc_key1 req) = QL_UNINIT" "q_type (sc_key2 req) = QL_UNINIT" and wf: "ql_wf (sc_filter req)"
    and one: "\<And>r. ql_range (sc_filter req) tdef = Inr r \<Longrightarrow> one_index tdef r"
    and eval: "\<And>vs. vs \<in> R \<Longrightarrow> \<exists>b. row_kept (sc_filter req) (row_rec tdef vs) = qret b"
  obtains s' L where "sees s' m" and "scan_order tdef req L" and "set L = {vs \<in> R. kept_row (sc_filter req) (row_rec tdef vs)}"
    and "\<And>fuel. card R < fuel \<Longrightarrow> scan_rows fuel t req s = sret (map (row_rec tdef) (limited (sc_offset req) (sc_limit req) L)) s'"
proof -
  note typed = table_atD(1) [OF T]
  obtain s1 where s1: "t_table_def t (sc_table req) s = sret tdef s1" "sees s1 m"
    using table_found [OF sees D] by blast
  obtain r where r: "ql_range (sc_filter req) tdef = Inr r"
    using ql_range_covers [OF wf schema_known [OF S order_refl]] schema_okD(8,9) [OF S] by auto
  obtain s2 sc L where s2: "t_scan t (sc_table req) (range_scanner r) s1 = sret sc s2" "sees s2 m"
      "delivers t s2 sc (map (row_rec tdef) L)" "distinct L" "set L = {vs \<in> R. row_in tdef (range_scanner r) vs}"
      "in_key_order tdef (range_scanner r) L"
    using scan_found [OF s1(2) D S T one_index_fits [OF one [OF r] ql_range_typed [OF r]]] by blast
  define K where "K = filter (\<lambda>vs. kept_row (sc_filter req) (row_rec tdef vs)) L"
  have evalL: "\<exists>b. row_kept (sc_filter req) x = qret b" if "x \<in> set (map (row_rec tdef) L)" for x
    using that s2(5) eval by auto
  have filt: "filter (kept_row (sc_filter req)) (map (row_rec tdef) L) = map (row_rec tdef) K"
    by (simp add: K_def filter_map comp_def)
  have len: "length L \<le> card R"
  proof -
    have "set L \<subseteq> R"
      using s2(5) by blast
    then show ?thesis
      using card_mono [OF fin] distinct_card [OF s2(4)] by metis
  qed
  have run: "scan_rows fuel t req s = sret (map (row_rec tdef) (limited (sc_offset req) (sc_limit req) K)) s2" if "card R < fuel" for fuel
  proof -
    have "scan_loop fuel t s2 req sc 0 0 = qret (map (row_rec tdef) (limited (sc_offset req) (sc_limit req) K))"
      using scan_loop_delivers [OF evalL s2(3), of fuel 0 0] len that
      by (auto simp: filt limited_def Let_def drop_map take_map)
    then show ?thesis
      using keys s1(1) s2(1) r by (simp add: scan_rows_def sbind_def sret_def slift_def range_scanner_def qret_def)
  qed
  have "set K = {vs \<in> R. kept_row (sc_filter req) (row_rec tdef vs)}"
    using s2(5) kept_in_range [OF S wf r typed] by (auto simp: K_def)
  then show thesis
    using that [OF s2(2) _ _ run] scan_order_filter [OF key_order_scan [OF r s2(6)]] by (simp add: K_def)
qed

text \<open>
  The queries that the optimiser answers: no INDEX BY, a filter the parser builds, a range that fits one
  index, and a filter that decides every row. \<open>answer\<close> is what they ask for.
\<close>

end

definition answerable :: "TableDef \<Rightarrow> Value list set \<Rightarrow> QLScan \<Rightarrow> bool" where
  "answerable tdef R req \<longleftrightarrow> q_type (sc_key1 req) = QL_UNINIT \<and> q_type (sc_key2 req) = QL_UNINIT \<and> ql_wf (sc_filter req)
     \<and> (\<forall>r. ql_range (sc_filter req) tdef = Inr r \<longrightarrow> one_index tdef r)
     \<and> (\<forall>vs\<in>R. \<exists>b. row_kept (sc_filter req) (row_rec tdef vs) = qret b)"

definition answer :: "TableDef \<Rightarrow> Value list set \<Rightarrow> QLScan \<Rightarrow> Value list set" where
  "answer tdef R req = {vs \<in> R. kept_row (sc_filter req) (row_rec tdef vs)}"

text \<open>With a range that fits, a scan ends, whatever the filter makes of the rows.\<close>

lemma row_kept_total: "ql_wf cond \<Longrightarrow> \<exists>q. row_kept cond row = Inr q"
proof (cases "q_type cond = QL_UNINIT")
  case False
  assume "ql_wf cond"
  then obtain r where "ql_eval cond row = Inr r"
    using eval_wf by blast
  then show ?thesis
    using False by (cases r) (simp_all add: row_kept_def qret_def qerr_def)
qed (simp add: row_kept_def qret_def)

lemma scan_loop_total:
  assumes "ql_wf (sc_filter req)"
  shows "delivers t s sc xs \<Longrightarrow> \<exists>r. \<forall>fuel>length xs. scan_loop fuel t s req sc skipped taken = Inr r"
proof (induction xs arbitrary: sc skipped taken)
  case Nil
  then have "scan_loop fuel t s req sc skipped taken = qret []" if "0 < fuel" for fuel
    using that by (cases fuel) simp_all
  then show ?case
    by (auto simp: qret_def)
next
  case (Cons x xs)
  obtain sc' where sc': "Scanner_valid sc = Inr True" "t_deref t s sc = Inr x" "t_next t s sc = Inr sc'" "delivers t s sc' xs"
    using Cons.prems by auto
  obtain q where q: "row_kept (sc_filter req) x = Inr q"
    using row_kept_total [OF assms] by blast
  have "\<forall>a b. \<exists>r. \<forall>fuel>length xs. scan_loop fuel t s req sc' a b = Inr r"
    using Cons.IH [OF sc'(4)] by blast
  then obtain loop where loop: "\<And>fuel a b. length xs < fuel \<Longrightarrow> scan_loop fuel t s req sc' a b = Inr (loop a b)"
    by metis
  have run: "scan_loop (Suc fuel) t s req sc skipped taken = Inr
      (case q of Inl e \<Rightarrow> Inl e | Inr keep \<Rightarrow>
         if \<not> keep then loop skipped taken else if skipped < sc_offset req then loop (skipped + 1) taken
         else if sc_limit req \<ge> 0 \<and> taken \<ge> sc_limit req then Inr []
         else rbind (loop skipped (taken + 1)) (\<lambda>rest. Inr (x # rest)))" if "length xs < fuel" for fuel
    using sc'(1-3) q loop [OF that] by (cases q; cases "loop skipped (taken + 1)") (auto simp: qret_def)
  have "scan_loop fuel t s req sc skipped taken = Inr
      (case q of Inl e \<Rightarrow> Inl e | Inr keep \<Rightarrow>
         if \<not> keep then loop skipped taken else if skipped < sc_offset req then loop (skipped + 1) taken
         else if sc_limit req \<ge> 0 \<and> taken \<ge> sc_limit req then Inr []
         else rbind (loop skipped (taken + 1)) (\<lambda>rest. Inr (x # rest)))" if "length (x # xs) < fuel" for fuel
    using run [of "fuel - 1"] that by (cases fuel) auto
  then show ?case
    by blast
qed

context ql_target
begin

lemma scan_answer:
  assumes "sees s m" and "finite R" and "stored_def m (sc_table req) tdef" and "schema_ok tdef" and "table_at tdef m R"
    and "answerable tdef R req"
    and res: "\<And>s' L. sees s' m \<Longrightarrow> scan_order tdef req L \<Longrightarrow> set L = answer tdef R req \<Longrightarrow> (\<And>fuel. card R < fuel \<Longrightarrow>
      scan_rows fuel t req s = sret (map (row_rec tdef) (limited (sc_offset req) (sc_limit req) L)) s') \<Longrightarrow> thesis"
  shows thesis
proof (rule scan_rows_ok [OF assms(1-5)])
  show "one_index tdef r" if "ql_range (sc_filter req) tdef = Inr r" for r
    using assms(6) that by (simp add: answerable_def)
  show "\<exists>b. row_kept (sc_filter req) (row_rec tdef vs) = qret b" if "vs \<in> R" for vs
    using assms(6) that by (simp add: answerable_def)
  show thesis if "sees s' m" "scan_order tdef req L" "set L = {vs \<in> R. kept_row (sc_filter req) (row_rec tdef vs)}"
      "\<And>fuel. card R < fuel \<Longrightarrow> scan_rows fuel t req s = sret (map (row_rec tdef) (limited (sc_offset req) (sc_limit req) L)) s'"
    for s' L
    by (rule res [OF that(1,2) _ that(4)]) (simp_all add: answer_def that(3))
qed (use assms(6) in \<open>simp_all add: answerable_def\<close>)

lemma scan_total:
  assumes sees: "sees s m" and fin: "finite R" and D: "stored_def m (sc_table req) tdef" and S: "schema_ok tdef" and T: "table_at tdef m R"
    and keys: "q_type (sc_key1 req) = QL_UNINIT" "q_type (sc_key2 req) = QL_UNINIT" and wf: "ql_wf (sc_filter req)"
    and one: "\<And>r. ql_range (sc_filter req) tdef = Inr r \<Longrightarrow> one_index tdef r"
  obtains r s' where "\<And>fuel. card R < fuel \<Longrightarrow> scan_rows fuel t req s = Inr (r, s')" and "sees s' m"
proof -
  obtain s1 where s1: "t_table_def t (sc_table req) s = sret tdef s1" "sees s1 m"
    using table_found [OF sees D] by blast
  obtain rg where rg: "ql_range (sc_filter req) tdef = Inr rg"
    using ql_range_covers [OF wf schema_known [OF S order_refl]] schema_okD(8,9) [OF S] by auto
  obtain s2 sc L where s2: "t_scan t (sc_table req) (range_scanner rg) s1 = sret sc s2" "sees s2 m"
      "delivers t s2 sc (map (row_rec tdef) L)" "distinct L" "set L = {vs \<in> R. row_in tdef (range_scanner rg) vs}"
    using scan_found [OF s1(2) D S T one_index_fits [OF one [OF rg] ql_range_typed [OF rg]]] by blast
  obtain r where r: "\<And>fuel. length L < fuel \<Longrightarrow> scan_loop fuel t s2 req sc 0 0 = Inr r"
    using scan_loop_total [OF wf s2(3), of 0 0] by auto
  have "length L \<le> card R"
    using card_mono [OF fin, of "set L"] distinct_card [OF s2(4)] s2(5) by auto
  then have "scan_rows fuel t req s = Inr (r, s2)" if "card R < fuel" for fuel
    using that r [of fuel] keys s1(1) s2(1) rg by (simp add: scan_rows_def sbind_def sret_def slift_def range_scanner_def qret_def)
  then show thesis
    using that s2(2) by blast
qed

end

end
