(* ===== verification/Exec_Target.thy ===== *)
theory Exec_Target
  imports Exec_Spec KV_Inv
begin

text \<open>
  Write transactions and readers as targets of a statement: both find the tables of the catalog, from
  their caches or from the store, and both deliver the rows of a range.
\<close>

section \<open>Delivering the pairs of a tree\<close>

context page_view
begin

lemma delivers_ahead:
  assumes inv: "inv s" and rep: "represents (live s) root m" and S: "schema_ok tdef" and T: "table_at tdef m R"
    and i: "tree_of tdef i" and nxt: "t_next t u = Scanner_next pm s" and drf: "t_deref t u = Scanner_deref pm root s"
  shows "ahead pm s sc r \<Longrightarrow> takeWhile (within sc) r = map (\<lambda>vs. (tree_key tdef i vs, tree_val tdef i vs)) L \<Longrightarrow>
    set L \<subseteq> R \<Longrightarrow> sn_tdef sc = Some tdef \<Longrightarrow> sn_index_no sc = i \<Longrightarrow> delivers t u sc (map (row_rec tdef) L)"
proof (induction L arbitrary: sc r)
  case Nil
  then show ?case
    using ahead_none by simp
next
  case (Cons vs L)
  obtain r' where r: "r = (tree_key tdef i vs, tree_val tdef i vs) # r'" "within sc (tree_key tdef i vs, tree_val tdef i vs)"
      "Scanner_valid sc = Inr True" "BIter_deref (sn_iter sc) = Inr (tree_key tdef i vs, tree_val tdef i vs)"
    using ahead_some [OF Cons.prems(1), of _ "map (\<lambda>vs. (tree_key tdef i vs, tree_val tdef i vs)) L"] Cons.prems(2) by auto
  obtain it where it: "Scanner_next pm s sc = Inr (sc\<lparr>sn_iter := it\<rparr>)" "ahead pm s (sc\<lparr>sn_iter := it\<rparr>) r'"
    using ahead_next [OF Cons.prems(1) [unfolded r(1)] r(2)] by blast
  have "delivers t u (sc\<lparr>sn_iter := it\<rparr>) (map (row_rec tdef) L)"
    using Cons.prems(2-5) r(1,2) by (intro Cons.IH [OF it(2)]) simp_all
  moreover have "Scanner_deref pm root s sc = Inr (row_rec tdef vs)"
    using Cons.prems(3) by (intro deref_ok [OF inv rep S T r(4,3) Cons.prems(4,5) i]) simp
  ultimately show ?case
    using r(3) it(1) nxt drf by simp
qed

lemma scan_of_ok:
  assumes inv: "inv s" and rep: "represents (live s) root m" and S: "schema_ok tdef" and T: "table_at tdef m R"
    and fits: "range_fits tdef req" and nxt: "t_next t u = Scanner_next pm s" and drf: "t_deref t u = Scanner_deref pm root s"
  obtains sc L where "scan_of pm root s tdef req = qret sc" and "delivers t u sc (map (row_rec tdef) L)"
    and "distinct L" and "set L = {vs \<in> R. row_in tdef req vs}" and "in_key_order tdef req L"
proof -
  obtain i where i: "opposite (sn_cmp1 req) (sn_cmp2 req)" "find_index tdef (rec_cols (sn_key1 req)) = Inr i"
      "bound_ok tdef (scan_cols tdef i) (sn_key1 req)" "bound_ok tdef (scan_cols tdef i) (sn_key2 req)"
    using fits by (auto simp: range_fits_def)
  obtain sc r L where sc: "db_scan pm root s tdef req = Inr (sc, None)" "sn_tdef sc = Some tdef" "sn_index_no sc = i"
      "ahead pm s sc r" "takeWhile (within sc) r = map (\<lambda>vs. (tree_key tdef i vs, tree_val tdef i vs)) L"
      "distinct L" "set L = {vs \<in> R. row_in tdef req vs}"
      "sorted_wrt (if cmp_val (sn_cmp1 req) > 0 then (<) else (>)) (map (tree_key tdef i) L)"
    by (rule db_scan_ok [OF inv rep S T i(2,1,3,4)])
  have "delivers t u sc (map (row_rec tdef) L)"
    using sc(7) find_index_tree [OF i(2)] by (intro delivers_ahead [OF inv rep S T _ nxt drf sc(4,5) _ sc(2,3)]) auto
  moreover have "in_key_order tdef req L"
    using i(2) sc(8) unfolding in_key_order_def by blast
  ultimately show thesis
    using that sc(1,6,7) by (simp add: scan_of_def)
qed

lemma table_def_read:
  assumes inv: "inv s" and rep: "represents (live s) root m" and k: "valid_key (internal_key (prefix TDEF_TABLE) name)"
  shows "m (internal_key (prefix TDEF_TABLE) name) = None \<Longrightarrow> get_table_def_from_kv pm root s name = Inr None"
    and "stored_def m name tdef \<Longrightarrow> get_table_def_from_kv pm root s name = Inr (Some tdef)"
  using BTree_get_ok [OF inv rep k] by (auto simp: get_table_def_from_kv_def internal_get_def stored_def_def)

end

section \<open>Caches of definitions\<close>

text \<open>A cache agrees with what the store holds.\<close>

definition cache_ok :: "(bytes \<rightharpoonup> TableDef) \<Rightarrow> (bytes \<rightharpoonup> bytes) \<Rightarrow> bool" where
  "cache_ok c m \<longleftrightarrow> (\<forall>name tdef. c name = Some tdef \<longrightarrow> stored_def m name tdef)"

lemma cache_ok_empty [simp]: "cache_ok Map.empty m"
  by (simp add: cache_ok_def)

lemma stored_def_unique: "stored_def m name a \<Longrightarrow> stored_def m name b \<Longrightarrow> a = b"
  by (auto simp: stored_def_def)

lemma cache_ok_hit: "cache_ok c m \<Longrightarrow> stored_def m name tdef \<Longrightarrow> c name = None \<or> c name = Some tdef"
  unfolding cache_ok_def using stored_def_unique by (cases "c name") blast+

lemma cache_ok_miss: "cache_ok c m \<Longrightarrow> m (internal_key (prefix TDEF_TABLE) name) = None \<Longrightarrow> c name = None"
  unfolding cache_ok_def stored_def_def by (cases "c name") fastforce+

lemma cache_ok_add: "cache_ok c m \<Longrightarrow> stored_def m name tdef \<Longrightarrow> cache_ok (c(name \<mapsto> tdef)) m"
  by (simp add: cache_ok_def)


lemma cache_ok_keep: "cache_ok c m \<Longrightarrow> (\<And>name. m' (internal_key (prefix TDEF_TABLE) name) = m (internal_key (prefix TDEF_TABLE) name)) \<Longrightarrow> cache_ok c m'"
  by (simp add: cache_ok_def stored_def_def)

text \<open>A store holds finitely many pairs, so a table has finitely many rows.\<close>

lemma represents_finite: "represents P root m \<Longrightarrow> finite (dom m)"
  by (auto simp: represents_def tree_map_def finite_dom_map_of)

lemma finite_rows:
  assumes "finite (dom m)" and "schema_ok tdef" and T: "table_at tdef m R"
  shows "finite R"
proof -
  have "inj_on (pk_key tdef) R"
    using pk_key_inj [OF assms(2) table_atD(1) [OF T] table_atD(1) [OF T]] table_atD(2) [OF T] by (auto simp: inj_on_def)
  moreover have "pk_key tdef ` R \<subseteq> dom m"
    using table_row(1) [OF T] by auto
  ultimately show ?thesis
    using assms(1) finite_subset inj_on_finite by blast
qed

section \<open>Write transactions\<close>

fun sees_tx :: "bytes \<Rightarrow> session \<Rightarrow> (bytes \<rightharpoonup> bytes) \<Rightarrow> bool" where
  "sees_tx file (tx, cat) m \<longleftrightarrow> tx_holds file (dt_tx tx) m \<and> cache_ok (cache cat) m"

lemma tx_holdsD: "tx_holds file tx m \<Longrightarrow> tx_inv file tx \<and> represents (tx_live file tx) (tree_root tx) m"
  by (simp add: tx_holds_def btree_represents)

lemma stored_def_valid: "represents P root m \<Longrightarrow> stored_def m name tdef \<Longrightarrow> valid_key (internal_key (prefix TDEF_TABLE) name)"
  by (rule represents_valid) (auto simp: stored_def_def)

lemma DBTX_find_table_ok:
  assumes "sees_tx file (tx, cat) m" and D: "stored_def m name tdef"
  shows "\<exists>cat'. DBTX_find_table file name (tx, cat) = sret tdef (tx, cat') \<and> cache_ok (cache cat') m"
proof -
  have S: "tx_inv file (dt_tx tx)" "represents (tx_live file (dt_tx tx)) (tree_root (dt_tx tx)) m" "cache_ok (cache cat) m"
    using assms(1) tx_holdsD by auto
  have "get_table_def_from_kv (KVTX_Pages file) (tree_root (dt_tx tx)) (dt_tx tx) name = Inr (Some tdef)"
    using tx_pages.table_def_read(2) [OF S(1,2) stored_def_valid [OF S(2) D] D] .
  then show ?thesis
    using cache_ok_hit [OF S(3) D] cache_ok_add [OF S(3) D] S(3)
    by (auto simp: DBTX_find_table_def get_table_def_def sret_def)
qed

lemma DBTX_find_table_missing:
  assumes "sees_tx file s m" and k: "valid_key (internal_key (prefix TDEF_TABLE) name)" "m (internal_key (prefix TDEF_TABLE) name) = None"
  shows "DBTX_find_table file name s = serr (no_table name) s"
proof -
  obtain tx cat where s: "s = (tx, cat)"
    by (cases s)
  have S: "tx_inv file (dt_tx tx)" "represents (tx_live file (dt_tx tx)) (tree_root (dt_tx tx)) m" "cache_ok (cache cat) m"
    using assms(1) tx_holdsD by (auto simp: s)
  show ?thesis
    using tx_pages.table_def_read(1) [OF S(1,2) k] cache_ok_miss [OF S(3) k(2)]
    by (simp add: DBTX_find_table_def get_table_def_def s)
qed

lemma DBTX_scan_ok:
  assumes sees: "sees_tx file (tx, cat) m" and A: "stored_def m name tdef" "schema_ok tdef" "table_at tdef m R" "range_fits tdef req"
  obtains cat' sc L where "DBTX_scan file name req (tx, cat) = sret sc (tx, cat')" and "cache_ok (cache cat') m"
    and "delivers (on_tx file) (tx, cat') sc (map (row_rec tdef) L)" and "distinct L" and "set L = {vs \<in> R. row_in tdef req vs}"
    and "in_key_order tdef req L"
proof -
  obtain cat' where cat': "DBTX_find_table file name (tx, cat) = sret tdef (tx, cat')" "cache_ok (cache cat') m"
    using DBTX_find_table_ok [OF sees A(1)] by blast
  have S: "tx_inv file (dt_tx tx)" "represents (tx_live file (dt_tx tx)) (tree_root (dt_tx tx)) m"
    using sees tx_holdsD by auto
  obtain sc L where "scan_of (KVTX_Pages file) (tree_root (dt_tx tx)) (dt_tx tx) tdef req = qret sc"
      "delivers (on_tx file) (tx, cat') sc (map (row_rec tdef) L)" "distinct L" "set L = {vs \<in> R. row_in tdef req vs}"
      "in_key_order tdef req L"
    by (rule tx_pages.scan_of_ok [OF S A(2-4), of "on_tx file" "(tx, cat')"]) (auto simp: on_tx_def)
  then show thesis
    using that [of sc cat' L] cat' by (simp add: DBTX_scan_def sbind_def slift_def sret_def qret_def)
qed

section \<open>Readers\<close>

definition sees_reader :: "DB \<Rightarrow> DBReader \<Rightarrow> (bytes \<rightharpoonup> bytes) \<Rightarrow> bool" where
  "sees_reader db tx m \<longleftrightarrow> reader_ok (reader_of db tx)
     \<and> represents (reader_pages (db_file db) (reader_of db tx)) (tree_root (reader_of db tx)) m \<and> cache_ok (dr_tables tx) m"

lemma reader_of_tables [simp]: "reader_of db (tx\<lparr>dr_tables := c\<rparr>) = reader_of db tx"
  by (simp add: reader_of_def)

lemma DBReader_find_table_ok:
  assumes "sees_reader db tx m" and D: "stored_def m name tdef"
  shows "\<exists>c. DBReader_find_table db name tx = sret tdef (tx\<lparr>dr_tables := c\<rparr>) \<and> cache_ok c m"
proof -
  have S: "reader_ok (reader_of db tx)" "represents (reader_pages (db_file db) (reader_of db tx)) (tree_root (reader_of db tx)) m"
      "cache_ok (dr_tables tx) m"
    using assms(1) by (simp_all add: sees_reader_def)
  show ?thesis
  proof (cases "dr_tables tx name")
    case None
    then show ?thesis
      using mapped.table_def_read(2) [OF S(1,2) stored_def_valid [OF S(2) D] D] cache_ok_add [OF S(3) D]
      by (auto simp: DBReader_find_table_def sret_def)
  next
    case (Some a)
    then have "DBReader_find_table db name tx = sret tdef (tx\<lparr>dr_tables := dr_tables tx\<rparr>)"
      using cache_ok_hit [OF S(3) D] by (simp add: DBReader_find_table_def)
    then show ?thesis
      using S(3) by blast
  qed
qed

lemma DBReader_find_table_missing:
  assumes "sees_reader db tx m" and k: "valid_key (internal_key (prefix TDEF_TABLE) name)" "m (internal_key (prefix TDEF_TABLE) name) = None"
  shows "DBReader_find_table db name tx = serr (no_table name) tx"
proof -
  have S: "reader_ok (reader_of db tx)" "represents (reader_pages (db_file db) (reader_of db tx)) (tree_root (reader_of db tx)) m"
      "cache_ok (dr_tables tx) m"
    using assms(1) by (simp_all add: sees_reader_def)
  show ?thesis
    using mapped.table_def_read(1) [OF S(1,2) k] cache_ok_miss [OF S(3) k(2)] by (simp add: DBReader_find_table_def)
qed

interpretation read_target: ql_target "on_reader db" "sees_reader db" for db
proof
  fix s m name tdef
  show "\<exists>s'. t_table_def (on_reader db) name s = sret tdef s' \<and> sees_reader db s' m" if "sees_reader db s m" "stored_def m name tdef"
    using that DBReader_find_table_ok [OF that] by (auto simp: on_reader_def DBReader_table_def_def sees_reader_def)
  show "t_table_def (on_reader db) name s = serr (no_table name) s"
    if "sees_reader db s m" "valid_key (internal_key (prefix TDEF_TABLE) name)" "m (internal_key (prefix TDEF_TABLE) name) = None"
    using DBReader_find_table_missing [OF that] by (simp add: on_reader_def DBReader_table_def_def)
  fix R req
  assume A: "sees_reader db s m" "stored_def m name tdef" "schema_ok tdef" "table_at tdef m R" "range_fits tdef req"
  obtain c where c: "DBReader_find_table db name s = sret tdef (s\<lparr>dr_tables := c\<rparr>)" "cache_ok c m"
    using DBReader_find_table_ok A(1,2) by blast
  have S: "reader_ok (reader_of db s)" "represents (reader_pages (db_file db) (reader_of db s)) (tree_root (reader_of db s)) m"
    using A(1) by (simp_all add: sees_reader_def)
  obtain sc L where "scan_of (MappedPages (db_file db)) (tree_root (reader_of db s)) (reader_of db s) tdef req = qret sc"
      "delivers (on_reader db) (s\<lparr>dr_tables := c\<rparr>) sc (map (row_rec tdef) L)" "distinct L" "set L = {vs \<in> R. row_in tdef req vs}"
      "in_key_order tdef req L"
    by (rule mapped.scan_of_ok [OF S A(3-5), of "on_reader db" "s\<lparr>dr_tables := c\<rparr>"]) (auto simp: on_reader_def)
  then show "\<exists>s' sc L. t_scan (on_reader db) name req s = sret sc s' \<and> sees_reader db s' m \<and> delivers (on_reader db) s' sc (map (row_rec tdef) L)
      \<and> distinct L \<and> set L = {vs \<in> R. row_in tdef req vs} \<and> in_key_order tdef req L"
    using c A(1) by (intro exI [of _ "s\<lparr>dr_tables := c\<rparr>"] exI [of _ sc] exI [of _ L])
      (simp add: on_reader_def DBReader_scan_def sbind_def slift_def sret_def qret_def sees_reader_def)
qed

end
