(* ===== verification/Session_Spec.thy ===== *)
theory Session_Spec
  imports Exec_Target KV_Begin
begin

text \<open>
  Write transactions by table name: every operation of a \<open>DBTX\<close> as an update of the map of tables, with
  the definitions cached on the way still those of the store. The transaction runs over the committed
  map \<open>base\<close>; unless it created a table, it leaves the definitions there as they are.
\<close>

definition session_at :: "(nat \<Rightarrow> KVTX \<Rightarrow> (bytes \<rightharpoonup> bytes) \<Rightarrow> bool) \<Rightarrow> nat \<Rightarrow> (bytes \<rightharpoonup> bytes) \<Rightarrow> session \<Rightarrow> (bytes \<rightharpoonup> bytes) \<Rightarrow> tables \<Rightarrow> bool" where
  "session_at ok n base s m D \<longleftrightarrow> ok n (dt_tx (fst s)) m \<and> cache_ok (cache (snd s)) m
     \<and> (\<not> dt_created (fst s) \<longrightarrow> (\<forall>name. m (table_key name) = base (table_key name))) \<and> database m D"

lemma session_atD:
  assumes "session_at ok n base (tx, cat) m D"
  shows "ok n (dt_tx tx) m" and "cache_ok (cache cat) m" and "database m D"
    and "\<not> dt_created tx \<Longrightarrow> m (table_key name) = base (table_key name)"
  using assms by (simp_all add: session_at_def)

text \<open>The outcome of creating a table.\<close>

definition with_table :: "tables \<Rightarrow> bytes + TableDef \<Rightarrow> tables" where
  "with_table D r = (case r of Inl _ \<Rightarrow> D | Inr t \<Rightarrow> D(tname t \<mapsto> (t, {})))"

context tx_store
begin

lemma session_sees: "session_at ok n base s m D \<Longrightarrow> sees_tx file s m"
  using holds by (cases s) (auto simp: session_at_def)

lemma session_table:
  assumes "session_at ok n base s m D" and "D name = Some (tdef, R)"
  shows "schema_ok tdef" and "table_at tdef m R" and "stored_def m name tdef" and "finite R"
proof -
  have db: "database m D"
    using assms(1) by (simp add: session_at_def)
  show t: "schema_ok tdef" "table_at tdef m R" "stored_def m name tdef"
    using databaseD(3) [OF db assms(2)] by (simp_all add: table_in_def)
  have "ok n (dt_tx (fst s)) m"
    using assms(1) by (simp add: session_at_def)
  then have "finite (dom m)"
    using tx_holdsD [OF holds] represents_finite by blast
  then show "finite R"
    by (rule finite_rows [OF _ t(1,2)])
qed

lemma find_table:
  assumes "session_at ok n base (tx, cat) m D" and "D name = Some (tdef, R)"
  obtains cat' where "DBTX_find_table file name (tx, cat) = sret tdef (tx, cat')" and "session_at ok n base (tx, cat') m D"
proof -
  have "stored_def m name tdef"
    using databaseD(3) [OF session_atD(3) [OF assms(1)] assms(2)] by (simp add: table_in_def)
  then show thesis
    using DBTX_find_table_ok [OF session_sees [OF assms(1)]] that assms(1) by (auto simp: session_at_def)
qed

lemma find_missing:
  assumes "session_at ok n base s m D" and "D name = None" and "valid_key (table_key name)"
  shows "DBTX_find_table file name s = serr (no_table name) s"
proof (rule DBTX_find_table_missing [OF session_sees [OF assms(1)] assms(3)])
  show "m (table_key name) = None"
    using databaseD(2) [of m D name] assms(1,2) unfolding session_at_def by blast
qed

text \<open>A transaction is a target of statements, whatever tables it holds.\<close>

sublocale target: ql_target "on_tx file" "\<lambda>s m. session_at ok n base s m D" for n base D
proof
  fix s m name tdef
  show "\<exists>s'. t_table_def (on_tx file) name s = sret tdef s' \<and> session_at ok n base s' m D"
    if "session_at ok n base s m D" "stored_def m name tdef"
    using that session_sees [OF that(1)] DBTX_find_table_ok [of "file" "fst s" "snd s" m name tdef]
    by (cases s) (auto simp: on_tx_def DBTX_table_def_def session_at_def)
  show "t_table_def (on_tx file) name s = serr (no_table name) s"
    if "session_at ok n base s m D" "valid_key (table_key name)" "m (table_key name) = None"
    using DBTX_find_table_missing [OF session_sees [OF that(1)] that(2,3)] by (simp add: on_tx_def DBTX_table_def_def)
  fix R req
  assume A: "session_at ok n base s m D" "stored_def m name tdef" "schema_ok tdef" "table_at tdef m R" "range_fits tdef req"
  obtain tx cat where s: "s = (tx, cat)"
    by (cases s)
  obtain cat' sc L where "DBTX_scan file name req (tx, cat) = sret sc (tx, cat')" "cache_ok (cache cat') m"
      "delivers (on_tx file) (tx, cat') sc (map (row_rec tdef) L)" "distinct L" "set L = {vs \<in> R. row_in tdef req vs}"
      "in_key_order tdef req L"
    by (rule DBTX_scan_ok [OF session_sees [OF A(1), unfolded s] A(2-5)])
  then show "\<exists>s' sc L. t_scan (on_tx file) name req s = sret sc s' \<and> session_at ok n base s' m D
      \<and> delivers (on_tx file) s' sc (map (row_rec tdef) L) \<and> distinct L \<and> set L = {vs \<in> R. row_in tdef req vs} \<and> in_key_order tdef req L"
    using A(1) by (intro exI [of _ "(tx, cat')"] exI [of _ sc] exI [of _ L]) (simp add: on_tx_def s session_at_def)
qed

text \<open>A write to one table.\<close>

lemma session_write:
  assumes s: "session_at ok n base (tx, cat) m D" and D: "D name = Some (tdef, R)" and ok': "ok k kvtx m'"
    and T: "table_at tdef m' R'" and other: "\<And>key. foreign tdef key \<Longrightarrow> m' key = m key"
  shows "session_at ok k base (tx\<lparr>dt_tx := kvtx\<rparr>, cat) m' (D(name \<mapsto> (tdef, R')))"
proof -
  note S = session_atD [OF s]
  have "foreign tdef (table_key a)" for a
    using table_prefixes(2) [OF databaseD(3) [OF S(3) D]] by auto
  then have keys: "m' (table_key a) = m (table_key a)" for a
    by (rule other)
  then have "cache_ok (cache cat) m'"
    using S(2) by (rule cache_ok_keep [rotated])
  then show ?thesis
    using ok' database_rows [OF S(3) D T other] S(4) keys by (simp add: session_at_def)
qed

lemma write_row_eq:
  "write_row file mode name rec = sbind (DBTX_find_table file name) (\<lambda>tdef. on_kv (db_update file tdef rec mode))"
  by (cases mode) (simp_all add: write_row_def DBTX_insert_def DBTX_update_def DBTX_upsert_def)

lemma write_row_step:
  assumes s: "session_at ok (update_writes tdef + n) base s m D" and D: "D name = Some (tdef, R)"
    and rec: "check_record tdef rec (int (length (tcols tdef))) = qret vs"
    and fits: "fits_row tdef (map canonical vs)" and short: "short_update tdef (map canonical vs) m R"
  shows "\<exists>s' m'. write_row file mode name rec s = Inr (store_result tdef (map canonical vs) mode R, s')
    \<and> session_at ok n base s' m' (D(name \<mapsto> (tdef, stored_rows tdef (map canonical vs) mode R)))
    \<and> (store_result tdef (map canonical vs) mode R = Inr () \<longrightarrow>
         m' = add_keys (entries tdef (map canonical vs)) (rewritten tdef (map canonical vs) R m))"
proof -
  obtain tx cat where s_eq: "s = (tx, cat)"
    by (cases s)
  obtain cat' where f: "DBTX_find_table file name (tx, cat) = sret tdef (tx, cat')"
      "session_at ok (update_writes tdef + n) base (tx, cat') m D"
    by (rule find_table [OF s [unfolded s_eq] D])
  note S = session_atD [OF f(2)]
  have t: "schema_ok tdef" "table_at tdef m R"
    using databaseD(3) [OF S(3) D] by (simp_all add: table_in_def)
  obtain kvtx m' where w: "db_update file tdef rec mode (dt_tx tx) = Inr (store_result tdef (map canonical vs) mode R, kvtx)" "ok n kvtx m'"
      "table_at tdef m' (stored_rows tdef (map canonical vs) mode R)" "\<forall>k. foreign tdef k \<longrightarrow> m' k = m k"
      "store_result tdef (map canonical vs) mode R = Inr () \<longrightarrow>
         m' = add_keys (entries tdef (map canonical vs)) (rewritten tdef (map canonical vs) R m)"
    using db_update_step [OF t rec S(1) fits short] by blast
  have "write_row file mode name rec s = Inr (store_result tdef (map canonical vs) mode R, tx\<lparr>dt_tx := kvtx\<rparr>, cat')"
    using f(1) w(1) by (simp add: write_row_eq s_eq sbind_def sret_def on_kv_def)
  moreover have "session_at ok n base (tx\<lparr>dt_tx := kvtx\<rparr>, cat') m' (D(name \<mapsto> (tdef, stored_rows tdef (map canonical vs) mode R)))"
    using w(4) by (intro session_write [OF f(2) D w(2,3)]) simp
  ultimately show ?thesis
    using w(5) by blast
qed

lemma delete_row_step:
  assumes s: "session_at ok (Suc (length (indexes tdef)) + n) base s m D" and D: "D name = Some (tdef, R)"
    and rec: "check_record tdef rec (pkeys tdef) = qret pks" and key: "valid_key (key_of (prefix tdef) pks)"
    and short: "short_delete tdef pks m R"
  shows "\<exists>s' m'. DBTX_del file name rec s = sret (named_row tdef pks R \<noteq> {}) s'
    \<and> session_at ok n base s' m' (D(name \<mapsto> (tdef, R - named_row tdef pks R)))
    \<and> (\<forall>old\<in>named_row tdef pks R. m' = drop_keys (pk_key tdef old # entries tdef old) m)"
proof -
  obtain tx cat where s_eq: "s = (tx, cat)"
    by (cases s)
  obtain cat' where f: "DBTX_find_table file name (tx, cat) = sret tdef (tx, cat')"
      "session_at ok (Suc (length (indexes tdef)) + n) base (tx, cat') m D"
    by (rule find_table [OF s [unfolded s_eq] D])
  note S = session_atD [OF f(2)]
  have t: "schema_ok tdef" "table_at tdef m R"
    using databaseD(3) [OF S(3) D] by (simp_all add: table_in_def)
  obtain kvtx m' where w: "db_delete file tdef rec (dt_tx tx) = sret (named_row tdef pks R \<noteq> {}) kvtx" "ok n kvtx m'"
      "table_at tdef m' (R - named_row tdef pks R)" "\<forall>k. foreign tdef k \<longrightarrow> m' k = m k"
      "\<forall>old\<in>named_row tdef pks R. m' = drop_keys (pk_key tdef old # entries tdef old) m"
    using db_delete_step [OF t rec S(1) key short] by blast
  have "DBTX_del file name rec s = sret (named_row tdef pks R \<noteq> {}) (tx\<lparr>dt_tx := kvtx\<rparr>, cat')"
    using f(1) w(1) by (simp add: DBTX_del_def s_eq sbind_def sret_def on_kv_def)
  moreover have "session_at ok n base (tx\<lparr>dt_tx := kvtx\<rparr>, cat') m' (D(name \<mapsto> (tdef, R - named_row tdef pks R)))"
    using w(4) by (intro session_write [OF f(2) D w(2,3)]) simp
  ultimately show ?thesis
    using w(5) by blast
qed

text \<open>Creating a table.\<close>

lemma table_new_session:
  assumes s: "session_at ok (Suc (Suc n)) base s m D"
    and new: "\<And>t. creation D (next_prefix m) tdef = Inr t \<Longrightarrow> storable (next_prefix m) t"
    and key: "valid_key (table_key (tname tdef))"
  shows "\<exists>s' m'. DBTX_table_new file tdef s = Inr (rbind (creation D (next_prefix m) tdef) (\<lambda>_. Inr ()), s')
    \<and> session_at ok n base s' m' (with_table D (creation D (next_prefix m) tdef))"
proof -
  obtain tx cat where s_eq: "s = (tx, cat)"
    by (cases s)
  note S = session_atD [OF s [unfolded s_eq]]
  let ?r = "creation D (next_prefix m) tdef"
  obtain kvtx m' where w: "table_new file tdef (dt_tx tx) = Inr (rbind ?r (\<lambda>_. Inr ()), kvtx)" "ok n kvtx m'"
      "database m' (with_table D ?r)"
      "\<And>name. D name \<noteq> None \<or> (\<exists>e. ?r = Inl e) \<Longrightarrow> m' (table_key name) = m (table_key name)"
    using table_new_step [OF S(3,1) new key] unfolding with_table_def by blast
  have cached: "D name \<noteq> None" if "cache cat name = Some t" for name t
  proof
    assume "D name = None"
    then have "cache cat name = None"
      by (intro cache_ok_miss [OF S(2)] databaseD(2) [OF S(3), of name])
    then show False
      using that by simp
  qed
  have "cache_ok (cache cat) m'"
    unfolding cache_ok_def
  proof (intro allI impI)
    fix name t
    assume "cache cat name = Some t"
    then show "stored_def m' name t"
      using S(2) w(4) [of name] cached unfolding cache_ok_def stored_def_def by metis
  qed
  moreover have "DBTX_table_new file tdef s = Inr (rbind ?r (\<lambda>_. Inr ()),
      tx\<lparr>dt_tx := kvtx, dt_created := (dt_created tx \<or> (\<exists>t. ?r = Inr t))\<rparr>, cat)"
    using w(1) by (cases ?r) (simp_all add: DBTX_table_new_def s_eq sbind_def sret_def on_kv_def)
  ultimately show ?thesis
    using w(2-4) S(4) by (cases ?r) (auto simp: session_at_def)
qed

text \<open>Reading a row.\<close>

lemma get_session:
  assumes s: "session_at ok n base s m D" and D: "D name = Some (tdef, R)" and rec: "check_record tdef rec (pkeys tdef) = qret pks"
  shows "\<exists>s'. DBTX_get file name rec s = sret (found_row tdef pks R) s' \<and> session_at ok n base s' m D"
proof -
  obtain tx cat where s_eq: "s = (tx, cat)"
    by (cases s)
  obtain cat' where f: "DBTX_find_table file name (tx, cat) = sret tdef (tx, cat')" "session_at ok n base (tx, cat') m D"
    by (rule find_table [OF s [unfolded s_eq] D])
  note S = session_atD [OF f(2)]
  have t: "schema_ok tdef" "table_at tdef m R"
    using databaseD(3) [OF S(3) D] by (simp_all add: table_in_def)
  have H: "tx_inv file (dt_tx tx)" "represents (tx_live file (dt_tx tx)) (tree_root (dt_tx tx)) m"
    using tx_holdsD [OF holds [OF S(1)]] by auto
  have "db_get (KVTX_Pages file) (tree_root (dt_tx tx)) (dt_tx tx) tdef rec = qret (found_row tdef pks R)"
    by (rule tx_pages.db_get_found [OF H t rec])
  then show ?thesis
    using f by (simp add: DBTX_get_def s_eq sbind_def sret_def slift_def qret_def)
qed

end

text \<open>Every running transaction provides the interface, so these are the operations of a running transaction.\<close>

interpretation run: tx_store "content (st_file kv)" "\<lambda>n tx m. running kv tx m \<and> room (content (st_file kv)) n tx" for kv
proof
  let ?f = "content (st_file kv)"
  show "\<exists>tx'. KVTX_set ?f tx key val = Inr tx' \<and> running kv tx' (m(key \<mapsto> val)) \<and> room ?f n tx'"
    if "running kv tx m \<and> room ?f (Suc n) tx" "valid_key key" "length val \<le> BTREE_MAX_VAL_SIZE" for n tx m key val
    using set_room [of ?f tx m n key val] that unfolding running_def by blast
  show "\<exists>tx'. KVTX_del ?f tx key = Inr (True, tx') \<and> running kv tx' (m(key := None)) \<and> room ?f n tx'"
    if "running kv tx m \<and> room ?f (Suc n) tx" "valid_key key" "m key \<noteq> None" "roomy (tx_live ?f tx) (tree_root tx) key" for n tx m key
    using del_room_left [of ?f tx m n key] that unfolding running_def by blast
qed (use held.get_ok held.keys_valid held.short_room room_mono in \<open>unfold running_def, blast+\<close>)

end
