(* ===== verification/Books_Example.thy ===== *)
theory Books_Example
  imports Session_Spec KV_Theorems
begin

text \<open>
  A small database that the witnesses use: a table of books with an index on the author, created in the
  first transaction of a new store, and two rows.
\<close>

section \<open>The table\<close>

definition stored_books :: TableDef where
  "stored_books = with_prefixes 3 (books\<lparr>indexes := [[str ''author'', str ''id'']]\<rparr>)"

definition book_vals :: "u64 \<Rightarrow> bytes \<Rightarrow> bytes \<Rightarrow> Value list" where
  "book_vals i author title = [make_int64 i, make_bytes author, make_bytes title]"

definition book_rec :: "u64 \<Rightarrow> bytes \<Rightarrow> bytes \<Rightarrow> Record" where
  "book_rec i author title = \<lparr>rec_cols = [str ''title'', str ''id'', str ''author''],
     rec_vals = [make_bytes title, make_int64 i, make_bytes author]\<rparr>"

lemma book_names [simp]:
  "str ''id'' \<noteq> str ''title''" "str ''id'' \<noteq> str ''author''" "str ''author'' \<noteq> str ''title''"
  "str ''title'' \<noteq> str ''id''" "str ''author'' \<noteq> str ''id''" "str ''title'' \<noteq> str ''author''"
  by (simp_all add: str_def)

lemma book_table_name [simp]: "str ''books'' \<noteq> []"
  by (simp add: str_def)

lemma stored_books_fields [simp]:
  "tname stored_books = str ''books''" "tcols stored_books = [str ''id'', str ''author'', str ''title'']"
  "types stored_books = [INT_64, BYTES, BYTES]" "pkeys stored_books = 1" "prefix stored_books = 3"
  "indexes stored_books = [[str ''author'', str ''id'']]" "index_prefixes stored_books = [4]"
  by (simp_all add: stored_books_def books_def builder_defs with_prefixes_def)

lemma books_checked: "table_def_check books = Inr (books\<lparr>indexes := indexes stored_books\<rparr>)"
  by (simp add: table_def_check_def books_def builder_defs check_index_keys_def Let_def col_index_def contains_def)

lemma books_created: "creation Map.empty (next_prefix Map.empty) books = Inr stored_books"
  by (simp add: creation_def books_checked next_prefix_def TABLE_PREFIX_MIN_def) (simp add: stored_books_def books_def builder_defs)

lemma books_storable: "storable 3 stored_books"
  by (simp add: storable_def text_ok_def newline_def plain_name_def is_space_def str_def valid_key_def internal_key_def
      BTREE_MAX_KEY_SIZE_def BTREE_MAX_VAL_SIZE_def encode_table_def_def
      Let_def show_int_def show_index_def space_def show_nat.simps)

lemma books_schema: "schema_ok stored_books"
  using new_schema [OF books_checked, of 3] books_storable unfolding stored_books_def by simp

lemma book_check: "check_record stored_books (book_rec i a t) 3 = qret (book_vals i a t)"
  by (simp add: check_record_def upt_rec numeral_3_eq_3 Record_get_def book_rec_def book_vals_def make_int64_def make_bytes_def qret_def)

lemma book_key_check: "check_record stored_books \<lparr>rec_cols = [str ''id''], rec_vals = [make_int64 i]\<rparr> 1 = qret [make_int64 i]"
  by (simp add: check_record_def Record_get_def make_int64_def qret_def)

lemma book_canonical: "map canonical (book_vals i a t) = book_vals i a t" "canonical (make_int64 i) = make_int64 i"
  by (simp_all add: book_vals_def canonical_def fill_slot_def default_Value_def make_int64_def make_bytes_def)

section \<open>The keys of its rows\<close>

lemma book_fields:
  "field stored_books (book_vals i a t) (str ''id'') = make_int64 i"
  "field stored_books (book_vals i a t) (str ''author'') = make_bytes a"
  by (simp_all add: field_def row_rec_def Record_get_def book_vals_def)

lemma book_keys:
  "pk_key stored_books (book_vals i a t) = key_of 3 [make_int64 i]"
  "entries stored_books (book_vals i a t) = [key_of 4 [make_bytes a, make_int64 i]]"
  "pk_vals stored_books (book_vals i a t) = [make_int64 i]"
  by (simp_all add: pk_key_def pk_vals_def index_list_def ix_key_def book_fields) (simp_all add: book_vals_def)

lemma key_of_length: "length (key_of p vs) = 4 + length (concat (map value_bytes vs))"
  by (simp add: key_of_def)

lemma int_bytes_length [simp]: "length (value_bytes (make_int64 i)) = 8"
  by (simp add: value_bytes_def make_int64_def encode_int64_eq)

lemma example_bytes [simp]:
  "value_bytes (make_bytes [120]) = [120, 0]"
  "value_bytes (make_int64 7) = [128, 0, 0, 0, 0, 0, 0, 7]" "value_bytes (make_int64 8) = [128, 0, 0, 0, 0, 0, 0, 8]"
  by (simp_all add: value_bytes_def make_bytes_def make_int64_def encode_bytes_def escape_string_def encode_int64_def Let_def SIGN_BIT_def)

lemma example_keys:
  "key_of 3 [make_int64 7] = [0, 0, 0, 3, 128, 0, 0, 0, 0, 0, 0, 7]" "key_of 3 [make_int64 8] = [0, 0, 0, 3, 128, 0, 0, 0, 0, 0, 0, 8]"
  "key_of 4 [make_bytes [120], make_int64 7] = [0, 0, 0, 4, 120, 0, 128, 0, 0, 0, 0, 0, 0, 7]"
  "key_of 4 [make_bytes [120], make_int64 8] = [0, 0, 0, 4, 120, 0, 128, 0, 0, 0, 0, 0, 0, 8]"
  by (simp_all add: key_of_def be_bytes_numeral)

definition book7 :: "Value list" where
  "book7 = book_vals 7 [120] [104, 105]"

definition book8 :: "Value list" where
  "book8 = book_vals 8 [120] []"

lemma example_rows:
  "pk_key stored_books book7 = key_of 3 [make_int64 7]" "pk_key stored_books book8 = key_of 3 [make_int64 8]"
  "entries stored_books book7 = [key_of 4 [make_bytes [120], make_int64 7]]"
  "entries stored_books book8 = [key_of 4 [make_bytes [120], make_int64 8]]"
  "pk_vals stored_books book7 = [make_int64 7]" "pk_vals stored_books book8 = [make_int64 8]"
  "map canonical book7 = book7" "map canonical book8 = book8"
  by (simp_all add: book7_def book8_def book_keys book_canonical del: list.map)

lemma example_fits: "fits_row stored_books book7" "fits_row stored_books book8"
proof -
  have "row_val stored_books book7 = [120, 0, 104, 105, 0]" "row_val stored_books book8 = [120, 0, 0]"
    by (simp_all add: row_val_def book7_def book8_def book_vals_def value_bytes_def make_bytes_def encode_bytes_def escape_string_def)
  then show "fits_row stored_books book7" "fits_row stored_books book8"
    unfolding fits_row_def example_rows
    by (simp_all add: example_keys valid_key_def BTREE_MAX_KEY_SIZE_def BTREE_MAX_VAL_SIZE_def)
qed

section \<open>The first transaction\<close>

abbreviation new_kv :: KV where
  "new_kv \<equiv> (fresh_store [])\<lparr>st_writer := True\<rparr>"

abbreviation run_at :: "KV \<Rightarrow> nat \<Rightarrow> (bytes \<rightharpoonup> bytes) \<Rightarrow> session \<Rightarrow> (bytes \<rightharpoonup> bytes) \<Rightarrow> tables \<Rightarrow> bool" where
  "run_at kv \<equiv> session_at (\<lambda>n tx m. running kv tx m \<and> room (content (st_file kv)) n tx)"

definition new_session :: session where
  "new_session = (\<lparr>dt_tx = fresh_tx, dt_created = False\<rparr>, new_Catalog)"

lemma fresh_room: "room f (2 ^ 20) fresh_tx" "room f 20 fresh_tx"
proof -
  show "room f (2 ^ 20) fresh_tx"
    using fresh_tx_budget_exact by (intro room_large [OF fresh_tx_holds]) (simp_all add: fresh_tx_live)
  then show "room f 20 fresh_tx"
    by (rule room_mono) simp
qed

lemma new_session_at: "run_at new_kv 20 Map.empty new_session Map.empty Map.empty"
  using fresh_running [of "[]"] fresh_room empty_database by (simp add: session_at_def new_session_def new_Catalog_def)

lemma books_session:
  "\<exists>s m. DBTX_table_new [] books new_session = sret () s \<and> run_at new_kv 18 Map.empty s m [str ''books'' \<mapsto> (stored_books, {})]"
proof -
  have s: "run_at new_kv (Suc (Suc 18)) Map.empty new_session Map.empty Map.empty"
    using new_session_at by simp
  have new: "storable (next_prefix Map.empty) t" if "creation Map.empty (next_prefix Map.empty) books = Inr t" for t
    using that books_storable by (simp add: books_created) (simp add: next_prefix_def TABLE_PREFIX_MIN_def)
  have key: "valid_key (table_key (tname books))"
    by (simp add: books_def builder_defs valid_key_def internal_key_def BTREE_MAX_KEY_SIZE_def str_def)
  show ?thesis
    using run.table_new_session [OF s new key] by (simp add: books_created with_table_def sret_def)
qed

text \<open>Inserting a book that is not there.\<close>

lemma book_insert:
  assumes s: "run_at kv (3 + n) base s m [str ''books'' \<mapsto> (stored_books, R)]"
    and row: "book_vals i a t = row" "fits_row stored_books row" "same_pk stored_books row R = {}"
  shows "\<exists>s' m'. DBTX_insert (content (st_file kv)) (str ''books'') (book_rec i a t) s = sret () s'
    \<and> run_at kv n base s' m' [str ''books'' \<mapsto> (stored_books, insert row R)]"
proof -
  have canon: "map canonical (book_vals i a t) = row"
    unfolding book_canonical by (rule row(1))
  have "{vs \<in> R. pk_vals stored_books vs \<noteq> pk_vals stored_books row} = R"
    using row(3) by (auto simp: same_pk_def)
  then have out: "store_result stored_books row INSERT_ONLY R = Inr ()" "stored_rows stored_books row INSERT_ONLY R = insert row R"
    using row(3) by (simp_all add: store_result_def stored_rows_def mode_met_def replace_row_def)
  have at: "run_at kv (update_writes stored_books + n) base s m [str ''books'' \<mapsto> (stored_books, R)]"
    using s by (simp add: update_writes_def)
  have rec: "check_record stored_books (book_rec i a t) (int (length (tcols stored_books))) = qret (book_vals i a t)"
    using book_check by simp
  have "short_update stored_books row m R"
    using row(3) by (simp add: short_update_def)
  then obtain s' m' where "write_row (content (st_file kv)) INSERT_ONLY (str ''books'') (book_rec i a t) s = Inr (Inr (), s')"
      "run_at kv n base s' m' [str ''books'' \<mapsto> (stored_books, R), str ''books'' \<mapsto> (stored_books, insert row R)]"
    using run.write_row_step [OF at _ rec, of "str ''books''" R INSERT_ONLY] row(2) unfolding canon out by auto
  then show ?thesis
    by (auto simp: write_row_def sret_def)
qed

lemma two_books:
  "\<exists>s m. run_at new_kv 12 Map.empty s m [str ''books'' \<mapsto> (stored_books, {book7, book8})]"
proof -
  obtain s m where s: "run_at new_kv (3 + 15) Map.empty s m [str ''books'' \<mapsto> (stored_books, {})]"
    using books_session by auto
  obtain s' m' where s': "run_at new_kv (3 + 12) Map.empty s' m' [str ''books'' \<mapsto> (stored_books, {book8})]"
    using book_insert [OF s book8_def [symmetric] example_fits(2)] by (auto simp: same_pk_def)
  have "same_pk stored_books book7 {book8} = {}"
    by (simp add: same_pk_def example_rows make_int64_def default_Value_def)
  then show ?thesis
    using book_insert [OF s' book7_def [symmetric] example_fits(1)] by auto
qed

text \<open>A key of a table is followed by one no longer, when a later key of the same tree is that short.\<close>

lemma short_by_next:
  assumes "under p k" and "under p k'" and "k < k'" and "m k' \<noteq> None"
    and "\<And>x. under p x \<Longrightarrow> m x \<noteq> None \<Longrightarrow> length x \<le> length k"
  shows "short_successor k m"
  unfolding short_successor_def
proof (intro ballI impI)
  fix x
  assume x: "x \<in> dom m" and next_key: "k < x \<and> (\<forall>k''\<in>dom m. k < k'' \<longrightarrow> x \<le> k'')"
  have "k = be_bytes 4 (unat p) @ drop 4 k" "k' = be_bytes 4 (unat p) @ drop 4 k'"
    using assms(1,2) append_take_drop_id [of 4 k] append_take_drop_id [of 4 k'] by (simp_all add: under_def)
  moreover have "\<not> x < k" "\<not> k' < x"
    using next_key assms(3,4) by (auto simp: domIff dest: bspec [of _ _ k'])
  ultimately have "under p x"
    using between_prefix [of x "be_bytes 4 (unat p)" "drop 4 k" "drop 4 k'"] by (simp add: under_def)
  then show "length x \<le> length k"
    using assms(5) x by (simp add: domIff)
qed

lemma two_books_lookup:
  assumes "table_at stored_books m {book7, book8}"
  shows "under 3 k \<Longrightarrow> m k \<noteq> None \<longleftrightarrow> k = key_of 3 [make_int64 7] \<or> k = key_of 3 [make_int64 8]"
    and "under 4 k \<Longrightarrow> m k \<noteq> None \<longleftrightarrow> k = key_of 4 [make_bytes [120], make_int64 7] \<or> k = key_of 4 [make_bytes [120], make_int64 8]"
proof -
  note T = table_atD [OF assms]
  have ix: "index_list stored_books = [([str ''author'', str ''id''], 4)]"
    by (simp add: index_list_def)
  show "m k \<noteq> None \<longleftrightarrow> k = key_of 3 [make_int64 7] \<or> k = key_of 3 [make_int64 8]" if "under 3 k"
    using T(3) [of k] that by (simp add: example_rows) blast
  show "m k \<noteq> None \<longleftrightarrow> k = key_of 4 [make_bytes [120], make_int64 7] \<or> k = key_of 4 [make_bytes [120], make_int64 8]" if "under 4 k"
    using T(4) [of "([str ''author'', str ''id''], 4)" k] that example_rows(3,4) by (simp add: ix) 
qed

lemma example_order:
  "key_of 3 [make_int64 7] < key_of 3 [make_int64 8]" "key_of 4 [make_bytes [120], make_int64 7] < key_of 4 [make_bytes [120], make_int64 8]"
  "length (key_of 3 [make_int64 7]) = 12" "length (key_of 3 [make_int64 8]) = 12"
  "length (key_of 4 [make_bytes [120], make_int64 7]) = 14" "length (key_of 4 [make_bytes [120], make_int64 8]) = 14"
  by (simp_all add: example_keys)

lemma book7_first:
  assumes "table_at stored_books m {book7, book8}" and "\<And>k. under 4 k \<Longrightarrow> m' k = m k"
  shows "short_run [key_of 4 [make_bytes [120], make_int64 7]] m'" and "short_successor (key_of 3 [make_int64 7]) m"
proof -
  note L = two_books_lookup [OF assms(1)]
  have "short_successor (key_of 4 [make_bytes [120], make_int64 7]) m'"
    by (rule short_by_next [of 4 _ "key_of 4 [make_bytes [120], make_int64 8]"]) (use L(2) assms(2) in \<open>auto simp: example_order\<close>)
  then show "short_run [key_of 4 [make_bytes [120], make_int64 7]] m'"
    using L(2) assms(2) by simp
  show "short_successor (key_of 3 [make_int64 7]) m"
    by (rule short_by_next [of 3 _ "key_of 3 [make_int64 8]"]) (use L(1) in \<open>auto simp: example_order\<close>)
qed

lemma book7_run:
  assumes "table_at stored_books m {book7, book8}"
  shows "short_run (pk_key stored_books book7 # entries stored_books book7) m"
proof -
  have "(m(key_of 3 [make_int64 7] := None)) k = m k" if "under 4 k" for k
    using that by auto
  then have "short_run [key_of 4 [make_bytes [120], make_int64 7]] (m(key_of 3 [make_int64 7] := None))"
    by (rule book7_first(1) [OF assms])
  moreover have "m (key_of 3 [make_int64 7]) \<noteq> None"
    using two_books_lookup(1) [OF assms] by simp
  ultimately show ?thesis
    using book7_first(2) [OF assms refl] unfolding example_rows by (simp only: short_run.simps(2)) simp
qed

lemma books_differ: "make_int64 8 \<noteq> make_int64 7" "book7 \<noteq> book8"
  by (simp_all add: book7_def book8_def book_vals_def make_int64_def default_Value_def)

section \<open>Queries\<close>

definition id_is_7 :: QLNode where
  "id_is_7 = ql_binop QL_CMP_EQ (ql_sym (str ''id'')) (ql_int64 7)"

definition by_x :: QLNode where
  "by_x = ql_binop QL_CMP_EQ (ql_sym (str ''author'')) (ql_str [120])"

definition scan_books :: "QLNode \<Rightarrow> QLScan" where
  "scan_books cond = \<lparr>sc_table = str ''books'', sc_key1 = empty_QLNode, sc_key2 = empty_QLNode, sc_filter = cond, sc_offset = 0, sc_limit = -1\<rparr>"

lemma scan_books_fields [simp]:
  "sc_table (scan_books cond) = str ''books''" "sc_filter (scan_books cond) = cond" "sc_offset (scan_books cond) = 0"
  "sc_limit (scan_books cond) = -1" "sc_key1 (scan_books cond) = empty_QLNode" "sc_key2 (scan_books cond) = empty_QLNode"
  by (simp_all add: scan_books_def)

definition eq_range :: "bytes \<Rightarrow> Value \<Rightarrow> QLRange" where
  "eq_range c v = \<lparr>r_cmp1 = CMP_GE, r_cmp2 = CMP_LE, r_key1 = \<lparr>rec_cols = [c], rec_vals = [v]\<rparr>,
     r_key2 = \<lparr>rec_cols = [c], rec_vals = [v]\<rparr>\<rparr>"

lemma id_range: "ql_range id_is_7 stored_books = Inr (eq_range (str ''id'') (make_int64 7))"
  by (simp add: id_is_7_def ql_range_def ql_defs collect.simps is_comparison_def collect_cmp_def col_index_def
      ql_eval.simps qret_def add_bound_def empty_ColBound_def Let_def fit_cols_def score_def push_range_def
      bounds_at_def full_range_def push_col_def empty_Record_def eq_range_def)

lemma author_range: "ql_range by_x stored_books = Inr (eq_range (str ''author'') (make_bytes [120]))"
  by (simp add: by_x_def ql_range_def ql_defs collect.simps is_comparison_def collect_cmp_def col_index_def
      ql_eval.simps qret_def add_bound_def empty_ColBound_def Let_def fit_cols_def score_def push_range_def
      bounds_at_def full_range_def push_col_def empty_Record_def eq_range_def)

lemma eq_range_fits:
  "one_index stored_books (eq_range (str ''id'') v)" "one_index stored_books (eq_range (str ''author'') v)"
  by (simp_all add: one_index_def eq_range_def find_index_def is_prefix_def scan_cols_def pk_cols_def)

text \<open>The order of their rows: by the index on the author, and for equal authors by the id.\<close>

lemma books_order:
  "scan_order stored_books (scan_books id_is_7) [vs]" "scan_order stored_books (scan_books by_x) [book7, book8]"
proof -
  have "find_index stored_books [str ''id''] = Inr (-1)" "find_index stored_books [str ''author''] = Inr 0"
    by (simp_all add: find_index_def is_prefix_def)
  moreover have "tree_key stored_books 0 vs = ix_key stored_books vs ([str ''author'', str ''id''], 4)" for vs
    by (simp add: tree_key_def scan_cols_def scan_prefix_def ix_key_def)
  then have "tree_key stored_books 0 book7 < tree_key stored_books 0 book8"
    using example_order(2) by (simp add: ix_key_def book7_def book8_def book_fields)
  ultimately show "scan_order stored_books (scan_books id_is_7) [vs]" "scan_order stored_books (scan_books by_x) [book7, book8]"
    by (simp_all add: scan_order_def id_range author_range eq_range_def)
qed

text \<open>The offset matters neither to what is asked nor to the order.\<close>

lemma offset_irrelevant [simp]:
  "answerable tdef R (req\<lparr>sc_offset := k\<rparr>) = answerable tdef R req" "answer tdef R (req\<lparr>sc_offset := k\<rparr>) = answer tdef R req"
  "scan_order tdef (req\<lparr>sc_offset := k\<rparr>) = scan_order tdef req"
  by (simp_all add: answerable_def answer_def scan_order_def fun_eq_iff)

lemma books_filters:
  "row_kept id_is_7 (row_rec stored_books book7) = qret True" "row_kept id_is_7 (row_rec stored_books book8) = qret False"
  "row_kept by_x (row_rec stored_books book7) = qret True" "row_kept by_x (row_rec stored_books book8) = qret True"
  by (simp_all add: id_is_7_def by_x_def row_kept_def ql_defs ql_eval.simps ql_binary_def compare_def cmp_holds_def make_bool_def
      book7_def book8_def book_vals_def row_rec_def Record_get_def make_int64_def make_bytes_def qret_def)

lemma books_answerable:
  "answerable stored_books {book7, book8} (scan_books id_is_7)" "answerable stored_books {book7, book8} (scan_books by_x)"
proof -
  have "ql_wf id_is_7" "ql_wf by_x" "q_type empty_QLNode = QL_UNINIT"
    by (simp_all add: id_is_7_def by_x_def ql_defs empty_QLNode_def)
  then show "answerable stored_books {book7, book8} (scan_books id_is_7)" "answerable stored_books {book7, book8} (scan_books by_x)"
    using id_range author_range eq_range_fits books_filters by (auto simp: answerable_def scan_books_def)
qed

lemma books_answers:
  "answer stored_books {book7, book8} (scan_books id_is_7) = {book7}"
  "answer stored_books {book7, book8} (scan_books by_x) = {book7, book8}"
  using books_filters by (auto simp: answer_def kept_row_def scan_books_def qret_def)

end
