(* ===== verification/Statement_Spec.thy ===== *)
theory Statement_Spec
  imports Session_Spec
begin

text \<open>
  INSERT and DELETE statements in a running transaction, as one update of the rows of their table.
\<close>

section \<open>Keys to delete\<close>

definition delete_keys :: "TableDef \<Rightarrow> Value list list \<Rightarrow> bytes list" where
  "delete_keys tdef L = concat (map (\<lambda>vs. pk_key tdef vs # entries tdef vs) L)"

lemma drop_keys_append: "drop_keys (xs @ ys) m = drop_keys ys (drop_keys xs m)"
  by (auto simp: drop_keys_def)

lemma short_run_append: "short_run (xs @ ys) m \<longleftrightarrow> short_run xs m \<and> short_run ys (drop_keys xs m)"
  by (induction xs arbitrary: m) simp_all

text \<open>The key of a row, as \<open>delete\<close> collects it.\<close>

lemma primary_key_from:
  "(\<And>c. c \<in> set cols \<Longrightarrow> Record_get row c = Some (f c)) \<Longrightarrow>
    primary_key row cols out = qret (out\<lparr>rec_cols := rec_cols out @ cols, rec_vals := rec_vals out @ map f cols\<rparr>)"
  by (induction cols arbitrary: out) (simp_all add: push_col_def)

lemma primary_key_row:
  assumes "schema_ok tdef" and "typed_vals tdef vs"
  shows "primary_key (row_rec tdef vs) (pk_cols tdef) empty_Record = qret (key_rec tdef (pk_vals tdef vs))"
proof -
  have len: "length vs = length (tcols tdef)"
    by (rule typed_length [OF assms])
  have "Record_get (row_rec tdef vs) c = Some (field tdef vs c)" if "c \<in> set (pk_cols tdef)" for c
    using row_get_field [OF assms(1) len] pk_cols_sub that by blast
  from primary_key_from [OF this] show ?thesis
    using pk_vals_fields [OF assms(1) len] by (simp add: empty_Record_def key_rec_def)
qed

lemma named_by_row:
  assumes "table_at tdef m R" and "vs \<in> R"
  shows "named_row tdef (pk_vals tdef vs) R = {vs}"
proof (rule named_row_single [OF assms(1)])
  have "map canonical vs = vs"
    using table_atD(1) [OF assms] by (simp add: typed_vals_def)
  then have "map canonical (pk_vals tdef vs) = pk_vals tdef vs"
    by (metis pk_vals_def take_map)
  then show "vs \<in> named_row tdef (pk_vals tdef vs) R"
    using assms(2) by (simp add: named_row_def)
qed

text \<open>The row that the expressions of an INSERT describe.\<close>

definition inserts :: "TableDef \<Rightarrow> bytes list \<Rightarrow> QLNode list \<Rightarrow> Value list \<Rightarrow> bool" where
  "inserts tdef names vals row \<longleftrightarrow> length vals = length names \<and> fits_row tdef row
     \<and> (\<exists>rec vs. insert_record vals names empty_Record = qret rec
          \<and> check_record tdef rec (int (length (tcols tdef))) = qret vs \<and> row = map canonical vs)"

context tx_store
begin

lemma delete_rows_step:
  "session_at ok (length L * Suc (length (indexes tdef)) + n) base s m D \<Longrightarrow> D name = Some (tdef, R) \<Longrightarrow>
    distinct L \<Longrightarrow> set L \<subseteq> R \<Longrightarrow> short_run (delete_keys tdef L) m \<Longrightarrow> sc_table (qd_scan req) = name \<Longrightarrow>
    \<exists>s' m'. delete_rows file req (pk_cols tdef) (map (row_rec tdef) L) count s = sret (count + word_of_nat (length L)) s'
      \<and> session_at ok n base s' m' (D(name \<mapsto> (tdef, R - set L)))"
proof (induction L arbitrary: s m D R count)
  case Nil
  then show ?case
    by (intro exI [of _ s] exI [of _ m]) (simp add: fun_upd_idem)
next
  case (Cons vs L)
  have mem: "vs \<in> R" "vs \<notin> set L" "distinct L" "set L \<subseteq> R - {vs}"
    using Cons.prems(3,4) by auto
  have db: "database m D"
    using Cons.prems(1) by (simp add: session_at_def)
  have t: "schema_ok tdef" "table_at tdef m R"
    using databaseD(3) [OF db Cons.prems(2)] by (simp_all add: table_in_def)
  note typed = table_atD(1) [OF t(2) mem(1)] and named = named_by_row [OF t(2) mem(1)]
  have keys: "short_run (pk_key tdef vs # entries tdef vs) m"
      "short_run (delete_keys tdef L) (drop_keys (pk_key tdef vs # entries tdef vs) m)"
    using Cons.prems(5) unfolding delete_keys_def by (simp_all only: list.map concat.simps short_run_append)
  have "ok (length (vs # L) * Suc (length (indexes tdef)) + n) (dt_tx (fst s)) m"
    using Cons.prems(1) by (simp add: session_at_def)
  moreover have "m (pk_key tdef vs) \<noteq> None"
    using table_row(1) [OF t(2) mem(1)] by simp
  ultimately have key: "valid_key (key_of (prefix tdef) (pk_vals tdef vs))"
    using keys_valid unfolding pk_key_def by blast
  have room: "session_at ok (Suc (length (indexes tdef)) + (length L * Suc (length (indexes tdef)) + n)) base s m D"
    using Cons.prems(1) by (simp add: algebra_simps)
  have short: "short_delete tdef (pk_vals tdef vs) m R"
    unfolding short_delete_def named using keys(1) by simp
  obtain s1 m1 where s1: "DBTX_del file name (key_rec tdef (pk_vals tdef vs)) s = sret ({vs} \<noteq> {}) s1"
      "session_at ok (length L * Suc (length (indexes tdef)) + n) base s1 m1 (D(name \<mapsto> (tdef, R - {vs})))"
      "\<forall>old\<in>{vs}. m1 = drop_keys (pk_key tdef old # entries tdef old) m"
    using delete_row_step [OF room Cons.prems(2) check_key_rec [OF t(1) typed] key short] unfolding named by blast
  obtain s2 m2 where "delete_rows file req (pk_cols tdef) (map (row_rec tdef) L) (count + 1) s1 = sret (count + 1 + word_of_nat (length L)) s2"
      "session_at ok n base s2 m2 (D(name \<mapsto> (tdef, R - {vs}), name \<mapsto> (tdef, R - {vs} - set L)))"
  proof -
    have "short_run (delete_keys tdef L) m1"
      using keys(2) s1(3) by (simp only: ball_simps)
    then show thesis
      using Cons.IH [OF s1(2) _ mem(3,4) _ Cons.prems(6), of "count + 1"] that by (metis fun_upd_same)
  qed
  note run = this(1) and at = this(2)
  have "R - {vs} - set L = R - set (vs # L)"
    by auto
  then have "session_at ok n base s2 m2 (D(name \<mapsto> (tdef, R - set (vs # L))))"
    using at by simp
  moreover have "delete_rows file req (pk_cols tdef) (map (row_rec tdef) (vs # L)) count s = sret (count + word_of_nat (length (vs # L))) s2"
    using s1(1) run primary_key_row [OF t(1) typed] Cons.prems(6) by (simp add: sbind_def sret_def slift_def qret_def add.assoc)
  ultimately show ?case
    by blast
qed


text \<open>DELETE: the rows the filter keeps, after the offset and up to the limit, are gone, and the count is theirs.\<close>

lemma ql_delete_step:
  assumes s: "session_at ok (length (picked (qd_scan req) L) * Suc (length (indexes tdef)) + n) base s m D"
    and D: "D (sc_table (qd_scan req)) = Some (tdef, R)" and query: "answerable tdef R (qd_scan req)"
    and L: "scan_order tdef (qd_scan req) L" "set L = answer tdef R (qd_scan req)"
    and short: "short_run (delete_keys tdef (picked (qd_scan req) L)) m" and fuel: "card R < fuel"
  shows "\<exists>s' m'. ql_delete file fuel req s = sret (word_of_nat (length (picked (qd_scan req) L))) s'
    \<and> session_at ok n base s' m' (D(sc_table (qd_scan req) \<mapsto> (tdef, R - set (picked (qd_scan req) L))))"
proof -
  let ?name = "sc_table (qd_scan req)" and ?k = "length (picked (qd_scan req) L) * Suc (length (indexes tdef)) + n"
    and ?L = "picked (qd_scan req) L"
  note t = session_table [OF s D]
  obtain s1 where s1: "DBTX_table_def file ?name s = sret tdef s1" "session_at ok ?k base s1 m D"
    using target.table_found [OF s t(3)] by (auto simp: on_tx_def)
  obtain s2 L' where L': "session_at ok ?k base s2 m D" "scan_order tdef (qd_scan req) L'" "set L' = answer tdef R (qd_scan req)"
      "\<And>fuel. card R < fuel \<Longrightarrow> scan_rows fuel (on_tx file) (qd_scan req) s1 = sret (map (row_rec tdef) (picked (qd_scan req) L')) s2"
    by (rule target.scan_answer [OF s1(2) t(4,3,1,2) query]) blast+
  have eq: "L' = L"
    by (rule scan_order_unique [OF L'(2) L(1)]) (simp add: L'(3) L(2))
  have mem: "distinct ?L" "set ?L \<subseteq> R"
  proof -
    show "distinct ?L"
      by (intro distinct_limited scan_order_distinct [OF L(1)])
    have "set L \<subseteq> R"
      using L(2) by (simp add: answer_def)
    then show "set ?L \<subseteq> R"
      by (rule subset_trans [OF set_limited])
  qed
  obtain s3 m3 where "delete_rows file req (pk_cols tdef) (map (row_rec tdef) ?L) 0 s2 = sret (0 + word_of_nat (length ?L)) s3"
      "session_at ok n base s3 m3 (D(?name \<mapsto> (tdef, R - set ?L)))"
    using delete_rows_step [OF L'(1) D mem short refl, of 0] by blast
  then show ?thesis
    using s1(1) L'(4) [OF fuel] schema_okD(9,10) [OF t(1)] by (auto simp: eq ql_delete_def sbind_def sret_def pk_cols_def)
qed

text \<open>INSERT.\<close>

lemma insert_rows_step:
  "session_at ok (length rows * update_writes tdef + n) base s m D \<Longrightarrow> D (qi_table req) = Some (tdef, R) \<Longrightarrow>
    list_all2 (inserts tdef (qi_names req)) valss rows \<Longrightarrow> qi_mode req \<noteq> UPDATE_ONLY \<Longrightarrow>
    distinct (map (pk_vals tdef) rows) \<Longrightarrow> pk_vals tdef ` set rows \<inter> pk_vals tdef ` R = {} \<Longrightarrow>
    \<exists>s' m'. insert_rows file req valss count s = sret (count + word_of_nat (length rows)) s'
      \<and> session_at ok n base s' m' (D(qi_table req \<mapsto> (tdef, R \<union> set rows)))"
proof (induction rows arbitrary: valss s m D R count)
  case Nil
  then show ?case
    by (intro exI [of _ s] exI [of _ m]) (simp add: fun_upd_idem)
next
  case (Cons row rows)
  obtain vals rest where v: "valss = vals # rest" "inserts tdef (qi_names req) vals row" "list_all2 (inserts tdef (qi_names req)) rest rows"
    using Cons.prems(3) by (auto simp: list_all2_Cons2)
  obtain rec vs where rec: "length vals = length (qi_names req)" "fits_row tdef (map canonical vs)"
      "insert_record vals (qi_names req) empty_Record = qret rec"
      "check_record tdef rec (int (length (tcols tdef))) = qret vs" "row = map canonical vs"
    using v(2) by (auto simp: inserts_def)
  have new: "same_pk tdef row R = {}"
  proof -
    have "pk_vals tdef row \<notin> pk_vals tdef ` R"
      using Cons.prems(6) by auto
    then show ?thesis
      unfolding same_pk_def by (metis (mono_tags, lifting) Collect_empty_eq image_eqI)
  qed
  have out: "store_result tdef row (qi_mode req) R = Inr ()" "stored_rows tdef row (qi_mode req) R = insert row R"
    using new Cons.prems(4) by (auto simp: store_result_def stored_rows_def mode_met_def replace_row_def same_pk_def)
  have room: "session_at ok (update_writes tdef + (length rows * update_writes tdef + n)) base s m D"
    using Cons.prems(1) by (simp add: add.assoc)
  have short: "short_update tdef (map canonical vs) m R"
    using new rec(5) by (simp add: short_update_def)
  obtain s1 m1 where s1: "write_row file (qi_mode req) (qi_table req) rec s = Inr (Inr (), s1)"
      "session_at ok (length rows * update_writes tdef + n) base s1 m1 (D(qi_table req \<mapsto> (tdef, insert row R)))"
    using write_row_step [OF room Cons.prems(2) rec(4,2) short, of "qi_mode req"] unfolding rec(5) [symmetric] out by blast
  have "pk_vals tdef ` set rows \<inter> pk_vals tdef ` insert row R = {}"
    using Cons.prems(5,6) by auto
  moreover have "distinct (map (pk_vals tdef) rows)" "(D(qi_table req \<mapsto> (tdef, insert row R))) (qi_table req) = Some (tdef, insert row R)"
    using Cons.prems(5) by simp_all
  ultimately obtain s2 m2 where s2: "insert_rows file req rest (count + 1) s1 = sret (count + 1 + word_of_nat (length rows)) s2"
      "session_at ok n base s2 m2 (D(qi_table req \<mapsto> (tdef, insert row R), qi_table req \<mapsto> (tdef, insert row R \<union> set rows)))"
    using Cons.IH [OF s1(2) _ v(3) Cons.prems(4), of "insert row R" "count + 1"] by blast
  have "insert_rows file req valss count s = sret (count + word_of_nat (length (row # rows))) s2"
    using v(1) rec(1,3) s1(1) s2(1) by (simp add: sbind_def sret_def slift_def qret_def add.assoc)
  moreover have "session_at ok n base s2 m2 (D(qi_table req \<mapsto> (tdef, R \<union> set (row # rows))))"
    using s2(2) by simp
  ultimately show ?case
    by blast
qed

end

end
