(* ===== verification/Update_Spec.thy ===== *)
theory Update_Spec
  imports Statement_Spec
begin

text \<open>
  UPDATE in a running transaction, as one update of the rows of its table: each row that the filter keeps
  gets the values of its assignments, all computed from the row as it was.
\<close>

section \<open>Assignments\<close>

text \<open>What the assignments make of a row: a column named twice gets the last value.\<close>

definition assigned :: "TableDef \<Rightarrow> bytes list \<Rightarrow> Value list \<Rightarrow> Value list \<Rightarrow> Value list" where
  "assigned tdef names vals vs =
     map (\<lambda>c. case map_of (rev (zip names vals)) c of Some v \<Rightarrow> v | None \<Rightarrow> field tdef vs c) (tcols tdef)"

lemma length_set_first [simp]: "length (set_first cols vs n v) = length vs"
  by (induction cols vs n v rule: set_first.induct) auto

lemma set_first_nth:
  "distinct cols \<Longrightarrow> length vs = length cols \<Longrightarrow> i < length cols \<Longrightarrow>
    set_first cols vs n v ! i = (if cols ! i = n then v else vs ! i)"
proof (induction cols vs n v arbitrary: i rule: set_first.induct)
  case (1 c cs w ws name x)
  then show ?case
    by (cases i) (auto simp: nth_eq_iff_index_eq)
qed simp_all

lemma field_set_first:
  assumes "schema_ok tdef" and "length vs = length (tcols tdef)" and "c \<in> set (tcols tdef)"
  shows "field tdef (set_first (tcols tdef) vs n v) c = (if c = n then v else field tdef vs c)"
proof -
  obtain i where i: "i < length vs" "c = tcols tdef ! i"
    using assms(2,3) by (auto simp: in_set_conv_nth)
  then show ?thesis
    using field_nth [OF assms(1)] assms(2) set_first_nth [OF schema_okD(3) [OF assms(1)], of vs i n v] by simp
qed

lemma map_fields:
  assumes "schema_ok tdef" and "length vs = length (tcols tdef)"
  shows "map (field tdef vs) (tcols tdef) = vs"
  using assms field_nth [OF assms] by (intro nth_equalityI) simp_all

lemma assign_row:
  assumes S: "schema_ok tdef"
  shows "length vs = length (tcols tdef) \<Longrightarrow> set names \<subseteq> set (tcols tdef) \<Longrightarrow> length names = length vals \<Longrightarrow>
    assign (row_rec tdef vs) names vals = Inr (row_rec tdef (assigned tdef names vals vs))"
proof (induction names arbitrary: vs vals)
  case Nil
  then show ?case
    using map_fields [OF S] by (simp add: assigned_def)
next
  case (Cons n names)
  obtain v vals' where v: "vals = v # vals'"
    using Cons.prems(3) by (cases vals) auto
  let ?vs = "set_first (tcols tdef) vs n v"
  have "assigned tdef names vals' ?vs = assigned tdef (n # names) vals vs"
    unfolding assigned_def v
    by (intro map_cong refl) (simp add: field_set_first [OF S Cons.prems(1)] map_add_def split: option.split)
  moreover have "assign (row_rec tdef ?vs) names vals' = Inr (row_rec tdef (assigned tdef names vals' ?vs))"
    using Cons by (simp add: v)
  ultimately show ?case
    using Cons.prems(2) by (simp add: v row_rec_def)
qed

lemma check_assigned_ok:
  assumes "schema_ok tdef"
  shows "check_assigned tdef names = qret () \<longleftrightarrow> set names \<subseteq> set (tcols tdef) - set (pk_cols tdef)"
proof -
  have "\<not> col_index tdef c < 0 \<and> \<not> col_index tdef c < pkeys tdef \<longleftrightarrow> c \<in> set (tcols tdef) - set (pk_cols tdef)" for c
  proof (cases "c \<in> set (tcols tdef)")
    case True
    then obtain i where i: "i < length (tcols tdef)" "c = tcols tdef ! i"
      by (auto simp: in_set_conv_nth)
    have "c \<in> set (pk_cols tdef) \<longleftrightarrow> i < nat (pkeys tdef)"
      using i schema_okD(3,9) [OF assms] by (auto simp: pk_cols_def in_set_conv_nth nth_eq_iff_index_eq)
    then show ?thesis
      using col_index_nth [OF assms i(1)] i True by auto
  next
    case False
    then show ?thesis
      using col_index_from_iff [of "tcols tdef" c 0] by (auto simp: col_index_def not_less)
  qed
  then show ?thesis
    by (induction names) (auto simp: Let_def qerr_def qret_def)
qed

lemma eval_all_length: "eval_all es row = qret vs \<Longrightarrow> length vs = length es"
proof (induction es arbitrary: vs)
  case (Cons e es)
  then show ?case
    by (auto simp: qbind_qret)
qed (simp add: qret_def)

section \<open>The new row\<close>

text \<open>
  \<open>updates tdef req vs row\<close>: the assignments evaluate on \<open>vs\<close>, to values of their columns' types, and make
  \<open>row\<close> of it, which fits the store.
\<close>

definition updates :: "TableDef \<Rightarrow> QLUpdate \<Rightarrow> Value list \<Rightarrow> Value list \<Rightarrow> bool" where
  "updates tdef req vs row \<longleftrightarrow> (\<exists>vals. eval_all (qu_values req) (row_rec tdef vs) = qret vals
     \<and> map vtype vals = map (col_type tdef) (qu_names req) \<and> row = map canonical (assigned tdef (qu_names req) vals vs))
     \<and> fits_row tdef row"

lemma assigned_checks:
  assumes S: "schema_ok tdef" and vs: "typed_vals tdef vs" and names: "set names \<subseteq> set (tcols tdef) - set (pk_cols tdef)"
    and vals: "map vtype vals = map (col_type tdef) names"
  shows "check_record tdef (row_rec tdef (assigned tdef names vals vs)) (int (length (tcols tdef))) = qret (assigned tdef names vals vs)"
    and "pk_vals tdef (map canonical (assigned tdef names vals vs)) = pk_vals tdef vs"
proof -
  let ?ws = "assigned tdef names vals vs"
  note D = schema_okD [OF S] and len = typed_length [OF S vs]
  have l: "length ?ws = length (tcols tdef)"
    by (simp add: assigned_def)
  have nth: "?ws ! i = (case map_of (rev (zip names vals)) (tcols tdef ! i) of Some v \<Rightarrow> v | None \<Rightarrow> vs ! i)"
    if "i < length (tcols tdef)" for i
    using that field_nth [OF S len] len by (simp add: assigned_def split: option.split)
  have pair: "c \<in> set names \<and> vtype v = col_type tdef c" if "map_of (rev (zip names vals)) c = Some v" for c v
  proof -
    have "(c, v) \<in> set (zip names vals)"
      using map_of_SomeD [OF that] by simp
    then obtain i where i: "i < length names" "i < length vals" "c = names ! i" "v = vals ! i"
      by (auto simp: in_set_zip)
    then show ?thesis
      using nth_map [of i vals vtype] vals by simp
  qed
  have types: "vtype (?ws ! i) = types tdef ! i" if i: "i < length (tcols tdef)" for i
  proof -
    have "vtype (vs ! i) = types tdef ! i"
      using vs i len nth_map [of i vs vtype] by (simp add: typed_vals_def)
    then show ?thesis
      using pair [of "tcols tdef ! i"] col_index_nth [OF S i] unfolding nth [OF i]
      by (auto simp: col_type_def split: option.split)
  qed
  obtain r where r: "check_record tdef (row_rec tdef ?ws) (int (length (tcols tdef))) = Inr r"
      "\<And>us. r = Inr us \<longleftrightarrow> length us = length (tcols tdef) \<and> (\<forall>i<length (tcols tdef).
        Record_get (row_rec tdef ?ws) (tcols tdef ! i) = Some (us ! i) \<and> vtype (us ! i) = types tdef ! i)
        \<and> set (rec_cols (row_rec tdef ?ws)) \<subseteq> set (take (length (tcols tdef)) (tcols tdef))"
    using check_record_ok [OF D(7), of "int (length (tcols tdef))" "row_rec tdef ?ws"] by auto
  have "r = Inr ?ws"
    unfolding r(2) using row_get_nth [OF S l] l types by (simp add: row_rec_def)
  then show "check_record tdef (row_rec tdef ?ws) (int (length (tcols tdef))) = qret ?ws"
    using r(1) by (simp add: qret_def)
  show "pk_vals tdef (map canonical ?ws) = pk_vals tdef vs"
  proof (rule nth_equalityI)
    show "length (pk_vals tdef (map canonical ?ws)) = length (pk_vals tdef vs)"
      by (simp add: pk_vals_def l len)
    fix i
    assume "i < length (pk_vals tdef (map canonical ?ws))"
    then have i: "i < nat (pkeys tdef)" "i < length (tcols tdef)"
      using l by (simp_all add: pk_vals_def)
    then have "tcols tdef ! i \<in> set (pk_cols tdef)"
      by (auto simp: pk_cols_def in_set_conv_nth)
    then have "map_of (rev (zip names vals)) (tcols tdef ! i) = None"
      using pair [of "tcols tdef ! i"] names by (cases "map_of (rev (zip names vals)) (tcols tdef ! i)") auto
    moreover have "canonical (vs ! i) = vs ! i"
      using vs i(2) len nth_map [of i vs canonical] by (simp add: typed_vals_def)
    ultimately show "pk_vals tdef (map canonical ?ws) ! i = pk_vals tdef vs ! i"
      using i nth [OF i(2)] l by (simp add: pk_vals_def)
  qed
qed

section \<open>The rows\<close>

text \<open>Writing the rows in turn never removes an index entry that a longer key follows.\<close>

fun short_updates :: "TableDef \<Rightarrow> (Value list \<times> Value list) list \<Rightarrow> (bytes \<rightharpoonup> bytes) \<Rightarrow> bool" where
  "short_updates tdef [] m = True"
| "short_updates tdef ((vs, row) # us) m \<longleftrightarrow> short_run (entries tdef vs) (m(pk_key tdef row \<mapsto> row_val tdef row))
     \<and> short_updates tdef us (add_keys (entries tdef row) (drop_keys (entries tdef vs) (m(pk_key tdef row \<mapsto> row_val tdef row))))"

text \<open>A row of the table and a row with the same key.\<close>

lemma same_key_row:
  assumes "table_at tdef m R" and "vs \<in> R" and "pk_vals tdef row = pk_vals tdef vs"
  shows "same_pk tdef row R = {vs}" and "store_result tdef row UPDATE_ONLY R = Inr ()"
    and "stored_rows tdef row UPDATE_ONLY R = insert row (R - {vs})"
proof -
  show same: "same_pk tdef row R = {vs}"
    using table_atD(2) [OF assms(1)] assms(2,3) by (auto simp: same_pk_def inj_on_def)
  then show "store_result tdef row UPDATE_ONLY R = Inr ()"
    by (simp add: store_result_def mode_met_def)
  have "{x \<in> R. pk_vals tdef x \<noteq> pk_vals tdef row} = R - {vs}"
    using same by (auto simp: same_pk_def)
  then show "stored_rows tdef row UPDATE_ONLY R = insert row (R - {vs})"
    using same by (simp add: stored_rows_def mode_met_def replace_row_def)
qed

context tx_store
begin

lemma update_row_step:
  assumes s: "session_at ok (update_writes tdef + n) base s m D" and D: "D name = Some (tdef, R)" and vs: "vs \<in> R"
    and names: "set (qu_names req) \<subseteq> set (tcols tdef) - set (pk_cols tdef)" "length (qu_names req) = length (qu_values req)"
    and up: "updates tdef req vs row" and short: "short_run (entries tdef vs) (m(pk_key tdef row \<mapsto> row_val tdef row))"
  obtains vals rec s' where "eval_all (qu_values req) (row_rec tdef vs) = qret vals"
    and "assign (row_rec tdef vs) (qu_names req) vals = Inr rec" and "DBTX_update file name rec s = sret () s'"
    and "session_at ok n base s' (add_keys (entries tdef row) (drop_keys (entries tdef vs) (m(pk_key tdef row \<mapsto> row_val tdef row))))
      (D(name \<mapsto> (tdef, insert row (R - {vs}))))"
    and "pk_vals tdef row = pk_vals tdef vs"
proof -
  note t = session_table [OF s D] and typed = table_atD(1) [OF session_table(2) [OF s D] vs]
  obtain vals where vals: "eval_all (qu_values req) (row_rec tdef vs) = qret vals"
      "map vtype vals = map (col_type tdef) (qu_names req)" "row = map canonical (assigned tdef (qu_names req) vals vs)"
      "fits_row tdef row"
    using up by (auto simp: updates_def)
  note C = assigned_checks [OF t(1) typed names(1) vals(2), folded vals(3)]
  have "length (qu_names req) = length vals"
    using eval_all_length [OF vals(1)] names(2) by simp
  then have rec: "assign (row_rec tdef vs) (qu_names req) vals = Inr (row_rec tdef (assigned tdef (qu_names req) vals vs))"
    using assign_row [OF t(1) typed_length [OF t(1) typed]] names(1) by blast
  note K = same_key_row [OF t(2) vs C(2)]
  have "short_update tdef row m R"
    using short by (simp add: short_update_def K(1))
  then obtain s' m' where "write_row file UPDATE_ONLY name (row_rec tdef (assigned tdef (qu_names req) vals vs)) s = Inr (Inr (), s')"
      "session_at ok n base s' m' (D(name \<mapsto> (tdef, insert row (R - {vs}))))" "m' = add_keys (entries tdef row) (rewritten tdef row R m)"
    using write_row_step [OF s D C(1), of UPDATE_ONLY] vals(4) unfolding vals(3) [symmetric] K(2,3) by blast
  then show thesis
    using that [OF vals(1) rec] C(2) rewritten_old [OF K(1), of m] by (simp add: write_row_def sret_def)
qed

lemma update_rows_step:
  "session_at ok (length us * update_writes tdef + n) base s m D \<Longrightarrow> D (sc_table (qu_scan req)) = Some (tdef, R) \<Longrightarrow>
    set (qu_names req) \<subseteq> set (tcols tdef) - set (pk_cols tdef) \<Longrightarrow> length (qu_names req) = length (qu_values req) \<Longrightarrow>
    distinct (map fst us) \<Longrightarrow> fst ` set us \<subseteq> R \<Longrightarrow> (\<forall>u\<in>set us. updates tdef req (fst u) (snd u)) \<Longrightarrow> short_updates tdef us m \<Longrightarrow>
    \<exists>s' m'. update_rows file req (map (row_rec tdef \<circ> fst) us) count s = sret (count + word_of_nat (length us)) s'
      \<and> session_at ok n base s' m' (D(sc_table (qu_scan req) \<mapsto> (tdef, R - fst ` set us \<union> snd ` set us)))"
proof (induction us arbitrary: s m D R count)
  case Nil
  then show ?case
    by (intro exI [of _ s] exI [of _ m]) (simp add: fun_upd_idem)
next
  case (Cons u us)
  obtain vs row where u: "u = (vs, row)"
    by (cases u)
  let ?name = "sc_table (qu_scan req)" and ?R = "insert row (R - {vs})"
  let ?m = "add_keys (entries tdef row) (drop_keys (entries tdef vs) (m(pk_key tdef row \<mapsto> row_val tdef row)))"
  have mem: "vs \<in> R" "vs \<notin> fst ` set us" "fst ` set us \<subseteq> R - {vs}" "updates tdef req vs row"
    using Cons.prems(5-7) by (auto simp: u)
  have room: "session_at ok (update_writes tdef + (length us * update_writes tdef + n)) base s m D"
    using Cons.prems(1) by (simp add: add.assoc)
  have short: "short_run (entries tdef vs) (m(pk_key tdef row \<mapsto> row_val tdef row))" "short_updates tdef us ?m"
    using Cons.prems(8) by (simp_all add: u)
  obtain vals rec s1 where s1: "eval_all (qu_values req) (row_rec tdef vs) = qret vals"
      "assign (row_rec tdef vs) (qu_names req) vals = Inr rec" "DBTX_update file ?name rec s = sret () s1"
      "session_at ok (length us * update_writes tdef + n) base s1 ?m (D(?name \<mapsto> (tdef, ?R)))" "pk_vals tdef row = pk_vals tdef vs"
    by (rule update_row_step [OF room Cons.prems(2) mem(1) Cons.prems(3,4) mem(4) short(1)])
  have "inj_on (pk_vals tdef) R"
    using session_table(2) [OF Cons.prems(1,2)] by (rule table_atD(2))
  then have fresh: "row \<notin> fst ` set us"
    using s1(5) mem(1,3) by (auto simp: inj_on_def)
  have "distinct (map fst us)" "fst ` set us \<subseteq> ?R" "\<forall>u\<in>set us. updates tdef req (fst u) (snd u)"
    using Cons.prems(5,7) mem(3) by auto
  from Cons.IH [OF s1(4) fun_upd_same Cons.prems(3,4) this short(2), of "count + 1"] obtain s2 m2
    where s2: "update_rows file req (map (row_rec tdef \<circ> fst) us) (count + 1) s1 = sret (count + 1 + word_of_nat (length us)) s2"
      "session_at ok n base s2 m2 (D(?name \<mapsto> (tdef, ?R), ?name \<mapsto> (tdef, ?R - fst ` set us \<union> snd ` set us)))"
    by blast
  have "?R - fst ` set us \<union> snd ` set us = R - fst ` set (u # us) \<union> snd ` set (u # us)"
    using fresh by (auto simp: u)
  then have "session_at ok n base s2 m2 (D(?name \<mapsto> (tdef, R - fst ` set (u # us) \<union> snd ` set (u # us))))"
    using s2(2) by simp
  moreover have "update_rows file req (map (row_rec tdef \<circ> fst) (u # us)) count s = sret (count + word_of_nat (length (u # us))) s2"
    using s1(1-3) s2(1) by (simp add: u sbind_def sret_def slift_def qret_def add.assoc)
  ultimately show ?case
    by blast
qed

text \<open>UPDATE: the rows the filter keeps, after the offset and up to the limit, are replaced, and the count is theirs.\<close>

lemma ql_update_step:
  assumes s: "session_at ok (length (picked (qu_scan req) L) * update_writes tdef + n) base s m D"
    and D: "D (sc_table (qu_scan req)) = Some (tdef, R)"
    and names: "set (qu_names req) \<subseteq> set (tcols tdef) - set (pk_cols tdef)" "length (qu_names req) = length (qu_values req)"
    and query: "answerable tdef R (qu_scan req)" and L: "scan_order tdef (qu_scan req) L" "set L = answer tdef R (qu_scan req)"
    and up: "\<And>vs. vs \<in> set (picked (qu_scan req) L) \<Longrightarrow> updates tdef req vs (new vs)"
    and short: "short_updates tdef (map (\<lambda>vs. (vs, new vs)) (picked (qu_scan req) L)) m" and fuel: "card R < fuel"
  shows "\<exists>s' m'. ql_update file fuel req s = sret (word_of_nat (length (picked (qu_scan req) L))) s'
    \<and> session_at ok n base s' m' (D(sc_table (qu_scan req) \<mapsto>
        (tdef, R - set (picked (qu_scan req) L) \<union> new ` set (picked (qu_scan req) L))))"
proof -
  let ?name = "sc_table (qu_scan req)" and ?L = "picked (qu_scan req) L"
  let ?us = "map (\<lambda>vs. (vs, new vs)) ?L"
  note t = session_table [OF s D]
  obtain s1 where s1: "DBTX_table_def file ?name s = sret tdef s1" "session_at ok (length ?L * update_writes tdef + n) base s1 m D"
    using target.table_found [OF s t(3)] by (auto simp: on_tx_def)
  obtain s2 L' where L': "session_at ok (length ?L * update_writes tdef + n) base s2 m D" "scan_order tdef (qu_scan req) L'"
      "set L' = answer tdef R (qu_scan req)"
      "\<And>fuel. card R < fuel \<Longrightarrow> scan_rows fuel (on_tx file) (qu_scan req) s1 = sret (map (row_rec tdef) (picked (qu_scan req) L')) s2"
    by (rule target.scan_answer [OF s1(2) t(4,3,1,2) query]) blast+
  have eq: "L' = L"
    by (rule scan_order_unique [OF L'(2) L(1)]) (simp add: L'(3) L(2))
  have mem: "distinct ?L" "set ?L \<subseteq> R"
  proof -
    show "distinct ?L"
      by (intro distinct_limited scan_order_distinct [OF L(1)])
    have "set L \<subseteq> R"
      using L(2) by (simp add: answer_def)
    then show "set ?L \<subseteq> R"
      by (rule subset_trans [OF set_limited])
  qed
  have at: "session_at ok (length ?us * update_writes tdef + n) base s2 m D"
    using L'(1) by simp
  have us: "distinct (map fst ?us)" "fst ` set ?us \<subseteq> R" "\<forall>u\<in>set ?us. updates tdef req (fst u) (snd u)"
      "map (row_rec tdef \<circ> fst) ?us = map (row_rec tdef) ?L" "fst ` set ?us = set ?L" "snd ` set ?us = new ` set ?L"
    using mem up by (auto simp: comp_def image_image)
  obtain s3 m3 where s3: "update_rows file req (map (row_rec tdef) ?L) 0 s2 = sret (0 + word_of_nat (length ?us)) s3"
      "session_at ok n base s3 m3 (D(?name \<mapsto> (tdef, R - set ?L \<union> new ` set ?L)))"
    using update_rows_step [OF at D names us(1-3) short, of 0] unfolding us(4-6) by blast
  have "check_assigned tdef (qu_names req) = qret ()"
    using names(1) by (simp add: check_assigned_ok [OF t(1)])
  then have "ql_update file fuel req s = sret (word_of_nat (length ?L)) s3"
    using s1(1) s3(1) L'(4) [OF fuel] by (simp add: eq ql_update_def sbind_def sret_def slift_def qret_def)
  then show ?thesis
    using s3(2) by blast
qed

end

end
