(* ===== verification/DB_Theorems.thy ===== *)
theory DB_Theorems
  imports Books_Example Update_Spec
begin

text \<open>
  The properties of tables, statements and transactions. \<open>run_at kv n base s m D\<close> says that the session
  \<open>s\<close>, a write transaction over the store \<open>kv\<close> and the cache of definitions, holds the map \<open>m\<close>, which is the
  database \<open>D\<close>: a map from table names to definitions and sets of rows. It has room for \<open>n\<close> more writes
  before page numbers run out (\<open>room\<close>, a condition on the height of the tree and the pages left), and it began
  on the committed map \<open>base\<close>.
\<close>

section \<open>Rows\<close>

text \<open>Book 7 under a new title, for the witnesses.\<close>

lemma retitled:
  shows "fits_row stored_books (book_vals 7 [120] [72])"
    and "table_at stored_books m {book7, book8} \<Longrightarrow>
      short_run (entries stored_books book7) (m(pk_key stored_books (book_vals 7 [120] [72]) \<mapsto> v))"
proof -
  have "row_val stored_books (book_vals 7 [120] [72]) = [120, 0, 72, 0]"
    by (simp add: row_val_def book_vals_def value_bytes_def make_bytes_def encode_bytes_def escape_string_def)
  then show "fits_row stored_books (book_vals 7 [120] [72])"
    using example_fits(1) by (simp add: fits_row_def BTREE_MAX_VAL_SIZE_def book7_def book_keys)
  assume "table_at stored_books m {book7, book8}"
  moreover have "(m(pk_key stored_books (book_vals 7 [120] [72]) \<mapsto> v)) k = m k" if "under 4 k" for k
    using that by auto
  ultimately show "short_run (entries stored_books book7) (m(pk_key stored_books (book_vals 7 [120] [72]) \<mapsto> v))"
    using book7_first(1) example_rows(3) by simp
qed

text \<open>
  C13: INSERT, UPDATE and UPSERT of a row are exactly that on the database. The row that a valid record
  describes is stored, in place of the one with its primary key, if the mode allows it; else the operation
  reports that the row exists already, or that there is none, and changes nothing. The index entries stay
  those of the rows, the other tables and the catalog are untouched, and the cache stays right. There has to
  be room for the writes, and a row that is replaced needs old index entries with successors not longer.
\<close>

theorem DBTX_write_correct:
  assumes "run_at kv (update_writes tdef + n) base s m D" and "D name = Some (tdef, R)"
    and "check_record tdef rec (int (length (tcols tdef))) = qret vs"
    and "fits_row tdef (map canonical vs)" and "short_update tdef (map canonical vs) m R"
  shows "\<exists>s' m'. write_row (content (st_file kv)) mode name rec s = Inr (store_result tdef (map canonical vs) mode R, s')
    \<and> run_at kv n base s' m' (D(name \<mapsto> (tdef, stored_rows tdef (map canonical vs) mode R)))"
  using run.write_row_step [OF assms] by blast

text \<open>Book 7 gets a new title.\<close>

lemma DBTX_write_correct_witness:
  "\<exists>s m s' m'. run_at new_kv 12 Map.empty s m [str ''books'' \<mapsto> (stored_books, {book7, book8})]
    \<and> DBTX_upsert [] (str ''books'') (book_rec 7 [120] [72]) s = sret () s'
    \<and> run_at new_kv 9 Map.empty s' m' [str ''books'' \<mapsto> (stored_books, {book_vals 7 [120] [72], book8})]"
proof -
  obtain s m where s: "run_at new_kv 12 Map.empty s m [str ''books'' \<mapsto> (stored_books, {book7, book8})]"
    using two_books by blast
  let ?row = "book_vals 7 [120] [72]"
  have keys: "pk_key stored_books ?row = pk_key stored_books book7" "entries stored_books ?row = entries stored_books book7"
      "pk_vals stored_books ?row = pk_vals stored_books book7"
    by (simp_all add: book7_def book_keys)
  have differ: "pk_vals stored_books book8 \<noteq> pk_vals stored_books book7"
    by (simp add: example_rows books_differ)
  have same: "same_pk stored_books ?row {book7, book8} = {book7}"
    using keys(3) differ by (auto simp: same_pk_def)
  have out: "store_result stored_books ?row UPSERT {book7, book8} = Inr ()"
      "stored_rows stored_books ?row UPSERT {book7, book8} = {?row, book8}"
    using same keys(3) differ by (auto simp: store_result_def stored_rows_def mode_met_def replace_row_def)
  have "table_at stored_books m {book7, book8}"
    using run.session_table(2) [OF s] by simp
  then have short: "short_update stored_books ?row m {book7, book8}"
    unfolding short_update_def same using retitled(2) by simp
  have at: "run_at new_kv (update_writes stored_books + 9) Map.empty s m [str ''books'' \<mapsto> (stored_books, {book7, book8})]"
    using s by (simp add: update_writes_def)
  have rec: "check_record stored_books (book_rec 7 [120] [72]) (int (length (tcols stored_books))) = qret ?row"
    using book_check by simp
  obtain s' m' where "DBTX_upsert [] (str ''books'') (book_rec 7 [120] [72]) s = sret () s'"
      "run_at new_kv 9 Map.empty s' m' [str ''books'' \<mapsto> (stored_books, {?row, book8})]"
    using DBTX_write_correct [OF at _ rec, of "str ''books''" "{book7, book8}" UPSERT, unfolded book_canonical, OF _ retitled(1) short]
    by (auto simp: out write_row_def sret_def)
  then show ?thesis
    using s by blast
qed

text \<open>
  C14: deleting by primary key removes the row with that key and nothing else, and answers whether there
  was one. Its index entries go with it. There has to be room for the deletions, and each key that goes needs
  a successor that is not longer.
\<close>

theorem DBTX_del_correct:
  assumes "run_at kv (Suc (length (indexes tdef)) + n) base s m D" and "D name = Some (tdef, R)"
    and "check_record tdef rec (pkeys tdef) = qret pks" and "valid_key (key_of (prefix tdef) pks)" and "short_delete tdef pks m R"
  shows "\<exists>s' m'. DBTX_del (content (st_file kv)) name rec s = sret (named_row tdef pks R \<noteq> {}) s'
    \<and> run_at kv n base s' m' (D(name \<mapsto> (tdef, R - named_row tdef pks R)))"
  using run.delete_row_step [OF assms] by blast

lemma DBTX_del_correct_witness:
  "\<exists>s m s' m'. run_at new_kv 12 Map.empty s m [str ''books'' \<mapsto> (stored_books, {book7, book8})]
    \<and> DBTX_del [] (str ''books'') \<lparr>rec_cols = [str ''id''], rec_vals = [make_int64 7]\<rparr> s = sret True s'
    \<and> run_at new_kv 10 Map.empty s' m' [str ''books'' \<mapsto> (stored_books, {book8})]"
proof -
  obtain s m where s: "run_at new_kv 12 Map.empty s m [str ''books'' \<mapsto> (stored_books, {book7, book8})]"
    using two_books by blast
  have T: "table_at stored_books m {book7, book8}"
    using run.session_table(2) [OF s] by simp
  have named: "named_row stored_books [make_int64 7] {book7, book8} = {book7}"
    using books_differ(1) by (auto simp: named_row_def example_rows book_canonical)
  have key: "valid_key (key_of (prefix stored_books) [make_int64 7])"
    by (simp add: example_keys valid_key_def BTREE_MAX_KEY_SIZE_def)
  have short: "short_delete stored_books [make_int64 7] m {book7, book8}"
    unfolding short_delete_def named using book7_run [OF T] by simp
  have at: "run_at new_kv (Suc (length (indexes stored_books)) + 10) Map.empty s m [str ''books'' \<mapsto> (stored_books, {book7, book8})]"
    using s by simp
  have rec: "check_record stored_books \<lparr>rec_cols = [str ''id''], rec_vals = [make_int64 7]\<rparr> (pkeys stored_books) = qret [make_int64 7]"
    using book_key_check by simp
  obtain s' m' where "DBTX_del [] (str ''books'') \<lparr>rec_cols = [str ''id''], rec_vals = [make_int64 7]\<rparr> s = sret True s'"
      "run_at new_kv 10 Map.empty s' m' [str ''books'' \<mapsto> (stored_books, {book8})]"
    using DBTX_del_correct [OF at _ rec key short, of "str ''books''"] books_differ(2) by (auto simp: named)
  then show ?thesis
    using s by blast
qed

text \<open>
  C19: a point read returns the row with the key that a record names, whole, or nothing when there is
  none; it changes nothing but the cache.
\<close>

theorem DBTX_get_correct:
  assumes "run_at kv n base s m D" and "D name = Some (tdef, R)" and "check_record tdef rec (pkeys tdef) = qret pks"
  shows "\<exists>s'. DBTX_get (content (st_file kv)) name rec s = sret (found_row tdef pks R) s' \<and> run_at kv n base s' m D"
  using assms by (rule run.get_session)

lemma DBTX_get_correct_witness:
  "\<exists>s m s'. run_at new_kv 12 Map.empty s m [str ''books'' \<mapsto> (stored_books, {book7, book8})]
    \<and> DBTX_get [] (str ''books'') \<lparr>rec_cols = [str ''id''], rec_vals = [make_int64 7]\<rparr> s = sret (Some (row_rec stored_books book7)) s'"
proof -
  obtain s m where s: "run_at new_kv 12 Map.empty s m [str ''books'' \<mapsto> (stored_books, {book7, book8})]"
    using two_books by blast
  have "found_row stored_books [make_int64 7] {book7, book8} = Some (row_rec stored_books book7)"
  proof -
    have "named_row stored_books [make_int64 7] {book7, book8} = {book7}"
      using books_differ(1) by (auto simp: named_row_def example_rows book_canonical)
    then show ?thesis
      by (simp add: found_row_def)
  qed
  moreover have "check_record stored_books \<lparr>rec_cols = [str ''id''], rec_vals = [make_int64 7]\<rparr> (pkeys stored_books) = qret [make_int64 7]"
    using book_key_check by simp
  ultimately show ?thesis
    using DBTX_get_correct [OF s, of "str ''books''" stored_books "{book7, book8}"] s by fastforce
qed

section \<open>Tables\<close>

text \<open>
  C17: creating a table. A definition that validation rejects, that sets prefixes itself, or whose name
  is taken is refused with that error and nothing changes. Otherwise the catalog has the table, empty,
  with prefixes that no other table uses and under which the store held nothing; the next prefix is free
  again, all other tables keep their rows, and the cached definitions stay right. There has to be room for
  two writes, and the definition has to be storable.
\<close>

theorem DBTX_table_new_correct:
  assumes "run_at kv (Suc (Suc n)) base s m D"
    and "\<And>t. creation D (next_prefix m) tdef = Inr t \<Longrightarrow> storable (next_prefix m) t"
    and "valid_key (table_key (tname tdef))"
  shows "\<exists>s' m'. DBTX_table_new (content (st_file kv)) tdef s = Inr (rbind (creation D (next_prefix m) tdef) (\<lambda>_. Inr ()), s')
    \<and> run_at kv n base s' m' (with_table D (creation D (next_prefix m) tdef))"
  using assms by (rule run.table_new_session)

lemma books_key: "valid_key (table_key (tname books))"
  by (simp add: books_def builder_defs valid_key_def internal_key_def BTREE_MAX_KEY_SIZE_def str_def)

lemma DBTX_table_new_correct_witness:
  "\<exists>s m. DBTX_table_new [] books new_session = sret () s \<and> run_at new_kv 18 Map.empty s m [str ''books'' \<mapsto> (stored_books, {})]
    \<and> (\<exists>s' m'. DBTX_table_new [] books s = serr (str ''table already exists: '' @ str ''books'') s'
          \<and> run_at new_kv 16 Map.empty s' m' [str ''books'' \<mapsto> (stored_books, {})])"
proof -
  let ?D = "[str ''books'' \<mapsto> (stored_books, {} :: Value list set)]"
  have "storable (next_prefix Map.empty) t" if "creation Map.empty (next_prefix Map.empty) books = Inr t" for t
    using that books_storable by (simp add: books_created) (simp add: next_prefix_def TABLE_PREFIX_MIN_def)
  then obtain s m where s: "DBTX_table_new [] books new_session = sret () s" "run_at new_kv 18 Map.empty s m ?D"
    using DBTX_table_new_correct [of new_kv 18 Map.empty new_session Map.empty Map.empty books] new_session_at books_key
    by (auto simp: books_created with_table_def sret_def)
  have again: "creation ?D p books = Inl (str ''table already exists: '' @ str ''books'')" for p
    by (simp add: creation_def books_checked) (simp add: books_def builder_defs)
  have s': "run_at new_kv (Suc (Suc 16)) Map.empty s m ?D"
    using s(2) by simp
  have "\<exists>s' m'. DBTX_table_new [] books s = serr (str ''table already exists: '' @ str ''books'') s' \<and> run_at new_kv 16 Map.empty s' m' ?D"
    using DBTX_table_new_correct [OF s' _ books_key] by (simp add: again with_table_def serr_def)
  then show ?thesis
    using s by blast
qed

section \<open>Statements\<close>

text \<open>
  C12: a scan with a filter, an offset and a limit is the declarative query. The rows that the filter keeps
  are put in the order of the index that the optimiser reads for the range of the filter, ascending by their
  keys there, or by primary key where it reads the table itself; the scan returns those after the offset and
  up to the limit, in that order. The order is strict, so \<open>L\<close> is the only such list. The number of rows
  bounds the steps.
\<close>

theorem ql_scan_correct:
  assumes "run_at kv n base s m D" and "D (sc_table req) = Some (tdef, R)" and "answerable tdef R req"
  shows "\<exists>s' L. run_at kv n base s' m D \<and> scan_order tdef req L \<and> set L = answer tdef R req
    \<and> (\<forall>fuel>card R. ql_scan (content (st_file kv)) fuel req s
          = sret (map (row_rec tdef) (limited (sc_offset req) (sc_limit req) L)) s')"
proof -
  note t = run.session_table [OF assms(1,2)]
  show ?thesis
    by (rule run.target.scan_answer [OF assms(1) t(4,3,1,2) assms(3)]) (auto simp: ql_scan_def)
qed

text \<open>Both books by their author; the first in the order of the index is skipped.\<close>

lemma ql_scan_correct_witness:
  "\<exists>s m s'. run_at new_kv 12 Map.empty s m [str ''books'' \<mapsto> (stored_books, {book7, book8})]
    \<and> ql_scan [] 3 (scan_books by_x\<lparr>sc_offset := 1\<rparr>) s = sret [row_rec stored_books book8] s'"
proof -
  obtain s m where s: "run_at new_kv 12 Map.empty s m [str ''books'' \<mapsto> (stored_books, {book7, book8})]"
    using two_books by blast
  let ?req = "scan_books by_x\<lparr>sc_offset := 1\<rparr>"
  have card: "card {book7, book8} < 3"
    using books_differ(2) by simp
  have D: "[str ''books'' \<mapsto> (stored_books, {book7, book8})] (sc_table ?req) = Some (stored_books, {book7, book8})"
      "answerable stored_books {book7, book8} ?req"
    using books_answerable(2) by simp_all
  obtain s' L where L: "scan_order stored_books ?req L" "set L = {book7, book8}"
      "ql_scan [] 3 ?req s = sret (map (row_rec stored_books) (limited 1 (-1) L)) s'"
    using ql_scan_correct [OF s D] card by (auto simp: books_answers)
  have "L = [book7, book8]"
    using L(1,2) books_order(2) by (intro scan_order_unique [of stored_books "scan_books by_x"]) simp_all
  then have "ql_scan [] 3 ?req s = sret [row_rec stored_books book8] s'"
    using L(3) by (simp add: limited_def)
  then show ?thesis
    using s by blast
qed

text \<open>
  C15: DELETE removes exactly the rows that a scan would return, the rows its filter keeps, after the offset
  and up to the limit in the order of the scan (all of them, where there is neither), with their index entries,
  and counts them; the other rows and tables stay. There has to be room for one deletion per row removed and
  index, and each deleted key needs a successor that is not longer (see \<open>short_run\<close>).
\<close>

theorem ql_delete_correct:
  assumes "run_at kv (length (picked (qd_scan req) L) * Suc (length (indexes tdef)) + n) base s m D"
    and "D (sc_table (qd_scan req)) = Some (tdef, R)" and "answerable tdef R (qd_scan req)"
    and "scan_order tdef (qd_scan req) L" and "set L = answer tdef R (qd_scan req)"
    and "short_run (delete_keys tdef (picked (qd_scan req) L)) m" and "card R < fuel"
  shows "\<exists>s' m'. ql_delete (content (st_file kv)) fuel req s = sret (word_of_nat (length (picked (qd_scan req) L))) s'
    \<and> run_at kv n base s' m' (D(sc_table (qd_scan req) \<mapsto> (tdef, R - set (picked (qd_scan req) L))))"
  using assms by (rule run.ql_delete_step)

lemma ql_delete_correct_witness:
  "\<exists>s m s' m'. run_at new_kv 12 Map.empty s m [str ''books'' \<mapsto> (stored_books, {book7, book8})]
    \<and> ql_delete [] 3 \<lparr>qd_scan = scan_books id_is_7\<rparr> s = sret 1 s' \<and> run_at new_kv 10 Map.empty s' m' [str ''books'' \<mapsto> (stored_books, {book8})]"
proof -
  obtain s m where s: "run_at new_kv 12 Map.empty s m [str ''books'' \<mapsto> (stored_books, {book7, book8})]"
    using two_books by blast
  have T: "table_at stored_books m {book7, book8}"
    using run.session_table(2) [OF s] by simp
  let ?req = "\<lparr>qd_scan = scan_books id_is_7\<rparr>"
  have L: "picked (qd_scan ?req) [book7] = [book7]"
    by (simp add: limited_def)
  have at: "run_at new_kv (length (picked (qd_scan ?req) [book7]) * Suc (length (indexes stored_books)) + 10) Map.empty s m
      [str ''books'' \<mapsto> (stored_books, {book7, book8})]"
    using s unfolding L by simp
  have short: "short_run (delete_keys stored_books (picked (qd_scan ?req) [book7])) m"
    using book7_run [OF T] unfolding L by (simp add: delete_keys_def)
  have D: "[str ''books'' \<mapsto> (stored_books, {book7, book8})] (sc_table (qd_scan ?req)) = Some (stored_books, {book7, book8})"
      "answerable stored_books {book7, book8} (qd_scan ?req)" "scan_order stored_books (qd_scan ?req) [book7]"
      "set [book7] = answer stored_books {book7, book8} (qd_scan ?req)" "card {book7, book8} < 3"
    using books_answerable(1) books_order(1) books_answers(1) books_differ(2) by simp_all
  have rows: "{book7, book8} - {book7} = {book8}"
    using books_differ(2) by auto
  obtain s' m' where "ql_delete [] 3 ?req s = sret 1 s'" "run_at new_kv 10 Map.empty s' m' [str ''books'' \<mapsto> (stored_books, {book8})]"
    using ql_delete_correct [OF at D(1-4) short D(5)] unfolding L by (auto simp: rows fun_upd_def cong: if_cong)
  then show ?thesis
    using s by blast
qed

text \<open>
  C20: INSERT of several rows stores them all and counts them, when each names its columns, fits the table
  and has a primary key that is new, and there is room for the writes: some million of them, in a database
  of up to sixteen million pages with half of its page numbers left (\<open>room_large\<close>).
\<close>

theorem ql_insert_correct:
  assumes "run_at kv (length rows * update_writes tdef + n) base s m D" and "D (qi_table req) = Some (tdef, R)"
    and "list_all2 (inserts tdef (qi_names req)) (qi_values req) rows" and "qi_mode req \<noteq> UPDATE_ONLY"
    and "distinct (map (pk_vals tdef) rows)" and "pk_vals tdef ` set rows \<inter> pk_vals tdef ` R = {}"
  shows "\<exists>s' m'. ql_insert (content (st_file kv)) req s = sret (word_of_nat (length rows)) s'
    \<and> run_at kv n base s' m' (D(qi_table req \<mapsto> (tdef, R \<union> set rows)))"
  using run.insert_rows_step [OF assms, of 0] by (simp add: ql_insert_def)

definition insert_books :: QLInsert where
  "insert_books = \<lparr>qi_table = str ''books'', qi_mode = INSERT_ONLY, qi_names = [str ''title'', str ''id'', str ''author''],
     qi_values = [[ql_str [104, 105], ql_int64 7, ql_str [120]], [ql_str [], ql_int64 8, ql_str [120]]]\<rparr>"

lemma books_inserted: "list_all2 (inserts stored_books (qi_names insert_books)) (qi_values insert_books) [book7, book8]"
proof -
  have "insert_record [ql_str t, ql_int64 i, ql_str a] (qi_names insert_books) empty_Record = qret (book_rec i a t)" for t i a
    by (simp add: insert_books_def ql_defs ql_eval.simps push_col_def empty_Record_def book_rec_def qret_def)
  then show ?thesis
    using book_check book_canonical(1) example_fits
    by (auto simp: insert_books_def inserts_def book7_def book8_def simp del: list.map)
qed

lemma ql_insert_correct_witness:
  "\<exists>s m s' m'. DBTX_table_new [] books new_session = sret () s \<and> run_at new_kv 18 Map.empty s m [str ''books'' \<mapsto> (stored_books, {})]
    \<and> ql_insert [] insert_books s = sret 2 s' \<and> run_at new_kv 12 Map.empty s' m' [str ''books'' \<mapsto> (stored_books, {book7, book8})]"
proof -
  obtain s m where s: "DBTX_table_new [] books new_session = sret () s" "run_at new_kv 18 Map.empty s m [str ''books'' \<mapsto> (stored_books, {})]"
    using books_session by blast
  have at: "run_at new_kv (length [book7, book8] * update_writes stored_books + 12) Map.empty s m [str ''books'' \<mapsto> (stored_books, {})]"
    using s(2) by (simp add: update_writes_def)
  have D: "[str ''books'' \<mapsto> (stored_books, {})] (qi_table insert_books) = Some (stored_books, {})" "qi_mode insert_books \<noteq> UPDATE_ONLY"
      "distinct (map (pk_vals stored_books) [book7, book8])" "pk_vals stored_books ` set [book7, book8] \<inter> pk_vals stored_books ` {} = {}"
    using books_differ(1) by (simp_all add: insert_books_def example_rows)
  obtain s' m' where "ql_insert [] insert_books s = sret 2 s'" "run_at new_kv 12 Map.empty s' m' [str ''books'' \<mapsto> (stored_books, {book7, book8})]"
    using ql_insert_correct [OF at D(1) books_inserted D(2-4)] by (auto simp: insert_books_def fun_upd_def cong: if_cong)
  then show ?thesis
    using s by blast
qed

text \<open>
  C16: UPDATE replaces each row that a scan would return, the rows its filter keeps, after the offset and up
  to the limit in the order of the scan, by the row its assignments make of it, and counts them. The
  assignments name columns outside the primary key, and are computed from the row as it was; the new rows fit
  the store. There has to be room for the writes of the rows replaced, and the old index entries need
  successors that are not longer.
\<close>

theorem ql_update_correct:
  assumes "run_at kv (length (picked (qu_scan req) L) * update_writes tdef + n) base s m D"
    and "D (sc_table (qu_scan req)) = Some (tdef, R)"
    and "set (qu_names req) \<subseteq> set (tcols tdef) - set (pk_cols tdef)" and "length (qu_names req) = length (qu_values req)"
    and "answerable tdef R (qu_scan req)" and "scan_order tdef (qu_scan req) L" and "set L = answer tdef R (qu_scan req)"
    and "\<And>vs. vs \<in> set (picked (qu_scan req) L) \<Longrightarrow> updates tdef req vs (new vs)"
    and "short_updates tdef (map (\<lambda>vs. (vs, new vs)) (picked (qu_scan req) L)) m" and "card R < fuel"
  shows "\<exists>s' m'. ql_update (content (st_file kv)) fuel req s = sret (word_of_nat (length (picked (qu_scan req) L))) s'
    \<and> run_at kv n base s' m' (D(sc_table (qu_scan req) \<mapsto>
        (tdef, R - set (picked (qu_scan req) L) \<union> new ` set (picked (qu_scan req) L))))"
  using assms by (rule run.ql_update_step)

definition retitle :: QLUpdate where
  "retitle = \<lparr>qu_scan = scan_books id_is_7, qu_names = [str ''title''], qu_values = [ql_str [72]]\<rparr>"

lemma retitle_updates: "updates stored_books retitle book7 (book_vals 7 [120] [72])"
proof -
  have "eval_all (qu_values retitle) row = qret [make_bytes [72]]" for row
    by (simp add: retitle_def ql_defs ql_eval.simps make_bytes_def qret_def)
  moreover have "map canonical (assigned stored_books (qu_names retitle) [make_bytes [72]] book7) = book_vals 7 [120] [72]"
  proof -
    have "assigned stored_books (qu_names retitle) [make_bytes [72]] book7 = book_vals 7 [120] [72]"
      by (simp add: assigned_def retitle_def book7_def book_fields) (simp add: book_vals_def)
    then show ?thesis
      by (simp only: book_canonical(1))
  qed
  moreover have "map vtype [make_bytes [72]] = map (col_type stored_books) (qu_names retitle)"
    by (simp add: retitle_def col_type_def col_index_def)
  ultimately show ?thesis
    using retitled(1) by (auto simp: updates_def)
qed

lemma ql_update_correct_witness:
  "\<exists>s m s' m'. run_at new_kv 12 Map.empty s m [str ''books'' \<mapsto> (stored_books, {book7, book8})]
    \<and> ql_update [] 3 retitle s = sret 1 s'
    \<and> run_at new_kv 9 Map.empty s' m' [str ''books'' \<mapsto> (stored_books, {book_vals 7 [120] [72], book8})]"
proof -
  obtain s m where s: "run_at new_kv 12 Map.empty s m [str ''books'' \<mapsto> (stored_books, {book7, book8})]"
    using two_books by blast
  have T: "table_at stored_books m {book7, book8}"
    using run.session_table(2) [OF s] by simp
  let ?new = "\<lambda>vs. book_vals 7 [120] [72]"
  have scan: "qu_scan retitle = scan_books id_is_7"
    by (simp add: retitle_def)
  have L: "picked (qu_scan retitle) [book7] = [book7]"
    by (simp add: limited_def scan)
  have at: "run_at new_kv (length (picked (qu_scan retitle) [book7]) * update_writes stored_books + 9) Map.empty s m
      [str ''books'' \<mapsto> (stored_books, {book7, book8})]"
    using s unfolding L by (simp add: update_writes_def)
  have short: "short_updates stored_books (map (\<lambda>vs. (vs, ?new vs)) (picked (qu_scan retitle) [book7])) m"
    using retitled(2) [OF T] unfolding L by simp
  have D: "[str ''books'' \<mapsto> (stored_books, {book7, book8})] (sc_table (qu_scan retitle)) = Some (stored_books, {book7, book8})"
      "set (qu_names retitle) \<subseteq> set (tcols stored_books) - set (pk_cols stored_books)" "length (qu_names retitle) = length (qu_values retitle)"
      "answerable stored_books {book7, book8} (qu_scan retitle)" "scan_order stored_books (qu_scan retitle) [book7]"
      "set [book7] = answer stored_books {book7, book8} (qu_scan retitle)"
      "\<And>vs. vs \<in> set (picked (qu_scan retitle) [book7]) \<Longrightarrow> updates stored_books retitle vs (?new vs)" "card {book7, book8} < 3"
    using books_answerable(1) books_order(1) books_answers(1) books_differ(2) retitle_updates unfolding scan L [unfolded scan]
    by (simp_all add: retitle_def pk_cols_def book_names)
  have rows: "{book8} - {book7} = {book8}"
    using books_differ(2) by auto
  have "\<exists>s' m'. ql_update (content (st_file new_kv)) 3 retitle s = sret (word_of_nat (length (picked (qu_scan retitle) [book7]))) s'
    \<and> run_at new_kv 9 Map.empty s' m' ([str ''books'' \<mapsto> (stored_books, {book7, book8})](sc_table (qu_scan retitle) \<mapsto>
        (stored_books, {book7, book8} - set (picked (qu_scan retitle) [book7]) \<union> ?new ` set (picked (qu_scan retitle) [book7]))))"
    by (rule ql_update_correct [OF at D(1-7) short D(8)])
  then have U: "\<exists>s' m'. ql_update (content (st_file new_kv)) 3 retitle s = sret 1 s'
    \<and> run_at new_kv 9 Map.empty s' m' [str ''books'' \<mapsto> (stored_books, {book_vals 7 [120] [72], book8})]"
    unfolding L [unfolded scan] L scan by (simp add: L [unfolded scan] rows fun_upd_def cong: if_cong)
  have empty: "content (st_file new_kv) = []"
    by simp
  show ?thesis
    using s U unfolding empty by blast
qed

section \<open>Transactions\<close>

lemma reader_sees:
  assumes inv: "kv_inv (db_kv db) H" and r: "dr_reader rd \<notin> set (hitems (st_readers (db_kv db)))"
    and run: "DB_begin_read rd db = (rd', db')"
  shows "sees_reader db' rd' (kv_map (db_kv db) H)" and "kv_inv (db_kv db') H"
proof -
  let ?kv = "KV_begin_read (dr_reader rd) (db_kv db)"
  have eq: "rd' = rd\<lparr>dr_tables := Map.empty\<rparr>" "db' = db\<lparr>db_kv := ?kv\<rparr>"
    using run by (auto simp: DB_begin_read_def)
  note B = begin_read_inv [OF inv r]
  have mem: "dr_reader rd \<in> set (hitems (st_readers ?kv))"
    unfolding B(2) by simp
  have "ck_map (H (rd_version (hstore (st_readers ?kv) (dr_reader rd)))) = kv_map (db_kv db) H"
    unfolding B(3) by (simp add: kv_map_def)
  then show "sees_reader db' rd' (kv_map (db_kv db) H)"
    using open_reader_represents [OF B(1) mem] by (simp add: sees_reader_def reader_of_def db_file_def eq)
  show "kv_inv (db_kv db') H"
    using B(1) by (simp add: eq)
qed

lemma drop_uncommitted_kv [simp]: "db_kv (drop_uncommitted tx db) = db_kv db"
  by (simp add: drop_uncommitted_def)

lemma drop_uncommitted_cache:
  "cache (db_catalog (drop_uncommitted tx db)) = (if dt_created tx then Map.empty else cache (db_catalog db))"
  by (simp add: drop_uncommitted_def clear_cache_def)

text \<open>
  C18: the cache of definitions, which all write transactions share, stays that of the committed store.
  However a transaction ends, committed, failed on any system call, or aborted, each cached definition is
  the one that the store then holds; a table it created and did not keep is not found again.
\<close>

theorem DB_catalog_coherent:
  assumes "kv_inv (db_kv db) H" and "run_at (db_kv db) n (kv_map (db_kv db) H) (tx, db_catalog db) m D"
    and "unat (st_version (db_kv db)) + 1 < 2 ^ 63"
  shows "(\<exists>H'. kv_inv (db_kv (snd (DB_commit tx db))) H'
      \<and> cache_ok (cache (db_catalog (snd (DB_commit tx db)))) (kv_map (db_kv (snd (DB_commit tx db))) H'))
    \<and> cache_ok (cache (db_catalog (snd (DB_abort tx db)))) (kv_map (db_kv db) H)"
proof -
  note S = session_atD [OF assms(2)]
  let ?base = "kv_map (db_kv db) H"
  have same: "cache_ok (cache (db_catalog db)) ?base" if "\<not> dt_created tx"
    by (rule cache_ok_keep [OF S(2)]) (use S(4) [OF that] in simp)
  then have kept: "cache_ok (cache (db_catalog (drop_uncommitted tx db))) m'" if "m' = m \<or> m' = ?base" for m'
    using that S(2) by (cases "dt_created tx") (auto simp: drop_uncommitted_cache)
  obtain r kv' where run: "KV_commit (dt_tx tx) (db_kv db) = (r, kv')"
    by fastforce
  obtain H' where C: "commit_outcome (db_kv db) (dt_tx tx) H m r kv' H'"
    using commit_ok [OF assms(1) _ assms(3) run] S(1) by blast
  have db': "snd (DB_commit tx db) = (drop_uncommitted tx db)\<lparr>db_kv := kv'\<rparr>"
    by (simp add: DB_commit_def run Let_def)
  have "kv_map kv' H' = m \<or> kv_map kv' H' = ?base"
    using C by (cases r) (auto simp: commit_outcome_def kv_map_def)
  then have "\<exists>H'. kv_inv (db_kv (snd (DB_commit tx db))) H'
      \<and> cache_ok (cache (db_catalog (snd (DB_commit tx db)))) (kv_map (db_kv (snd (DB_commit tx db))) H')"
    using C kept unfolding db' by (intro exI [of _ H']) (simp add: commit_outcome_def)
  moreover have "cache_ok (cache (db_catalog (snd (DB_abort tx db)))) ?base"
    using kept by (simp add: DB_abort_def Let_def split: prod.split)
  ultimately show ?thesis
    by blast
qed

text \<open>The books of the example, committed.\<close>

definition new_db :: DB where
  "new_db = DB_new new_kv"

lemma new_db_inv: "db_kv new_db = new_kv" "kv_inv (db_kv new_db) (\<lambda>v. empty_ckpt)" "kv_map (db_kv new_db) (\<lambda>v. empty_ckpt) = Map.empty"
  using fresh_store_inv [of "[]"] by (simp_all add: new_db_def DB_new_def kv_map_def)

lemma DB_catalog_coherent_witness:
  "\<exists>tx cat m. run_at new_kv 12 Map.empty (tx, cat) m [str ''books'' \<mapsto> (stored_books, {book7, book8})]
    \<and> cache_ok (cache (db_catalog (snd (DB_abort tx (new_db\<lparr>db_catalog := cat\<rparr>))))) Map.empty"
proof -
  obtain tx cat m where s: "run_at new_kv 12 Map.empty (tx, cat) m [str ''books'' \<mapsto> (stored_books, {book7, book8})]"
    using two_books by auto
  let ?db = "new_db\<lparr>db_catalog := cat\<rparr>"
  have "run_at (db_kv ?db) 12 (kv_map (db_kv ?db) (\<lambda>v. empty_ckpt)) (tx, db_catalog ?db) m [str ''books'' \<mapsto> (stored_books, {book7, book8})]"
    using s new_db_inv by simp
  then have "cache_ok (cache (db_catalog (snd (DB_abort tx ?db)))) (kv_map (db_kv ?db) (\<lambda>v. empty_ckpt))"
    using DB_catalog_coherent [of ?db "\<lambda>v. empty_ckpt" 12 tx m] new_db_inv by simp
  then show ?thesis
    using s new_db_inv(3) by auto
qed

text \<open>
  C11: what a committed transaction wrote is what later queries answer. A reader that begins after the
  commit finds the tables of the database \<open>D\<close> that the transaction held, and its scans return the rows
  of \<open>D\<close> that the filter keeps, in the order of the index they read: statements, catalog, tables, indexes, tree, pages and file compose.
\<close>

theorem committed_rows_visible:
  assumes "kv_inv (db_kv db) H" and "run_at (db_kv db) n base (tx, cat) m D" and "unat (st_version (db_kv db)) + 1 < 2 ^ 63"
    and "DB_commit tx (db\<lparr>db_catalog := cat\<rparr>) = (Inr (), db1)"
    and "dr_reader rd \<notin> set (hitems (st_readers (db_kv db1)))" and "DB_begin_read rd db1 = (rd2, db2)"
    and "D (sc_table req) = Some (tdef, R)" and "answerable tdef R req"
  shows "\<exists>rd3 L. scan_order tdef req L \<and> set L = answer tdef R req \<and> (\<forall>fuel>card R. ql_scan_reader db2 fuel req rd2
    = sret (map (row_rec tdef) (limited (sc_offset req) (sc_limit req) L)) rd3)"
proof -
  note S = session_atD [OF assms(2)] and t = run.session_table [OF assms(2,7)]
  obtain kv' where run: "KV_commit (dt_tx tx) (db_kv db) = (Inr (), kv')" "db_kv db1 = kv'"
    using assms(4) by (auto simp: DB_commit_def Let_def split: prod.splits)
  obtain H' where C: "commit_outcome (db_kv db) (dt_tx tx) H m (Inr ()) kv' H'"
    using commit_ok [OF assms(1) _ assms(3) run(1)] S(1) by blast
  then have "kv_inv (db_kv db1) H'" "kv_map (db_kv db1) H' = m"
    by (simp_all add: commit_outcome_def run(2))
  then have "sees_reader db2 rd2 m"
    using reader_sees(1) [OF _ assms(5,6)] by metis
  from read_target.scan_answer [OF this t(4,3,1,2) assms(8)] show ?thesis
    unfolding ql_scan_reader_def by metis
qed

lemma books_committed:
  "\<exists>tx cat m db1. run_at new_kv 12 Map.empty (tx, cat) m [str ''books'' \<mapsto> (stored_books, {book7, book8})]
    \<and> DB_commit tx (new_db\<lparr>db_catalog := cat\<rparr>) = (Inr (), db1) \<and> hitems (st_readers (db_kv db1)) = []
    \<and> (\<exists>H. kv_inv (db_kv db1) H \<and> kv_map (db_kv db1) H = m)"
proof -
  obtain tx cat m where s: "run_at new_kv 12 Map.empty (tx, cat) m [str ''books'' \<mapsto> (stored_books, {book7, book8})]"
    using two_books by auto
  obtain r kv' where run: "KV_commit (dt_tx tx) new_kv = (r, kv')"
    by fastforce
  obtain H' where C: "commit_outcome new_kv (dt_tx tx) (\<lambda>v. empty_ckpt) m r kv' H'"
    using commit_ok [OF _ _ _ run, of "\<lambda>v. empty_ckpt" m] session_atD(1) [OF s] new_db_inv(2) by (auto simp: new_db_inv(1))
  have "r = Inr ()"
    using C by (cases r) (auto simp: commit_outcome_def io_step_def)
  moreover have "DB_commit tx (new_db\<lparr>db_catalog := cat\<rparr>) = (r, (drop_uncommitted tx (new_db\<lparr>db_catalog := cat\<rparr>))\<lparr>db_kv := kv'\<rparr>)"
    by (simp add: DB_commit_def Let_def new_db_inv run)
  ultimately show ?thesis
    using s C by (fastforce simp: commit_outcome_def)
qed

lemma books_read:
  "\<exists>m rd db. sees_reader db rd m \<and> database m [str ''books'' \<mapsto> (stored_books, {book7, book8})]"
proof -
  obtain tx cat m H and db1 :: DB where c: "run_at new_kv 12 Map.empty (tx, cat) m [str ''books'' \<mapsto> (stored_books, {book7, book8})]"
      "hitems (st_readers (db_kv db1)) = []" "kv_inv (db_kv db1) H" "kv_map (db_kv db1) H = m"
    using books_committed by blast
  obtain rd2 db2 where "DB_begin_read \<lparr>dr_reader = 0, dr_tables = Map.empty\<rparr> db1 = (rd2, db2)"
    by fastforce
  then have "sees_reader db2 rd2 m"
    using reader_sees(1) [OF c(3), of "\<lparr>dr_reader = 0, dr_tables = Map.empty\<rparr>"] c(2,4) by auto
  then show ?thesis
    using session_atD(3) [OF c(1)] by blast
qed

lemma committed_rows_visible_witness:
  "\<exists>db rd rd' L. set L = {book7, book8} \<and> ql_scan_reader db 3 (scan_books by_x) rd = sret (map (row_rec stored_books) L) rd'"
proof -
  let ?D = "[str ''books'' \<mapsto> (stored_books, {book7, book8})]"
  obtain tx cat m db1 where c: "run_at (db_kv new_db) 12 Map.empty (tx, cat) m ?D"
      "DB_commit tx (new_db\<lparr>db_catalog := cat\<rparr>) = (Inr (), db1)" "hitems (st_readers (db_kv db1)) = []"
    using books_committed unfolding new_db_inv by blast
  have version: "unat (st_version (db_kv new_db)) + 1 < 2 ^ 63"
    by (simp add: new_db_inv)
  let ?rd = "\<lparr>dr_reader = 0, dr_tables = Map.empty\<rparr>"
  have fresh: "dr_reader ?rd \<notin> set (hitems (st_readers (db_kv db1)))"
    by (simp add: c(3))
  obtain rd2 db2 where begin_read: "DB_begin_read ?rd db1 = (rd2, db2)"
    by fastforce
  have D: "?D (sc_table (scan_books by_x)) = Some (stored_books, {book7, book8})" "card {book7, book8} < 3"
    using books_differ(2) by simp_all
  obtain rd3 L where "set L = {book7, book8}" "ql_scan_reader db2 3 (scan_books by_x) rd2 = sret (map (row_rec stored_books) (limited 0 (-1) L)) rd3"
    using committed_rows_visible [OF new_db_inv(2) c(1) version c(2) fresh begin_read D(1) books_answerable(2)] D(2)
    by (auto simp: books_answers)
  then show ?thesis
    unfolding limited_all by blast
qed

text \<open>
  C21: a scan ends. Over a table whose range fits an index, whatever the filter does on a row (it may
  fail, or not be a boolean), the scan loop returns within one step more than there are rows, and more
  steps change nothing.
\<close>

theorem scan_terminates:
  assumes "sees_reader db rd m" and "database m D" and "D (sc_table req) = Some (tdef, R)"
    and "q_type (sc_key1 req) = QL_UNINIT" and "q_type (sc_key2 req) = QL_UNINIT" and "ql_wf (sc_filter req)"
    and "\<And>r. ql_range (sc_filter req) tdef = Inr r \<Longrightarrow> one_index tdef r"
  shows "\<exists>r rd'. \<forall>fuel>card R. ql_scan_reader db fuel req rd = Inr (r, rd')"
proof -
  have t: "schema_ok tdef" "table_at tdef m R" "stored_def m (sc_table req) tdef"
    using databaseD(3) [OF assms(2,3)] by (simp_all add: table_in_def)
  have "finite R"
    using finite_rows [OF represents_finite t(1,2)] assms(1) unfolding sees_reader_def by blast
  then show ?thesis
    by (rule read_target.scan_total [OF assms(1) _ t(3,1,2) assms(4-7)]) (auto simp: ql_scan_reader_def)
qed



lemma scan_terminates_witness:
  "\<exists>db rd r rd'. \<forall>fuel>2. ql_scan_reader db fuel (scan_books by_x) rd = Inr (r, rd')"
proof -
  let ?D = "[str ''books'' \<mapsto> (stored_books, {book7, book8})]"
  obtain m rd db where r: "sees_reader db rd m" "database m ?D"
    using books_read by blast
  have D: "?D (sc_table (scan_books by_x)) = Some (stored_books, {book7, book8})" "card {book7, book8} = 2"
    using books_differ(2) by simp_all
  have q: "q_type (sc_key1 (scan_books by_x)) = QL_UNINIT" "q_type (sc_key2 (scan_books by_x)) = QL_UNINIT" "ql_wf (sc_filter (scan_books by_x))"
      "\<And>g. ql_range (sc_filter (scan_books by_x)) stored_books = Inr g \<Longrightarrow> one_index stored_books g"
    using books_answerable(2) unfolding answerable_def by blast+
  show ?thesis
    using scan_terminates [OF r D(1) q] unfolding D(2) by blast
qed

end
