(* ===== verification/Spec2Isabelle.thy ===== *)
theory Spec2Isabelle
  imports First_Commit KV_Machine QL_Parse_Spec Reads Delete_Overflow Range_Mismatch DB_Theorems
begin

text \<open>
  An embedded SQL database in C++. From the bottom up: a file of 4096-byte pages, written by \<open>pwrite\<close> and
  read through \<open>mmap\<close>; a copy-on-write B+tree in those pages; a free list that returns a page only when no
  open reader and no durable version needs it; a key-value store with one write transaction at a time,
  snapshot readers, and a two-phase commit (pages, \<open>fsync\<close>, meta page, \<open>fsync\<close>); byte encodings whose order
  is the order of the values; a catalog and tables with secondary indexes as ranges of keys; and a query
  language whose filters are narrowed to index scans. A C++ exception, a failed assertion, an access
  outside a buffer and a loop that does not end are values (\<open>Prelude\<close>), so each is a branch of the model and
  each correctness theorem says that it does not happen.

  \<^bold>\<open>Storage.\<close>
  \<^item> \<open>storage/btree\<close>: \<open>BNode\<close> (accessors and node operations on the bytes of a page), \<open>BTree\<close> (\<open>insert\<close>,
    \<open>remove\<close>, \<open>get\<close> over \<open>IPageManager\<close>, a record of functions). \<open>BNode_Spec\<close> relates bytes to entries,
    \<open>Tree_Model\<close> pages to an abstract tree; \<open>BTree_Spec\<close>, \<open>BTree_Insert\<close>, \<open>BTree_Delete\<close> prove the operations
    refine updates of a map, keep the shape and release exactly the pages they replace.
  \<^item> \<open>storage/btree_iter\<close>: \<open>BIter\<close>, \<open>BIter_Spec\<close>. An iterator refines an index into the sorted pairs.
  \<^item> \<open>storage/freelist\<close>: \<open>FreeList\<close>, \<open>FreeList_Spec\<close>. The unrolled list refines a queue of (page, version).
  \<^item> \<open>storage/reader_heap\<close>: \<open>Reader_Heap\<close>. Heap order and the slot that each reader records.
  \<^item> \<open>storage/kv_reader\<close>: \<open>KVReader\<close>, \<open>Reads\<close>. \<open>storage/kv\<close>, class \<open>KVTX\<close>: \<open>KVTX\<close>, \<open>KVTX_Spec\<close>, \<open>Tx_Store\<close>.
  \<^item> \<open>storage/kv\<close>, class \<open>KV\<close>: \<open>KV\<close> over \<open>Os_File\<close>. \<open>Checkpoint\<close> says what one version is in the file,
    \<open>KV_Inv\<close> is the store's invariant, \<open>KV_Begin\<close>, \<open>KV_Commit\<close>, \<open>KV_Publish\<close>, \<open>KV_Spec\<close>, \<open>KV_Recovery\<close> its
    preservation, \<open>KV_Theorems\<close> the properties. \<open>KV_Machine\<close> makes the store a step relation, and shows by a
    simulation that every run, with crashes and failing calls, is a run of a store of whole maps.

  \<^bold>\<open>Rows and tables.\<close>
  \<^item> \<open>encoding/order_preserving\<close>: \<open>Encoding\<close>. \<open>catalog/value\<close>, \<open>record\<close>, \<open>tabledef\<close>: \<open>Values\<close>, \<open>Table_Text\<close>.
    \<open>catalog/catalog\<close>: \<open>Schema\<close>, \<open>Catalog\<close>. \<open>access/row_codec\<close> and the choice of an index: \<open>Row_Codec\<close>,
    \<open>Row_Spec\<close>. \<open>access/scanner\<close>, \<open>index_ops\<close>, \<open>table_access\<close>: \<open>Scanner\<close>, \<open>Table_Access\<close>. \<open>db\<close>: \<open>DB\<close>.
  \<^item> \<open>Table_Model\<close> says which pairs are a table with its indexes; \<open>Table_Write\<close>, \<open>Table_Ops\<close>, \<open>Table_Spec\<close>
    show that row writes are updates of a set of rows, \<open>Scan_Spec\<close> that scans deliver the rows of a range,
    \<open>Catalog_Spec\<close> that a store is a map of tables with disjoint key prefixes, \<open>Session_Spec\<close>,
    \<open>Statement_Spec\<close> and \<open>Update_Spec\<close> that \<open>DBTX\<close> operations and statements are updates of that map.

  \<^bold>\<open>Queries.\<close>
  \<^item> \<open>ql/ql_ast\<close>: \<open>QL_Ast\<close>. \<open>ql/lexer.l\<close>: \<open>QL_Lexer\<close>. \<open>ql/parser.y\<close>, \<open>ql_parse\<close>: \<open>QL_Parse\<close>, \<open>QL_Parse_Spec\<close>.
    \<open>ql/ql_exec\<close>: \<open>QL_Eval\<close> (expressions), \<open>QL_Exec\<close> (statements). \<open>ql/ql_range\<close>: \<open>QL_Range\<close>,
    \<open>QL_Range_Spec\<close>, \<open>Range_Types\<close>.
  \<^item> \<open>Exec_Spec\<close> proves a scan equivalent to its declarative meaning on any \<open>ql_target\<close>, \<open>Exec_Target\<close> that
    readers and transactions are such targets, \<open>DB_Theorems\<close> the end-to-end properties, with the example
    database of \<open>Books_Example\<close>.
\<close>

section \<open>Interfaces\<close>

text \<open>
  \<^item> \<open>page_view\<close> (\<open>BTree_Spec\<close>): a reader of pages, and what reading a tree needs of it. \<open>page_store\<close> extends
    it by allocation and release. Interpreted on the mapped file (\<open>mapped\<close>) and on a write transaction
    (\<open>tx_pages\<close>, and \<open>tx_grown\<close> which also remembers what was written since it began).
  \<^item> \<open>free_pages\<close> (\<open>FreeList_Spec\<close>): the pages a free list lives in; interpreted on a transaction's buffer.
  \<^item> \<open>tx_store\<close> (\<open>Tx_Store\<close>): reads and writes on a map with room for \<open>n\<close> writes; the table and catalog
    layers are proved in it once. Interpreted for any transaction (\<open>held\<close>) and for one that runs in a
    store (\<open>run\<close>).
  \<^item> \<open>ql_target\<close> (\<open>Exec_Spec\<close>): what finds tables and delivers ranges of rows; interpreted on readers
    (\<open>read_target\<close>), and a sublocale of \<open>tx_store\<close>.
\<close>

section \<open>Bounds and side conditions\<close>

text \<open>
  \<^item> Recursion over pages takes fuel: \<open>TREE_FUEL\<close> is \<open>2 ^ 64\<close>, more than the height of a tree with
    distinct 64-bit page numbers, so the theorems say that operations return, and none says only what holds
    if they do. Scan loops take the fuel \<open>n\<close>; one more than the number of rows is enough, whatever the
    filter (\<open>scan_terminates\<close>). Loops whose counter the code bounds are structural.
  \<^item> \<open>MAX_PAGES\<close>, \<open>2 ^ 50\<close>, keeps byte offsets below \<open>2 ^ 62\<close>; \<open>tx_budget\<close> is what is left before page
    numbers and the free list's sequence numbers wrap. A write costs three page operations per level of the tree and
    four at the root (\<open>set_holds_tall\<close>, \<open>del_holds_tall\<close>), and adds at most one level. \<open>tx_cost\<close> bounds that by
    the pages of the tree; \<open>room n\<close> asks for \<open>n * (3 * (h + n) + 4)\<close> at height \<open>h\<close>. In a database of up to
    \<open>2 ^ 24\<close> pages with half of the budget left there is room for \<open>2 ^ 20\<close> writes (\<open>room_large\<close>). Versions stay below \<open>2 ^ 63\<close>, since the code compares them by signed difference.
  \<^item> Deletion can fail for lack of room in an internal node (\<open>Delete_Overflow\<close>). \<open>roomy\<close> is the room
    that the proofs need, as much in every internal node as the next key is longer; \<open>short_successor\<close>, which does not
    mention pages, implies it: the next key is not longer. It is asked of every key deleted, separator or not. \<open>short_update\<close>, \<open>short_updates\<close> and \<open>short_delete\<close> state that for all keys that a row operation removes.
  \<^item> \<open>storable\<close>: a definition fits one value and its names have no white space (\<open>table_def_text_lossy\<close> shows
    why). \<open>answerable\<close>: evaluating the filter has no error on any row, and the index that the scan picks is the
    one its range was built for (\<open>one_index\<close>; \<open>Range_Mismatch\<close> shows that it can be another).
  \<^item> The file (\<open>Os_File\<close>): every call may fail, as a schedule says, a write after any number of bytes; after a
    crash each byte written since the last \<open>fsync\<close> is old or new, independently of the others, except that the
    72 bytes of the meta page, which lie in one sector, change as a whole. A crash in the middle of a commit is a
    call that fails, followed by a crash.
\<close>

section \<open>What the properties show\<close>

text \<open>
  In the manifest's order: the write transaction refines a map, and reads return what it holds; the
  store refines a multi-version store of maps, with atomic commits across failing calls and crashes and
  isolated snapshots; queries are equivalent to their declarative meaning, order included, row writes and table creation are
  updates of the database, and its cache of definitions stays right; the lower components satisfy their contracts
  (ordered and invertible encodings, the heap, the schema, the row codec, the soundness of narrowing, the
  typing of expressions, the shape of parsed statements).

  The order of a query's rows is that of the index it reads (\<open>scan_order\<close>), and OFFSET and LIMIT cut that list;
  DELETE and UPDATE act on the same rows.

  Modelling showed four defects, each with a theorem on a concrete input: a first commit that fails leaves a
  file that cannot be opened (\<open>First_Commit\<close>); deleting a key can overflow a full internal node
  (\<open>Delete_Overflow\<close>); names with white space do not survive the catalog (\<open>Table_Text\<close>); \<open>ql_range\<close> and the
  scanner can disagree about the index, which rejects a valid query (\<open>Range_Mismatch\<close>).
  It showed one divergence: \<open>ql_exec.h\<close> promises rows in primary-key order before LIMIT, the code gives them in the
  order of the index (\<open>ql_scan_correct\<close>).
\<close>

section \<open>Not modelled\<close>

text \<open>
  \<^item> The automaton that bison generates from \<open>parser.y\<close>: which of the trees of an ambiguous expression precedence
    picks is the argument \<open>run\<close> of \<open>parse_statement\<close>. The hypothesis \<open>bison\<close> asks only that it accepts nothing but
    sentences of the grammar and runs their actions. Positions in the messages of errors that actions throw are not kept.
    The scanner is modelled from the patterns of \<open>lexer.l\<close>, not from flex's tables.
  \<^item> Threads: the mutexes make each operation of the store atomic, and operations interleave in any order
    (\<open>KV_Machine\<close>). Waiting for the writer lock is \<open>None\<close>. Reads of the mapping concurrent with a commit are
    covered as reads before or after it, since a commit changes no page that a reader needs.
  \<^item> Nothing that the code does in a statement is left out of the model, but the projection of SELECT
    beyond the typing of its expressions has no theorem.
  \<^item> What a failed statement had already put into its output argument; capacity and cost; \<open>main.cpp\<close>, a
    demonstration that prints a page, and the tests.
\<close>

end
